(* ===== verification/Mantis_Prelude.thy ===== *)
theory Mantis_Prelude
  imports Main "HOL-Library.Word" "HOL-Library.Monad_Syntax" "HOL-Library.Signed_Division"
begin

text \<open>
  Shared layer of the development: the machine integers of Rust, the two ways an
  operation can fail, and the generic lemmas the component theories use.

  \<^item> An \<open>i64\<close> is a 64 bit word read by \<open>sint\<close>, a \<open>u64\<close> the same word
    read by \<open>uint\<close>; \<open>i128\<close> and \<open>u128\<close> are 128 bit words.
  \<^item> A panic of the Rust program is the value \<open>None\<close> of the type \<open>'a panics\<close>,
    so that a computation that may panic is written with the option monad's do notation.
    A Rust \<open>Option\<close> is an ordinary \<open>'a option\<close>, a Rust \<open>Result\<close> a sum with
    the error on the left.
  \<^item> The operators \<open>+\<close>, \<open>-\<close>, \<open>*\<close> and unary minus on signed integers panic on
    overflow in a build with overflow checks and wrap around in a build without.
    The flag \<open>oc\<close> of the operator models is that build setting.
\<close>

unbundle bit_operations_syntax

named_theorems i64_defs \<open>definitions of the i64 operators\<close>
named_theorems i64_simps \<open>signed readings of the i64 operators\<close>

type_synonym i64 = "64 word"
type_synonym u64 = "64 word"
type_synonym u32 = "32 word"
type_synonym u16 = "16 word"
type_synonym u8 = "8 word"
type_synonym i128 = "128 word"
type_synonym u128 = "128 word"
type_synonym usize = nat
type_synonym 'a panics = "'a option"

section \<open>Signed 64 bit integers\<close>

definition in_i64 :: "int \<Rightarrow> bool" where
  "in_i64 x \<longleftrightarrow> - (2 ^ 63) \<le> x \<and> x < 2 ^ 63"

definition i64_MIN :: i64 where
  "i64_MIN = word_of_int (- (2 ^ 63))"

definition i64_MAX :: i64 where
  "i64_MAX = word_of_int (2 ^ 63 - 1)"

text \<open>An operator result \<open>x\<close>, computed exactly: kept when it fits, otherwise a panic
  or the low 64 bits, by the build's overflow checks.\<close>

definition i64_arith :: "bool \<Rightarrow> int \<Rightarrow> i64 panics" where
  "i64_arith oc x = (if in_i64 x \<or> \<not> oc then Some (word_of_int x) else None)"

definition add_i64 :: "bool \<Rightarrow> i64 \<Rightarrow> i64 \<Rightarrow> i64 panics" where
  "add_i64 oc a b = i64_arith oc (sint a + sint b)"

definition sub_i64 :: "bool \<Rightarrow> i64 \<Rightarrow> i64 \<Rightarrow> i64 panics" where
  "sub_i64 oc a b = i64_arith oc (sint a - sint b)"

definition mul_i64 :: "bool \<Rightarrow> i64 \<Rightarrow> i64 \<Rightarrow> i64 panics" where
  "mul_i64 oc a b = i64_arith oc (sint a * sint b)"

definition neg_i64 :: "bool \<Rightarrow> i64 \<Rightarrow> i64 panics" where
  "neg_i64 oc a = i64_arith oc (- sint a)"

definition abs_i64 :: "bool \<Rightarrow> i64 \<Rightarrow> i64 panics" where
  "abs_i64 oc a = i64_arith oc \<bar>sint a\<bar>"

text \<open>Rust's division truncates toward zero and panics, in every build, on a zero divisor
  and on \<open>MIN / -1\<close>.\<close>

definition div_i64 :: "i64 \<Rightarrow> i64 \<Rightarrow> i64 panics" where
  "div_i64 a b =
     (if b = 0 \<or> \<not> in_i64 (sint a sdiv sint b) then None
      else Some (word_of_int (sint a sdiv sint b)))"

definition i64_checked :: "int \<Rightarrow> i64 option" where
  "i64_checked x = (if in_i64 x then Some (word_of_int x) else None)"

definition i64_saturate :: "int \<Rightarrow> i64" where
  "i64_saturate x = word_of_int (max (- (2 ^ 63)) (min (2 ^ 63 - 1) x))"

definition signum_i64 :: "i64 \<Rightarrow> i64" where
  "signum_i64 a = word_of_int (sgn (sint a))"

declare in_i64_def [i64_defs] i64_arith_def [i64_defs] add_i64_def [i64_defs]
  sub_i64_def [i64_defs] mul_i64_def [i64_defs] neg_i64_def [i64_defs] abs_i64_def [i64_defs]
  div_i64_def [i64_defs] i64_checked_def [i64_defs] i64_saturate_def [i64_defs]
  signum_i64_def [i64_defs]

section \<open>Signed 128 bit integers\<close>

definition in_i128 :: "int \<Rightarrow> bool" where
  "in_i128 x \<longleftrightarrow> - (2 ^ 127) \<le> x \<and> x < 2 ^ 127"

definition i128_arith :: "bool \<Rightarrow> int \<Rightarrow> i128 panics" where
  "i128_arith oc x = (if in_i128 x \<or> \<not> oc then Some (word_of_int x) else None)"

definition div_i128 :: "i128 \<Rightarrow> i128 \<Rightarrow> i128 panics" where
  "div_i128 a b =
     (if b = 0 \<or> \<not> in_i128 (sint a sdiv sint b) then None
      else Some (word_of_int (sint a sdiv sint b)))"

definition rem_i128 :: "i128 \<Rightarrow> i128 \<Rightarrow> i128 panics" where
  "rem_i128 a b =
     (if b = 0 \<or> \<not> in_i128 (sint a sdiv sint b) then None
      else Some (word_of_int (sint a smod sint b)))"

text \<open>The range test the code writes before each narrowing cast
  (\<open>result > i64::MAX as i128 || result < i64::MIN as i128\<close>), and the cast.\<close>

definition i128_to_i64_checked :: "i128 \<Rightarrow> i64 option" where
  "i128_to_i64_checked r =
     (if sint r > 2 ^ 63 - 1 \<or> sint r < - (2 ^ 63) then None else Some (ucast r))"

section \<open>Counters\<close>

text \<open>\<open>+= 1\<close> on a \<open>u64\<close>.\<close>

definition inc_u64 :: "bool \<Rightarrow> u64 \<Rightarrow> u64 panics" where
  "inc_u64 oc x = (if x = - 1 \<and> oc then None else Some (x + 1))"

lemma inc_u64_small: "unat x < 2 ^ 64 - 1 \<Longrightarrow> inc_u64 oc x = Some (x + 1)"
proof -
  assume a: "unat x < 2 ^ 64 - 1"
  have "unat (- 1 :: u64) = 2 ^ 64 - 1" by (simp add: unsigned_minus_1_eq_mask mask_eq_exp_minus_1)
  with a have "x \<noteq> - 1" by force
  then show ?thesis by (simp add: inc_u64_def)
qed

section \<open>Signed readings\<close>

lemma sint_of_int_range:
  assumes "- (2 ^ (LENGTH('a) - 1)) \<le> x" and "x < 2 ^ (LENGTH('a) - 1)"
  shows "sint (word_of_int x :: 'a::len word) = x"
  using assms by (simp add: sint_sbintrunc' signed_take_bit_int_eq_self)

lemma sint_of_int_i64 [simp]:
  "in_i64 x \<Longrightarrow> sint (word_of_int x :: i64) = x"
  by (rule sint_of_int_range) (simp_all add: in_i64_def)

lemma sint_i64_bounds:
  fixes a :: i64
  shows "- (2 ^ 63) \<le> sint a" "sint a < 2 ^ 63"
  using sint_range_size [of a] by (simp_all add: word_size)

lemma in_i64_sint [simp, intro]: "in_i64 (sint (a :: i64))"
  using sint_i64_bounds [of a] by (simp add: in_i64_def)

lemma word_of_int_sint [simp]: "word_of_int (sint (a :: 'a::len word)) = a"
  using scast_id [of a] by (simp add: scast_eq)

lemma i64_eq_iff: "(a :: i64) = b \<longleftrightarrow> sint a = sint b"
  by (auto intro: signed_word_eqI)

lemma sint_i64_MIN [simp]: "sint i64_MIN = - (2 ^ 63)"
  by (simp add: i64_MIN_def in_i64_def)

lemma sint_i64_MAX [simp]: "sint i64_MAX = 2 ^ 63 - 1"
  by (simp add: i64_MAX_def in_i64_def)

lemma sint_eq_0_iff [simp]: "sint (a :: 'a::len word) = 0 \<longleftrightarrow> a = 0"
  by (metis signed_0 word_of_int_sint word_of_int_0)

lemma in_i64_numeral_range: "\<bar>x\<bar> < 2 ^ 63 \<Longrightarrow> in_i64 x"
  by (auto simp: in_i64_def)

lemma i64_arith_fits [simp]: "in_i64 x \<Longrightarrow> i64_arith oc x = Some (word_of_int x)"
  by (simp add: i64_arith_def)

lemma i64_arith_checked: "i64_arith True x = i64_checked x"
  by (simp add: i64_arith_def i64_checked_def)

lemma i64_arith_Some_sint:
  "i64_arith oc x = Some r \<Longrightarrow> in_i64 x \<Longrightarrow> sint r = x"
  by auto

lemma i64_arith_wraps: "i64_arith False x = Some (word_of_int x)"
  by (simp add: i64_arith_def)

lemma i64_checked_eq_Some:
  "i64_checked x = Some r \<longleftrightarrow> in_i64 x \<and> sint r = x"
  by (auto simp: i64_checked_def)

lemma i64_checked_eq_None: "i64_checked x = None \<longleftrightarrow> \<not> in_i64 x"
  by (simp add: i64_checked_def)

lemma i64_checked_sint [simp]: "i64_checked (sint a) = Some a"
  by (simp add: i64_checked_def)

lemma sint_i64_saturate:
  "sint (i64_saturate x) = max (- (2 ^ 63)) (min (2 ^ 63 - 1) x)"
  unfolding i64_saturate_def by (rule sint_of_int_i64) (auto simp: in_i64_def)

lemma sint_signum_i64 [simp]: "sint (signum_i64 a) = sgn (sint a)"
  unfolding signum_i64_def by (rule sint_of_int_i64) (auto simp: in_i64_def sgn_if)

lemma sint_of_int_i128 [simp]:
  "in_i128 x \<Longrightarrow> sint (word_of_int x :: i128) = x"
  by (rule sint_of_int_range) (simp_all add: in_i128_def)

lemma sint_i128_bounds:
  fixes a :: i128
  shows "- (2 ^ 127) \<le> sint a" "sint a < 2 ^ 127"
  using sint_range_size [of a] by (simp_all add: word_size)

lemma in_i128_sint [simp, intro]: "in_i128 (sint (a :: i128))"
  using sint_i128_bounds [of a] by (simp add: in_i128_def)

lemma i128_arith_fits [simp]: "in_i128 x \<Longrightarrow> i128_arith oc x = Some (word_of_int x)"
  by (simp add: i128_arith_def)

lemma ucast_word_of_int_i64 [simp]:
  "ucast (word_of_int x :: i128) = (word_of_int x :: i64)"
  by transfer (simp add: take_bit_take_bit)

lemma ucast_i128_i64: "ucast (w :: i128) = (word_of_int (sint w) :: i64)"
  using ucast_word_of_int_i64 [of "sint w"] by simp

lemma i128_to_i64_checked_eq:
  "i128_to_i64_checked r = i64_checked (sint r)"
  by (auto simp: i128_to_i64_checked_def i64_checked_def in_i64_def ucast_i128_i64)

lemma sint_scast_i128 [simp]: "sint (scast (a :: i64) :: i128) = sint a"
  by (rule sint_up_scast) (simp add: is_up)

text \<open>A 64 by 64 bit signed product fits in 128 bits, with one bit to spare.\<close>

lemma i64_mult_bound:
  fixes a b :: i64
  shows "\<bar>sint a * sint b\<bar> \<le> 2 ^ 126"
proof -
  have "\<bar>sint a\<bar> \<le> 2 ^ 63" "\<bar>sint b\<bar> \<le> 2 ^ 63"
    using sint_i64_bounds [of a] sint_i64_bounds [of b] by auto
  then have "\<bar>sint a\<bar> * \<bar>sint b\<bar> \<le> 2 ^ 63 * 2 ^ 63"
    by (intro mult_mono) auto
  then show ?thesis by (simp add: abs_mult)
qed

lemma in_i128_abs: "\<bar>x\<bar> < 2 ^ 127 \<Longrightarrow> in_i128 x"
  by (auto simp: in_i128_def)

lemma in_i128_mult [simp, intro]: "in_i128 (sint (a :: i64) * sint (b :: i64))"
  using i64_mult_bound [of a b] by (intro in_i128_abs) simp

section \<open>Unsigned words in halves\<close>

lemma uint_u64_bound: "uint (a :: u64) < 2 ^ 64"
  using uint_bounded [of a] by simp

lemma uint_sint_i64: "uint (a :: i64) = (if sint a < 0 then sint a + 2 ^ 64 else sint a)"
proof -
  have u: "uint a = sint a mod 2 ^ 64"
    by (simp add: uint_sint take_bit_eq_mod)
  show ?thesis
  proof (cases "sint a < 0")
    case True
    then have "(sint a + 2 ^ 64) mod 2 ^ 64 = sint a + 2 ^ 64"
      using sint_i64_bounds [of a] by (intro mod_pos_pos_trivial) auto
    with True u show ?thesis by simp
  next
    case False
    then have "sint a mod 2 ^ 64 = sint a"
      using sint_i64_bounds [of a] by (intro mod_pos_pos_trivial) auto
    with False u show ?thesis by simp
  qed
qed

lemma uint_minus_1_u64 [simp]: "uint (- 1 :: u64) = 2 ^ 64 - 1"
  by (simp add: unsigned_minus_1_eq_mask mask_eq_exp_minus_1)

lemma uint_not_u64: "uint (NOT (a :: u64)) = 2 ^ 64 - 1 - uint a"
proof -
  have "NOT a = - 1 - a" by (simp add: not_eq_complement)
  then show ?thesis
    using uint_u64_bound [of a] by (simp add: uint_sub_if')
qed

lemma int_push_or:
  assumes "0 \<le> (b :: int)" and "b < 2 ^ n"
  shows "push_bit n a OR b = a * 2 ^ n + b"
proof -
  have b: "take_bit n b = b"
    using assms by (simp add: take_bit_int_eq_self)
  have "push_bit n a OR b = concat_bit n b a"
    by (simp add: concat_bit_def b or.commute)
  also have "\<dots> = b + push_bit n a"
    by (simp add: concat_bit_eq b)
  finally show ?thesis by (simp add: push_bit_eq_mult)
qed

lemma uint_ucast_u128 [simp]: "uint (ucast (a :: u64) :: u128) = uint a"
  by (rule uint_up_ucast) (simp add: is_up)

lemma uint_u128_bound: "uint (a :: u128) < 2 ^ 128"
  using uint_bounded [of a] by simp

lemma uint_ucast_u64: "uint (a :: u128) < 2 ^ 64 \<Longrightarrow> uint (ucast a :: u64) = uint a"
  by (simp add: unsigned_ucast_eq take_bit_int_eq_self)

lemma uint_push_or:
  fixes h l :: "'a::len word"
  assumes "uint h * 2 ^ n + uint l < 2 ^ LENGTH('a)" and "uint l < 2 ^ n"
  shows "uint (push_bit n h OR l) = uint h * 2 ^ n + uint l"
proof -
  have "uint h * 2 ^ n < 2 ^ LENGTH('a)"
    using assms(1) uint_nonnegative [of l] by linarith
  then have "take_bit LENGTH('a) (push_bit n (uint h)) = push_bit n (uint h)"
    by (intro take_bit_int_eq_self) (simp_all add: push_bit_eq_mult)
  then have "uint (push_bit n h) = push_bit n (uint h)"
    by (simp add: unsigned_push_bit_eq)
  then show ?thesis
    using assms(2) by (simp add: unsigned_or_eq int_push_or)
qed

section \<open>Truncating division\<close>

lemma int_div_less:
  assumes "0 < (d :: int)" and "x < c * d"
  shows "x div d < c"
proof -
  have "x div d * d \<le> x"
    using pos_mod_sign [OF assms(1), of x] by (simp flip: minus_mod_eq_div_mult)
  with assms(2) have "x div d * d < c * d" by linarith
  with assms(1) show ?thesis by (simp add: mult_less_cancel_right)
qed

lemma sdiv_nonneg: "0 \<le> a \<Longrightarrow> 0 < b \<Longrightarrow> (a :: int) sdiv b = a div b"
  by (simp add: signed_divide_int_def sgn_if)

lemma sdiv_neg: "a < 0 \<Longrightarrow> 0 < b \<Longrightarrow> (a :: int) sdiv b = - ((- a) div b)"
  by (simp add: signed_divide_int_def sgn_if)

lemma abs_sdiv: "\<bar>(a :: int) sdiv b\<bar> = \<bar>a\<bar> div \<bar>b\<bar>"
  by (cases "b = 0") (auto simp: signed_divide_int_def abs_mult sgn_if pos_imp_zdiv_nonneg_iff)

lemma abs_sdiv_le: "\<bar>(a :: int) sdiv b\<bar> \<le> \<bar>a\<bar>"
  using sdiv_int_range [of a b] by auto

lemma in_i64_sdiv:
  assumes "in_i64 a" and "0 < b"
  shows "in_i64 (a sdiv b)"
proof (cases "0 \<le> a")
  case True
  then have "0 \<le> a sdiv b" "a sdiv b \<le> a"
    using assms(2) abs_sdiv_le [of a b] by (auto simp: sdiv_nonneg pos_imp_zdiv_nonneg_iff)
  with assms(1) show ?thesis by (auto simp: in_i64_def)
next
  case False
  then have "a \<le> a sdiv b" "a sdiv b \<le> 0"
    using assms(2) abs_sdiv_le [of a b] by (auto simp: sdiv_neg pos_imp_zdiv_nonneg_iff)
  with assms(1) show ?thesis by (auto simp: in_i64_def)
qed

lemma div_i64_pos:
  "0 < sint b \<Longrightarrow> div_i64 a b = Some (word_of_int (sint a sdiv sint b))"
  by (auto simp: div_i64_def in_i64_sdiv)

text \<open>The error of truncation: the remainder has the sign of the dividend and is smaller
  than the divisor.\<close>

lemma sdiv_error:
  assumes "0 < (b :: int)"
  shows "\<bar>a - a sdiv b * b\<bar> < b" and "0 \<le> a \<Longrightarrow> a sdiv b * b \<le> a" and "a \<le> 0 \<Longrightarrow> a \<le> a sdiv b * b"
proof -
  have pos: "0 \<le> x - x div b * b \<and> x - x div b * b < b" for x :: int
    using assms pos_mod_bound [of b x] pos_mod_sign [of b x]
    by (simp add: minus_div_mult_eq_mod)
  show "\<bar>a - a sdiv b * b\<bar> < b"
    using pos [of a] pos [of "- a"] assms
    by (cases "0 \<le> a") (auto simp: sdiv_nonneg sdiv_neg abs_less_iff)
  show "0 \<le> a \<Longrightarrow> a sdiv b * b \<le> a"
    using pos [of a] assms by (simp add: sdiv_nonneg)
  show "a \<le> 0 \<Longrightarrow> a \<le> a sdiv b * b"
    using pos [of "- a"] assms by (cases "a = 0") (simp_all add: sdiv_neg)
qed

lemma sdiv_mult_cancel: "0 < (b :: int) \<Longrightarrow> (a * b) sdiv b = a"
  by (cases "0 \<le> a") (simp_all add: sdiv_nonneg sdiv_neg mult_less_0_iff flip: mult_minus_left)

section \<open>Panicking computations\<close>

lemma bind_panics_Some [simp]: "Option.bind (Some x) f = f x"
  by simp

lemma bind_eq_SomeE:
  assumes "Option.bind m f = Some y"
  obtains x where "m = Some x" and "f x = Some y"
  using assms by (cases m) auto

section \<open>Lists\<close>

lemma list_update_map_id:
  "i < length xs \<Longrightarrow> xs ! i = f (xs ! i) \<Longrightarrow> xs[i := f (xs ! i)] = xs"
  by (metis list_update_id)

lemma replicate_update_same: "(replicate n x)[i := x] = replicate n x"
  by (metis list_update_id list_update_beyond length_replicate not_less nth_replicate)

end
