(* ===== verification/Fixed_Arith.thy ===== *)
theory Fixed_Arith
  imports Mantis_Prelude
begin

text \<open>
  The type \<open>FixedI64<D>\<close> (\<open>crates/fixed/src/fixed_i64.rs\<close>), its operators and its
  checked, saturating and wrapping arithmetic (\<open>crates/fixed/src/arithmetic.rs\<close>), and the
  power-of-ten table (\<open>crates/platform/src/numerics.rs\<close>).

  A value is its raw \<open>i64\<close>; the const generic \<open>D\<close> is an argument of the operations
  that use it. \<open>D \<le> 18\<close> is asserted at compile time (\<open>_BOUND_CHECK\<close>), so a program
  with a larger \<open>D\<close> does not exist; the theorems assume it.
\<close>

type_synonym fixed = i64

section \<open>Powers of ten\<close>

definition POW10_I64 :: "i64 list" where
  "POW10_I64 =
    [1, 10, 100, 1000, 10000, 100000, 1000000, 10000000, 100000000, 1000000000,
     10000000000, 100000000000, 1000000000000, 10000000000000, 100000000000000,
     1000000000000000, 10000000000000000, 100000000000000000, 1000000000000000000]"

definition pow10_i64 :: "nat \<Rightarrow> i64" where
  "pow10_i64 d = POW10_I64 ! d"

section \<open>The type\<close>

definition SCALE :: "nat \<Rightarrow> i64" where
  "SCALE D = pow10_i64 D"

definition fixed_ZERO :: fixed where
  "fixed_ZERO = 0"

definition fixed_ONE :: "nat \<Rightarrow> fixed" where
  "fixed_ONE D = SCALE D"

definition fixed_MIN :: fixed where
  "fixed_MIN = i64_MIN"

definition fixed_MAX :: fixed where
  "fixed_MAX = i64_MAX"

definition fixed_from_raw :: "i64 \<Rightarrow> fixed" where
  "fixed_from_raw raw = raw"

definition fixed_to_raw :: "fixed \<Rightarrow> i64" where
  "fixed_to_raw x = x"

definition fixed_from_int :: "nat \<Rightarrow> i64 \<Rightarrow> fixed option" where
  "fixed_from_int D val = i64_checked (sint val * sint (SCALE D))"

definition fixed_is_zero :: "fixed \<Rightarrow> bool" where
  "fixed_is_zero x \<longleftrightarrow> fixed_to_raw x = 0"

definition fixed_is_negative :: "fixed \<Rightarrow> bool" where
  "fixed_is_negative x \<longleftrightarrow> sint (fixed_to_raw x) < 0"

definition fixed_is_positive :: "fixed \<Rightarrow> bool" where
  "fixed_is_positive x \<longleftrightarrow> sint (fixed_to_raw x) > 0"

section \<open>Operators\<close>

definition fixed_add :: "bool \<Rightarrow> fixed \<Rightarrow> fixed \<Rightarrow> fixed panics" where
  "fixed_add oc x rhs =
     map_option fixed_from_raw (add_i64 oc (fixed_to_raw x) (fixed_to_raw rhs))"

definition fixed_sub :: "bool \<Rightarrow> fixed \<Rightarrow> fixed \<Rightarrow> fixed panics" where
  "fixed_sub oc x rhs =
     map_option fixed_from_raw (sub_i64 oc (fixed_to_raw x) (fixed_to_raw rhs))"

definition fixed_neg :: "bool \<Rightarrow> fixed \<Rightarrow> fixed panics" where
  "fixed_neg oc x = map_option fixed_from_raw (neg_i64 oc (fixed_to_raw x))"

text \<open>The assignment operators replace the left operand by the operator's result.\<close>

definition fixed_add_assign :: "bool \<Rightarrow> fixed \<Rightarrow> fixed \<Rightarrow> fixed panics" where
  "fixed_add_assign oc x rhs = fixed_add oc x rhs"

definition fixed_sub_assign :: "bool \<Rightarrow> fixed \<Rightarrow> fixed \<Rightarrow> fixed panics" where
  "fixed_sub_assign oc x rhs = fixed_sub oc x rhs"

section \<open>Checked, saturating and wrapping arithmetic\<close>

definition fixed_checked_add :: "fixed \<Rightarrow> fixed \<Rightarrow> fixed option" where
  "fixed_checked_add x rhs =
     (case i64_checked (sint (fixed_to_raw x) + sint (fixed_to_raw rhs)) of
        Some v \<Rightarrow> Some (fixed_from_raw v)
      | None \<Rightarrow> None)"

definition fixed_checked_sub :: "fixed \<Rightarrow> fixed \<Rightarrow> fixed option" where
  "fixed_checked_sub x rhs =
     (case i64_checked (sint (fixed_to_raw x) - sint (fixed_to_raw rhs)) of
        Some v \<Rightarrow> Some (fixed_from_raw v)
      | None \<Rightarrow> None)"

definition fixed_checked_neg :: "fixed \<Rightarrow> fixed option" where
  "fixed_checked_neg x =
     (case i64_checked (- sint (fixed_to_raw x)) of
        Some v \<Rightarrow> Some (fixed_from_raw v)
      | None \<Rightarrow> None)"

definition fixed_saturating_add :: "fixed \<Rightarrow> fixed \<Rightarrow> fixed" where
  "fixed_saturating_add x rhs =
     fixed_from_raw (i64_saturate (sint (fixed_to_raw x) + sint (fixed_to_raw rhs)))"

definition fixed_saturating_sub :: "fixed \<Rightarrow> fixed \<Rightarrow> fixed" where
  "fixed_saturating_sub x rhs =
     fixed_from_raw (i64_saturate (sint (fixed_to_raw x) - sint (fixed_to_raw rhs)))"

definition fixed_wrapping_add :: "fixed \<Rightarrow> fixed \<Rightarrow> fixed" where
  "fixed_wrapping_add x rhs = fixed_from_raw (fixed_to_raw x + fixed_to_raw rhs)"

definition fixed_wrapping_sub :: "fixed \<Rightarrow> fixed \<Rightarrow> fixed" where
  "fixed_wrapping_sub x rhs = fixed_from_raw (fixed_to_raw x - fixed_to_raw rhs)"

definition fixed_wrapping_neg :: "fixed \<Rightarrow> fixed" where
  "fixed_wrapping_neg x = fixed_from_raw (- fixed_to_raw x)"

definition fixed_checked_abs :: "fixed \<Rightarrow> fixed option" where
  "fixed_checked_abs x =
     (case i64_checked \<bar>sint (fixed_to_raw x)\<bar> of
        Some v \<Rightarrow> Some (fixed_from_raw v)
      | None \<Rightarrow> None)"

definition fixed_saturating_abs :: "fixed \<Rightarrow> fixed" where
  "fixed_saturating_abs x = fixed_from_raw (i64_saturate \<bar>sint (fixed_to_raw x)\<bar>)"

lemmas fixed_conv_defs = fixed_from_raw_def fixed_to_raw_def fixed_ZERO_def
  fixed_ONE_def fixed_MIN_def fixed_MAX_def

section \<open>Facts\<close>

lemma POW10_I64_length [simp]: "length POW10_I64 = 19"
  by (simp add: POW10_I64_def)

lemma sint_numeral_i64:
  "(numeral n :: int) < 2 ^ 63 \<Longrightarrow> sint (numeral n :: i64) = numeral n"
  using sint_of_int_i64 [of "numeral n"] by (simp add: in_i64_def)

lemma sint_pow10_list: "map sint POW10_I64 = map (\<lambda>d. 10 ^ d) [0..<19]"
  by (simp add: POW10_I64_def upt_rec sint_numeral_i64)

lemma sint_pow10 [simp]: "d \<le> 18 \<Longrightarrow> sint (pow10_i64 d) = 10 ^ d"
proof -
  assume "d \<le> 18"
  then have "map sint POW10_I64 ! d = map (\<lambda>d. 10 ^ d :: int) [0..<19] ! d"
    by (simp only: sint_pow10_list)
  with \<open>d \<le> 18\<close> show ?thesis by (simp add: pow10_i64_def)
qed

lemma sint_SCALE [simp]: "D \<le> 18 \<Longrightarrow> sint (SCALE D) = 10 ^ D"
  by (simp add: SCALE_def)

lemma pow10_bound: "D \<le> 18 \<Longrightarrow> (10 :: int) ^ D \<le> 10 ^ 18"
  by (rule power_increasing) simp_all

lemma fixed_checked_add_iff:
  "fixed_checked_add x y = i64_checked (sint x + sint y)"
  by (simp add: fixed_checked_add_def fixed_conv_defs split: option.split)

lemma fixed_checked_sub_iff:
  "fixed_checked_sub x y = i64_checked (sint x - sint y)"
  by (simp add: fixed_checked_sub_def fixed_conv_defs split: option.split)

lemma fixed_saturating_add_sint:
  "sint (fixed_saturating_add x y) = max (- (2 ^ 63)) (min (2 ^ 63 - 1) (sint x + sint y))"
  by (simp add: fixed_saturating_add_def fixed_conv_defs sint_i64_saturate)

end
