(* ===== verification/Fixed_Mul_Div.thy ===== *)
theory Fixed_Mul_Div
  imports Fixed_Arith
begin

text \<open>
  Multiplication and division of \<open>FixedI64<D>\<close> with explicit rounding
  (\<open>crates/fixed/src/mul_div.rs\<close>), including the decomposed 128 by 64 bit division
  that replaces the runtime's \<open>__divti3\<close>. The intermediate values keep the source's
  widths; the lemmas read them back as integers and show that no intermediate step
  overflows, so no build of these functions panics for a legal \<open>D\<close>.
\<close>

section \<open>Wide division\<close>

definition div_u128_by_u64 :: "u64 \<Rightarrow> u64 \<Rightarrow> u64 \<Rightarrow> (u64 \<times> u64 \<times> u64) panics" where
  "div_u128_by_u64 hi lo d =
     (if d = 0 then None else
      let q_hi = hi div d;
          r_hi = hi mod d;
          lo_upper = drop_bit 32 lo;
          lo_lower = lo AND 0xFFFFFFFF;
          mid_num = push_bit 32 (ucast r_hi :: u128) OR ucast lo_upper;
          q_mid = ucast (mid_num div ucast d) :: u64;
          r_mid = ucast (mid_num mod ucast d) :: u64;
          low_num = push_bit 32 (ucast r_mid :: u128) OR ucast lo_lower;
          q_low = ucast (low_num div ucast d) :: u64;
          rem = ucast (low_num mod ucast d) :: u64;
          q_lo = push_bit 32 q_mid OR q_low
      in Some (q_hi, q_lo, rem))"

definition div_wide_by_const :: "bool \<Rightarrow> i64 \<Rightarrow> u64 \<Rightarrow> i64 \<Rightarrow> (i128 \<times> i64) panics" where
  "div_wide_by_const oc hi lo d =
     (let negative = sint hi < 0;
          (abs_lo, abs_hi) =
            (if negative
             then let not_lo = NOT lo;
                      neg_lo = not_lo + 1;
                      carry = (if uint not_lo + 1 \<ge> 2 ^ 64 then 1 else 0);
                      neg_hi = NOT hi + carry
                  in (neg_lo, neg_hi)
             else (lo, hi))
      in do {
        (q_hi, q_lo, rem) \<leftarrow> div_u128_by_u64 abs_hi abs_lo d;
        let abs_quot = push_bit 64 (ucast q_hi :: u128) OR ucast q_lo;
        if negative
        then do {
          q \<leftarrow> i128_arith oc (- sint abs_quot);
          r \<leftarrow> neg_i64 oc rem;
          Some (q, r)
        }
        else Some (abs_quot, rem)
      })"

section \<open>Multiplication\<close>

definition checked_mul_trunc :: "bool \<Rightarrow> nat \<Rightarrow> fixed \<Rightarrow> fixed \<Rightarrow> fixed option panics" where
  "checked_mul_trunc oc D x rhs =
     (let a = fixed_to_raw x; b = fixed_to_raw rhs
      in do {
        wide \<leftarrow> i128_arith oc (sint (scast a :: i128) * sint (scast b :: i128));
        let hi = (ucast (signed_drop_bit 64 wide) :: i64);
        let lo = (ucast wide :: u64);
        (result, _) \<leftarrow> div_wide_by_const oc hi lo (SCALE D);
        Some (map_option fixed_from_raw (i128_to_i64_checked result))
      })"

definition checked_mul_round :: "bool \<Rightarrow> nat \<Rightarrow> fixed \<Rightarrow> fixed \<Rightarrow> fixed option panics" where
  "checked_mul_round oc D x rhs =
     do {
       wide \<leftarrow> i128_arith oc (sint (scast (fixed_to_raw x) :: i128) * sint (scast (fixed_to_raw rhs) :: i128));
       half \<leftarrow> div_i128 (scast (SCALE D)) 2;
       biased \<leftarrow> (if sint wide \<ge> 0 then i128_arith oc (sint wide + sint half)
                   else i128_arith oc (sint wide - sint half));
       let hi = (ucast (signed_drop_bit 64 biased) :: i64);
       let lo = (ucast biased :: u64);
       (result, _) \<leftarrow> div_wide_by_const oc hi lo (SCALE D);
       Some (map_option fixed_from_raw (i128_to_i64_checked result))
     }"

definition saturating_mul_trunc :: "bool \<Rightarrow> nat \<Rightarrow> fixed \<Rightarrow> fixed \<Rightarrow> fixed panics" where
  "saturating_mul_trunc oc D x rhs =
     do {
       r \<leftarrow> checked_mul_trunc oc D x rhs;
       Some (case r of
         Some v \<Rightarrow> v
       | None \<Rightarrow>
           (let sign_a = sint (fixed_to_raw x) \<ge> 0;
                sign_b = sint (fixed_to_raw rhs) \<ge> 0
            in if sign_a = sign_b then fixed_MAX else fixed_MIN))
     }"

section \<open>Division\<close>

definition checked_div_trunc :: "bool \<Rightarrow> nat \<Rightarrow> fixed \<Rightarrow> fixed \<Rightarrow> fixed option panics" where
  "checked_div_trunc oc D x rhs =
     (if fixed_to_raw rhs = 0 then Some None
      else do {
        wide \<leftarrow> i128_arith oc (sint (scast (fixed_to_raw x) :: i128) * sint (scast (SCALE D) :: i128));
        let divisor = (scast (fixed_to_raw rhs) :: i128);
        result \<leftarrow> div_i128 wide divisor;
        Some (map_option fixed_from_raw (i128_to_i64_checked result))
      })"

definition checked_div_round :: "bool \<Rightarrow> nat \<Rightarrow> fixed \<Rightarrow> fixed \<Rightarrow> fixed option panics" where
  "checked_div_round oc D x rhs =
     (if fixed_to_raw rhs = 0 then Some None
      else do {
        wide \<leftarrow> i128_arith oc (sint (scast (fixed_to_raw x) :: i128) * sint (scast (SCALE D) :: i128));
        let divisor = (scast (fixed_to_raw rhs) :: i128);
        abs_div_half \<leftarrow> (if sint divisor < 0
           then do { m \<leftarrow> i128_arith oc (- sint divisor); div_i128 m 2 }
           else div_i128 divisor 2);
        biased \<leftarrow> (if sint wide \<ge> 0 then i128_arith oc (sint wide + sint abs_div_half)
                    else i128_arith oc (sint wide - sint abs_div_half));
        result \<leftarrow> div_i128 biased divisor;
        Some (map_option fixed_from_raw (i128_to_i64_checked result))
      })"

section \<open>Integer scalars\<close>

definition checked_mul_int :: "fixed \<Rightarrow> i64 \<Rightarrow> fixed option" where
  "checked_mul_int x rhs =
     (case i64_checked (sint (fixed_to_raw x) * sint rhs) of
        Some v \<Rightarrow> Some (fixed_from_raw v)
      | None \<Rightarrow> None)"

definition checked_div_int :: "fixed \<Rightarrow> i64 \<Rightarrow> fixed option panics" where
  "checked_div_int x rhs =
     (if rhs = 0 then Some None
      else do {
        q \<leftarrow> div_i64 (fixed_to_raw x) rhs;
        Some (Some (fixed_from_raw q))
      })"

definition saturating_mul_int :: "fixed \<Rightarrow> i64 \<Rightarrow> fixed" where
  "saturating_mul_int x rhs = fixed_from_raw (i64_saturate (sint (fixed_to_raw x) * sint rhs))"

section \<open>The decomposed division is long division\<close>

lemma long_division_split:
  fixes hi u l d :: int
  assumes "0 < d"
  defines "mid \<equiv> hi mod d * 2 ^ 32 + u"
  defines "low \<equiv> mid mod d * 2 ^ 32 + l"
  shows "(hi * 2 ^ 64 + u * 2 ^ 32 + l) div d
           = hi div d * 2 ^ 64 + mid div d * 2 ^ 32 + low div d"
    and "(hi * 2 ^ 64 + u * 2 ^ 32 + l) mod d = low mod d"
proof -
  let ?Q = "hi div d * 2 ^ 64 + mid div d * 2 ^ 32 + low div d"
  have hi64: "hi * 2 ^ 64 = hi div d * d * 2 ^ 64 + hi mod d * 2 ^ 64"
    by (metis div_mult_mod_eq distrib_right)
  have mid32: "mid * 2 ^ 32 = mid div d * d * 2 ^ 32 + mid mod d * 2 ^ 32"
    by (metis div_mult_mod_eq distrib_right)
  have low: "low = low div d * d + low mod d" by simp
  have "hi * 2 ^ 64 + u * 2 ^ 32 + l = hi div d * d * 2 ^ 64 + mid * 2 ^ 32 + l"
    using hi64 by (simp add: mid_def algebra_simps)
  also have "\<dots> = hi div d * d * 2 ^ 64 + mid div d * d * 2 ^ 32 + low"
    using mid32 by (simp add: low_def algebra_simps)
  also have "\<dots> = ?Q * d + low mod d"
    using low by (simp add: algebra_simps)
  finally have N: "hi * 2 ^ 64 + u * 2 ^ 32 + l = low mod d + ?Q * d" by simp
  have "(low mod d) div d = 0"
    using assms(1) by (simp add: div_pos_pos_trivial)
  then show "(hi * 2 ^ 64 + u * 2 ^ 32 + l) div d = ?Q"
    unfolding N using assms(1) by simp
  show "(hi * 2 ^ 64 + u * 2 ^ 32 + l) mod d = low mod d"
    unfolding N by simp
qed

lemma u64_halves:
  fixes lo :: u64
  shows "uint lo = uint (drop_bit 32 lo) * 2 ^ 32 + uint (lo AND 0xFFFFFFFF)"
    and "uint (drop_bit 32 lo) < 2 ^ 32" and "uint (lo AND 0xFFFFFFFF) < 2 ^ 32"
proof -
  have up: "uint (drop_bit 32 lo) = uint lo div 2 ^ 32"
    by (simp add: drop_bit_eq_div uint_div_distrib)
  have "lo AND 0xFFFFFFFF = take_bit 32 lo"
    by (simp add: take_bit_eq_mask mask_eq_exp_minus_1)
  then have low: "uint (lo AND 0xFFFFFFFF) = uint lo mod 2 ^ 32"
    by (simp add: take_bit_eq_mod uint_mod_distrib)
  show "uint lo = uint (drop_bit 32 lo) * 2 ^ 32 + uint (lo AND 0xFFFFFFFF)"
    by (simp add: up low)
  show "uint (drop_bit 32 lo) < 2 ^ 32"
    using uint_u64_bound [of lo] by (simp add: up)
  show "uint (lo AND 0xFFFFFFFF) < 2 ^ 32"
    by (simp add: low)
qed

lemma half_step:
  fixes r d :: u64 and u :: u64
  assumes "uint r < uint d" and "uint u < 2 ^ 32"
  defines "num \<equiv> push_bit 32 (ucast r :: u128) OR ucast u"
  shows "uint (ucast (num div ucast d) :: u64) = (uint r * 2 ^ 32 + uint u) div uint d"
    and "uint (ucast (num mod ucast d) :: u64) = (uint r * 2 ^ 32 + uint u) mod uint d"
    and "(uint r * 2 ^ 32 + uint u) div uint d < 2 ^ 32"
proof -
  have d: "0 < uint d" "uint d < 2 ^ 64"
    using assms(1) uint_nonnegative [of r] uint_u64_bound [of d] by linarith+
  have "uint r * 2 ^ 32 + uint u < 2 ^ 128"
    using assms(2) uint_u64_bound [of r] by (simp add: algebra_simps)
  then have num: "uint num = uint r * 2 ^ 32 + uint u"
    using assms(2) by (simp add: num_def uint_push_or)
  have "uint r * 2 ^ 32 + uint u < uint d * 2 ^ 32"
    using assms(1,2) mult_right_mono [of "uint r + 1" "uint d" "2 ^ 32"] by simp
  then show q: "(uint r * 2 ^ 32 + uint u) div uint d < 2 ^ 32"
    using d(1) by (simp add: int_div_less mult.commute)
  show "uint (ucast (num div ucast d) :: u64) = (uint r * 2 ^ 32 + uint u) div uint d"
    using q by (subst uint_ucast_u64) (simp_all add: uint_div_distrib num)
  have "(uint r * 2 ^ 32 + uint u) mod uint d < uint d"
    using d(1) by simp
  with d(2) show "uint (ucast (num mod ucast d) :: u64) = (uint r * 2 ^ 32 + uint u) mod uint d"
    by (subst uint_ucast_u64) (simp_all add: uint_mod_distrib num)
qed

lemma div_u128_by_u64_spec:
  assumes "0 < uint d"
  obtains q_hi q_lo rem where "div_u128_by_u64 hi lo d = Some (q_hi, q_lo, rem)"
    and "uint q_hi * 2 ^ 64 + uint q_lo = (uint hi * 2 ^ 64 + uint lo) div uint d"
    and "uint rem = (uint hi * 2 ^ 64 + uint lo) mod uint d"
proof -
  define u l where "u = drop_bit 32 lo" and "l = lo AND 0xFFFFFFFF"
  note halves = u64_halves [of lo, folded u_def l_def]
  define r_hi where "r_hi = hi mod d"
  define mid where "mid = push_bit 32 (ucast r_hi :: u128) OR ucast u"
  define q_mid r_mid :: u64
    where "q_mid = ucast (mid div ucast d)" and "r_mid = ucast (mid mod ucast d)"
  define low where "low = push_bit 32 (ucast r_mid :: u128) OR ucast l"
  define q_low rem :: u64
    where "q_low = ucast (low div ucast d)" and "rem = ucast (low mod ucast d)"
  have r_hi: "uint r_hi = uint hi mod uint d" "uint r_hi < uint d"
    using assms by (simp_all add: r_hi_def uint_mod_distrib)
  note mid_facts = half_step [OF r_hi(2) halves(2), folded mid_def q_mid_def r_mid_def]
  have r_mid: "uint r_mid < uint d"
    using assms by (simp add: mid_facts(2))
  note low_facts = half_step [OF r_mid halves(3), folded low_def q_low_def rem_def]
  have "uint q_mid * 2 ^ 32 + uint q_low < 2 ^ 64"
    using mid_facts(3) low_facts(3) by (simp add: mid_facts(1) low_facts(1))
  then have q_lo: "uint (push_bit 32 q_mid OR q_low) = uint q_mid * 2 ^ 32 + uint q_low"
    using low_facts(3) by (intro uint_push_or) (simp_all add: low_facts(1))
  note split = long_division_split [OF assms, of "uint hi" "uint u" "uint l"]
  have eq: "div_u128_by_u64 hi lo d = Some (hi div d, push_bit 32 q_mid OR q_low, rem)"
    using assms
    by (auto simp: div_u128_by_u64_def Let_def u_def l_def r_hi_def mid_def q_mid_def r_mid_def
      low_def q_low_def rem_def)
  show thesis
  proof (rule that [OF eq])
    show "uint (hi div d) * 2 ^ 64 + uint (push_bit 32 q_mid OR q_low)
        = (uint hi * 2 ^ 64 + uint lo) div uint d"
      using split(1)
      by (simp add: halves(1) q_lo uint_div_distrib mid_facts low_facts r_hi(1) add.assoc)
    show "uint rem = (uint hi * 2 ^ 64 + uint lo) mod uint d"
      using split(2) by (simp add: halves(1) mid_facts low_facts r_hi(1) add.assoc)
  qed
qed

section \<open>Signed wide division\<close>

text \<open>The two's complement negation of the pair: its magnitude, as an unsigned pair.\<close>

lemma negate_pair:
  fixes hi lo :: u64
  assumes "sint hi < 0"
  defines "carry \<equiv> (if uint (NOT lo) + 1 \<ge> 2 ^ 64 then 1 else 0 :: u64)"
  shows "uint (NOT hi + carry) * 2 ^ 64 + uint (NOT lo + 1) = - (sint hi * 2 ^ 64 + uint lo)"
proof -
  have hi: "uint hi = sint hi + 2 ^ 64" "- (2 ^ 63) \<le> sint hi"
    using assms sint_i64_bounds [of hi] by (simp_all add: uint_sint_i64)
  show ?thesis
  proof (cases "lo = 0")
    case True
    have "uint (NOT hi + 1) = - sint hi"
      using hi assms by (simp add: uint_plus_if' uint_not_u64)
    with True show ?thesis by (simp add: carry_def uint_not_u64)
  next
    case False
    then have "0 < uint lo" by (simp add: uint_0_iff uint_nonnegative order_less_le)
    then have "uint (NOT lo + 1) = 2 ^ 64 - uint lo" and "carry = 0"
      by (simp_all add: uint_plus_if' uint_not_u64 carry_def)
    then show ?thesis
      using hi by (simp add: uint_not_u64)
  qed
qed

lemma div_wide_by_const_spec:
  assumes d: "0 < sint d" and W: "W = sint hi * 2 ^ 64 + uint lo" and small: "\<bar>W\<bar> < 2 ^ 127"
  shows "div_wide_by_const oc hi lo d
           = Some (word_of_int (W sdiv sint d), word_of_int (W smod sint d))"
proof -
  define negative where "negative = (sint hi < 0)"
  define carry where "carry = (if uint (NOT lo) + 1 \<ge> 2 ^ 64 then 1 else 0 :: u64)"
  define abs_lo abs_hi
    where "abs_lo = (if negative then NOT lo + 1 else lo)"
      and "abs_hi = (if negative then NOT hi + carry else hi)"
  have neg: "negative \<longleftrightarrow> W < 0"
  proof (cases "sint hi < 0")
    case True
    with uint_u64_bound [of lo] show ?thesis by (simp add: negative_def W)
  next
    case False
    then have "0 \<le> sint hi * 2 ^ 64" by simp
    then have "0 \<le> W" using uint_nonnegative [of lo] unfolding W by (rule add_nonneg_nonneg)
    with False show ?thesis by (simp add: negative_def)
  qed
  have abs: "uint abs_hi * 2 ^ 64 + uint abs_lo = \<bar>W\<bar>"
  proof (cases negative)
    case True
    then have "uint abs_hi * 2 ^ 64 + uint abs_lo = - W"
      using negate_pair [of hi lo] unfolding abs_lo_def abs_hi_def carry_def negative_def W by simp
    with True neg show ?thesis by simp
  next
    case False
    then have "uint abs_hi = sint hi"
      by (simp add: abs_hi_def negative_def uint_sint_i64)
    with False neg show ?thesis by (simp add: abs_lo_def W)
  qed
  have ud: "uint d = sint d" using d by (simp add: uint_sint_i64)
  obtain q_hi q_lo rem where
    div: "div_u128_by_u64 abs_hi abs_lo d = Some (q_hi, q_lo, rem)"
    and q: "uint q_hi * 2 ^ 64 + uint q_lo = \<bar>W\<bar> div sint d"
    and r: "uint rem = \<bar>W\<bar> mod sint d"
    using div_u128_by_u64_spec [of d abs_hi abs_lo, unfolded abs ud, OF d] by blast
  define abs_quot where "abs_quot = (push_bit 64 (ucast q_hi) OR ucast q_lo :: u128)"
  have q_small: "\<bar>W\<bar> div sint d < 2 ^ 127" "0 \<le> \<bar>W\<bar> div sint d"
    using small d int_div_less [of "sint d" "\<bar>W\<bar>" "2 ^ 127"] mult_left_mono [of 1 "sint d" "2 ^ 127"]
    by (simp_all add: pos_imp_zdiv_nonneg_iff)
  have uq: "uint abs_quot = \<bar>W\<bar> div sint d"
    unfolding abs_quot_def using q q_small uint_u64_bound [of q_lo]
    by (subst uint_push_or) simp_all
  then have aq: "abs_quot = word_of_int (\<bar>W\<bar> div sint d)"
    by (metis word_of_int_uint)
  then have sq: "sint abs_quot = \<bar>W\<bar> div sint d"
    using q_small by (simp add: in_i128_def)
  have ar: "rem = word_of_int (\<bar>W\<bar> mod sint d)"
    using r by (metis word_of_int_uint)
  have "\<bar>W\<bar> mod sint d < 2 ^ 63" "0 \<le> \<bar>W\<bar> mod sint d"
    using sint_i64_bounds(2) [of d] pos_mod_bound [OF d, of "\<bar>W\<bar>"] pos_mod_sign [OF d, of "\<bar>W\<bar>"]
    by linarith+
  then have sr: "sint rem = \<bar>W\<bar> mod sint d"
    by (simp add: ar in_i64_def)
  have unf: "div_wide_by_const oc hi lo d =
      (if negative then do { q \<leftarrow> i128_arith oc (- sint abs_quot); r \<leftarrow> neg_i64 oc rem; Some (q, r) }
       else Some (abs_quot, rem))"
    using div unfolding div_wide_by_const_def
    by (simp add: Let_def abs_lo_def abs_hi_def carry_def negative_def abs_quot_def split: if_splits)
  show ?thesis
  proof (cases negative)
    case True
    then have W0: "W < 0" by (simp add: neg)
    have "in_i128 (- sint abs_quot)" "in_i64 (- sint rem)"
      using q_small sint_i64_bounds [of rem] \<open>0 \<le> \<bar>W\<bar> mod sint d\<close>
      by (auto simp: in_i128_def in_i64_def sq sr)
    with True W0 d show ?thesis
      by (simp add: unf neg_i64_def sq sr signed_divide_int_def signed_modulo_int_def sgn_if)
  next
    case False
    with d neg show ?thesis
      by (cases "W = 0") (simp_all add: unf aq ar signed_divide_int_def signed_modulo_int_def sgn_if)
  qed
qed

section \<open>The 128 bit value as a pair\<close>

lemma i128_halves:
  fixes w :: i128
  shows "sint (ucast (signed_drop_bit 64 w) :: i64) * 2 ^ 64 + uint (ucast w :: u64) = sint w"
proof -
  have sd: "sint (signed_drop_bit 64 w) = sint w div 2 ^ 64"
    by (simp add: sint_signed_drop_bit_eq drop_bit_eq_div)
  have "in_i64 (sint w div 2 ^ 64)"
    using sint_i128_bounds [of w] zdiv_mono1 [of "- (2 ^ 127)" "sint w" "2 ^ 64"]
      int_div_less [of "2 ^ 64" "sint w" "2 ^ 63"]
    by (simp add: in_i64_def)
  moreover have "ucast (signed_drop_bit 64 w) = (word_of_int (sint w div 2 ^ 64) :: i64)"
    by (simp only: ucast_i128_i64 sd)
  ultimately have hi: "sint (ucast (signed_drop_bit 64 w) :: i64) = sint w div 2 ^ 64"
    by simp
  have "uint (ucast w :: u64) = uint (word_of_int (sint w) :: u64)"
    by (simp only: ucast_i128_i64)
  also have "\<dots> = sint w mod 2 ^ 64"
    by (subst uint_word_of_int_eq) (simp add: take_bit_eq_mod)
  finally show ?thesis
    by (simp only: hi div_mult_mod_eq)
qed

lemma div_wide_split:
  fixes w :: i128
  assumes "0 < sint d" and "\<bar>sint w\<bar> < 2 ^ 127"
  shows "div_wide_by_const oc (ucast (signed_drop_bit 64 w)) (ucast w) d
           = Some (word_of_int (sint w sdiv sint d), word_of_int (sint w smod sint d))"
  using assms by (intro div_wide_by_const_spec i128_halves [symmetric])

section \<open>Rounding half away from zero\<close>

definition round_half_away :: "int \<Rightarrow> int \<Rightarrow> int" where
  "round_half_away p s = (if 0 \<le> p then p + s div 2 else p - s div 2) sdiv s"

text \<open>The rounded quotient is within half a divisor, and a tie, which only an even divisor
  has, goes to the multiple farther from zero.\<close>

lemma round_half_up:
  fixes q s :: int
  assumes "0 < s"
  defines "v \<equiv> (q + s div 2) div s * s"
  shows "2 * \<bar>v - q\<bar> \<le> s \<and> (2 * \<bar>v - q\<bar> = s \<longrightarrow> q < v)"
proof -
  have bound: "2 * \<bar>c - m\<bar> \<le> s \<and> (2 * \<bar>c - m\<bar> = s \<longrightarrow> m < c)"
    if "2 * c \<le> s" "s \<le> 2 * c + 1" "0 \<le> m" "m < s" for c m :: int
    using that by arith
  have h: "2 * (s div 2) \<le> s" "s \<le> 2 * (s div 2) + 1" by presburger+
  have "v - q = s div 2 - (q + s div 2) mod s"
    by (simp add: v_def flip: minus_mod_eq_div_mult)
  moreover from this have "q < v \<longleftrightarrow> (q + s div 2) mod s < s div 2" by linarith
  ultimately show ?thesis
    using bound [OF h, of "(q + s div 2) mod s"] assms(1) by simp
qed

lemma round_half_away_nearest:
  fixes p s :: int
  assumes "0 < s"
  defines "v \<equiv> round_half_away p s * s"
  shows "2 * \<bar>v - p\<bar> \<le> s \<and> (2 * \<bar>v - p\<bar> = s \<longrightarrow> \<bar>p\<bar> < \<bar>v\<bar>)"
proof (cases "0 \<le> p")
  case True
  with assms have "v = (p + s div 2) div s * s"
    by (simp add: round_half_away_def sdiv_nonneg pos_imp_zdiv_nonneg_iff)
  with round_half_up [OF assms(1), of p] True show ?thesis by auto
next
  case False
  moreover have "p - s div 2 < 0"
    using False assms pos_imp_zdiv_nonneg_iff [of 2 s] by linarith
  ultimately have "v = - ((- p + s div 2) div s * s)"
    using assms by (simp add: round_half_away_def sdiv_neg)
  then have v: "(- p + s div 2) div s * s = - v" by simp
  have "\<bar>- v - - p\<bar> = \<bar>v - p\<bar>" by arith
  moreover have "\<bar>p\<bar> < \<bar>v\<bar>" if "- p < - v" using that False by arith
  ultimately show ?thesis
    using round_half_up [OF assms(1), of "- p", unfolded v] by simp
qed

section \<open>What the operations compute\<close>

lemma map_from_raw [simp]: "map_option fixed_from_raw z = z"
  by (cases z) (simp_all add: fixed_from_raw_def)

lemma i128_arith_obtain:
  assumes "in_i128 x"
  obtains w where "i128_arith oc x = Some w" and "sint w = x"
  using assms by simp

declare i128_arith_fits [simp del]

lemma div_wide_obtain:
  fixes w :: i128
  assumes "0 < sint d" and "\<bar>sint w\<bar> < 2 ^ 127"
  obtains q r where "div_wide_by_const oc (ucast (signed_drop_bit 64 w)) (ucast w) d = Some (q, r)"
    and "sint q = sint w sdiv sint d"
proof -
  have "in_i128 (sint w sdiv sint d)"
    using assms(2) abs_sdiv_le [of "sint w" "sint d"] by (intro in_i128_abs) linarith
  then show thesis
    using div_wide_split [OF assms] that by simp
qed

lemma div_i128_obtain:
  assumes "b \<noteq> 0" and "\<bar>sint a\<bar> < 2 ^ 127"
  obtains q where "div_i128 a b = Some q" and "sint q = sint a sdiv sint b"
proof -
  have "in_i128 (sint a sdiv sint b)"
    using assms(2) abs_sdiv_le [of "sint a" "sint b"] by (intro in_i128_abs) linarith
  then show thesis
    using assms(1) that by (simp add: div_i128_def)
qed

lemma i64_mult_small:
  fixes x y :: i64
  shows "\<bar>sint x * sint y\<bar> < 2 ^ 127"
  using i64_mult_bound [of x y] by simp

lemma scast_i128_eq_0 [simp]: "(scast (y :: i64) :: i128) = 0 \<longleftrightarrow> y = 0"
  using sint_eq_0_iff [of "scast y :: i128"] by simp

lemma checked_mul_trunc_eq:
  assumes "D \<le> 18"
  shows "checked_mul_trunc oc D x y = Some (i64_checked ((sint x * sint y) sdiv 10 ^ D))"
proof -
  obtain w where w: "i128_arith oc (sint x * sint y) = Some w" "sint w = sint x * sint y"
    by (rule i128_arith_obtain [OF in_i128_mult])
  obtain q r where "div_wide_by_const oc (ucast (signed_drop_bit 64 w)) (ucast w) (SCALE D) = Some (q, r)"
    and "sint q = (sint x * sint y) sdiv 10 ^ D"
    using div_wide_obtain [of "SCALE D" w oc] assms i64_mult_small [of x y] w(2) by auto
  then show ?thesis
    by (simp add: checked_mul_trunc_def fixed_to_raw_def Let_def i128_to_i64_checked_eq w)
qed

lemma round_bias_bound:
  fixes p s :: int
  assumes "\<bar>p\<bar> \<le> 2 ^ 126" and "0 < s" and "s \<le> 2 ^ 63"
  shows "\<bar>if 0 \<le> p then p + s div 2 else p - s div 2\<bar> < 2 ^ 127"
proof -
  have "0 \<le> s div 2" "s div 2 \<le> 2 ^ 62" using assms(2,3) by auto
  with assms(1) show ?thesis by auto
qed

text \<open>The biased dividend, as both rounding operations compute it.\<close>

lemma bias_obtain:
  fixes w h :: i128
  assumes "\<bar>sint w\<bar> \<le> 2 ^ 126" and "0 < s" and "s \<le> 2 ^ 63" and "sint h = s div 2"
  obtains b where
    "(if sint w \<ge> 0 then i128_arith oc (sint w + sint h) else i128_arith oc (sint w - sint h)) = Some b"
    and "sint b = (if 0 \<le> sint w then sint w + s div 2 else sint w - s div 2)"
    and "\<bar>sint b\<bar> < 2 ^ 127"
proof -
  let ?b = "if 0 \<le> sint w then sint w + s div 2 else sint w - s div 2"
  have b: "\<bar>?b\<bar> < 2 ^ 127" using assms(1-3) by (rule round_bias_bound)
  then obtain v where "i128_arith oc ?b = Some v" "sint v = ?b"
    using i128_arith_obtain [OF in_i128_abs] by blast
  then show thesis
    using that [of v] b assms(4) by (simp split: if_splits)
qed

lemma checked_mul_round_eq:
  assumes "D \<le> 18"
  shows "checked_mul_round oc D x y = Some (i64_checked (round_half_away (sint x * sint y) (10 ^ D)))"
proof -
  have s: "(0 :: int) < 10 ^ D" "(10 :: int) ^ D \<le> 2 ^ 63"
    using pow10_bound [OF assms] by simp_all
  obtain w where w: "i128_arith oc (sint x * sint y) = Some w" "sint w = sint x * sint y"
    by (rule i128_arith_obtain [OF in_i128_mult])
  obtain h where h: "div_i128 (scast (SCALE D)) 2 = Some h" "sint h = 10 ^ D div 2"
    using div_i128_obtain [of 2 "scast (SCALE D)"] assms s by (auto simp: sdiv_nonneg)
  obtain b where b:
    "(if sint w \<ge> 0 then i128_arith oc (sint w + sint h) else i128_arith oc (sint w - sint h)) = Some b"
    "sint b = (if 0 \<le> sint w then sint w + 10 ^ D div 2 else sint w - 10 ^ D div 2)"
    "\<bar>sint b\<bar> < 2 ^ 127"
    using bias_obtain [OF _ s h(2)] i64_mult_bound [of x y] w(2) by metis
  have r: "sint b sdiv sint (SCALE D) = round_half_away (sint x * sint y) (10 ^ D)"
    using assms by (simp add: round_half_away_def b(2) w(2))
  have "0 < sint (SCALE D)" using assms by simp
  then obtain q r where "div_wide_by_const oc (ucast (signed_drop_bit 64 b)) (ucast b) (SCALE D) = Some (q, r)"
    and "sint q = round_half_away (sint x * sint y) (10 ^ D)"
    using div_wide_obtain [OF _ b(3), of "SCALE D" oc] r by metis
  then show ?thesis
    by (simp add: checked_mul_round_def fixed_to_raw_def Let_def i128_to_i64_checked_eq w(1) h(1) b(1))
qed

lemma checked_div_trunc_eq:
  assumes "D \<le> 18"
  shows "checked_div_trunc oc D x y =
    Some (if y = 0 then None else i64_checked ((sint x * 10 ^ D) sdiv sint y))"
proof (cases "y = 0")
  case False
  obtain w where w: "i128_arith oc (sint x * 10 ^ D) = Some w" "sint w = sint x * 10 ^ D"
    using i128_arith_obtain [OF in_i128_mult [of x "SCALE D"]] assms by auto
  obtain q where "div_i128 w (scast y) = Some q" "sint q = (sint x * 10 ^ D) sdiv sint y"
    using div_i128_obtain [of "scast y" w] False i64_mult_small [of x "SCALE D"] assms w(2) by auto
  with False show ?thesis
    using assms by (simp add: checked_div_trunc_def fixed_to_raw_def Let_def i128_to_i64_checked_eq w)
qed (simp add: checked_div_trunc_def fixed_to_raw_def)

text \<open>A quotient rounded half away from zero, for a divisor of either sign.\<close>

definition round_div :: "int \<Rightarrow> int \<Rightarrow> int" where
  "round_div p d = sgn d * round_half_away p \<bar>d\<bar>"

lemma checked_div_round_eq:
  assumes "D \<le> 18"
  shows "checked_div_round oc D x y =
    Some (if y = 0 then None else i64_checked (round_div (sint x * 10 ^ D) (sint y)))"
proof (cases "y = 0")
  case False
  then have s: "0 < \<bar>sint y\<bar>" "\<bar>sint y\<bar> \<le> 2 ^ 63"
    using sint_i64_bounds [of y] by auto
  obtain w where w: "i128_arith oc (sint x * 10 ^ D) = Some w" "sint w = sint x * 10 ^ D"
    using i128_arith_obtain [OF in_i128_mult [of x "SCALE D"]] assms by auto
  have "in_i128 (- sint y)"
    using s by (intro in_i128_abs) simp
  then obtain m where m: "i128_arith oc (- sint y) = Some m" "sint m = - sint y"
    by (rule i128_arith_obtain)
  define v where "v = (if sint y < 0 then m else scast y)"
  have v: "(if sint y < 0 then i128_arith oc (- sint y) else Some (scast y)) = Some v"
    "sint v = \<bar>sint y\<bar>"
    using m by (simp_all add: v_def)
  obtain h where h: "div_i128 v 2 = Some h" "sint h = \<bar>sint y\<bar> div 2"
    using div_i128_obtain [of 2 v] v(2) s(2) by (auto simp: sdiv_nonneg)
  have bound: "\<bar>sint w\<bar> \<le> 2 ^ 126"
    using i64_mult_bound [of x "SCALE D"] assms w(2) by simp
  obtain b where b:
    "(if sint w \<ge> 0 then i128_arith oc (sint w + sint h) else i128_arith oc (sint w - sint h)) = Some b"
    "sint b = (if 0 \<le> sint w then sint w + \<bar>sint y\<bar> div 2 else sint w - \<bar>sint y\<bar> div 2)"
    "\<bar>sint b\<bar> < 2 ^ 127"
    using bias_obtain [OF bound s h(2)] by metis
  obtain q where "div_i128 b (scast y) = Some q" "sint q = sint b sdiv sint y"
    using div_i128_obtain [of "scast y" b] False b(3) by auto
  moreover have "sint b sdiv sint y = round_div (sint x * 10 ^ D) (sint y)"
    using False by (cases "sint y < 0")
      (auto simp: round_div_def round_half_away_def b(2) w(2) sdiv_minus_eq sgn_if)
  ultimately show ?thesis
    using False assms h(1) v(1)
    by (auto simp: checked_div_round_def fixed_to_raw_def Let_def i128_to_i64_checked_eq w(1) b(1)
        split: if_splits)
qed (simp add: checked_div_round_def fixed_to_raw_def)

lemma checked_mul_int_eq: "checked_mul_int x k = i64_checked (sint x * sint k)"
  by (simp add: checked_mul_int_def fixed_conv_defs split: option.split)

lemma checked_div_int_eq:
  "checked_div_int x k =
     (if k = 0 then Some None
      else if in_i64 (sint x sdiv sint k) then Some (Some (word_of_int (sint x sdiv sint k)))
      else None)"
  by (simp add: checked_div_int_def div_i64_def fixed_conv_defs)

lemma saturating_mul_trunc_eq:
  assumes "D \<le> 18"
  shows "saturating_mul_trunc oc D x y = Some (i64_saturate ((sint x * sint y) sdiv 10 ^ D))"
proof -
  let ?q = "(sint x * sint y) sdiv 10 ^ D"
  show ?thesis
  proof (cases "in_i64 ?q")
    case True
    then have "max (- (2 ^ 63)) (min (2 ^ 63 - 1) ?q) = ?q"
      by (auto simp: in_i64_def)
    with True show ?thesis
      by (simp add: saturating_mul_trunc_def checked_mul_trunc_eq [OF assms] i64_checked_def
          i64_saturate_def)
  next
    case False
    have pos: "0 \<le> ?q" if "0 \<le> sint x * sint y"
      using that by (simp add: sdiv_nonneg pos_imp_zdiv_nonneg_iff)
    have neg: "?q \<le> 0" if "sint x * sint y \<le> 0"
      using that pos_imp_zdiv_nonneg_iff [of "10 ^ D" "- (sint x * sint y)"]
      by (cases "sint x * sint y < 0") (auto simp: sdiv_neg)
    have "(0 \<le> sint x) = (0 \<le> sint y) \<longleftrightarrow> 0 < ?q"
    proof (cases "0 < sint x * sint y")
      case True
      then have "(0 \<le> sint x) = (0 \<le> sint y)" by (auto simp: zero_less_mult_iff)
      moreover have "?q \<noteq> 0" using False by (auto simp: in_i64_def)
      ultimately show ?thesis using pos True by auto
    next
      case nonpos: False
      have "sint x * sint y \<noteq> 0" using False by (auto simp: in_i64_def)
      with nonpos have "sint x * sint y < 0" by linarith
      then have "(0 \<le> sint x) \<noteq> (0 \<le> sint y)" by (auto simp: mult_less_0_iff)
      with neg nonpos show ?thesis by auto
    qed
    with False show ?thesis
      by (auto simp: saturating_mul_trunc_def checked_mul_trunc_eq [OF assms] i64_checked_def
          fixed_conv_defs Let_def in_i64_def i64_saturate_def i64_MAX_def i64_MIN_def min_def max_def)
  qed
qed

section \<open>Properties\<close>

text \<open>C7. The decomposed division used by the multiplications (two 32 bit half steps on
  64 bit words, with the sign removed by two's complement) returns exactly the quotient and
  the remainder of the primitive 128 bit signed division, for every positive divisor and every
  dividend but the single value \<open>i128::MIN\<close>, in every build.\<close>

theorem div_wide_by_const_equiv:
  fixes w :: i128
  assumes "0 < sint d" and "sint w \<noteq> - (2 ^ 127)"
  shows "div_wide_by_const oc (ucast (signed_drop_bit 64 w)) (ucast w) d =
    do { q \<leftarrow> div_i128 w (scast d); r \<leftarrow> rem_i128 w (scast d); Some (q, ucast r) }"
proof -
  have w: "\<bar>sint w\<bar> < 2 ^ 127"
    using assms(2) sint_i128_bounds [of w] by auto
  have q: "in_i128 (sint w sdiv sint d)"
    using w abs_sdiv_le [of "sint w" "sint d"] by (intro in_i128_abs) linarith
  have "scast d \<noteq> (0 :: i128)" using assms(1) by auto
  then show ?thesis
    using q div_wide_split [OF assms(1) w] by (simp add: div_i128_def rem_i128_def)
qed

theorem div_wide_by_const_equiv_witness:
  "0 < sint (10 :: i64) \<and> sint (- 37 :: i128) \<noteq> - (2 ^ 127) \<and>
   div_wide_by_const True (ucast (signed_drop_bit 64 (- 37 :: i128))) (ucast (- 37 :: i128)) 10
     = Some (- 3, - 7)"
  using div_wide_by_const_equiv [of 10 "- 37" True]
  by (simp add: div_i128_def rem_i128_def in_i128_def signed_divide_int_def signed_modulo_int_def)

text \<open>\<open>checked_mul_trunc\<close> never panics for a legal \<open>D\<close>, and it returns a value exactly
  when the product divided by the scale, truncated toward zero, is an \<open>i64\<close>; the value is
  that quotient.\<close>

theorem checked_mul_trunc_exact:
  assumes "D \<le> 18"
  shows "\<exists>res. checked_mul_trunc oc D x y = Some res \<and>
    (\<forall>r. res = Some r \<longleftrightarrow> sint r = (sint x * sint y) sdiv 10 ^ D)"
  using checked_mul_trunc_eq [OF assms, of oc x y]
  by (auto simp: i64_checked_eq_Some in_i64_sint) (metis in_i64_sint)

theorem checked_mul_trunc_exact_witness:
  "(2 :: nat) \<le> 18 \<and> checked_mul_trunc True 2 150 (- 333) = Some (Some (- 499))"
  using checked_mul_trunc_exact [of 2 True 150 "- 333"]
  by (auto simp: signed_divide_int_def i64_eq_iff)

text \<open>\<open>checked_mul_round\<close> never panics for a legal \<open>D\<close>; a returned value is within half a
  unit of the exact product, a product exactly between two values goes to the one farther from
  zero, and \<open>None\<close> is returned only when the rounded value is no \<open>i64\<close>.\<close>

theorem checked_mul_round_nearest:
  assumes "D \<le> 18"
  shows "\<exists>res. checked_mul_round oc D x y = Some res \<and>
    (\<forall>r. res = Some r \<longrightarrow>
       2 * \<bar>sint r * 10 ^ D - sint x * sint y\<bar> \<le> 10 ^ D \<and>
       (2 * \<bar>sint r * 10 ^ D - sint x * sint y\<bar> = 10 ^ D \<longrightarrow> \<bar>sint x * sint y\<bar> < \<bar>sint r * 10 ^ D\<bar>)) \<and>
    (res = None \<longleftrightarrow> \<not> in_i64 (round_half_away (sint x * sint y) (10 ^ D)))"
  using checked_mul_round_eq [OF assms, of oc x y]
    round_half_away_nearest [of "10 ^ D" "sint x * sint y"]
  by (auto simp: i64_checked_eq_Some i64_checked_eq_None)

theorem checked_mul_round_nearest_witness:
  "(2 :: nat) \<le> 18 \<and> (\<exists>r. checked_mul_round True 2 150 333 = Some (Some r) \<and>
     2 * \<bar>sint r * 10 ^ 2 - sint (150 :: i64) * sint (333 :: i64)\<bar> \<le> 10 ^ 2)"
proof -
  obtain res where "checked_mul_round True 2 150 333 = Some res"
    and "\<forall>r. res = Some r \<longrightarrow> 2 * \<bar>sint r * 10 ^ 2 - sint (150 :: i64) * sint (333 :: i64)\<bar> \<le> 10 ^ 2"
    and "res = None \<longleftrightarrow> \<not> in_i64 (round_half_away (sint (150 :: i64) * sint (333 :: i64)) (10 ^ 2))"
    using checked_mul_round_nearest [of 2 True 150 333] by auto
  then show ?thesis
    by (cases res) (auto simp: round_half_away_def signed_divide_int_def in_i64_def)
qed

text \<open>\<open>saturating_mul_trunc\<close> is the truncated product clamped to the range of \<open>i64\<close>:
  the sign test of its overflow branch always picks the side the exact product lies on.\<close>

theorem saturating_mul_trunc_clamps:
  assumes "D \<le> 18"
  shows "\<exists>r. saturating_mul_trunc oc D x y = Some r \<and>
    sint r = max (sint fixed_MIN) (min (sint fixed_MAX) ((sint x * sint y) sdiv 10 ^ D))"
  using saturating_mul_trunc_eq [OF assms] by (simp add: sint_i64_saturate fixed_conv_defs)

theorem saturating_mul_trunc_clamps_witness:
  "(0 :: nat) \<le> 18 \<and> saturating_mul_trunc True 0 i64_MAX (- 2) = Some fixed_MIN"
  using saturating_mul_trunc_clamps [of 0 True i64_MAX "- 2"]
  by (auto simp: i64_eq_iff fixed_conv_defs)

text \<open>\<open>checked_div_round\<close> returns \<open>None\<close> on a zero divisor; otherwise a returned quotient
  times the divisor is within half a divisor of the scaled dividend, and \<open>None\<close> means that the
  rounded quotient is no \<open>i64\<close>. It never panics, not even for \<open>MIN\<close> divided by \<open>-1\<close>.\<close>

theorem checked_div_round_nearest:
  assumes "D \<le> 18"
  shows "\<exists>res. checked_div_round oc D x y = Some res \<and>
    (y = 0 \<longrightarrow> res = None) \<and>
    (\<forall>r. res = Some r \<longrightarrow> 2 * \<bar>sint r * sint y - sint x * 10 ^ D\<bar> \<le> \<bar>sint y\<bar>) \<and>
    (y \<noteq> 0 \<longrightarrow> (res = None \<longleftrightarrow> \<not> in_i64 (round_div (sint x * 10 ^ D) (sint y))))"
proof -
  have "2 * \<bar>round_div (sint x * 10 ^ D) (sint y) * sint y - sint x * 10 ^ D\<bar> \<le> \<bar>sint y\<bar>"
    if "y \<noteq> 0"
    using that round_half_away_nearest [of "\<bar>sint y\<bar>" "sint x * 10 ^ D"]
    by (auto simp: round_div_def sgn_if abs_if split: if_splits)
  then show ?thesis
    using checked_div_round_eq [OF assms, of oc x y]
    by (auto simp: i64_checked_eq_Some i64_checked_eq_None)
qed

theorem checked_div_round_nearest_witness:
  "(2 :: nat) \<le> 18 \<and> checked_div_round True 2 500 0 = Some None \<and>
   (\<exists>r. checked_div_round True 2 500 300 = Some (Some r) \<and>
     2 * \<bar>sint r * 300 - 500 * 10 ^ 2\<bar> \<le> 300)"
proof -
  have "in_i64 (round_div (500 * 10 ^ 2) 300)"
    by (simp add: round_div_def round_half_away_def signed_divide_int_def in_i64_def)
  moreover obtain res where "checked_div_round True 2 500 300 = Some res"
    and "\<forall>r. res = Some r \<longrightarrow> 2 * \<bar>sint r * 300 - 500 * 10 ^ 2\<bar> \<le> 300"
    and "res = None \<longleftrightarrow> \<not> in_i64 (round_div (500 * 10 ^ 2) 300)"
    using checked_div_round_nearest [of 2 True 500 300] by (simp add: sint_numeral_i64) blast
  moreover have "checked_div_round True 2 500 0 = Some None"
    using checked_div_round_nearest [of 2 True 500 0] by fastforce
  ultimately show ?thesis by (cases res) simp_all
qed

text \<open>C37. \<open>checked_div_int\<close> is documented to return \<open>None\<close> only for a zero divisor and to be a
  checked operation, but it panics, in every build, exactly for \<open>MIN\<close> divided by \<open>-1\<close>: the
  zero test is the only guard before the primitive division.\<close>

theorem checked_div_int_panics_iff:
  "checked_div_int x k = None \<longleftrightarrow> x = fixed_MIN \<and> k = - 1"
proof -
  have "\<not> in_i64 (sint x sdiv sint k) \<longleftrightarrow> sint x = - (2 ^ 63) \<and> sint k = - 1" if "k \<noteq> 0"
  proof
    assume "\<not> in_i64 (sint x sdiv sint k)"
    then have "sint x = - (2 ^ 63)" "sint x sdiv sint k = - sint x"
      using sint_i64_bounds [of x] abs_sdiv_le [of "sint x" "sint k"] by (auto simp: in_i64_def)
    then show "sint x = - (2 ^ 63) \<and> sint k = - 1"
      using int_sdiv_negated_is_minus1 [of "sint x" "sint k"] by simp
  qed (simp add: in_i64_def)
  moreover have "sint k = - 1 \<longleftrightarrow> k = - 1" and "x = fixed_MIN \<longleftrightarrow> sint x = - (2 ^ 63)"
    by (simp_all add: i64_eq_iff fixed_conv_defs)
  ultimately show ?thesis
    by (cases "k = 0"; cases "in_i64 (sint x sdiv sint k)") (simp_all add: checked_div_int_eq)
qed

end
