(* ===== verification/Domain_Types.thy ===== *)
theory Domain_Types
  imports Fixed_Mul_Div
begin

text \<open>
  The domain newtypes of \<open>crates/types/src\<close>: prices in ticks, quantities in lots, signed
  inventory, amounts, probabilities, identifiers, and \<open>InstrumentMeta\<close>, which converts between
  decimal prices and quantities and the integer grid. A transparent newtype is its raw word; its
  operators are the operators of the raw type, so they panic or wrap with the build flag \<open>oc\<close>.
\<close>

section \<open>Sides and identifiers\<close>

datatype Side = Bid | Ask

definition side_opposite :: "Side \<Rightarrow> Side" where
  "side_opposite s = (case s of Bid \<Rightarrow> Ask | Ask \<Rightarrow> Bid)"

type_synonym InstrumentId = u32
type_synonym OrderId = u64
type_synonym SourceId = u16
type_synonym Timestamp = u64
type_synonym SeqNum = u64

definition InstrumentId_NONE :: InstrumentId where
  "InstrumentId_NONE = 0"

definition Timestamp_ZERO :: Timestamp where
  "Timestamp_ZERO = 0"

definition SeqNum_ZERO :: SeqNum where
  "SeqNum_ZERO = 0"

datatype 'a PushError = Full 'a

datatype QueueError = QueueFull | QueueEmpty

section \<open>Ticks\<close>

type_synonym Ticks = i64

definition ticks_ZERO :: Ticks where
  "ticks_ZERO = 0"

definition ticks_add :: "bool \<Rightarrow> Ticks \<Rightarrow> Ticks \<Rightarrow> Ticks panics" where
  "ticks_add oc x rhs = add_i64 oc x rhs"

definition ticks_sub :: "bool \<Rightarrow> Ticks \<Rightarrow> Ticks \<Rightarrow> Ticks panics" where
  "ticks_sub oc x rhs = sub_i64 oc x rhs"

definition ticks_neg :: "bool \<Rightarrow> Ticks \<Rightarrow> Ticks panics" where
  "ticks_neg oc x = neg_i64 oc x"

definition ticks_mul :: "bool \<Rightarrow> Ticks \<Rightarrow> i64 \<Rightarrow> Ticks panics" where
  "ticks_mul oc x rhs = mul_i64 oc x rhs"

definition ticks_div :: "Ticks \<Rightarrow> i64 \<Rightarrow> Ticks panics" where
  "ticks_div x rhs = div_i64 x rhs"

section \<open>Lots\<close>

type_synonym Lots = i64

definition lots_ZERO :: Lots where
  "lots_ZERO = 0"

definition lots_add :: "bool \<Rightarrow> Lots \<Rightarrow> Lots \<Rightarrow> Lots panics" where
  "lots_add oc x rhs = add_i64 oc x rhs"

definition lots_sub :: "bool \<Rightarrow> Lots \<Rightarrow> Lots \<Rightarrow> Lots panics" where
  "lots_sub oc x rhs = sub_i64 oc x rhs"

definition lots_neg :: "bool \<Rightarrow> Lots \<Rightarrow> Lots panics" where
  "lots_neg oc x = neg_i64 oc x"

definition lots_mul :: "bool \<Rightarrow> Lots \<Rightarrow> i64 \<Rightarrow> Lots panics" where
  "lots_mul oc x rhs = mul_i64 oc x rhs"

definition lots_div :: "Lots \<Rightarrow> i64 \<Rightarrow> Lots panics" where
  "lots_div x rhs = div_i64 x rhs"

section \<open>SignedLots\<close>

type_synonym SignedLots = i64

definition signed_lots_ZERO :: SignedLots where
  "signed_lots_ZERO = 0"

definition signed_lots_add :: "bool \<Rightarrow> SignedLots \<Rightarrow> SignedLots \<Rightarrow> SignedLots panics" where
  "signed_lots_add oc x rhs = add_i64 oc x rhs"

definition signed_lots_sub :: "bool \<Rightarrow> SignedLots \<Rightarrow> SignedLots \<Rightarrow> SignedLots panics" where
  "signed_lots_sub oc x rhs = sub_i64 oc x rhs"

definition signed_lots_neg :: "bool \<Rightarrow> SignedLots \<Rightarrow> SignedLots panics" where
  "signed_lots_neg oc x = neg_i64 oc x"

definition signed_lots_is_zero :: "SignedLots \<Rightarrow> bool" where
  "signed_lots_is_zero x \<longleftrightarrow> x = 0"

definition signed_lots_signum :: "SignedLots \<Rightarrow> i64" where
  "signed_lots_signum x = signum_i64 x"

definition signed_lots_abs :: "SignedLots \<Rightarrow> SignedLots" where
  "signed_lots_abs x = i64_saturate \<bar>sint x\<bar>"

definition signed_lots_from_lots :: "Lots \<Rightarrow> SignedLots" where
  "signed_lots_from_lots lots = lots"

section \<open>UsdcAmount, a \<open>FixedI64<6>\<close>\<close>

type_synonym UsdcAmount = fixed

definition usdc_ZERO :: UsdcAmount where
  "usdc_ZERO = fixed_ZERO"

definition usdc_checked_add :: "UsdcAmount \<Rightarrow> UsdcAmount \<Rightarrow> UsdcAmount option" where
  "usdc_checked_add x rhs = (case fixed_checked_add x rhs of Some v \<Rightarrow> Some v | None \<Rightarrow> None)"

definition usdc_checked_sub :: "UsdcAmount \<Rightarrow> UsdcAmount \<Rightarrow> UsdcAmount option" where
  "usdc_checked_sub x rhs = (case fixed_checked_sub x rhs of Some v \<Rightarrow> Some v | None \<Rightarrow> None)"

definition usdc_checked_neg :: "UsdcAmount \<Rightarrow> UsdcAmount option" where
  "usdc_checked_neg x = (case fixed_checked_neg x of Some v \<Rightarrow> Some v | None \<Rightarrow> None)"

definition usdc_checked_abs :: "UsdcAmount \<Rightarrow> UsdcAmount option" where
  "usdc_checked_abs x = (case fixed_checked_abs x of Some v \<Rightarrow> Some v | None \<Rightarrow> None)"

definition usdc_checked_mul_int :: "UsdcAmount \<Rightarrow> i64 \<Rightarrow> UsdcAmount option" where
  "usdc_checked_mul_int x rhs = (case checked_mul_int x rhs of Some v \<Rightarrow> Some v | None \<Rightarrow> None)"

definition usdc_checked_div_int :: "UsdcAmount \<Rightarrow> i64 \<Rightarrow> UsdcAmount option panics" where
  "usdc_checked_div_int x rhs =
     do { r \<leftarrow> checked_div_int x rhs; Some (case r of Some v \<Rightarrow> Some v | None \<Rightarrow> None) }"

definition usdc_is_zero :: "UsdcAmount \<Rightarrow> bool" where
  "usdc_is_zero x = fixed_is_zero x"

definition usdc_add :: "bool \<Rightarrow> UsdcAmount \<Rightarrow> UsdcAmount \<Rightarrow> UsdcAmount panics" where
  "usdc_add oc x rhs = fixed_add oc x rhs"

definition usdc_sub :: "bool \<Rightarrow> UsdcAmount \<Rightarrow> UsdcAmount \<Rightarrow> UsdcAmount panics" where
  "usdc_sub oc x rhs = fixed_sub oc x rhs"

definition usdc_neg :: "bool \<Rightarrow> UsdcAmount \<Rightarrow> UsdcAmount panics" where
  "usdc_neg oc x = fixed_neg oc x"

section \<open>BtcQty, a \<open>FixedI64<8>\<close>\<close>

type_synonym BtcQty = fixed

definition btc_ZERO :: BtcQty where
  "btc_ZERO = fixed_ZERO"

definition btc_checked_add :: "BtcQty \<Rightarrow> BtcQty \<Rightarrow> BtcQty option" where
  "btc_checked_add x rhs = (case fixed_checked_add x rhs of Some v \<Rightarrow> Some v | None \<Rightarrow> None)"

definition btc_checked_sub :: "BtcQty \<Rightarrow> BtcQty \<Rightarrow> BtcQty option" where
  "btc_checked_sub x rhs = (case fixed_checked_sub x rhs of Some v \<Rightarrow> Some v | None \<Rightarrow> None)"

definition btc_checked_neg :: "BtcQty \<Rightarrow> BtcQty option" where
  "btc_checked_neg x = (case fixed_checked_neg x of Some v \<Rightarrow> Some v | None \<Rightarrow> None)"

definition btc_checked_abs :: "BtcQty \<Rightarrow> BtcQty option" where
  "btc_checked_abs x = (case fixed_checked_abs x of Some v \<Rightarrow> Some v | None \<Rightarrow> None)"

definition btc_checked_mul_int :: "BtcQty \<Rightarrow> i64 \<Rightarrow> BtcQty option" where
  "btc_checked_mul_int x rhs = (case checked_mul_int x rhs of Some v \<Rightarrow> Some v | None \<Rightarrow> None)"

definition btc_checked_div_int :: "BtcQty \<Rightarrow> i64 \<Rightarrow> BtcQty option panics" where
  "btc_checked_div_int x rhs =
     do { r \<leftarrow> checked_div_int x rhs; Some (case r of Some v \<Rightarrow> Some v | None \<Rightarrow> None) }"

definition btc_is_zero :: "BtcQty \<Rightarrow> bool" where
  "btc_is_zero x = fixed_is_zero x"

definition btc_add :: "bool \<Rightarrow> BtcQty \<Rightarrow> BtcQty \<Rightarrow> BtcQty panics" where
  "btc_add oc x rhs = fixed_add oc x rhs"

definition btc_sub :: "bool \<Rightarrow> BtcQty \<Rightarrow> BtcQty \<Rightarrow> BtcQty panics" where
  "btc_sub oc x rhs = fixed_sub oc x rhs"

definition btc_neg :: "bool \<Rightarrow> BtcQty \<Rightarrow> BtcQty panics" where
  "btc_neg oc x = fixed_neg oc x"

section \<open>Probability, a \<open>FixedI64<6>\<close> in [0, 1]\<close>

type_synonym Probability = fixed

definition probability_new :: "fixed \<Rightarrow> Probability option" where
  "probability_new value =
     (let raw = fixed_to_raw value
      in if sint raw < 0 \<or> sint raw > sint (SCALE 6) then None else Some value)"

definition probability_from_raw :: "i64 \<Rightarrow> Probability option" where
  "probability_from_raw raw = probability_new (fixed_from_raw raw)"

definition probability_complement :: "bool \<Rightarrow> Probability \<Rightarrow> Probability panics" where
  "probability_complement oc p =
     map_option fixed_from_raw (sub_i64 oc (SCALE 6) (fixed_to_raw p))"

definition probability_is_zero :: "Probability \<Rightarrow> bool" where
  "probability_is_zero p = fixed_is_zero p"

section \<open>Instrument metadata\<close>

record InstrumentMeta =
  meta_tick_size :: fixed
  meta_lot_size :: fixed

datatype InstrumentMetaError = InvalidTickSize | InvalidLotSize

definition meta_new :: "fixed \<Rightarrow> fixed \<Rightarrow> InstrumentMetaError + InstrumentMeta" where
  "meta_new tick_size lot_size =
     (if \<not> fixed_is_positive tick_size then Inl InvalidTickSize
      else if \<not> fixed_is_positive lot_size then Inl InvalidLotSize
      else Inr \<lparr> meta_tick_size = tick_size, meta_lot_size = lot_size \<rparr>)"

definition price_to_ticks :: "InstrumentMeta \<Rightarrow> fixed \<Rightarrow> Ticks option panics" where
  "price_to_ticks meta price =
     (let divisor = fixed_to_raw (meta_tick_size meta)
      in if divisor = 0 then Some None
         else do { q \<leftarrow> div_i64 (fixed_to_raw price) divisor; Some (Some q) })"

definition ticks_to_price :: "InstrumentMeta \<Rightarrow> Ticks \<Rightarrow> fixed option" where
  "ticks_to_price meta ticks = checked_mul_int (meta_tick_size meta) ticks"

definition qty_to_lots :: "InstrumentMeta \<Rightarrow> fixed \<Rightarrow> Lots option panics" where
  "qty_to_lots meta qty =
     (let divisor = fixed_to_raw (meta_lot_size meta)
      in if divisor = 0 then Some None
         else do { q \<leftarrow> div_i64 (fixed_to_raw qty) divisor; Some (Some q) })"

definition lots_to_qty :: "InstrumentMeta \<Rightarrow> Lots \<Rightarrow> fixed option" where
  "lots_to_qty meta lots = checked_mul_int (meta_lot_size meta) lots"

section \<open>The invariants the constructors establish\<close>

definition meta_wf :: "InstrumentMeta \<Rightarrow> bool" where
  "meta_wf m \<longleftrightarrow> 0 < sint (meta_tick_size m) \<and> 0 < sint (meta_lot_size m)"

definition prob_wf :: "Probability \<Rightarrow> bool" where
  "prob_wf p \<longleftrightarrow> 0 \<le> sint p \<and> sint p \<le> 10 ^ 6"

lemma meta_new_wf: "meta_new t l = Inr m \<Longrightarrow> meta_wf m"
  by (auto simp: meta_new_def meta_wf_def fixed_is_positive_def fixed_conv_defs split: if_splits)

lemma meta_new_iff: "(\<exists>m. meta_new t l = Inr m) \<longleftrightarrow> 0 < sint t \<and> 0 < sint l"
  by (simp add: meta_new_def fixed_is_positive_def fixed_conv_defs)

lemma price_to_ticks_eq:
  "meta_wf m \<Longrightarrow> price_to_ticks m p = Some (Some (word_of_int (sint p sdiv sint (meta_tick_size m))))"
  by (auto simp: price_to_ticks_def meta_wf_def fixed_conv_defs div_i64_pos Let_def)

lemma qty_to_lots_eq:
  "meta_wf m \<Longrightarrow> qty_to_lots m q = Some (Some (word_of_int (sint q sdiv sint (meta_lot_size m))))"
  by (auto simp: qty_to_lots_def meta_wf_def fixed_conv_defs div_i64_pos Let_def)

lemma probability_new_wf: "probability_new v = Some p \<Longrightarrow> prob_wf p"
  by (auto simp: probability_new_def prob_wf_def fixed_conv_defs Let_def split: if_splits)

text \<open>The grid conversion of one axis, by a positive step: on the grid it inverts
  multiplication, off the grid it drops less than one step and never grows the magnitude.\<close>

lemma grid_roundtrip:
  fixes step k p :: i64
  assumes "0 < sint step" and "checked_mul_int step k = Some p"
  shows "word_of_int (sint p sdiv sint step) = k"
proof -
  have "sint p = sint k * sint step"
    using assms(2) by (simp add: checked_mul_int_eq i64_checked_eq_Some mult.commute)
  then show ?thesis using sdiv_mult_cancel [OF assms(1), of "sint k"] by simp
qed

lemma grid_snap:
  fixes step p :: i64
  assumes "0 < sint step"
  defines "k \<equiv> word_of_int (sint p sdiv sint step) :: i64"
  shows "\<exists>q. checked_mul_int step k = Some q \<and> \<bar>sint p - sint q\<bar> < sint step \<and> \<bar>sint q\<bar> \<le> \<bar>sint p\<bar>"
proof -
  have k: "sint k = sint p sdiv sint step"
    using in_i64_sdiv [OF in_i64_sint assms(1)] by (simp add: k_def)
  let ?q = "sint p sdiv sint step * sint step"
  have err: "\<bar>sint p - ?q\<bar> < sint step" "0 \<le> sint p \<Longrightarrow> ?q \<le> sint p" "sint p \<le> 0 \<Longrightarrow> sint p \<le> ?q"
    using sdiv_error [OF assms(1), of "sint p"] by simp_all
  have sgn: "0 \<le> sint p \<Longrightarrow> 0 \<le> ?q" "sint p \<le> 0 \<Longrightarrow> ?q \<le> 0"
    using assms(1)
    by (auto simp: sdiv_nonneg pos_imp_zdiv_nonneg_iff mult_le_0_iff)
       (cases "p = 0"; auto simp: sdiv_neg pos_imp_zdiv_nonneg_iff order_less_le)
  have q: "\<bar>?q\<bar> \<le> \<bar>sint p\<bar>" "in_i64 ?q"
    using err(2,3) sgn sint_i64_bounds [of p] by (cases "0 \<le> sint p"; auto simp: in_i64_def)+
  then have "checked_mul_int step k = Some (word_of_int ?q)"
    by (simp add: checked_mul_int_eq k i64_checked_def mult.commute)
  with q err(1) show ?thesis by (metis sint_of_int_i64)
qed

section \<open>Properties\<close>

text \<open>The tick and lot conversions of every \<open>InstrumentMeta\<close> the constructor accepts are
  total and invert each other on the grid: a tick count (lot count) that has a price (quantity)
  is what that price (quantity) converts to.\<close>

theorem meta_grid_roundtrip:
  assumes "meta_new tick lot = Inr m"
  shows "(\<forall>k p. ticks_to_price m k = Some p \<longrightarrow> price_to_ticks m p = Some (Some k)) \<and>
         (\<forall>k q. lots_to_qty m k = Some q \<longrightarrow> qty_to_lots m q = Some (Some k))"
  using meta_new_wf [OF assms] grid_roundtrip
  by (auto simp: price_to_ticks_eq qty_to_lots_eq meta_wf_def ticks_to_price_def lots_to_qty_def)

theorem meta_grid_roundtrip_witness:
  "\<exists>m. meta_new 10000 100 = Inr m \<and> ticks_to_price m 53 = Some 530000 \<and>
       price_to_ticks m 530000 = Some (Some 53)"
proof -
  let ?m = "\<lparr> meta_tick_size = 10000, meta_lot_size = 100 \<rparr>"
  have m: "meta_new 10000 100 = Inr ?m"
    by (simp add: meta_new_def fixed_is_positive_def fixed_conv_defs)
  have "ticks_to_price ?m 53 = Some 530000"
    by (simp add: ticks_to_price_def checked_mul_int_eq i64_checked_def in_i64_def)
  with meta_grid_roundtrip [OF m] m show ?thesis by blast
qed

text \<open>A price off the tick grid is snapped toward zero by less than one tick: converting it to
  ticks and back never fails, never grows its magnitude and moves it by less than the tick size.\<close>

theorem price_snap_toward_zero:
  assumes "meta_new tick lot = Inr m"
  shows "\<exists>k q. price_to_ticks m p = Some (Some k) \<and> ticks_to_price m k = Some q \<and>
    \<bar>sint p - sint q\<bar> < sint tick \<and> \<bar>sint q\<bar> \<le> \<bar>sint p\<bar>"
proof -
  have m: "meta_wf m" "meta_tick_size m = tick"
    using assms meta_new_wf [OF assms] by (auto simp: meta_new_def split: if_splits)
  then show ?thesis
    using grid_snap [of tick p] by (auto simp: price_to_ticks_eq meta_wf_def ticks_to_price_def)
qed

theorem price_snap_toward_zero_witness:
  "\<exists>m k q. meta_new 10000 100 = Inr m \<and> price_to_ticks m 537777 = Some (Some k) \<and>
     ticks_to_price m k = Some q \<and> \<bar>537777 - sint q\<bar> < 10000"
proof -
  have m: "meta_new 10000 100 = Inr \<lparr> meta_tick_size = 10000, meta_lot_size = 100 \<rparr>"
    by (simp add: meta_new_def fixed_is_positive_def fixed_conv_defs)
  from price_snap_toward_zero [OF m, of 537777] m show ?thesis
    by (auto simp: sint_numeral_i64)
qed

text \<open>The complement of a probability is a probability, is computed without overflow in every
  build, and complementing twice gives the probability back.\<close>

theorem probability_complement_involution:
  assumes "probability_new v = Some p"
  shows "\<exists>c. probability_complement oc p = Some c \<and> probability_new c = Some c \<and>
    sint p + sint c = 10 ^ 6 \<and> probability_complement oc c = Some p"
proof -
  have p: "0 \<le> sint p" "sint p \<le> 10 ^ 6"
    using probability_new_wf [OF assms] by (simp_all add: prob_wf_def)
  let ?c = "word_of_int (10 ^ 6 - sint p) :: i64"
  have c: "in_i64 (10 ^ 6 - sint p)" using p by (simp add: in_i64_def)
  then have sc: "sint ?c = 10 ^ 6 - sint p" by (rule sint_of_int_i64)
  have comp: "probability_complement oc x = i64_arith oc (10 ^ 6 - sint x)" for x
    by (simp add: probability_complement_def sub_i64_def fixed_to_raw_def)
  have "probability_complement oc p = Some ?c"
    using c by (simp only: comp i64_arith_fits)
  moreover have "probability_complement oc ?c = Some p"
    by (simp only: comp sc) simp
  moreover have "probability_new ?c = Some ?c"
    using sc p by (simp add: probability_new_def fixed_to_raw_def Let_def del: wi_homs)
  ultimately show ?thesis using sc by (intro exI [of _ ?c] conjI) simp_all
qed

theorem probability_complement_involution_witness:
  "probability_new 400000 = Some 400000 \<and> probability_complement True 600000 = Some 400000"
proof -
  have p: "probability_new 400000 = Some 400000"
    by (simp add: probability_new_def fixed_to_raw_def sint_numeral_i64)
  obtain c where c: "sint (400000 :: i64) + sint c = 10 ^ 6" "probability_complement True c = Some 400000"
    using probability_complement_involution [OF p, of True] by blast
  from c(1) have "c = 600000" by (simp add: i64_eq_iff sint_numeral_i64)
  with p c(2) show ?thesis by simp
qed

end
