(* ===== verification/Ring_Core.thy ===== *)
theory Ring_Core
  imports Domain_Types
begin

text \<open>
  The strategies of \<open>crates/core/src/lib.rs\<close> (index wrapping, push policy, instrumentation) and
  the slot storage of \<open>crates/queue/src/storage.rs\<close> and \<open>raw/\<close>, which the ring engines are
  generic over. What a ring needs of an index strategy is the locale \<open>index_strategy\<close>; the
  batch operations of the copy ring need more, \<open>batch_index_strategy\<close>.

  A slot is a \<open>MaybeUninit\<close>: \<open>None\<close> when it holds no value. Reading such a slot, or touching
  a slot past the capacity, is undefined behaviour in the source and \<open>None\<close> of \<open>panics\<close> here,
  so a theorem that an operation returns excludes it.
\<close>

section \<open>Index strategies\<close>

definition is_power_of_two :: "nat \<Rightarrow> bool" where
  "is_power_of_two n \<longleftrightarrow> n > 0 \<and> n AND (n - 1) = 0"

text \<open>The flag \<open>dbg\<close> is \<open>debug_assertions\<close>.\<close>

definition pow2_masked_wrap :: "bool \<Rightarrow> usize \<Rightarrow> usize \<Rightarrow> usize panics" where
  "pow2_masked_wrap dbg index capacity =
     (if dbg \<and> \<not> is_power_of_two capacity then None else Some (index AND (capacity - 1)))"

definition branch_wrap :: "usize \<Rightarrow> usize \<Rightarrow> usize panics" where
  "branch_wrap index capacity = Some (if index \<ge> capacity then 0 else index)"

section \<open>Push policy and instrumentation\<close>

definition immediate_push_should_block :: bool where
  "immediate_push_should_block = False"

record 'i Instrumentation =
  on_push :: "'i \<Rightarrow> 'i"
  on_pop :: "'i \<Rightarrow> 'i"
  on_push_full :: "'i \<Rightarrow> 'i"
  on_pop_empty :: "'i \<Rightarrow> 'i"

definition no_instr :: "unit Instrumentation" where
  "no_instr = \<lparr> on_push = (\<lambda>x. x), on_pop = (\<lambda>x. x), on_push_full = (\<lambda>x. x), on_pop_empty = (\<lambda>x. x) \<rparr>"

record CountingInstr =
  ci_pushes :: u64
  ci_pops :: u64
  ci_push_full :: u64
  ci_pop_empty :: u64

definition counting_new :: CountingInstr where
  "counting_new = \<lparr> ci_pushes = 0, ci_pops = 0, ci_push_full = 0, ci_pop_empty = 0 \<rparr>"

text \<open>\<open>fetch_add\<close> wraps around.\<close>

definition counting_instr :: "CountingInstr Instrumentation" where
  "counting_instr = \<lparr> on_push = (\<lambda>c. c\<lparr> ci_pushes := ci_pushes c + 1 \<rparr>),
     on_pop = (\<lambda>c. c\<lparr> ci_pops := ci_pops c + 1 \<rparr>),
     on_push_full = (\<lambda>c. c\<lparr> ci_push_full := ci_push_full c + 1 \<rparr>),
     on_pop_empty = (\<lambda>c. c\<lparr> ci_pop_empty := ci_pop_empty c + 1 \<rparr>) \<rparr>"

section \<open>Storage\<close>

type_synonym 'a slots = "'a option list"

text \<open>\<open>InlineStorage\<close> checks its size at compile time, \<open>HeapStorage\<close> rounds it up.\<close>

definition inline_storage_new :: "nat \<Rightarrow> 'a slots panics" where
  "inline_storage_new N = (if is_power_of_two N \<and> N > 0 then Some (replicate N None) else None)"

fun next_power_of_two_from :: "nat \<Rightarrow> nat \<Rightarrow> nat \<Rightarrow> nat" where
  "next_power_of_two_from 0 p n = p"
| "next_power_of_two_from (Suc fuel) p n = (if n \<le> p then p else next_power_of_two_from fuel (2 * p) n)"

definition next_power_of_two :: "nat \<Rightarrow> nat" where
  "next_power_of_two n = next_power_of_two_from n 1 n"

definition heap_storage_new :: "usize \<Rightarrow> 'a slots panics" where
  "heap_storage_new min_capacity =
     (if min_capacity > 0 then Some (replicate (next_power_of_two min_capacity) None) else None)"

definition write_slot :: "usize \<Rightarrow> 'a \<Rightarrow> 'a slots \<Rightarrow> 'a slots panics" where
  "write_slot index value slots =
     (if index < length slots then Some (slots[index := Some value]) else None)"

text \<open>Moving a value out leaves the slot logically empty.\<close>

definition read_slot :: "usize \<Rightarrow> 'a slots \<Rightarrow> ('a \<times> 'a slots) panics" where
  "read_slot index slots =
     (if index < length slots
      then case slots ! index of None \<Rightarrow> None | Some v \<Rightarrow> Some (v, slots[index := None])
      else None)"

text \<open>Dropping a value in place: the value is the one whose destructor runs.\<close>

definition drop_occupied_slot :: "usize \<Rightarrow> 'a slots \<Rightarrow> ('a \<times> 'a slots) panics" where
  "drop_occupied_slot index slots =
     (if index < length slots
      then case slots ! index of None \<Rightarrow> None | Some v \<Rightarrow> Some (v, slots[index := None])
      else None)"

section \<open>Powers of two\<close>

lemma power_of_two_mask: "is_power_of_two (2 ^ k)"
proof -
  have "(2 ^ k :: nat) AND (2 ^ k - 1) = take_bit k (2 ^ k)"
    by (simp add: take_bit_eq_mask mask_eq_exp_minus_1)
  then show ?thesis by (simp add: is_power_of_two_def take_bit_eq_mod)
qed

lemma is_power_of_two_iff: "is_power_of_two n \<longleftrightarrow> (\<exists>k. n = 2 ^ k)"
proof
  assume n: "is_power_of_two n"
  obtain k where k: "2 ^ k \<le> n" "n < 2 ^ Suc k"
    using n ex_power_ivl1 [of 2 n] by (auto simp: is_power_of_two_def)
  have "n = 2 ^ k"
  proof (rule ccontr)
    assume "n \<noteq> 2 ^ k"
    with k have "2 ^ k \<le> n - 1" "n - 1 < 2 ^ Suc k" by auto
    then have "n div 2 ^ k = 1" "(n - 1) div 2 ^ k = 1"
      using k by (auto simp: div_nat_eqI)
    then have "bit n k" "bit (n - 1) k" by (simp_all add: bit_iff_odd)
    then have "bit (n AND (n - 1)) k" by (simp add: bit_and_iff)
    with n show False by (simp add: is_power_of_two_def)
  qed
  then show "\<exists>k. n = 2 ^ k" ..
qed (auto intro: power_of_two_mask)

lemma mask_is_mod: "is_power_of_two cap \<Longrightarrow> i AND (cap - 1) = i mod cap"
  by (auto simp: is_power_of_two_iff take_bit_eq_mod [symmetric] take_bit_eq_mask mask_eq_exp_minus_1)

lemma next_power_of_two_from:
  "0 < p \<Longrightarrow> n \<le> p * 2 ^ fuel \<Longrightarrow> \<exists>k. next_power_of_two_from fuel p n = p * 2 ^ k \<and> n \<le> p * 2 ^ k"
proof (induction fuel arbitrary: p)
  case 0
  then show ?case by (auto intro: exI [of _ 0])
next
  case (Suc fuel)
  show ?case
  proof (cases "n \<le> p")
    case True
    then show ?thesis by (auto intro: exI [of _ 0])
  next
    case False
    with Suc.IH [of "2 * p"] Suc.prems obtain k
      where "next_power_of_two_from fuel (2 * p) n = 2 * p * 2 ^ k" "n \<le> 2 * p * 2 ^ k"
      by (auto simp: mult.assoc)
    with False show ?thesis by (intro exI [of _ "Suc k"]) (simp add: mult.assoc mult.commute)
  qed
qed

lemma next_power_of_two: "is_power_of_two (next_power_of_two n)" "n \<le> next_power_of_two n"
proof -
  have "n < 2 ^ n" by (rule less_exp)
  then obtain k where "next_power_of_two n = 2 ^ k" "n \<le> 2 ^ k"
    using next_power_of_two_from [of 1 n n] by (auto simp: next_power_of_two_def)
  then show "is_power_of_two (next_power_of_two n)" "n \<le> next_power_of_two n"
    by (auto simp: power_of_two_mask)
qed

lemma inline_storage_power_of_two: "inline_storage_new N = Some s \<Longrightarrow> is_power_of_two (length s)"
  by (auto simp: inline_storage_new_def split: if_splits)

lemma heap_storage_power_of_two:
  "heap_storage_new n = Some s \<Longrightarrow> is_power_of_two (length s) \<and> n \<le> length s"
  using next_power_of_two [of n] by (auto simp: heap_storage_new_def split: if_splits)

section \<open>What the rings need of an index strategy\<close>

locale index_strategy =
  fixes wrap :: "usize \<Rightarrow> usize \<Rightarrow> usize panics"
  assumes wrap_step: "is_power_of_two cap \<Longrightarrow> i \<le> cap \<Longrightarrow> wrap i cap = Some (i mod cap)"
begin

lemma wrap_next:
  assumes "is_power_of_two cap" and "i = n mod cap"
  shows "wrap (i + 1) cap = Some ((n + 1) mod cap)"
proof -
  have "i < cap" using assms by (simp add: is_power_of_two_def)
  then have "wrap (i + 1) cap = Some ((i + 1) mod cap)"
    using assms(1) by (intro wrap_step) simp_all
  then show ?thesis by (simp add: assms(2) mod_simps)
qed

end

locale batch_index_strategy = index_strategy +
  assumes wrap_far: "is_power_of_two cap \<Longrightarrow> i < 2 * cap \<Longrightarrow> wrap i cap = Some (i mod cap)"

interpretation pow2: batch_index_strategy "pow2_masked_wrap dbg"
  by unfold_locales (simp_all add: pow2_masked_wrap_def mask_is_mod [simplified])

interpretation branch: index_strategy branch_wrap
  by unfold_locales (auto simp: branch_wrap_def le_less is_power_of_two_def)

end
