(* ===== verification/Constant_Time.thy ===== *)
theory Constant_Time
  imports Mantis_Prelude
begin

text \<open>
  Branch-free arithmetic (\<open>crates/platform/src/constant_time\<close>): the operators and comparisons of
  \<open>Ct<T>\<close>, booleans held as 0 or 1, multiplexers with their two implementations, the lookup that scans a
  whole table, and the shift-and-subtract division of a double word by a word. The source instantiates
  the operators by macro at the widths 8 to 64; here they are polymorphic in the width.
\<close>

section \<open>Values\<close>

type_synonym 'a Ct = "'a word"
type_synonym 'a CTBool = "'a word"

text \<open>The invariant of the boolean type.\<close>

definition ctbool_wf :: "'a::len CTBool \<Rightarrow> bool" where
  "ctbool_wf b \<longleftrightarrow> b = 0 \<or> b = 1"

definition ctrue :: "'a::len CTBool" where
  "ctrue = 1"

definition cfalse :: "'a::len CTBool" where
  "cfalse = 0"

definition ctbool_from :: "bool \<Rightarrow> 'a::len CTBool" where
  "ctbool_from b = (if b then 1 else 0)"

section \<open>Operators\<close>

definition ct_bitand :: "'a::len Ct \<Rightarrow> 'a Ct \<Rightarrow> 'a Ct" where
  "ct_bitand x y = x AND y"

definition ct_bitor :: "'a::len Ct \<Rightarrow> 'a Ct \<Rightarrow> 'a Ct" where
  "ct_bitor x y = x OR y"

definition ct_bitxor :: "'a::len Ct \<Rightarrow> 'a Ct \<Rightarrow> 'a Ct" where
  "ct_bitxor x y = x XOR y"

definition ct_not :: "'a::len Ct \<Rightarrow> 'a Ct" where
  "ct_not x = NOT x"

definition ct_add :: "'a::len Ct \<Rightarrow> 'a Ct \<Rightarrow> 'a Ct" where
  "ct_add x y = x + y"

definition ct_sub :: "'a::len Ct \<Rightarrow> 'a Ct \<Rightarrow> 'a Ct" where
  "ct_sub x y = x - y"

definition ct_mul :: "'a::len Ct \<Rightarrow> 'a Ct \<Rightarrow> 'a Ct" where
  "ct_mul x y = x * y"

definition ct_neg :: "'a::len Ct \<Rightarrow> 'a Ct" where
  "ct_neg x = - x"

text \<open>\<open>wrapping_shr\<close> and \<open>wrapping_shl\<close> take the shift modulo the width.\<close>

definition ct_shr :: "'a::len Ct \<Rightarrow> nat \<Rightarrow> 'a Ct" where
  "ct_shr x n = drop_bit (n mod LENGTH('a)) x"

definition ct_shl :: "'a::len Ct \<Rightarrow> nat \<Rightarrow> 'a Ct" where
  "ct_shl x n = push_bit (n mod LENGTH('a)) x"

definition ctb_and :: "'a::len CTBool \<Rightarrow> 'a CTBool \<Rightarrow> 'a CTBool" where
  "ctb_and a b = ct_bitand a b"

definition ctb_or :: "'a::len CTBool \<Rightarrow> 'a CTBool \<Rightarrow> 'a CTBool" where
  "ctb_or a b = ct_bitor a b"

definition ctb_xor :: "'a::len CTBool \<Rightarrow> 'a CTBool \<Rightarrow> 'a CTBool" where
  "ctb_xor a b = ct_bitxor a b"

definition ctb_not :: "'a::len CTBool \<Rightarrow> 'a CTBool" where
  "ctb_not a = ct_bitxor a ctrue"

section \<open>Comparisons\<close>

definition is_msb_set :: "'a::len Ct \<Rightarrow> 'a CTBool" where
  "is_msb_set x = ct_shr x (LENGTH('a) - 1)"

definition ct_ne :: "'a::len Ct \<Rightarrow> 'a Ct \<Rightarrow> 'a CTBool" where
  "ct_ne x y = (let z = ct_bitxor x y in is_msb_set (ct_bitor z (ct_neg z)))"

definition ct_eq :: "'a::len Ct \<Rightarrow> 'a Ct \<Rightarrow> 'a CTBool" where
  "ct_eq x y = ctb_not (ct_ne x y)"

definition ct_lt :: "'a::len Ct \<Rightarrow> 'a Ct \<Rightarrow> 'a CTBool" where
  "ct_lt x y = is_msb_set (ct_bitxor x (ct_bitor (ct_bitxor x y) (ct_bitxor (ct_sub x y) y)))"

definition ct_le :: "'a::len Ct \<Rightarrow> 'a Ct \<Rightarrow> 'a CTBool" where
  "ct_le x y = ctb_not (ct_lt y x)"

definition is_non_zero :: "'a::len Ct \<Rightarrow> 'a CTBool" where
  "is_non_zero x = is_msb_set (ct_bitor x (ct_neg x))"

definition ct_is_zero :: "'a::len Ct \<Rightarrow> 'a CTBool" where
  "ct_is_zero x = ctb_not (is_non_zero x)"

definition cneg :: "'a::len Ct \<Rightarrow> 'a CTBool \<Rightarrow> 'a Ct" where
  "cneg x ctl = (let m = ct_neg ctl in ct_add (ct_bitxor x m) ctl)"

section \<open>Multiplexers\<close>

text \<open>The portable formula, and what the \<open>test\<close> and \<open>cmov\<close> instructions of the x86 path compute:
  \<open>cmovz\<close> moves when the tested register is zero, \<open>cmovnz\<close> when it is not. \<open>x86\<close> is the build target.\<close>

definition mux_formula :: "'a::len CTBool \<Rightarrow> 'a Ct \<Rightarrow> 'a Ct \<Rightarrow> 'a Ct" where
  "mux_formula ctl x y = (let m = ct_neg ctl in ct_bitxor y (ct_bitand m (ct_bitxor x y)))"

definition mux :: "bool \<Rightarrow> 'a::len CTBool \<Rightarrow> 'a Ct \<Rightarrow> 'a Ct \<Rightarrow> 'a Ct" where
  "mux x86 ctl x y =
     (if x86 then (let muxed = x in if ctl AND ctl = 0 then y else muxed)
      else mux_formula ctl x y)"

definition mux32 :: "bool \<Rightarrow> 32 CTBool \<Rightarrow> 32 Ct \<Rightarrow> 32 Ct \<Rightarrow> 32 Ct" where
  "mux32 x86 ctl x y =
     (if x86 then (let muxed = x in if ctl AND ctl = 0 then y else muxed)
      else mux_formula ctl x y)"

definition mux_usize :: "64 CTBool \<Rightarrow> 64 Ct \<Rightarrow> 64 Ct \<Rightarrow> 64 Ct" where
  "mux_usize ctl x y = mux_formula ctl x y"

definition mux_bool :: "bool \<Rightarrow> 'a::len CTBool \<Rightarrow> 'a CTBool \<Rightarrow> 'a CTBool \<Rightarrow> 'a CTBool" where
  "mux_bool x86 ctl x y = mux x86 ctl x y"

definition mux_bool32 :: "bool \<Rightarrow> 32 CTBool \<Rightarrow> 32 CTBool \<Rightarrow> 32 CTBool \<Rightarrow> 32 CTBool" where
  "mux_bool32 x86 ctl x y = mux32 x86 ctl x y"

definition mux_bool_usize :: "64 CTBool \<Rightarrow> 64 CTBool \<Rightarrow> 64 CTBool \<Rightarrow> 64 CTBool" where
  "mux_bool_usize ctl x y = mux_usize ctl x y"

text \<open>\<open>ccopy\<close> returns the new content of its first argument.\<close>

definition ccopy :: "bool \<Rightarrow> 'a::len CTBool \<Rightarrow> 'a Ct \<Rightarrow> 'a Ct \<Rightarrow> 'a Ct" where
  "ccopy x86 ctl x y =
     (if x86 then (if ctl AND ctl \<noteq> 0 then y else x) else mux x86 ctl y x)"

definition ccopy32 :: "bool \<Rightarrow> 32 CTBool \<Rightarrow> 32 Ct \<Rightarrow> 32 Ct \<Rightarrow> 32 Ct" where
  "ccopy32 x86 ctl x y =
     (if x86 then (if ctl AND ctl \<noteq> 0 then y else x) else mux32 x86 ctl y x)"

definition ccopy_usize :: "64 CTBool \<Rightarrow> 64 Ct \<Rightarrow> 64 Ct \<Rightarrow> 64 Ct" where
  "ccopy_usize ctl x y = mux_usize ctl y x"

fun secret_lookup_loop :: "bool \<Rightarrow> nat \<Rightarrow> u64 list \<Rightarrow> u64 \<Rightarrow> u64 \<Rightarrow> u64" where
  "secret_lookup_loop x86 i [] index val = val"
| "secret_lookup_loop x86 i (entry # table) index val =
     (let selector = ct_eq (word_of_nat i) index
      in secret_lookup_loop x86 (Suc i) table index (ccopy x86 selector val entry))"

definition secret_lookup :: "bool \<Rightarrow> u64 list \<Rightarrow> u64 \<Rightarrow> u64" where
  "secret_lookup x86 table index = secret_lookup_loop x86 0 table index 0"

section \<open>Division of a double word\<close>

text \<open>One pass of the loop at shift \<open>k\<close>, on the high word, the low word and the quotient.\<close>

definition div2n1n_step :: "bool \<Rightarrow> 'a::len Ct \<Rightarrow> nat \<Rightarrow> 'a Ct \<times> 'a Ct \<times> 'a Ct \<Rightarrow> 'a Ct \<times> 'a Ct \<times> 'a Ct" where
  "div2n1n_step x86 d k = (\<lambda>(hi, lo, q).
     let j = LENGTH('a) - k;
         w = ct_bitor (ct_shl hi j) (ct_shr lo k);
         w_ge_d = ctb_not (ct_lt w d);
         hi_bit = is_non_zero (ct_shr hi k);
         ctl = ctb_or w_ge_d hi_bit;
         hi2 = ct_shr (ct_sub w d) j;
         lo2 = ct_sub lo (ct_shl d k)
     in (mux x86 ctl hi2 hi, mux x86 ctl lo2 lo, ct_bitor q (ct_shl ctl k)))"

text \<open>\<open>for k in (1..BITS).rev()\<close>: the shift goes down to 1.\<close>

fun div2n1n_loop :: "bool \<Rightarrow> 'a::len Ct \<Rightarrow> nat \<Rightarrow> 'a Ct \<times> 'a Ct \<times> 'a Ct \<Rightarrow> 'a Ct \<times> 'a Ct \<times> 'a Ct" where
  "div2n1n_loop x86 d 0 st = st"
| "div2n1n_loop x86 d (Suc k) st = div2n1n_loop x86 d k (div2n1n_step x86 d (Suc k) st)"

definition div2n1n_body :: "bool \<Rightarrow> 'a::len Ct \<Rightarrow> 'a Ct \<Rightarrow> 'a Ct \<Rightarrow> 'a Ct \<times> 'a Ct" where
  "div2n1n_body x86 n_hi n_lo d =
     (let hi_eq_d = ct_eq n_hi d;
          (hi, lo, q) = div2n1n_loop x86 d (LENGTH('a) - 1) (mux x86 hi_eq_d 0 n_hi, n_lo, 0);
          carry = ctb_or (ctb_not (ct_lt lo d)) (is_non_zero hi);
          q = ct_bitor q carry;
          r = mux x86 carry (ct_sub lo d) lo
      in (q, r))"

definition div2n1n :: "bool \<Rightarrow> u64 \<Rightarrow> u64 \<Rightarrow> u64 \<Rightarrow> u64 \<times> u64" where
  "div2n1n x86 n_hi n_lo d = div2n1n_body x86 n_hi n_lo d"

definition div2n1n_u32 :: "bool \<Rightarrow> u32 \<Rightarrow> u32 \<Rightarrow> u32 \<Rightarrow> u32 \<times> u32" where
  "div2n1n_u32 x86 n_hi n_lo d = div2n1n_body x86 n_hi n_lo d"

section \<open>The operations decide what they say\<close>

named_theorems ct_ops \<open>definitions of the word operators\<close>

lemmas [ct_ops] = ct_bitand_def ct_bitor_def ct_bitxor_def ct_not_def ct_add_def ct_sub_def ct_mul_def ct_neg_def
  ctb_and_def ctb_or_def ctb_xor_def ctb_not_def ctrue_def cfalse_def

lemma ctbool_wf_of_bool [simp]: "ctbool_wf (of_bool P)"
  by (simp add: ctbool_wf_def)

lemma ctbool_cases:
  assumes "ctbool_wf b"
  obtains P where "b = of_bool P"
proof -
  from assms have "b = of_bool False \<or> b = of_bool True" by (simp add: ctbool_wf_def)
  with that show thesis by blast
qed

lemma is_msb_set_bit: "is_msb_set (x :: 'a::len word) = of_bool (bit x (LENGTH('a) - 1))"
proof (rule bit_word_eqI)
  fix n
  assume "n < LENGTH('a)"
  then show "bit (is_msb_set x) n = bit (of_bool (bit x (LENGTH('a) - 1)) :: 'a word) n"
    by (cases n) (auto simp: is_msb_set_def ct_shr_def bit_simps dest: bit_imp_le_length)
qed

lemma msb_uint: "bit (x :: 'a::len word) (LENGTH('a) - 1) \<longleftrightarrow> 2 ^ (LENGTH('a) - 1) \<le> uint x"
proof -
  have "bit x (LENGTH('a) - 1) \<longleftrightarrow> bit (uint x) (LENGTH('a) - 1)"
    by (simp add: bit_uint_iff)
  also have "\<dots> \<longleftrightarrow> odd (uint x div 2 ^ (LENGTH('a) - 1))" by (simp add: bit_iff_odd)
  also have "\<dots> \<longleftrightarrow> 2 ^ (LENGTH('a) - 1) \<le> uint x"
  proof -
    have "uint x < 2 ^ (LENGTH('a) - 1) * 2" using uint_lt2p [of x] by (simp flip: power_Suc2)
    then have less: "uint x div 2 ^ (LENGTH('a) - 1) < 2" by (intro int_div_less) (simp_all add: mult.commute)
    show ?thesis
    proof (cases "2 ^ (LENGTH('a) - 1) \<le> uint x")
      case True
      then have "uint x div 2 ^ (LENGTH('a) - 1) \<ge> 1" by (simp add: pos_imp_zdiv_pos_iff int_one_le_iff_zero_less)
      with less have "uint x div 2 ^ (LENGTH('a) - 1) = 1" by linarith
      with True show ?thesis by simp
    qed simp
  qed
  finally show ?thesis .
qed

lemma uint_neg: "z \<noteq> 0 \<Longrightarrow> uint (- z :: 'a::len word) = 2 ^ LENGTH('a) - uint z"
  using uint_lt2p [of z] by (subst uint_word_ariths) (simp add: zmod_zminus1_eq_if uint_0_iff)

lemma msb_or_neg: "bit (z OR - z :: 'a::len word) (LENGTH('a) - 1) \<longleftrightarrow> z \<noteq> 0"
proof (cases "z = 0")
  case False
  have "(2 :: int) ^ LENGTH('a) = 2 * 2 ^ (LENGTH('a) - 1)" by (simp flip: power_Suc)
  with False uint_neg [OF False] have "bit z (LENGTH('a) - 1) \<or> bit (- z) (LENGTH('a) - 1)" unfolding msb_uint by linarith
  with False show ?thesis by (simp add: bit_or_iff)
qed simp

lemma is_non_zero_eq [simp]: "is_non_zero x = of_bool (x \<noteq> 0)"
  unfolding is_non_zero_def is_msb_set_bit ct_ops msb_or_neg ..

lemma ctb_ops_of_bool [simp]:
  "ctb_not (of_bool P :: 'a::len word) = of_bool (\<not> P)"
  "ctb_or (of_bool P :: 'a::len word) (of_bool Q) = of_bool (P \<or> Q)"
  "ctb_and (of_bool P :: 'a::len word) (of_bool Q) = of_bool (P \<and> Q)"
  "ctb_xor (of_bool P :: 'a::len word) (of_bool Q) = of_bool (P \<noteq> Q)"
  by (simp_all add: ct_ops of_bool_def)

lemma ct_is_zero_eq [simp]: "ct_is_zero x = of_bool (x = 0)"
  by (simp add: ct_is_zero_def)

lemma word_xor_cancel: "y XOR (x XOR y) = (x :: 'a::len word)" "x XOR y = 0 \<longleftrightarrow> x = (y :: 'a::len word)"
  by (auto intro!: bit_word_eqI simp: bit_xor_iff bit_eq_iff [of "x XOR y"] simp del: bit_eq_iff)

lemma ct_ne_eq [simp]: "ct_ne x y = of_bool (x \<noteq> y)"
  unfolding ct_ne_def Let_def is_msb_set_bit ct_ops msb_or_neg word_xor_cancel ..

lemma ct_eq_eq [simp]: "ct_eq x y = of_bool (x = y)"
  by (simp add: ct_eq_def)

lemma msb_sub:
  assumes "bit x (LENGTH('a) - 1) = bit (y :: 'a::len word) (LENGTH('a) - 1)"
  shows "bit (x - y) (LENGTH('a) - 1) \<longleftrightarrow> x < y"
proof -
  let ?H = "(2 :: int) ^ (LENGTH('a) - 1)"
  have H: "(2 :: int) ^ LENGTH('a) = 2 * ?H" by (simp flip: power_Suc)
  note b = assms [unfolded msb_uint] uint_lt2p [of x] uint_lt2p [of y] uint_ge_0 [of x] uint_ge_0 [of y]
  show ?thesis
  proof (cases "uint x < uint y")
    case True
    then have "uint (x - y) = uint x - uint y + 2 * ?H"
      using b unfolding H by (subst uint_sub_if') (simp add: H)
    moreover have "?H \<le> uint x - uint y + 2 * ?H" using b unfolding H by linarith
    ultimately show ?thesis using True unfolding msb_uint word_less_def by simp
  next
    case False
    then have "uint (x - y) = uint x - uint y" by (simp add: uint_sub_if')
    moreover have "\<not> ?H \<le> uint x - uint y" using b False unfolding H by linarith
    ultimately show ?thesis using False unfolding msb_uint word_less_def by simp
  qed
qed

lemma ct_lt_eq [simp]: "ct_lt x y = of_bool (x < y)"
proof -
  let ?m = "\<lambda>w :: 'a word. bit w (LENGTH('a) - 1)"
  have "?m (x XOR ((x XOR y) OR ((x - y) XOR y))) \<longleftrightarrow> x < y"
  proof (cases "?m x = ?m y")
    case True
    then show ?thesis using msb_sub [OF True] by (auto simp: bit_or_iff bit_xor_iff)
  next
    case False
    then have "?m (x XOR ((x XOR y) OR ((x - y) XOR y))) \<longleftrightarrow> ?m y" by (auto simp: bit_or_iff bit_xor_iff)
    also have "\<dots> \<longleftrightarrow> x < y" using False unfolding msb_uint word_less_def by auto
    finally show ?thesis .
  qed
  then show ?thesis by (simp add: ct_lt_def is_msb_set_bit ct_ops)
qed

lemma ct_le_eq [simp]: "ct_le x y = of_bool (x \<le> y)"
  by (simp add: ct_le_def not_less)

lemma cneg_eq: "cneg x (of_bool P) = (if P then - x else x)"
  by (simp add: cneg_def ct_ops Let_def minus_eq_not_plus_1 [of x] of_bool_def)

lemma mux_eq [simp]: "mux x86 (of_bool P) x y = (if P then x else y)"
  by (simp add: mux_def mux_formula_def ct_ops of_bool_def Let_def word_xor_cancel)

lemma mux32_eq [simp]: "mux32 x86 (of_bool P) x y = (if P then x else y)"
  using mux_eq [of x86 P x y] by (simp add: mux32_def mux_def)

lemma ccopy_eq [simp]: "ccopy x86 (of_bool P) x y = (if P then y else x)"
  unfolding ccopy_def mux_eq by simp

section \<open>The division loop\<close>

text \<open>The loop keeps the number in the two words and the quotient built so far. After the pass at shift
  \<open>k\<close> the number left is below \<open>d * 2 ^ k\<close>.\<close>

definition two_words :: "'a::len word \<Rightarrow> 'a word \<Rightarrow> int" where
  "two_words hi lo = uint hi * 2 ^ LENGTH('a) + uint lo"

lemma two_words_bounds: "0 \<le> two_words hi lo" "two_words hi lo < 2 ^ (2 * LENGTH('a))"
  for hi lo :: "'a::len word"
proof -
  show "0 \<le> two_words hi lo" by (simp add: two_words_def)
  have "uint hi * 2 ^ LENGTH('a) + uint lo < uint hi * 2 ^ LENGTH('a) + 2 ^ LENGTH('a)" by simp
  also have "\<dots> = (uint hi + 1) * 2 ^ LENGTH('a)" by (simp add: algebra_simps)
  also have "\<dots> \<le> 2 ^ LENGTH('a) * 2 ^ LENGTH('a)"
    using uint_lt2p [of hi] by (intro mult_right_mono) (simp_all only: zle_add1_eq_le zless_imp_add1_zle zero_le_power zero_le_numeral)
  finally show "two_words hi lo < 2 ^ (2 * LENGTH('a))" by (simp add: two_words_def power_add mult_2)
qed

lemma two_words_div_mod:
  "two_words hi lo div 2 ^ LENGTH('a) = uint hi" "two_words hi lo mod 2 ^ LENGTH('a) = uint lo"
  for hi lo :: "'a::len word"
  by (simp_all add: two_words_def)

lemma uint_ct_shr: "k < LENGTH('a) \<Longrightarrow> uint (ct_shr x k :: 'a::len word) = uint x div 2 ^ k"
  by (simp add: ct_shr_def unsigned_drop_bit_eq take_bit_int_eq_self) (simp add: drop_bit_eq_div)

lemma uint_ct_shl: "k < LENGTH('a) \<Longrightarrow> uint (ct_shl x k :: 'a::len word) = uint x * 2 ^ k mod 2 ^ LENGTH('a)"
  by (simp add: ct_shl_def unsigned_push_bit_eq flip: take_bit_eq_mod) (simp add: push_bit_eq_mult)

text \<open>The word read by a pass: the two words shifted right by \<open>k\<close>, cut to the width.\<close>

lemma window_word:
  fixes hi lo :: "'a::len word"
  assumes "0 < k" "k < LENGTH('a)"
  shows "uint (ct_bitor (ct_shl hi (LENGTH('a) - k)) (ct_shr lo k)) =
      (two_words hi lo div 2 ^ k) mod 2 ^ LENGTH('a)"
    and "ct_shr hi k \<noteq> 0 \<longleftrightarrow> 2 ^ LENGTH('a) \<le> two_words hi lo div 2 ^ k"
proof -
  let ?L = "LENGTH('a)"
  have "ct_bitor (ct_shl hi (?L - k)) (ct_shr lo k) = word_of_int (drop_bit k (two_words hi lo))"
  proof (rule bit_word_eqI)
    fix n
    assume "n < ?L"
    show "bit (ct_bitor (ct_shl hi (?L - k)) (ct_shr lo k)) n = bit (word_of_int (drop_bit k (two_words hi lo)) :: 'a word) n"
    proof -
      have "bit (two_words hi lo) m = (if m < ?L then bit lo m else bit hi (m - ?L))" for m
      proof -
        have "push_bit ?L (uint hi) + uint lo = push_bit ?L (uint hi) OR uint lo"
          by (rule disjunctive_add) (auto simp: bit_simps dest: bit_imp_le_length)
        then have "two_words hi lo = push_bit ?L (uint hi) OR uint lo"
          by (simp add: two_words_def push_bit_eq_mult)
        then show ?thesis by (auto simp: bit_simps dest: bit_imp_le_length)
      qed
      with \<open>n < ?L\<close> assms show ?thesis
        by (auto simp: ct_ops ct_shl_def ct_shr_def bit_simps ac_simps dest: bit_imp_le_length)
    qed
  qed
  then show "uint (ct_bitor (ct_shl hi (?L - k)) (ct_shr lo k)) = (two_words hi lo div 2 ^ k) mod 2 ^ ?L"
    by (simp add: uint_word_of_int drop_bit_eq_div take_bit_eq_mod)
  show "ct_shr hi k \<noteq> 0 \<longleftrightarrow> 2 ^ ?L \<le> two_words hi lo div 2 ^ k"
  proof -
    have "ct_shr hi k \<noteq> 0 \<longleftrightarrow> uint hi div 2 ^ k \<noteq> 0"
      using uint_ct_shr [OF assms(2), of hi] by (metis uint_0_iff)
    also have "\<dots> \<longleftrightarrow> 1 \<le> two_words hi lo div 2 ^ ?L div 2 ^ k"
      using pos_imp_zdiv_nonneg_iff [of "2 ^ k" "uint hi"] unfolding two_words_div_mod by auto
    also have "two_words hi lo div 2 ^ ?L div 2 ^ k = two_words hi lo div 2 ^ k div 2 ^ ?L"
      by (simp add: zdiv_zmult2_eq [symmetric] mult.commute)
    also have "1 \<le> \<dots> \<longleftrightarrow> 2 ^ ?L \<le> two_words hi lo div 2 ^ k"
      by (simp add: int_one_le_iff_zero_less pos_imp_zdiv_pos_iff)
    finally show ?thesis .
  qed
qed

lemma le_div_int_iff: "0 < (n :: int) \<Longrightarrow> a \<le> b div n \<longleftrightarrow> a * n \<le> b"
  by (metis int_div_less linorder_not_le mult.commute nonzero_mult_div_cancel_left order_less_irrefl zdiv_mono1)

lemma word_sub_int:
  "0 \<le> W - uint d \<Longrightarrow> W - uint d < 2 ^ LENGTH('a) \<Longrightarrow> uint (w - d) = W - uint d"
  if "uint w = W mod 2 ^ LENGTH('a)" for w d :: "'a::len word"
  using that by (simp add: uint_word_ariths mod_simps)

lemma div2n1n_step_ok:
  fixes hi lo d :: "'a::len word"
  assumes k: "0 < k" "k < LENGTH('a)" and V: "two_words hi lo < uint d * 2 ^ Suc k"
    and c: "c \<longleftrightarrow> uint d * 2 ^ k \<le> two_words hi lo"
  shows "\<exists>hi' lo'. div2n1n_step x86 d k (hi, lo, q) = (hi', lo', ct_bitor q (push_bit k (of_bool c))) \<and>
    two_words hi' lo' = two_words hi lo - (if c then uint d * 2 ^ k else 0)"
proof -
  let ?L = "LENGTH('a)" and ?V = "two_words hi lo"
  define w where "w = ct_bitor (ct_shl hi (?L - k)) (ct_shr lo k)"
  let ?W = "?V div 2 ^ k"
  have w: "uint w = ?W mod 2 ^ ?L" unfolding w_def using k by (rule window_word)
  have W: "c \<longleftrightarrow> uint d \<le> ?W" "?W < 2 * uint d" "0 \<le> ?W"
    using V two_words_bounds(1) [of hi lo]
    by (simp_all add: c le_div_int_iff int_div_less pos_imp_zdiv_nonneg_iff ac_simps)
  have ctl: "ctb_or (ctb_not (ct_lt w d)) (is_non_zero (ct_shr hi k)) = of_bool c"
  proof -
    have "ctb_or (ctb_not (ct_lt w d)) (is_non_zero (ct_shr hi k)) = of_bool (\<not> w < d \<or> ct_shr hi k \<noteq> 0)"
      by (simp only: ct_lt_eq is_non_zero_eq ctb_ops_of_bool)
    moreover have "\<not> w < d \<or> ct_shr hi k \<noteq> 0 \<longleftrightarrow> c"
      using window_word(2) [OF k, of hi lo] W uint_lt2p [of d] w
      by (cases "2 ^ ?L \<le> ?W") (auto simp: word_less_def)
    ultimately show ?thesis by simp
  qed
  have step: "div2n1n_step x86 d k (hi, lo, q) =
      (if c then ct_shr (w - d) (?L - k) else hi, if c then lo - ct_shl d k else lo, ct_bitor q (push_bit k (of_bool c)))"
    unfolding div2n1n_step_def Let_def prod.case w_def [symmetric] ctl mux_eq using k
    by (simp add: ct_sub_def ct_shl_def [of "of_bool c"])
  show ?thesis
  proof (cases c)
    case True
    let ?V' = "?V - uint d * 2 ^ k"
    have "uint (w - d) = ?W - uint d"
      using True W uint_lt2p [of d] by (intro word_sub_int [OF w]) linarith+
    then have "uint (ct_shr (w - d) (?L - k)) = (?W - uint d) div 2 ^ (?L - k)"
      using k by (simp add: uint_ct_shr)
    also have "?W - uint d = ?V' div 2 ^ k"
      using div_mult_self1 [of "2 ^ k" ?V "- uint d"] by simp
    also have "\<dots> div 2 ^ (?L - k) = ?V' div 2 ^ ?L"
      using k by (simp add: zdiv_zmult2_eq [symmetric] flip: power_add)
    finally have hi: "uint (ct_shr (w - d) (?L - k)) = ?V' div 2 ^ ?L" .
    have "?V' = uint lo - uint d * 2 ^ k + uint hi * 2 ^ ?L" by (simp add: two_words_def)
    then have "?V' mod 2 ^ ?L = (uint lo - uint d * 2 ^ k) mod 2 ^ ?L" by (simp only: mod_mult_self1)
    then have "uint (lo - ct_shl d k) = ?V' mod 2 ^ ?L"
      using k by (simp add: uint_word_ariths uint_ct_shl mod_simps)
    with hi have "two_words (ct_shr (w - d) (?L - k)) (lo - ct_shl d k) = ?V'"
      unfolding two_words_def [of "ct_shr (w - d) (?L - k)"] by (simp only: div_mult_mod_eq)
    with True step show ?thesis by simp
  qed (use step in simp)
qed

lemma or_low_bit:
  assumes "2 ^ Suc k dvd Q"
  shows "ct_bitor (word_of_int Q :: 'a::len word) (push_bit k (of_bool c)) = word_of_int (Q + (if c then 2 ^ k else 0))"
proof -
  have "\<not> bit Q k" using assms by (auto simp: bit_iff_odd elim!: dvdE)
  then have "word_of_int Q + push_bit k (of_bool c) = word_of_int Q OR (push_bit k (of_bool c) :: 'a word)"
    by (intro disjunctive_add) (auto simp: bit_simps)
  then show ?thesis by (cases c) (simp_all add: ct_ops push_bit_eq_mult)
qed

lemma div2n1n_loop_ok:
  fixes d :: "'a::len word"
  assumes "k < LENGTH('a)" "n = Q * uint d + two_words hi lo" "two_words hi lo < uint d * 2 ^ Suc k" "2 ^ Suc k dvd Q"
  shows "\<exists>hi' lo' Q'. div2n1n_loop x86 d k (hi, lo, word_of_int Q) = (hi', lo', word_of_int Q') \<and>
    n = Q' * uint d + two_words hi' lo' \<and> two_words hi' lo' < uint d * 2 \<and> 2 dvd Q'"
  using assms
proof (induction k arbitrary: hi lo Q)
  case 0
  then show ?case by auto
next
  case (Suc k)
  define c where "c \<longleftrightarrow> uint d * 2 ^ Suc k \<le> two_words hi lo"
  define Q1 where "Q1 = Q + (if c then 2 ^ Suc k else 0)"
  obtain hi1 lo1 where step: "div2n1n_step x86 d (Suc k) (hi, lo, word_of_int Q) = (hi1, lo1, word_of_int Q1)"
    and V: "two_words hi1 lo1 = two_words hi lo - (if c then uint d * 2 ^ Suc k else 0)"
    using div2n1n_step_ok [OF _ Suc.prems(1,3) c_def, of x86 "word_of_int Q"] or_low_bit [OF Suc.prems(4), of c]
    unfolding Q1_def by auto
  have "n = Q1 * uint d + two_words hi1 lo1" unfolding V Q1_def Suc.prems(2) by (simp add: algebra_simps)
  moreover have "two_words hi1 lo1 < uint d * 2 ^ Suc k"
    using Suc.prems(3) unfolding V by (auto simp: c_def not_le)
  moreover have "2 ^ Suc k dvd Q1"
    using Suc.prems(4) by (auto simp: Q1_def intro!: dvd_add elim: dvd_trans [rotated])
  ultimately show ?case using Suc.IH [of Q1 hi1 lo1] Suc.prems(1) step by simp
qed

lemma div2n1n_body_ok:
  fixes d :: "'a::len word"
  assumes "n_hi < d"
  shows "div2n1n_body x86 n_hi n_lo d =
    (word_of_int (two_words n_hi n_lo div uint d), word_of_int (two_words n_hi n_lo mod uint d))"
proof -
  let ?n = "two_words n_hi n_lo" and ?L = "LENGTH('a)"
  have L: "Suc (?L - 1) = ?L" by simp
  have "?n < (uint n_hi + 1) * 2 ^ ?L" using uint_lt2p [of n_lo] by (simp add: two_words_def algebra_simps)
  also have "\<dots> \<le> uint d * 2 ^ ?L" using assms by (intro mult_right_mono) (auto simp: word_less_def)
  finally have "?n < uint d * 2 ^ Suc (?L - 1)" by simp
  then obtain hi lo Q where loop: "div2n1n_loop x86 d (?L - 1) (n_hi, n_lo, 0) = (hi, lo, word_of_int Q)"
    and n: "?n = Q * uint d + two_words hi lo" "two_words hi lo < uint d * 2" "2 dvd Q"
    using div2n1n_loop_ok [of "?L - 1" ?n 0 d n_hi n_lo x86] by auto
  define c where "c \<longleftrightarrow> uint d \<le> two_words hi lo"
  have "ctb_or (ctb_not (ct_lt lo d)) (is_non_zero hi) = of_bool (\<not> lo < d \<or> hi \<noteq> 0)"
    by (simp only: ct_lt_eq is_non_zero_eq ctb_ops_of_bool)
  moreover have "\<not> lo < d \<or> hi \<noteq> 0 \<longleftrightarrow> c"
  proof (cases "hi = 0")
    case False
    then have "1 \<le> uint hi" by (metis uint_0_iff uint_ge_0 int_one_le_iff_zero_less order_le_less)
    then have "2 ^ ?L \<le> uint hi * 2 ^ ?L" by simp
    then have "uint d \<le> two_words hi lo" using uint_lt2p [of d] uint_ge_0 [of lo] unfolding two_words_def by linarith
    with False show ?thesis by (simp add: c_def)
  qed (simp add: c_def two_words_def word_less_def not_less)
  ultimately have carry: "ctb_or (ctb_not (ct_lt lo d)) (is_non_zero hi) = of_bool c" by simp
  let ?r = "two_words hi lo - (if c then uint d else 0)"
  have r: "0 \<le> ?r" "?r < uint d" using n(2) two_words_bounds(1) [of hi lo] by (auto simp: c_def)
  moreover have "?n = (Q + (if c then 1 else 0)) * uint d + ?r" using n(1) by (simp add: algebra_simps)
  ultimately have dm: "?n div uint d = Q + (if c then 1 else 0)" "?n mod uint d = ?r"
    by (auto intro!: div_pos_pos_trivial mod_pos_pos_trivial simp: int_div_pos_eq int_mod_pos_eq)
  have rem: "mux x86 (of_bool c) (ct_sub lo d) lo = word_of_int ?r"
  proof -
    have "word_of_int (two_words hi lo) = lo" by (simp add: two_words_def)
    then show ?thesis by (simp add: ct_sub_def)
  qed
  have "ct_eq n_hi d = of_bool False" using assms by simp
  then have "div2n1n_body x86 n_hi n_lo d = (ct_bitor (word_of_int Q) (of_bool c), mux x86 (of_bool c) (ct_sub lo d) lo)"
    unfolding div2n1n_body_def Let_def by (simp only: mux_eq if_False loop prod.case carry)
  also have "ct_bitor (word_of_int Q) (of_bool c) = (word_of_int (Q + (if c then 1 else 0)) :: 'a word)"
    using or_low_bit [of 0 Q c] n(3) by (cases c) simp_all
  finally show ?thesis unfolding rem dm .
qed

text \<open>C33. Comparison without branches decides the order of the values. At every width the operations return 0
  or 1 only, so the invariant of the boolean type holds, and they are 1 exactly when the unsigned
  comparison they are named after holds; boolean operators are the logical ones, conditional negation
  negates exactly when told to, and both implementations of the multiplexer select.\<close>

theorem ct_operations_decide:
  fixes x y :: "'a::len word"
  shows "ct_eq x y = of_bool (x = y) \<and> ct_ne x y = of_bool (x \<noteq> y) \<and> ct_lt x y = of_bool (x < y) \<and>
    ct_le x y = of_bool (x \<le> y) \<and> ct_is_zero x = of_bool (x = 0) \<and> is_non_zero x = of_bool (x \<noteq> 0) \<and>
    ctb_not (of_bool P :: 'a word) = of_bool (\<not> P) \<and>
    ctb_and (of_bool P :: 'a word) (of_bool Q) = of_bool (P \<and> Q) \<and>
    ctb_or (of_bool P :: 'a word) (of_bool Q) = of_bool (P \<or> Q) \<and>
    ctb_xor (of_bool P :: 'a word) (of_bool Q) = of_bool (P \<noteq> Q) \<and>
    cneg x (of_bool P) = (if P then - x else x) \<and>
    mux x86 (of_bool P) x y = (if P then x else y) \<and> ccopy x86 (of_bool P) x y = (if P then y else x)"
  using ct_eq_eq [of x y] ct_ne_eq [of x y] ct_lt_eq [of x y] ct_le_eq [of x y] ct_is_zero_eq [of x]
    is_non_zero_eq [of x] ctb_ops_of_bool cneg_eq [of x P] mux_eq [of x86 P x y] ccopy_eq [of x86 P x y]
  by blast

text \<open>The constant-time division divides: for a high word below the divisor, on either
  implementation of the multiplexer and at any width, the results are the quotient and the
  remainder of the double word by the divisor, and both fit a word. (A set top bit of the divisor, which
  the source asks for, is not needed.)\<close>

theorem div2n1n_divides:
  fixes d :: "'a::len word"
  assumes "n_hi < d" "div2n1n_body x86 n_hi n_lo d = (q, r)" "n = uint n_hi * 2 ^ LENGTH('a) + uint n_lo"
  shows "uint q = n div uint d \<and> uint r = n mod uint d"
proof -
  have d: "0 < uint d" using assms(1) by (simp add: word_less_def order_le_less_trans [OF uint_ge_0])
  have n: "n = two_words n_hi n_lo" by (simp add: assms(3) two_words_def)
  have "n < (uint n_hi + 1) * 2 ^ LENGTH('a)" using uint_lt2p [of n_lo] by (simp add: assms(3) algebra_simps)
  also have "\<dots> \<le> uint d * 2 ^ LENGTH('a)" using assms(1) by (intro mult_right_mono) (auto simp: word_less_def)
  finally have "n div uint d < 2 ^ LENGTH('a)" using d by (intro int_div_less) (simp_all add: mult.commute)
  moreover have "0 \<le> n div uint d" using d two_words_bounds(1) [of n_hi n_lo] n by (simp add: pos_imp_zdiv_nonneg_iff)
  moreover have "0 \<le> n mod uint d" "n mod uint d < 2 ^ LENGTH('a)"
    using d order_less_trans [OF pos_mod_bound [OF d, of n] uint_lt2p [of d]] by simp_all
  ultimately show ?thesis
    using div2n1n_body_ok [OF assms(1), of x86 n_lo] assms(2) n by (simp add: uint_word_of_int)
qed

theorem div2n1n_divides_witness:
  "fst (div2n1n True 1 5 3) = 6148914691236517207 \<and> snd (div2n1n True 1 5 3) = 0"
proof -
  obtain q r where qr: "div2n1n_body True 1 5 (3 :: u64) = (q, r)" by fastforce
  have "uint q = (1 * 2 ^ 64 + 5) div 3 \<and> uint r = (1 * 2 ^ 64 + 5) mod 3"
    using div2n1n_divides [OF _ qr refl] by simp
  then have "q = 6148914691236517207" "r = 0" by (simp_all add: word_uint_eq_iff)
  then show ?thesis by (simp add: div2n1n_def qr)
qed

text \<open>The whole-table scan returns the entry at the index, and 0 for an index past the end.\<close>

lemma secret_lookup_loop_eq:
  "i + length table < 2 ^ 64 \<Longrightarrow> secret_lookup_loop x86 i table index val =
    (if i \<le> unat index \<and> unat index < i + length table then table ! (unat index - i) else val)"
proof (induction table arbitrary: i val)
  case (Cons e es)
  have "word_of_nat i = index \<longleftrightarrow> i = unat index"
    using Cons.prems by (auto simp: word_unat_eq_iff unat_of_nat)
  then show ?case
    using Cons.IH [of "Suc i"] Cons.prems by (auto simp: ccopy_eq nth_Cons' Suc_diff_le simp del: of_bool_eq)
qed auto

theorem secret_lookup_entry:
  "length table < 2 ^ 64 \<Longrightarrow> secret_lookup x86 table index =
    (if unat index < length table then table ! unat index else 0)"
  by (simp add: secret_lookup_def secret_lookup_loop_eq)

end
