(* ===== verification/Limbs.thy ===== *)
theory Limbs
  imports Constant_Time
begin

text \<open>
  Multi-word arithmetic (\<open>crates/platform/src/intrinsics/addcarry_subborrow.rs\<close> and
  \<open>extended_prec.rs\<close>): sums with carry, differences with borrow, full products and three-word
  accumulators. The source writes each operation twice, for 32 and for 64 bit words, through an integer of
  twice the width; here the operation is written once over a word and its wide companion, whose type is
  an argument, and instantiated at both widths.
\<close>

section \<open>Unsigned and signed operators of the wide integers\<close>

definition u_arith :: "bool \<Rightarrow> int \<Rightarrow> 'b::len word panics" where
  "u_arith oc x = (if (0 \<le> x \<and> x < 2 ^ LENGTH('b)) \<or> \<not> oc then Some (word_of_int x) else None)"

definition s_arith :: "bool \<Rightarrow> int \<Rightarrow> 'b::len word panics" where
  "s_arith oc x =
     (if (- (2 ^ (LENGTH('b) - 1)) \<le> x \<and> x < 2 ^ (LENGTH('b) - 1)) \<or> \<not> oc then Some (word_of_int x) else None)"

definition u_add :: "bool \<Rightarrow> 'b::len word \<Rightarrow> 'b word \<Rightarrow> 'b word panics" where
  "u_add oc a b = u_arith oc (uint a + uint b)"

definition u_mul :: "bool \<Rightarrow> 'b::len word \<Rightarrow> 'b word \<Rightarrow> 'b word panics" where
  "u_mul oc a b = u_arith oc (uint a * uint b)"

definition s_mul :: "bool \<Rightarrow> 'b::len word \<Rightarrow> 'b word \<Rightarrow> 'b word panics" where
  "s_mul oc a b = s_arith oc (sint a * sint b)"

section \<open>Carry and borrow\<close>

definition add_c :: "'b::len itself \<Rightarrow> bool \<Rightarrow> 'a::len Ct \<Rightarrow> 'a Ct \<Rightarrow> u8 \<Rightarrow> ('a Ct \<times> u8) panics" where
  "add_c _ oc self rhs carry_in =
     do {
       s \<leftarrow> u_add oc (ucast self :: 'b word) (ucast rhs);
       wide \<leftarrow> u_add oc s (ucast carry_in);
       Some (ucast wide, ucast (drop_bit LENGTH('a) wide))
     }"

definition sub_b :: "'b::len itself \<Rightarrow> 'a::len Ct \<Rightarrow> 'a Ct \<Rightarrow> u8 \<Rightarrow> 'a Ct \<times> u8" where
  "sub_b _ self rhs borrow_in =
     (let wide = (ucast self :: 'b word) - ucast rhs - ucast borrow_in
      in (ucast wide, ucast (drop_bit LENGTH('a) wide AND 1)))"

definition add_c_u32 :: "bool \<Rightarrow> u32 \<Rightarrow> u32 \<Rightarrow> u8 \<Rightarrow> (u32 \<times> u8) panics" where
  "add_c_u32 oc self rhs carry_in = add_c TYPE(64) oc self rhs carry_in"

definition sub_b_u32 :: "u32 \<Rightarrow> u32 \<Rightarrow> u8 \<Rightarrow> u32 \<times> u8" where
  "sub_b_u32 self rhs borrow_in = sub_b TYPE(64) self rhs borrow_in"

definition add_c_u64 :: "bool \<Rightarrow> u64 \<Rightarrow> u64 \<Rightarrow> u8 \<Rightarrow> (u64 \<times> u8) panics" where
  "add_c_u64 oc self rhs carry_in = add_c TYPE(128) oc self rhs carry_in"

definition sub_b_u64 :: "u64 \<Rightarrow> u64 \<Rightarrow> u8 \<Rightarrow> u64 \<times> u8" where
  "sub_b_u64 self rhs borrow_in = sub_b TYPE(128) self rhs borrow_in"

section \<open>Full products\<close>

definition split_wide :: "'b::len word \<Rightarrow> 'a::len Ct \<times> 'a Ct" where
  "split_wide wide = (ucast (drop_bit LENGTH('a) wide), ucast wide)"

definition wide_mul :: "'b::len itself \<Rightarrow> bool \<Rightarrow> 'a::len Ct \<Rightarrow> 'a Ct \<Rightarrow> ('a Ct \<times> 'a Ct) panics" where
  "wide_mul _ oc self rhs =
     do { wide \<leftarrow> u_mul oc (ucast self :: 'b word) (ucast rhs); Some (split_wide wide) }"

definition muladd1 :: "'b::len itself \<Rightarrow> bool \<Rightarrow> 'a::len Ct \<Rightarrow> 'a Ct \<Rightarrow> 'a Ct \<Rightarrow> ('a Ct \<times> 'a Ct) panics" where
  "muladd1 _ oc self rhs c =
     do {
       p \<leftarrow> u_mul oc (ucast self :: 'b word) (ucast rhs);
       wide \<leftarrow> u_add oc p (ucast c);
       Some (split_wide wide)
     }"

definition muladd2 :: "'b::len itself \<Rightarrow> bool \<Rightarrow> 'a::len Ct \<Rightarrow> 'a Ct \<Rightarrow> 'a Ct \<Rightarrow> 'a Ct \<Rightarrow>
    ('a Ct \<times> 'a Ct) panics" where
  "muladd2 _ oc self rhs c1 c2 =
     do {
       p \<leftarrow> u_mul oc (ucast self :: 'b word) (ucast rhs);
       s \<leftarrow> u_add oc p (ucast c1);
       wide \<leftarrow> u_add oc s (ucast c2);
       Some (split_wide wide)
     }"

text \<open>The signed shift keeps the sign.\<close>

definition smul :: "'b::len itself \<Rightarrow> bool \<Rightarrow> 'a::len Ct \<Rightarrow> 'a Ct \<Rightarrow> ('a Ct \<times> 'a Ct) panics" where
  "smul _ oc self rhs =
     do {
       wide \<leftarrow> s_mul oc (scast self :: 'b word) (scast rhs);
       Some (ucast (signed_drop_bit LENGTH('a) wide), ucast wide)
     }"

definition wide_mul_u32 :: "bool \<Rightarrow> u32 \<Rightarrow> u32 \<Rightarrow> (u32 \<times> u32) panics" where
  "wide_mul_u32 oc self rhs = wide_mul TYPE(64) oc self rhs"

definition muladd1_u32 :: "bool \<Rightarrow> u32 \<Rightarrow> u32 \<Rightarrow> u32 \<Rightarrow> (u32 \<times> u32) panics" where
  "muladd1_u32 oc self rhs c = muladd1 TYPE(64) oc self rhs c"

definition muladd2_u32 :: "bool \<Rightarrow> u32 \<Rightarrow> u32 \<Rightarrow> u32 \<Rightarrow> u32 \<Rightarrow> (u32 \<times> u32) panics" where
  "muladd2_u32 oc self rhs c1 c2 = muladd2 TYPE(64) oc self rhs c1 c2"

definition smul_u32 :: "bool \<Rightarrow> u32 \<Rightarrow> u32 \<Rightarrow> (u32 \<times> u32) panics" where
  "smul_u32 oc self rhs = smul TYPE(64) oc self rhs"

definition wide_mul_u64 :: "bool \<Rightarrow> u64 \<Rightarrow> u64 \<Rightarrow> (u64 \<times> u64) panics" where
  "wide_mul_u64 oc self rhs = wide_mul TYPE(128) oc self rhs"

definition muladd1_u64 :: "bool \<Rightarrow> u64 \<Rightarrow> u64 \<Rightarrow> u64 \<Rightarrow> (u64 \<times> u64) panics" where
  "muladd1_u64 oc self rhs c = muladd1 TYPE(128) oc self rhs c"

definition muladd2_u64 :: "bool \<Rightarrow> u64 \<Rightarrow> u64 \<Rightarrow> u64 \<Rightarrow> u64 \<Rightarrow> (u64 \<times> u64) panics" where
  "muladd2_u64 oc self rhs c1 c2 = muladd2 TYPE(128) oc self rhs c1 c2"

definition smul_u64 :: "bool \<Rightarrow> u64 \<Rightarrow> u64 \<Rightarrow> (u64 \<times> u64) panics" where
  "smul_u64 oc self rhs = smul TYPE(128) oc self rhs"

section \<open>Three-word accumulators\<close>

text \<open>The accumulator is passed in and returned; its highest word wraps around.\<close>

definition mul_acc_body :: "'b::len itself \<Rightarrow> bool \<Rightarrow> 'a::len Ct \<times> 'a Ct \<times> 'a Ct \<Rightarrow> 'a Ct \<Rightarrow> 'a Ct \<Rightarrow>
    ('a Ct \<times> 'a Ct \<times> 'a Ct) panics" where
  "mul_acc_body W oc = (\<lambda>(t, u, v) a b.
     do {
       (uv_hi, uv_lo) \<leftarrow> wide_mul W oc a b;
       (v, carry) \<leftarrow> add_c W oc v uv_lo 0;
       (u, carry) \<leftarrow> add_c W oc u uv_hi carry;
       Some (ct_add t (ucast carry), u, v)
     })"

definition mul_double_acc_body :: "'b::len itself \<Rightarrow> bool \<Rightarrow> 'a::len Ct \<times> 'a Ct \<times> 'a Ct \<Rightarrow> 'a Ct \<Rightarrow> 'a Ct \<Rightarrow>
    ('a Ct \<times> 'a Ct \<times> 'a Ct) panics" where
  "mul_double_acc_body W oc = (\<lambda>(t, u, v) a b.
     do {
       (uv_hi, uv_lo) \<leftarrow> wide_mul W oc a b;
       (uv_lo_d, carry_lo) \<leftarrow> add_c W oc uv_lo uv_lo 0;
       (uv_hi_d, carry_hi) \<leftarrow> add_c W oc uv_hi uv_hi carry_lo;
       let t = ct_add t (ucast carry_hi);
       (v, carry) \<leftarrow> add_c W oc v uv_lo_d 0;
       (u, carry) \<leftarrow> add_c W oc u uv_hi_d carry;
       Some (ct_add t (ucast carry), u, v)
     })"

definition mul_acc :: "bool \<Rightarrow> u64 \<times> u64 \<times> u64 \<Rightarrow> u64 \<Rightarrow> u64 \<Rightarrow> (u64 \<times> u64 \<times> u64) panics" where
  "mul_acc oc tuv a b = mul_acc_body TYPE(128) oc tuv a b"

definition mul_acc32 :: "bool \<Rightarrow> u32 \<times> u32 \<times> u32 \<Rightarrow> u32 \<Rightarrow> u32 \<Rightarrow> (u32 \<times> u32 \<times> u32) panics" where
  "mul_acc32 oc tuv a b = mul_acc_body TYPE(64) oc tuv a b"

definition mul_double_acc :: "bool \<Rightarrow> u64 \<times> u64 \<times> u64 \<Rightarrow> u64 \<Rightarrow> u64 \<Rightarrow> (u64 \<times> u64 \<times> u64) panics" where
  "mul_double_acc oc tuv a b = mul_double_acc_body TYPE(128) oc tuv a b"

definition mul_double_acc32 :: "bool \<Rightarrow> u32 \<times> u32 \<times> u32 \<Rightarrow> u32 \<Rightarrow> u32 \<Rightarrow> (u32 \<times> u32 \<times> u32) panics" where
  "mul_double_acc32 oc tuv a b = mul_double_acc_body TYPE(64) oc tuv a b"

section \<open>Values\<close>

lemma u_add_fits:
  assumes "uint a + uint b < 2 ^ LENGTH('b)"
  shows "u_add oc a b = Some (a + b :: 'b::len word)" and "uint (a + b) = uint a + uint b"
  using assms by (simp_all add: u_add_def u_arith_def uint_word_ariths)

lemma u_mul_fits:
  assumes "uint a * uint b < 2 ^ LENGTH('b)"
  shows "u_mul oc a b = Some (a * b :: 'b::len word)" and "uint (a * b) = uint a * uint b"
  using assms by (simp_all add: u_mul_def u_arith_def uint_word_ariths)

lemma uint_ucast_wide: "LENGTH('a) \<le> LENGTH('b) \<Longrightarrow> uint (ucast (a :: 'a::len word) :: 'b::len word) = uint a"
  using take_bit_int_eq_self [OF uint_ge_0 order_less_le_trans [OF uint_lt2p [of a] power_increasing]]
  by (simp add: unsigned_ucast_eq)

lemma uint_ucast_low: "LENGTH('a) \<le> LENGTH('b) \<Longrightarrow>
    uint (ucast (w :: 'b::len word) :: 'a::len word) = uint w mod 2 ^ LENGTH('a)"
  by (simp add: unsigned_ucast_eq take_bit_eq_mod)

lemma uint_drop_wide: "n < LENGTH('b) \<Longrightarrow> uint (drop_bit n (w :: 'b::len word)) = uint w div 2 ^ n"
  using uint_ct_shr [of n w] by (simp add: ct_shr_def)

lemma uint_mult_fits:
  "0 \<le> uint a * uint b + c" "uint a * uint b + c < 2 ^ LENGTH('b)"
  if "LENGTH('b::len) = 2 * LENGTH('a)" "0 \<le> c" "c \<le> 2 * (2 ^ LENGTH('a) - 1)" for a b :: "'a::len word"
proof -
  let ?M = "2 ^ LENGTH('a) :: int"
  have "uint a * uint b \<le> (?M - 1) * (?M - 1)"
    using uint_lt2p [of a] uint_lt2p [of b] by (intro mult_mono) (auto simp: zle_diff1_eq)
  also have "\<dots> = ?M * ?M - 2 * (?M - 1) - 1" by (simp add: algebra_simps)
  finally show "uint a * uint b + c < 2 ^ LENGTH('b)"
    using that(3) unfolding that(1) mult_2 power_add by linarith
  show "0 \<le> uint a * uint b + c" using that(2) by simp
qed

lemma split_wide_value:
  assumes "LENGTH('b) = 2 * LENGTH('a)" "split_wide (w :: 'b::len word) = (hi, lo :: 'a::len word)"
  shows "two_words hi lo = uint w"
proof -
  have "uint w < 2 ^ LENGTH('a) * 2 ^ LENGTH('a)"
    using uint_lt2p [of w] unfolding assms(1) mult_2 power_add .
  then have "uint w div 2 ^ LENGTH('a) < 2 ^ LENGTH('a)" by (intro int_div_less) auto
  then have "uint hi = uint w div 2 ^ LENGTH('a)" "uint lo = uint w mod 2 ^ LENGTH('a)"
    using assms by (auto simp: split_wide_def uint_ucast_low uint_drop_wide pos_imp_zdiv_nonneg_iff)
  then show ?thesis by (simp only: two_words_def div_mult_mod_eq)
qed

lemma add_c_value:
  assumes "LENGTH('b) = 2 * LENGTH('a)" "8 \<le> LENGTH('a)"
  obtains s c' where "add_c TYPE('b::len) oc (a :: 'a::len word) b c = Some (s, c')"
    "uint s + uint c' * 2 ^ LENGTH('a) = uint a + uint b + uint c" "uint c \<le> 1 \<Longrightarrow> uint c' \<le> 1"
proof -
  let ?M = "2 ^ LENGTH('a) :: int" and ?w = "uint a + uint b + uint c"
  have M: "2 ^ 8 \<le> ?M" using assms(2) by (intro power_increasing) auto
  have c: "uint c < 2 ^ 8" using uint_lt2p [of c] by simp
  have small: "?w < 3 * ?M" using uint_lt2p [of a] uint_lt2p [of b] M c by linarith
  also have "3 * ?M \<le> 2 ^ 8 * ?M" by simp
  finally have "?w < 2 ^ 8 * ?M" .
  moreover have "2 ^ 8 * ?M \<le> ?M * ?M" using M by (intro mult_right_mono) auto
  ultimately have wide: "?w < 2 ^ LENGTH('b)" unfolding assms(1) mult_2 power_add by linarith
  then have wide': "uint a + uint b < 2 ^ LENGTH('b)" using uint_ge_0 [of c] by linarith
  define w where "w = (ucast a :: 'b word) + ucast b + ucast c"
  have "uint (ucast a :: 'b word) + uint (ucast b :: 'b word) < 2 ^ LENGTH('b)"
    using wide' assms by (simp add: uint_ucast_wide)
  note 1 = u_add_fits [OF this]
  have "uint (ucast a + ucast b :: 'b word) + uint (ucast c :: 'b word) < 2 ^ LENGTH('b)"
    unfolding 1(2) using wide assms by (simp add: uint_ucast_wide)
  note 2 = u_add_fits [OF this]
  have w: "uint w = ?w" unfolding w_def 2(2) 1(2) using assms by (simp add: uint_ucast_wide)
  have add: "add_c TYPE('b) oc a b c = Some (ucast w, ucast (drop_bit LENGTH('a) w))"
    by (simp add: add_c_def 1(1) 2(1) w_def)
  have s: "uint (ucast w :: 'a word) = ?w mod ?M" using assms(1) by (simp add: uint_ucast_low w)
  have "?w div ?M < 3" using small by (intro int_div_less) auto
  then have c': "uint (ucast (drop_bit LENGTH('a) w) :: u8) = ?w div ?M"
    using assms by (simp add: uint_ucast_low uint_drop_wide w pos_imp_zdiv_nonneg_iff)
  have "?w div ?M \<le> 1" if "uint c \<le> 1"
  proof -
    have "?w < 2 * ?M" using that uint_lt2p [of a] uint_lt2p [of b] by linarith
    then have "?w div ?M < 2" by (intro int_div_less) auto
    then show ?thesis by linarith
  qed
  then show thesis using that [OF add] unfolding s c' by (metis add.commute div_mult_mod_eq)
qed

lemma sub_b_value:
  assumes "LENGTH('b) = 2 * LENGTH('a)" "8 \<le> LENGTH('a)" "uint c \<le> 1"
    and "sub_b TYPE('b::len) (a :: 'a::len word) b c = (d, c')"
  shows "uint d - uint c' * 2 ^ LENGTH('a) = uint a - uint b - uint c \<and> uint c' \<le> 1"
proof -
  let ?M = "2 ^ LENGTH('a) :: int" and ?x = "uint a - uint b - uint c"
  define wide where "wide = (ucast a :: 'b word) - ucast b - ucast c"
  have MM: "(2 :: int) ^ LENGTH('b) = ?M * ?M" unfolding assms(1) mult_2 power_add ..
  have w: "uint wide = ?x mod (?M * ?M)"
    unfolding MM [symmetric] using assms(1,2) by (simp add: wide_def uint_word_ariths uint_ucast_wide mod_simps)
  have d: "uint d = ?x mod ?M"
    using assms(1,4) by (auto simp: sub_b_def Let_def wide_def [symmetric] uint_ucast_low w mod_mod_cancel)
  have c': "uint c' = (?x mod (?M * ?M) div ?M) mod 2"
    using assms(1,2,4) by (auto simp: sub_b_def Let_def wide_def [symmetric] uint_ucast_low w uint_drop_wide
        and_one_eq uint_mod)
  have r: "- ?M \<le> ?x" "?x < ?M"
    using assms(3) uint_lt2p [of a] uint_lt2p [of b] uint_ge_0 [of a] uint_ge_0 [of b] uint_ge_0 [of c] by linarith+
  have "?M * 1 \<le> ?M * ?M" by (intro mult_left_mono) simp_all
  then have MM1: "?M \<le> ?M * ?M" by simp
  show ?thesis
  proof (cases "0 \<le> ?x")
    case True
    have "?x < ?M * ?M" using r MM1 by linarith
    then have "?x mod (?M * ?M) = ?x" "?x mod ?M = ?x" using True r by (intro mod_pos_pos_trivial; simp)+
    with True r d c' show ?thesis by simp
  next
    case False
    have "?x mod (?M * ?M) = (?x + ?M * ?M) mod (?M * ?M)" by simp
    also have "\<dots> = ?x + ?M * ?M"
    proof (rule mod_pos_pos_trivial)
      show "0 \<le> ?x + ?M * ?M" using r(1) MM1 by linarith
    qed (use False in simp)
    finally have x: "?x mod (?M * ?M) = (?x + ?M) + (?M - 1) * ?M" by (simp add: algebra_simps)
    have "?x mod ?M = (?x + ?M) mod ?M" by simp
    also have "\<dots> = ?x + ?M" using False r by (intro mod_pos_pos_trivial) auto
    finally have d': "uint d = ?x + ?M" using d by simp
    have "(?x + ?M) div ?M = 0" using False r by (intro div_pos_pos_trivial) auto
    then have "?x mod (?M * ?M) div ?M = ?M - 1" unfolding x by simp
    moreover have "(?M - 1) mod 2 = 1" using assms(2) by (simp flip: odd_iff_mod_2_eq_one)
    ultimately have "uint c' = 1" using c' by simp
    with d' show ?thesis by simp
  qed
qed

lemma wide_mul_value:
  assumes "LENGTH('b) = 2 * LENGTH('a)"
  obtains hi lo where "wide_mul TYPE('b::len) oc (a :: 'a::len word) b = Some (hi, lo)"
    "two_words hi lo = uint a * uint b"
proof -
  have "uint (ucast a :: 'b word) * uint (ucast b :: 'b word) < 2 ^ LENGTH('b)"
    using uint_mult_fits(2) [OF assms, of 0 a b] assms by (simp add: uint_ucast_wide)
  note p = u_mul_fits [OF this]
  obtain hi lo where sp: "split_wide (ucast a * ucast b :: 'b word) = (hi :: 'a word, lo)" by fastforce
  have "wide_mul TYPE('b) oc a b = Some (hi, lo)" using sp by (simp add: wide_mul_def p(1))
  then show thesis using that split_wide_value [OF assms sp] assms unfolding p(2) by (simp add: uint_ucast_wide)
qed

lemma muladd_value:
  assumes "LENGTH('b) = 2 * LENGTH('a)"
  shows "\<exists>hi lo. muladd1 TYPE('b::len) oc (a :: 'a::len word) b c1 = Some (hi, lo) \<and>
      two_words hi lo = uint a * uint b + uint c1"
    and "\<exists>hi lo. muladd2 TYPE('b::len) oc (a :: 'a::len word) b c1 c2 = Some (hi, lo) \<and>
      two_words hi lo = uint a * uint b + uint c1 + uint c2"
proof -
  have "uint c1 \<le> 2 ^ LENGTH('a) - 1" "uint c2 \<le> 2 ^ LENGTH('a) - 1" by (simp_all add: zle_diff1_eq)
  then have c: "uint c1 + uint c2 \<le> 2 * (2 ^ LENGTH('a) - 1)" "uint c1 \<le> 2 * (2 ^ LENGTH('a) - 1)"
    using uint_ge_0 [of c2] unfolding mult_2 by linarith+
  note u = uint_ucast_wide [where 'a = 'a and 'b = 'b]
  have len: "LENGTH('a) \<le> LENGTH('b)" using assms by simp
  have "uint (ucast a :: 'b word) * uint (ucast b :: 'b word) < 2 ^ LENGTH('b)"
    using uint_mult_fits(2) [OF assms, of 0 a b] len by (simp add: u)
  note 1 = u_mul_fits [OF this]
  have "uint (ucast a * ucast b :: 'b word) + uint (ucast c1 :: 'b word) < 2 ^ LENGTH('b)"
    unfolding 1(2) using uint_mult_fits(2) [OF assms _ c(2), of a b] len by (simp add: u)
  note 2 = u_add_fits [OF this]
  have "uint (ucast a * ucast b + ucast c1 :: 'b word) + uint (ucast c2 :: 'b word) < 2 ^ LENGTH('b)"
    unfolding 2(2) 1(2) using uint_mult_fits(2) [OF assms _ c(1), of a b] len by (simp add: u)
  note 3 = u_add_fits [OF this]
  obtain hi lo where sp: "split_wide (ucast a * ucast b + ucast c1 :: 'b word) = (hi :: 'a word, lo)" by fastforce
  show "\<exists>hi lo. muladd1 TYPE('b) oc a b c1 = Some (hi, lo) \<and> two_words hi lo = uint a * uint b + uint c1"
    using sp split_wide_value [OF assms sp] unfolding 2(2) 1(2) using len
    by (simp add: muladd1_def 1(1) 2(1) u)
  obtain hi lo where sp: "split_wide (ucast a * ucast b + ucast c1 + ucast c2 :: 'b word) = (hi :: 'a word, lo)"
    by fastforce
  show "\<exists>hi lo. muladd2 TYPE('b) oc a b c1 c2 = Some (hi, lo) \<and>
      two_words hi lo = uint a * uint b + uint c1 + uint c2"
    using sp split_wide_value [OF assms sp] unfolding 3(2) 2(2) 1(2) using len
    by (simp add: muladd2_def 1(1) 2(1) 3(1) u)
qed

lemma ucast_eq_of_sint: "LENGTH('a) \<le> LENGTH('b) \<Longrightarrow> ucast (w :: 'b::len word) = (word_of_int (sint w) :: 'a::len word)"
proof (rule bit_word_eqI)
  fix n
  assume "LENGTH('a) \<le> LENGTH('b)" "n < LENGTH('a)"
  then show "bit (ucast w :: 'a word) n \<longleftrightarrow> bit (word_of_int (sint w) :: 'a word) n"
    by (cases "n = LENGTH('b) - 1") (auto simp: bit_simps min_def)
qed

lemma sint_wider: "LENGTH('a) \<le> LENGTH('b) \<Longrightarrow> sint (scast (a :: 'a::len word) :: 'b::len word) = sint a"
proof -
  assume "LENGTH('a) \<le> LENGTH('b)"
  then have "(2 :: int) ^ (LENGTH('a) - Suc 0) \<le> 2 ^ (LENGTH('b) - Suc 0)" by (intro power_increasing) auto
  then have "- (2 ^ (LENGTH('b) - Suc 0)) \<le> sint a" "sint a < 2 ^ (LENGTH('b) - Suc 0)"
    using sint_greater_eq [of a] sint_less [of a] by linarith+
  then show ?thesis by (simp add: signed_scast_eq signed_take_bit_int_eq_self)
qed

lemma smul_value:
  assumes "LENGTH('b) = 2 * LENGTH('a)"
  obtains hi lo where "smul TYPE('b::len) oc (a :: 'a::len word) b = Some (hi, lo)"
    "sint hi * 2 ^ LENGTH('a) + uint lo = sint a * sint b"
proof -
  let ?H = "2 ^ (LENGTH('a) - 1) :: int" and ?M = "2 ^ LENGTH('a) :: int" and ?p = "sint a * sint b"
  have M: "?M = 2 * ?H" by (simp flip: power_Suc)
  have "LENGTH('b) - 1 = LENGTH('a) + (LENGTH('a) - 1)" using assms by simp
  then have W: "(2 :: int) ^ (LENGTH('b) - 1) = ?M * ?H" by (simp only: power_add)
  have ab: "\<bar>sint a\<bar> \<le> ?H" "\<bar>sint b\<bar> \<le> ?H" using sint_range_size [of a] sint_range_size [of b] by (auto simp: word_size abs_le_iff)
  have "\<bar>?p\<bar> \<le> ?H * ?H" unfolding abs_mult using ab by (intro mult_mono) auto
  moreover have "?H * ?H < ?M * ?H" by (simp add: M)
  ultimately have p: "- (?M * ?H) \<le> ?p" "?p < ?M * ?H" by linarith+
  define wide where "wide = (word_of_int ?p :: 'b word)"
  have len: "LENGTH('a) \<le> LENGTH('b)" using assms by simp
  have sint_wide: "sint wide = ?p" unfolding wide_def using p [folded W] by (intro sint_of_int_range)
  have cast: "sint (scast a :: 'b word) = sint a" "sint (scast b :: 'b word) = sint b"
    using sint_wider [OF len] by blast+
  have "smul TYPE('b) oc a b = Some (ucast (signed_drop_bit LENGTH('a) wide), ucast wide)"
    using p [folded W] by (simp add: smul_def s_mul_def s_arith_def cast wide_def)
  moreover have "sint (ucast (signed_drop_bit LENGTH('a) wide) :: 'a word) = ?p div ?M"
  proof -
    have "?p div ?M < ?H" "- ?H \<le> ?p div ?M"
      using p by (auto intro: int_div_less simp: le_div_int_iff mult.commute)
    moreover have "(ucast (signed_drop_bit LENGTH('a) wide) :: 'a word) = word_of_int (?p div ?M)"
      using ucast_eq_of_sint [OF len, of "signed_drop_bit LENGTH('a) wide"]
      by (simp add: sint_signed_drop_bit_eq sint_wide drop_bit_eq_div)
    ultimately show ?thesis by (simp only: sint_of_int_range)
  qed
  moreover have "uint (ucast wide :: 'a word) = ?p mod ?M"
    unfolding ucast_eq_of_sint [OF len] sint_wide by (simp only: uint_word_of_int)
  ultimately show thesis using that by (simp only: div_mult_mod_eq)
qed

section \<open>Accumulators\<close>

definition three_words :: "'a::len word \<times> 'a word \<times> 'a word \<Rightarrow> int" where
  "three_words = (\<lambda>(t, u, v). uint t * 2 ^ (2 * LENGTH('a)) + two_words u v)"

lemma three_words_wrap:
  fixes u v :: "'a::len word"
  assumes "X = T * 2 ^ (2 * LENGTH('a)) + two_words u v"
  shows "three_words (word_of_int T, u, v) = X mod 2 ^ (3 * LENGTH('a))"
proof -
  let ?M = "2 ^ LENGTH('a) :: int" and ?N = "2 ^ (2 * LENGTH('a)) :: int"
  have N: "(2 :: int) ^ (3 * LENGTH('a)) = ?N * ?M" by (simp flip: power_add)
  have "X mod (?N * ?M) = ?N * (X div ?N mod ?M) + X mod ?N" by (rule zmod_zmult2_eq) simp
  moreover have "X div ?N = T" "X mod ?N = two_words u v"
    using two_words_bounds [of u v] by (simp_all add: assms)
  ultimately show ?thesis unfolding N by (simp add: three_words_def uint_word_of_int mult.commute)
qed

lemma mul_acc_value:
  assumes "LENGTH('b) = 2 * LENGTH('a)" "8 \<le> LENGTH('a)"
  shows "\<exists>tuv'. mul_acc_body TYPE('b::len) oc tuv (a :: 'a::len word) b = Some tuv' \<and>
    three_words tuv' = (three_words tuv + uint a * uint b) mod 2 ^ (3 * LENGTH('a))"
proof -
  obtain t u v where tuv: "tuv = (t, u, v)" by (cases tuv)
  obtain hi lo where p: "wide_mul TYPE('b) oc a b = Some (hi, lo)" "two_words hi lo = uint a * uint b"
    using wide_mul_value [OF assms(1)] by blast
  obtain v' c1 where 1: "add_c TYPE('b) oc v lo 0 = Some (v', c1)"
    "uint v' + uint c1 * 2 ^ LENGTH('a) = uint v + uint lo + uint (0 :: u8)" "uint c1 \<le> 1"
    using add_c_value [OF assms, of oc v lo 0] by auto
  obtain u' c2 where 2: "add_c TYPE('b) oc u hi c1 = Some (u', c2)"
    "uint u' + uint c2 * 2 ^ LENGTH('a) = uint u + uint hi + uint c1"
    by (rule add_c_value [OF assms, of oc u hi c1])
  have "three_words tuv + uint a * uint b = (uint t + uint c2) * 2 ^ (2 * LENGTH('a)) + two_words u' v'"
  proof -
    let ?M = "2 ^ LENGTH('a) :: int"
    have v: "uint v = uint v' + uint c1 * ?M - uint lo" and u: "uint u = uint u' + uint c2 * ?M - uint hi - uint c1"
      using 1(2) 2(2) by simp_all
    show ?thesis
      unfolding tuv p(2) [symmetric] three_words_def two_words_def prod.case u v mult_2 power_add
      by (simp add: algebra_simps)
  qed
  note three_words_wrap [OF this]
  moreover have "word_of_int (uint t + uint c2) = ct_add t (ucast c2)" by (simp add: ct_add_def)
  ultimately show ?thesis using p(1) 1(1) 2(1) by (simp add: mul_acc_body_def tuv)
qed

lemma mul_double_acc_value:
  assumes "LENGTH('b) = 2 * LENGTH('a)" "8 \<le> LENGTH('a)"
  shows "\<exists>tuv'. mul_double_acc_body TYPE('b::len) oc tuv (a :: 'a::len word) b = Some tuv' \<and>
    three_words tuv' = (three_words tuv + 2 * (uint a * uint b)) mod 2 ^ (3 * LENGTH('a))"
proof -
  let ?M = "2 ^ LENGTH('a) :: int"
  obtain t u v where tuv: "tuv = (t, u, v)" by (cases tuv)
  obtain hi lo where p: "wide_mul TYPE('b) oc a b = Some (hi, lo)" "two_words hi lo = uint a * uint b"
    using wide_mul_value [OF assms(1)] by blast
  obtain lod cl where d1: "add_c TYPE('b) oc lo lo 0 = Some (lod, cl)"
    "uint lod + uint cl * ?M = uint lo + uint lo + uint (0 :: u8)" by (rule add_c_value [OF assms])
  obtain hid ch where d2: "add_c TYPE('b) oc hi hi cl = Some (hid, ch)"
    "uint hid + uint ch * ?M = uint hi + uint hi + uint cl" by (rule add_c_value [OF assms])
  obtain v' c1 where 1: "add_c TYPE('b) oc v lod 0 = Some (v', c1)"
    "uint v' + uint c1 * ?M = uint v + uint lod + uint (0 :: u8)" by (rule add_c_value [OF assms])
  obtain u' c2 where 2: "add_c TYPE('b) oc u hid c1 = Some (u', c2)"
    "uint u' + uint c2 * ?M = uint u + uint hid + uint c1" by (rule add_c_value [OF assms])
  have "2 * two_words hi lo = uint ch * ?M * ?M + two_words hid lod"
    using arg_cong [OF d2(2), of "\<lambda>x. x * ?M"] d1(2) by (simp add: two_words_def algebra_simps)
  moreover have "two_words u v + two_words hid lod = uint c2 * ?M * ?M + two_words u' v'"
    using arg_cong [OF 2(2), of "\<lambda>x. x * ?M"] 1(2) by (simp add: two_words_def algebra_simps)
  ultimately have "three_words tuv + 2 * (uint a * uint b) =
      (uint t + uint ch + uint c2) * 2 ^ (2 * LENGTH('a)) + two_words u' v'"
    unfolding tuv p(2) [symmetric] three_words_def prod.case mult_2 [of "LENGTH('a)"] power_add
    by (simp add: algebra_simps)
  note three_words_wrap [OF this]
  moreover have "word_of_int (uint t + uint ch + uint c2) = ct_add (ct_add t (ucast ch)) (ucast c2)"
    by (simp add: ct_add_def)
  ultimately show ?thesis using p(1) d1(1) d2(1) 1(1) 2(1) by (simp add: mul_double_acc_body_def tuv Let_def)
qed

section \<open>Properties\<close>

text \<open>Carry chains and full products are exact at both widths, and nothing overflows in a checked build:
  a sum with carry and a difference with borrow lose nothing, products with up to two addends and
  signed products are split into a high and a low word without loss.\<close>

theorem limb_operations_exact:
  "\<exists>s c'. add_c_u64 oc a b c = Some (s, c') \<and> uint s + uint c' * 2 ^ 64 = uint a + uint b + uint c"
  "\<exists>s c'. add_c_u32 oc a' b' c = Some (s, c') \<and> uint s + uint c' * 2 ^ 32 = uint a' + uint b' + uint c"
  "\<exists>hi lo. wide_mul_u64 oc a b = Some (hi, lo) \<and> uint hi * 2 ^ 64 + uint lo = uint a * uint b"
  "\<exists>hi lo. wide_mul_u32 oc a' b' = Some (hi, lo) \<and> uint hi * 2 ^ 32 + uint lo = uint a' * uint b'"
  "\<exists>hi lo. muladd1_u64 oc a b c1 = Some (hi, lo) \<and> uint hi * 2 ^ 64 + uint lo = uint a * uint b + uint c1"
  "\<exists>hi lo. muladd1_u32 oc a' b' c1' = Some (hi, lo) \<and> uint hi * 2 ^ 32 + uint lo = uint a' * uint b' + uint c1'"
  "\<exists>hi lo. muladd2_u64 oc a b c1 c2 = Some (hi, lo) \<and>
     uint hi * 2 ^ 64 + uint lo = uint a * uint b + uint c1 + uint c2"
  "\<exists>hi lo. muladd2_u32 oc a' b' c1' c2' = Some (hi, lo) \<and>
     uint hi * 2 ^ 32 + uint lo = uint a' * uint b' + uint c1' + uint c2'"
  "\<exists>hi lo. smul_u64 oc a b = Some (hi, lo) \<and> sint hi * 2 ^ 64 + uint lo = sint a * sint b"
  "\<exists>hi lo. smul_u32 oc a' b' = Some (hi, lo) \<and> sint hi * 2 ^ 32 + uint lo = sint a' * sint b'"
  using add_c_value [where 'a = 64 and 'b = 128, of oc a b c] add_c_value [where 'a = 32 and 'b = 64, of oc a' b' c]
    wide_mul_value [where 'a = 64 and 'b = 128, of oc a b] wide_mul_value [where 'a = 32 and 'b = 64, of oc a' b']
    smul_value [where 'a = 64 and 'b = 128, of oc a b] smul_value [where 'a = 32 and 'b = 64, of oc a' b']
    muladd_value(1) [where 'a = 64 and 'b = 128, of oc a b c1] muladd_value(1) [where 'a = 32 and 'b = 64, of oc a' b' c1']
    muladd_value(2) [where 'a = 64 and 'b = 128, of oc a b c1 c2]
    muladd_value(2) [where 'a = 32 and 'b = 64, of oc a' b' c1' c2']
  by (simp_all add: add_c_u64_def add_c_u32_def wide_mul_u64_def wide_mul_u32_def muladd1_u64_def muladd1_u32_def
      muladd2_u64_def muladd2_u32_def smul_u64_def smul_u32_def two_words_def) metis+

text \<open>The three-word accumulators add the product, once or doubled, to the number their words stand for,
  modulo the width of the accumulator: no carry is lost inside it, for every content of the accumulator and
  all factors, at both widths and in every build.\<close>

theorem accumulators_exact:
  "(\<exists>tuv'. mul_acc oc tuv a b = Some tuv' \<and>
      three_words tuv' = (three_words tuv + uint a * uint b) mod 2 ^ 192) \<and>
   (\<exists>tuv'. mul_double_acc oc tuv a b = Some tuv' \<and>
      three_words tuv' = (three_words tuv + 2 * (uint a * uint b)) mod 2 ^ 192) \<and>
   (\<exists>tuv'. mul_acc32 oc tuv32 a32 b32 = Some tuv' \<and>
      three_words tuv' = (three_words tuv32 + uint a32 * uint b32) mod 2 ^ 96) \<and>
   (\<exists>tuv'. mul_double_acc32 oc tuv32 a32 b32 = Some tuv' \<and>
      three_words tuv' = (three_words tuv32 + 2 * (uint a32 * uint b32)) mod 2 ^ 96)"
  using mul_acc_value [where 'a = 64 and 'b = 128, of oc tuv a b]
    mul_double_acc_value [where 'a = 64 and 'b = 128, of oc tuv a b]
    mul_acc_value [where 'a = 32 and 'b = 64, of oc tuv32 a32 b32]
    mul_double_acc_value [where 'a = 32 and 'b = 64, of oc tuv32 a32 b32]
  by (simp add: mul_acc_def mul_double_acc_def mul_acc32_def mul_double_acc32_def)

text \<open>A difference with borrow: the borrow is 1 exactly when the subtrahend and the incoming borrow exceed
  the minuend.\<close>

lemma sub_b_exact:
  "uint c \<le> 1 \<Longrightarrow> sub_b_u64 a b c = (d, c') \<Longrightarrow> uint d - uint c' * 2 ^ 64 = uint a - uint b - uint c \<and> uint c' \<le> 1"
  "uint c \<le> 1 \<Longrightarrow> sub_b_u32 a' b' c = (d', c'') \<Longrightarrow>
     uint d' - uint c'' * 2 ^ 32 = uint a' - uint b' - uint c \<and> uint c'' \<le> 1"
  using sub_b_value [where 'a = 64 and 'b = 128, of c a b d c'] sub_b_value [where 'a = 32 and 'b = 64, of c a' b' d' c'']
  by (simp_all add: sub_b_u64_def sub_b_u32_def)

end
