(* ===== verification/Bithacks.thy ===== *)
theory Bithacks
  imports Ring_Core Limbs
begin

text \<open>
  Powers of two, alignment and rounding on machine words (\<open>crates/platform/src/bithacks.rs\<close>), on a 64 bit
  target. The bit counting functions of the standard library are written out over the bits of the word.
\<close>

definition leading_zeros :: "u64 \<Rightarrow> nat" where
  "leading_zeros n = length (takeWhile (\<lambda>i. \<not> bit n i) (rev [0..<64]))"

definition usize_is_power_of_two :: "u64 \<Rightarrow> bool" where
  "usize_is_power_of_two n = is_power_of_two (unat n)"

text \<open>An overflow panics in a checked build and gives 0 otherwise.\<close>

definition usize_next_power_of_two :: "bool \<Rightarrow> u64 \<Rightarrow> u64 panics" where
  "usize_next_power_of_two oc n = (let p = next_power_of_two (unat n) in
     if p < 2 ^ 64 then Some (word_of_nat p) else if oc then None else Some 0)"

definition log2_floor :: "u64 \<Rightarrow> u32 panics" where
  "log2_floor n = (if n > 0 then Some (word_of_nat (64 - 1 - leading_zeros n)) else None)"

definition trailing_zeros :: "u64 \<Rightarrow> u32" where
  "trailing_zeros n = word_of_nat (length (takeWhile (\<lambda>i. \<not> bit n i) [0..<64]))"

definition round_up :: "bool \<Rightarrow> u64 \<Rightarrow> u64 \<Rightarrow> u64 panics" where
  "round_up oc val alignment =
     (if usize_is_power_of_two alignment
      then do {
        s \<leftarrow> u_add oc val alignment;
        s \<leftarrow> u_arith oc (uint s - 1);
        Some (s AND NOT (alignment - 1))
      }
      else None)"

definition ceil_div_vartime :: "u64 \<Rightarrow> u64 \<Rightarrow> u64 panics" where
  "ceil_div_vartime a b =
     (if b > 0 then Some (let d = a div b; r = a mod b in if r > 0 then d + 1 else d) else None)"

section \<open>Facts\<close>

lemma takeWhile_rev_upt:
  "length (takeWhile (\<lambda>i. \<not> P i) (rev [0..<m])) =
     (case find P (rev [0..<m]) of None \<Rightarrow> m | Some k \<Rightarrow> m - 1 - k)"
proof (induction m)
  case (Suc m)
  have "k < m" if "find P (rev [0..<m]) = Some k" for k
    using that by (auto simp: find_Some_iff rev_nth)
  then show ?case using Suc by (auto split: option.splits)
qed simp

text \<open>The floor of the binary logarithm.\<close>

theorem log2_floor_bounds:
  assumes "n > 0"
  shows "\<exists>k. log2_floor n = Some k \<and> 2 ^ unat k \<le> unat n \<and> unat n < 2 ^ Suc (unat k)"
proof -
  have "\<exists>i<64. bit n i"
  proof (rule ccontr)
    assume "\<not> (\<exists>i<64. bit n i)"
    then have "n = 0" by (intro bit_word_eqI) auto
    with assms show False by simp
  qed
  then obtain k where k: "find (bit n) (rev [0..<64]) = Some k"
    by (cases "find (bit n) (rev [0..<64])") (auto simp: find_None_iff)
  then obtain j where j: "j < 64" "bit n k" "k = 63 - j" "\<forall>l<j. \<not> bit n (63 - l)"
    by (auto simp: find_Some_iff rev_nth)
  have k64: "k < 64" using j by simp
  have above: "\<not> bit n i" if "k < i" "i < 64" for i
    using j(4) [rule_format, of "63 - i"] that j(1,3) by auto
  have res: "log2_floor n = Some (word_of_nat k)"
    using assms k k64 by (simp add: log2_floor_def leading_zeros_def takeWhile_rev_upt)
  have uk: "unat (word_of_nat k :: u32) = k" using k64 by (simp add: unat_of_nat)
  have "take_bit (Suc k) (unat n) = unat n"
  proof (rule bit_eqI)
    fix i
    show "bit (take_bit (Suc k) (unat n)) i = bit (unat n) i"
      using above [of i] bit_imp_le_length [of n i] by (cases "k < i") (auto simp: bit_simps bit_unsigned_iff)
  qed
  then have lt: "unat n < 2 ^ Suc k" by (metis take_bit_nat_less_exp)
  have "2 ^ k \<le> unat n"
  proof (rule ccontr)
    assume "\<not> 2 ^ k \<le> unat n"
    then have "take_bit k (unat n) = unat n" by (simp add: take_bit_nat_eq_self)
    then have "\<not> bit (unat n) k" by (metis bit_take_bit_iff less_irrefl)
    with j(2) show False by (simp add: bit_unsigned_iff)
  qed
  with res uk lt show ?thesis by auto
qed

lemma and_not_low: "uint (w AND NOT m) = uint w - uint (w AND m)" for w m :: "'a::len word"
proof -
  have "(w AND NOT m) + (w AND m) = (w AND NOT m) OR (w AND m)"
    by (rule disjunctive_add) (auto simp: bit_simps)
  also have "\<dots> = w" by (rule bit_word_eqI) (auto simp: bit_simps)
  finally have "w AND NOT m = w - (w AND m)" by (simp add: eq_diff_eq)
  moreover have "uint (w AND m) \<le> uint w" by (simp add: unsigned_and_eq AND_upper1)
  ultimately show ?thesis by (simp add: uint_sub_if')
qed

text \<open>\<open>round_up\<close> gives the least multiple of the alignment that is not below the value, when the sum of
  both fits a word.\<close>

theorem round_up_least:
  assumes "is_power_of_two (unat a)" "unat v + unat a < 2 ^ 64"
  shows "\<exists>r. round_up oc v a = Some r \<and> unat a dvd unat r \<and> unat v \<le> unat r \<and> unat r < unat v + unat a"
proof -
  from assms(1) obtain k where k: "unat a = 2 ^ k" using is_power_of_two_iff by blast
  have "(2 :: nat) ^ k < 2 ^ 64" using k unsigned_less [of a, where ?'a = nat] by simp
  then have k64: "k < 64" by (simp only: power_strict_increasing_iff)
  have uint_a: "uint a = 2 ^ k" using arg_cong [OF k, of int] by simp
  have a: "a - 1 = mask k"
  proof -
    have "a = 2 ^ k" using arg_cong [OF uint_a, of "word_of_int :: int \<Rightarrow> u64"] by simp
    then show ?thesis by (simp add: mask_eq_exp_minus_1)
  qed
  have "int (unat v + unat a) < int (2 ^ 64)" using assms(2) by (simp only: of_nat_less_iff)
  then have sum: "uint v + uint a < 2 ^ LENGTH(64)" by simp
  define s where "s = v + a - 1"
  have pos: "1 \<le> uint (v + a)" unfolding u_add_fits(2) [OF sum] using uint_a one_le_power [of "2 :: int" k] uint_ge_0 [of v] by linarith
  then have s: "uint s = uint v + uint a - 1"
    by (simp add: s_def uint_sub_if' u_add_fits(2) [OF sum])
  have res: "round_up oc v a = Some (s AND NOT (mask k))"
    using assms(1) pos uint_lt2p [of "v + a"]
    by (simp add: round_up_def usize_is_power_of_two_def u_add_fits(1) [OF sum] u_arith_def s_def a)
  have "uint (s AND mask k) = uint s mod 2 ^ k"
    using k64 by (simp add: take_bit_eq_mask [symmetric] unsigned_take_bit_eq min_def) (simp add: take_bit_eq_mod)
  then have r: "uint (s AND NOT (mask k)) = uint s - uint s mod 2 ^ k" by (simp add: and_not_low)
  have "0 \<le> uint s mod 2 ^ k" "uint s mod 2 ^ k < 2 ^ k" by simp_all
  then have "uint v \<le> uint (s AND NOT (mask k))" "uint (s AND NOT (mask k)) < uint v + uint a" "2 ^ k dvd uint (s AND NOT (mask k))"
    unfolding r using s uint_a by (simp_all add: dvd_minus_mod del: pos_mod_bound pos_mod_sign)
  then have "int (unat v) \<le> int (unat (s AND NOT (mask k)))"
    "int (unat (s AND NOT (mask k))) < int (unat v + unat a)" "int (unat a) dvd int (unat (s AND NOT (mask k)))"
    using uint_a by simp_all
  then show ?thesis unfolding res by (simp only: of_nat_le_iff of_nat_less_iff of_nat_dvd_iff) blast
qed

lemma ceil_step: "0 < r \<Longrightarrow> r < b \<Longrightarrow> (r + b - 1) div b = (1 :: nat)"
  by (cases r) (auto simp: div_add_self2)

text \<open>\<open>ceil_div_vartime\<close> is the quotient rounded up.\<close>

theorem ceil_div_exact:
  assumes "b > 0"
  shows "\<exists>q. ceil_div_vartime a b = Some q \<and> unat q = (unat a + unat b - 1) div unat b"
proof -
  have b: "0 < unat b" using assms by (simp add: word_less_nat_alt)
  let ?q = "unat a div unat b" and ?r = "unat a mod unat b"
  have split: "unat a + unat b - 1 = (?r + unat b - 1) + ?q * unat b" using b div_mult_mod_eq [of "unat a" "unat b"] by linarith
  have add: "((?r + unat b - 1) + ?q * unat b) div unat b = (?r + unat b - 1) div unat b + ?q"
    using div_mult_self1 [of "unat b" "?r + unat b - 1" ?q] b by simp
  have "(unat a + unat b - 1) div unat b = ?q + (if ?r = 0 then 0 else 1)"
  proof (cases "?r = 0")
    case True
    then show ?thesis unfolding split add using b by simp
  next
    case False
    then have "(?r + unat b - 1) div unat b = 1" by (intro ceil_step) (use mod_less_divisor [OF b] in auto)
    then show ?thesis unfolding split add using False by (simp only: if_False)
  qed
  moreover have "unat (a div b + 1) = ?q + 1" if "?r \<noteq> 0"
  proof -
    have "unat b > 1" using that b by (cases "unat b = 1") auto
    then have "?q < unat a \<or> unat a = 0" by (meson div_less_dividend not_gr_zero)
    then have "?q + 1 < 2 ^ 64" using unsigned_less [of a, where ?'a = nat] that by auto
    then show ?thesis by (simp add: unat_word_ariths unat_div_distrib)
  qed
  ultimately show ?thesis
    using assms by (auto simp: ceil_div_vartime_def Let_def unat_div_distrib unat_mod_distrib word_less_nat_alt)
qed

end
