(* ===== verification/Fixed_Parse.thy ===== *)
theory Fixed_Parse
  imports Fixed_Mul_Div
begin

text \<open>
  The single-pass decimal parser of \<open>FixedI64\<close> (\<open>crates/fixed/src/parse.rs\<close>) and its
  \<open>Display\<close> implementation (\<open>crates/fixed/src/fmt.rs\<close>), with a reference reading of decimal
  numerals the parser is compared with. A Rust string is the list of its bytes.
\<close>

type_synonym bytes = "u8 list"

section \<open>The accumulator\<close>

datatype ParseFixedError = InvalidFormat | Overflow | ExcessPrecision

record Accumulator =
  acc_mantissa :: i64
  acc_total_digits :: nat
  acc_frac_digits :: nat
  acc_saw_dot :: bool
  acc_saw_any_digit :: bool

definition acc_new :: Accumulator where
  "acc_new = \<lparr> acc_mantissa = 0, acc_total_digits = 0, acc_frac_digits = 0,
     acc_saw_dot = False, acc_saw_any_digit = False \<rparr>"

text \<open>The two counters are \<open>u8\<close>: \<open>+=\<close> panics or wraps at 255, \<open>saturating_add\<close> stays there.\<close>

definition u8_add :: "bool \<Rightarrow> nat \<Rightarrow> nat \<Rightarrow> nat panics" where
  "u8_add oc a b = (if a + b \<le> 255 then Some (a + b) else if oc then None else Some ((a + b) mod 256))"

definition u8_saturating_add :: "nat \<Rightarrow> nat \<Rightarrow> nat" where
  "u8_saturating_add a b = min 255 (a + b)"

definition is_digit :: "u8 \<Rightarrow> bool" where
  "is_digit b \<longleftrightarrow> 0x30 \<le> b \<and> b \<le> 0x39"

definition acc_feed_digit :: "bool \<Rightarrow> Accumulator \<Rightarrow> i64 \<Rightarrow> (ParseFixedError + Accumulator) panics" where
  "acc_feed_digit oc self digit =
     (if digit = 0 \<and> acc_mantissa self = 0 then
        let self = (if acc_saw_dot self
                    then self\<lparr> acc_frac_digits := u8_saturating_add (acc_frac_digits self) 1 \<rparr>
                    else self)
        in Some (Inr (self\<lparr> acc_saw_any_digit := True \<rparr>))
      else do {
        total \<leftarrow> u8_add oc (acc_total_digits self) 1;
        let self = self\<lparr> acc_total_digits := total \<rparr>;
        if total > 19 then Some (Inl Overflow)
        else do {
          m \<leftarrow> (if total \<le> 18
                 then do { p \<leftarrow> mul_i64 oc (acc_mantissa self) 10;
                           s \<leftarrow> sub_i64 oc p digit;
                           Some (Some s) }
                 else Some (case i64_checked (sint (acc_mantissa self) * 10) of
                        Some v \<Rightarrow> i64_checked (sint v - sint digit)
                      | None \<Rightarrow> None));
          case m of
            None \<Rightarrow> Some (Inl Overflow)
          | Some v \<Rightarrow>
              let self = self\<lparr> acc_mantissa := v \<rparr>;
                  self = (if acc_saw_dot self
                          then self\<lparr> acc_frac_digits := u8_saturating_add (acc_frac_digits self) 1 \<rparr>
                          else self)
              in Some (Inr (self\<lparr> acc_saw_any_digit := True \<rparr>))
        }
      })"

definition acc_feed :: "bool \<Rightarrow> Accumulator \<Rightarrow> u8 \<Rightarrow> (ParseFixedError + Accumulator) panics" where
  "acc_feed oc self byte =
     (if is_digit byte then acc_feed_digit oc self (ucast (byte - 0x30))
      else if byte = 0x2E then
        (if acc_saw_dot self then Some (Inl InvalidFormat)
         else Some (Inr (self\<lparr> acc_saw_dot := True \<rparr>)))
      else Some (Inl InvalidFormat))"

text \<open>The \<open>while\<close> loop of \<open>parse_decimal_bytes\<close>, from position \<open>start\<close> to the end.\<close>

fun acc_feed_all :: "bool \<Rightarrow> Accumulator \<Rightarrow> bytes \<Rightarrow> (ParseFixedError + Accumulator) panics" where
  "acc_feed_all oc acc [] = Some (Inr acc)"
| "acc_feed_all oc acc (b # bs) =
     do {
       r \<leftarrow> acc_feed oc acc b;
       case r of Inl e \<Rightarrow> Some (Inl e) | Inr a \<Rightarrow> acc_feed_all oc a bs
     }"

section \<open>The parser\<close>

definition parse_finish :: "nat \<Rightarrow> bool \<Rightarrow> Accumulator \<Rightarrow> ParseFixedError + fixed" where
  "parse_finish D negative acc =
     (if \<not> acc_saw_any_digit acc then Inl InvalidFormat
      else if acc_frac_digits acc > D then Inl ExcessPrecision
      else
        let pad = D - acc_frac_digits acc in
        if pad > 18 then Inl Overflow
        else
          case (if negative then Some (acc_mantissa acc) else i64_checked (- sint (acc_mantissa acc))) of
            None \<Rightarrow> Inl Overflow
          | Some signed_mantissa \<Rightarrow>
              if pad = 0 then Inr (fixed_from_raw signed_mantissa)
              else
                case i64_checked (sint signed_mantissa * sint (POW10_I64 ! pad)) of
                  None \<Rightarrow> Inl Overflow
                | Some scaled \<Rightarrow> Inr (fixed_from_raw scaled))"

definition parse_decimal_bytes :: "bool \<Rightarrow> nat \<Rightarrow> bytes \<Rightarrow> (ParseFixedError + fixed) panics" where
  "parse_decimal_bytes oc D bytes =
     (if bytes = [] then Some (Inl InvalidFormat)
      else
        let (negative, start) =
              (if bytes ! 0 = 0x2D then (True, 1)
               else if bytes ! 0 = 0x2B then (False, 1)
               else (False, 0 :: nat))
        in if start \<ge> length bytes then Some (Inl InvalidFormat)
           else do {
             r \<leftarrow> acc_feed_all oc acc_new (drop start bytes);
             Some (case r of Inl e \<Rightarrow> Inl e | Inr acc \<Rightarrow> parse_finish D negative acc)
           })"

definition from_str_decimal :: "bool \<Rightarrow> nat \<Rightarrow> bytes \<Rightarrow> (ParseFixedError + fixed) panics" where
  "from_str_decimal oc D s = parse_decimal_bytes oc D s"

section \<open>Display\<close>

text \<open>Rust's \<open>Display\<close> of an unsigned integer, and the fill \<open>0>width$\<close>, which pads on the left.\<close>

fun digits_of :: "nat \<Rightarrow> bytes" where
  "digits_of n = (if n < 10 then [0x30 + of_nat n]
                  else digits_of (n div 10) @ [0x30 + of_nat (n mod 10)])"

declare digits_of.simps [simp del]

definition pad_zeros :: "nat \<Rightarrow> bytes \<Rightarrow> bytes" where
  "pad_zeros width s = replicate (width - length s) 0x30 @ s"

definition display_int :: "i64 \<Rightarrow> bytes" where
  "display_int raw = (if sint raw < 0 then [0x2D] else []) @ digits_of (nat \<bar>sint raw\<bar>)"

definition fixed_display :: "nat \<Rightarrow> fixed \<Rightarrow> bytes" where
  "fixed_display D x =
     (if D = 0 then display_int (fixed_to_raw x)
      else
        let raw = fixed_to_raw x;
            abs_wide = nat \<bar>sint raw\<bar>;
            scale = unat (SCALE D);
            whole = abs_wide div scale;
            frac = abs_wide mod scale
        in if sint raw < 0
           then [0x2D] @ digits_of whole @ [0x2E] @ pad_zeros D (digits_of frac)
           else digits_of whole @ [0x2E] @ pad_zeros D (digits_of frac))"

section \<open>Reference reading of a numeral\<close>

definition dec_val :: "bytes \<Rightarrow> int" where
  "dec_val ds = foldl (\<lambda>v d. 10 * v + (uint d - 0x30)) 0 ds"

text \<open>A numeral: an optional sign, digits, and optionally a dot and more digits, with at least
  one digit in all. The parts are the sign, the whole digits and the fractional digits.\<close>

definition strip_sign :: "bytes \<Rightarrow> bool \<times> bytes" where
  "strip_sign s = (case s of
       c # cs \<Rightarrow> (if c = 0x2D then (True, cs) else if c = 0x2B then (False, cs) else (False, s))
     | [] \<Rightarrow> (False, []))"

definition decimal_parts :: "bytes \<Rightarrow> (bool \<times> bytes \<times> bytes) option" where
  "decimal_parts s =
     (let (neg, body) = strip_sign s;
          ws = takeWhile is_digit body
      in case dropWhile is_digit body of
           [] \<Rightarrow> (if ws = [] then None else Some (neg, ws, []))
         | c # fs \<Rightarrow>
             if c = 0x2E \<and> list_all is_digit fs \<and> ws @ fs \<noteq> [] then Some (neg, ws, fs) else None)"

definition parse_spec :: "nat \<Rightarrow> bool \<times> bytes \<times> bytes \<Rightarrow> ParseFixedError + fixed" where
  "parse_spec D parts =
     (case parts of (neg, ws, fs) \<Rightarrow>
        let v = dec_val (ws @ fs);
            value = (if neg then - v else v) * 10 ^ (D - length fs)
        in if v > 2 ^ 63 then Inl Overflow
           else if length fs > D then Inl ExcessPrecision
           else if in_i64 value then Inr (word_of_int value) else Inl Overflow)"

section \<open>Digits\<close>

lemma is_digit_uint: "is_digit b \<longleftrightarrow> 48 \<le> uint b \<and> uint b \<le> 57"
  by (simp add: is_digit_def word_le_def)

lemma dec_val_Nil [simp]: "dec_val [] = 0"
  by (simp add: dec_val_def)

lemma dec_val_snoc [simp]: "dec_val (ds @ [d]) = 10 * dec_val ds + (uint d - 48)"
  by (simp add: dec_val_def)

lemma dec_val_append: "dec_val (xs @ ys) = dec_val xs * 10 ^ length ys + dec_val ys"
  by (induction ys rule: rev_induct) (simp_all flip: append_assoc add: algebra_simps)

lemma dec_val_nonneg: "list_all is_digit ds \<Longrightarrow> 0 \<le> dec_val ds"
  by (induction ds rule: rev_induct) (auto simp: is_digit_uint)

lemma dec_val_mono:
  "list_all is_digit ds \<Longrightarrow> list_all is_digit es \<Longrightarrow> dec_val ds \<le> dec_val (ds @ es)"
proof (induction es rule: rev_induct)
  case (snoc e es)
  then have "0 \<le> dec_val (ds @ es)" "dec_val ds \<le> dec_val (ds @ es)" "is_digit e"
    using dec_val_nonneg [of "ds @ es"] by simp_all
  then show ?case by (simp add: is_digit_uint flip: append_assoc)
qed simp

text \<open>The number of digits without leading zeros, which \<open>total_digits\<close> counts.\<close>

definition sig_digits :: "bytes \<Rightarrow> nat" where
  "sig_digits ds = length (dropWhile (\<lambda>d. d = 0x30) ds)"

lemma sig_digits_snoc:
  "sig_digits (ds @ [d]) = (if d = 0x30 \<and> sig_digits ds = 0 then 0 else Suc (sig_digits ds))"
  by (simp add: sig_digits_def dropWhile_append)

lemma sig_digits_bounds:
  "list_all is_digit ds \<Longrightarrow> dec_val ds < 10 ^ sig_digits ds \<and>
     (sig_digits ds = 0 \<longleftrightarrow> dec_val ds = 0) \<and>
     (\<forall>k. sig_digits ds = Suc k \<longrightarrow> 10 ^ k \<le> dec_val ds)"
proof (induction ds rule: rev_induct)
  case (snoc d ds)
  have d: "48 \<le> uint d" "uint d \<le> 57" "d = 0x30 \<longleftrightarrow> uint d = 48"
    using snoc.prems by (auto simp: is_digit_uint word_uint_eq_iff)
  have IH: "dec_val ds < 10 ^ sig_digits ds" "sig_digits ds = 0 \<longleftrightarrow> dec_val ds = 0"
    "\<And>k. sig_digits ds = Suc k \<Longrightarrow> 10 ^ k \<le> dec_val ds" "0 \<le> dec_val ds"
    using snoc dec_val_nonneg [of ds] by auto
  show ?case
  proof (cases "sig_digits ds")
    case 0
    with IH d show ?thesis by (auto simp: sig_digits_snoc)
  next
    case (Suc k)
    with IH d show ?thesis by (auto simp: sig_digits_snoc)
  qed
qed (simp add: sig_digits_def)

section \<open>The accumulator follows the reference reading\<close>

definition acc_of :: "bytes \<Rightarrow> bool \<Rightarrow> nat \<Rightarrow> Accumulator" where
  "acc_of ds dot k =
     \<lparr> acc_mantissa = - word_of_int (dec_val ds), acc_total_digits = sig_digits ds,
       acc_frac_digits = min 255 k, acc_saw_dot = dot, acc_saw_any_digit = (ds \<noteq> []) \<rparr>"

lemma sint_digit:
  assumes "is_digit b"
  shows "sint (ucast (b - 0x30) :: i64) = uint b - 48"
proof -
  have "uint (b - 0x30) = uint b - 48"
    using assms by (simp add: is_digit_uint uint_sub_if')
  then have "uint (ucast (b - 0x30) :: i64) = uint b - 48"
    by (subst uint_up_ucast) (simp_all add: is_up)
  then have "(ucast (b - 0x30) :: i64) = word_of_int (uint b - 48)"
    by (metis word_of_int_uint)
  moreover have "in_i64 (uint b - 48)"
    using assms by (simp add: is_digit_uint in_i64_def)
  ultimately show ?thesis by (simp only: sint_of_int_i64)
qed

lemma sint_10_i64: "sint (10 :: i64) = 10"
  by simp

lemma acc_feed_digit_step:
  assumes ds: "list_all is_digit ds" and b: "is_digit b" and v: "dec_val ds \<le> 2 ^ 63"
  shows "acc_feed oc (acc_of ds dot k) b =
    Some (if dec_val (ds @ [b]) \<le> 2 ^ 63
          then Inr (acc_of (ds @ [b]) dot (if dot then Suc k else k)) else Inl Overflow)"
proof -
  let ?d = "uint b - 48"
  have d: "0 \<le> ?d" "?d \<le> 9" "b = 0x30 \<longleftrightarrow> ?d = 0"
    using b by (auto simp: is_digit_uint word_uint_eq_iff)
  have v0: "0 \<le> dec_val ds" using ds by (rule dec_val_nonneg)
  note sig = sig_digits_bounds [OF ds]
  have sd: "sint (ucast (b - 0x30) :: i64) = ?d" using b by (rule sint_digit)
  then have d0: "(ucast (b - 0x30) :: i64) = 0 \<longleftrightarrow> ?d = 0" by (metis sint_eq_0_iff)
  have sm: "sint (- word_of_int (dec_val ds) :: i64) = - dec_val ds"
    using v v0 sint_of_int_i64 [of "- dec_val ds"] by (simp add: in_i64_def)
  then have m0: "(word_of_int (dec_val ds) :: i64) = 0 \<longleftrightarrow> dec_val ds = 0"
    by (metis neg_equal_0_iff_equal sint_eq_0_iff)
  have frac: "u8_saturating_add (min 255 k) (Suc 0) = min 255 (Suc k)"
    by (simp add: u8_saturating_add_def)
  show ?thesis
  proof (cases "?d = 0 \<and> dec_val ds = 0")
    case True
    then show ?thesis
      using b d sig
      by (simp add: acc_feed_def acc_feed_digit_def acc_of_def d0 m0 sig_digits_snoc frac)
  next
    case False
    let ?n = "Suc (sig_digits ds)"
    have n: "sig_digits (ds @ [b]) = ?n"
      using False d(3) sig by (simp add: sig_digits_snoc)
    have pow: "(10 :: int) ^ sig_digits ds \<le> 10 * dec_val ds + ?d"
    proof (cases "sig_digits ds")
      case 0
      with False sig d show ?thesis by auto
    next
      case (Suc j)
      with sig d show ?thesis by auto
    qed
    have lt: "10 * dec_val ds + ?d < 10 ^ ?n"
      using sig d by auto
    consider "?n \<le> 18" | "?n = 19" | "19 < ?n" by linarith
    then show ?thesis
    proof cases
      case 1
      then have "(10 :: int) ^ ?n \<le> 10 ^ 18" by (intro power_increasing) simp_all
      with lt have "10 * dec_val ds + ?d < 10 ^ 18" by linarith
      then have fits: "in_i64 (- dec_val ds * 10)" "in_i64 (- dec_val ds * 10 - ?d)"
        using v0 d by (simp_all add: in_i64_def)
      then obtain p where "mul_i64 oc (- word_of_int (dec_val ds)) 10 = Some p" "sint p = - dec_val ds * 10"
        unfolding mul_i64_def sm by (metis sint_10_i64 i64_arith_fits sint_of_int_i64)
      moreover from this fits(2) have "sub_i64 oc p (ucast (b - 0x30)) = Some (- word_of_int (10 * dec_val ds + ?d))"
        unfolding sub_i64_def sd by (simp add: algebra_simps)
      ultimately show ?thesis
        using b n 1 False \<open>10 * dec_val ds + ?d < 10 ^ 18\<close>
        by (simp add: acc_feed_def acc_feed_digit_def acc_of_def d0 m0 frac u8_add_def Let_def)
    next
      case 2
      have "(case i64_checked (- dec_val ds * 10) of Some v \<Rightarrow> i64_checked (sint v - sint (ucast (b - 0x30) :: i64)) | None \<Rightarrow> None) =
          (if 10 * dec_val ds + ?d \<le> 2 ^ 63 then Some (- word_of_int (10 * dec_val ds + ?d)) else None)"
      proof (cases "in_i64 (- dec_val ds * 10)")
        case True
        have "in_i64 (- dec_val ds * 10 - ?d) \<longleftrightarrow> 10 * dec_val ds + ?d \<le> 2 ^ 63"
          using v0 d by (auto simp: in_i64_def)
        moreover have "- word_of_int (10 * dec_val ds + ?d) = (word_of_int (- dec_val ds * 10 - ?d) :: i64)"
          by (simp add: algebra_simps)
        ultimately show ?thesis
          using True by (simp only: i64_checked_def if_True option.case sint_of_int_i64 sd)
      next
        case out: False
        then have "\<not> 10 * dec_val ds + ?d \<le> 2 ^ 63"
          using v0 d by (auto simp: in_i64_def)
        with out show ?thesis by (simp add: i64_checked_def)
      qed
      then show ?thesis
        using b n 2 False
        by (auto simp: acc_feed_def acc_feed_digit_def acc_of_def d0 m0 sm frac u8_add_def Let_def)
    next
      case 3
      then have "(10 :: int) ^ 19 \<le> 10 ^ sig_digits ds" by (intro power_increasing) simp_all
      with pow have "10 * dec_val ds + ?d > 2 ^ 63" by simp
      moreover have "sig_digits ds \<le> 19"
      proof (rule ccontr)
        assume "\<not> sig_digits ds \<le> 19"
        then obtain j where j: "sig_digits ds = Suc j" "19 \<le> j" by (cases "sig_digits ds") auto
        then have "(10 :: int) ^ 19 \<le> 10 ^ j" by (intro power_increasing) simp_all
        also have "\<dots> \<le> dec_val ds" using sig j by blast
        finally show False using v by simp
      qed
      ultimately show ?thesis using 3 False b
        by (auto simp: acc_feed_def acc_feed_digit_def acc_of_def d0 m0 u8_add_def)
    qed
  qed
qed

lemma acc_feed_all_digits:
  assumes "list_all is_digit ds" and "list_all is_digit bs" and "dec_val ds \<le> 2 ^ 63"
  shows "acc_feed_all oc (acc_of ds dot k) (bs @ rest) =
    (if dec_val (ds @ bs) \<le> 2 ^ 63
     then acc_feed_all oc (acc_of (ds @ bs) dot (if dot then k + length bs else k)) rest
     else Some (Inl Overflow))"
  using assms
proof (induction bs arbitrary: ds k)
  case (Cons b bs)
  then have b: "is_digit b" and bs: "list_all is_digit bs" and ds: "list_all is_digit (ds @ [b])"
    by simp_all
  note step = acc_feed_digit_step [OF Cons.prems(1) b Cons.prems(3), of oc dot k]
  show ?case
  proof (cases "dec_val (ds @ [b]) \<le> 2 ^ 63")
    case True
    then show ?thesis
      using Cons.IH [OF ds bs True] step by (simp del: dec_val_snoc)
  next
    case False
    moreover have "dec_val (ds @ [b]) \<le> dec_val (ds @ b # bs)"
      using dec_val_mono [OF ds bs] by simp
    ultimately show ?thesis using step by simp
  qed
qed simp

lemma acc_feed_other:
  "\<not> is_digit c \<Longrightarrow> c \<noteq> 0x2E \<or> dot \<Longrightarrow> acc_feed oc (acc_of ds dot k) c = Some (Inl InvalidFormat)"
  by (auto simp: acc_feed_def acc_of_def)

lemma acc_feed_dot:
  "acc_feed oc (acc_of ds False k) 0x2E = Some (Inr (acc_of ds True k))"
  by (simp add: acc_feed_def acc_of_def is_digit_uint)

lemma acc_new_of: "acc_new = acc_of [] False 0"
  by (simp add: acc_new_def acc_of_def sig_digits_def)

text \<open>The loop over an unsigned numeral, and over anything that is not one.\<close>

lemma acc_feed_all_numeral:
  assumes "list_all is_digit ws"
  shows "acc_feed_all oc acc_new ws =
      Some (if dec_val ws \<le> 2 ^ 63 then Inr (acc_of ws False 0) else Inl Overflow)"
    and "list_all is_digit fs \<Longrightarrow> acc_feed_all oc acc_new (ws @ 0x2E # fs) =
      Some (if dec_val (ws @ fs) \<le> 2 ^ 63 then Inr (acc_of (ws @ fs) True (length fs)) else Inl Overflow)"
proof -
  have nil: "list_all is_digit []" "dec_val [] \<le> 2 ^ 63" by simp_all
  show "acc_feed_all oc acc_new ws =
      Some (if dec_val ws \<le> 2 ^ 63 then Inr (acc_of ws False 0) else Inl Overflow)"
    using acc_feed_all_digits [OF nil(1) assms nil(2), of oc False 0 "[]"] by (simp add: acc_new_of)
  assume fs: "list_all is_digit fs"
  have "dec_val ws \<le> dec_val (ws @ fs)" using assms fs by (rule dec_val_mono)
  then show "acc_feed_all oc acc_new (ws @ 0x2E # fs) =
      Some (if dec_val (ws @ fs) \<le> 2 ^ 63 then Inr (acc_of (ws @ fs) True (length fs)) else Inl Overflow)"
    using acc_feed_all_digits [OF nil(1) assms nil(2), of oc False 0 "0x2E # fs"]
      acc_feed_all_digits [OF assms fs, of oc True 0 "[]"]
    by (auto simp: acc_new_of acc_feed_dot)
qed

lemma acc_feed_all_garbage:
  assumes "list_all is_digit ws" and "\<not> is_digit c" and "c \<noteq> 0x2E"
  shows "acc_feed_all oc acc_new (ws @ c # rest) \<in> Some ` Inl ` {InvalidFormat, Overflow}"
  using acc_feed_all_digits [of "[]" ws oc False 0 "c # rest"] assms
  by (simp add: acc_new_of acc_feed_other)

lemma acc_feed_all_garbage_frac:
  assumes "list_all is_digit ws" and "list_all is_digit fs" and "\<not> is_digit c"
  shows "acc_feed_all oc acc_new (ws @ 0x2E # fs @ c # rest) \<in> Some ` Inl ` {InvalidFormat, Overflow}"
proof -
  have "dec_val ws \<le> dec_val (ws @ fs)" using assms(1,2) by (rule dec_val_mono)
  then show ?thesis
    using acc_feed_all_digits [of "[]" ws oc False 0 "0x2E # fs @ c # rest"]
      acc_feed_all_digits [OF assms(1,2), of oc True 0 "c # rest"] assms
    by (auto simp: acc_new_of acc_feed_dot acc_feed_other)
qed

section \<open>The parser computes the reference value\<close>

lemma parse_finish_spec:
  assumes "D \<le> 18" and "list_all is_digit (ws @ fs)" and "ws @ fs \<noteq> []" and "dec_val (ws @ fs) \<le> 2 ^ 63"
  shows "parse_finish D neg (acc_of (ws @ fs) dot (length fs)) = parse_spec D (neg, ws, fs)"
proof -
  let ?v = "dec_val (ws @ fs)" and ?s = "10 ^ (D - length fs) :: int"
  let ?m = "if neg then - ?v else ?v"
  have v0: "0 \<le> ?v" using assms(2) by (rule dec_val_nonneg)
  have sm: "sint (- word_of_int ?v :: i64) = - ?v"
    using assms(4) v0 sint_of_int_i64 [of "- ?v"] by (simp add: in_i64_def)
  have frac: "min 255 (length fs) > D \<longleftrightarrow> length fs > D" "length fs \<le> D \<Longrightarrow> min 255 (length fs) = length fs"
    using assms(1) by auto
  have s: "sint (POW10_I64 ! (D - length fs)) = ?s"
    using assms(1) sint_pow10 [of "D - length fs"] by (simp add: pow10_i64_def)
  have le: "?v \<le> ?v * ?s" using v0 mult_left_mono [of 1 ?s ?v] by simp
  then have big: "\<not> in_i64 (?m * ?s)" if "\<not> in_i64 ?m"
    using that assms(4) v0 by (auto simp: in_i64_def not_less split: if_splits)
  have m: "(if neg then Some (- word_of_int ?v) else i64_checked ?v) = i64_checked ?m"
    using assms(4) v0 by (simp add: i64_checked_def in_i64_def)
  show ?thesis
  proof (cases "in_i64 ?m")
    case True
    then have "sint (word_of_int ?m :: i64) = ?m" by (rule sint_of_int_i64)
    with True m show ?thesis
      using assms(1,3,4)
      by (auto simp: parse_finish_def parse_spec_def acc_of_def frac sm s Let_def i64_checked_def
          fixed_from_raw_def simp del: wi_homs)
  next
    case False
    then have "\<not> neg" "\<not> in_i64 ?v" "\<not> in_i64 (?v * ?s)"
      using big m by (auto simp: i64_checked_def split: if_splits)
    then show ?thesis
      using assms(1,3,4) by (auto simp: parse_finish_def parse_spec_def acc_of_def frac sm Let_def i64_checked_def)
  qed
qed

lemma parse_decimal_bytes_body:
  "parse_decimal_bytes oc D s =
     (case strip_sign s of (neg, body) \<Rightarrow>
        if body = [] then Some (Inl InvalidFormat)
        else do {
          r \<leftarrow> acc_feed_all oc acc_new body;
          Some (case r of Inl e \<Rightarrow> Inl e | Inr acc \<Rightarrow> parse_finish D neg acc)
        })"
  by (cases s) (auto simp: parse_decimal_bytes_def strip_sign_def)

lemma list_all_takeWhile: "list_all P (takeWhile P xs)"
  by (simp add: list_all_iff) (meson set_takeWhileD)

lemma decimal_parts_SomeD:
  assumes "decimal_parts s = Some (neg, ws, fs)"
  shows "fst (strip_sign s) = neg \<and> list_all is_digit ws \<and> list_all is_digit fs \<and> ws @ fs \<noteq> [] \<and>
     (snd (strip_sign s) = ws \<and> fs = [] \<or> snd (strip_sign s) = ws @ 0x2E # fs)"
proof -
  obtain n body where sb: "strip_sign s = (n, body)" by fastforce
  have "list_all is_digit (takeWhile is_digit body)" by (rule list_all_takeWhile)
  moreover have "body = takeWhile is_digit body @ dropWhile is_digit body" by simp
  ultimately show ?thesis
    using assms
    by (cases "dropWhile is_digit body") (auto simp: decimal_parts_def sb Let_def split: if_splits)
qed

lemma parse_decimal_bytes_numeral:
  assumes "D \<le> 18" and "decimal_parts s = Some parts"
  shows "parse_decimal_bytes oc D s = Some (parse_spec D parts)"
proof -
  obtain neg ws fs where parts: "parts = (neg, ws, fs)" by (cases parts)
  have facts: "fst (strip_sign s) = neg" "list_all is_digit (ws @ fs)" "ws @ fs \<noteq> []"
    and body: "snd (strip_sign s) = ws \<and> fs = [] \<or> snd (strip_sign s) = ws @ 0x2E # fs"
    using assms(2) decimal_parts_SomeD [of s neg ws fs] by (auto simp: parts)
  then have "\<exists>dot. acc_feed_all oc acc_new (snd (strip_sign s)) =
      Some (if dec_val (ws @ fs) \<le> 2 ^ 63 then Inr (acc_of (ws @ fs) dot (length fs)) else Inl Overflow)"
    using acc_feed_all_numeral [of ws] by (metis append_Nil2 list.size(3) list_all_append)
  then show ?thesis
    using body facts parse_finish_spec [OF assms(1) facts(2,3), of neg]
    by (cases "strip_sign s"; cases "dec_val (ws @ fs) \<le> 2 ^ 63")
      (auto simp: parts parse_decimal_bytes_body parse_spec_def)
qed

lemma parse_decimal_bytes_no_numeral:
  assumes "decimal_parts s = None"
  shows "parse_decimal_bytes oc D s \<in> Some ` Inl ` {InvalidFormat, Overflow}"
proof -
  obtain neg body where sb: "strip_sign s = (neg, body)" by fastforce
  let ?ws = "takeWhile is_digit body"
  note ws = list_all_takeWhile [of is_digit]
  have "acc_feed_all oc acc_new body \<in> Some ` Inl ` {InvalidFormat, Overflow} \<or>
      acc_feed_all oc acc_new body = Some (Inr (acc_of [] True 0)) \<or> body = []"
  proof (cases "dropWhile is_digit body")
    case Nil
    with assms show ?thesis
      by (auto simp: decimal_parts_def sb takeWhile_eq_Nil_iff split: if_splits)
  next
    case (Cons c rest)
    have split: "body = ?ws @ c # rest" using Cons by (metis takeWhile_dropWhile_id)
    have c: "\<not> is_digit c" using Cons by (metis hd_dropWhile list.sel(1) list.discI)
    show ?thesis
    proof (cases "c = 0x2E \<and> list_all is_digit rest")
      case True
      with assms Cons have "?ws @ rest = []" by (auto simp: decimal_parts_def sb Let_def split: if_splits)
      then show ?thesis
        using acc_feed_all_numeral(2) [of "[]" "[]" oc] split True by simp
    next
      case False
      show ?thesis
      proof (cases "c = 0x2E")
        case True
        with False have "dropWhile is_digit rest \<noteq> []" by (simp add: list_all_iff)
        then obtain e es where e: "dropWhile is_digit rest = e # es" by (cases "dropWhile is_digit rest") auto
        then have "rest = takeWhile is_digit rest @ e # es" "\<not> is_digit e"
          by (metis takeWhile_dropWhile_id, metis hd_dropWhile list.sel(1) list.discI)
        then show ?thesis
          using acc_feed_all_garbage_frac [OF ws ws, of e oc body rest es] split True by metis
      next
        case False
        then show ?thesis using acc_feed_all_garbage [OF ws c False, of oc body rest] split by metis
      qed
    qed
  qed
  then show ?thesis
    by (auto simp: parse_decimal_bytes_body sb parse_finish_def acc_of_def)
qed

section \<open>Display writes the reference numeral\<close>

lemma digit_byte: "n < 10 \<Longrightarrow> uint (0x30 + of_nat n :: u8) = 48 + int n"
  by (simp add: uint_word_ariths unsigned_of_nat take_bit_eq_mod)

lemma digits_of_facts:
  "list_all is_digit (digits_of n) \<and> dec_val (digits_of n) = int n \<and> digits_of n \<noteq> []"
proof (induction n rule: digits_of.induct)
  case (1 n)
  show ?case
  proof (cases "n < 10")
    case True
    then show ?thesis
      using dec_val_snoc [of "[]"] by (simp add: digits_of.simps [of n] is_digit_uint digit_byte)
  next
    case False
    then show ?thesis
      using 1 by (simp add: digits_of.simps [of n] is_digit_uint digit_byte zdiv_int zmod_int)
  qed
qed

lemma digits_of_length: "n < 10 ^ k \<Longrightarrow> 0 < k \<Longrightarrow> length (digits_of n) \<le> k"
proof (induction k arbitrary: n)
  case (Suc k)
  show ?case
  proof (cases "n < 10")
    case False
    with Suc.prems have "n div 10 < 10 ^ k" "0 < k"
      by (auto simp: less_mult_imp_div_less mult.commute intro: Suc_lessI gr0I)
    with Suc.IH False show ?thesis by (simp add: digits_of.simps [of n])
  qed (simp add: digits_of.simps [of n])
qed simp

lemma dec_val_zeros: "dec_val (replicate k 0x30 @ ds) = dec_val ds"
proof -
  have "dec_val (replicate k 0x30) = 0"
    by (induction k) (simp_all add: replicate_append_same [symmetric])
  then show ?thesis by (simp add: dec_val_append)
qed

lemma pad_zeros_facts:
  assumes "n < 10 ^ k" and "0 < k"
  shows "list_all is_digit (pad_zeros k (digits_of n)) \<and> length (pad_zeros k (digits_of n)) = k \<and>
    dec_val (pad_zeros k (digits_of n)) = int n"
  using digits_of_facts [of n] digits_of_length [OF assms]
  by (simp add: pad_zeros_def dec_val_zeros list_all_append) (simp add: list_all_iff is_digit_uint)

lemma strip_sign_digits:
  assumes "list_all is_digit ws" and "ws \<noteq> []"
  shows "strip_sign (ws @ rest) = (False, ws @ rest)"
  using assms by (cases ws) (auto simp: strip_sign_def is_digit_uint)

lemma strip_sign_signed:
  assumes "list_all is_digit ws" and "ws \<noteq> []"
  shows "strip_sign ((if neg then [0x2D] else []) @ ws @ rest) = (neg, ws @ rest)"
proof (cases neg)
  case True
  then show ?thesis by (simp add: strip_sign_def)
next
  case False
  then show ?thesis using strip_sign_digits [OF assms] by simp
qed

lemma decimal_parts_numeral:
  assumes "list_all is_digit ws" and "ws \<noteq> []"
  shows "decimal_parts ((if neg then [0x2D] else []) @ ws) = Some (neg, ws, [])"
    and "list_all is_digit fs \<Longrightarrow>
      decimal_parts ((if neg then [0x2D] else []) @ ws @ 0x2E # fs) = Some (neg, ws, fs)"
proof -
  have "\<forall>w \<in> set ws. is_digit w" "\<not> is_digit 0x2E"
    using assms(1) by (simp_all add: list_all_iff is_digit_uint)
  then have t: "takeWhile is_digit (ws @ 0x2E # fs) = ws" "dropWhile is_digit (ws @ 0x2E # fs) = 0x2E # fs"
      "takeWhile is_digit ws = ws" "dropWhile is_digit ws = []"
    by (simp_all add: takeWhile_eq_all_conv)
  show "decimal_parts ((if neg then [0x2D] else []) @ ws) = Some (neg, ws, [])"
    using strip_sign_signed [OF assms, of neg "[]"] assms(2)
    by (simp add: decimal_parts_def t(3,4) del: takeWhile_eq_all_conv)
  assume "list_all is_digit fs"
  then show "decimal_parts ((if neg then [0x2D] else []) @ ws @ 0x2E # fs) = Some (neg, ws, fs)"
    unfolding decimal_parts_def strip_sign_signed [OF assms, of neg "0x2E # fs"] Let_def prod.case t
    using assms(2) by simp
qed

lemma unat_SCALE: "D \<le> 18 \<Longrightarrow> unat (SCALE D) = 10 ^ D"
  using sint_SCALE [of D] uint_sint_i64 [of "SCALE D"] by (simp add: unat_eq_nat_uint nat_power_eq)

lemma fixed_display_parts:
  assumes "D \<le> 18"
  shows "\<exists>ws fs. decimal_parts (fixed_display D x) = Some (sint x < 0, ws, fs) \<and>
    length fs = D \<and> dec_val (ws @ fs) = \<bar>sint x\<bar>"
proof (cases "D = 0")
  case True
  then show ?thesis
    using digits_of_facts [of "nat \<bar>sint x\<bar>"]
      decimal_parts_numeral(1) [of "digits_of (nat \<bar>sint x\<bar>)" "sint x < 0"]
    by (auto simp: fixed_display_def display_int_def fixed_to_raw_def)
next
  case False
  define n where "n = nat \<bar>sint x\<bar>"
  let ?ws = "digits_of (n div 10 ^ D)" and ?fs = "pad_zeros D (digits_of (n mod 10 ^ D))"
  have fs: "list_all is_digit ?fs" "length ?fs = D" "dec_val ?fs = int (n mod 10 ^ D)"
    using pad_zeros_facts [of "n mod 10 ^ D" D] False by simp_all
  have "fixed_display D x = (if sint x < 0 then [0x2D] else []) @ ?ws @ 0x2E # ?fs"
    using False by (simp add: fixed_display_def fixed_to_raw_def Let_def unat_SCALE [OF assms] n_def)
  then have "decimal_parts (fixed_display D x) = Some (sint x < 0, ?ws, ?fs)"
    using decimal_parts_numeral(2) [OF _ _ fs(1), of ?ws "sint x < 0"] digits_of_facts by simp
  moreover have "dec_val (?ws @ ?fs) = int (n div 10 ^ D * 10 ^ D + n mod 10 ^ D)"
    using digits_of_facts [of "n div 10 ^ D"] fs by (simp add: dec_val_append)
  then have "dec_val (?ws @ ?fs) = \<bar>sint x\<bar>" unfolding div_mult_mod_eq by (simp add: n_def)
  ultimately show ?thesis using fs(2) by blast
qed

lemma display_parses:
  assumes "D \<le> 18"
  shows "parse_decimal_bytes oc D (fixed_display D x) = Some (Inr x)"
proof -
  obtain ws fs where parts: "decimal_parts (fixed_display D x) = Some (sint x < 0, ws, fs)"
    and len: "length fs = D" and v: "dec_val (ws @ fs) = \<bar>sint x\<bar>"
    using fixed_display_parts [OF assms] by blast
  have "\<bar>sint x\<bar> \<le> 2 ^ 63" using sint_i64_bounds [of x] by auto
  then have "parse_spec D (sint x < 0, ws, fs) = Inr x"
    using abs_of_neg [of "sint x"] abs_of_nonneg [of "sint x"]
    by (cases "sint x < 0") (simp_all add: parse_spec_def v len)
  then show ?thesis using parse_decimal_bytes_numeral [OF assms parts] by simp
qed

section \<open>Properties\<close>

text \<open>C8. The decimal parser is exact and total: it never panics, a numeral (optional sign,
  digits, optional dot and digits) gives its reference value scaled by \<open>10 ^ D\<close>, or
  \<open>ExcessPrecision\<close> when it has more than \<open>D\<close> fractional digits, or \<open>Overflow\<close> when the
  value is no \<open>i64\<close>; anything that is no numeral is refused, as \<open>InvalidFormat\<close>, or as
  \<open>Overflow\<close> when its digits already exceed the range before the first bad byte.\<close>

theorem parse_decimal_bytes_exact:
  assumes "D \<le> 18"
  shows "case decimal_parts s of
      Some parts \<Rightarrow> parse_decimal_bytes oc D s = Some (parse_spec D parts)
    | None \<Rightarrow> parse_decimal_bytes oc D s = Some (Inl InvalidFormat) \<or>
              parse_decimal_bytes oc D s = Some (Inl Overflow)"
  using parse_decimal_bytes_numeral [OF assms, of s] parse_decimal_bytes_no_numeral [of s oc D]
  by (auto split: option.split)

theorem parse_decimal_bytes_exact_witness:
  "(2 :: nat) \<le> 18 \<and>
   parse_decimal_bytes True 2 [0x2D, 0x31, 0x2E, 0x35] = Some (Inr (- 150)) \<and>
   parse_decimal_bytes True 2 [0x2E, 0x31, 0x32, 0x33] = Some (Inl ExcessPrecision)"
  using parse_decimal_bytes_exact [where s = "[0x2D, 0x31, 0x2E, 0x35]" and D = 2 and oc = True]
    parse_decimal_bytes_exact [where s = "[0x2E, 0x31, 0x32, 0x33]" and D = 2 and oc = True]
  by (simp add: decimal_parts_def strip_sign_def is_digit_uint parse_spec_def dec_val_def in_i64_def)

text \<open>C9. Printing and parsing are inverse: for every scale and every value, \<open>i64::MIN\<close> included,
  the parser reads the \<open>Display\<close> form back to the same value.\<close>

theorem display_parse_roundtrip:
  assumes "D \<le> 18"
  shows "parse_decimal_bytes oc D (fixed_display D x) = Some (Inr x)"
  using assms by (rule display_parses)

theorem display_parse_roundtrip_witness:
  "(6 :: nat) \<le> 18 \<and> parse_decimal_bytes True 6 (fixed_display 6 fixed_MIN) = Some (Inr fixed_MIN)"
  using display_parse_roundtrip [of 6 True fixed_MIN] by simp

end
