(* ===== verification/Fixed_Convert.thy ===== *)
theory Fixed_Convert
  imports Fixed_Mul_Div
begin

text \<open>
  Scale conversion of \<open>FixedI64\<close> (\<open>crates/fixed/src/convert.rs\<close>): widening multiplies by a
  power of ten, narrowing divides by one, with truncation, with rounding, or only when no digit
  is lost. The source scale \<open>D\<close> and the target scale \<open>D2\<close> are arguments.
\<close>

section \<open>Operations\<close>

definition rescale_trunc :: "bool \<Rightarrow> nat \<Rightarrow> nat \<Rightarrow> fixed \<Rightarrow> fixed option panics" where
  "rescale_trunc oc D D2 x =
     (if D2 = D then Some (Some (fixed_from_raw (fixed_to_raw x)))
      else
        let raw = (scast (fixed_to_raw x) :: i128) in
        if D2 > D then do {
          let factor = (scast (pow10_i64 (D2 - D)) :: i128);
          result \<leftarrow> i128_arith oc (sint raw * sint factor);
          Some (map_option fixed_from_raw (i128_to_i64_checked result))
        }
        else do {
          let factor = (scast (pow10_i64 (D - D2)) :: i128);
          result \<leftarrow> div_i128 raw factor;
          Some (map_option fixed_from_raw (i128_to_i64_checked result))
        })"

definition rescale_round :: "bool \<Rightarrow> nat \<Rightarrow> nat \<Rightarrow> fixed \<Rightarrow> fixed option panics" where
  "rescale_round oc D D2 x =
     (if D2 = D then Some (Some (fixed_from_raw (fixed_to_raw x)))
      else
        let raw = (scast (fixed_to_raw x) :: i128) in
        if D2 > D then do {
          let factor = (scast (pow10_i64 (D2 - D)) :: i128);
          result \<leftarrow> i128_arith oc (sint raw * sint factor);
          Some (map_option fixed_from_raw (i128_to_i64_checked result))
        }
        else do {
          let factor = (scast (pow10_i64 (D - D2)) :: i128);
          half \<leftarrow> div_i128 factor 2;
          biased \<leftarrow> (if sint raw \<ge> 0 then i128_arith oc (sint raw + sint half)
                      else i128_arith oc (sint raw - sint half));
          result \<leftarrow> div_i128 biased factor;
          Some (map_option fixed_from_raw (i128_to_i64_checked result))
        })"

definition checked_rescale_exact :: "bool \<Rightarrow> nat \<Rightarrow> nat \<Rightarrow> fixed \<Rightarrow> fixed option panics" where
  "checked_rescale_exact oc D D2 x =
     (if D2 = D then Some (Some (fixed_from_raw (fixed_to_raw x)))
      else
        let raw = (scast (fixed_to_raw x) :: i128) in
        if D2 > D then do {
          let factor = (scast (pow10_i64 (D2 - D)) :: i128);
          result \<leftarrow> i128_arith oc (sint raw * sint factor);
          Some (map_option fixed_from_raw (i128_to_i64_checked result))
        }
        else do {
          let factor = (scast (pow10_i64 (D - D2)) :: i128);
          rem \<leftarrow> rem_i128 raw factor;
          if rem \<noteq> 0 then Some None
          else do {
            result \<leftarrow> div_i128 raw factor;
            Some (map_option fixed_from_raw (i128_to_i64_checked result))
          }
        })"

section \<open>What the operations compute\<close>

lemma i64_small_i128: "\<bar>sint (x :: i64)\<bar> < 2 ^ 127"
  using sint_i64_bounds [of x] by auto

lemma pow10_nonzero_i128 [simp]: "k \<le> 18 \<Longrightarrow> (scast (pow10_i64 k) :: i128) \<noteq> 0"
  using sint_eq_0_iff [of "pow10_i64 k"] by simp

lemma div_i128_pow10_obtain:
  assumes "k \<le> 18" and "\<bar>sint a\<bar> < 2 ^ 127"
  obtains q where "div_i128 a (scast (pow10_i64 k)) = Some q" and "sint q = sint a sdiv 10 ^ k"
proof -
  have "(scast (pow10_i64 k) :: i128) \<noteq> 0" using assms(1) by (rule pow10_nonzero_i128)
  from div_i128_obtain [OF this assms(2)] show thesis
    using that assms(1) by (metis sint_scast_i128 sint_pow10)
qed

lemma widen_eq:
  assumes "k \<le> 18"
  shows "do { result \<leftarrow> i128_arith oc (sint (scast x :: i128) * sint (scast (pow10_i64 k) :: i128));
              Some (map_option fixed_from_raw (i128_to_i64_checked result)) }
         = Some (i64_checked (sint (x :: i64) * 10 ^ k))"
proof -
  obtain w where "i128_arith oc (sint x * 10 ^ k) = Some w" "sint w = sint x * 10 ^ k"
    using i128_arith_obtain [OF in_i128_mult [of x "pow10_i64 k"]] assms by auto
  then show ?thesis using assms by (simp add: i128_to_i64_checked_eq)
qed

lemma rescale_trunc_eq:
  assumes "D \<le> 18" and "D2 \<le> 18"
  shows "rescale_trunc oc D D2 x =
    Some (i64_checked (if D \<le> D2 then sint x * 10 ^ (D2 - D) else sint x sdiv 10 ^ (D - D2)))"
proof (cases "D2 < D")
  case True
  obtain q where "div_i128 (scast x) (scast (pow10_i64 (D - D2))) = Some q"
    "sint q = sint x sdiv 10 ^ (D - D2)"
    using div_i128_pow10_obtain [of "D - D2" "scast x"] assms i64_small_i128 [of x]
    by (metis diff_le_self le_trans sint_scast_i128)
  with True show ?thesis
    by (simp add: rescale_trunc_def fixed_to_raw_def Let_def i128_to_i64_checked_eq)
next
  case False
  then show ?thesis
    using assms widen_eq [of "D2 - D" oc x]
    by (auto simp: rescale_trunc_def fixed_conv_defs Let_def)
qed

lemma rescale_round_eq:
  assumes "D \<le> 18" and "D2 \<le> 18"
  shows "rescale_round oc D D2 x =
    Some (i64_checked (if D \<le> D2 then sint x * 10 ^ (D2 - D)
                       else round_half_away (sint x) (10 ^ (D - D2))))"
proof (cases "D2 < D")
  case True
  let ?s = "10 ^ (D - D2) :: int"
  have k: "D - D2 \<le> 18" using assms by simp
  have s: "0 < ?s" "?s \<le> 2 ^ 63" using pow10_bound [OF k] by simp_all
  obtain h where h: "div_i128 (scast (pow10_i64 (D - D2))) 2 = Some h" "sint h = ?s div 2"
    using div_i128_obtain [of 2 "scast (pow10_i64 (D - D2))"] k s by (auto simp: sdiv_nonneg)
  have "\<bar>sint (scast x :: i128)\<bar> \<le> 2 ^ 126"
    using sint_i64_bounds [of x] by auto
  from bias_obtain [OF this s h(2)] obtain b where b:
    "(if sint x \<ge> 0 then i128_arith oc (sint x + sint h) else i128_arith oc (sint x - sint h)) = Some b"
    "sint b = (if 0 \<le> sint x then sint x + ?s div 2 else sint x - ?s div 2)" "\<bar>sint b\<bar> < 2 ^ 127"
    unfolding sint_scast_i128 by metis
  obtain q where "div_i128 b (scast (pow10_i64 (D - D2))) = Some q" "sint q = sint b sdiv ?s"
    using div_i128_pow10_obtain [OF k b(3)] by metis
  moreover have "sint b sdiv ?s = round_half_away (sint x) ?s"
    by (simp add: round_half_away_def b(2))
  ultimately show ?thesis using True h(1) b(1)
    by (auto simp: rescale_round_def fixed_to_raw_def Let_def i128_to_i64_checked_eq split: if_splits)
next
  case False
  then show ?thesis
    using assms widen_eq [of "D2 - D" oc x]
    by (auto simp: rescale_round_def fixed_conv_defs Let_def)
qed

lemma rem_zero_dvd: "(a :: int) smod b = 0 \<longleftrightarrow> b dvd a"
  by (simp add: signed_modulo_int_def sgn_0_0 mod_eq_0_iff_dvd) (metis sgn_0_0 dvd_0_right)

lemma checked_rescale_exact_eq:
  assumes "D \<le> 18" and "D2 \<le> 18"
  shows "checked_rescale_exact oc D D2 x =
    Some (if D \<le> D2 then i64_checked (sint x * 10 ^ (D2 - D))
          else if 10 ^ (D - D2) dvd sint x then i64_checked (sint x sdiv 10 ^ (D - D2)) else None)"
proof (cases "D2 < D")
  case True
  let ?s = "10 ^ (D - D2) :: int"
  have k: "D - D2 \<le> 18" using assms by simp
  obtain q where q: "div_i128 (scast x) (scast (pow10_i64 (D - D2))) = Some q" "sint q = sint x sdiv ?s"
    using div_i128_pow10_obtain [OF k, of "scast x"] i64_small_i128 [of x]
    by (metis sint_scast_i128)
  have "\<bar>sint x smod ?s\<bar> \<le> \<bar>sint x\<bar>"
    using zmod_le_nonneg_dividend [of "\<bar>sint x\<bar>" ?s]
    by (auto simp: signed_modulo_int_def abs_mult sgn_if)
  then have "in_i128 (sint x smod ?s)"
    using i64_small_i128 [of x] by (intro in_i128_abs) linarith
  then have "(word_of_int (sint x smod ?s) :: i128) = 0 \<longleftrightarrow> ?s dvd sint x"
    by (metis rem_zero_dvd sint_of_int_i128 sint_eq_0_iff)
  moreover have "rem_i128 (scast x) (scast (pow10_i64 (D - D2))) = Some (word_of_int (sint x smod ?s))"
    using q(1) k by (auto simp: rem_i128_def div_i128_def split: if_splits)
  ultimately show ?thesis using True q
    by (simp add: checked_rescale_exact_def fixed_to_raw_def Let_def i128_to_i64_checked_eq)
next
  case False
  then show ?thesis
    using assms widen_eq [of "D2 - D" oc x]
    by (auto simp: checked_rescale_exact_def fixed_conv_defs Let_def)
qed

section \<open>Properties\<close>

lemma pow10_split: "a \<le> b \<Longrightarrow> (10 :: int) ^ b = 10 ^ (b - a) * 10 ^ a"
  by (simp flip: power_add)

lemma sdiv_dvd_iff:
  assumes "0 < (s :: int)"
  shows "s dvd a \<and> r = a sdiv s \<longleftrightarrow> r * s = a"
  using assms by (auto simp: sdiv_mult_cancel elim!: dvdE) (simp add: mult.commute sdiv_mult_cancel)

text \<open>\<open>checked_rescale_exact\<close> returns \<open>y\<close> exactly when \<open>y\<close> at the target scale is the
  same decimal number as \<open>x\<close> at the source scale: no digit is ever lost, and no
  representable result is ever refused.\<close>

theorem checked_rescale_exact_value:
  assumes "D \<le> 18" and "D2 \<le> 18"
  shows "checked_rescale_exact oc D D2 x = Some (Some y) \<longleftrightarrow> sint y * 10 ^ D = sint x * 10 ^ D2"
proof (cases "D \<le> D2")
  case True
  then show ?thesis
    using assms by (auto simp: checked_rescale_exact_eq i64_checked_eq_Some pow10_split [OF True]
      ) (metis in_i64_sint)
next
  case False
  then have le: "D2 \<le> D" by simp
  have "10 ^ (D - D2) dvd sint x \<and> sint y = sint x sdiv 10 ^ (D - D2)
      \<longleftrightarrow> sint y * 10 ^ (D - D2) = sint x"
    by (rule sdiv_dvd_iff) simp
  then show ?thesis
    using assms False
    by (auto simp: checked_rescale_exact_eq i64_checked_eq_Some pow10_split [OF le] in_i64_sdiv)
qed

theorem checked_rescale_exact_value_witness:
  "(2 :: nat) \<le> 18 \<and> (6 :: nat) \<le> 18 \<and> checked_rescale_exact True 2 6 150 = Some (Some 1500000)"
  using checked_rescale_exact_value [of 2 6 True 150 1500000] by (simp add: sint_numeral_i64)

text \<open>Widening and then narrowing is the identity: whenever the wider scale can hold the
  value, each of the three narrowing conversions gives the original back.\<close>

theorem rescale_widen_narrow:
  assumes "D \<le> D2" and "D2 \<le> 18" and "rescale_trunc oc D D2 x = Some (Some y)"
  shows "rescale_trunc oc D2 D y = Some (Some x) \<and>
    rescale_round oc D2 D y = Some (Some x) \<and>
    checked_rescale_exact oc D2 D y = Some (Some x)"
proof (intro conjI)
  let ?s = "10 ^ (D2 - D) :: int"
  have y: "sint y = sint x * ?s"
    using assms by (simp add: rescale_trunc_eq i64_checked_eq_Some)
  show "rescale_trunc oc D2 D y = Some (Some x)"
    using assms by (simp add: rescale_trunc_eq y sdiv_mult_cancel)
  have "\<bar>round_half_away (sint y) ?s * ?s - sint y\<bar> = \<bar>round_half_away (sint y) ?s - sint x\<bar> * ?s"
    by (simp add: y abs_mult flip: left_diff_distrib)
  then have "(2 * \<bar>round_half_away (sint y) ?s - sint x\<bar>) * ?s \<le> 1 * ?s"
    using round_half_away_nearest [of ?s "sint y"] by simp
  then have "2 * \<bar>round_half_away (sint y) ?s - sint x\<bar> \<le> 1"
    by (rule mult_right_le_imp_le) simp
  then have "round_half_away (sint y) ?s = sint x" by arith
  then show "rescale_round oc D2 D y = Some (Some x)"
    using assms by (cases "D = D2") (simp_all add: rescale_round_eq y)
  show "checked_rescale_exact oc D2 D y = Some (Some x)"
    using assms by (simp add: checked_rescale_exact_eq y sdiv_mult_cancel)
qed

theorem rescale_widen_narrow_witness:
  "rescale_trunc True 2 6 150 = Some (Some 1500000) \<and>
   rescale_round True 6 2 1500000 = Some (Some 150)"
proof -
  have "rescale_trunc True 2 6 150 = Some (Some 1500000)"
    by (simp add: rescale_trunc_eq sint_numeral_i64 i64_checked_def in_i64_def)
  with rescale_widen_narrow [of 2 6 True 150 1500000] show ?thesis by simp
qed

end
