(* ===== verification/Events.thy ===== *)
theory Events
  imports Domain_Types
begin

text \<open>
  The event type the components exchange (\<open>crates/events/src\<close>): the header with its flags, the
  payloads, the tagged body, and the constructors of \<open>HotEvent\<close>. The explicit padding bytes of
  the \<open>repr(C)\<close> payloads carry no data and are left out of the records.
\<close>

section \<open>Flags\<close>

type_synonym EventFlags = u16

definition flags_EMPTY :: EventFlags where
  "flags_EMPTY = 0"

definition IS_SNAPSHOT :: EventFlags where
  "IS_SNAPSHOT = push_bit 0 1"

definition LAST_IN_BATCH :: EventFlags where
  "LAST_IN_BATCH = push_bit 1 1"

definition flags_contains :: "EventFlags \<Rightarrow> EventFlags \<Rightarrow> bool" where
  "flags_contains self other \<longleftrightarrow> self AND other = other"

definition flags_with :: "EventFlags \<Rightarrow> EventFlags \<Rightarrow> EventFlags" where
  "flags_with self other = self OR other"

definition flags_is_empty :: "EventFlags \<Rightarrow> bool" where
  "flags_is_empty self \<longleftrightarrow> self = 0"

definition flags_bitor :: "EventFlags \<Rightarrow> EventFlags \<Rightarrow> EventFlags" where
  "flags_bitor self rhs = self OR rhs"

section \<open>Header\<close>

record EventHeader =
  hdr_recv_ts :: Timestamp
  hdr_seq :: SeqNum
  hdr_instrument_id :: InstrumentId
  hdr_source_id :: SourceId
  hdr_flags :: EventFlags

section \<open>Payloads\<close>

datatype UpdateAction = New | Change | Delete

record BookDeltaPayload =
  bd_price :: Ticks
  bd_qty :: Lots
  bd_side :: Side
  bd_action :: UpdateAction
  bd_depth :: u8

record TradePayload =
  tr_price :: Ticks
  tr_qty :: Lots
  tr_aggressor :: Side

record TopOfBookPayload =
  tob_bid_price :: Ticks
  tob_bid_qty :: Lots
  tob_ask_price :: Ticks
  tob_ask_qty :: Lots

datatype OrderStatus = Accepted | Cancelled | Expired

datatype RejectReason = InsufficientFunds | InvalidPrice | InvalidQty | DuplicateOrderId
  | RiskLimitBreached | VenueError | UnknownReason

record OrderAckPayload =
  ack_order_id :: OrderId
  ack_client_order_id :: u64
  ack_status :: OrderStatus

record FillPayload =
  fill_order_id :: OrderId
  fill_price :: Ticks
  fill_qty :: Lots
  fill_side :: Side
  fill_is_maker :: u8

record OrderRejectPayload =
  rej_order_id :: OrderId
  rej_client_order_id :: u64
  rej_reason :: RejectReason

datatype TimerKind = StaleFeed | Periodic | Deadline

record TimerPayload =
  tm_timer_id :: u32
  tm_kind :: TimerKind

record HeartbeatPayload =
  hb_counter :: u32

section \<open>Body and event\<close>

datatype EventBody =
    BookDelta BookDeltaPayload
  | Trade TradePayload
  | TopOfBook TopOfBookPayload
  | OrderAck OrderAckPayload
  | Fill FillPayload
  | OrderReject OrderRejectPayload
  | Timer TimerPayload
  | Heartbeat HeartbeatPayload

datatype EventKind = KBookDelta | KTrade | KTopOfBook | KOrderAck | KFill | KOrderReject
  | KTimer | KHeartbeat

definition body_kind :: "EventBody \<Rightarrow> EventKind" where
  "body_kind b = (case b of
      BookDelta _ \<Rightarrow> KBookDelta
    | Trade _ \<Rightarrow> KTrade
    | TopOfBook _ \<Rightarrow> KTopOfBook
    | OrderAck _ \<Rightarrow> KOrderAck
    | Fill _ \<Rightarrow> KFill
    | OrderReject _ \<Rightarrow> KOrderReject
    | Timer _ \<Rightarrow> KTimer
    | Heartbeat _ \<Rightarrow> KHeartbeat)"

record HotEvent =
  ev_header :: EventHeader
  ev_body :: EventBody

definition event_kind :: "HotEvent \<Rightarrow> EventKind" where
  "event_kind e = body_kind (ev_body e)"

definition event_header :: "Timestamp \<Rightarrow> SeqNum \<Rightarrow> InstrumentId \<Rightarrow> SourceId \<Rightarrow> EventFlags \<Rightarrow> EventHeader" where
  "event_header recv_ts seq instrument_id source_id flags =
     \<lparr> hdr_recv_ts = recv_ts, hdr_seq = seq, hdr_instrument_id = instrument_id,
       hdr_source_id = source_id, hdr_flags = flags \<rparr>"

definition event_book_delta :: "Timestamp \<Rightarrow> SeqNum \<Rightarrow> InstrumentId \<Rightarrow> SourceId \<Rightarrow> EventFlags \<Rightarrow>
    BookDeltaPayload \<Rightarrow> HotEvent" where
  "event_book_delta recv_ts seq instrument_id source_id flags payload =
     \<lparr> ev_header = event_header recv_ts seq instrument_id source_id flags, ev_body = BookDelta payload \<rparr>"

definition event_trade :: "Timestamp \<Rightarrow> SeqNum \<Rightarrow> InstrumentId \<Rightarrow> SourceId \<Rightarrow> EventFlags \<Rightarrow>
    TradePayload \<Rightarrow> HotEvent" where
  "event_trade recv_ts seq instrument_id source_id flags payload =
     \<lparr> ev_header = event_header recv_ts seq instrument_id source_id flags, ev_body = Trade payload \<rparr>"

definition event_top_of_book :: "Timestamp \<Rightarrow> SeqNum \<Rightarrow> InstrumentId \<Rightarrow> SourceId \<Rightarrow> EventFlags \<Rightarrow>
    TopOfBookPayload \<Rightarrow> HotEvent" where
  "event_top_of_book recv_ts seq instrument_id source_id flags payload =
     \<lparr> ev_header = event_header recv_ts seq instrument_id source_id flags, ev_body = TopOfBook payload \<rparr>"

definition event_order_ack :: "Timestamp \<Rightarrow> SeqNum \<Rightarrow> InstrumentId \<Rightarrow> SourceId \<Rightarrow> EventFlags \<Rightarrow>
    OrderAckPayload \<Rightarrow> HotEvent" where
  "event_order_ack recv_ts seq instrument_id source_id flags payload =
     \<lparr> ev_header = event_header recv_ts seq instrument_id source_id flags, ev_body = OrderAck payload \<rparr>"

definition event_fill :: "Timestamp \<Rightarrow> SeqNum \<Rightarrow> InstrumentId \<Rightarrow> SourceId \<Rightarrow> EventFlags \<Rightarrow>
    FillPayload \<Rightarrow> HotEvent" where
  "event_fill recv_ts seq instrument_id source_id flags payload =
     \<lparr> ev_header = event_header recv_ts seq instrument_id source_id flags, ev_body = Fill payload \<rparr>"

definition event_order_reject :: "Timestamp \<Rightarrow> SeqNum \<Rightarrow> InstrumentId \<Rightarrow> SourceId \<Rightarrow> EventFlags \<Rightarrow>
    OrderRejectPayload \<Rightarrow> HotEvent" where
  "event_order_reject recv_ts seq instrument_id source_id flags payload =
     \<lparr> ev_header = event_header recv_ts seq instrument_id source_id flags, ev_body = OrderReject payload \<rparr>"

definition event_timer :: "Timestamp \<Rightarrow> SeqNum \<Rightarrow> InstrumentId \<Rightarrow> SourceId \<Rightarrow> EventFlags \<Rightarrow>
    TimerPayload \<Rightarrow> HotEvent" where
  "event_timer recv_ts seq instrument_id source_id flags payload =
     \<lparr> ev_header = event_header recv_ts seq instrument_id source_id flags, ev_body = Timer payload \<rparr>"

definition event_heartbeat :: "Timestamp \<Rightarrow> SeqNum \<Rightarrow> SourceId \<Rightarrow> EventFlags \<Rightarrow> HeartbeatPayload \<Rightarrow> HotEvent" where
  "event_heartbeat recv_ts seq source_id flags payload =
     \<lparr> ev_header = event_header recv_ts seq InstrumentId_NONE source_id flags, ev_body = Heartbeat payload \<rparr>"

section \<open>Facts about flags\<close>

text \<open>The flag set operations are set inclusion and union of bits.\<close>

lemma flags_contains_iff_bits: "flags_contains f g \<longleftrightarrow> (\<forall>n. bit g n \<longrightarrow> bit f n)"
proof -
  have "flags_contains f g \<longleftrightarrow> (\<forall>n. bit (f AND g) n = bit g n)"
    unfolding flags_contains_def by (metis bit_eqI)
  then show ?thesis by (auto simp: bit_and_iff)
qed

lemma flags_contains_with: "flags_contains (flags_with f g) g" "flags_contains (flags_with f g) f"
  by (simp_all add: flags_contains_iff_bits flags_with_def bit_or_iff)

lemma flags_with_least:
  "flags_contains h f \<Longrightarrow> flags_contains h g \<Longrightarrow> flags_contains h (flags_with f g)"
  by (auto simp: flags_contains_iff_bits flags_with_def bit_or_iff)

lemma snapshot_bit: "flags_contains f IS_SNAPSHOT \<longleftrightarrow> bit f 0"
  by (auto simp: flags_contains_iff_bits IS_SNAPSHOT_def bit_1_iff)

lemma last_in_batch_bit: "flags_contains f LAST_IN_BATCH \<longleftrightarrow> bit f 1"
  by (auto simp: flags_contains_iff_bits LAST_IN_BATCH_def bit_simps)

lemma snapshot_not_last: "\<not> flags_contains IS_SNAPSHOT LAST_IN_BATCH" "\<not> flags_contains LAST_IN_BATCH IS_SNAPSHOT"
  unfolding snapshot_bit last_in_batch_bit
  by (simp_all add: IS_SNAPSHOT_def LAST_IN_BATCH_def bit_1_iff)

end
