(* ===== verification/Order_Book.thy ===== *)
theory Order_Book
  imports Events
begin

text \<open>
  The \<open>OrderBook\<close> trait (\<open>crates/market-state/src/book/mod.rs\<close>): the record of operations a book
  type provides, and the contract the market-state engine relies on, as the locale
  \<open>order_book\<close>. The contract speaks of a ledger \<open>qty\<close>, the quantity at each side and price
  of the grid; the best bid and best ask are the extreme prices with a positive quantity.
  The client lemma of the locale follows the ledger through any sequence of operations.
\<close>

section \<open>The trait\<close>

record 'b OrderBook =
  ob_default :: 'b
  ob_apply_delta :: "Ticks \<Rightarrow> Lots \<Rightarrow> Side \<Rightarrow> UpdateAction \<Rightarrow> 'b \<Rightarrow> 'b"
  ob_clear_side :: "Side \<Rightarrow> 'b \<Rightarrow> 'b"
  ob_clear :: "'b \<Rightarrow> 'b"
  ob_best_bid :: "'b \<Rightarrow> ((Ticks \<times> Lots) option \<times> 'b) panics"
  ob_best_ask :: "'b \<Rightarrow> ((Ticks \<times> Lots) option \<times> 'b) panics"
  ob_depth :: "Side \<Rightarrow> (Ticks \<times> Lots) list \<Rightarrow> 'b \<Rightarrow> usize \<times> (Ticks \<times> Lots) list"
  ob_level_count :: "Side \<Rightarrow> 'b \<Rightarrow> usize"
  ob_total_depth :: "bool \<Rightarrow> Side \<Rightarrow> usize \<Rightarrow> 'b \<Rightarrow> Lots panics"

section \<open>The ledger\<close>

type_synonym ledger = "Side \<Rightarrow> Ticks \<Rightarrow> Lots"

definition ledger_set :: "ledger \<Rightarrow> Side \<Rightarrow> Ticks \<Rightarrow> Lots \<Rightarrow> ledger" where
  "ledger_set L s p q = L(s := (L s)(p := q))"

definition is_best_bid :: "(Ticks \<Rightarrow> Lots) \<Rightarrow> (Ticks \<times> Lots) option \<Rightarrow> bool" where
  "is_best_bid lv best = (case best of
      None \<Rightarrow> \<forall>p. sint (lv p) \<le> 0
    | Some (p, q) \<Rightarrow> q = lv p \<and> 0 < sint q \<and> (\<forall>p'. 0 < sint (lv p') \<longrightarrow> sint p' \<le> sint p))"

definition is_best_ask :: "(Ticks \<Rightarrow> Lots) \<Rightarrow> (Ticks \<times> Lots) option \<Rightarrow> bool" where
  "is_best_ask lv best = (case best of
      None \<Rightarrow> \<forall>p. sint (lv p) \<le> 0
    | Some (p, q) \<Rightarrow> q = lv p \<and> 0 < sint q \<and> (\<forall>p'. 0 < sint (lv p') \<longrightarrow> sint p \<le> sint p'))"

lemma is_best_bid_unique:
  assumes "is_best_bid lv a" and "is_best_bid lv b"
  shows "a = b"
proof (cases a)
  case None
  with assms show ?thesis
    by (cases b) (force simp: is_best_bid_def not_less [symmetric])+
next
  case (Some pq)
  obtain p q where a: "a = Some (p, q)" using Some by (cases pq) simp
  with assms obtain p' q' where b: "b = Some (p', q')"
    by (cases b) (auto simp: is_best_bid_def not_less [symmetric])
  have "sint p = sint p'"
    using assms unfolding a b is_best_bid_def by (intro antisym) auto
  then have "p = p'" by (simp add: i64_eq_iff)
  with assms show ?thesis unfolding a b is_best_bid_def by simp
qed

lemma is_best_ask_unique:
  assumes "is_best_ask lv a" and "is_best_ask lv b"
  shows "a = b"
proof (cases a)
  case None
  with assms show ?thesis
    by (cases b) (force simp: is_best_ask_def not_less [symmetric])+
next
  case (Some pq)
  obtain p q where a: "a = Some (p, q)" using Some by (cases pq) simp
  with assms obtain p' q' where b: "b = Some (p', q')"
    by (cases b) (auto simp: is_best_ask_def not_less [symmetric])
  have "sint p = sint p'"
    using assms unfolding a b is_best_ask_def by (intro antisym) auto
  then have "p = p'" by (simp add: i64_eq_iff)
  with assms show ?thesis unfolding a b is_best_ask_def by simp
qed

section \<open>Sequences of operations\<close>

text \<open>The operations that may change a book, the queries that fill its caches included.\<close>

datatype book_cmd =
    ApplyDelta Ticks Lots Side UpdateAction
  | ClearSide Side
  | ClearBook
  | QueryBid
  | QueryAsk

fun book_step :: "'b OrderBook \<Rightarrow> book_cmd \<Rightarrow> 'b \<Rightarrow> 'b panics" where
  "book_step ops (ApplyDelta p q s a) b = Some (ob_apply_delta ops p q s a b)"
| "book_step ops (ClearSide s) b = Some (ob_clear_side ops s b)"
| "book_step ops ClearBook b = Some (ob_clear ops b)"
| "book_step ops QueryBid b = do { (_, b') \<leftarrow> ob_best_bid ops b; Some b' }"
| "book_step ops QueryAsk b = do { (_, b') \<leftarrow> ob_best_ask ops b; Some b' }"

fun book_run :: "'b OrderBook \<Rightarrow> book_cmd list \<Rightarrow> 'b \<Rightarrow> 'b panics" where
  "book_run ops [] b = Some b"
| "book_run ops (c # cs) b = do { b' \<leftarrow> book_step ops c b; book_run ops cs b' }"

text \<open>What the same sequence writes into a ledger: the last write of each level wins, prices
  off the grid are ignored, queries write nothing.\<close>

fun ledger_step :: "(Ticks \<Rightarrow> bool) \<Rightarrow> book_cmd \<Rightarrow> ledger \<Rightarrow> ledger" where
  "ledger_step grid (ApplyDelta p q s a) L = (if grid p then ledger_set L s p q else L)"
| "ledger_step grid (ClearSide s) L = L(s := (\<lambda>_. 0))"
| "ledger_step grid ClearBook L = (\<lambda>_ _. 0)"
| "ledger_step grid QueryBid L = L"
| "ledger_step grid QueryAsk L = L"

definition ledger_run :: "(Ticks \<Rightarrow> bool) \<Rightarrow> book_cmd list \<Rightarrow> ledger \<Rightarrow> ledger" where
  "ledger_run grid cs L = fold (ledger_step grid) cs L"

section \<open>The contract\<close>

locale order_book =
  fixes ops :: "'b OrderBook"
    and inv :: "'b \<Rightarrow> bool"
    and qty :: "'b \<Rightarrow> ledger"
    and grid :: "Ticks \<Rightarrow> bool"
  assumes default_inv: "inv (ob_default ops)"
    and default_qty: "qty (ob_default ops) = (\<lambda>_ _. 0)"
    and apply_inv: "inv b \<Longrightarrow> inv (ob_apply_delta ops p q s a b)"
    and apply_qty: "inv b \<Longrightarrow> qty (ob_apply_delta ops p q s a b) =
          (if grid p then ledger_set (qty b) s p q else qty b)"
    and clear_side_inv: "inv b \<Longrightarrow> inv (ob_clear_side ops s b)"
    and clear_side_qty: "inv b \<Longrightarrow> qty (ob_clear_side ops s b) = (qty b)(s := (\<lambda>_. 0))"
    and clear_inv: "inv b \<Longrightarrow> inv (ob_clear ops b)"
    and clear_qty: "inv b \<Longrightarrow> qty (ob_clear ops b) = (\<lambda>_ _. 0)"
    and best_bid_ok: "inv b \<Longrightarrow> \<exists>best b'. ob_best_bid ops b = Some (best, b') \<and> inv b' \<and>
          qty b' = qty b \<and> is_best_bid (qty b Bid) best"
    and best_ask_ok: "inv b \<Longrightarrow> \<exists>best b'. ob_best_ask ops b = Some (best, b') \<and> inv b' \<and>
          qty b' = qty b \<and> is_best_ask (qty b Ask) best"
    and off_grid: "inv b \<Longrightarrow> \<not> grid p \<Longrightarrow> qty b s p = 0"
begin

lemma step_simulates:
  assumes "inv b"
  shows "\<exists>b'. book_step ops c b = Some b' \<and> inv b' \<and> qty b' = ledger_step grid c (qty b)"
  using assms best_bid_ok [OF assms] best_ask_ok [OF assms]
  by (cases c) (auto simp: apply_inv apply_qty clear_side_inv clear_side_qty clear_inv clear_qty)

lemma run_simulates:
  assumes "inv b"
  shows "\<exists>b'. book_run ops cs b = Some b' \<and> inv b' \<and> qty b' = ledger_run grid cs (qty b)"
  using assms
proof (induction cs arbitrary: b)
  case (Cons c cs)
  then show ?case
    using step_simulates [OF Cons.prems, of c] by (fastforce simp: ledger_run_def)
qed (simp add: ledger_run_def)

lemma run_best_bid:
  "\<exists>b best b'. book_run ops cs (ob_default ops) = Some b \<and> ob_best_bid ops b = Some (best, b') \<and>
     is_best_bid (ledger_run grid cs (\<lambda>_ _. 0) Bid) best"
proof -
  obtain b where b: "book_run ops cs (ob_default ops) = Some b" "inv b"
    "qty b = ledger_run grid cs (\<lambda>_ _. 0)"
    using run_simulates [OF default_inv, of cs] by (auto simp: default_qty)
  with best_bid_ok [OF b(2)] show ?thesis by auto
qed

lemma run_best_ask:
  "\<exists>b best b'. book_run ops cs (ob_default ops) = Some b \<and> ob_best_ask ops b = Some (best, b') \<and>
     is_best_ask (ledger_run grid cs (\<lambda>_ _. 0) Ask) best"
proof -
  obtain b where b: "book_run ops cs (ob_default ops) = Some b" "inv b"
    "qty b = ledger_run grid cs (\<lambda>_ _. 0)"
    using run_simulates [OF default_inv, of cs] by (auto simp: default_qty)
  with best_ask_ok [OF b(2)] show ?thesis by auto
qed

end

text \<open>A book whose prices are small non-negative tick counts. The engine's price arithmetic
  relies on it.\<close>

locale small_tick_book = order_book +
  assumes small_grid: "grid p \<Longrightarrow> 0 \<le> sint p \<and> sint p < 2 ^ 16"
begin

lemma priced_levels_small:
  "inv b \<Longrightarrow> 0 < sint (qty b s p) \<Longrightarrow> 0 \<le> sint p \<and> sint p < 2 ^ 16"
  using off_grid small_grid by fastforce

end

end
