(* ===== verification/Array_Book.thy ===== *)
theory Array_Book
  imports Order_Book
begin

text \<open>
  \<open>ArrayBook<N>\<close> (\<open>crates/market-state/src/book/array_book.rs\<close>): quantities in two arrays
  indexed by tick, with a cached best index per side that a dirty flag invalidates. The cached
  indices are \<open>u16\<close>, as in the source, so a book with more than 65536 levels would truncate
  them; the locale \<open>array_sized\<close> states the bound under which the type satisfies the contract.
\<close>

section \<open>State\<close>

record ArrayBook =
  bids :: "Lots list"
  asks :: "Lots list"
  best_bid_idx :: "u16 option"
  best_ask_idx :: "u16 option"
  bid_dirty :: bool
  ask_dirty :: bool

definition array_default :: "nat \<Rightarrow> ArrayBook" where
  "array_default N = \<lparr> bids = replicate N lots_ZERO, asks = replicate N lots_ZERO,
     best_bid_idx = None, best_ask_idx = None, bid_dirty = True, ask_dirty = True \<rparr>"

definition idx_to_ticks :: "usize \<Rightarrow> Ticks option" where
  "idx_to_ticks idx = (if idx < 2 ^ 63 then Some (of_nat idx) else None)"

section \<open>Updates\<close>

definition array_apply_delta :: "Ticks \<Rightarrow> Lots \<Rightarrow> Side \<Rightarrow> UpdateAction \<Rightarrow> ArrayBook \<Rightarrow> ArrayBook" where
  "array_apply_delta price qty side action self =
     (if sint price < 0 then self
      else
        let idx = nat (sint price) in
        if idx \<ge> length (bids self) then self
        else case side of
            Bid \<Rightarrow> self\<lparr> bids := (bids self)[idx := qty], bid_dirty := True \<rparr>
          | Ask \<Rightarrow> self\<lparr> asks := (asks self)[idx := qty], ask_dirty := True \<rparr>)"

definition array_clear_side :: "Side \<Rightarrow> ArrayBook \<Rightarrow> ArrayBook" where
  "array_clear_side side self = (case side of
      Bid \<Rightarrow> self\<lparr> bids := replicate (length (bids self)) lots_ZERO, best_bid_idx := None,
                  bid_dirty := True \<rparr>
    | Ask \<Rightarrow> self\<lparr> asks := replicate (length (asks self)) lots_ZERO, best_ask_idx := None,
                  ask_dirty := True \<rparr>)"

definition array_clear :: "ArrayBook \<Rightarrow> ArrayBook" where
  "array_clear self = self\<lparr> bids := replicate (length (bids self)) lots_ZERO,
     asks := replicate (length (asks self)) lots_ZERO, best_bid_idx := None, best_ask_idx := None,
     bid_dirty := True, ask_dirty := True \<rparr>"

section \<open>Queries\<close>

text \<open>The closure both branches map over the cached index; indexing past the end panics.\<close>

definition read_level :: "Lots list \<Rightarrow> u16 option \<Rightarrow> (Ticks \<times> Lots) option panics" where
  "read_level levels idx = (case idx of
      None \<Rightarrow> Some None
    | Some i \<Rightarrow>
        let slot = unat i
        in if slot < length levels then Some (Some (of_nat (unat i), levels ! slot)) else None)"

text \<open>The scan loop: the first index, in the given order, with a positive quantity, cast to
  \<open>u16\<close>.\<close>

fun scan_levels :: "Lots list \<Rightarrow> nat list \<Rightarrow> u16 option" where
  "scan_levels levels [] = None"
| "scan_levels levels (i # is) = (if sint (levels ! i) > 0 then Some (of_nat i) else scan_levels levels is)"

definition array_best_bid :: "ArrayBook \<Rightarrow> ((Ticks \<times> Lots) option \<times> ArrayBook) panics" where
  "array_best_bid self =
     (if \<not> bid_dirty self then do { r \<leftarrow> read_level (bids self) (best_bid_idx self); Some (r, self) }
      else do {
        let self = self\<lparr> best_bid_idx := scan_levels (bids self) (rev [0..<length (bids self)]) \<rparr>;
        let self = self\<lparr> bid_dirty := False \<rparr>;
        r \<leftarrow> read_level (bids self) (best_bid_idx self);
        Some (r, self)
      })"

definition array_best_ask :: "ArrayBook \<Rightarrow> ((Ticks \<times> Lots) option \<times> ArrayBook) panics" where
  "array_best_ask self =
     (if \<not> ask_dirty self then do { r \<leftarrow> read_level (asks self) (best_ask_idx self); Some (r, self) }
      else do {
        let self = self\<lparr> best_ask_idx := scan_levels (asks self) [0..<length (asks self)] \<rparr>;
        let self = self\<lparr> ask_dirty := False \<rparr>;
        r \<leftarrow> read_level (asks self) (best_ask_idx self);
        Some (r, self)
      })"

definition side_levels :: "Side \<Rightarrow> ArrayBook \<Rightarrow> Lots list" where
  "side_levels side self = (case side of Bid \<Rightarrow> bids self | Ask \<Rightarrow> asks self)"

definition side_order :: "Side \<Rightarrow> nat \<Rightarrow> nat list" where
  "side_order side n = (case side of Bid \<Rightarrow> rev [0..<n] | Ask \<Rightarrow> [0..<n])"

fun depth_loop :: "Lots list \<Rightarrow> nat list \<Rightarrow> (Ticks \<times> Lots) list \<Rightarrow> usize \<Rightarrow> usize \<times> (Ticks \<times> Lots) list" where
  "depth_loop levels [] buf count = (count, buf)"
| "depth_loop levels (i # is) buf count =
     (if count \<ge> length buf then (count, buf)
      else if sint (levels ! i) > 0 then
        (case idx_to_ticks i of
           None \<Rightarrow> depth_loop levels is buf count
         | Some price \<Rightarrow> depth_loop levels is (buf[count := (price, levels ! i)]) (count + 1))
      else depth_loop levels is buf count)"

definition array_depth :: "Side \<Rightarrow> (Ticks \<times> Lots) list \<Rightarrow> ArrayBook \<Rightarrow> usize \<times> (Ticks \<times> Lots) list" where
  "array_depth side buf self =
     depth_loop (side_levels side self) (side_order side (length (side_levels side self))) buf 0"

definition array_level_count :: "Side \<Rightarrow> ArrayBook \<Rightarrow> usize" where
  "array_level_count side self = length (filter (\<lambda>q. sint q > 0) (side_levels side self))"

fun total_loop :: "bool \<Rightarrow> Lots list \<Rightarrow> nat list \<Rightarrow> usize \<Rightarrow> Lots \<Rightarrow> usize \<Rightarrow> Lots panics" where
  "total_loop oc levels [] n tot count = Some tot"
| "total_loop oc levels (i # is) n tot count =
     (if count \<ge> n then Some tot
      else if sint (levels ! i) > 0 then do {
        tot' \<leftarrow> lots_add oc tot (levels ! i);
        total_loop oc levels is n tot' (count + 1)
      }
      else total_loop oc levels is n tot count)"

definition array_total_depth :: "bool \<Rightarrow> Side \<Rightarrow> usize \<Rightarrow> ArrayBook \<Rightarrow> Lots panics" where
  "array_total_depth oc side levels self =
     total_loop oc (side_levels side self) (side_order side (length (side_levels side self)))
       levels lots_ZERO 0"

definition array_book_ops :: "nat \<Rightarrow> ArrayBook OrderBook" where
  "array_book_ops N = \<lparr> ob_default = array_default N, ob_apply_delta = array_apply_delta,
     ob_clear_side = array_clear_side, ob_clear = array_clear, ob_best_bid = array_best_bid,
     ob_best_ask = array_best_ask, ob_depth = array_depth, ob_level_count = array_level_count,
     ob_total_depth = array_total_depth \<rparr>"

section \<open>Invariant and ledger\<close>

text \<open>A clean cache holds the index the scan would find.\<close>

definition array_inv :: "nat \<Rightarrow> ArrayBook \<Rightarrow> bool" where
  "array_inv N b \<longleftrightarrow> length (bids b) = N \<and> length (asks b) = N \<and>
     (\<not> bid_dirty b \<longrightarrow> best_bid_idx b = scan_levels (bids b) (rev [0..<N])) \<and>
     (\<not> ask_dirty b \<longrightarrow> best_ask_idx b = scan_levels (asks b) [0..<N])"

definition array_grid :: "nat \<Rightarrow> Ticks \<Rightarrow> bool" where
  "array_grid N p \<longleftrightarrow> 0 \<le> sint p \<and> sint p < int N"

definition array_qty :: "ArrayBook \<Rightarrow> ledger" where
  "array_qty b s p = (let lv = side_levels s b
     in if 0 \<le> sint p \<and> sint p < int (length lv) then lv ! nat (sint p) else 0)"

section \<open>The scans\<close>

lemma scan_levels_find:
  "scan_levels lv is = map_option of_nat (List.find (\<lambda>i. sint (lv ! i) > 0) is)"
  by (induction "is") simp_all

lemma find_in_order:
  assumes "sorted_wrt R is" and "List.find P is = Some i"
  shows "i \<in> set is \<and> P i \<and> (\<forall>j \<in> set is. P j \<longrightarrow> j = i \<or> R i j)"
  using assms by (induction "is") (auto split: if_splits)

lemma ticks_of_nat: "i < 65536 \<Longrightarrow> sint (of_nat i :: Ticks) = int i"
  using sint_of_int_i64 [of "int i"] by (simp add: in_i64_def)

lemma unat_u16: "i < 65536 \<Longrightarrow> unat (of_nat i :: u16) = i"
  by (simp add: unat_of_nat take_bit_nat_eq_self)

text \<open>What reading back a scanned index returns.\<close>

lemma read_scan:
  assumes "length lv \<le> 65536" and "set is = {..<length lv}" and "sorted_wrt R is"
  obtains (empty) "read_level lv (scan_levels lv is) = Some None" and "\<forall>j < length lv. sint (lv ! j) \<le> 0"
  | (level) i where "read_level lv (scan_levels lv is) = Some (Some (of_nat i, lv ! i))"
      and "i < length lv" and "0 < sint (lv ! i)"
      and "\<forall>j < length lv. 0 < sint (lv ! j) \<longrightarrow> j = i \<or> R i j"
proof (cases "List.find (\<lambda>i. sint (lv ! i) > 0) is")
  case None
  then have "\<forall>j < length lv. sint (lv ! j) \<le> 0"
    using assms(2) by (metis find_None_iff lessThan_iff not_less)
  moreover have "read_level lv (scan_levels lv is) = Some None"
    using None by (simp add: scan_levels_find read_level_def)
  ultimately show thesis by (rule empty [rotated])
next
  case (Some i)
  note found = find_in_order [OF assms(3) Some]
  then have "i < length lv" using assms(2) by auto
  then show thesis
    using Some found assms by (intro level [of i]) (auto simp: scan_levels_find read_level_def unat_u16)
qed

lemma side_order_sorted: "sorted_wrt (>) (rev [0..<n])" "sorted_wrt (<) [0..<n]"
  by (simp_all add: sorted_wrt_rev)

lemma array_best_bid_eq:
  assumes "array_inv N b"
  shows "array_best_bid b = do {
    r \<leftarrow> read_level (bids b) (scan_levels (bids b) (rev [0..<N]));
    Some (r, b\<lparr> best_bid_idx := scan_levels (bids b) (rev [0..<N]), bid_dirty := False \<rparr>) }"
  using assms by (cases b; cases "bid_dirty b") (simp_all add: array_best_bid_def array_inv_def)

lemma array_best_ask_eq:
  assumes "array_inv N b"
  shows "array_best_ask b = do {
    r \<leftarrow> read_level (asks b) (scan_levels (asks b) [0..<N]);
    Some (r, b\<lparr> best_ask_idx := scan_levels (asks b) [0..<N], ask_dirty := False \<rparr>) }"
  using assms by (cases b; cases "ask_dirty b") (simp_all add: array_best_ask_def array_inv_def)

lemma array_qty_nth:
  "i < length (side_levels s b) \<Longrightarrow> i < 65536 \<Longrightarrow> array_qty b s (of_nat i) = side_levels s b ! i"
  by (simp add: array_qty_def ticks_of_nat)

lemma array_qty_pos:
  "0 < sint (array_qty b s p) \<Longrightarrow>
     \<exists>i < length (side_levels s b). sint p = int i \<and> array_qty b s p = side_levels s b ! i \<and>
       0 < sint (side_levels s b ! i)"
  by (auto simp: array_qty_def Let_def split: if_splits intro!: exI [of _ "nat (sint p)"])

lemma array_best_bid_ok:
  assumes "N \<le> 65536" and inv: "array_inv N b"
  shows "\<exists>best b'. array_best_bid b = Some (best, b') \<and> array_inv N b' \<and>
    array_qty b' = array_qty b \<and> is_best_bid (array_qty b Bid) best"
proof -
  have len: "length (bids b) = N" using inv by (simp add: array_inv_def)
  let ?b' = "b\<lparr> best_bid_idx := scan_levels (bids b) (rev [0..<N]), bid_dirty := False \<rparr>"
  have b': "array_inv N ?b'" "array_qty ?b' = array_qty b"
    using inv by (auto simp: array_inv_def array_qty_def side_levels_def fun_eq_iff split: Side.split)
  have "length (bids b) \<le> 65536" "set (rev [0..<N]) = {..<length (bids b)}"
    using assms(1) len by auto
  from this side_order_sorted(1) show ?thesis
  proof (cases rule: read_scan [of "bids b" "rev [0..<N]" "(>)"])
    case empty
    then have "is_best_bid (array_qty b Bid) None"
      by (auto simp: is_best_bid_def array_qty_def side_levels_def Let_def)
    with empty b' show ?thesis by (simp add: array_best_bid_eq [OF inv])
  next
    case (level i)
    then have "is_best_bid (array_qty b Bid) (Some (of_nat i, bids b ! i))"
      using assms(1) len array_qty_nth [of i Bid b]
      by (auto simp: is_best_bid_def side_levels_def ticks_of_nat dest!: array_qty_pos)
    with level b' show ?thesis by (simp add: array_best_bid_eq [OF inv])
  qed
qed

lemma array_best_ask_ok:
  assumes "N \<le> 65536" and inv: "array_inv N b"
  shows "\<exists>best b'. array_best_ask b = Some (best, b') \<and> array_inv N b' \<and>
    array_qty b' = array_qty b \<and> is_best_ask (array_qty b Ask) best"
proof -
  have len: "length (asks b) = N" using inv by (simp add: array_inv_def)
  let ?b' = "b\<lparr> best_ask_idx := scan_levels (asks b) [0..<N], ask_dirty := False \<rparr>"
  have b': "array_inv N ?b'" "array_qty ?b' = array_qty b"
    using inv by (auto simp: array_inv_def array_qty_def side_levels_def fun_eq_iff split: Side.split)
  have "length (asks b) \<le> 65536" "set [0..<N] = {..<length (asks b)}"
    using assms(1) len by auto
  from this side_order_sorted(2) show ?thesis
  proof (cases rule: read_scan [of "asks b" "[0..<N]" "(<)"])
    case empty
    then have "is_best_ask (array_qty b Ask) None"
      by (auto simp: is_best_ask_def array_qty_def side_levels_def Let_def)
    with empty b' show ?thesis by (simp add: array_best_ask_eq [OF inv])
  next
    case (level i)
    then have "is_best_ask (array_qty b Ask) (Some (of_nat i, asks b ! i))"
      using assms(1) len array_qty_nth [of i Ask b]
      by (auto simp: is_best_ask_def side_levels_def ticks_of_nat dest!: array_qty_pos)
    with level b' show ?thesis by (simp add: array_best_ask_eq [OF inv])
  qed
qed

lemma array_qty_apply:
  assumes "array_inv N b"
  shows "array_qty (array_apply_delta p q s a b) =
    (if array_grid N p then ledger_set (array_qty b) s p q else array_qty b)"
proof (cases "array_grid N p")
  case True
  let ?i = "nat (sint p)"
  have i: "0 \<le> sint p" "?i < N" "length (bids b) = N" "length (asks b) = N"
    using True assms by (auto simp: array_grid_def array_inv_def)
  have lv: "side_levels s' (array_apply_delta p q s a b) =
      (if s' = s then (side_levels s b)[?i := q] else side_levels s' b)" for s'
    using i by (cases s; cases s') (simp_all add: array_apply_delta_def side_levels_def)
  have eq: "?i = nat (sint p') \<longleftrightarrow> p = p'" if "0 \<le> sint p'" for p' :: Ticks
    using eq_nat_nat_iff [OF i(1) that] i64_eq_iff [of p p'] by blast
  have len: "length (side_levels s' b) = N" for s'
    using i by (cases s') (simp_all add: side_levels_def)
  show ?thesis
  proof (intro ext)
    fix s' p'
    show "array_qty (array_apply_delta p q s a b) s' p' =
        (if array_grid N p then ledger_set (array_qty b) s p q else array_qty b) s' p'"
      using True i(1,2) eq [of p'] len
      by (cases "s' = s"; cases "p' = p")
        (auto simp: array_qty_def lv ledger_set_def array_grid_def Let_def nth_list_update)
  qed
next
  case False
  then have "array_apply_delta p q s a b = b"
    using assms by (auto simp: array_apply_delta_def array_grid_def array_inv_def Let_def)
  with False show ?thesis by simp
qed

section \<open>The array book satisfies the contract\<close>

lemma array_book_contract:
  assumes u16_indices: "N \<le> 65536"
  shows "order_book (array_book_ops N) (array_inv N) array_qty (array_grid N)"
proof unfold_locales
  show "array_inv N (ob_default (array_book_ops N))"
    by (simp add: array_book_ops_def array_default_def array_inv_def)
  show "array_qty (ob_default (array_book_ops N)) = (\<lambda>_ _. 0)"
    by (auto simp: array_book_ops_def array_default_def array_qty_def side_levels_def lots_ZERO_def
      fun_eq_iff Let_def split: Side.split)
next
  fix b assume inv: "array_inv N b"
  show "array_inv N (ob_apply_delta (array_book_ops N) p q s a b)" for p q s a
    using inv by (cases s) (auto simp: array_book_ops_def array_apply_delta_def array_inv_def Let_def)
  show "array_qty (ob_apply_delta (array_book_ops N) p q s a b) =
      (if array_grid N p then ledger_set (array_qty b) s p q else array_qty b)" for p q s a
    using array_qty_apply [OF inv] by (simp add: array_book_ops_def)
  show "array_inv N (ob_clear_side (array_book_ops N) s b)" for s
    using inv by (cases s) (auto simp: array_book_ops_def array_clear_side_def array_inv_def)
  show "array_qty (ob_clear_side (array_book_ops N) s b) = (array_qty b)(s := (\<lambda>_. 0))" for s
    using inv by (cases s) (auto simp: array_book_ops_def array_clear_side_def array_qty_def
      array_inv_def side_levels_def lots_ZERO_def fun_eq_iff Let_def split: Side.split)
  show "array_inv N (ob_clear (array_book_ops N) b)"
    using inv by (simp add: array_book_ops_def array_clear_def array_inv_def)
  show "array_qty (ob_clear (array_book_ops N) b) = (\<lambda>_ _. 0)"
    by (auto simp: array_book_ops_def array_clear_def array_qty_def side_levels_def lots_ZERO_def
      fun_eq_iff Let_def split: Side.split)
  show "\<exists>best b'. ob_best_bid (array_book_ops N) b = Some (best, b') \<and> array_inv N b' \<and>
      array_qty b' = array_qty b \<and> is_best_bid (array_qty b Bid) best"
    using array_best_bid_ok [OF u16_indices inv] by (simp add: array_book_ops_def)
  show "\<exists>best b'. ob_best_ask (array_book_ops N) b = Some (best, b') \<and> array_inv N b' \<and>
      array_qty b' = array_qty b \<and> is_best_ask (array_qty b Ask) best"
    using array_best_ask_ok [OF u16_indices inv] by (simp add: array_book_ops_def)
  show "array_qty b s p = 0" if "\<not> array_grid N p" for s p
    using inv that by (cases s) (auto simp: array_qty_def array_inv_def array_grid_def side_levels_def)
qed

locale array_sized =
  fixes N :: nat
  assumes u16_indices: "N \<le> 65536"

lemma array_book_small_ticks:
  assumes "N \<le> 65536"
  shows "small_tick_book (array_book_ops N) (array_inv N) array_qty (array_grid N)"
  by (intro small_tick_book.intro array_book_contract small_tick_book_axioms.intro)
    (use assms in \<open>auto simp: array_grid_def\<close>)

sublocale array_sized \<subseteq> small_tick_book "array_book_ops N" "array_inv N" array_qty "array_grid N"
  by (rule array_book_small_ticks [OF u16_indices])

text \<open>The sizes the supported venues use.\<close>

interpretation polymarket_book: array_sized 100
  by unfold_locales simp

interpretation binance_book: array_sized 20
  by unfold_locales simp

section \<open>Depth queries\<close>

text \<open>The positive levels of a side, best first.\<close>

definition side_book :: "Side \<Rightarrow> ArrayBook \<Rightarrow> (Ticks \<times> Lots) list" where
  "side_book side b = map (\<lambda>i. (of_nat i, side_levels side b ! i))
     (filter (\<lambda>i. sint (side_levels side b ! i) > 0) (side_order side (length (side_levels side b))))"

lemma depth_loop_eq:
  assumes "\<forall>i \<in> set is. i < 2 ^ 63" and "count \<le> length buf"
  shows "depth_loop lv is buf count =
    (let es = map (\<lambda>i. (of_nat i, lv ! i)) (filter (\<lambda>i. sint (lv ! i) > 0) is);
         k = min (length es) (length buf - count)
     in (count + k, take count buf @ take k es @ drop (count + k) buf))"
  using assms
proof (induction "is" arbitrary: buf count)
  case (Cons i "is")
  show ?case
  proof (cases "count < length buf")
    case True
    then show ?thesis
      using Cons by (auto simp: idx_to_ticks_def Let_def take_Suc_conv_app_nth
        Suc_diff_Suc [symmetric] simp del: Suc_diff_Suc)
  next
    case False
    with Cons.prems show ?thesis by simp
  qed
qed simp

lemma set_side_order: "set (side_order s n) = {..<n}"
  by (cases s) (auto simp: side_order_def)

lemma filter_index_length: "length (filter (\<lambda>i. P (xs ! i)) [0..<length xs]) = length (filter P xs)"
proof -
  have "map (\<lambda>i. xs ! i) (filter (\<lambda>i. P (xs ! i)) [0..<length xs]) = filter P (map (\<lambda>i. xs ! i) [0..<length xs])"
    by (simp add: filter_map comp_def)
  then have "length (filter (\<lambda>i. P (xs ! i)) [0..<length xs]) = length (filter P (map (\<lambda>i. xs ! i) [0..<length xs]))"
    by (metis length_map)
  then show ?thesis by (simp add: map_nth)
qed

lemma level_count_side_book: "array_level_count s b = length (side_book s b)"
  using filter_index_length [of "\<lambda>q. 0 < sint q" "side_levels s b"]
  by (cases s) (simp_all add: array_level_count_def side_book_def side_order_def rev_filter [symmetric])

lemma total_loop_eq:
  assumes "\<forall>i \<in> set is. i < length lv" and "0 \<le> sint tot"
    and "sint tot + sum_list (map sint (filter (\<lambda>q. sint q > 0) (map ((!) lv) is))) < 2 ^ 63"
  shows "\<exists>r. total_loop oc lv is n tot count = Some r \<and>
    sint r = sint tot + sum_list (map sint (take (n - count) (filter (\<lambda>q. sint q > 0) (map ((!) lv) is))))"
  using assms
proof (induction "is" arbitrary: tot count)
  case (Cons i "is")
  let ?ps = "\<lambda>is. map sint (filter (\<lambda>q. sint q > 0) (map ((!) lv) is))"
  have nonneg: "0 \<le> sum_list (?ps is)" by (rule sum_list_nonneg) auto
  show ?case
  proof (cases "sint (lv ! i) > 0 \<and> count < n")
    case True
    let ?t = "word_of_int (sint tot + sint (lv ! i)) :: i64"
    have fits: "in_i64 (sint tot + sint (lv ! i))"
      using Cons.prems(2,3) True nonneg by (simp add: in_i64_def)
    have "\<exists>r. total_loop oc lv is n ?t (Suc count) = Some r \<and>
        sint r = sint ?t + sum_list (map sint (take (n - Suc count) (filter (\<lambda>q. sint q > 0) (map ((!) lv) is))))"
      using Cons.prems True by (intro Cons.IH) (simp_all only: sint_of_int_i64 [OF fits], auto)
    moreover have "lots_add oc tot (lv ! i) = Some ?t"
      using fits by (simp only: lots_add_def add_i64_def i64_arith_fits)
    moreover have "n - count = Suc (n - Suc count)" using True by linarith
    ultimately show ?thesis
      using True by (simp only: sint_of_int_i64 [OF fits]) (auto simp del: wi_homs)
  next
    case False
    then show ?thesis using Cons nonneg by (cases "count < n") auto
  qed
qed simp

lemma sum_list_perm_order:
  "sum_list (map sint (filter (\<lambda>q. sint q > 0) (map ((!) xs) (side_order s (length xs)))))
     = sum_list (map sint (filter (\<lambda>q. sint q > 0) xs))"
proof -
  have "map ((!) xs) (side_order s (length xs)) = (case s of Bid \<Rightarrow> rev xs | Ask \<Rightarrow> xs)"
    by (cases s) (simp_all add: side_order_def map_nth flip: rev_map)
  then show ?thesis by (cases s) (simp_all add: rev_filter [symmetric] rev_map [symmetric] sum_list_rev)
qed

lemma side_book_snd:
  "map snd (side_book s b) =
     filter (\<lambda>q. sint q > 0) (map ((!) (side_levels s b)) (side_order s (length (side_levels s b))))"
  by (simp add: side_book_def filter_map comp_def)

section \<open>Properties\<close>

text \<open>The cached best bid and ask of an array book are right after any history: for every
  sequence of level updates, side clears, clears and queries (which fill the caches) applied to a
  fresh book of at most 65536 levels, no operation panics, and the two queries return the highest
  bid and the lowest ask among the levels whose last written quantity is positive, with that
  quantity, or nothing when there is none.\<close>

theorem array_book_best_after_run:
  assumes "N \<le> 65536"
  shows "\<exists>b bid b' ask b''. book_run (array_book_ops N) cs (array_default N) = Some b \<and>
    array_best_bid b = Some (bid, b') \<and> array_best_ask b = Some (ask, b'') \<and>
    is_best_bid (ledger_run (array_grid N) cs (\<lambda>_ _. 0) Bid) bid \<and>
    is_best_ask (ledger_run (array_grid N) cs (\<lambda>_ _. 0) Ask) ask"
proof -
  have ops: "ob_default (array_book_ops N) = array_default N"
    "ob_best_bid (array_book_ops N) = array_best_bid" "ob_best_ask (array_book_ops N) = array_best_ask"
    by (simp_all add: array_book_ops_def)
  have ob: "order_book (array_book_ops N) (array_inv N) array_qty (array_grid N)"
    using assms by (rule array_book_contract)
  from order_book.run_best_bid [OF ob, of cs] order_book.run_best_ask [OF ob, of cs]
  show ?thesis unfolding ops by auto
qed

theorem array_book_best_after_run_witness:
  "(3 :: nat) \<le> 65536 \<and> (\<exists>b b'. book_run (array_book_ops 3)
     [ApplyDelta 1 5 Bid New, QueryBid, ApplyDelta 2 7 Bid New, ApplyDelta 9 1 Bid New] (array_default 3) = Some b \<and>
     array_best_bid b = Some (Some (2, 7), b'))"
proof -
  let ?cs = "[ApplyDelta 1 5 Bid New, QueryBid, ApplyDelta 2 7 Bid New, ApplyDelta 9 1 Bid New]"
  have "ledger_run (array_grid 3) ?cs (\<lambda>_ _. 0) Bid = (\<lambda>_. 0)(1 := 5, 2 := 7)"
    by (simp add: ledger_run_def array_grid_def ledger_set_def)
  moreover have "is_best_bid ((\<lambda>_. 0)(1 := 5, 2 := 7)) (Some (2, 7))"
    by (auto simp: is_best_bid_def)
  ultimately show ?thesis
    using array_book_best_after_run [of 3 ?cs] is_best_bid_unique by fastforce
qed

text \<open>\<open>depth\<close> writes the best levels of a side, best first, as many as the buffer and the book
  allow, leaves the rest of the buffer as it was, and returns how many it wrote;
  \<open>level_count\<close> is the number of levels it would write into a buffer that is large enough.\<close>

theorem array_depth_top_levels:
  assumes "length (side_levels s b) \<le> 2 ^ 63"
  shows "array_depth s buf b =
      (min (length buf) (array_level_count s b),
       take (length buf) (side_book s b) @ drop (array_level_count s b) buf)"
proof -
  let ?n = "length (side_levels s b)"
  have "\<forall>i \<in> set (side_order s ?n). i < 2 ^ 63" using assms by (auto simp: set_side_order)
  then have "array_depth s buf b =
      (let k = min (length (side_book s b)) (length buf) in (k, take k (side_book s b) @ drop k buf))"
    by (simp add: array_depth_def depth_loop_eq side_book_def Let_def)
  then show ?thesis
    by (cases "length (side_book s b) \<le> length buf") (simp_all add: level_count_side_book Let_def min_def)
qed

theorem array_depth_top_levels_witness:
  "array_depth Bid [(0, 0), (0, 0)] ((array_default 3)\<lparr> bids := [4, 0, 6] \<rparr>) = (2, [(2, 6), (0, 4)])"
  using array_depth_top_levels [of Bid "(array_default 3)\<lparr> bids := [4, 0, 6] \<rparr>" "[(0, 0), (0, 0)]"]
  by (simp add: side_levels_def side_book_def side_order_def upt_rec array_level_count_def)

text \<open>\<open>total_depth\<close> is the sum of the best \<open>n\<close> levels of a side, without overflow in any
  build as long as the positive quantities of the side sum to less than \<open>2 ^ 63\<close>.\<close>

theorem array_total_depth_sum:
  assumes "sum_list (map sint (filter (\<lambda>q. sint q > 0) (side_levels s b))) < 2 ^ 63"
  shows "\<exists>r. array_total_depth oc s n b = Some r \<and>
    sint r = sum_list (map (sint \<circ> snd) (take n (side_book s b)))"
proof -
  let ?lv = "side_levels s b"
  have "\<exists>r. total_loop oc ?lv (side_order s (length ?lv)) n 0 0 = Some r \<and>
      sint r = sint (0 :: i64) + sum_list (map sint (take (n - 0)
        (filter (\<lambda>q. sint q > 0) (map ((!) ?lv) (side_order s (length ?lv))))))"
    using assms by (intro total_loop_eq) (simp_all add: set_side_order sum_list_perm_order)
  then show ?thesis
    by (simp add: array_total_depth_def lots_ZERO_def take_map flip: side_book_snd)
qed

theorem array_total_depth_sum_witness:
  "\<exists>r. array_total_depth True Bid 1 ((array_default 3)\<lparr> bids := [4, 0, 6] \<rparr>) = Some r \<and> sint r = 6"
  using array_total_depth_sum [of Bid "(array_default 3)\<lparr> bids := [4, 0, 6] \<rparr>" True 1]
  by (simp add: side_levels_def side_book_def side_order_def upt_rec)

end
