(* ===== verification/Market_State.thy ===== *)
theory Market_State
  imports Array_Book
begin

text \<open>
  The market-state engine (\<open>crates/market-state/src/engine.rs\<close>, \<open>state.rs\<close>): one book and one
  small snapshot state machine per instrument, fed by \<open>HotEvent\<close>s, with detection of changes of
  the best prices. The engine is generic over the book type, so its operations take the book's
  record of operations; its lemmas are proved once from the contract \<open>order_book\<close> and hold for
  the array book by its interpretation.
\<close>

section \<open>State\<close>

record TradeInfo =
  ti_price :: Ticks
  ti_qty :: Lots
  ti_side :: Side
  ti_ts :: Timestamp

record TopOfBook =
  t_bid_price :: Ticks
  t_bid_qty :: Lots
  t_ask_price :: Ticks
  t_ask_qty :: Lots
  t_micro_price :: Ticks
  t_spread :: Ticks
  t_instrument_id :: InstrumentId
  t_ts :: Timestamp

record 'b InstrumentState =
  is_book :: 'b
  is_prev_bid :: "Ticks option"
  is_prev_ask :: "Ticks option"
  is_last_trade :: "TradeInfo option"
  is_last_event_ts :: Timestamp
  is_seq :: SeqNum
  is_snapshot_received :: bool
  is_in_snapshot :: bool

definition instrument_default :: "'b OrderBook \<Rightarrow> 'b InstrumentState" where
  "instrument_default ops = \<lparr> is_book = ob_default ops, is_prev_bid = None, is_prev_ask = None,
     is_last_trade = None, is_last_event_ts = 0, is_seq = SeqNum_ZERO,
     is_snapshot_received = False, is_in_snapshot = False \<rparr>"

record 'b MarketStateEngine =
  me_instruments :: "'b InstrumentState list"
  me_active_count :: usize
  me_stale_timeout_ns :: u64
  me_tob_changed :: bool
  me_last_tob :: "TopOfBook option"

definition engine_new :: "'b OrderBook \<Rightarrow> nat \<Rightarrow> usize \<Rightarrow> u64 \<Rightarrow> 'b MarketStateEngine panics" where
  "engine_new ops max_n active_count stale_timeout_ns =
     (if active_count \<le> max_n
      then Some \<lparr> me_instruments = replicate max_n (instrument_default ops),
                  me_active_count = active_count, me_stale_timeout_ns = stale_timeout_ns,
                  me_tob_changed = False, me_last_tob = None \<rparr>
      else None)"

text \<open>Indexing the instrument array, which panics past its end, and writing an entry back.\<close>

definition instr_get :: "'b MarketStateEngine \<Rightarrow> usize \<Rightarrow> 'b InstrumentState panics" where
  "instr_get self slot =
     (if slot < length (me_instruments self) then Some (me_instruments self ! slot) else None)"

definition instr_set :: "usize \<Rightarrow> 'b InstrumentState \<Rightarrow> 'b MarketStateEngine \<Rightarrow> 'b MarketStateEngine" where
  "instr_set slot st self = self\<lparr> me_instruments := (me_instruments self)[slot := st] \<rparr>"

section \<open>Best price changes\<close>

definition weighted_price :: "bool \<Rightarrow> Ticks \<Rightarrow> Lots \<Rightarrow> Ticks \<Rightarrow> Lots \<Rightarrow> i64 \<Rightarrow> Ticks panics" where
  "weighted_price oc bp bq ap aq tot =
     do {
       x \<leftarrow> mul_i64 oc bp aq;
       y \<leftarrow> mul_i64 oc ap bq;
       n \<leftarrow> add_i64 oc x y;
       div_i64 n tot
     }"

text \<open>\<open>i64::midpoint\<close>, which rounds toward zero and cannot overflow.\<close>

definition midpoint_i64 :: "i64 \<Rightarrow> i64 \<Rightarrow> i64" where
  "midpoint_i64 a b = word_of_int ((sint a + sint b) sdiv 2)"

definition make_tob :: "bool \<Rightarrow> usize \<Rightarrow> Timestamp \<Rightarrow> Ticks \<times> Lots \<Rightarrow> Ticks \<times> Lots \<Rightarrow> TopOfBook panics" where
  "make_tob oc slot ts bid ask =
     (case (bid, ask) of ((bp, bq), (ap, aq)) \<Rightarrow> do {
       tot \<leftarrow> add_i64 oc bq aq;
       micro \<leftarrow> (if sint tot > 0 then weighted_price oc bp bq ap aq tot
                  else Some (midpoint_i64 bp ap));
       spread \<leftarrow> sub_i64 oc ap bp;
       Some \<lparr> t_bid_price = bp, t_bid_qty = bq, t_ask_price = ap, t_ask_qty = aq,
              t_micro_price = micro, t_spread = spread,
              t_instrument_id = of_nat (slot + 1), t_ts = ts \<rparr>
     })"

definition check_bbo_price_change :: "'b OrderBook \<Rightarrow> bool \<Rightarrow> usize \<Rightarrow> 'b MarketStateEngine \<Rightarrow>
    (TopOfBook option \<times> 'b MarketStateEngine) panics" where
  "check_bbo_price_change ops oc slot self =
     do {
       state \<leftarrow> instr_get self slot;
       (bid, book1) \<leftarrow> ob_best_bid ops (is_book state);
       (ask, book2) \<leftarrow> ob_best_ask ops book1;
       let state = state\<lparr> is_book := book2 \<rparr>;
       let bid_price = map_option fst bid;
       let ask_price = map_option fst ask;
       if bid_price = is_prev_bid state \<and> ask_price = is_prev_ask state
       then Some (None, instr_set slot state self)
       else do {
         let state = state\<lparr> is_prev_bid := bid_price, is_prev_ask := ask_price \<rparr>;
         let self = instr_set slot state self;
         case (bid, ask) of
           (Some b, Some a) \<Rightarrow> do {
             tob \<leftarrow> make_tob oc slot (is_last_event_ts state) b a;
             Some (Some tob, self)
           }
         | _ \<Rightarrow> Some (None, self)
       }
     }"

definition emit_bbo :: "'b OrderBook \<Rightarrow> bool \<Rightarrow> usize \<Rightarrow> 'b MarketStateEngine \<Rightarrow> 'b MarketStateEngine panics" where
  "emit_bbo ops oc slot self =
     do {
       (tob, self) \<leftarrow> check_bbo_price_change ops oc slot self;
       Some (case tob of
           Some t \<Rightarrow> self\<lparr> me_last_tob := Some t, me_tob_changed := True \<rparr>
         | None \<Rightarrow> self)
     }"

section \<open>Processing an event\<close>

definition process_book_delta :: "'b OrderBook \<Rightarrow> bool \<Rightarrow> EventHeader \<Rightarrow> BookDeltaPayload \<Rightarrow>
    'b MarketStateEngine \<Rightarrow> 'b MarketStateEngine panics" where
  "process_book_delta ops oc h delta self =
     (let raw = unat (hdr_instrument_id h); flags = hdr_flags h in
      if raw = 0 \<or> raw > me_active_count self then Some self
      else do {
        let slot = raw - 1;
        state \<leftarrow> instr_get self slot;
        let state = state\<lparr> is_last_event_ts := hdr_recv_ts h, is_seq := hdr_seq h \<rparr>;
        let state = (if flags_contains flags IS_SNAPSHOT
                     then state\<lparr> is_book := ob_clear ops (is_book state), is_in_snapshot := True,
                                 is_snapshot_received := False \<rparr>
                     else state);
        let state = state\<lparr> is_book := ob_apply_delta ops (bd_price delta) (bd_qty delta)
                              (bd_side delta) (bd_action delta) (is_book state) \<rparr>;
        if flags_contains flags LAST_IN_BATCH
        then do {
          let state = (if is_in_snapshot state
                       then state\<lparr> is_in_snapshot := False, is_snapshot_received := True \<rparr>
                       else state);
          let self = instr_set slot state self;
          if is_snapshot_received state then emit_bbo ops oc slot self else Some self
        }
        else Some (instr_set slot state self)
      })"

definition process_trade :: "EventHeader \<Rightarrow> TradePayload \<Rightarrow> 'b MarketStateEngine \<Rightarrow> 'b MarketStateEngine panics" where
  "process_trade h trade self =
     (let raw = unat (hdr_instrument_id h) in
      if raw = 0 \<or> raw > me_active_count self then Some self
      else do {
        let slot = raw - 1;
        state \<leftarrow> instr_get self slot;
        Some (instr_set slot (state\<lparr> is_last_event_ts := hdr_recv_ts h,
          is_last_trade := Some \<lparr> ti_price = tr_price trade, ti_qty = tr_qty trade,
            ti_side = tr_aggressor trade, ti_ts = hdr_recv_ts h \<rparr> \<rparr>) self)
      })"

definition process_top_of_book :: "'b OrderBook \<Rightarrow> bool \<Rightarrow> EventHeader \<Rightarrow> TopOfBookPayload \<Rightarrow>
    'b MarketStateEngine \<Rightarrow> 'b MarketStateEngine panics" where
  "process_top_of_book ops oc h tob self =
     (let raw = unat (hdr_instrument_id h) in
      if raw = 0 \<or> raw > me_active_count self then Some self
      else do {
        let slot = raw - 1;
        state \<leftarrow> instr_get self slot;
        let book = ob_clear ops (is_book state);
        let book = ob_apply_delta ops (tob_bid_price tob) (tob_bid_qty tob) Bid New book;
        let book = ob_apply_delta ops (tob_ask_price tob) (tob_ask_qty tob) Ask New book;
        emit_bbo ops oc slot (instr_set slot (state\<lparr> is_last_event_ts := hdr_recv_ts h,
          is_snapshot_received := True, is_book := book \<rparr>) self)
      })"

definition engine_process :: "'b OrderBook \<Rightarrow> bool \<Rightarrow> HotEvent \<Rightarrow> 'b MarketStateEngine \<Rightarrow>
    'b MarketStateEngine panics" where
  "engine_process ops oc event self = (case ev_body event of
      BookDelta delta \<Rightarrow> process_book_delta ops oc (ev_header event) delta self
    | Trade trade \<Rightarrow> process_trade (ev_header event) trade self
    | TopOfBook tob \<Rightarrow> process_top_of_book ops oc (ev_header event) tob self
    | _ \<Rightarrow> Some self)"

fun engine_run :: "'b OrderBook \<Rightarrow> bool \<Rightarrow> HotEvent list \<Rightarrow> 'b MarketStateEngine \<Rightarrow>
    'b MarketStateEngine panics" where
  "engine_run ops oc [] self = Some self"
| "engine_run ops oc (e # es) self = do { self' \<leftarrow> engine_process ops oc e self; engine_run ops oc es self' }"

section \<open>Queries\<close>

text \<open>\<open>saturating_sub\<close> on \<open>u64\<close> is subtraction of natural numbers. The imbalance query,
  which computes in \<open>f64\<close>, has its own theory.\<close>

definition engine_micro_price :: "'b OrderBook \<Rightarrow> bool \<Rightarrow> InstrumentId \<Rightarrow> 'b MarketStateEngine \<Rightarrow>
    (Ticks option \<times> 'b MarketStateEngine) panics" where
  "engine_micro_price ops oc inst self =
     (let slot = unat inst in
      if slot = 0 \<or> slot > me_active_count self then Some (None, self)
      else do {
        state \<leftarrow> instr_get self (slot - 1);
        (bid, book1) \<leftarrow> ob_best_bid ops (is_book state);
        let self1 = instr_set (slot - 1) (state\<lparr> is_book := book1 \<rparr>) self;
        case bid of None \<Rightarrow> Some (None, self1)
        | Some (bp, bq) \<Rightarrow> do {
            (ask, book2) \<leftarrow> ob_best_ask ops book1;
            let self2 = instr_set (slot - 1) (state\<lparr> is_book := book2 \<rparr>) self;
            case ask of None \<Rightarrow> Some (None, self2)
            | Some (ap, aq) \<Rightarrow> do {
                tot \<leftarrow> add_i64 oc bq aq;
                if tot = 0 then Some (None, self2)
                else do {
                  p \<leftarrow> weighted_price oc bp bq ap aq tot;
                  Some (Some p, self2)
                }
              }
          }
      })"

definition engine_spread :: "'b OrderBook \<Rightarrow> bool \<Rightarrow> InstrumentId \<Rightarrow> 'b MarketStateEngine \<Rightarrow>
    (Ticks option \<times> 'b MarketStateEngine) panics" where
  "engine_spread ops oc inst self =
     (let slot = unat inst in
      if slot = 0 \<or> slot > me_active_count self then Some (None, self)
      else do {
        state \<leftarrow> instr_get self (slot - 1);
        (bid, book1) \<leftarrow> ob_best_bid ops (is_book state);
        let self1 = instr_set (slot - 1) (state\<lparr> is_book := book1 \<rparr>) self;
        case bid of None \<Rightarrow> Some (None, self1)
        | Some (bp, _) \<Rightarrow> do {
            (ask, book2) \<leftarrow> ob_best_ask ops book1;
            let self2 = instr_set (slot - 1) (state\<lparr> is_book := book2 \<rparr>) self;
            case ask of None \<Rightarrow> Some (None, self2)
            | Some (ap, _) \<Rightarrow> do { s \<leftarrow> sub_i64 oc ap bp; Some (Some s, self2) }
          }
      })"

definition engine_last_trade :: "InstrumentId \<Rightarrow> 'b MarketStateEngine \<Rightarrow> TradeInfo option panics" where
  "engine_last_trade inst self =
     (let slot = unat inst in
      if slot = 0 \<or> slot > me_active_count self then Some None
      else do { state \<leftarrow> instr_get self (slot - 1); Some (is_last_trade state) })"

definition engine_is_stale :: "InstrumentId \<Rightarrow> Timestamp \<Rightarrow> 'b MarketStateEngine \<Rightarrow> bool panics" where
  "engine_is_stale inst now self =
     (let slot = unat inst in
      if slot = 0 \<or> slot > me_active_count self then Some True
      else do {
        state \<leftarrow> instr_get self (slot - 1);
        let last = is_last_event_ts state;
        if last = 0 then Some True
        else Some (unat now - unat last > unat (me_stale_timeout_ns self))
      })"

definition engine_is_ready :: "InstrumentId \<Rightarrow> 'b MarketStateEngine \<Rightarrow> bool panics" where
  "engine_is_ready inst self =
     (let slot = unat inst in
      if slot = 0 \<or> slot > me_active_count self then Some False
      else do { state \<leftarrow> instr_get self (slot - 1); Some (is_snapshot_received state) })"

definition engine_book :: "InstrumentId \<Rightarrow> 'b MarketStateEngine \<Rightarrow> 'b option panics" where
  "engine_book inst self =
     (let slot = unat inst in
      if slot = 0 \<or> slot > me_active_count self then Some None
      else do { state \<leftarrow> instr_get self (slot - 1); Some (Some (is_book state)) })"

definition engine_take_tob :: "'b MarketStateEngine \<Rightarrow> TopOfBook option \<times> 'b MarketStateEngine" where
  "engine_take_tob self =
     (if me_tob_changed self then (me_last_tob self, self\<lparr> me_tob_changed := False \<rparr>)
      else (None, self))"

section \<open>Abstract view: one ledger per instrument\<close>

text \<open>What an event writes into the ledger of instrument \<open>iid\<close>. A delta with the snapshot flag
  starts from an empty ledger, a top-of-book event replaces the whole ledger.\<close>

definition ledger_event :: "(Ticks \<Rightarrow> bool) \<Rightarrow> InstrumentId \<Rightarrow> HotEvent \<Rightarrow> ledger \<Rightarrow> ledger" where
  "ledger_event grid iid e L =
     (if hdr_instrument_id (ev_header e) \<noteq> iid then L
      else case ev_body e of
        BookDelta d \<Rightarrow>
          (let L0 = (if flags_contains (hdr_flags (ev_header e)) IS_SNAPSHOT then (\<lambda>_ _. 0) else L)
           in if grid (bd_price d) then ledger_set L0 (bd_side d) (bd_price d) (bd_qty d) else L0)
      | TopOfBook t \<Rightarrow>
          (let L1 = (if grid (tob_bid_price t)
                     then ledger_set (\<lambda>_ _. 0) Bid (tob_bid_price t) (tob_bid_qty t) else (\<lambda>_ _. 0))
           in if grid (tob_ask_price t)
              then ledger_set L1 Ask (tob_ask_price t) (tob_ask_qty t) else L1)
      | _ \<Rightarrow> L)"

definition ledger_events :: "(Ticks \<Rightarrow> bool) \<Rightarrow> InstrumentId \<Rightarrow> HotEvent list \<Rightarrow> ledger \<Rightarrow> ledger" where
  "ledger_events grid iid es L = fold (ledger_event grid iid) es L"

text \<open>The quantities an event carries are at most \<open>2 ^ 46\<close> lots. With prices below \<open>2 ^ 16\<close> ticks
  this keeps the products of the micro price inside \<open>i64\<close>.\<close>

definition event_bounded :: "HotEvent \<Rightarrow> bool" where
  "event_bounded e = (case ev_body e of
      BookDelta d \<Rightarrow> sint (bd_qty d) \<le> 2 ^ 46
    | TopOfBook t \<Rightarrow> sint (tob_bid_qty t) \<le> 2 ^ 46 \<and> sint (tob_ask_qty t) \<le> 2 ^ 46
    | _ \<Rightarrow> True)"

definition ledger_bounded :: "ledger \<Rightarrow> bool" where
  "ledger_bounded L \<longleftrightarrow> (\<forall>s p. sint (L s p) \<le> 2 ^ 46)"

lemma ledger_bounded_set:
  "ledger_bounded L \<Longrightarrow> sint q \<le> 2 ^ 46 \<Longrightarrow> ledger_bounded (ledger_set L s p q)"
  by (simp add: ledger_bounded_def ledger_set_def)

lemma ledger_bounded_empty [simp]: "ledger_bounded (\<lambda>_ _. 0)"
  by (simp add: ledger_bounded_def)

lemma ledger_bounded_event:
  "ledger_bounded L \<Longrightarrow> event_bounded e \<Longrightarrow> ledger_bounded (ledger_event grid iid e L)"
  by (auto simp: ledger_event_def event_bounded_def Let_def ledger_bounded_set split: EventBody.split)

section \<open>The micro price\<close>

text \<open>A weighted mean with non-negative weights, truncated toward zero, stays between two
  non-negative prices; no step of its computation overflows within the bounds.\<close>

lemma weighted_mean_between:
  fixes bp ap bq aq :: int
  assumes "0 \<le> bp" "0 \<le> ap" "0 < bq" "0 < aq"
  shows "min bp ap \<le> (bp * aq + ap * bq) div (bq + aq) \<and> (bp * aq + ap * bq) div (bq + aq) \<le> max bp ap"
proof
  have "min bp ap * aq \<le> bp * aq" "min bp ap * bq \<le> ap * bq"
    using assms by (auto intro: mult_right_mono)
  then have "min bp ap * (bq + aq) \<le> bp * aq + ap * bq" by (simp add: algebra_simps)
  then have "min bp ap * (bq + aq) div (bq + aq) \<le> (bp * aq + ap * bq) div (bq + aq)"
    using assms by (intro zdiv_mono1) simp_all
  then show "min bp ap \<le> (bp * aq + ap * bq) div (bq + aq)" using assms by simp
  have "bp * aq \<le> max bp ap * aq" "ap * bq \<le> max bp ap * bq"
    using assms by (auto intro: mult_right_mono)
  then have "bp * aq + ap * bq \<le> max bp ap * (bq + aq)" by (simp add: algebra_simps)
  then have "(bp * aq + ap * bq) div (bq + aq) \<le> max bp ap * (bq + aq) div (bq + aq)"
    using assms by (intro zdiv_mono1) simp_all
  then show "(bp * aq + ap * bq) div (bq + aq) \<le> max bp ap" using assms by simp
qed

definition small_level :: "Ticks \<times> Lots \<Rightarrow> bool" where
  "small_level l \<longleftrightarrow> 0 \<le> sint (fst l) \<and> sint (fst l) < 2 ^ 16 \<and> 0 < sint (snd l) \<and> sint (snd l) \<le> 2 ^ 46"

lemma small_product:
  fixes p q :: int
  assumes "0 \<le> p" "p < 2 ^ 16" "0 < q" "q \<le> 2 ^ 46"
  shows "0 \<le> p * q \<and> p * q < 2 ^ 62"
proof -
  have "p * q \<le> (2 ^ 16 - 1) * 2 ^ 46" using assms by (intro mult_mono) simp_all
  then show ?thesis using assms by simp
qed

lemma weighted_price_small:
  assumes "small_level (bp, bq)" and "small_level (ap, aq)"
  defines "m \<equiv> (sint bp * sint aq + sint ap * sint bq) div (sint bq + sint aq)"
  shows "\<exists>tot r. add_i64 oc bq aq = Some tot \<and> 0 < sint tot \<and>
    weighted_price oc bp bq ap aq tot = Some r \<and> sint r = m"
proof -
  let ?x = "sint bp * sint aq" and ?y = "sint ap * sint bq" and ?t = "sint bq + sint aq"
  have b: "0 \<le> ?x \<and> ?x < 2 ^ 62" "0 \<le> ?y \<and> ?y < 2 ^ 62" "0 < ?t \<and> ?t \<le> 2 ^ 47"
    using assms(1,2) small_product by (auto simp: small_level_def)
  then have fits: "in_i64 ?x" "in_i64 ?y" "in_i64 (?x + ?y)" "in_i64 ?t" by (simp_all add: in_i64_def)
  have m: "in_i64 m"
    using b fits(3) in_i64_sdiv [of "?x + ?y" ?t] by (simp add: m_def sdiv_nonneg)
  define wx wy wt :: i64 where "wx = word_of_int ?x" and "wy = word_of_int ?y" and "wt = word_of_int ?t"
  have s: "sint wx = ?x" "sint wy = ?y" "sint wt = ?t"
    unfolding wx_def wy_def wt_def by (rule sint_of_int_i64, fact)+
  define wn :: i64 where "wn = word_of_int (?x + ?y)"
  have sn: "sint wn = ?x + ?y" unfolding wn_def by (rule sint_of_int_i64) (fact fits(3))
  have "mul_i64 oc bp aq = Some wx" "mul_i64 oc ap bq = Some wy" "add_i64 oc bq aq = Some wt"
    unfolding mul_i64_def add_i64_def wx_def wy_def wt_def by (rule i64_arith_fits, fact fits)+
  moreover have "add_i64 oc wx wy = Some wn"
    unfolding add_i64_def s wn_def by (rule i64_arith_fits) (fact fits(3))
  moreover have "div_i64 wn wt = Some (word_of_int m)"
    using b by (simp only: div_i64_pos s sn) (simp add: m_def sdiv_nonneg)
  ultimately show ?thesis
    using b(3) m s(3) by (auto simp: weighted_price_def)
qed

lemma make_tob_small:
  assumes "small_level (bp, bq)" and "small_level (ap, aq)"
  shows "\<exists>t. make_tob oc slot ts (bp, bq) (ap, aq) = Some t \<and>
    t_bid_price t = bp \<and> t_bid_qty t = bq \<and> t_ask_price t = ap \<and> t_ask_qty t = aq \<and>
    t_instrument_id t = of_nat (slot + 1) \<and> t_ts t = ts \<and>
    sint (t_spread t) = sint ap - sint bp \<and>
    min (sint bp) (sint ap) \<le> sint (t_micro_price t) \<and> sint (t_micro_price t) \<le> max (sint bp) (sint ap)"
proof -
  obtain tot r where tr: "add_i64 oc bq aq = Some tot" "0 < sint tot"
    "weighted_price oc bp bq ap aq tot = Some r"
    "sint r = (sint bp * sint aq + sint ap * sint bq) div (sint bq + sint aq)"
    using weighted_price_small [OF assms] by blast
  have sp: "in_i64 (sint ap - sint bp)"
    using assms by (simp add: small_level_def in_i64_def)
  have "min (sint bp) (sint ap) \<le> sint r \<and> sint r \<le> max (sint bp) (sint ap)"
    unfolding tr(4) using assms by (intro weighted_mean_between) (auto simp: small_level_def)
  moreover have "sub_i64 oc ap bp = Some (word_of_int (sint ap - sint bp))"
    unfolding sub_i64_def using sp by (rule i64_arith_fits)
  ultimately show ?thesis
    using tr(1-3) sint_of_int_i64 [OF sp] by (simp add: make_tob_def)
qed

text \<open>Without overflow checks the products wrap, and the division by a positive total is defined.\<close>

lemma make_tob_unchecked: "\<exists>t. make_tob False slot ts (bp, bq) (ap, aq) = Some t"
  by (auto simp: make_tob_def weighted_price_def add_i64_def sub_i64_def mul_i64_def i64_arith_wraps div_i64_pos)

section \<open>One event as a state update and an emission\<close>

definition addressed :: "'b MarketStateEngine \<Rightarrow> InstrumentId \<Rightarrow> bool" where
  "addressed e iid \<longleftrightarrow> 0 < unat iid \<and> unat iid \<le> me_active_count e"

definition inst_of :: "'b MarketStateEngine \<Rightarrow> InstrumentId \<Rightarrow> 'b InstrumentState" where
  "inst_of e iid = me_instruments e ! (unat iid - 1)"

text \<open>The state of the addressed instrument before the best prices are looked at.\<close>

definition event_update :: "'b OrderBook \<Rightarrow> HotEvent \<Rightarrow> 'b InstrumentState \<Rightarrow> 'b InstrumentState" where
  "event_update ops e st = (let h = ev_header e; snap = flags_contains (hdr_flags h) IS_SNAPSHOT;
        last = flags_contains (hdr_flags h) LAST_IN_BATCH in
     case ev_body e of
       BookDelta d \<Rightarrow> st\<lparr> is_last_event_ts := hdr_recv_ts h, is_seq := hdr_seq h,
         is_book := ob_apply_delta ops (bd_price d) (bd_qty d) (bd_side d) (bd_action d)
           (if snap then ob_clear ops (is_book st) else is_book st),
         is_in_snapshot := (snap \<or> is_in_snapshot st) \<and> \<not> last,
         is_snapshot_received := (if last \<and> (snap \<or> is_in_snapshot st) then True
           else \<not> snap \<and> is_snapshot_received st) \<rparr>
     | Trade t \<Rightarrow> st\<lparr> is_last_event_ts := hdr_recv_ts h,
         is_last_trade := Some \<lparr> ti_price = tr_price t, ti_qty = tr_qty t, ti_side = tr_aggressor t,
           ti_ts = hdr_recv_ts h \<rparr> \<rparr>
     | TopOfBook t \<Rightarrow> st\<lparr> is_last_event_ts := hdr_recv_ts h, is_snapshot_received := True,
         is_book := ob_apply_delta ops (tob_ask_price t) (tob_ask_qty t) Ask New
           (ob_apply_delta ops (tob_bid_price t) (tob_bid_qty t) Bid New (ob_clear ops (is_book st))) \<rparr>
     | _ \<Rightarrow> st)"

text \<open>When the best prices are looked at: at the end of a batch of a ready instrument, and at
  every top-of-book event.\<close>

definition emission_due :: "HotEvent \<Rightarrow> 'b InstrumentState \<Rightarrow> bool" where
  "emission_due e st = (let flags = hdr_flags (ev_header e) in
     case ev_body e of
       BookDelta d \<Rightarrow> flags_contains flags LAST_IN_BATCH \<and>
         (flags_contains flags IS_SNAPSHOT \<or> is_in_snapshot st \<or> is_snapshot_received st)
     | TopOfBook t \<Rightarrow> True
     | _ \<Rightarrow> False)"

lemma event_update_prev:
  "is_prev_bid (event_update ops e st) = is_prev_bid st" "is_prev_ask (event_update ops e st) = is_prev_ask st"
  "emission_due e st \<Longrightarrow> is_last_event_ts (event_update ops e st) = hdr_recv_ts (ev_header e)"
  by (auto simp: event_update_def emission_due_def Let_def split: EventBody.splits)

lemma instr_set_id: "instr_get e slot = Some st \<Longrightarrow> instr_set slot st e = e"
  by (auto simp: instr_get_def instr_set_def split: if_splits)

lemma engine_process_form:
  assumes "addressed e (hdr_instrument_id (ev_header ev))" and "me_active_count e \<le> length (me_instruments e)"
  defines "slot \<equiv> unat (hdr_instrument_id (ev_header ev)) - 1"
  defines "st \<equiv> inst_of e (hdr_instrument_id (ev_header ev))"
  shows "engine_process ops oc ev e =
    (let e1 = instr_set slot (event_update ops ev st) e
     in if emission_due ev st then emit_bbo ops oc slot e1 else Some e1)"
proof -
  have get: "instr_get e slot = Some st"
    using assms(1,2) by (auto simp: instr_get_def slot_def st_def inst_of_def addressed_def)
  have sl: "unat (hdr_instrument_id (ev_header ev)) - Suc 0 = slot" by (simp add: slot_def)
  note facts = assms(1) [unfolded addressed_def] get
  show ?thesis
  proof (cases "ev_body ev")
    case (BookDelta d)
    with facts show ?thesis
      by (cases st)
        (auto simp: engine_process_def process_book_delta_def event_update_def emission_due_def Let_def
          sl)
  next
    case (Trade t)
    with facts show ?thesis
      by (auto simp: engine_process_def process_trade_def event_update_def emission_due_def Let_def
          sl)
  next
    case (TopOfBook t)
    with facts show ?thesis
      by (auto simp: engine_process_def process_top_of_book_def event_update_def emission_due_def Let_def
          sl)
  qed (simp_all add: engine_process_def event_update_def emission_due_def instr_set_id [OF get])
qed

lemma engine_process_other:
  assumes "\<not> addressed e (hdr_instrument_id (ev_header ev))"
  shows "engine_process ops oc ev e = Some e"
  using assms
  by (cases "ev_body ev")
    (auto simp: engine_process_def process_book_delta_def process_trade_def process_top_of_book_def
      addressed_def Let_def)

section \<open>The engine over a book that meets its contract\<close>

definition tob_matches :: "InstrumentId \<Rightarrow> Timestamp \<Rightarrow> (Ticks \<times> Lots) option \<Rightarrow> (Ticks \<times> Lots) option \<Rightarrow>
    TopOfBook \<Rightarrow> bool" where
  "tob_matches iid ts bid ask t \<longleftrightarrow>
     bid = Some (t_bid_price t, t_bid_qty t) \<and> ask = Some (t_ask_price t, t_ask_qty t) \<and>
     t_instrument_id t = iid \<and> t_ts t = ts \<and>
     sint (t_spread t) = sint (t_ask_price t) - sint (t_bid_price t) \<and>
     min (sint (t_bid_price t)) (sint (t_ask_price t)) \<le> sint (t_micro_price t) \<and>
     sint (t_micro_price t) \<le> max (sint (t_bid_price t)) (sint (t_ask_price t))"

definition engine_ok :: "('b \<Rightarrow> bool) \<Rightarrow> 'b MarketStateEngine \<Rightarrow> bool" where
  "engine_ok ok e \<longleftrightarrow> me_active_count e \<le> length (me_instruments e) \<and>
     (\<forall>st \<in> set (me_instruments e). ok (is_book st))"

definition engine_bounded :: "('b \<Rightarrow> ledger) \<Rightarrow> 'b MarketStateEngine \<Rightarrow> bool" where
  "engine_bounded qty e \<longleftrightarrow> (\<forall>st \<in> set (me_instruments e). ledger_bounded (qty (is_book st)))"

definition ledger_of :: "('b \<Rightarrow> ledger) \<Rightarrow> 'b MarketStateEngine \<Rightarrow> InstrumentId \<Rightarrow> ledger" where
  "ledger_of qty e iid = qty (is_book (inst_of e iid))"

text \<open>The outcome of looking at the best prices: the previous prices on record are the new ones, whether
  anything is published or not, and a top of book is published exactly when both sides exist and a price
  moved.\<close>

definition bbo_outcome :: "InstrumentId \<Rightarrow> 'b InstrumentState \<Rightarrow> (Ticks \<times> Lots) option \<Rightarrow>
    (Ticks \<times> Lots) option \<Rightarrow> 'b MarketStateEngine \<Rightarrow> 'b MarketStateEngine \<Rightarrow> bool" where
  "bbo_outcome iid st bid ask e e' \<longleftrightarrow>
     is_prev_bid (inst_of e' iid) = map_option fst bid \<and> is_prev_ask (inst_of e' iid) = map_option fst ask \<and>
     (if bid \<noteq> None \<and> ask \<noteq> None \<and>
         (map_option fst bid \<noteq> is_prev_bid st \<or> map_option fst ask \<noteq> is_prev_ask st)
      then me_tob_changed e' \<and>
           (\<exists>t. me_last_tob e' = Some t \<and> tob_matches iid (is_last_event_ts st) bid ask t)
      else me_tob_changed e' = me_tob_changed e \<and> me_last_tob e' = me_last_tob e)"

context small_tick_book
begin

lemma best_levels_small:
  assumes "inv b" and "ledger_bounded (qty b)"
  shows "is_best_bid (qty b Bid) (Some l) \<Longrightarrow> small_level l"
    and "is_best_ask (qty b Ask) (Some l) \<Longrightarrow> small_level l"
  using assms priced_levels_small [OF assms(1)]
  by (cases l; auto simp: is_best_bid_def is_best_ask_def small_level_def ledger_bounded_def)+

lemma emit_bbo_ok:
  assumes "slot < length (me_instruments e)" and "me_instruments e ! slot = st"
    and inv: "inv (is_book st)" and bounded: "oc \<Longrightarrow> ledger_bounded (qty (is_book st))"
  shows "\<exists>e' b' bid ask. emit_bbo ops oc slot e = Some e' \<and> inv b' \<and> qty b' = qty (is_book st) \<and>
    is_best_bid (qty b' Bid) bid \<and> is_best_ask (qty b' Ask) ask \<and>
    me_instruments e' = (me_instruments e)[slot := st\<lparr> is_book := b', is_prev_bid := map_option fst bid,
      is_prev_ask := map_option fst ask \<rparr>] \<and>
    me_active_count e' = me_active_count e \<and>
    (ledger_bounded (qty (is_book st)) \<longrightarrow>
      (if bid \<noteq> None \<and> ask \<noteq> None \<and>
          (map_option fst bid \<noteq> is_prev_bid st \<or> map_option fst ask \<noteq> is_prev_ask st)
       then me_tob_changed e' \<and>
            (\<exists>t. me_last_tob e' = Some t \<and> tob_matches (of_nat (slot + 1)) (is_last_event_ts st) bid ask t)
       else me_tob_changed e' = me_tob_changed e \<and> me_last_tob e' = me_last_tob e))"
proof -
  obtain bid b1 where bid: "ob_best_bid ops (is_book st) = Some (bid, b1)" "inv b1"
    "qty b1 = qty (is_book st)" "is_best_bid (qty (is_book st) Bid) bid"
    using best_bid_ok [OF inv] by blast
  obtain ask b2 where ask: "ob_best_ask ops b1 = Some (ask, b2)" "inv b2"
    "qty b2 = qty (is_book st)" "is_best_ask (qty (is_book st) Ask) ask"
    using best_ask_ok [OF bid(2)] bid(3) by auto
  have get: "instr_get e slot = Some st" using assms(1,2) by (simp add: instr_get_def)
  let ?same = "map_option fst bid = is_prev_bid st \<and> map_option fst ask = is_prev_ask st"
  let ?st' = "st\<lparr> is_book := b2, is_prev_bid := map_option fst bid, is_prev_ask := map_option fst ask \<rparr>"
  let ?due = "bid \<noteq> None \<and> ask \<noteq> None \<and> (map_option fst bid \<noteq> is_prev_bid st \<or> map_option fst ask \<noteq> is_prev_ask st)"
  have "\<exists>e'. emit_bbo ops oc slot e = Some e' \<and>
    me_instruments e' = (me_instruments e)[slot := ?st'] \<and> me_active_count e' = me_active_count e \<and>
    (ledger_bounded (qty (is_book st)) \<longrightarrow>
      (if ?due then me_tob_changed e' \<and>
            (\<exists>t. me_last_tob e' = Some t \<and> tob_matches (of_nat (slot + 1)) (is_last_event_ts st) bid ask t)
       else me_tob_changed e' = me_tob_changed e \<and> me_last_tob e' = me_last_tob e))"
  proof (cases ?due)
    case False
    with get bid(1) ask(1) show ?thesis
      by (cases st; cases bid; cases ask)
        (auto simp: emit_bbo_def check_bbo_price_change_def Let_def instr_set_def)
  next
    case due: True
    then obtain bp bq ap aq where pq: "bid = Some (bp, bq)" "ask = Some (ap, aq)" by auto
    obtain t where t: "make_tob oc slot (is_last_event_ts st) (bp, bq) (ap, aq) = Some t"
      "ledger_bounded (qty (is_book st)) \<longrightarrow> tob_matches (of_nat (slot + 1)) (is_last_event_ts st) bid ask t"
    proof (cases "ledger_bounded (qty (is_book st))")
      case True
      have "small_level (bp, bq)" "small_level (ap, aq)"
        using best_levels_small [OF inv True] bid(4) ask(4) pq by auto
      then show thesis
        using make_tob_small [of bp bq ap aq oc slot "is_last_event_ts st"] that by (auto simp: tob_matches_def pq)
    next
      case False
      then have "\<not> oc" using bounded by blast
      then show thesis using make_tob_unchecked [of slot "is_last_event_ts st" bp bq ap aq] False that by auto
    qed
    have "\<not> (Some bp = is_prev_bid st \<and> Some ap = is_prev_ask st)" using due pq by simp
    then show ?thesis
      using get bid(1) ask(1) t due unfolding pq
      by (auto simp: emit_bbo_def check_bbo_price_change_def Let_def instr_set_def)
  qed
  then obtain e' where "emit_bbo ops oc slot e = Some e'"
    "me_instruments e' = (me_instruments e)[slot := ?st']" "me_active_count e' = me_active_count e"
    "ledger_bounded (qty (is_book st)) \<longrightarrow>
      (if ?due then me_tob_changed e' \<and>
            (\<exists>t. me_last_tob e' = Some t \<and> tob_matches (of_nat (slot + 1)) (is_last_event_ts st) bid ask t)
       else me_tob_changed e' = me_tob_changed e \<and> me_last_tob e' = me_last_tob e)" by blast
  then show ?thesis using bid(4) ask(2-4)
    by (intro exI [of _ e'] exI [of _ b2] exI [of _ bid] exI [of _ ask] conjI) simp_all
qed

lemma event_update_book:
  assumes "inv (is_book st)" and "iid = hdr_instrument_id (ev_header ev)"
  shows "inv (is_book (event_update ops ev st))"
    and "qty (is_book (event_update ops ev st)) = ledger_event grid iid ev (qty (is_book st))"
  using assms
  by (cases "ev_body ev"; simp add: event_update_def ledger_event_def Let_def apply_inv clear_inv
      apply_qty clear_qty)+

lemma process_ok:
  assumes ok: "engine_ok inv e" and oc: "oc \<Longrightarrow> engine_bounded qty e \<and> event_bounded ev"
  defines "iid \<equiv> hdr_instrument_id (ev_header ev)"
  defines "st \<equiv> event_update ops ev (inst_of e iid)"
  shows "\<exists>e'. engine_process ops oc ev e = Some e' \<and> engine_ok inv e' \<and>
    me_active_count e' = me_active_count e \<and>
    (\<forall>i. addressed e i \<longrightarrow> ledger_of qty e' i = ledger_event grid i ev (ledger_of qty e i)) \<and>
    (\<forall>i. addressed e i \<longrightarrow> i \<noteq> iid \<longrightarrow> inst_of e' i = inst_of e i) \<and>
    (engine_bounded qty e \<and> event_bounded ev \<longrightarrow> engine_bounded qty e' \<and>
      (if addressed e iid \<and> emission_due ev (inst_of e iid)
       then \<exists>bid ask. is_best_bid (ledger_of qty e' iid Bid) bid \<and> is_best_ask (ledger_of qty e' iid Ask) ask \<and>
         bbo_outcome iid st bid ask e e'
       else me_tob_changed e' = me_tob_changed e \<and> me_last_tob e' = me_last_tob e \<and>
         (addressed e iid \<longrightarrow> inst_of e' iid = st)))"
proof (cases "addressed e iid")
  case False
  have "ledger_event grid i ev L = L" if "addressed e i" for i L
    using that False by (auto simp: ledger_event_def iid_def)
  then show ?thesis
    using False ok by (simp add: engine_process_other iid_def)
next
  case True
  let ?slot = "unat iid - 1"
  have len: "me_active_count e \<le> length (me_instruments e)" "?slot < length (me_instruments e)"
    using ok True by (auto simp: engine_ok_def addressed_def)
  have other: "unat i - 1 = ?slot \<longleftrightarrow> i = iid" if "addressed e i" for i
    using that True by (auto simp: addressed_def) (metis One_nat_def Suc_pred word_unat_eq_iff)
  have "inv (is_book (inst_of e iid))" using ok len(2) by (auto simp: engine_ok_def inst_of_def)
  then have inv: "inv (is_book st)" and L: "qty (is_book st) = ledger_event grid iid ev (ledger_of qty e iid)"
    using event_update_book [of "inst_of e iid" iid ev] by (simp_all add: st_def ledger_of_def iid_def)
  have bounded: "ledger_bounded (qty (is_book st))" if "engine_bounded qty e \<and> event_bounded ev"
    unfolding L ledger_of_def using that len(2)
    by (intro ledger_bounded_event) (auto simp: engine_bounded_def inst_of_def)
  define e1 where "e1 = instr_set ?slot st e"
  have form: "engine_process ops oc ev e =
      (if emission_due ev (inst_of e iid) then emit_bbo ops oc ?slot e1 else Some e1)"
    using engine_process_form [of e ev ops oc] True len(1) by (simp add: iid_def st_def e1_def)
  text \<open>Any outcome that only replaces the addressed entry, by one with the new ledger.\<close>
  have frame: "engine_ok inv e' \<and> me_active_count e' = me_active_count e \<and>
      (\<forall>i. addressed e i \<longrightarrow> ledger_of qty e' i = ledger_event grid i ev (ledger_of qty e i)) \<and>
      (\<forall>i. addressed e i \<longrightarrow> i \<noteq> iid \<longrightarrow> inst_of e' i = inst_of e i) \<and> inst_of e' iid = st' \<and>
      (engine_bounded qty e \<and> event_bounded ev \<longrightarrow> engine_bounded qty e')"
    if e': "me_instruments e' = (me_instruments e)[?slot := st']" "me_active_count e' = me_active_count e"
      and st': "inv (is_book st')" "qty (is_book st') = qty (is_book st)" for e' st'
  proof -
    have "engine_ok inv e'"
      using ok e' st' len(1) by (auto simp: engine_ok_def dest!: set_update_subset_insert [THEN subsetD])
    moreover have "engine_bounded qty e'" if "engine_bounded qty e \<and> event_bounded ev"
      using that bounded [OF that] e'(1) st'(2)
      by (auto simp: engine_bounded_def dest!: set_update_subset_insert [THEN subsetD])
    moreover have "ledger_of qty e' i = ledger_event grid i ev (ledger_of qty e i)" if "addressed e i" for i
      using other [OF that] e'(1) st'(2) L len(2)
      by (cases "i = iid") (auto simp: ledger_of_def inst_of_def ledger_event_def iid_def)
    moreover have "inst_of e' i = inst_of e i" if "addressed e i" "i \<noteq> iid" for i
      using other [OF that(1)] that(2) e'(1) by (auto simp: inst_of_def)
    moreover have "inst_of e' iid = st'" using e'(1) len(2) by (simp add: inst_of_def)
    ultimately show ?thesis using e'(2) by blast
  qed
  show ?thesis
  proof (cases "emission_due ev (inst_of e iid)")
    case False
    then show ?thesis
      using form frame [of e1 st] inv True by (simp add: e1_def instr_set_def)
  next
    case due: True
    have at: "?slot < length (me_instruments e1)" "me_instruments e1 ! ?slot = st"
      using len(2) by (simp_all add: e1_def instr_set_def)
    have slot: "of_nat (?slot + 1) = iid" using True by (simp add: addressed_def)
    obtain e' b' bid ask where e': "emit_bbo ops oc ?slot e1 = Some e'" "inv b'" "qty b' = qty (is_book st)"
      "is_best_bid (qty b' Bid) bid" "is_best_ask (qty b' Ask) ask"
      "me_instruments e' = (me_instruments e1)[?slot := st\<lparr> is_book := b', is_prev_bid := map_option fst bid,
        is_prev_ask := map_option fst ask \<rparr>]"
      "me_active_count e' = me_active_count e1"
      and out: "ledger_bounded (qty (is_book st)) \<longrightarrow>
      (if bid \<noteq> None \<and> ask \<noteq> None \<and>
          (map_option fst bid \<noteq> is_prev_bid st \<or> map_option fst ask \<noteq> is_prev_ask st)
       then me_tob_changed e' \<and>
            (\<exists>t. me_last_tob e' = Some t \<and> tob_matches iid (is_last_event_ts st) bid ask t)
       else me_tob_changed e' = me_tob_changed e1 \<and> me_last_tob e' = me_last_tob e1)"
      using emit_bbo_ok [OF at inv, of oc, unfolded slot] bounded oc by blast
    have ins: "me_instruments e' = (me_instruments e)[?slot := st\<lparr> is_book := b', is_prev_bid := map_option fst bid,
        is_prev_ask := map_option fst ask \<rparr>]"
      using e'(6) by (simp add: e1_def instr_set_def)
    have act: "me_active_count e' = me_active_count e" using e'(7) by (simp add: e1_def instr_set_def)
    note fr = frame [OF ins act]
    have "ledger_of qty e' iid = qty b'" using fr e'(2,3) True L by simp
    moreover have "bbo_outcome iid st bid ask e e'" if "engine_bounded qty e \<and> event_bounded ev"
      using out bounded [OF that] fr e'(2,3) by (simp add: bbo_outcome_def e1_def instr_set_def)
    ultimately show ?thesis
      using fr e'(1-5) due True form by auto
  qed
qed

lemma run_ok:
  assumes "engine_ok inv e" and "oc \<Longrightarrow> engine_bounded qty e \<and> list_all event_bounded evs"
  shows "\<exists>e'. engine_run ops oc evs e = Some e' \<and> engine_ok inv e' \<and>
    me_active_count e' = me_active_count e \<and>
    (\<forall>i. addressed e i \<longrightarrow> ledger_of qty e' i = ledger_events grid i evs (ledger_of qty e i))"
  using assms
proof (induction evs arbitrary: e)
  case (Cons ev evs)
  obtain e1 where e1: "engine_process ops oc ev e = Some e1" "engine_ok inv e1"
    "me_active_count e1 = me_active_count e"
    "\<forall>i. addressed e i \<longrightarrow> ledger_of qty e1 i = ledger_event grid i ev (ledger_of qty e i)"
    "oc \<Longrightarrow> engine_bounded qty e1"
    using process_ok [OF Cons.prems(1), of oc ev] Cons.prems(2) by auto
  then show ?case
    using Cons.IH [OF e1(2)] Cons.prems(2) by (auto simp: ledger_events_def addressed_def)
qed (simp add: ledger_events_def)

lemma new_ok:
  assumes "engine_new ops max_n n timeout = Some e"
  shows "engine_ok inv e" and "engine_bounded qty e" and "me_active_count e = n"
    and "addressed e i \<Longrightarrow> ledger_of qty e i = (\<lambda>_ _. 0)"
  using assms
  by (auto simp: engine_new_def engine_ok_def engine_bounded_def instrument_default_def default_inv default_qty
      ledger_of_def inst_of_def addressed_def split: if_splits)

text \<open>The book the engine hands out, and what its queries for the best levels answer.\<close>

lemma engine_book_of:
  assumes "engine_ok inv e" and "addressed e i"
  shows "\<exists>b. engine_book i e = Some (Some b) \<and> inv b \<and> qty b = ledger_of qty e i \<and>
    (\<exists>bid b'. ob_best_bid ops b = Some (bid, b') \<and> is_best_bid (qty b Bid) bid) \<and>
    (\<exists>ask b'. ob_best_ask ops b = Some (ask, b') \<and> is_best_ask (qty b Ask) ask)"
proof -
  let ?b = "is_book (inst_of e i)"
  have "inv ?b" "engine_book i e = Some (Some ?b)"
    using assms by (auto simp: engine_book_def addressed_def engine_ok_def instr_get_def inst_of_def Let_def)
  then show ?thesis using best_bid_ok [of ?b] best_ask_ok [of ?b] by (auto simp: ledger_of_def)
qed

end

section \<open>Properties\<close>

lemmas array_engine = array_book_small_ticks [THEN small_tick_book.process_ok]
  array_book_small_ticks [THEN small_tick_book.run_ok]
  array_book_small_ticks [THEN small_tick_book.new_ok(1)]
  array_book_small_ticks [THEN small_tick_book.new_ok(2)]
  array_book_small_ticks [THEN small_tick_book.new_ok(3)]
  array_book_small_ticks [THEN small_tick_book.new_ok(4)]
  array_book_small_ticks [THEN small_tick_book.engine_book_of]

definition book_describes :: "nat \<Rightarrow> ledger \<Rightarrow> ArrayBook \<Rightarrow> bool" where
  "book_describes N L b \<longleftrightarrow> array_inv N b \<and> array_qty b = L \<and>
     (\<exists>bid b'. array_best_bid b = Some (bid, b') \<and> is_best_bid (L Bid) bid) \<and>
     (\<exists>ask b'. array_best_ask b = Some (ask, b') \<and> is_best_ask (L Ask) ask)"

lemma engine_run_books:
  assumes "N \<le> 65536" and "engine_new (array_book_ops N) max_n n timeout = Some e0"
    and "oc \<Longrightarrow> list_all event_bounded evs"
  shows "\<exists>e. engine_run (array_book_ops N) oc evs e0 = Some e \<and>
    (\<forall>i. 0 < unat i \<and> unat i \<le> n \<longrightarrow>
       (\<exists>b. engine_book i e = Some (Some b) \<and>
            book_describes N (ledger_events (array_grid N) i evs (\<lambda>_ _. 0)) b))"
proof -
  note new = array_engine(3) [OF assms(1,2)] array_engine(4) [OF assms(1,2)] array_engine(5) [OF assms(1,2)]
    array_engine(6) [OF assms(1,2)]
  obtain e where e: "engine_run (array_book_ops N) oc evs e0 = Some e" "engine_ok (array_inv N) e"
    "me_active_count e = n"
    "\<forall>i. addressed e0 i \<longrightarrow> ledger_of array_qty e i = ledger_events (array_grid N) i evs (ledger_of array_qty e0 i)"
    using array_engine(2) [OF assms(1) new(1), of oc evs] assms(3) new(2,3) by auto
  have "\<exists>b. engine_book i e = Some (Some b) \<and>
      book_describes N (ledger_events (array_grid N) i evs (\<lambda>_ _. 0)) b" if "0 < unat i" "unat i \<le> n" for i
    using array_engine(7) [OF assms(1) e(2), of i] e(3,4) new(3,4) that
    by (auto simp: addressed_def book_describes_def array_book_ops_def)
  with e(1) show ?thesis by blast
qed

text \<open>C2. The engine reconstructs the books exactly. Feed any sequence of events, in any interleaving of
  instruments, to a fresh engine over array books of at most 65536 levels. In a build with overflow checks the
  quantities must be at most \<open>2 ^ 46\<close> lots, since the micro price multiplies them with a price in \<open>i64\<close>; without
  the checks they may be anything. No step panics, the book of every registered instrument holds exactly the
  ledger its own events describe, and its best bid and best ask are the highest and the lowest price of that ledger
  with a positive quantity, with their quantities; events of other instruments, of unknown instruments and of
  other kinds leave it untouched.\<close>

theorem engine_books_exact:
  assumes "N \<le> 65536" and "engine_new (array_book_ops N) max_n n timeout = Some e0"
    and "oc \<Longrightarrow> list_all event_bounded evs"
  shows "\<exists>e. engine_run (array_book_ops N) oc evs e0 = Some e \<and>
    (\<forall>i. 0 < unat i \<and> unat i \<le> n \<longrightarrow>
       (\<exists>b. engine_book i e = Some (Some b) \<and> array_inv N b \<and>
            array_qty b = ledger_events (array_grid N) i evs (\<lambda>_ _. 0) \<and>
            (\<exists>bid b'. array_best_bid b = Some (bid, b') \<and>
               is_best_bid (ledger_events (array_grid N) i evs (\<lambda>_ _. 0) Bid) bid) \<and>
            (\<exists>ask b'. array_best_ask b = Some (ask, b') \<and>
               is_best_ask (ledger_events (array_grid N) i evs (\<lambda>_ _. 0) Ask) ask)))"
  using engine_run_books [OF assms] by (simp add: book_describes_def)

theorem engine_books_exact_witness:
  "\<exists>e0 e b b'. engine_new (array_book_ops 3) 2 1 0 = Some e0 \<and>
     engine_run (array_book_ops 3) True
       [event_book_delta 5 1 1 0 IS_SNAPSHOT \<lparr> bd_price = 1, bd_qty = 7, bd_side = Bid, bd_action = New, bd_depth = 0 \<rparr>]
       e0 = Some e \<and> engine_book 1 e = Some (Some b) \<and> array_qty b Bid 1 = 7 \<and> array_best_ask b = Some (None, b')"
proof -
  let ?evs = "[event_book_delta 5 1 1 0 IS_SNAPSHOT
    \<lparr> bd_price = 1, bd_qty = 7, bd_side = Bid, bd_action = New, bd_depth = 0 \<rparr>]"
  let ?L = "ledger_events (array_grid 3) 1 ?evs (\<lambda>_ _. 0)"
  obtain e0 where e0: "engine_new (array_book_ops 3) 2 1 0 = Some e0"
    by (simp add: engine_new_def)
  have "list_all event_bounded ?evs" by (simp add: event_bounded_def event_book_delta_def)
  from engine_books_exact [OF _ e0 this, of True] obtain e b b' ask
    where e: "engine_run (array_book_ops 3) True ?evs e0 = Some e" "engine_book 1 e = Some (Some b)"
      "array_qty b = ?L" "array_best_ask b = Some (ask, b')" "is_best_ask (?L Ask) ask"
    by (auto dest: spec [of _ 1])
  have L: "?L Bid 1 = 7" "?L Ask = (\<lambda>_. 0)"
    by (auto simp: ledger_events_def ledger_event_def event_book_delta_def event_header_def
        array_grid_def ledger_set_def Let_def)
  have "is_best_ask (?L Ask) None" by (simp add: L(2) is_best_ask_def)
  then have "ask = None" using e(5) is_best_ask_unique by blast
  with e0 e(1-4) L(1) show ?thesis by metis
qed

text \<open>C3. A top of book is published exactly when it should be and says what the book says. For
  one event on an engine that meets its invariant, with quantities of at most \<open>2 ^ 46\<close> lots in the books and in
  the event: when the event ends a batch of an instrument whose snapshot is complete, or is a top-of-book event, both
  sides have a best level and one of the two best prices differs from those on record, the published record carries
  the best bid and ask of the ledger after the event, the exact spread, a micro price between the two prices, the
  instrument and the event's time; in every other case nothing is published. Each time the best prices are looked at
  they become the prices on record, so an unchanged top is not published again; at any other event the prices
  on record stay. The other instruments keep their state.\<close>

theorem engine_publishes_exactly:
  assumes "N \<le> 65536" and "engine_ok (array_inv N) e" and "engine_bounded array_qty e" and "event_bounded ev"
    and "iid = hdr_instrument_id (ev_header ev)"
  shows "\<exists>e' bid ask. engine_process (array_book_ops N) oc ev e = Some e' \<and>
    engine_ok (array_inv N) e' \<and> engine_bounded array_qty e' \<and>
    (\<forall>i. addressed e i \<longrightarrow> i \<noteq> iid \<longrightarrow> inst_of e' i = inst_of e i) \<and>
    (addressed e iid \<longrightarrow> ledger_of array_qty e' iid = ledger_event (array_grid N) iid ev (ledger_of array_qty e iid)) \<and>
    (if addressed e iid \<and> emission_due ev (inst_of e iid)
     then is_best_bid (ledger_of array_qty e' iid Bid) bid \<and>
          is_best_ask (ledger_of array_qty e' iid Ask) ask \<and>
          is_prev_bid (inst_of e' iid) = map_option fst bid \<and> is_prev_ask (inst_of e' iid) = map_option fst ask \<and>
          (if bid \<noteq> None \<and> ask \<noteq> None \<and> (map_option fst bid \<noteq> is_prev_bid (inst_of e iid) \<or>
                map_option fst ask \<noteq> is_prev_ask (inst_of e iid))
           then me_tob_changed e' \<and>
             (\<exists>t. me_last_tob e' = Some t \<and> tob_matches iid (hdr_recv_ts (ev_header ev)) bid ask t)
           else me_tob_changed e' = me_tob_changed e \<and> me_last_tob e' = me_last_tob e)
     else me_tob_changed e' = me_tob_changed e \<and> me_last_tob e' = me_last_tob e \<and>
       (addressed e iid \<longrightarrow> is_prev_bid (inst_of e' iid) = is_prev_bid (inst_of e iid) \<and>
          is_prev_ask (inst_of e' iid) = is_prev_ask (inst_of e iid)))"
proof -
  note prev = event_update_prev [where ops = "array_book_ops N" and e = ev and st = "inst_of e iid"]
  obtain e' where e': "engine_process (array_book_ops N) oc ev e = Some e'" "engine_ok (array_inv N) e'"
    "engine_bounded array_qty e'" "\<forall>i. addressed e i \<longrightarrow> i \<noteq> iid \<longrightarrow> inst_of e' i = inst_of e i"
    "addressed e iid \<longrightarrow> ledger_of array_qty e' iid = ledger_event (array_grid N) iid ev (ledger_of array_qty e iid)"
    and out: "if addressed e iid \<and> emission_due ev (inst_of e iid)
       then \<exists>bid ask. is_best_bid (ledger_of array_qty e' iid Bid) bid \<and> is_best_ask (ledger_of array_qty e' iid Ask) ask \<and>
         bbo_outcome iid (event_update (array_book_ops N) ev (inst_of e iid)) bid ask e e'
       else me_tob_changed e' = me_tob_changed e \<and> me_last_tob e' = me_last_tob e \<and>
         (addressed e iid \<longrightarrow> inst_of e' iid = event_update (array_book_ops N) ev (inst_of e iid))"
    using array_engine(1) [OF assms(1,2), of oc ev] assms(3-5) by blast
  show ?thesis
  proof (cases "addressed e iid \<and> emission_due ev (inst_of e iid)")
    case True
    with out obtain bid ask where "is_best_bid (ledger_of array_qty e' iid Bid) bid"
      "is_best_ask (ledger_of array_qty e' iid Ask) ask"
      "bbo_outcome iid (event_update (array_book_ops N) ev (inst_of e iid)) bid ask e e'" by auto
    then show ?thesis
      using e' unfolding bbo_outcome_def prev(1,2) prev(3) [OF conjunct2 [OF True]] if_P [OF True] by blast
  next
    case False
    then show ?thesis using e' out prev by (intro exI [of _ e']) auto
  qed
qed

theorem engine_publishes_exactly_witness:
  "\<exists>e0 e t. engine_new (array_book_ops 8) 1 1 0 = Some e0 \<and>
     engine_process (array_book_ops 8) True
       (event_top_of_book 5 1 1 0 0 \<lparr> tob_bid_price = 3, tob_bid_qty = 4, tob_ask_price = 5, tob_ask_qty = 6 \<rparr>)
       e0 = Some e \<and> me_last_tob e = Some t \<and> t_bid_price t = 3 \<and> t_ask_qty t = 6 \<and>
     is_prev_bid (inst_of e 1) = Some 3 \<and> is_prev_ask (inst_of e 1) = Some 5"
proof -
  let ?ev = "event_top_of_book 5 1 1 0 0
    \<lparr> tob_bid_price = 3, tob_bid_qty = 4, tob_ask_price = 5, tob_ask_qty = 6 \<rparr>"
  let ?N = "8 :: nat"
  let ?L = "ledger_set (ledger_set (\<lambda>_ _. 0) Bid 3 4) Ask 5 6"
  obtain e0 where e0: "engine_new (array_book_ops ?N) 1 1 0 = Some e0"
    by (simp add: engine_new_def)
  have N: "?N \<le> 65536" by simp
  note new = array_engine(3) [OF N e0] array_engine(4) [OF N e0]
  have a: "addressed e0 1" "emission_due ?ev (inst_of e0 1)" "event_bounded ?ev"
    "1 = hdr_instrument_id (ev_header ?ev)" "is_prev_bid (inst_of e0 1) = None"
    using e0 by (auto simp: addressed_def engine_new_def emission_due_def event_top_of_book_def
        event_bounded_def event_header_def inst_of_def instrument_default_def Let_def)
  obtain e bid ask where e: "engine_process (array_book_ops ?N) True ?ev e0 = Some e"
    "ledger_of array_qty e 1 = ledger_event (array_grid ?N) 1 ?ev (ledger_of array_qty e0 1)"
    "is_best_bid (ledger_of array_qty e 1 Bid) bid" "is_best_ask (ledger_of array_qty e 1 Ask) ask"
    "is_prev_bid (inst_of e 1) = map_option fst bid" "is_prev_ask (inst_of e 1) = map_option fst ask"
    "if bid \<noteq> None \<and> ask \<noteq> None \<and> (map_option fst bid \<noteq> is_prev_bid (inst_of e0 1) \<or>
          map_option fst ask \<noteq> is_prev_ask (inst_of e0 1))
     then me_tob_changed e \<and> (\<exists>t. me_last_tob e = Some t \<and> tob_matches 1 (hdr_recv_ts (ev_header ?ev)) bid ask t)
     else me_tob_changed e = me_tob_changed e0 \<and> me_last_tob e = me_last_tob e0"
    using engine_publishes_exactly [OF N new a(3,4), of True, unfolded if_P [OF conjI [OF a(1,2)]]] a(1) by blast
  have L: "ledger_of array_qty e 1 = ?L"
    using e(2) by (simp add: ledger_event_def event_top_of_book_def event_header_def array_grid_def Let_def)
  have "is_best_bid (?L Bid) (Some (3, 4))" "is_best_ask (?L Ask) (Some (5, 6))"
    by (auto simp: is_best_bid_def is_best_ask_def ledger_set_def)
  then have "bid = Some (3, 4)" "ask = Some (5, 6)"
    using e(3,4) L is_best_bid_unique is_best_ask_unique by metis+
  then show ?thesis
    using e0 e(1,5-7) a(5) by (auto simp: tob_matches_def)
qed

end
