(* ===== verification/Float64.thy ===== *)
theory Float64
  imports Mantis_Prelude Complex_Main
begin

text \<open>
  The \<open>f64\<close> arithmetic the source uses, executable: IEEE 754 binary64 with rounding to nearest, ties to
  even, over the rationals. A finite value other than the negative zero is the rational it denotes. The
  casts follow Rust: from an integer to the nearest value, to an integer by truncation with saturation,
  where a NaN gives 0. Functions of the \<open>libm\<close> crate are arguments of the definitions that call them.
\<close>

section \<open>Rounding\<close>

fun ilog2 :: "nat \<Rightarrow> nat" where
  "ilog2 n = (if n < 2 then 0 else Suc (ilog2 (n div 2)))"

declare ilog2.simps [simp del]

text \<open>The exponent of a positive rational: the floor of its binary logarithm.\<close>

definition f64_exponent :: "rat \<Rightarrow> int" where
  "f64_exponent r = (let (p, q) = quotient_of r; e = int (ilog2 (nat p)) - int (ilog2 (nat q))
     in if 2 powi e \<le> r then e else e - 1)"

text \<open>The distance of neighbouring values around \<open>r\<close>: 53 significant bits, exponents from -1022.\<close>

definition f64_ulp :: "rat \<Rightarrow> rat" where
  "f64_ulp r = 2 powi (max (f64_exponent \<bar>r\<bar>) (- 1022) - 52)"

definition round_half_even :: "rat \<Rightarrow> int" where
  "round_half_even x = (let f = \<lfloor>x\<rfloor>; d = x - of_int f
     in if d < 1 / 2 then f else if d > 1 / 2 then f + 1 else if even f then f else f + 1)"

definition f64_rnd :: "rat \<Rightarrow> rat" where
  "f64_rnd r = (if r = 0 then 0 else of_int (round_half_even (r / f64_ulp r)) * f64_ulp r)"

section \<open>Values and operations\<close>

datatype f64 = NaN | Inf bool | NegZero | Fin rat

definition f64_val :: "f64 \<Rightarrow> rat" where
  "f64_val x = (case x of Fin r \<Rightarrow> r | _ \<Rightarrow> 0)"

definition f64_neg_sign :: "f64 \<Rightarrow> bool" where
  "f64_neg_sign x = (case x of NaN \<Rightarrow> False | Inf s \<Rightarrow> s | NegZero \<Rightarrow> True | Fin r \<Rightarrow> r < 0)"

text \<open>The value nearest to a rational; a result that rounds to zero has the sign \<open>s\<close>.\<close>

definition f64_round :: "bool \<Rightarrow> rat \<Rightarrow> f64" where
  "f64_round s r = (let q = f64_rnd r
     in if q = 0 then (if s then NegZero else Fin 0) else if \<bar>q\<bar> \<ge> 2 ^ 1024 then Inf (q < 0) else Fin q)"

definition f64_neg :: "f64 \<Rightarrow> f64" where
  "f64_neg x = (case x of NaN \<Rightarrow> NaN | Inf s \<Rightarrow> Inf (\<not> s) | NegZero \<Rightarrow> Fin 0
     | Fin r \<Rightarrow> if r = 0 then NegZero else Fin (- r))"

definition f64_add :: "f64 \<Rightarrow> f64 \<Rightarrow> f64" where
  "f64_add x y = (case (x, y) of
      (NaN, _) \<Rightarrow> NaN | (_, NaN) \<Rightarrow> NaN
    | (Inf s, Inf t) \<Rightarrow> if s = t then Inf s else NaN
    | (Inf s, _) \<Rightarrow> Inf s | (_, Inf t) \<Rightarrow> Inf t
    | (NegZero, NegZero) \<Rightarrow> NegZero
    | _ \<Rightarrow> f64_round False (f64_val x + f64_val y))"

definition f64_sub :: "f64 \<Rightarrow> f64 \<Rightarrow> f64" where
  "f64_sub x y = f64_add x (f64_neg y)"

definition f64_mul :: "f64 \<Rightarrow> f64 \<Rightarrow> f64" where
  "f64_mul x y = (let s = (f64_neg_sign x \<noteq> f64_neg_sign y) in case (x, y) of
      (NaN, _) \<Rightarrow> NaN | (_, NaN) \<Rightarrow> NaN
    | (Inf _, Inf _) \<Rightarrow> Inf s
    | (Inf _, _) \<Rightarrow> if f64_val y = 0 then NaN else Inf s
    | (_, Inf _) \<Rightarrow> if f64_val x = 0 then NaN else Inf s
    | _ \<Rightarrow> f64_round s (f64_val x * f64_val y))"

definition f64_div :: "f64 \<Rightarrow> f64 \<Rightarrow> f64" where
  "f64_div x y = (let s = (f64_neg_sign x \<noteq> f64_neg_sign y) in case (x, y) of
      (NaN, _) \<Rightarrow> NaN | (_, NaN) \<Rightarrow> NaN
    | (Inf _, Inf _) \<Rightarrow> NaN
    | (Inf _, _) \<Rightarrow> Inf s
    | (_, Inf _) \<Rightarrow> if s then NegZero else Fin 0
    | _ \<Rightarrow> if f64_val y = 0 then (if f64_val x = 0 then NaN else Inf s)
            else f64_round s (f64_val x / f64_val y))"

definition f64_lt :: "f64 \<Rightarrow> f64 \<Rightarrow> bool" where
  "f64_lt x y = (case (x, y) of
      (NaN, _) \<Rightarrow> False | (_, NaN) \<Rightarrow> False
    | (Inf s, Inf t) \<Rightarrow> s \<and> \<not> t | (Inf s, _) \<Rightarrow> s | (_, Inf t) \<Rightarrow> \<not> t
    | _ \<Rightarrow> f64_val x < f64_val y)"

definition f64_le :: "f64 \<Rightarrow> f64 \<Rightarrow> bool" where
  "f64_le x y = (case (x, y) of
      (NaN, _) \<Rightarrow> False | (_, NaN) \<Rightarrow> False
    | (Inf s, Inf t) \<Rightarrow> s \<or> \<not> t | (Inf s, _) \<Rightarrow> s | (_, Inf t) \<Rightarrow> \<not> t
    | _ \<Rightarrow> f64_val x \<le> f64_val y)"

definition f64_eq :: "f64 \<Rightarrow> f64 \<Rightarrow> bool" where
  "f64_eq x y = (f64_le x y \<and> f64_le y x)"

text \<open>\<open>f64::max\<close> ignores a NaN.\<close>

definition f64_max :: "f64 \<Rightarrow> f64 \<Rightarrow> f64" where
  "f64_max x y = (if x = NaN then y else if y = NaN then x else if f64_lt x y then y else x)"

definition f64_of_int :: "int \<Rightarrow> f64" where
  "f64_of_int n = f64_round False (of_int n)"

definition f64_trunc :: "rat \<Rightarrow> int" where
  "f64_trunc r = (if r < 0 then \<lceil>r\<rceil> else \<lfloor>r\<rfloor>)"

text \<open>\<open>as i64\<close>, \<open>as u64\<close> and \<open>as usize\<close>, as integers in the range of the target.\<close>

definition f64_clamp :: "int \<Rightarrow> int \<Rightarrow> f64 \<Rightarrow> int" where
  "f64_clamp lo hi x = (case x of NaN \<Rightarrow> 0 | Inf s \<Rightarrow> if s then lo else hi
     | _ \<Rightarrow> max lo (min hi (f64_trunc (f64_val x))))"

definition f64_to_i64 :: "f64 \<Rightarrow> i64" where
  "f64_to_i64 x = word_of_int (f64_clamp (- (2 ^ 63)) (2 ^ 63 - 1) x)"

definition f64_to_u64 :: "f64 \<Rightarrow> u64" where
  "f64_to_u64 x = word_of_int (f64_clamp 0 (2 ^ 64 - 1) x)"

section \<open>The rounding function\<close>

lemma ilog2_bounds: "0 < n \<Longrightarrow> 2 ^ ilog2 n \<le> n \<and> n < 2 ^ Suc (ilog2 n)"
proof (induction n rule: ilog2.induct)
  case (1 n)
  show ?case
  proof (cases "n < 2")
    case True
    with 1 show ?thesis by (simp add: ilog2.simps [of n])
  next
    case False
    then have "0 < n div 2" by auto
    with 1 False have "2 ^ ilog2 (n div 2) \<le> n div 2" "n div 2 < 2 ^ Suc (ilog2 (n div 2))" by auto
    then have "2 * 2 ^ ilog2 (n div 2) \<le> n" "n < 2 * 2 ^ Suc (ilog2 (n div 2))" by linarith+
    with False show ?thesis by (simp add: ilog2.simps [of n])
  qed
qed

lemma powi_2_pos [simp]: "0 < (2 :: rat) powi e"
  by (simp add: zero_less_power_int)

lemma powi_2_add: "(2 :: rat) powi (a + b) = 2 powi a * 2 powi b"
  by (simp add: power_int_add)

lemma powi_2_mono: "a \<le> b \<Longrightarrow> (2 :: rat) powi a \<le> 2 powi b"
  by (rule power_int_increasing) auto

lemma f64_exponent_bounds:
  assumes "0 < r"
  shows "2 powi f64_exponent r \<le> r \<and> r < 2 powi (f64_exponent r + 1)"
proof -
  obtain p q where pq: "quotient_of r = (p, q)" by (cases "quotient_of r")
  have q: "0 < q" using quotient_of_denom_pos [OF pq] .
  have r: "r = of_int p / of_int q" using quotient_of_div [OF pq] .
  then have p: "0 < p" using assms q by (simp add: zero_less_divide_iff)
  let ?a = "ilog2 (nat p)" and ?b = "ilog2 (nat q)"
  let ?e = "int ?a - int ?b"
  have int_bounds: "2 ^ ilog2 (nat n) \<le> rat_of_int n \<and> rat_of_int n < 2 ^ Suc (ilog2 (nat n))" if "0 < n" for n
  proof -
    have "2 ^ ilog2 (nat n) \<le> n" "n < 2 ^ Suc (ilog2 (nat n))"
      using ilog2_bounds [of "nat n"] that by (simp_all add: le_nat_iff nat_less_iff)
    then have "rat_of_int (2 ^ ilog2 (nat n)) \<le> of_int n" "rat_of_int n < of_int (2 ^ Suc (ilog2 (nat n)))"
      by (simp_all only: of_int_le_iff of_int_less_iff)
    then show ?thesis by simp
  qed
  have "r < 2 ^ Suc ?a / 2 ^ ?b" unfolding r using int_bounds [OF p] int_bounds [OF q] p by (intro frac_less) auto
  also have "\<dots> = 2 powi (?e + 1)" by (simp add: power_int_add power_int_diff)
  finally have up: "r < 2 powi (?e + 1)" .
  have "2 powi (?e - 1) = (2 :: rat) ^ ?a / 2 ^ Suc ?b" by (simp add: power_int_diff)
  also have "\<dots> \<le> r" unfolding r using int_bounds [OF p] int_bounds [OF q] p q by (intro frac_le) auto
  finally have low: "2 powi (?e - 1) \<le> r" .
  show ?thesis using up low by (auto simp: f64_exponent_def pq Let_def)
qed

lemma round_half_even_of_int [simp]: "round_half_even (of_int n) = n"
  by (simp add: round_half_even_def)

lemma round_half_even_mono:
  assumes "x \<le> y"
  shows "round_half_even x \<le> round_half_even y"
proof (cases "\<lfloor>x\<rfloor> = \<lfloor>y\<rfloor>")
  case True
  with assms show ?thesis by (auto simp: round_half_even_def Let_def)
next
  case False
  then have "\<lfloor>x\<rfloor> < \<lfloor>y\<rfloor>" using floor_mono [OF assms] by simp
  then show ?thesis by (auto simp: round_half_even_def Let_def)
qed

lemma round_half_even_between:
  "of_int a \<le> x \<Longrightarrow> a \<le> round_half_even x" "x \<le> of_int b \<Longrightarrow> round_half_even x \<le> b"
  using round_half_even_mono [of "of_int a" x] round_half_even_mono [of x "of_int b"] by simp_all

lemma f64_ulp_pos [simp]: "0 < f64_ulp r" "f64_ulp r \<noteq> 0"
  using powi_2_pos [of "max (f64_exponent \<bar>r\<bar>) (- 1022) - 52"] by (simp_all add: f64_ulp_def less_imp_neq [symmetric])

lemma f64_rnd_0 [simp]: "f64_rnd 0 = 0"
  by (simp add: f64_rnd_def)

text \<open>Numbers with 53 significant bits and exponents from -1074 are left alone.\<close>

definition representable :: "rat \<Rightarrow> bool" where
  "representable r \<longleftrightarrow> (\<exists>m e. \<bar>m\<bar> \<le> 2 ^ 53 \<and> - 1074 \<le> e \<and> r = of_int m * 2 powi e)"

lemma f64_exponent_unique:
  assumes "0 < r" "2 powi e \<le> r" "r < 2 powi (e + 1)"
  shows "f64_exponent r = e"
proof -
  note b = f64_exponent_bounds [OF assms(1)]
  have "\<not> f64_exponent r + 1 \<le> e" using powi_2_mono [of "f64_exponent r + 1" e] b assms(2) by linarith
  moreover have "\<not> e + 1 \<le> f64_exponent r" using powi_2_mono [of "e + 1" "f64_exponent r"] b assms(3) by linarith
  ultimately show ?thesis by linarith
qed

lemma f64_exponent_mono: "0 < x \<Longrightarrow> x \<le> y \<Longrightarrow> f64_exponent x \<le> f64_exponent y"
  using f64_exponent_bounds [of x] f64_exponent_bounds [of y] powi_2_mono [of "f64_exponent y + 1" "f64_exponent x"]
  by (rule_tac ccontr) (auto simp: not_le)

lemma round_half_even_neg: "round_half_even (- x) = - round_half_even x"
proof (cases "x \<in> \<int>")
  case True
  then obtain n where "x = of_int n" by (auto elim: Ints_cases)
  then show ?thesis by (metis of_int_minus round_half_even_of_int)
next
  case False
  then have "x \<noteq> of_int \<lfloor>x\<rfloor>" by (metis Ints_of_int)
  then have fl: "\<lfloor>- x\<rfloor> = - \<lfloor>x\<rfloor> - 1" by (simp add: floor_minus ceiling_altdef)
  then have "even \<lfloor>- x\<rfloor> \<longleftrightarrow> odd \<lfloor>x\<rfloor>" by simp
  with fl show ?thesis by (auto simp: round_half_even_def Let_def field_simps)
qed

lemma f64_rnd_neg: "f64_rnd (- x) = - f64_rnd x"
  by (simp add: f64_rnd_def f64_ulp_def round_half_even_neg)

text \<open>The binade of a positive number: rounding stays inside it.\<close>

definition binade :: "rat \<Rightarrow> int" where
  "binade r = max (f64_exponent \<bar>r\<bar>) (- 1022)"

lemma f64_ulp_binade: "f64_ulp r = 2 powi (binade r - 52)"
  by (simp add: f64_ulp_def binade_def)

lemma binade_upper: "0 < x \<Longrightarrow> x < 2 powi (binade x + 1)"
  using f64_exponent_bounds [of x] powi_2_mono [of "f64_exponent x + 1" "binade x + 1"]
  by (auto simp: binade_def)

lemma binade_lower: "0 < x \<Longrightarrow> - 1022 < binade x \<Longrightarrow> 2 powi binade x \<le> x"
  using f64_exponent_bounds [of x] by (auto simp: binade_def max_def split: if_splits)

lemma ulp_times: "of_int (2 ^ k) * f64_ulp r = 2 powi (binade r + int k - 52)"
proof -
  have "(2 :: rat) powi (binade r + int k - 52) = 2 powi (binade r - 52 + int k)" by (simp add: algebra_simps)
  also have "\<dots> = 2 powi (binade r - 52) * 2 ^ k" by (simp add: powi_2_add)
  finally show ?thesis by (simp add: f64_ulp_binade mult.commute)
qed

lemma f64_rnd_upper: "0 < x \<Longrightarrow> f64_rnd x \<le> 2 powi (binade x + 1)"
proof -
  assume x: "0 < x"
  have U: "2 powi (binade x + 1) = of_int (2 ^ 53) * f64_ulp x" using ulp_times [of 53 x] by (simp add: add.commute)
  have "x / f64_ulp x \<le> of_int (2 ^ 53)"
    using binade_upper [OF x] unfolding U by (simp add: divide_le_eq less_imp_le)
  then have "round_half_even (x / f64_ulp x) \<le> 2 ^ 53" by (rule round_half_even_between)
  then have "rat_of_int (round_half_even (x / f64_ulp x)) \<le> of_int (2 ^ 53)" by (simp only: of_int_le_iff)
  then show ?thesis unfolding U using x by (simp add: f64_rnd_def mult_right_mono less_imp_le)
qed

lemma f64_rnd_lower: "0 < x \<Longrightarrow> - 1022 < binade x \<Longrightarrow> 2 powi binade x \<le> f64_rnd x"
proof -
  assume x: "0 < x" "- 1022 < binade x"
  have U: "2 powi binade x = of_int (2 ^ 52) * f64_ulp x" using ulp_times [of 52 x] by simp
  have "of_int (2 ^ 52) \<le> x / f64_ulp x"
    using binade_lower [OF x] unfolding U by (simp add: le_divide_eq)
  then have "2 ^ 52 \<le> round_half_even (x / f64_ulp x)" by (rule round_half_even_between)
  then have "rat_of_int (2 ^ 52) \<le> of_int (round_half_even (x / f64_ulp x))" by (simp only: of_int_le_iff)
  then show ?thesis unfolding U using x by (simp add: f64_rnd_def mult_right_mono less_imp_le)
qed

lemma f64_rnd_mono_pos:
  assumes "0 < x" "x \<le> y"
  shows "f64_rnd x \<le> f64_rnd y"
proof (cases "binade x = binade y")
  case True
  then have ulp: "f64_ulp x = f64_ulp y" by (simp add: f64_ulp_binade)
  have "x / f64_ulp y \<le> y / f64_ulp y" using assms(2) by (simp add: divide_right_mono less_imp_le)
  then have "rat_of_int (round_half_even (x / f64_ulp y)) \<le> of_int (round_half_even (y / f64_ulp y))"
    by (simp add: round_half_even_mono)
  then show ?thesis using assms by (simp add: f64_rnd_def ulp mult_right_mono less_imp_le)
next
  case False
  have "binade x \<le> binade y" using f64_exponent_mono [OF assms] assms by (auto simp: binade_def)
  with False have less: "binade x + 1 \<le> binade y" by linarith
  moreover have "- 1022 \<le> binade x" by (simp add: binade_def)
  ultimately have "2 powi binade y \<le> f64_rnd y" using assms by (intro f64_rnd_lower) auto
  with f64_rnd_upper [OF assms(1)] powi_2_mono [OF less] show ?thesis by linarith
qed

lemma f64_rnd_nonneg: "0 \<le> x \<Longrightarrow> 0 \<le> f64_rnd x"
proof (cases "x = 0")
  case False
  assume "0 \<le> x"
  then have "of_int 0 \<le> x / f64_ulp x" by (simp add: less_imp_le)
  then have "0 \<le> round_half_even (x / f64_ulp x)" by (rule round_half_even_between)
  then show ?thesis by (simp add: f64_rnd_def less_imp_le)
qed simp

text \<open>Rounding is monotone.\<close>

lemma f64_rnd_mono: "x \<le> y \<Longrightarrow> f64_rnd x \<le> f64_rnd y"
proof -
  assume le: "x \<le> y"
  consider "0 < x" | "x \<le> 0" "0 \<le> y" | "y < 0" by linarith
  then show ?thesis
  proof cases
    case 1
    then show ?thesis using le by (rule f64_rnd_mono_pos)
  next
    case 2
    then show ?thesis using f64_rnd_nonneg [of "- x"] f64_rnd_nonneg [of y] by (simp add: f64_rnd_neg)
  next
    case 3
    then show ?thesis using f64_rnd_mono_pos [of "- y" "- x"] le by (simp add: f64_rnd_neg)
  qed
qed

text \<open>A representable number rounds to itself.\<close>

lemma multiple_of_ulp:
  assumes "\<bar>m\<bar> < 2 ^ 53" "- 1074 \<le> e" "r = of_int m * 2 powi e"
  shows "\<exists>n. r = of_int n * f64_ulp r"
proof (cases "m = 0")
  case False
  have "\<bar>m\<bar> < 2 ^ 53 \<Longrightarrow> rat_of_int \<bar>m\<bar> < of_int (2 ^ 53)" by (simp only: of_int_less_iff)
  then have "rat_of_int \<bar>m\<bar> < 2 powi 53" using assms(1) by simp
  then have "\<bar>r\<bar> < 2 powi 53 * 2 powi e" by (simp add: assms(3) abs_mult)
  also have "\<dots> = 2 powi (53 + e)" by (simp only: powi_2_add)
  finally have up: "\<bar>r\<bar> < 2 powi (53 + e)" .
  have "0 < \<bar>r\<bar>" using False by (simp add: assms(3))
  then have "\<not> 53 + e \<le> f64_exponent \<bar>r\<bar>"
    using f64_exponent_bounds [of "\<bar>r\<bar>"] powi_2_mono [of "53 + e" "f64_exponent \<bar>r\<bar>"] up by linarith
  then have "binade r - 52 \<le> e" using assms(2) by (simp add: binade_def)
  then have "e = int (nat (e - (binade r - 52))) + (binade r - 52)" by simp
  then have "2 powi e = (2 :: rat) ^ nat (e - (binade r - 52)) * f64_ulp r"
    by (metis f64_ulp_binade power_int_of_nat powi_2_add)
  then have "r = of_int (m * 2 ^ nat (e - (binade r - 52))) * f64_ulp r" by (simp add: assms(3))
  then show ?thesis by blast
qed (use assms in simp)

lemma f64_rnd_representable: "representable r \<Longrightarrow> f64_rnd r = r"
proof -
  assume "representable r"
  then obtain m e where me: "\<bar>m\<bar> \<le> 2 ^ 53" "- 1074 \<le> e" "r = of_int m * 2 powi e" by (auto simp: representable_def)
  have "\<exists>n. r = of_int n * f64_ulp r"
  proof (cases "\<bar>m\<bar> = 2 ^ 53")
    case True
    then have "m = sgn m * 2 ^ 53" by (metis mult.commute abs_mult_sgn)
    then have "r = of_int (sgn m) * 2 powi (53 + e)" by (metis me(3) mult.assoc of_int_mult of_int_numeral of_int_power power_int_numeral powi_2_add)
    moreover have "\<bar>sgn m\<bar> < 2 ^ 53" by (simp add: abs_sgn_eq)
    ultimately show ?thesis using me(2) by (intro multiple_of_ulp [of "sgn m" "53 + e"]) auto
  next
    case False
    then show ?thesis using me by (intro multiple_of_ulp [of m e]) auto
  qed
  then obtain n where n: "r = of_int n * f64_ulp r" by blast
  then have "r / f64_ulp r = of_int n" by (simp add: divide_eq_eq)
  then show ?thesis using n by (simp add: f64_rnd_def)
qed

lemma representable_rnd: "representable (f64_rnd r)"
proof (cases "r = 0")
  case True
  then show ?thesis by (auto simp: representable_def intro!: exI [of _ "0 :: int"])
next
  case False
  let ?n = "round_half_even (r / f64_ulp r)"
  have "\<bar>f64_rnd r\<bar> = f64_rnd \<bar>r\<bar>"
    using f64_rnd_nonneg [of r] f64_rnd_nonneg [of "- r"] by (cases "0 \<le> r") (auto simp: f64_rnd_neg)
  also have "\<dots> \<le> 2 powi (binade r + 1)" using f64_rnd_upper [of "\<bar>r\<bar>"] False by (simp add: binade_def)
  also have "\<dots> = of_int (2 ^ 53) * f64_ulp r" using ulp_times [of 53 r] by (simp add: add.commute)
  finally have "of_int \<bar>?n\<bar> * f64_ulp r \<le> of_int (2 ^ 53) * f64_ulp r"
    using False by (simp add: f64_rnd_def abs_mult less_imp_le)
  then have "\<bar>?n\<bar> \<le> 2 ^ 53" by (simp only: mult_le_cancel_right_pos f64_ulp_pos of_int_le_iff)
  moreover have "- 1074 \<le> binade r - 52" by (simp add: binade_def)
  moreover have "f64_rnd r = of_int ?n * 2 powi (binade r - 52)" using False by (simp add: f64_rnd_def f64_ulp_binade)
  ultimately show ?thesis unfolding representable_def by blast
qed

lemma f64_rnd_idem [simp]: "f64_rnd (f64_rnd r) = f64_rnd r"
  by (simp add: f64_rnd_representable representable_rnd)

lemma representable_int: "\<bar>n\<bar> \<le> 2 ^ 53 \<Longrightarrow> representable (of_int n)"
  unfolding representable_def by (rule exI [of _ n], rule exI [of _ 0]) simp

lemma representable_double: "representable r \<Longrightarrow> representable (2 * r)"
proof -
  assume "representable r"
  then obtain m e where "\<bar>m\<bar> \<le> 2 ^ 53" "- 1074 \<le> e" "r = of_int m * 2 powi e" by (auto simp: representable_def)
  moreover have "2 * r = of_int m * 2 powi (e + 1)" using \<open>r = _\<close> by (simp add: powi_2_add)
  ultimately show ?thesis unfolding representable_def by (metis add.commute add_increasing zero_le_one)
qed

section \<open>Bounds on results\<close>

definition f64_finite :: "f64 \<Rightarrow> bool" where
  "f64_finite x \<longleftrightarrow> x = NegZero \<or> (\<exists>r. x = Fin r)"

text \<open>The values a computation can produce: finite ones are representable and below the overflow threshold.\<close>

definition f64_ok :: "f64 \<Rightarrow> bool" where
  "f64_ok x \<longleftrightarrow> representable (f64_val x) \<and> \<bar>f64_val x\<bar> < 2 ^ 1024"

definition f64_between :: "rat \<Rightarrow> rat \<Rightarrow> f64 \<Rightarrow> bool" where
  "f64_between a b x \<longleftrightarrow> f64_finite x \<and> a \<le> f64_val x \<and> f64_val x \<le> b"

lemma f64_val_simps [simp]: "f64_val (Fin r) = r" "f64_val NegZero = 0" "f64_val NaN = 0" "f64_val (Inf s) = 0"
  by (simp_all add: f64_val_def)

lemma f64_finite_simps [simp]: "f64_finite (Fin r)" "f64_finite NegZero" "\<not> f64_finite NaN" "\<not> f64_finite (Inf s)"
  by (simp_all add: f64_finite_def)

lemma representable_0 [simp]: "representable 0"
  using representable_int [of 0] by simp

lemma representable_1 [simp]: "representable 1"
  using representable_int [of 1] by simp

lemma f64_round_ok: "f64_ok (f64_round s r)"
  by (auto simp: f64_ok_def f64_round_def Let_def representable_rnd not_le)

lemma f64_round_between:
  assumes "a \<le> r" "r \<le> b" "representable a" "representable b" "\<bar>a\<bar> < 2 ^ 1024" "\<bar>b\<bar> < 2 ^ 1024"
  shows "f64_between a b (f64_round s r)"
proof -
  have rnd: "a \<le> f64_rnd r" "f64_rnd r \<le> b"
    using f64_rnd_mono [OF assms(1)] f64_rnd_mono [OF assms(2)] assms(3,4) by (simp_all add: f64_rnd_representable)
  then have "\<bar>f64_rnd r\<bar> < 2 ^ 1024" using assms(5,6) by linarith
  with rnd show ?thesis by (auto simp: f64_between_def f64_round_def Let_def not_le)
qed

lemma less_2_1024: "x \<le> 2 ^ 53 \<Longrightarrow> (x :: rat) < 2 ^ 1024"
  by (erule order_le_less_trans) (rule power_strict_increasing, simp_all)

lemma less_1024 [simp]: "(0 :: rat) < 2 ^ 1024" "(1 :: rat) < 2 ^ 1024"
  by (rule less_2_1024, simp)+

lemma f64_of_int_exact: "\<bar>n\<bar> \<le> 2 ^ 53 \<Longrightarrow> f64_of_int n = Fin (of_int n)"
proof -
  assume n: "\<bar>n\<bar> \<le> 2 ^ 53"
  then have "rat_of_int \<bar>n\<bar> \<le> of_int (2 ^ 53)" by (simp only: of_int_le_iff)
  then have "\<bar>rat_of_int n\<bar> < 2 ^ 1024" by (intro less_2_1024) simp
  then show ?thesis using f64_rnd_representable [OF representable_int [OF n]]
    by (auto simp: f64_of_int_def f64_round_def Let_def)
qed

lemma f64_add_finite:
  "f64_finite x \<Longrightarrow> f64_finite y \<Longrightarrow> x \<noteq> NegZero \<or> y \<noteq> NegZero \<Longrightarrow>
     f64_add x y = f64_round False (f64_val x + f64_val y)"
  by (auto simp: f64_finite_def f64_add_def)

lemma f64_neg_finite [simp]: "f64_finite x \<Longrightarrow> f64_finite (f64_neg x)" "f64_val (f64_neg x) = - f64_val x"
  by (auto simp: f64_finite_def f64_neg_def split: f64.split)

lemma f64_mul_finite:
  "f64_finite x \<Longrightarrow> f64_finite y \<Longrightarrow> f64_mul x y = f64_round (f64_neg_sign x \<noteq> f64_neg_sign y) (f64_val x * f64_val y)"
  by (auto simp: f64_finite_def f64_mul_def Let_def)

lemma f64_div_finite:
  "f64_finite x \<Longrightarrow> f64_finite y \<Longrightarrow> f64_val y \<noteq> 0 \<Longrightarrow>
     f64_div x y = f64_round (f64_neg_sign x \<noteq> f64_neg_sign y) (f64_val x / f64_val y)"
  by (auto simp: f64_finite_def f64_div_def Let_def)

lemma f64_lt_finite [simp]: "f64_finite x \<Longrightarrow> f64_finite y \<Longrightarrow> f64_lt x y \<longleftrightarrow> f64_val x < f64_val y"
  by (auto simp: f64_finite_def f64_lt_def)

lemma f64_le_finite [simp]: "f64_finite x \<Longrightarrow> f64_finite y \<Longrightarrow> f64_le x y \<longleftrightarrow> f64_val x \<le> f64_val y"
  by (auto simp: f64_finite_def f64_le_def)

lemma f64_round_le: "a \<le> b \<Longrightarrow> f64_le (f64_round s a) (f64_round t b)"
  using f64_rnd_mono [of a b] by (auto simp: f64_round_def f64_le_def Let_def split: if_splits)

lemma f64_trunc_between: "of_int a \<le> r \<Longrightarrow> r \<le> of_int b \<Longrightarrow> a \<le> f64_trunc r \<and> f64_trunc r \<le> b"
  by (auto simp: f64_trunc_def le_floor_iff ceiling_le_iff floor_le_iff le_ceiling_iff)

lemma f64_clamp_between:
  assumes "f64_between (of_int a) (of_int b) x" "lo \<le> a" "b \<le> hi"
  shows "a \<le> f64_clamp lo hi x \<and> f64_clamp lo hi x \<le> b"
proof -
  have "a \<le> f64_trunc (f64_val x)" "f64_trunc (f64_val x) \<le> b"
    using f64_trunc_between assms(1) by (auto simp: f64_between_def)
  moreover have "f64_clamp lo hi x = max lo (min hi (f64_trunc (f64_val x)))"
    using assms(1) by (auto simp: f64_between_def f64_finite_def f64_clamp_def)
  ultimately show ?thesis using assms(2,3) by auto
qed

lemma f64_to_i64_between:
  assumes "f64_between (of_int a) (of_int b) x" "- (2 ^ 63) \<le> a" "b < 2 ^ 63"
  shows "a \<le> sint (f64_to_i64 x) \<and> sint (f64_to_i64 x) \<le> b"
proof -
  have c: "a \<le> f64_clamp (- (2 ^ 63)) (2 ^ 63 - 1) x" "f64_clamp (- (2 ^ 63)) (2 ^ 63 - 1) x \<le> b"
    using f64_clamp_between [OF assms(1,2), of "2 ^ 63 - 1"] assms(3) by auto
  then have "in_i64 (f64_clamp (- (2 ^ 63)) (2 ^ 63 - 1) x)" using assms(2,3) by (simp add: in_i64_def)
  with c show ?thesis by (simp add: f64_to_i64_def)
qed

lemma f64_to_i64_NaN [simp]: "f64_to_i64 NaN = 0"
  by (simp add: f64_to_i64_def f64_clamp_def)

end
