(* ===== verification/Book_Imbalance.thy ===== *)
theory Book_Imbalance
  imports Market_State Float64
begin

text \<open>
  The imbalance query of the market-state engine (\<open>book_imbalance\<close> in
  \<open>crates/market-state/src/engine.rs\<close>), the one that computes in \<open>f64\<close>.
\<close>

definition imbalance_of :: "i64 \<Rightarrow> i64 \<Rightarrow> f64 option" where
  "imbalance_of bid_depth ask_depth =
     (let bd = f64_of_int (sint bid_depth); ad = f64_of_int (sint ask_depth)
      in if f64_eq (f64_add bd ad) (Fin 0) then None else Some (f64_div (f64_sub bd ad) (f64_add bd ad)))"

definition engine_book_imbalance :: "'b OrderBook \<Rightarrow> bool \<Rightarrow> InstrumentId \<Rightarrow> usize \<Rightarrow> 'b MarketStateEngine \<Rightarrow>
    f64 option panics" where
  "engine_book_imbalance ops oc inst levels self =
     (let slot = unat inst in
      if slot = 0 \<or> slot > me_active_count self then Some None
      else do {
        state \<leftarrow> instr_get self (slot - 1);
        bd \<leftarrow> ob_total_depth ops oc Bid levels (is_book state);
        ad \<leftarrow> ob_total_depth ops oc Ask levels (is_book state);
        Some (imbalance_of bd ad)
      })"

lemma representable_power: "representable (2 ^ k)"
  unfolding representable_def by (rule exI [of _ 1], rule exI [of _ "int k"]) simp

lemma power_below: "k < 1024 \<Longrightarrow> (2 :: rat) ^ k < 2 ^ 1024"
  by (rule power_strict_increasing) auto

lemma f64_of_int_nonneg:
  assumes "0 \<le> n" "n < 2 ^ 63"
  shows "\<exists>v. f64_of_int n = Fin v \<and> 0 \<le> v \<and> v \<le> 2 ^ 63 \<and> representable v"
proof -
  have "rat_of_int n < of_int (2 ^ 63)" using assms(2) by (simp only: of_int_less_iff)
  then have "f64_between 0 (2 ^ 63) (f64_of_int n)"
    using assms(1) representable_power [of 63] power_below [of 63]
    unfolding f64_of_int_def by (intro f64_round_between) auto
  moreover have "f64_ok (f64_of_int n)" by (simp add: f64_of_int_def f64_round_ok)
  moreover have "f64_of_int n \<noteq> NegZero" by (simp add: f64_of_int_def f64_round_def Let_def)
  ultimately show ?thesis by (auto simp: f64_between_def f64_finite_def f64_ok_def)
qed

lemma imbalance_bounds:
  assumes "0 \<le> sint b" "0 \<le> sint a"
  shows "case imbalance_of b a of None \<Rightarrow> b = 0 \<and> a = 0 | Some x \<Rightarrow> f64_between (- 1) 1 x"
proof -
  obtain v where v: "f64_of_int (sint b) = Fin v" "0 \<le> v" "v \<le> 2 ^ 63" "representable v"
    using f64_of_int_nonneg [OF assms(1)] sint_i64_bounds [of b] by auto
  obtain w where w: "f64_of_int (sint a) = Fin w" "0 \<le> w" "w \<le> 2 ^ 63" "representable w"
    using f64_of_int_nonneg [OF assms(2)] sint_i64_bounds [of a] by auto
  let ?S = "f64_rnd (v + w)" and ?D = "f64_rnd (v - w)"
  have S: "v \<le> ?S" "w \<le> ?S" using f64_rnd_mono [of v "v + w"] f64_rnd_mono [of w "v + w"] v w
    by (simp_all add: f64_rnd_representable)
  have "v + w \<le> 2 ^ 64" using v(3) w(3) by simp
  then have "f64_between 0 (2 ^ 64) (f64_round False (v + w))"
    using v(2) w(2) representable_power [of 64] power_below [of 64] by (intro f64_round_between) auto
  then have add: "f64_add (Fin v) (Fin w) = Fin ?S"
    by (auto simp: f64_add_def f64_round_def f64_between_def Let_def split: if_splits)
  show ?thesis
  proof (cases "?S = 0")
    case True
    then have "v = 0" "w = 0" using S v(2) w(2) by linarith+
    moreover have "n = 0" if "f64_of_int n = Fin 0" "0 \<le> n" for n
    proof (rule ccontr)
      assume "n \<noteq> 0"
      then have "(1 :: rat) \<le> of_int n" using that(2) by simp
      then have "1 \<le> f64_rnd (of_int n)" using f64_rnd_mono [of 1 "of_int n"] by (simp add: f64_rnd_representable)
      with that(1) show False by (auto simp: f64_of_int_def f64_round_def Let_def split: if_splits)
    qed
    ultimately have "sint b = 0" "sint a = 0" using v(1) w(1) assms by blast+
    moreover have "imbalance_of b a = None"
      unfolding imbalance_of_def Let_def v(1) w(1) add True by (simp add: f64_eq_def)
    ultimately show ?thesis by simp
  next
    case False
    then have pos: "0 < ?S" using S v(2) by linarith
    have D: "- w \<le> ?D" "?D \<le> v"
      using f64_rnd_mono [of "- w" "v - w"] f64_rnd_mono [of "v - w" v] v w by (simp_all add: f64_rnd_representable f64_rnd_neg)
    have "f64_sub (Fin v) (Fin w) = f64_round False (v - w)" by (simp add: f64_sub_def f64_add_finite)
    moreover have "f64_between (- (2 ^ 63)) (2 ^ 63) (f64_round False (v - w))"
    proof (rule f64_round_between)
      show "representable (- (2 ^ 63))" using representable_int [of "- 1"]
        unfolding representable_def by (intro exI [of _ "- 1"] exI [of _ 63]) simp
    qed (use v w representable_power [of 63] power_below [of 63] in auto)
    ultimately have sub: "f64_finite (f64_sub (Fin v) (Fin w))" "f64_val (f64_sub (Fin v) (Fin w)) = ?D"
      by (auto simp: f64_between_def f64_round_def Let_def split: if_splits)
    have "- 1 \<le> ?D / ?S" "?D / ?S \<le> 1" using D S pos by (simp_all add: divide_le_eq le_divide_eq)
    moreover have "representable (- 1)" using representable_int [of "- 1"] by simp
    ultimately have "f64_between (- 1) 1 (f64_div (f64_sub (Fin v) (Fin w)) (Fin ?S))"
      using sub False less_1024 by (simp add: f64_div_finite f64_round_between)
    then show ?thesis using False pos by (simp add: imbalance_of_def Let_def v(1) w(1) add f64_eq_def)
  qed
qed

lemma depth_sum_pos:
  "take n (side_book s b) = [] \<or> 0 < sum_list (map (sint \<circ> snd) (take n (side_book s b)))"
proof -
  have pos: "0 < sint q" if "(p, q) \<in> set (take n (side_book s b))" for p q
    using in_set_takeD [OF that] by (auto simp: side_book_def)
  then have "0 < sum_list (map (sint \<circ> snd) xs)" if "xs \<noteq> []" "set xs \<subseteq> set (take n (side_book s b))" for xs
    using that
  proof (induction xs)
    case (Cons x xs)
    then have "0 < sint (snd x)" using pos [of "fst x" "snd x"] by auto
    with Cons show ?case by (cases "xs = []") auto
  qed simp
  then show ?thesis by blast
qed

text \<open>The imbalance is in \<open>[-1, 1]\<close>, as documented, whatever the rounding: for an instrument of the engine and an
  array book with sides whose positive quantities sum to less than \<open>2 ^ 63\<close> the query returns a finite value
  between -1 and 1, and nothing exactly when the chosen levels of both sides are empty.\<close>

theorem book_imbalance_bounds:
  assumes "engine_ok (array_inv N) e" "addressed e inst"
    and "sum_list (map sint (filter (\<lambda>q. sint q > 0) (side_levels Bid (is_book (inst_of e inst))))) < 2 ^ 63"
    and "sum_list (map sint (filter (\<lambda>q. sint q > 0) (side_levels Ask (is_book (inst_of e inst))))) < 2 ^ 63"
  shows "\<exists>r. engine_book_imbalance (array_book_ops N) oc inst levels e = Some r \<and>
    (r = None \<longleftrightarrow> take levels (side_book Bid (is_book (inst_of e inst))) = [] \<and>
                  take levels (side_book Ask (is_book (inst_of e inst))) = []) \<and>
    (case r of None \<Rightarrow> True | Some x \<Rightarrow> f64_between (- 1) 1 x)"
proof -
  let ?b = "is_book (inst_of e inst)"
  obtain bd ad where bd: "array_total_depth oc Bid levels ?b = Some bd"
      "sint bd = sum_list (map (sint \<circ> snd) (take levels (side_book Bid ?b)))"
    and ad: "array_total_depth oc Ask levels ?b = Some ad"
      "sint ad = sum_list (map (sint \<circ> snd) (take levels (side_book Ask ?b)))"
    using array_total_depth_sum [OF assms(3), of oc levels] array_total_depth_sum [OF assms(4), of oc levels] by blast
  have "instr_get e (unat inst - 1) = Some (inst_of e inst)"
    using assms(1,2) by (auto simp: instr_get_def engine_ok_def addressed_def inst_of_def)
  then have res: "engine_book_imbalance (array_book_ops N) oc inst levels e = Some (imbalance_of bd ad)"
    using assms(2) bd(1) ad(1) by (auto simp: engine_book_imbalance_def addressed_def array_book_ops_def Let_def)
  have nonneg: "0 \<le> sint bd" "0 \<le> sint ad" unfolding bd(2) ad(2)
    using depth_sum_pos [of levels Bid ?b] depth_sum_pos [of levels Ask ?b] by auto
  have "bd = 0 \<longleftrightarrow> take levels (side_book Bid ?b) = []"
    using bd(2) depth_sum_pos [of levels Bid ?b] by (auto simp: signed_eq_0_iff)
  moreover have "ad = 0 \<longleftrightarrow> take levels (side_book Ask ?b) = []"
    using ad(2) depth_sum_pos [of levels Ask ?b] by (auto simp: signed_eq_0_iff)
  moreover have "imbalance_of 0 0 = None"
    by (simp add: imbalance_of_def f64_of_int_exact f64_add_def f64_eq_def f64_round_def Let_def)
  ultimately show ?thesis using res imbalance_bounds [OF nonneg] by (cases "imbalance_of bd ad") auto
qed

theorem book_imbalance_bounds_witness:
  "\<exists>e0 r. engine_new (array_book_ops 3) 1 1 0 = Some e0 \<and> engine_book_imbalance (array_book_ops 3) True 1 5 e0 = Some r"
proof -
  obtain e0 where e0: "engine_new (array_book_ops 3) 1 1 0 = Some e0" by (simp add: engine_new_def)
  have N: "(3 :: nat) \<le> 65536" by simp
  have "is_book (inst_of e0 1) = array_default 3"
    using e0 by (auto simp: engine_new_def inst_of_def instrument_default_def array_book_ops_def)
  then have "sum_list (map sint (filter (\<lambda>q. sint q > 0) (side_levels s (is_book (inst_of e0 1))))) < 2 ^ 63" for s
    by (cases s) (simp_all add: side_levels_def array_default_def lots_ZERO_def filter_replicate)
  moreover have "engine_ok (array_inv 3) e0" "addressed e0 1"
    using array_engine(3,5) [OF N e0] by (simp_all add: addressed_def)
  ultimately show ?thesis using book_imbalance_bounds [of 3 e0 1 True 5] e0 by blast
qed

end
