(* ===== verification/Bounded_Queue.thy ===== *)
theory Bounded_Queue
  imports Main "HOL-Library.Monad_Syntax"
begin

text \<open>
  What a bounded FIFO queue promises its client, as a locale: a representation relation between
  a queue state and the list of its elements, oldest first, under which a push succeeds exactly
  when there is room and a pop returns the oldest element. The client lemma compares any
  sequence of operations with the reference queue on lists. The ring engines provide the
  interface.
\<close>

datatype 'a qcmd = Push 'a | Pop

datatype 'a qres = Pushed bool | Popped "'a option"

fun queue_run :: "('a \<Rightarrow> 's \<Rightarrow> (bool \<times> 's) option) \<Rightarrow> ('s \<Rightarrow> ('a option \<times> 's) option) \<Rightarrow>
    'a qcmd list \<Rightarrow> 's \<Rightarrow> ('a qres list \<times> 's) option" where
  "queue_run push pop [] s = Some ([], s)"
| "queue_run push pop (Push v # cs) s =
     do { (ok, s') \<leftarrow> push v s; (rs, s'') \<leftarrow> queue_run push pop cs s'; Some (Pushed ok # rs, s'') }"
| "queue_run push pop (Pop # cs) s =
     do { (v, s') \<leftarrow> pop s; (rs, s'') \<leftarrow> queue_run push pop cs s'; Some (Popped v # rs, s'') }"

text \<open>The reference: a list with a bound.\<close>

fun fifo_run :: "nat \<Rightarrow> 'a qcmd list \<Rightarrow> 'a list \<Rightarrow> 'a qres list \<times> 'a list" where
  "fifo_run n [] q = ([], q)"
| "fifo_run n (Push v # cs) q =
     (let (rs, q') = fifo_run n cs (if length q < n then q @ [v] else q) in (Pushed (length q < n) # rs, q'))"
| "fifo_run n (Pop # cs) q =
     (let (rs, q') = fifo_run n cs (tl q)
      in (Popped (case q of [] \<Rightarrow> None | v # _ \<Rightarrow> Some v) # rs, q'))"

locale bounded_queue =
  fixes rep :: "'s \<Rightarrow> 'a list \<Rightarrow> bool"
    and bound :: "'s \<Rightarrow> nat"
    and push :: "'a \<Rightarrow> 's \<Rightarrow> (bool \<times> 's) option"
    and pop :: "'s \<Rightarrow> ('a option \<times> 's) option"
  assumes push_ok: "rep s q \<Longrightarrow> \<exists>s'. push v s = Some (length q < bound s, s') \<and>
      rep s' (if length q < bound s then q @ [v] else q) \<and> bound s' = bound s"
    and pop_ok: "rep s q \<Longrightarrow> \<exists>s'. pop s = Some (case q of [] \<Rightarrow> None | v # _ \<Rightarrow> Some v, s') \<and>
      rep s' (tl q) \<and> bound s' = bound s"
begin

lemma run_fifo:
  assumes "rep s q"
  shows "\<exists>s'. queue_run push pop cs s = Some (fst (fifo_run (bound s) cs q), s') \<and>
    rep s' (snd (fifo_run (bound s) cs q)) \<and> bound s' = bound s"
  using assms
proof (induction cs arbitrary: s q)
  case (Cons c cs)
  show ?case
  proof (cases c)
    case (Push v)
    obtain s' where s': "push v s = Some (length q < bound s, s')"
      "rep s' (if length q < bound s then q @ [v] else q)" "bound s' = bound s"
      using push_ok [OF Cons.prems] by blast
    from Cons.IH [OF s'(2)] s'(1,3) show ?thesis by (auto simp: Push split_def Let_def)
  next
    case Pop
    obtain s' where s': "pop s = Some (case q of [] \<Rightarrow> None | v # _ \<Rightarrow> Some v, s')" "rep s' (tl q)"
      "bound s' = bound s"
      using pop_ok [OF Cons.prems] by blast
    from Cons.IH [OF s'(2)] s'(1,3) show ?thesis by (auto simp: Pop split_def Let_def)
  qed
qed simp

end

text \<open>Values leave the reference queue in the order they were accepted: what was popped,
  followed by what is still queued, is what was there plus what was accepted.\<close>

fun accepted :: "'a qcmd list \<Rightarrow> 'a qres list \<Rightarrow> 'a list" where
  "accepted (Push v # cs) (Pushed ok # rs) = (if ok then v # accepted cs rs else accepted cs rs)"
| "accepted (c # cs) (r # rs) = accepted cs rs"
| "accepted _ _ = []"

fun delivered :: "'a qres list \<Rightarrow> 'a list" where
  "delivered (Popped (Some v) # rs) = v # delivered rs"
| "delivered (r # rs) = delivered rs"
| "delivered [] = []"

lemma fifo_run_order:
  "delivered (fst (fifo_run n cs q)) @ snd (fifo_run n cs q) = q @ accepted cs (fst (fifo_run n cs q))"
proof (induction n cs q rule: fifo_run.induct)
  case (3 n cs q)
  then show ?case by (cases q) (simp_all add: split_def Let_def)
qed (simp_all add: split_def Let_def)

lemma fifo_run_bound: "length q \<le> n \<Longrightarrow> length (snd (fifo_run n cs q)) \<le> n"
  by (induction n cs q rule: fifo_run.induct) (auto simp: split_def Let_def)

end
