(* ===== verification/Spsc_Ring.thy ===== *)
theory Spsc_Ring
  imports Ring_Core Bounded_Queue
begin

text \<open>
  The SPSC ring engine (\<open>crates/queue/src/engine.rs\<close>) and \<open>RawRing\<close> (\<open>handle.rs\<close>) as run by one
  thread: cached remote indices, one sentinel slot, wrapping indices. The engine refines a
  bounded FIFO queue. The interleavings of two threads are the subject of \<open>Spsc_Concurrent\<close>.

  A configuration collects the generic parameters: the index strategy, the instrumentation, and
  whether the build is for aarch64, where the owner of an index reads a private copy of it.
  Indices are natural numbers; a capacity is far below \<open>2 ^ 64\<close>, so \<open>head + 1\<close> and
  \<open>head + cap\<close> do not overflow.
\<close>

section \<open>State\<close>

record 'i RingCfg =
  cfg_wrap :: "usize \<Rightarrow> usize \<Rightarrow> usize panics"
  cfg_instr :: "'i Instrumentation"
  cfg_aarch64 :: bool

record ('a, 'i) RingEngine =
  rg_head :: usize
  rg_head_local :: usize
  rg_tail_cached :: usize
  rg_tail :: usize
  rg_tail_local :: usize
  rg_head_cached :: usize
  rg_storage :: "'a slots"
  rg_instr :: 'i

definition ring_new :: "'a slots \<Rightarrow> 'i \<Rightarrow> ('a, 'i) RingEngine" where
  "ring_new storage instr = \<lparr> rg_head = 0, rg_head_local = 0, rg_tail_cached = 0,
     rg_tail = 0, rg_tail_local = 0, rg_head_cached = 0, rg_storage = storage, rg_instr = instr \<rparr>"

definition ring_capacity :: "('a, 'i) RingEngine \<Rightarrow> usize" where
  "ring_capacity self = length (rg_storage self) - 1"

definition own_head :: "'i RingCfg \<Rightarrow> ('a, 'i) RingEngine \<Rightarrow> usize" where
  "own_head cfg self = (if cfg_aarch64 cfg then rg_head_local self else rg_head self)"

definition own_tail :: "'i RingCfg \<Rightarrow> ('a, 'i) RingEngine \<Rightarrow> usize" where
  "own_tail cfg self = (if cfg_aarch64 cfg then rg_tail_local self else rg_tail self)"

definition publish_head :: "'i RingCfg \<Rightarrow> usize \<Rightarrow> ('a, 'i) RingEngine \<Rightarrow> ('a, 'i) RingEngine" where
  "publish_head cfg next_head self =
     (let self = self\<lparr> rg_head := next_head \<rparr>
      in if cfg_aarch64 cfg then self\<lparr> rg_head_local := next_head \<rparr> else self)"

definition publish_tail :: "'i RingCfg \<Rightarrow> usize \<Rightarrow> ('a, 'i) RingEngine \<Rightarrow> ('a, 'i) RingEngine" where
  "publish_tail cfg next_tail self =
     (let self = self\<lparr> rg_tail := next_tail \<rparr>
      in if cfg_aarch64 cfg then self\<lparr> rg_tail_local := next_tail \<rparr> else self)"

section \<open>Operations\<close>

definition ring_try_push :: "'i RingCfg \<Rightarrow> 'a \<Rightarrow> ('a, 'i) RingEngine \<Rightarrow>
    (('a PushError + unit) \<times> ('a, 'i) RingEngine) panics" where
  "ring_try_push cfg value self =
     do {
       let head = own_head cfg self;
       next_head \<leftarrow> cfg_wrap cfg (head + 1) (length (rg_storage self));
       let self = (if next_head = rg_tail_cached self
                   then self\<lparr> rg_tail_cached := rg_tail self \<rparr> else self);
       if next_head = rg_tail_cached self
       then Some (Inl (Full value), self\<lparr> rg_instr := on_push_full (cfg_instr cfg) (rg_instr self) \<rparr>)
       else do {
         storage \<leftarrow> write_slot head value (rg_storage self);
         let self = publish_head cfg next_head (self\<lparr> rg_storage := storage \<rparr>);
         Some (Inr (), self\<lparr> rg_instr := on_push (cfg_instr cfg) (rg_instr self) \<rparr>)
       }
     }"

definition ring_try_pop :: "'i RingCfg \<Rightarrow> ('a, 'i) RingEngine \<Rightarrow>
    ((QueueError + 'a) \<times> ('a, 'i) RingEngine) panics" where
  "ring_try_pop cfg self =
     do {
       let tail = own_tail cfg self;
       let self = (if tail = rg_head_cached self
                   then self\<lparr> rg_head_cached := rg_head self \<rparr> else self);
       if tail = rg_head_cached self
       then Some (Inl QueueEmpty, self\<lparr> rg_instr := on_pop_empty (cfg_instr cfg) (rg_instr self) \<rparr>)
       else do {
         (value, storage) \<leftarrow> read_slot tail (rg_storage self);
         next_tail \<leftarrow> cfg_wrap cfg (tail + 1) (length (rg_storage self));
         let self = publish_tail cfg next_tail (self\<lparr> rg_storage := storage \<rparr>);
         Some (Inr value, self\<lparr> rg_instr := on_pop (cfg_instr cfg) (rg_instr self) \<rparr>)
       }
     }"

text \<open>The flag versions: \<open>push\<close> drops the value on failure, \<open>pop\<close> writes through a pointer
  (here it returns the value) and leaves the buffer alone on failure.\<close>

definition ring_push :: "'i RingCfg \<Rightarrow> 'a \<Rightarrow> ('a, 'i) RingEngine \<Rightarrow> (bool \<times> ('a, 'i) RingEngine) panics" where
  "ring_push cfg value self =
     do {
       let head = own_head cfg self;
       next_head \<leftarrow> cfg_wrap cfg (head + 1) (length (rg_storage self));
       let self = (if next_head = rg_tail_cached self
                   then self\<lparr> rg_tail_cached := rg_tail self \<rparr> else self);
       if next_head = rg_tail_cached self
       then Some (False, self\<lparr> rg_instr := on_push_full (cfg_instr cfg) (rg_instr self) \<rparr>)
       else do {
         storage \<leftarrow> write_slot head value (rg_storage self);
         let self = publish_head cfg next_head (self\<lparr> rg_storage := storage \<rparr>);
         Some (True, self\<lparr> rg_instr := on_push (cfg_instr cfg) (rg_instr self) \<rparr>)
       }
     }"

definition ring_pop :: "'i RingCfg \<Rightarrow> ('a, 'i) RingEngine \<Rightarrow> ('a option \<times> ('a, 'i) RingEngine) panics" where
  "ring_pop cfg self =
     do {
       let tail = own_tail cfg self;
       let self = (if tail = rg_head_cached self
                   then self\<lparr> rg_head_cached := rg_head self \<rparr> else self);
       if tail = rg_head_cached self
       then Some (None, self\<lparr> rg_instr := on_pop_empty (cfg_instr cfg) (rg_instr self) \<rparr>)
       else do {
         (value, storage) \<leftarrow> read_slot tail (rg_storage self);
         next_tail \<leftarrow> cfg_wrap cfg (tail + 1) (length (rg_storage self));
         let self = publish_tail cfg next_tail (self\<lparr> rg_storage := storage \<rparr>);
         Some (Some value, self\<lparr> rg_instr := on_pop (cfg_instr cfg) (rg_instr self) \<rparr>)
       }
     }"

definition ring_len :: "('a, 'i) RingEngine \<Rightarrow> usize" where
  "ring_len self = (let cap = length (rg_storage self)
     in (rg_head self + cap - rg_tail self) mod cap)"

definition ring_is_empty :: "('a, 'i) RingEngine \<Rightarrow> bool" where
  "ring_is_empty self \<longleftrightarrow> ring_len self = 0"

text \<open>\<open>drop_range\<close>, with the values it drops in order: the loop ends when the tail meets the head;
  \<open>fuel\<close> bounds it, and the capacity is enough.\<close>

fun drop_range :: "'i RingCfg \<Rightarrow> nat \<Rightarrow> usize \<Rightarrow> usize \<Rightarrow> 'a slots \<Rightarrow> ('a list \<times> 'a slots) panics" where
  "drop_range cfg fuel tail head storage =
     (if tail = head then Some ([], storage)
      else case fuel of
        0 \<Rightarrow> None
      | Suc fuel' \<Rightarrow> do {
          (v, storage) \<leftarrow> drop_occupied_slot tail storage;
          tail' \<leftarrow> cfg_wrap cfg (tail + 1) (length storage);
          (vs, storage) \<leftarrow> drop_range cfg fuel' tail' head storage;
          Some (v # vs, storage)
        })"

declare drop_range.simps [simp del]

definition ring_drop :: "'i RingCfg \<Rightarrow> ('a, 'i) RingEngine \<Rightarrow> ('a list \<times> 'a slots) panics" where
  "ring_drop cfg self =
     drop_range cfg (length (rg_storage self)) (rg_tail self) (rg_head self) (rg_storage self)"

section \<open>Abstraction: a bounded queue\<close>

text \<open>\<open>T\<close> counts the pops so far. The cached indices are old positions: the cached tail lies
  \<open>k\<close> pops back, the cached head \<open>j\<close> values ahead of the tail.\<close>

definition ring_rep :: "'i RingCfg \<Rightarrow> ('a, 'i) RingEngine \<Rightarrow> 'a list \<Rightarrow> bool" where
  "ring_rep cfg r q \<longleftrightarrow> (\<exists>T k j. let cap = length (rg_storage r) in
     is_power_of_two cap \<and> length q < cap \<and> k \<le> T \<and> k + length q < cap \<and> j \<le> length q \<and>
     rg_tail r = T mod cap \<and> rg_head r = (T + length q) mod cap \<and>
     rg_tail_cached r = (T - k) mod cap \<and> rg_head_cached r = (T + j) mod cap \<and>
     (cfg_aarch64 cfg \<longrightarrow> rg_head_local r = rg_head r \<and> rg_tail_local r = rg_tail r) \<and>
     (\<forall>i < length q. rg_storage r ! ((T + i) mod cap) = Some (q ! i)) \<and>
     (\<forall>i. length q \<le> i \<and> i < cap \<longrightarrow> rg_storage r ! ((T + i) mod cap) = None))"

lemma ring_repI:
  assumes "length (rg_storage r) = cap" "is_power_of_two cap" "length q < cap" "k \<le> T" "k + length q < cap"
    "j \<le> length q" "rg_tail r = T mod cap" "rg_head r = (T + length q) mod cap"
    "rg_tail_cached r = (T - k) mod cap" "rg_head_cached r = (T + j) mod cap"
    "cfg_aarch64 cfg \<longrightarrow> rg_head_local r = rg_head r \<and> rg_tail_local r = rg_tail r"
    "\<And>i. i < length q \<Longrightarrow> rg_storage r ! ((T + i) mod cap) = Some (q ! i)"
    "\<And>i. length q \<le> i \<Longrightarrow> i < cap \<Longrightarrow> rg_storage r ! ((T + i) mod cap) = None"
  shows "ring_rep cfg r q"
  unfolding ring_rep_def Let_def assms(1) using assms(2-) by blast

lemma mod_add_eq_iff:
  fixes T i j cap :: nat
  assumes "i < cap" and "j < cap"
  shows "(T + i) mod cap = (T + j) mod cap \<longleftrightarrow> i = j"
proof -
  have le: "x = y" if "(T + x) mod cap = (T + y) mod cap" "x \<le> y" "y < cap" for x y
  proof -
    have "cap dvd (T + y) - (T + x)"
      using that mod_eq_dvd_iff_nat [of "T + x" "T + y" cap] by simp
    with that show ?thesis by (auto dest: dvd_imp_le)
  qed
  show ?thesis
    using le [of i j] le [of j i] assms by (cases "i \<le> j") auto
qed

lemma mod_ahead_eq_iff:
  fixes T m k cap :: nat
  assumes "k \<le> T" and "k + m \<le> cap" and "0 < cap"
  shows "(T + m) mod cap = (T - k) mod cap \<longleftrightarrow> k + m = 0 \<or> k + m = cap"
proof -
  have "(T + m) mod cap = ((T - k) + (k + m)) mod cap" using assms(1) by simp
  moreover have "((T - k) + cap) mod cap = (T - k) mod cap" by simp
  ultimately show ?thesis
    using mod_add_eq_iff [of "k + m" cap 0 "T - k"] assms by (cases "k + m = cap") (simp, auto)
qed

text \<open>The two index strategies and either build are covered by one configuration contract.\<close>

locale ring_config = index_strategy "cfg_wrap cfg" for cfg :: "'i RingCfg"
begin

lemma rep_new:
  assumes "is_power_of_two n"
  shows "ring_rep cfg (ring_new (replicate n None) instr) []"
  using assms by (auto simp: ring_rep_def ring_new_def Let_def is_power_of_two_def intro!: exI [of _ 0])

lemma try_push_rep:
  assumes "ring_rep cfg r q"
  shows "\<exists>r'. ring_try_push cfg v r =
    Some (if length q < ring_capacity r then Inr () else Inl (Full v), r') \<and>
    ring_rep cfg r' (if length q < ring_capacity r then q @ [v] else q) \<and>
    length (rg_storage r') = length (rg_storage r) \<and>
    rg_instr r' = (if length q < ring_capacity r then on_push else on_push_full) (cfg_instr cfg) (rg_instr r)"
proof -
  define cap where "cap = length (rg_storage r)"
  obtain T k j where R: "is_power_of_two cap" "length q < cap" "k \<le> T" "k + length q < cap" "j \<le> length q"
    "rg_tail r = T mod cap" "rg_head r = (T + length q) mod cap"
    "rg_tail_cached r = (T - k) mod cap" "rg_head_cached r = (T + j) mod cap"
    "cfg_aarch64 cfg \<longrightarrow> rg_head_local r = rg_head r \<and> rg_tail_local r = rg_tail r"
    and occ: "\<forall>i < length q. rg_storage r ! ((T + i) mod cap) = Some (q ! i)"
    and emp: "\<forall>i. length q \<le> i \<and> i < cap \<longrightarrow> rg_storage r ! ((T + i) mod cap) = None"
    using assms by (auto simp: ring_rep_def Let_def cap_def)
  have cap0: "0 < cap" using R(2) by linarith
  let ?h = "(T + length q) mod cap" and ?next = "(T + Suc (length q)) mod cap"
  have own: "own_head cfg r = ?h" using R(7,10) by (simp add: own_head_def)
  have nxt: "cfg_wrap cfg (?h + 1) cap = Some ?next"
    using wrap_next [OF R(1) refl, of "T + length q"] by simp
  have cached: "?next = rg_tail_cached r \<longleftrightarrow> Suc (k + length q) = cap"
    using mod_ahead_eq_iff [of k T "Suc (length q)" cap] R(3,4) cap0 by (auto simp: R(8))
  have full: "?next = rg_tail r \<longleftrightarrow> Suc (length q) = cap"
    using mod_ahead_eq_iff [of 0 T "Suc (length q)" cap] R(2) cap0 by (auto simp: R(6))
  have room: "length q < ring_capacity r \<longleftrightarrow> Suc (length q) \<noteq> cap"
    using R(2) by (auto simp: ring_capacity_def cap_def)
  define k' where "k' = (if Suc (k + length q) = cap then 0 else k)"
  define r1 where "r1 = (if ?next = rg_tail_cached r then r\<lparr> rg_tail_cached := rg_tail r \<rparr> else r)"
  have r1: "rg_tail_cached r1 = (T - k') mod cap" "rg_tail r1 = rg_tail r" "rg_head r1 = rg_head r"
    "rg_head_cached r1 = rg_head_cached r" "rg_storage r1 = rg_storage r" "rg_instr r1 = rg_instr r"
    "rg_head_local r1 = rg_head_local r" "rg_tail_local r1 = rg_tail_local r"
    using R(6,8) cached by (auto simp: r1_def k'_def)
  have k': "k' \<le> T" "k' + length q < cap" "Suc (length q) \<noteq> cap \<Longrightarrow> Suc (k' + length q) < cap"
    using R(2-4) by (auto simp: k'_def)
  have test: "?next = rg_tail_cached r1 \<longleftrightarrow> Suc (length q) = cap"
    using mod_ahead_eq_iff [of k' T "Suc (length q)" cap] k' cap0 by (auto simp: r1(1) k'_def)
  have start: "ring_try_push cfg v r =
      (if Suc (length q) = cap
       then Some (Inl (Full v), r1\<lparr> rg_instr := on_push_full (cfg_instr cfg) (rg_instr r1) \<rparr>)
       else do {
         storage \<leftarrow> write_slot ?h v (rg_storage r);
         let r2 = publish_head cfg ?next (r1\<lparr> rg_storage := storage \<rparr>);
         Some (Inr (), r2\<lparr> rg_instr := on_push (cfg_instr cfg) (rg_instr r2) \<rparr>)
       })"
    unfolding ring_try_push_def Let_def own cap_def [symmetric] nxt bind.bind_lunit
      r1_def [symmetric] test r1(5) ..
  show ?thesis
  proof (cases "Suc (length q) = cap")
    case True
    have "ring_rep cfg (r1\<lparr> rg_instr := on_push_full (cfg_instr cfg) (rg_instr r1) \<rparr>) q"
      unfolding ring_rep_def Let_def using R k' occ emp
      by (intro exI [of _ T] exI [of _ k'] exI [of _ j]) (simp add: r1 cap_def [symmetric])
    with True room start show ?thesis by (simp add: r1)
  next
    case False
    let ?s = "(rg_storage r)[?h := Some v]"
    define r2 where "r2 = publish_head cfg ?next (r1\<lparr> rg_storage := ?s \<rparr>)"
    have r2: "rg_storage r2 = ?s" "rg_tail r2 = T mod cap" "rg_head r2 = ?next" "rg_instr r2 = rg_instr r"
      "rg_tail_cached r2 = (T - k') mod cap" "rg_head_cached r2 = (T + j) mod cap"
      "cfg_aarch64 cfg \<longrightarrow> rg_head_local r2 = rg_head r2 \<and> rg_tail_local r2 = rg_tail r2"
      using R by (auto simp: r2_def publish_head_def r1 Let_def)
    have slot: "?s ! ((T + i) mod cap) = (if i = length q then Some v else rg_storage r ! ((T + i) mod cap))"
      if "i < cap" for i
      using that mod_add_eq_iff [of i cap "length q" T] R(2) cap0 by (auto simp: nth_list_update cap_def)
    have "ring_rep cfg (r2\<lparr> rg_instr := on_push (cfg_instr cfg) (rg_instr r2) \<rparr>) (q @ [v])"
      unfolding ring_rep_def Let_def using R k' occ emp False
      by (intro exI [of _ T] exI [of _ k'] exI [of _ j])
        (auto simp: r2 cap_def [symmetric] slot nth_append)
    moreover have "write_slot ?h v (rg_storage r) = Some ?s"
      using cap0 by (simp add: write_slot_def cap_def [symmetric])
    then have "ring_try_push cfg v r = Some (Inr (), r2\<lparr> rg_instr := on_push (cfg_instr cfg) (rg_instr r2) \<rparr>)"
      using False unfolding start r2_def by (simp add: Let_def)
    ultimately show ?thesis
      using False room by (simp add: r2)
  qed
qed

lemma try_pop_rep:
  assumes "ring_rep cfg r q"
  shows "\<exists>r'. ring_try_pop cfg r = Some (case q of [] \<Rightarrow> Inl QueueEmpty | v # _ \<Rightarrow> Inr v, r') \<and>
    ring_rep cfg r' (tl q) \<and> length (rg_storage r') = length (rg_storage r) \<and>
    rg_instr r' = (if q = [] then on_pop_empty else on_pop) (cfg_instr cfg) (rg_instr r)"
proof -
  define cap where "cap = length (rg_storage r)"
  obtain T k j where R: "is_power_of_two cap" "length q < cap" "k \<le> T" "k + length q < cap" "j \<le> length q"
    "rg_tail r = T mod cap" "rg_head r = (T + length q) mod cap"
    "rg_tail_cached r = (T - k) mod cap" "rg_head_cached r = (T + j) mod cap"
    "cfg_aarch64 cfg \<longrightarrow> rg_head_local r = rg_head r \<and> rg_tail_local r = rg_tail r"
    and occ: "\<forall>i < length q. rg_storage r ! ((T + i) mod cap) = Some (q ! i)"
    and emp: "\<forall>i. length q \<le> i \<and> i < cap \<longrightarrow> rg_storage r ! ((T + i) mod cap) = None"
    using assms by (auto simp: ring_rep_def Let_def cap_def)
  have cap0: "0 < cap" using R(2) by linarith
  let ?t = "T mod cap" and ?next = "Suc T mod cap"
  have own: "own_tail cfg r = ?t" using R(6,10) by (simp add: own_tail_def)
  have nxt: "cfg_wrap cfg (?t + 1) cap = Some ?next"
    using wrap_next [OF R(1) refl, of T] by simp
  define j' where "j' = (if j = 0 then length q else j)"
  define r1 where "r1 = (if ?t = rg_head_cached r then r\<lparr> rg_head_cached := rg_head r \<rparr> else r)"
  have "?t = rg_head_cached r \<longleftrightarrow> j = 0"
    using mod_add_eq_iff [of 0 cap j T] R(2,5) by (auto simp: R(9))
  then have r1: "rg_head_cached r1 = (T + j') mod cap" "rg_tail r1 = rg_tail r" "rg_head r1 = rg_head r"
    "rg_tail_cached r1 = rg_tail_cached r" "rg_storage r1 = rg_storage r" "rg_instr r1 = rg_instr r"
    "rg_head_local r1 = rg_head_local r" "rg_tail_local r1 = rg_tail_local r"
    using R(7,9) by (auto simp: r1_def j'_def)
  have j': "j' \<le> length q" "j' = 0 \<longleftrightarrow> q = []" using R(5) by (auto simp: j'_def)
  have test: "?t = rg_head_cached r1 \<longleftrightarrow> q = []"
    using mod_add_eq_iff [of 0 cap j' T] R(2) j' by (auto simp: r1(1))
  have start: "ring_try_pop cfg r =
      (if q = [] then Some (Inl QueueEmpty, r1\<lparr> rg_instr := on_pop_empty (cfg_instr cfg) (rg_instr r1) \<rparr>)
       else do {
         (value, storage) \<leftarrow> read_slot ?t (rg_storage r);
         next_tail \<leftarrow> cfg_wrap cfg (?t + 1) cap;
         let r2 = publish_tail cfg next_tail (r1\<lparr> rg_storage := storage \<rparr>);
         Some (Inr value, r2\<lparr> rg_instr := on_pop (cfg_instr cfg) (rg_instr r2) \<rparr>)
       })"
    unfolding ring_try_pop_def Let_def own r1_def [symmetric] test r1(5) cap_def [symmetric] ..
  show ?thesis
  proof (cases q)
    case Nil
    have "ring_rep cfg (r1\<lparr> rg_instr := on_pop_empty (cfg_instr cfg) (rg_instr r1) \<rparr>) q"
      unfolding ring_rep_def Let_def using R j' occ emp
      by (intro exI [of _ T] exI [of _ k] exI [of _ j']) (simp add: r1 cap_def [symmetric])
    with Nil start show ?thesis by (simp add: r1)
  next
    case (Cons v q')
    let ?s = "(rg_storage r)[?t := None]"
    define r2 where "r2 = publish_tail cfg ?next (r1\<lparr> rg_storage := ?s \<rparr>)"
    have r2: "rg_storage r2 = ?s" "rg_tail r2 = ?next" "rg_head r2 = (T + length q) mod cap"
      "rg_instr r2 = rg_instr r" "rg_tail_cached r2 = (T - k) mod cap" "rg_head_cached r2 = (T + j') mod cap"
      "cfg_aarch64 cfg \<longrightarrow> rg_head_local r2 = rg_head r2 \<and> rg_tail_local r2 = rg_tail r2"
      using R by (auto simp: r2_def publish_tail_def r1 Let_def)
    have slot: "?s ! ((Suc T + i) mod cap) = (if Suc i = cap then None else rg_storage r ! ((T + Suc i) mod cap))"
      if "i < cap" for i
    proof (cases "Suc i = cap")
      case True
      then have "(Suc T + i) mod cap = ?t" by (metis add_Suc_shift mod_add_self2)
      with True cap0 show ?thesis by (simp add: cap_def)
    next
      case False
      then show ?thesis
        using that mod_add_eq_iff [of "Suc i" cap 0 T] cap0 by (auto simp: nth_list_update_neq cap_def)
    qed
    have "read_slot ?t (rg_storage r) = Some (v, ?s)"
      using occ [rule_format, of 0] Cons cap0 by (simp add: read_slot_def cap_def)
    moreover have hc: "rg_head_cached r2 = (Suc T + (j' - 1)) mod cap"
      using j' Cons by (cases j') (simp_all add: r2(6))
    have "ring_rep cfg (r2\<lparr> rg_instr := on_pop (cfg_instr cfg) (rg_instr r2) \<rparr>) q'"
    proof (rule ring_repI [where T = "Suc T" and k = "Suc k" and j = "j' - 1" and cap = cap])
      fix i assume "i < length q'"
      then show "rg_storage (r2\<lparr> rg_instr := on_pop (cfg_instr cfg) (rg_instr r2) \<rparr>) ! ((Suc T + i) mod cap) =
          Some (q' ! i)"
        using slot [of i] occ [rule_format, of "Suc i"] R(2) Cons by (simp add: r2(1))
    next
      fix i assume "length q' \<le> i" "i < cap"
      then show "rg_storage (r2\<lparr> rg_instr := on_pop (cfg_instr cfg) (rg_instr r2) \<rparr>) ! ((Suc T + i) mod cap) = None"
        using slot [of i] emp [rule_format, of "Suc i"] Cons by (simp add: r2(1))
    qed (use R j' Cons in \<open>simp_all add: r2(1-5,7) hc cap_def [symmetric]\<close>)
    moreover from calculation have "ring_try_pop cfg r =
        Some (Inr v, r2\<lparr> rg_instr := on_pop (cfg_instr cfg) (rg_instr r2) \<rparr>)"
      using Cons nxt unfolding start r2_def by (simp add: Let_def)
    ultimately show ?thesis
      using Cons by (simp add: r2)
  qed
qed

end

section \<open>The flag versions do the same\<close>

lemma ring_push_eq_try_push:
  "ring_push cfg v r = map_option (\<lambda>(res, r'). (res = Inr (), r')) (ring_try_push cfg v r)"
  by (cases "cfg_wrap cfg (own_head cfg r + 1) (length (rg_storage r))";
      cases "write_slot (own_head cfg r) v (rg_storage r)")
    (simp_all add: ring_push_def ring_try_push_def Let_def)

lemma ring_pop_eq_try_pop:
  "ring_pop cfg r = map_option (\<lambda>(res, r'). (case res of Inl _ \<Rightarrow> None | Inr v \<Rightarrow> Some v, r')) (ring_try_pop cfg r)"
  by (cases "cfg_wrap cfg (own_tail cfg r + 1) (length (rg_storage r))";
      cases "read_slot (own_tail cfg r) (rg_storage r)")
    (auto simp: ring_pop_def ring_try_pop_def Let_def)

section \<open>Length and drop\<close>

lemma ring_rep_len: "ring_rep cfg r q \<Longrightarrow> ring_len r = length q"
proof -
  assume "ring_rep cfg r q"
  then obtain T where R: "length q < length (rg_storage r)"
    "rg_tail r = T mod length (rg_storage r)" "rg_head r = (T + length q) mod length (rg_storage r)"
    unfolding ring_rep_def Let_def by blast
  have pos: "0 < length (rg_storage r)" using R(1) by linarith
  let ?cap = "length (rg_storage r)"
  have "((T + length q) mod ?cap + ?cap - T mod ?cap) mod ?cap = length q"
  proof (cases "T mod ?cap + length q < ?cap")
    case True
    then have "(T + length q) mod ?cap = T mod ?cap + length q"
      by (metis mod_add_left_eq mod_less)
    with R show ?thesis by simp
  next
    case False
    have "(T + length q) mod ?cap = (T mod ?cap + length q) mod ?cap"
      by (simp add: mod_add_left_eq)
    also have "\<dots> = T mod ?cap + length q - ?cap"
      using False R(1) mod_less_divisor [OF pos, of T] by (subst le_mod_geq) auto
    finally show ?thesis using False R(1) by simp
  qed
  then show ?thesis by (simp add: ring_len_def R)
qed

context ring_config
begin

lemma drop_range_occupied:
  assumes "is_power_of_two cap" "length s = cap" "length q < cap" "length q \<le> fuel"
    "\<forall>i < length q. s ! ((T + i) mod cap) = Some (q ! i)"
    "\<forall>i. length q \<le> i \<and> i < cap \<longrightarrow> s ! ((T + i) mod cap) = None"
  shows "drop_range cfg fuel (T mod cap) ((T + length q) mod cap) s = Some (q, replicate cap None)"
  using assms
proof (induction q arbitrary: T s fuel)
  case Nil
  have "s ! i = None" if "i < cap" for i
  proof -
    have "(T + (i + cap - T mod cap) mod cap) mod cap = (T + (i + cap - T mod cap)) mod cap"
      by (simp add: mod_simps)
    also have "\<dots> = (T mod cap + (i + cap - T mod cap)) mod cap" by (simp add: mod_add_left_eq)
    also have "T mod cap + (i + cap - T mod cap) = i + cap"
      using that mod_less_divisor [of cap T] by linarith
    also have "(i + cap) mod cap = i" using that by simp
    finally show ?thesis using Nil.prems(6) that by (metis mod_less_divisor le0 list.size(3) le_less_trans)
  qed
  then have "s = replicate cap None" using Nil.prems(2) by (simp add: list_eq_iff_nth_eq)
  then show ?case by (simp add: drop_range.simps)
next
  case (Cons v q)
  obtain f where f: "fuel = Suc f" using Cons.prems(4) by (cases fuel) auto
  have cap0: "0 < cap" using Cons.prems(3) by simp
  have v: "s ! (T mod cap) = Some v" using Cons.prems(5) [rule_format, of 0] by simp
  have ne: "T mod cap \<noteq> (T + Suc (length q)) mod cap"
    using mod_add_eq_iff [of 0 cap "Suc (length q)" T] Cons.prems(3) by simp
  let ?s = "s[T mod cap := None]"
  have slot: "?s ! ((Suc T + i) mod cap) = (if Suc i = cap then None else s ! ((T + Suc i) mod cap))"
    if "i < cap" for i
  proof (cases "Suc i = cap")
    case True
    then have "(Suc T + i) mod cap = T mod cap" by (metis add_Suc_shift mod_add_self2)
    with True cap0 Cons.prems(2) show ?thesis by simp
  next
    case False
    then show ?thesis
      using that mod_add_eq_iff [of "Suc i" cap 0 T] by (simp add: nth_list_update_neq)
  qed
  have "drop_range cfg f (Suc T mod cap) ((Suc T + length q) mod cap) ?s = Some (q, replicate cap None)"
  proof (rule Cons.IH)
    show "\<forall>i < length q. ?s ! ((Suc T + i) mod cap) = Some (q ! i)"
      using slot Cons.prems(3,5) by fastforce
    show "\<forall>i. length q \<le> i \<and> i < cap \<longrightarrow> ?s ! ((Suc T + i) mod cap) = None"
      using slot Cons.prems(6) by fastforce
  qed (use Cons.prems f in auto)
  moreover have "cfg_wrap cfg (T mod cap + 1) cap = Some (Suc T mod cap)"
    using wrap_next [OF Cons.prems(1) refl, of T] by simp
  ultimately show ?case
    using ne v cap0 Cons.prems(2)
    by (subst drop_range.simps) (simp add: f drop_occupied_slot_def)
qed

lemma drop_rep:
  assumes "ring_rep cfg r q"
  shows "ring_drop cfg r = Some (q, replicate (length (rg_storage r)) None)"
  using assms unfolding ring_rep_def Let_def ring_drop_def
  by (elim exE conjE) (auto intro!: drop_range_occupied)

end

section \<open>The ring is a bounded queue\<close>

lemma ring_config_bounded_queue:
  assumes "ring_config cfg"
  shows "bounded_queue (ring_rep cfg) ring_capacity (ring_push cfg) (ring_pop cfg)"
proof unfold_locales
  fix r q v
  assume rep: "ring_rep cfg r q"
  obtain r' where "ring_try_push cfg v r = Some (if length q < ring_capacity r then Inr () else Inl (Full v), r')"
    "ring_rep cfg r' (if length q < ring_capacity r then q @ [v] else q)"
    "length (rg_storage r') = length (rg_storage r)"
    using ring_config.try_push_rep [OF assms rep, of v] by blast
  then show "\<exists>r'. ring_push cfg v r = Some (length q < ring_capacity r, r') \<and>
      ring_rep cfg r' (if length q < ring_capacity r then q @ [v] else q) \<and> ring_capacity r' = ring_capacity r"
    by (intro exI [of _ r']) (simp add: ring_push_eq_try_push ring_capacity_def)
next
  fix r q
  assume rep: "ring_rep cfg r q"
  obtain r' where "ring_try_pop cfg r = Some (case q of [] \<Rightarrow> Inl QueueEmpty | v # _ \<Rightarrow> Inr v, r')"
    "ring_rep cfg r' (tl q)" "length (rg_storage r') = length (rg_storage r)"
    using ring_config.try_pop_rep [OF assms rep] by blast
  then show "\<exists>r'. ring_pop cfg r = Some (case q of [] \<Rightarrow> None | v # _ \<Rightarrow> Some v, r') \<and>
      ring_rep cfg r' (tl q) \<and> ring_capacity r' = ring_capacity r"
    by (intro exI [of _ r']) (cases q; simp add: ring_pop_eq_try_pop ring_capacity_def)
qed

sublocale ring_config \<subseteq> bounded_queue "ring_rep cfg" ring_capacity "ring_push cfg" "ring_pop cfg"
  by (rule ring_config_bounded_queue) (rule ring_config_axioms)

definition masked_cfg :: "bool \<Rightarrow> 'i Instrumentation \<Rightarrow> bool \<Rightarrow> 'i RingCfg" where
  "masked_cfg dbg ins arm = \<lparr> cfg_wrap = pow2_masked_wrap dbg, cfg_instr = ins, cfg_aarch64 = arm \<rparr>"

definition branch_cfg :: "'i Instrumentation \<Rightarrow> bool \<Rightarrow> 'i RingCfg" where
  "branch_cfg ins arm = \<lparr> cfg_wrap = branch_wrap, cfg_instr = ins, cfg_aarch64 = arm \<rparr>"

text \<open>The presets: \<open>SpscRing\<close>, \<open>SpscRingHeap\<close> and \<open>SpscRingInstrumented\<close> mask,
  \<open>SpscRingFast\<close> branches; each on either architecture.\<close>

interpretation masked_ring: ring_config "masked_cfg dbg ins arm"
  by unfold_locales (simp add: masked_cfg_def pow2.wrap_step)

interpretation branch_ring: ring_config "branch_cfg ins arm"
  by unfold_locales (simp add: branch_cfg_def branch.wrap_step)

definition preset_cfg :: "'i RingCfg \<Rightarrow> bool" where
  "preset_cfg cfg \<longleftrightarrow> (\<exists>dbg ins arm. cfg = masked_cfg dbg ins arm) \<or> (\<exists>ins arm. cfg = branch_cfg ins arm)"

lemma preset_ring_config: "preset_cfg cfg \<Longrightarrow> ring_config cfg"
  using masked_ring.ring_config_axioms branch_ring.ring_config_axioms by (auto simp: preset_cfg_def)

section \<open>Properties\<close>

text \<open>C4. The SPSC ring is a FIFO queue of capacity \<open>N - 1\<close>. For every preset (masked or branching
  index, with or without counters, on either architecture) and every storage of \<open>N\<close> slots, \<open>N\<close> a
  power of two, any sequence of pushes and pops on a fresh ring gives exactly the results of the
  reference queue: no slot is read uninitialised or out of bounds, a push fails only when
  \<open>N - 1\<close> values are queued, values come out in the order they went in, and the reported
  length is the number queued.\<close>

theorem spsc_ring_fifo:
  assumes "preset_cfg cfg" and "inline_storage_new N = Some s"
  shows "\<exists>r. queue_run (ring_push cfg) (ring_pop cfg) cs (ring_new s i) =
      Some (fst (fifo_run (N - 1) cs []), r) \<and> ring_len r = length (snd (fifo_run (N - 1) cs []))"
proof -
  have cfg: "ring_config cfg" using assms(1) by (rule preset_ring_config)
  have s: "is_power_of_two N" "s = replicate N None"
    using assms(2) by (auto simp: inline_storage_new_def split: if_splits)
  have rep: "ring_rep cfg (ring_new s i) []"
    unfolding s(2) by (rule ring_config.rep_new [OF cfg s(1)])
  have "ring_capacity (ring_new s i) = N - 1"
    by (simp add: s(2) ring_capacity_def ring_new_def)
  then obtain r where "queue_run (ring_push cfg) (ring_pop cfg) cs (ring_new s i) =
      Some (fst (fifo_run (N - 1) cs []), r)" "ring_rep cfg r (snd (fifo_run (N - 1) cs []))"
    using bounded_queue.run_fifo [OF ring_config_bounded_queue [OF cfg] rep, of cs] by auto
  with ring_rep_len show ?thesis by blast
qed

theorem spsc_ring_fifo_witness:
  "preset_cfg (masked_cfg True no_instr False) \<and>
   (\<exists>s r. inline_storage_new 2 = Some s \<and>
     queue_run (ring_push (masked_cfg True no_instr False)) (ring_pop (masked_cfg True no_instr False))
       [Push (7 :: nat), Push 8, Pop, Pop] (ring_new s ()) =
     Some ([Pushed True, Pushed False, Popped (Some 7), Popped None], r))"
proof -
  have p: "preset_cfg (masked_cfg True no_instr False)" by (auto simp: preset_cfg_def)
  have s: "inline_storage_new 2 = Some [None, None :: nat option]"
    using power_of_two_mask [of 1] by (simp add: inline_storage_new_def numeral_2_eq_2)
  show ?thesis
    using p s spsc_ring_fifo [OF p s, of "[Push 7, Push 8, Pop, Pop]" "()"] by auto
qed

text \<open>Dropping a ring releases every queued value exactly once, oldest first: after any history, the loop of
  \<open>drop_range\<close> terminates within \<open>N\<close> steps, drops the values the reference queue still holds, and leaves no
  slot occupied.\<close>

theorem spsc_ring_drop_releases:
  assumes "preset_cfg cfg" and "inline_storage_new N = Some s"
    and "queue_run (ring_push cfg) (ring_pop cfg) cs (ring_new s i) = Some (rs, r)"
  shows "ring_drop cfg r = Some (snd (fifo_run (N - 1) cs []), replicate N None)"
proof -
  have cfg: "ring_config cfg" using assms(1) by (rule preset_ring_config)
  have s: "is_power_of_two N" "s = replicate N None"
    using assms(2) by (auto simp: inline_storage_new_def split: if_splits)
  have rep: "ring_rep cfg (ring_new s i) []"
    unfolding s(2) by (rule ring_config.rep_new [OF cfg s(1)])
  have "ring_capacity (ring_new s i) = N - 1" by (simp add: s(2) ring_capacity_def ring_new_def)
  then have q: "ring_rep cfg r (snd (fifo_run (N - 1) cs []))" "ring_capacity r = ring_capacity (ring_new s i)"
    using bounded_queue.run_fifo [OF ring_config_bounded_queue [OF cfg] rep, of cs] assms(3) by auto
  have "N \<noteq> 0" using s(1) by (simp add: is_power_of_two_def)
  moreover have "rg_storage r \<noteq> []" using q(1) by (auto simp: ring_rep_def)
  ultimately have "length (rg_storage r) = N"
    using q(2) by (simp add: ring_capacity_def ring_new_def s(2)) (cases "rg_storage r"; simp)
  with ring_config.drop_rep [OF cfg q(1)] show ?thesis by simp
qed

theorem spsc_ring_drop_releases_witness:
  "\<exists>rs r. queue_run (ring_push (branch_cfg no_instr True)) (ring_pop (branch_cfg no_instr True))
      [Push (7 :: nat)] (ring_new [None, None] ()) = Some (rs, r) \<and>
     ring_drop (branch_cfg no_instr True) r = Some ([7], [None, None])"
proof -
  have p: "preset_cfg (branch_cfg no_instr True)" by (auto simp: preset_cfg_def)
  have s: "inline_storage_new 2 = Some [None, None :: nat option]"
    using power_of_two_mask [of 1] by (simp add: inline_storage_new_def numeral_2_eq_2)
  obtain rs r where run: "queue_run (ring_push (branch_cfg no_instr True)) (ring_pop (branch_cfg no_instr True))
      [Push (7 :: nat)] (ring_new [None, None] ()) = Some (rs, r)"
    by (simp add: ring_push_def own_head_def branch_cfg_def ring_new_def branch_wrap_def write_slot_def
        publish_head_def Let_def)
  with spsc_ring_drop_releases [OF p s run] show ?thesis by (auto simp: numeral_2_eq_2)
qed

end
