(* ===== verification/Copy_Ring.thy ===== *)
theory Copy_Ring
  imports Spsc_Ring
begin

text \<open>
  The ring for \<open>Copy\<close> types (\<open>crates/queue/src/copy_ring/\<close>): single pushes and pops that copy
  through the slot, and batch operations that move up to two contiguous chunks at once. The state
  is that of \<open>RingEngine\<close>. A copied-out slot keeps its old bits, so unlike in \<open>Spsc_Ring\<close> the
  free slots are not known to be empty. The batch operations wrap an index that may lie a whole
  lap ahead, so they need a \<open>batch_index_strategy\<close>; every copy-ring preset uses the mask.
\<close>

section \<open>Slots\<close>

definition write_slot_copy :: "usize \<Rightarrow> 'a \<Rightarrow> 'a slots \<Rightarrow> 'a slots panics" where
  "write_slot_copy index value slots =
     (if index < length slots then Some (slots[index := Some value]) else None)"

definition read_slot_copy :: "usize \<Rightarrow> 'a slots \<Rightarrow> 'a panics" where
  "read_slot_copy index slots = (if index < length slots then slots ! index else None)"

definition write_batch_copy :: "usize \<Rightarrow> 'a list \<Rightarrow> 'a slots \<Rightarrow> 'a slots panics" where
  "write_batch_copy start src slots =
     (if src = [] then Some slots
      else if start + length src \<le> length slots
      then Some (take start slots @ map Some src @ drop (start + length src) slots)
      else None)"

text \<open>Reading \<open>count\<close> slots; an uninitialised one among them is undefined behaviour.\<close>

definition read_batch_copy :: "usize \<Rightarrow> nat \<Rightarrow> 'a slots \<Rightarrow> 'a list panics" where
  "read_batch_copy start count slots =
     (if count = 0 then Some []
      else if start + count \<le> length slots \<and> None \<notin> set (take count (drop start slots))
      then Some (map the (take count (drop start slots)))
      else None)"

section \<open>Single operations\<close>

definition copy_push :: "'i RingCfg \<Rightarrow> 'a \<Rightarrow> ('a, 'i) RingEngine \<Rightarrow> (bool \<times> ('a, 'i) RingEngine) panics" where
  "copy_push cfg value self =
     do {
       let head = own_head cfg self;
       next_head \<leftarrow> cfg_wrap cfg (head + 1) (length (rg_storage self));
       let self = (if next_head = rg_tail_cached self
                   then self\<lparr> rg_tail_cached := rg_tail self \<rparr> else self);
       if next_head = rg_tail_cached self
       then Some (False, self\<lparr> rg_instr := on_push_full (cfg_instr cfg) (rg_instr self) \<rparr>)
       else do {
         storage \<leftarrow> write_slot_copy head value (rg_storage self);
         let self = publish_head cfg next_head (self\<lparr> rg_storage := storage \<rparr>);
         Some (True, self\<lparr> rg_instr := on_push (cfg_instr cfg) (rg_instr self) \<rparr>)
       }
     }"

definition copy_pop :: "'i RingCfg \<Rightarrow> ('a, 'i) RingEngine \<Rightarrow> ('a option \<times> ('a, 'i) RingEngine) panics" where
  "copy_pop cfg self =
     do {
       let tail = own_tail cfg self;
       let self = (if tail = rg_head_cached self
                   then self\<lparr> rg_head_cached := rg_head self \<rparr> else self);
       if tail = rg_head_cached self
       then Some (None, self\<lparr> rg_instr := on_pop_empty (cfg_instr cfg) (rg_instr self) \<rparr>)
       else do {
         value \<leftarrow> read_slot_copy tail (rg_storage self);
         next_tail \<leftarrow> cfg_wrap cfg (tail + 1) (length (rg_storage self));
         let self = publish_tail cfg next_tail self;
         Some (Some value, self\<lparr> rg_instr := on_pop (cfg_instr cfg) (rg_instr self) \<rparr>)
       }
     }"

section \<open>Batch operations\<close>

definition ring_distance :: "usize \<Rightarrow> usize \<Rightarrow> usize \<Rightarrow> usize" where
  "ring_distance cap from to = (if to \<ge> from then to - from else cap - from + to)"

definition copy_push_batch :: "'i RingCfg \<Rightarrow> 'a list \<Rightarrow> ('a, 'i) RingEngine \<Rightarrow>
    (usize \<times> ('a, 'i) RingEngine) panics" where
  "copy_push_batch cfg src self =
     (if src = [] then Some (0, self)
      else
        let head = own_head cfg self;
            cap = length (rg_storage self);
            usable = cap - 1;
            free = usable - ring_distance cap (rg_tail_cached self) head;
            (free, self) = (if free < length src
              then (usable - ring_distance cap (rg_tail self) head,
                    self\<lparr> rg_tail_cached := rg_tail self \<rparr>)
              else (free, self))
        in if free = 0 then Some (0, self)
           else do {
             let n = min (length src) free;
             let first_chunk = min n (cap - head);
             storage \<leftarrow> write_batch_copy head (take first_chunk src) (rg_storage self);
             storage \<leftarrow> write_batch_copy 0 (take (n - first_chunk) (drop first_chunk src)) storage;
             new_head \<leftarrow> cfg_wrap cfg (head + n) cap;
             Some (n, publish_head cfg new_head (self\<lparr> rg_storage := storage \<rparr>))
           })"

definition copy_pop_batch :: "'i RingCfg \<Rightarrow> 'a list \<Rightarrow> ('a, 'i) RingEngine \<Rightarrow>
    (usize \<times> 'a list \<times> ('a, 'i) RingEngine) panics" where
  "copy_pop_batch cfg dst self =
     (if dst = [] then Some (0, dst, self)
      else
        let tail = own_tail cfg self;
            cap = length (rg_storage self);
            avail = ring_distance cap tail (rg_head_cached self);
            (avail, self) = (if avail < length dst
              then (ring_distance cap tail (rg_head self), self\<lparr> rg_head_cached := rg_head self \<rparr>)
              else (avail, self))
        in if avail = 0 then Some (0, dst, self)
           else do {
             let n = min (length dst) avail;
             let first_chunk = min n (cap - tail);
             xs \<leftarrow> read_batch_copy tail first_chunk (rg_storage self);
             ys \<leftarrow> read_batch_copy 0 (n - first_chunk) (rg_storage self);
             new_tail \<leftarrow> cfg_wrap cfg (tail + n) cap;
             Some (n, xs @ ys @ drop n dst, publish_tail cfg new_tail self)
           })"

definition copy_len :: "('a, 'i) RingEngine \<Rightarrow> usize" where
  "copy_len self = ring_distance (length (rg_storage self)) (rg_tail self) (rg_head self)"

section \<open>Abstraction\<close>

definition copy_at :: "'i RingCfg \<Rightarrow> ('a, 'i) RingEngine \<Rightarrow> 'a list \<Rightarrow> nat \<Rightarrow> nat \<Rightarrow> nat \<Rightarrow> bool" where
  "copy_at cfg r q T k j \<longleftrightarrow> (let cap = length (rg_storage r) in
     is_power_of_two cap \<and> k \<le> T \<and> k + length q < cap \<and> j \<le> length q \<and>
     rg_tail r = T mod cap \<and> rg_head r = (T + length q) mod cap \<and>
     rg_tail_cached r = (T - k) mod cap \<and> rg_head_cached r = (T + j) mod cap \<and>
     (cfg_aarch64 cfg \<longrightarrow> rg_head_local r = rg_head r \<and> rg_tail_local r = rg_tail r) \<and>
     (\<forall>i < length q. rg_storage r ! ((T + i) mod cap) = Some (q ! i)))"

definition copy_rep :: "'i RingCfg \<Rightarrow> ('a, 'i) RingEngine \<Rightarrow> 'a list \<Rightarrow> bool" where
  "copy_rep cfg r q \<longleftrightarrow> (\<exists>T k j. copy_at cfg r q T k j)"

lemma copy_repI: "copy_at cfg r q T k j \<Longrightarrow> copy_rep cfg r q"
  by (auto simp: copy_rep_def)

lemma publish_storage [simp]:
  "rg_storage (publish_head cfg h r) = rg_storage r" "rg_storage (publish_tail cfg t r) = rg_storage r"
  by (simp_all add: publish_head_def publish_tail_def Let_def)

lemma map_nth_upt_take: "n \<le> length q \<Longrightarrow> map ((!) q) [0..<n] = take n q"
  by (rule nth_equalityI) simp_all

lemma ring_distance_mod:
  assumes "d < cap" and "from = x mod cap" and "to = (x + d) mod cap"
  shows "ring_distance cap from to = d"
proof -
  have m: "x mod cap < cap" using assms(1) by simp
  then have m': "x mod cap + d - cap < cap" using assms(1) by linarith
  have "to = (x mod cap + d) mod cap" by (simp add: assms(3) mod_add_left_eq)
  also have "\<dots> = (if x mod cap + d < cap then x mod cap + d else x mod cap + d - cap)"
    using m' le_mod_geq [of cap "x mod cap + d"] by (cases "x mod cap + d < cap") simp_all
  finally show ?thesis using assms(1,2) m by (auto simp: ring_distance_def split: if_splits)
qed

lemma copy_at_distances:
  assumes "copy_at cfg r q T k j"
  defines "cap \<equiv> length (rg_storage r)"
  shows "ring_distance cap (rg_tail_cached r) (rg_head r) = k + length q"
    and "ring_distance cap (rg_tail r) (rg_head r) = length q"
    and "ring_distance cap (rg_tail r) (rg_head_cached r) = j"
    and "own_head cfg r = rg_head r" and "own_tail cfg r = rg_tail r" and "0 < cap"
  using assms
    ring_distance_mod [of "k + length q" cap "rg_tail_cached r" "T - k" "rg_head r"]
    ring_distance_mod [of "length q" cap "rg_tail r" T "rg_head r"]
    ring_distance_mod [of j cap "rg_tail r" T "rg_head_cached r"]
  by (auto simp: copy_at_def Let_def own_head_def own_tail_def)

text \<open>A chunk written at position \<open>h\<close>, wrapping at the end of the array, lands at the slots
  \<open>h, h + 1, \<dots>\<close> modulo the capacity.\<close>

lemma write_batch_nth:
  assumes "start + length src \<le> length s"
  shows "\<exists>s'. write_batch_copy start src s = Some s' \<and> length s' = length s \<and>
    (\<forall>p < length s.
       s' ! p = (if start \<le> p \<and> p < start + length src then Some (src ! (p - start)) else s ! p))"
  using assms by (auto simp: write_batch_copy_def nth_append min_absorb2)

lemma write_chunks:
  assumes h: "h < cap" and "length s = cap" "length xs < cap"
  defines "f \<equiv> min (length xs) (cap - h)"
  shows "\<exists>s'. do { s1 \<leftarrow> write_batch_copy h (take f xs) s; write_batch_copy 0 (drop f xs) s1 } = Some s' \<and>
    length s' = cap \<and> (\<forall>i < cap. s' ! ((h + i) mod cap) = (if i < length xs then Some (xs ! i) else s ! ((h + i) mod cap)))"
proof -
  have f: "f \<le> length xs" "h + f \<le> cap" "f < length xs \<Longrightarrow> h + f = cap"
    using h by (auto simp: f_def)
  obtain s1 where s1: "write_batch_copy h (take f xs) s = Some s1" "length s1 = cap"
    "\<And>p. p < cap \<Longrightarrow> s1 ! p = (if h \<le> p \<and> p < h + f then Some (take f xs ! (p - h)) else s ! p)"
    using write_batch_nth [of h "take f xs" s] f assms(2) by (auto simp: min_absorb2)
  have le: "0 + length (drop f xs) \<le> length s1" using s1(2) assms(3) by simp
  obtain s2 where s2: "write_batch_copy 0 (drop f xs) s1 = Some s2" "length s2 = cap"
    "\<And>p. p < cap \<Longrightarrow> s2 ! p = (if p < length xs - f then Some (drop f xs ! p) else s1 ! p)"
    using write_batch_nth [OF le, unfolded diff_zero] s1(2) by auto
  have "s2 ! ((h + i) mod cap) = (if i < length xs then Some (xs ! i) else s ! ((h + i) mod cap))"
    if i: "i < cap" for i
  proof (cases "h + i < cap")
    case True
    have "\<not> h + i < length xs - f" using f True assms(3) by (cases "f < length xs") auto
    moreover have "i < f \<longleftrightarrow> i < length xs" using f True by (auto simp: f_def)
    ultimately show ?thesis using True s1(3) [of "h + i"] s2(3) [of "h + i"] by auto
  next
    case False
    then have m: "(h + i) mod cap = h + i - cap" "h + i - cap < h"
      using i h le_mod_geq [of cap "h + i"] by auto
    have "h + i - cap < length xs - f \<longleftrightarrow> i < length xs"
      using f False i by (cases "f < length xs") auto
    moreover have "f + (h + i - cap) = i" if "i < length xs"
      using f False that by (cases "f < length xs") auto
    ultimately show ?thesis
      using m h s1(3) [of "h + i - cap"] s2(3) [of "h + i - cap"] f(1) by auto
  qed
  with s1(1) s2(1,2) show ?thesis by auto
qed

lemma read_chunks:
  assumes "t < cap" "length s = cap" "n < cap" "\<forall>i < n. s ! ((t + i) mod cap) = Some (v i)"
  defines "f \<equiv> min n (cap - t)"
  shows "do { xs \<leftarrow> read_batch_copy t f s; ys \<leftarrow> read_batch_copy 0 (n - f) s; Some (xs @ ys) }
    = Some (map v [0..<n])"
proof -
  have f: "f \<le> n" "t + f \<le> cap" "f < n \<Longrightarrow> t + f = cap" using assms(1) by (auto simp: f_def)
  have a: "take f (drop t s) = map (\<lambda>i. Some (v i)) [0..<f]"
  proof (rule nth_equalityI)
    fix i assume "i < length (take f (drop t s))"
    then have "i < f" using f assms(2) by simp
    with f assms(2) show "take f (drop t s) ! i = map (\<lambda>i. Some (v i)) [0..<f] ! i"
      using assms(4) [rule_format, of i] by simp
  qed (use f assms(2) in simp)
  have b: "take (n - f) s = map (\<lambda>i. Some (v i)) [f..<n]"
  proof (rule nth_equalityI)
    fix i assume "i < length (take (n - f) s)"
    then have i: "i < n - f" by simp
    then have "t + (f + i) = cap + i" using f by auto
    then have "(t + (f + i)) mod cap = i mod cap" by (simp only: mod_add_self1)
    then have "(t + (f + i)) mod cap = i" using i assms(3) by simp
    with i show "take (n - f) s ! i = map (\<lambda>i. Some (v i)) [f..<n] ! i"
      using assms(4) [rule_format, of "f + i"] by simp
  qed (use assms(2,3) in simp)
  have "read_batch_copy t f s = Some (map v [0..<f])" "read_batch_copy 0 (n - f) s = Some (map v [f..<n])"
    using f assms(2,3) a b by (auto simp: read_batch_copy_def comp_def)
  moreover have "[0..<f] @ [f..<n] = [0..<n]" using f(1) by (metis le0 le_add_diff_inverse upt_add_eq_append)
  ultimately show ?thesis by (simp flip: map_append)
qed

section \<open>The operations on the queue\<close>

locale copy_ring_config = batch_index_strategy "cfg_wrap cfg" for cfg :: "'i RingCfg"
begin

lemma copy_new:
  assumes "is_power_of_two n"
  shows "copy_rep cfg (ring_new (replicate n None) instr) []"
  using assms
  by (auto simp: copy_rep_def copy_at_def ring_new_def Let_def is_power_of_two_def intro!: exI [of _ 0])

lemma wrap_ahead:
  assumes "is_power_of_two cap" "h = x mod cap" "n < cap"
  shows "cfg_wrap cfg (h + n) cap = Some ((x + n) mod cap)"
proof -
  have "h < cap" using assms by (simp add: is_power_of_two_def)
  then have "cfg_wrap cfg (h + n) cap = Some ((h + n) mod cap)"
    using assms(1,3) by (intro wrap_far) simp_all
  then show ?thesis by (simp add: assms(2) mod_add_left_eq)
qed

text \<open>Publishing a new head after the values are in their slots.\<close>

lemma copy_at_extend:
  assumes at: "copy_at cfg r q T k j" and room: "k + length q + length xs < length (rg_storage r)"
    and s: "length s = length (rg_storage r)"
    and slots: "\<forall>i < length s. s ! ((rg_head r + i) mod length s) =
      (if i < length xs then Some (xs ! i) else rg_storage r ! ((rg_head r + i) mod length s))"
  shows "copy_at cfg (publish_head cfg ((T + length q + length xs) mod length s) (r\<lparr> rg_storage := s \<rparr>))
    (q @ xs) T k j"
proof -
  let ?cap = "length (rg_storage r)"
  have R: "rg_head r = (T + length q) mod ?cap" "\<forall>i < length q. rg_storage r ! ((T + i) mod ?cap) = Some (q ! i)"
    using at by (auto simp: copy_at_def Let_def)
  have pos: "(rg_head r + i) mod ?cap = (T + length q + i) mod ?cap" for i
    by (simp add: R(1) mod_add_left_eq)
  have new: "s ! ((T + i) mod ?cap) = Some ((q @ xs) ! i)" if i: "i < length q + length xs" for i
  proof (cases "i < length q")
    case True
    have "T + length q + (?cap - length q + i) = T + i + ?cap" using room by simp
    then have "(rg_head r + (?cap - length q + i)) mod ?cap = (T + i) mod ?cap"
      by (simp only: pos mod_add_self2)
    moreover have "?cap - length q + i < ?cap" "\<not> ?cap - length q + i < length xs"
      using True room by auto
    ultimately show ?thesis
      using slots [rule_format, of "?cap - length q + i", unfolded s] True R(2) by (simp add: nth_append)
  next
    case False
    then have "(rg_head r + (i - length q)) mod ?cap = (T + i) mod ?cap"
      by (simp only: pos) simp
    moreover have "i - length q < ?cap" "i - length q < length xs" using False i room by auto
    ultimately show ?thesis
      using slots [rule_format, of "i - length q", unfolded s] False by (simp add: nth_append)
  qed
  then show ?thesis
    using at room s unfolding copy_at_def publish_head_def Let_def by (simp add: add.assoc)
qed

lemma copy_push_batch_rep:
  fixes src :: "'a list"
  assumes "copy_rep cfg r q"
  defines "n \<equiv> min (length src) (ring_capacity r - length q)"
  shows "\<exists>r'. copy_push_batch cfg src r = Some (n, r') \<and> copy_rep cfg r' (q @ take n src) \<and>
    length (rg_storage r') = length (rg_storage r)"
proof -
  obtain T k j where at: "copy_at cfg r q T k j" using assms(1) by (auto simp: copy_rep_def)
  let ?cap = "length (rg_storage r)"
  note d = copy_at_distances [OF at]
  have A: "is_power_of_two ?cap" "k \<le> T" "k + length q < ?cap" "rg_head r = (T + length q) mod ?cap"
    "rg_tail r = T mod ?cap"
    using at by (auto simp: copy_at_def Let_def)
  define b where "b = (?cap - 1 - (k + length q) < length src)"
  define k' where "k' = (if b then 0 else k)"
  define r1 where "r1 = (if b then r\<lparr> rg_tail_cached := rg_tail r \<rparr> else r)"
  have at1: "copy_at cfg r1 q T k' j"
    using at A by (auto simp: copy_at_def Let_def r1_def k'_def)
  have r1: "rg_storage r1 = rg_storage r" "rg_head r1 = rg_head r" by (simp_all add: r1_def)
  let ?free = "?cap - 1 - (k' + length q)"
  have n: "min (length src) ?free = n" "k' + length q + n < ?cap"
    using A(3) by (auto simp: n_def k'_def b_def ring_capacity_def split: if_splits)
  let ?f = "min n (?cap - rg_head r)"
  have unf: "copy_push_batch cfg src r =
      (if src = [] \<or> ?free = 0 then Some (0, if src = [] then r else r1)
       else do {
         s \<leftarrow> do { s1 \<leftarrow> write_batch_copy (rg_head r) (take ?f (take n src)) (rg_storage r);
                 write_batch_copy 0 (drop ?f (take n src)) s1 };
         new_head \<leftarrow> cfg_wrap cfg (rg_head r + n) ?cap;
         Some (n, publish_head cfg new_head (r1\<lparr> rg_storage := s \<rparr>)) })"
    using n(1) d
    by (auto simp: copy_push_batch_def Let_def b_def k'_def r1_def drop_take min_def)
  show ?thesis
  proof (cases "src = [] \<or> ?free = 0")
    case True
    then have "n = 0" using n(1) by auto
    with True unf at at1 show ?thesis
      by (cases "src = []") (auto simp: copy_rep_def r1)
  next
    case False
    have len: "length (take n src) = n" using n(1) by auto
    have h: "rg_head r < ?cap" using A(4) d(6) by simp
    obtain s where s: "do { s1 \<leftarrow> write_batch_copy (rg_head r) (take ?f (take n src)) (rg_storage r);
                 write_batch_copy 0 (drop ?f (take n src)) s1 } = Some s"
      "length s = ?cap" "\<forall>i < ?cap. s ! ((rg_head r + i) mod ?cap) =
        (if i < n then Some (take n src ! i) else rg_storage r ! ((rg_head r + i) mod ?cap))"
      using write_chunks [OF h refl, of "take n src", unfolded len] n(2) by auto
    have w: "cfg_wrap cfg (rg_head r + n) ?cap = Some ((T + length q + n) mod ?cap)"
      using n(2) by (intro wrap_ahead A) simp
    have "copy_at cfg (publish_head cfg ((T + length q + n) mod ?cap) (r1\<lparr> rg_storage := s \<rparr>))
        (q @ take n src) T k' j"
      using copy_at_extend [OF at1, of "take n src" s, unfolded len r1 s(2)] n(2) s(3) by blast
    moreover have "copy_push_batch cfg src r =
        Some (n, publish_head cfg ((T + length q + n) mod ?cap) (r1\<lparr> rg_storage := s \<rparr>))"
      unfolding unf s(1) using False w by simp
    ultimately show ?thesis
      using s(2) by (auto intro: copy_repI)
  qed
qed

text \<open>Publishing a new tail after \<open>n\<close> values were read.\<close>

lemma copy_at_shrink:
  assumes at: "copy_at cfg r q T k j" and n: "n \<le> j"
  shows "copy_at cfg (publish_tail cfg ((T + n) mod length (rg_storage r)) r) (drop n q) (T + n) (k + n) (j - n)"
proof -
  have R: "k + length q < length (rg_storage r)" "j \<le> length q" using at by (auto simp: copy_at_def Let_def)
  have "T + n + (length q - n) = T + length q" "T + n + (j - n) = T + j" using n R by auto
  moreover have "rg_storage r ! ((T + n + i) mod length (rg_storage r)) = Some (drop n q ! i)"
    if "i < length q - n" for i
    using at that by (auto simp: copy_at_def Let_def add.assoc)
  ultimately show ?thesis
    using at n R unfolding copy_at_def publish_tail_def Let_def by simp
qed

lemma copy_pop_batch_rep:
  fixes dst :: "'a list"
  assumes "copy_rep cfg r q"
  defines "n \<equiv> min (length dst) (length q)"
  shows "\<exists>r'. copy_pop_batch cfg dst r = Some (n, take n q @ drop n dst, r') \<and> copy_rep cfg r' (drop n q) \<and>
    length (rg_storage r') = length (rg_storage r)"
proof -
  obtain T k j where at: "copy_at cfg r q T k j" using assms(1) by (auto simp: copy_rep_def)
  let ?cap = "length (rg_storage r)"
  note d = copy_at_distances [OF at]
  have A: "is_power_of_two ?cap" "k + length q < ?cap" "j \<le> length q" "rg_tail r = T mod ?cap"
    "\<forall>i < length q. rg_storage r ! ((T + i) mod ?cap) = Some (q ! i)"
    using at by (auto simp: copy_at_def Let_def)
  define j' where "j' = (if j < length dst then length q else j)"
  define r1 where "r1 = (if j < length dst then r\<lparr> rg_head_cached := rg_head r \<rparr> else r)"
  have at1: "copy_at cfg r1 q T k j'"
    using at by (auto simp: copy_at_def Let_def r1_def j'_def)
  have r1: "rg_storage r1 = rg_storage r" by (simp add: r1_def)
  have n: "min (length dst) j' = n" "n \<le> j'" "n \<le> length q" "n < ?cap"
    using A(2,3) by (auto simp: n_def j'_def split: if_splits)
  let ?f = "min n (?cap - rg_tail r)"
  have unf: "copy_pop_batch cfg dst r =
      (if dst = [] \<or> j' = 0 then Some (0, dst, if dst = [] then r else r1)
       else do {
         xs \<leftarrow> read_batch_copy (rg_tail r) ?f (rg_storage r);
         ys \<leftarrow> read_batch_copy 0 (n - ?f) (rg_storage r);
         new_tail \<leftarrow> cfg_wrap cfg (rg_tail r + n) ?cap;
         Some (n, xs @ ys @ drop n dst, publish_tail cfg new_tail r1) })"
    using n(1) d by (auto simp: copy_pop_batch_def Let_def j'_def r1_def)
  show ?thesis
  proof (cases "dst = [] \<or> j' = 0")
    case True
    then have "n = 0" using n(1) by auto
    with True unf at at1 show ?thesis
      by (cases "dst = []") (auto simp: r1 intro: copy_repI)
  next
    case False
    have t: "rg_tail r < ?cap" using A(4) d(6) by simp
    have slots: "\<forall>i < n. rg_storage r ! ((rg_tail r + i) mod ?cap) = Some (q ! i)"
      using A(5) n(3) by (simp add: A(4) mod_add_left_eq)
    have w: "cfg_wrap cfg (rg_tail r + n) ?cap = Some ((T + n) mod ?cap)"
      using n(4) by (intro wrap_ahead A)
    have "do { xs \<leftarrow> read_batch_copy (rg_tail r) ?f (rg_storage r);
        ys \<leftarrow> read_batch_copy 0 (n - ?f) (rg_storage r); Some (xs @ ys) } = Some (map ((!) q) [0..<n])"
      using read_chunks [OF t refl n(4) slots] by simp
    then obtain xs ys where "read_batch_copy (rg_tail r) ?f (rg_storage r) = Some xs"
      "read_batch_copy 0 (n - ?f) (rg_storage r) = Some ys" "xs @ ys = take n q"
      using n(3) by (auto simp: map_nth_upt_take elim!: bind_eq_SomeE)
    then have "copy_pop_batch cfg dst r = Some (n, take n q @ drop n dst, publish_tail cfg ((T + n) mod ?cap) r1)"
      unfolding unf using False w by (simp flip: append_assoc)
    moreover have "copy_rep cfg (publish_tail cfg ((T + n) mod ?cap) r1) (drop n q)"
      using copy_at_shrink [OF at1 n(2)] r1 by (auto intro: copy_repI)
    ultimately show ?thesis by (simp add: r1)
  qed
qed

lemma copy_push_rep:
  assumes "copy_rep cfg r q"
  shows "\<exists>r'. copy_push cfg v r = Some (length q < ring_capacity r, r') \<and>
    copy_rep cfg r' (if length q < ring_capacity r then q @ [v] else q) \<and>
    length (rg_storage r') = length (rg_storage r)"
proof -
  obtain T k j where at: "copy_at cfg r q T k j" using assms(1) by (auto simp: copy_rep_def)
  let ?cap = "length (rg_storage r)" and ?next = "(T + length q + 1) mod length (rg_storage r)"
  note d = copy_at_distances [OF at]
  have A: "is_power_of_two ?cap" "k \<le> T" "k + length q < ?cap" "rg_head r = (T + length q) mod ?cap"
    "rg_tail r = T mod ?cap" "rg_tail_cached r = (T - k) mod ?cap"
    using at by (auto simp: copy_at_def Let_def)
  define k' where "k' = (if Suc (k + length q) = ?cap then 0 else k)"
  define r1 where "r1 = (if ?next = rg_tail_cached r then r\<lparr> rg_tail_cached := rg_tail r \<rparr> else r)"
  have "?next = rg_tail_cached r \<longleftrightarrow> Suc (k + length q) = ?cap"
    using mod_ahead_eq_iff [of k T "Suc (length q)" ?cap] A(2,3) d(6) by (auto simp: A(6))
  then have at1: "copy_at cfg r1 q T k' j"
    using at A by (auto simp: copy_at_def Let_def r1_def k'_def)
  have r1: "rg_storage r1 = rg_storage r" "rg_head r1 = rg_head r" by (simp_all add: r1_def)
  have A1: "rg_tail_cached r1 = (T - k') mod ?cap" "k' + length q < ?cap" "k' \<le> T"
    using at1 by (auto simp: copy_at_def Let_def r1)
  have test: "?next = rg_tail_cached r1 \<longleftrightarrow> \<not> length q < ring_capacity r"
    using mod_ahead_eq_iff [of k' T "Suc (length q)" ?cap] A1 A(3) d(6)
    by (auto simp: ring_capacity_def k'_def)
  have nxt: "cfg_wrap cfg (rg_head r + 1) ?cap = Some ?next"
    using wrap_next [OF A(1,4)] by simp
  have unf: "copy_push cfg v r =
      (if \<not> length q < ring_capacity r
       then Some (False, r1\<lparr> rg_instr := on_push_full (cfg_instr cfg) (rg_instr r1) \<rparr>)
       else do {
         s \<leftarrow> write_slot_copy (rg_head r) v (rg_storage r);
         let r2 = publish_head cfg ?next (r1\<lparr> rg_storage := s \<rparr>);
         Some (True, r2\<lparr> rg_instr := on_push (cfg_instr cfg) (rg_instr r2) \<rparr>) })"
    unfolding copy_push_def Let_def d(4) nxt bind.bind_lunit r1_def [symmetric] test r1(1) ..
  have instr: "copy_at cfg (x\<lparr> rg_instr := i \<rparr>) q' T' a b = copy_at cfg x q' T' a b" for x i q' T' a b
    by (simp add: copy_at_def)
  show ?thesis
  proof (cases "length q < ring_capacity r")
    case True
    let ?s = "(rg_storage r)[rg_head r := Some v]"
    have h: "rg_head r < ?cap" using A(4) d(6) by simp
    have "?s ! ((rg_head r + i) mod ?cap) = (if i < length [v] then Some ([v] ! i) else rg_storage r ! ((rg_head r + i) mod ?cap))"
      if "i < ?cap" for i
      using mod_add_eq_iff [of i ?cap 0 "rg_head r"] h that d(6) by (auto simp: nth_list_update)
    moreover have "k' + length q + length [v] < ?cap"
      using True A(3) A1(2) by (auto simp: k'_def ring_capacity_def)
    ultimately have "copy_at cfg (publish_head cfg ?next (r1\<lparr> rg_storage := ?s \<rparr>)) (q @ [v]) T k' j"
      using copy_at_extend [OF at1, of "[v]" ?s, unfolded r1] by simp
    with True h show ?thesis
      unfolding unf by (auto simp: write_slot_copy_def Let_def instr intro: copy_repI)
  next
    case False
    with at1 show ?thesis
      unfolding unf by (auto simp: instr r1 intro: copy_repI)
  qed
qed

lemma copy_pop_rep:
  assumes "copy_rep cfg r q"
  shows "\<exists>r'. copy_pop cfg r = Some (case q of [] \<Rightarrow> None | v # _ \<Rightarrow> Some v, r') \<and>
    copy_rep cfg r' (tl q) \<and> length (rg_storage r') = length (rg_storage r)"
proof -
  obtain T k j where at: "copy_at cfg r q T k j" using assms(1) by (auto simp: copy_rep_def)
  let ?cap = "length (rg_storage r)"
  note d = copy_at_distances [OF at]
  have A: "is_power_of_two ?cap" "k + length q < ?cap" "j \<le> length q" "rg_tail r = T mod ?cap"
    "\<forall>i < length q. rg_storage r ! ((T + i) mod ?cap) = Some (q ! i)" "rg_head_cached r = (T + j) mod ?cap"
    using at by (auto simp: copy_at_def Let_def)
  define j' where "j' = (if j = 0 then length q else j)"
  define r1 where "r1 = (if rg_tail r = rg_head_cached r then r\<lparr> rg_head_cached := rg_head r \<rparr> else r)"
  have "rg_tail r = rg_head_cached r \<longleftrightarrow> j = 0"
    using mod_add_eq_iff [of 0 ?cap j T] A(2,3) d(6) by (auto simp: A(4,6))
  then have at1: "copy_at cfg r1 q T k j'"
    using at by (auto simp: copy_at_def Let_def r1_def j'_def)
  have r1: "rg_storage r1 = rg_storage r" "rg_tail r1 = rg_tail r" by (simp_all add: r1_def)
  have "rg_head_cached r1 = (T + j') mod ?cap" using at1 by (auto simp: copy_at_def Let_def r1)
  then have test: "rg_tail r = rg_head_cached r1 \<longleftrightarrow> q = []"
    using mod_add_eq_iff [of 0 ?cap j' T] A(2,3) d(6) by (auto simp: A(4) j'_def)
  have unf: "copy_pop cfg r =
      (if q = [] then Some (None, r1\<lparr> rg_instr := on_pop_empty (cfg_instr cfg) (rg_instr r1) \<rparr>)
       else do {
         value \<leftarrow> read_slot_copy (rg_tail r) (rg_storage r);
         next_tail \<leftarrow> cfg_wrap cfg (rg_tail r + 1) ?cap;
         let r2 = publish_tail cfg next_tail r1;
         Some (Some value, r2\<lparr> rg_instr := on_pop (cfg_instr cfg) (rg_instr r2) \<rparr>) })"
    unfolding copy_pop_def Let_def d(5) r1_def [symmetric] test r1(1) ..
  have instr: "copy_at cfg (x\<lparr> rg_instr := i \<rparr>) q' T' a b = copy_at cfg x q' T' a b" for x i q' T' a b
    by (simp add: copy_at_def)
  show ?thesis
  proof (cases q)
    case Nil
    with at1 show ?thesis unfolding unf by (auto simp: instr r1 intro: copy_repI)
  next
    case (Cons v q')
    have "read_slot_copy (rg_tail r) (rg_storage r) = Some v"
      using A(5) [rule_format, of 0] Cons A(4) d(6) by (simp add: read_slot_copy_def)
    moreover have "cfg_wrap cfg (rg_tail r + 1) ?cap = Some ((T + 1) mod ?cap)"
      by (rule wrap_next [OF A(1,4)])
    moreover have "1 \<le> j'" using Cons by (simp add: j'_def)
    then have "copy_at cfg (publish_tail cfg ((T + 1) mod ?cap) r1) q' (T + 1) (k + 1) (j' - 1)"
      using copy_at_shrink [OF at1, of 1] Cons by (simp add: r1)
    ultimately show ?thesis
      using Cons unfolding unf by (auto simp: instr r1 Let_def intro: copy_repI)
  qed
qed

end

lemma copy_config_bounded_queue:
  assumes "copy_ring_config cfg"
  shows "bounded_queue (copy_rep cfg) ring_capacity (copy_push cfg) (copy_pop cfg)"
  using copy_ring_config.copy_push_rep [OF assms] copy_ring_config.copy_pop_rep [OF assms]
  by unfold_locales (fastforce simp: ring_capacity_def)+

sublocale copy_ring_config \<subseteq> bounded_queue "copy_rep cfg" ring_capacity "copy_push cfg" "copy_pop cfg"
  by (rule copy_config_bounded_queue) (rule copy_ring_config_axioms)

interpretation masked_copy_ring: copy_ring_config "masked_cfg dbg ins arm"
  by unfold_locales (simp_all add: masked_cfg_def pow2.wrap_step pow2.wrap_far)

section \<open>Batches against the reference\<close>

datatype 'a copy_cmd = CPush 'a | CPop | CPushBatch "'a list" | CPopBatch "'a list"

datatype 'a copy_res = RPush bool | RPop "'a option" | RPushBatch usize | RPopBatch usize "'a list"

fun copy_step :: "'i RingCfg \<Rightarrow> 'a copy_cmd \<Rightarrow> ('a, 'i) RingEngine \<Rightarrow>
    ('a copy_res \<times> ('a, 'i) RingEngine) panics" where
  "copy_step cfg (CPush v) r = do { (ok, r') \<leftarrow> copy_push cfg v r; Some (RPush ok, r') }"
| "copy_step cfg CPop r = do { (v, r') \<leftarrow> copy_pop cfg r; Some (RPop v, r') }"
| "copy_step cfg (CPushBatch xs) r = do { (n, r') \<leftarrow> copy_push_batch cfg xs r; Some (RPushBatch n, r') }"
| "copy_step cfg (CPopBatch dst) r = do { (n, dst', r') \<leftarrow> copy_pop_batch cfg dst r; Some (RPopBatch n dst', r') }"

fun copy_run :: "'i RingCfg \<Rightarrow> 'a copy_cmd list \<Rightarrow> ('a, 'i) RingEngine \<Rightarrow>
    ('a copy_res list \<times> ('a, 'i) RingEngine) panics" where
  "copy_run cfg [] r = Some ([], r)"
| "copy_run cfg (c # cs) r =
     do { (x, r') \<leftarrow> copy_step cfg c r; (xs, r'') \<leftarrow> copy_run cfg cs r'; Some (x # xs, r'') }"

text \<open>The reference: a batch push takes as long a prefix as there is room for, a batch pop hands
  out as many values as the buffer holds, oldest first, and leaves the rest of the buffer.\<close>

fun copy_ref_step :: "nat \<Rightarrow> 'a copy_cmd \<Rightarrow> 'a list \<Rightarrow> 'a copy_res \<times> 'a list" where
  "copy_ref_step b (CPush v) q = (RPush (length q < b), if length q < b then q @ [v] else q)"
| "copy_ref_step b CPop q = (RPop (case q of [] \<Rightarrow> None | v # _ \<Rightarrow> Some v), tl q)"
| "copy_ref_step b (CPushBatch xs) q =
     (let n = min (length xs) (b - length q) in (RPushBatch n, q @ take n xs))"
| "copy_ref_step b (CPopBatch dst) q =
     (let n = min (length dst) (length q) in (RPopBatch n (take n q @ drop n dst), drop n q))"

fun copy_ref_run :: "nat \<Rightarrow> 'a copy_cmd list \<Rightarrow> 'a list \<Rightarrow> 'a copy_res list \<times> 'a list" where
  "copy_ref_run b [] q = ([], q)"
| "copy_ref_run b (c # cs) q =
     (let (x, q') = copy_ref_step b c q; (xs, q'') = copy_ref_run b cs q' in (x # xs, q''))"

lemma copy_step_ref:
  assumes "copy_ring_config cfg" and "copy_rep cfg r q"
  shows "\<exists>r'. copy_step cfg c r = Some (fst (copy_ref_step (ring_capacity r) c q), r') \<and>
    copy_rep cfg r' (snd (copy_ref_step (ring_capacity r) c q)) \<and> ring_capacity r' = ring_capacity r"
proof (cases c)
  case (CPush v)
  then show ?thesis
    using copy_ring_config.copy_push_rep [OF assms, of v] by (auto simp: ring_capacity_def)
next
  case CPop
  then show ?thesis
    using copy_ring_config.copy_pop_rep [OF assms] by (auto simp: ring_capacity_def)
next
  case (CPushBatch xs)
  then show ?thesis
    using copy_ring_config.copy_push_batch_rep [OF assms, of xs] by (auto simp: ring_capacity_def Let_def)
next
  case (CPopBatch dst)
  then show ?thesis
    using copy_ring_config.copy_pop_batch_rep [OF assms, of dst] by (auto simp: ring_capacity_def Let_def)
qed

lemma copy_run_ref:
  assumes "copy_ring_config cfg" and "copy_rep cfg r q"
  shows "\<exists>r'. copy_run cfg cs r = Some (fst (copy_ref_run (ring_capacity r) cs q), r') \<and>
    copy_rep cfg r' (snd (copy_ref_run (ring_capacity r) cs q))"
  using assms(2)
proof (induction cs arbitrary: r q)
  case (Cons c cs)
  obtain r' where r': "copy_step cfg c r = Some (fst (copy_ref_step (ring_capacity r) c q), r')"
    "copy_rep cfg r' (snd (copy_ref_step (ring_capacity r) c q))" "ring_capacity r' = ring_capacity r"
    using copy_step_ref [OF assms(1) Cons.prems] by blast
  from Cons.IH [OF r'(2)] r'(1,3) show ?case by (auto simp: split_def Let_def)
qed simp

section \<open>Properties\<close>

text \<open>C6. The copy ring with its batch operations is a FIFO queue of capacity \<open>N - 1\<close>. Any mix of
  single and batch pushes and pops on a fresh masked ring of \<open>N\<close> slots gives exactly the results
  of the reference: the two chunk copies never leave the array or read an uninitialised slot, a
  batch push stores the longest prefix that fits, a batch pop delivers the oldest values in order
  and leaves the rest of the caller's buffer alone. This holds on both architectures and with
  either instrumentation.\<close>

theorem copy_ring_batches_fifo:
  assumes "inline_storage_new N = Some s"
  shows "\<exists>r. copy_run (masked_cfg dbg ins arm) cs (ring_new s i) = Some (fst (copy_ref_run (N - 1) cs []), r) \<and>
    copy_len r = length (snd (copy_ref_run (N - 1) cs []))"
proof -
  have s: "is_power_of_two N" "s = replicate N None"
    using assms by (auto simp: inline_storage_new_def split: if_splits)
  have cap: "ring_capacity (ring_new s i) = N - 1"
    by (simp add: s(2) ring_capacity_def ring_new_def)
  have rep: "copy_rep (masked_cfg dbg ins arm) (ring_new s i) []"
    unfolding s(2) by (rule masked_copy_ring.copy_new [OF s(1)])
  obtain r where r: "copy_run (masked_cfg dbg ins arm) cs (ring_new s i) =
      Some (fst (copy_ref_run (N - 1) cs []), r)"
    "copy_rep (masked_cfg dbg ins arm) r (snd (copy_ref_run (N - 1) cs []))"
    using copy_run_ref [OF masked_copy_ring.copy_ring_config_axioms rep, of cs] cap by auto
  from r(2) have "copy_len r = length (snd (copy_ref_run (N - 1) cs []))"
    unfolding copy_rep_def copy_len_def by (auto dest: copy_at_distances(2))
  with r(1) show ?thesis by blast
qed

theorem copy_ring_batches_fifo_witness:
  "\<exists>s r. inline_storage_new 4 = Some s \<and>
     copy_run (masked_cfg True no_instr False)
       [CPushBatch [1 :: nat, 2], CPop, CPushBatch [3, 4, 5], CPopBatch [0, 0, 0, 0]] (ring_new s ()) =
     Some ([RPushBatch 2, RPop (Some 1), RPushBatch 2, RPopBatch 3 [2, 3, 4, 0]], r)"
proof -
  have s: "inline_storage_new 4 = Some (replicate 4 (None :: nat option))"
    using power_of_two_mask [of 2] by (simp add: inline_storage_new_def)
  show ?thesis
    using s copy_ring_batches_fifo [OF s, of True no_instr False
      "[CPushBatch [1, 2], CPop, CPushBatch [3, 4, 5], CPopBatch [0, 0, 0, 0]]" "()"]
    by auto
qed

end
