(* ===== verification/Spsc_Concurrent.thy ===== *)
theory Spsc_Concurrent
  imports Spsc_Ring "HOL-Library.Sublist"
begin

text \<open>
  The SPSC ring under two threads (\<open>Producer\<close> and \<open>Consumer\<close> of \<open>crates/queue/src/handle.rs\<close> over
  \<open>engine.rs\<close>). A step is one access to shared memory of one thread: the acquire load of the
  other side's index, the access to a slot, the release store of the own index; the steps of the
  two threads interleave arbitrarily. Undefined behaviour (a slot past the end, a read of an
  empty slot, a write over a live value) sets a flag. The theorems show that it is never set, that
  the two threads never touch the same slot at the same time (so the slot accesses, ordered by
  the release and acquire of the indices, are free of data races), and that values arrive in order.

  Own indices are read from the shared index; the aarch64 build reads a private copy that holds
  the same number.
\<close>

section \<open>Threads\<close>

datatype 'a producer_pc =
    PIdle
  | PLoad 'a usize
  | PWrite 'a usize
  | PStore 'a usize

datatype 'a consumer_pc =
    CIdle
  | CLoad
  | CRead
  | CStore 'a usize

record 'a SpscState =
  sp_head :: usize
  sp_tail :: usize
  sp_slots :: "'a slots"
  sp_tail_cached :: usize
  sp_head_cached :: usize
  sp_prod :: "'a producer_pc"
  sp_cons :: "'a consumer_pc"
  sp_sent :: "'a list"
  sp_recv :: "'a list"
  sp_ub :: bool

text \<open>\<open>sp_sent\<close> and \<open>sp_recv\<close> record the published and the consumed values; the program has no
  such fields and no step reads them.\<close>

datatype 'a spsc_label = Tau | PushOk 'a | PushFull 'a | PopOk 'a | PopEmpty

definition spsc_init :: "'a slots \<Rightarrow> 'a SpscState" where
  "spsc_init storage = \<lparr> sp_head = 0, sp_tail = 0, sp_slots = storage, sp_tail_cached = 0,
     sp_head_cached = 0, sp_prod = PIdle, sp_cons = CIdle, sp_sent = [], sp_recv = [], sp_ub = False \<rparr>"

inductive spsc_step :: "(usize \<Rightarrow> usize \<Rightarrow> usize panics) \<Rightarrow> 'a SpscState \<Rightarrow> 'a spsc_label \<Rightarrow> 'a SpscState \<Rightarrow> bool"
  for wrap where
  push_start:
    "sp_prod s = PIdle \<Longrightarrow> wrap (sp_head s + 1) (length (sp_slots s)) = Some next_head \<Longrightarrow>
     spsc_step wrap s Tau (s\<lparr> sp_prod :=
       (if next_head = sp_tail_cached s then PLoad v next_head else PWrite v next_head) \<rparr>)"
| push_full:
    "sp_prod s = PLoad v next_head \<Longrightarrow> next_head = sp_tail s \<Longrightarrow>
     spsc_step wrap s (PushFull v) (s\<lparr> sp_tail_cached := sp_tail s, sp_prod := PIdle \<rparr>)"
| push_room:
    "sp_prod s = PLoad v next_head \<Longrightarrow> next_head \<noteq> sp_tail s \<Longrightarrow>
     spsc_step wrap s Tau (s\<lparr> sp_tail_cached := sp_tail s, sp_prod := PWrite v next_head \<rparr>)"
| push_write:
    "sp_prod s = PWrite v next_head \<Longrightarrow> sp_head s < length (sp_slots s) \<Longrightarrow>
     sp_slots s ! sp_head s = None \<Longrightarrow>
     spsc_step wrap s Tau
       (s\<lparr> sp_slots := (sp_slots s)[sp_head s := Some v], sp_prod := PStore v next_head \<rparr>)"
| push_write_ub:
    "sp_prod s = PWrite v next_head \<Longrightarrow>
     \<not> (sp_head s < length (sp_slots s) \<and> sp_slots s ! sp_head s = None) \<Longrightarrow>
     spsc_step wrap s Tau (s\<lparr> sp_ub := True \<rparr>)"
| push_publish:
    "sp_prod s = PStore v next_head \<Longrightarrow>
     spsc_step wrap s (PushOk v)
       (s\<lparr> sp_head := next_head, sp_prod := PIdle, sp_sent := sp_sent s @ [v] \<rparr>)"
| pop_start:
    "sp_cons s = CIdle \<Longrightarrow>
     spsc_step wrap s Tau (s\<lparr> sp_cons := (if sp_tail s = sp_head_cached s then CLoad else CRead) \<rparr>)"
| pop_empty:
    "sp_cons s = CLoad \<Longrightarrow> sp_tail s = sp_head s \<Longrightarrow>
     spsc_step wrap s PopEmpty (s\<lparr> sp_head_cached := sp_head s, sp_cons := CIdle \<rparr>)"
| pop_some:
    "sp_cons s = CLoad \<Longrightarrow> sp_tail s \<noteq> sp_head s \<Longrightarrow>
     spsc_step wrap s Tau (s\<lparr> sp_head_cached := sp_head s, sp_cons := CRead \<rparr>)"
| pop_read:
    "sp_cons s = CRead \<Longrightarrow> sp_tail s < length (sp_slots s) \<Longrightarrow> sp_slots s ! sp_tail s = Some v \<Longrightarrow>
     wrap (sp_tail s + 1) (length (sp_slots s)) = Some next_tail \<Longrightarrow>
     spsc_step wrap s Tau
       (s\<lparr> sp_slots := (sp_slots s)[sp_tail s := None], sp_cons := CStore v next_tail \<rparr>)"
| pop_read_ub:
    "sp_cons s = CRead \<Longrightarrow>
     \<not> (sp_tail s < length (sp_slots s) \<and> sp_slots s ! sp_tail s \<noteq> None) \<Longrightarrow>
     spsc_step wrap s Tau (s\<lparr> sp_ub := True \<rparr>)"
| pop_publish:
    "sp_cons s = CStore v next_tail \<Longrightarrow>
     spsc_step wrap s (PopOk v)
       (s\<lparr> sp_tail := next_tail, sp_cons := CIdle, sp_recv := sp_recv s @ [v] \<rparr>)"

inductive spsc_reachable :: "(usize \<Rightarrow> usize \<Rightarrow> usize panics) \<Rightarrow> 'a slots \<Rightarrow> 'a SpscState \<Rightarrow> bool"
  for wrap storage where
  init: "spsc_reachable wrap storage (spsc_init storage)"
| step: "spsc_reachable wrap storage s \<Longrightarrow> spsc_step wrap s l s' \<Longrightarrow> spsc_reachable wrap storage s'"

text \<open>Runs that count, for each thread, the steps it has taken of its own in the operation it is in. A step is the
  thread's own when it moves the thread's control state; the step that returns a result starts the count again.\<close>

definition push_steps :: "'a spsc_label \<Rightarrow> 'a SpscState \<Rightarrow> 'a SpscState \<Rightarrow> nat \<Rightarrow> nat" where
  "push_steps l s s' p = (case l of PushOk _ \<Rightarrow> 0 | PushFull _ \<Rightarrow> 0 | _ \<Rightarrow> if sp_prod s' = sp_prod s then p else p + 1)"

definition pop_steps :: "'a spsc_label \<Rightarrow> 'a SpscState \<Rightarrow> 'a SpscState \<Rightarrow> nat \<Rightarrow> nat" where
  "pop_steps l s s' c = (case l of PopOk _ \<Rightarrow> 0 | PopEmpty \<Rightarrow> 0 | _ \<Rightarrow> if sp_cons s' = sp_cons s then c else c + 1)"

inductive spsc_counted :: "(usize \<Rightarrow> usize \<Rightarrow> usize panics) \<Rightarrow> 'a slots \<Rightarrow> 'a SpscState \<Rightarrow> nat \<Rightarrow> nat \<Rightarrow> bool"
  for wrap storage where
  init: "spsc_counted wrap storage (spsc_init storage) 0 0"
| step: "spsc_counted wrap storage s p c \<Longrightarrow> spsc_step wrap s l s' \<Longrightarrow>
    spsc_counted wrap storage s' (push_steps l s s' p) (pop_steps l s s' c)"

inductive_cases push_full_stepE: "spsc_step wrap s (PushFull v) s'"
inductive_cases pop_empty_stepE: "spsc_step wrap s PopEmpty s'"

text \<open>How many steps a thread is from the end of its operation.\<close>

fun producer_rank :: "'a producer_pc \<Rightarrow> nat" where
  "producer_rank PIdle = 0"
| "producer_rank (PStore v nh) = 1"
| "producer_rank (PWrite v nh) = 2"
| "producer_rank (PLoad v nh) = 3"

fun consumer_rank :: "'a consumer_pc \<Rightarrow> nat" where
  "consumer_rank CIdle = 0"
| "consumer_rank (CStore v nt) = 1"
| "consumer_rank CRead = 2"
| "consumer_rank CLoad = 3"

section \<open>Invariant\<close>

definition producer_ok :: "nat \<Rightarrow> nat \<Rightarrow> nat \<Rightarrow> 'a producer_pc \<Rightarrow> bool" where
  "producer_ok N H TC pc = (case pc of
      PIdle \<Rightarrow> True
    | PLoad v nh \<Rightarrow> nh = Suc H mod N
    | PWrite v nh \<Rightarrow> nh = Suc H mod N \<and> Suc H < TC + N
    | PStore v nh \<Rightarrow> nh = Suc H mod N \<and> Suc H < TC + N)"

definition consumer_ok :: "nat \<Rightarrow> nat \<Rightarrow> nat \<Rightarrow> 'a list \<Rightarrow> 'a consumer_pc \<Rightarrow> bool" where
  "consumer_ok N T HC sent pc = (case pc of
      CIdle \<Rightarrow> True
    | CLoad \<Rightarrow> True
    | CRead \<Rightarrow> T < HC
    | CStore v nt \<Rightarrow> T < HC \<and> v = sent ! T \<and> nt = Suc T mod N)"

text \<open>What the slot of position \<open>i\<close> holds: the value sent there, unless the consumer has just
  moved it out; past the published values, only what the producer has just written.\<close>

definition slot_of :: "nat \<Rightarrow> nat \<Rightarrow> 'a list \<Rightarrow> 'a producer_pc \<Rightarrow> 'a consumer_pc \<Rightarrow> nat \<Rightarrow> 'a option" where
  "slot_of H T sent p c i =
     (if i < H then (case c of CStore _ _ \<Rightarrow> if i = T then None else Some (sent ! i)
                     | _ \<Rightarrow> Some (sent ! i))
      else if i = H then (case p of PStore v _ \<Rightarrow> Some v | _ \<Rightarrow> None)
      else None)"

definition slots_ok :: "nat \<Rightarrow> nat \<Rightarrow> nat \<Rightarrow> 'a list \<Rightarrow> 'a producer_pc \<Rightarrow> 'a consumer_pc \<Rightarrow> 'a slots \<Rightarrow> bool" where
  "slots_ok N H T sent p c slots \<longleftrightarrow> length slots = N \<and>
     (\<forall>i. T \<le> i \<and> i < T + N \<longrightarrow> slots ! (i mod N) = slot_of H T sent p c i)"

text \<open>Positions count from the creation of the ring, \<open>H\<close> the next to publish and \<open>T\<close> the next to
  consume; \<open>TC\<close> and \<open>HC\<close> are the positions behind the cached indices.\<close>

definition spsc_at :: "nat \<Rightarrow> nat \<Rightarrow> nat \<Rightarrow> nat \<Rightarrow> nat \<Rightarrow> 'a SpscState \<Rightarrow> bool" where
  "spsc_at N H T TC HC s \<longleftrightarrow>
     length (sp_sent s) = H \<and> length (sp_recv s) = T \<and> \<not> sp_ub s \<and> sp_recv s = take T (sp_sent s) \<and>
     H < TC + N \<and> TC \<le> T \<and> T \<le> HC \<and> HC \<le> H \<and>
     sp_head s = H mod N \<and> sp_tail s = T mod N \<and>
     sp_tail_cached s = TC mod N \<and> sp_head_cached s = HC mod N \<and>
     producer_ok N H TC (sp_prod s) \<and> consumer_ok N T HC (sp_sent s) (sp_cons s) \<and>
     slots_ok N H T (sp_sent s) (sp_prod s) (sp_cons s) (sp_slots s)"

definition spsc_inv :: "nat \<Rightarrow> 'a SpscState \<Rightarrow> bool" where
  "spsc_inv N s \<longleftrightarrow> is_power_of_two N \<and> (\<exists>H T TC HC. spsc_at N H T TC HC s)"

lemma mod_window_eq:
  fixes i j T N :: nat
  assumes "T \<le> i" "i < T + N" "T \<le> j" "j < T + N"
  shows "i mod N = j mod N \<longleftrightarrow> i = j"
  using mod_add_eq_iff [of "i - T" N "j - T" T] assms by auto

lemma mod_lap:
  fixes T x N :: nat
  assumes "T \<le> x" "x < T + N"
  shows "Suc x mod N = T mod N \<longleftrightarrow> Suc x = T + N"
proof (cases "Suc x = T + N")
  case False
  with assms mod_window_eq [of T "Suc x" N T] show ?thesis by auto
qed simp

text \<open>The effect of each slot access and of each index store on \<open>slots_ok\<close>.\<close>

lemma slots_ok_update:
  assumes "slots_ok N H T sent p c slots" "T \<le> j" "j < T + N"
    and "slot_of H T sent p' c' j = x"
    and "\<And>i. i \<noteq> j \<Longrightarrow> slot_of H T sent p' c' i = slot_of H T sent p c i"
  shows "slots_ok N H T sent p' c' (slots[j mod N := x])"
proof -
  have "slots[j mod N := x] ! (i mod N) = slot_of H T sent p' c' i" if "T \<le> i" "i < T + N" for i
    using assms that mod_window_eq [OF that assms(2,3)]
    by (cases "i = j") (simp_all add: slots_ok_def)
  with assms(1) show ?thesis by (simp add: slots_ok_def)
qed

lemma slots_ok_write:
  assumes "slots_ok N H T sent p c slots" "T \<le> H" "H < T + N"
  shows "slots_ok N H T sent (PStore v nh) c (slots[H mod N := Some v])"
  using assms(1-3) by (rule slots_ok_update) (simp_all add: slot_of_def)

lemma slots_ok_read:
  assumes "slots_ok N H T sent p c slots" "T < H" "H < T + N" "\<And>v nt. c \<noteq> CStore v nt"
  shows "slots_ok N H T sent p (CStore v nt) (slots[T mod N := None])"
  by (rule slots_ok_update [OF assms(1)])
    (use assms in \<open>auto simp: slot_of_def split: consumer_pc.splits\<close>)

lemma slots_ok_publish:
  assumes "slots_ok N H T sent (PStore v nh) c slots" "length sent = H"
    and "\<And>w nt. c = CStore w nt \<Longrightarrow> T < H"
  shows "slots_ok N (Suc H) T (sent @ [v]) PIdle c slots"
  using assms
  by (auto simp: slots_ok_def slot_of_def nth_append less_Suc_eq split: consumer_pc.splits)

lemma slots_ok_consume:
  assumes "slots_ok N H T sent p (CStore v nt) slots" "T < H" "H < T + N"
  shows "slots_ok N H (Suc T) sent p CIdle slots"
proof -
  have "slots ! (i mod N) = slot_of H (Suc T) sent p CIdle i" if "Suc T \<le> i" "i < Suc T + N" for i
  proof (cases "i = T + N")
    case True
    then have "slots ! (i mod N) = slot_of H T sent p (CStore v nt) T"
      using assms by (auto simp: slots_ok_def)
    with True assms show ?thesis by (simp add: slot_of_def)
  next
    case False
    then have "slots ! (i mod N) = slot_of H T sent p (CStore v nt) i"
      using assms that by (simp add: slots_ok_def)
    with that show ?thesis by (simp add: slot_of_def)
  qed
  with assms show ?thesis by (simp add: slots_ok_def)
qed

lemma slots_ok_pc [simp]:
  "slots_ok N H T sent (PLoad v nh) c slots = slots_ok N H T sent PIdle c slots"
  "slots_ok N H T sent (PWrite v nh) c slots = slots_ok N H T sent PIdle c slots"
  "slots_ok N H T sent p CLoad slots = slots_ok N H T sent p CIdle slots"
  "slots_ok N H T sent p CRead slots = slots_ok N H T sent p CIdle slots"
  by (simp_all add: slots_ok_def slot_of_def)

lemma slots_ok_head_empty:
  assumes "slots_ok N H T sent p c slots" "T \<le> H" "H < T + N" "\<And>v nh. p \<noteq> PStore v nh"
  shows "H mod N < length slots" "slots ! (H mod N) = None"
  using assms by (auto simp: slots_ok_def slot_of_def split: producer_pc.splits)

lemma slots_ok_tail_live:
  assumes "slots_ok N H T sent p c slots" "T < H" "H < T + N" "\<And>v nt. c \<noteq> CStore v nt"
  shows "T mod N < length slots" "slots ! (T mod N) = Some (sent ! T)"
  using assms by (auto simp: slots_ok_def slot_of_def split: consumer_pc.splits)

lemma spsc_init_inv:
  assumes "is_power_of_two N"
  shows "spsc_inv N (spsc_init (replicate N None))"
proof -
  have "0 < N" using assms by (simp add: is_power_of_two_def)
  then have "spsc_at N 0 0 0 0 (spsc_init (replicate N None))"
    by (simp add: spsc_at_def spsc_init_def producer_ok_def consumer_ok_def slots_ok_def slot_of_def)
  with assms show ?thesis by (auto simp: spsc_inv_def)
qed

text \<open>The effect of a load on the positions, whichever value between the last one seen and the newest it
  returns, and of a slot access and a store.\<close>

lemma spsc_push_load_at:
  assumes "spsc_at N H T TC HC s" "sp_prod s = PLoad v nh" "TC \<le> k" "k \<le> T"
  shows "spsc_at N H T k HC (s\<lparr> sp_tail_cached := k mod N, sp_prod := (if nh = k mod N then PIdle else PWrite v nh) \<rparr>)"
  using assms mod_lap [of k H N] by (auto simp: spsc_at_def producer_ok_def)

lemma spsc_pop_load_at:
  assumes "spsc_at N H T TC HC s" "sp_cons s = CLoad" "HC \<le> k" "k \<le> H"
  shows "spsc_at N H T TC k (s\<lparr> sp_head_cached := k mod N, sp_cons := (if sp_tail s = k mod N then CIdle else CRead) \<rparr>)"
proof -
  have "T < k" if "sp_tail s \<noteq> k mod N" using assms that by (cases "T = k") (auto simp: spsc_at_def)
  then show ?thesis using assms by (auto simp: spsc_at_def consumer_ok_def)
qed

lemma spsc_push_write_at:
  assumes at: "spsc_at N H T TC HC s" and pc: "sp_prod s = PWrite v nh"
  shows "sp_head s < length (sp_slots s)" "sp_slots s ! sp_head s = None"
    and "spsc_at N H T TC HC (s\<lparr> sp_slots := (sp_slots s)[sp_head s := Some v], sp_prod := PStore v nh \<rparr>)"
proof -
  have sl: "slots_ok N H T (sp_sent s) (sp_prod s) (sp_cons s) (sp_slots s)" and ord: "T \<le> H" "H < T + N"
    using at by (auto simp: spsc_at_def)
  show "sp_head s < length (sp_slots s)" "sp_slots s ! sp_head s = None"
    using slots_ok_head_empty [OF sl ord] at pc by (simp_all add: spsc_at_def)
  show "spsc_at N H T TC HC (s\<lparr> sp_slots := (sp_slots s)[sp_head s := Some v], sp_prod := PStore v nh \<rparr>)"
    using at slots_ok_write [OF sl ord] pc by (simp add: spsc_at_def producer_ok_def)
qed

lemma spsc_push_publish_at:
  assumes at: "spsc_at N H T TC HC s" and pc: "sp_prod s = PStore v nh"
  shows "spsc_at N (Suc H) T TC HC (s\<lparr> sp_head := nh, sp_prod := PIdle, sp_sent := sp_sent s @ [v] \<rparr>)"
proof -
  have "T < H" if "sp_cons s = CStore w nt" for w nt using that at by (simp add: spsc_at_def consumer_ok_def)
  with at pc have "slots_ok N (Suc H) T (sp_sent s @ [v]) PIdle (sp_cons s) (sp_slots s)"
    by (auto simp: spsc_at_def intro: slots_ok_publish)
  then show ?thesis using at pc
    by (auto simp: spsc_at_def producer_ok_def consumer_ok_def nth_append split: consumer_pc.splits)
qed

lemma spsc_pop_read_slot:
  assumes at: "spsc_at N H T TC HC s" and pc: "sp_cons s = CRead"
  shows "T < HC" "T < H" "sp_tail s < length (sp_slots s)" "sp_slots s ! sp_tail s = Some (sp_sent s ! T)"
proof -
  show lt: "T < HC" "T < H" using at pc by (auto simp: spsc_at_def consumer_ok_def)
  show "sp_tail s < length (sp_slots s)" "sp_slots s ! sp_tail s = Some (sp_sent s ! T)"
    using slots_ok_tail_live [of N H T "sp_sent s" "sp_prod s" "sp_cons s" "sp_slots s"] at pc lt by (auto simp: spsc_at_def)
qed

lemma spsc_pop_publish_at:
  assumes at: "spsc_at N H T TC HC s" and pc: "sp_cons s = CStore v nt"
  shows "spsc_at N H (Suc T) TC HC (s\<lparr> sp_tail := nt, sp_cons := CIdle, sp_recv := sp_recv s @ [v] \<rparr>)"
proof -
  have lt: "T < HC" "T < H" "v = sp_sent s ! T" "nt = Suc T mod N" "H < T + N"
    using at pc by (auto simp: spsc_at_def consumer_ok_def)
  have "slots_ok N H (Suc T) (sp_sent s) (sp_prod s) CIdle (sp_slots s)"
    using slots_ok_consume [OF _ lt(2,5), of "sp_sent s" "sp_prod s" v nt "sp_slots s"] at pc by (simp add: spsc_at_def)
  then show ?thesis using at lt by (simp add: spsc_at_def consumer_ok_def take_Suc_conv_app_nth)
qed

lemma spsc_pop_start_at:
  assumes "spsc_at N H T TC HC s" "sp_cons s = CIdle"
  shows "spsc_at N H T TC HC (s\<lparr> sp_cons := (if sp_tail s = sp_head_cached s then CLoad else CRead) \<rparr>)"
  using assms by (auto simp: spsc_at_def consumer_ok_def intro: le_neq_implies_less)

context index_strategy
begin

lemma spsc_push_start_at:
  assumes pow: "is_power_of_two N" and at: "spsc_at N H T TC HC s"
    and pc: "sp_prod s = PIdle" "wrap (sp_head s + 1) (length (sp_slots s)) = Some nh"
  shows "spsc_at N H T TC HC (s\<lparr> sp_prod := (if nh = sp_tail_cached s then PLoad v nh else PWrite v nh) \<rparr>)"
proof -
  have "nh = Suc H mod N" using wrap_next [OF pow refl, of H] at pc(2) by (simp add: spsc_at_def slots_ok_def)
  then show ?thesis using at pc(1) mod_lap [of TC H N] by (auto simp: spsc_at_def producer_ok_def)
qed

lemma spsc_pop_read_at:
  assumes pow: "is_power_of_two N" and at: "spsc_at N H T TC HC s" and pc: "sp_cons s = CRead"
    and v: "sp_slots s ! sp_tail s = Some v" and nt: "wrap (sp_tail s + 1) (length (sp_slots s)) = Some nt"
  shows "spsc_at N H T TC HC (s\<lparr> sp_slots := (sp_slots s)[sp_tail s := None], sp_cons := CStore v nt \<rparr>)"
proof -
  note lt = spsc_pop_read_slot [OF at pc]
  have sl: "slots_ok N H T (sp_sent s) (sp_prod s) CRead (sp_slots s)" and ord: "H < T + N"
    using at pc by (auto simp: spsc_at_def)
  have "v = sp_sent s ! T" using lt(4) v by simp
  moreover have "nt = Suc T mod N" using wrap_next [OF pow refl, of T] at nt by (simp add: spsc_at_def slots_ok_def)
  ultimately show ?thesis using at slots_ok_read [OF sl lt(2) ord, of v nt] lt pc by (simp add: spsc_at_def consumer_ok_def)
qed

lemma spsc_step_at:
  assumes pow: "is_power_of_two N" and at: "spsc_at N H T TC HC s" and step: "spsc_step wrap s l s'"
  shows "\<exists>H T TC HC. spsc_at N H T TC HC s'"
proof -
  note A = at [unfolded spsc_at_def]
  from step show ?thesis
  proof (cases rule: spsc_step.cases)
    case (push_start nh v)
    then show ?thesis using spsc_push_start_at [OF pow at] by blast
  next
    case (push_full v nh)
    then have "spsc_at N H T T HC s'" using spsc_push_load_at [OF at push_full(3), of T] A by simp
    then show ?thesis by blast
  next
    case (push_room v nh)
    then have "spsc_at N H T T HC s'" using spsc_push_load_at [OF at push_room(3), of T] A by simp
    then show ?thesis by blast
  next
    case (push_write v nh)
    then show ?thesis using spsc_push_write_at(3) [OF at] by blast
  next
    case (push_write_ub v nh)
    then show ?thesis using spsc_push_write_at(1,2) [OF at] by blast
  next
    case (push_publish v nh)
    then show ?thesis using spsc_push_publish_at [OF at] by blast
  next
    case pop_start
    then show ?thesis using spsc_pop_start_at [OF at] by blast
  next
    case pop_empty
    then have "spsc_at N H T TC H s'" using spsc_pop_load_at [OF at pop_empty(3), of H] A by simp
    then show ?thesis by blast
  next
    case pop_some
    then have "spsc_at N H T TC H s'" using spsc_pop_load_at [OF at pop_some(3), of H] A by simp
    then show ?thesis by blast
  next
    case (pop_read v nt)
    then show ?thesis using spsc_pop_read_at [OF pow at] by blast
  next
    case pop_read_ub
    then show ?thesis using spsc_pop_read_slot [OF at] by simp
  next
    case (pop_publish v nt)
    then show ?thesis using spsc_pop_publish_at [OF at] by blast
  qed
qed

lemma spsc_reachable_inv:
  assumes "spsc_reachable wrap (replicate N None) s" "is_power_of_two N"
  shows "spsc_inv N s"
  using assms
proof (induction rule: spsc_reachable.induct)
  case init
  then show ?case by (rule spsc_init_inv)
next
  case (step s l s')
  then show ?case using spsc_step_at by (fastforce simp: spsc_inv_def)
qed

lemma spsc_reachable_at:
  assumes "spsc_reachable wrap (replicate N None) s" "is_power_of_two N"
  obtains H T TC HC where "spsc_at N H T TC HC s"
  using spsc_reachable_inv [OF assms] by (auto simp: spsc_inv_def)

lemma spsc_safe:
  assumes "spsc_reachable wrap (replicate N None) s" "is_power_of_two N"
  shows "\<not> sp_ub s \<and> prefix (sp_recv s) (sp_sent s) \<and>
    length (sp_sent s) < length (sp_recv s) + N \<and>
    (\<forall>v nh. sp_prod s = PWrite v nh \<and> sp_cons s = CRead \<longrightarrow> sp_head s \<noteq> sp_tail s)"
  using spsc_reachable_at [OF assms]
proof cases
  case (1 H T TC HC)
  have "sp_head s \<noteq> sp_tail s" if "sp_prod s = PWrite v nh" "sp_cons s = CRead" for v nh
    using 1 that mod_window_eq [of T H N T] by (auto simp: spsc_at_def consumer_ok_def)
  with 1 show ?thesis
    using take_is_prefix [of T "sp_sent s"] by (simp add: spsc_at_def)
qed

lemma spsc_truthful:
  assumes "spsc_reachable wrap (replicate N None) s" "is_power_of_two N" "spsc_step wrap s l s'"
  shows "(\<forall>v. l = PushFull v \<longrightarrow> length (sp_sent s) = length (sp_recv s) + (N - 1)) \<and>
    (l = PopEmpty \<longrightarrow> sp_recv s = sp_sent s)"
  using spsc_reachable_at [OF assms(1,2)]
proof cases
  case (1 H T TC HC)
  have "length (sp_sent s) = length (sp_recv s) + (N - 1)" if "l = PushFull v" for v
    using assms(3) unfolding that
    by (rule push_full_stepE) (use 1 mod_lap [of T H N] in \<open>auto simp: spsc_at_def producer_ok_def\<close>)
  moreover have "sp_recv s = sp_sent s" if "l = PopEmpty"
    using assms(3) unfolding that
    by (rule pop_empty_stepE) (use 1 mod_window_eq [of T H N T] in \<open>auto simp: spsc_at_def\<close>)
  ultimately show ?thesis by blast
qed

lemma spsc_producer_steps:
  assumes "spsc_reachable wrap (replicate N None) s" "is_power_of_two N"
  shows "\<exists>l s'. spsc_step wrap s l s' \<and> sp_cons s' = sp_cons s \<and>
    (case sp_prod s of PIdle \<Rightarrow> sp_prod s' \<noteq> PIdle
     | _ \<Rightarrow> producer_rank (sp_prod s') < producer_rank (sp_prod s))"
  using spsc_reachable_at [OF assms]
proof cases
  case (1 H T TC HC)
  then have sl: "slots_ok N H T (sp_sent s) (sp_prod s) (sp_cons s) (sp_slots s)"
    and ord: "T \<le> H" "H < T + N" and head: "sp_head s = H mod N" by (auto simp: spsc_at_def)
  have len: "length (sp_slots s) = N" using sl by (simp add: slots_ok_def)
  show ?thesis
  proof (cases "sp_prod s")
    case PIdle
    have "wrap (sp_head s + 1) (length (sp_slots s)) = Some (Suc H mod N)"
      using wrap_next [OF assms(2) refl, of H] by (simp add: len head)
    from spsc_step.push_start [where wrap = wrap, OF PIdle this] show ?thesis
      using PIdle by (intro exI conjI) (assumption, auto)
  next
    case (PLoad v nh)
    then show ?thesis
      using spsc_step.push_full [OF PLoad, of wrap] spsc_step.push_room [OF PLoad, of wrap]
      by (cases "nh = sp_tail s") fastforce+
  next
    case (PWrite v nh)
    then have "sp_head s < length (sp_slots s)" "sp_slots s ! sp_head s = None"
      using slots_ok_head_empty [OF sl ord] head by auto
    from spsc_step.push_write [OF PWrite this] PWrite show ?thesis by fastforce
  next
    case (PStore v nh)
    from spsc_step.push_publish [OF PStore, of wrap] PStore show ?thesis by fastforce
  qed
qed

lemma spsc_consumer_steps:
  assumes "spsc_reachable wrap (replicate N None) s" "is_power_of_two N"
  shows "\<exists>l s'. spsc_step wrap s l s' \<and> sp_prod s' = sp_prod s \<and>
    (case sp_cons s of CIdle \<Rightarrow> sp_cons s' \<noteq> CIdle
     | _ \<Rightarrow> consumer_rank (sp_cons s') < consumer_rank (sp_cons s))"
  using spsc_reachable_at [OF assms]
proof cases
  case (1 H T TC HC)
  then have sl: "slots_ok N H T (sp_sent s) (sp_prod s) (sp_cons s) (sp_slots s)"
    and ord: "T \<le> H" "H < T + N" and tail: "sp_tail s = T mod N" by (auto simp: spsc_at_def)
  have len: "length (sp_slots s) = N" using sl by (simp add: slots_ok_def)
  show ?thesis
  proof (cases "sp_cons s")
    case CIdle
    from spsc_step.pop_start [OF CIdle, of wrap] show ?thesis
      using CIdle by (intro exI conjI) (assumption, auto)
  next
    case CLoad
    then show ?thesis
      using spsc_step.pop_empty [OF CLoad, of wrap] spsc_step.pop_some [OF CLoad, of wrap]
      by (cases "sp_tail s = sp_head s") fastforce+
  next
    case CRead
    then have "T < H" using 1 by (auto simp: spsc_at_def consumer_ok_def)
    then have "sp_tail s < length (sp_slots s)" "sp_slots s ! sp_tail s = Some (sp_sent s ! T)"
      using slots_ok_tail_live [OF sl _ ord(2)] CRead tail by auto
    moreover have "wrap (sp_tail s + 1) (length (sp_slots s)) = Some (Suc T mod N)"
      using wrap_next [OF assms(2) refl, of T] by (simp add: len tail)
    ultimately show ?thesis using spsc_step.pop_read [OF CRead, of _ wrap] CRead by fastforce
  next
    case (CStore v nt)
    from spsc_step.pop_publish [OF CStore, of wrap] CStore show ?thesis by fastforce
  qed
qed

end

text \<open>A step without undefined behaviour is the own step of one thread. It takes the operation of that thread
  nearer to its end, and ends it exactly when it returns a result.\<close>

definition push_advances :: "'a spsc_label \<Rightarrow> 'a SpscState \<Rightarrow> 'a SpscState \<Rightarrow> bool" where
  "push_advances l s s' \<longleftrightarrow> sp_cons s' = sp_cons s \<and> (\<forall>v. l \<noteq> PopOk v) \<and> l \<noteq> PopEmpty \<and>
     (if sp_prod s = PIdle then l = Tau \<and> sp_prod s' \<noteq> PIdle
      else producer_rank (sp_prod s') < producer_rank (sp_prod s) \<and> (sp_prod s' = PIdle \<longleftrightarrow> l \<noteq> Tau))"

definition pop_advances :: "'a spsc_label \<Rightarrow> 'a SpscState \<Rightarrow> 'a SpscState \<Rightarrow> bool" where
  "pop_advances l s s' \<longleftrightarrow> sp_prod s' = sp_prod s \<and> (\<forall>v. l \<noteq> PushOk v \<and> l \<noteq> PushFull v) \<and>
     (if sp_cons s = CIdle then l = Tau \<and> sp_cons s' \<noteq> CIdle
      else consumer_rank (sp_cons s') < consumer_rank (sp_cons s) \<and> (sp_cons s' = CIdle \<longleftrightarrow> l \<noteq> Tau))"

lemma step_advances:
  assumes "spsc_step wrap s l s'" "\<not> sp_ub s'"
  shows "push_advances l s s' \<or> pop_advances l s s'"
  using assms by cases (auto simp: push_advances_def pop_advances_def)

lemma rank_zero: "producer_rank q = 0 \<longleftrightarrow> q = PIdle" "consumer_rank r = 0 \<longleftrightarrow> r = CIdle"
  by (cases q; simp) (cases r; simp)

lemma rank_bound: "producer_rank q \<le> 3" "consumer_rank r \<le> 3"
  by (cases q; simp) (cases r; simp)

text \<open>The steps taken and the steps still needed are at most four together.\<close>

definition counts_ok :: "'a SpscState \<Rightarrow> nat \<Rightarrow> nat \<Rightarrow> bool" where
  "counts_ok s p c \<longleftrightarrow> (if sp_prod s = PIdle then p = 0 else p + producer_rank (sp_prod s) \<le> 4) \<and>
     (if sp_cons s = CIdle then c = 0 else c + consumer_rank (sp_cons s) \<le> 4)"

lemma push_advances_counts:
  assumes "counts_ok s p c" "push_advances l s s'"
  shows "counts_ok s' (push_steps l s s' p) (pop_steps l s s' c)"
  using assms rank_bound(1) [of "sp_prod s'"]
  by (cases "sp_prod s = PIdle"; cases l)
    (auto simp: counts_ok_def push_advances_def push_steps_def pop_steps_def split: if_splits)

lemma pop_advances_counts:
  assumes "counts_ok s p c" "pop_advances l s s'"
  shows "counts_ok s' (push_steps l s s' p) (pop_steps l s s' c)"
  using assms rank_bound(2) [of "sp_cons s'"]
  by (cases "sp_cons s = CIdle"; cases l)
    (auto simp: counts_ok_def pop_advances_def push_steps_def pop_steps_def split: if_splits)

lemma counted_reachable: "spsc_counted wrap storage s p c \<Longrightarrow> spsc_reachable wrap storage s"
  by (induction rule: spsc_counted.induct) (auto intro: spsc_reachable.intros)

lemma counts_ok_small:
  assumes "counts_ok s p c"
  shows "p \<le> 3 \<and> c \<le> 3"
  using assms rank_zero(1) [of "sp_prod s"] rank_zero(2) [of "sp_cons s"] by (auto simp: counts_ok_def split: if_splits)

section \<open>The two strategies of the crate\<close>

definition is_strategy :: "(usize \<Rightarrow> usize \<Rightarrow> usize panics) \<Rightarrow> bool" where
  "is_strategy wrap \<longleftrightarrow> wrap = branch_wrap \<or> wrap = pow2_masked_wrap True \<or> wrap = pow2_masked_wrap False"

lemma strategy_wraps: "is_strategy wrap \<Longrightarrow> index_strategy wrap"
  using branch.index_strategy_axioms pow2.index_strategy_axioms by (auto simp: is_strategy_def)

text \<open>C1. Whatever the interleaving of the producer's and the consumer's memory accesses, the ring
  never reads an empty slot, overwrites a live one or leaves its storage; the two threads are never
  about to access the same slot; and what the consumer has received is a prefix of what the producer
  has sent, with at most \<open>N - 1\<close> values in flight.\<close>

theorem spsc_concurrent_safe:
  assumes "is_strategy wrap" "is_power_of_two N" "spsc_reachable wrap (replicate N None) s"
  shows "\<not> sp_ub s \<and> prefix (sp_recv s) (sp_sent s) \<and>
    length (sp_sent s) < length (sp_recv s) + N \<and>
    (\<forall>v nh. sp_prod s = PWrite v nh \<and> sp_cons s = CRead \<longrightarrow> sp_head s \<noteq> sp_tail s)"
  using assms by (intro index_strategy.spsc_safe strategy_wraps)

text \<open>The ring does not report \<open>Full\<close> or \<open>Empty\<close> spuriously, although each side works from a
  stale copy of the other's index: at the step that reports \<open>Full\<close> there are \<open>N - 1\<close> values in the
  ring, at the step that reports \<open>Empty\<close> there are none.\<close>

theorem spsc_concurrent_truthful:
  assumes "is_strategy wrap" "is_power_of_two N" "spsc_reachable wrap (replicate N None) s"
    and "spsc_step wrap s l s'"
  shows "(\<forall>v. l = PushFull v \<longrightarrow> length (sp_sent s) = length (sp_recv s) + (N - 1)) \<and>
    (l = PopEmpty \<longrightarrow> sp_recv s = sp_sent s)"
  using assms by (intro index_strategy.spsc_truthful strategy_wraps)

lemma counted_ok:
  assumes "is_strategy wrap" "is_power_of_two N" "spsc_counted wrap (replicate N None) s p c"
  shows "counts_ok s p c"
  using assms(3)
proof (induction rule: spsc_counted.induct)
  case (step s p c l s')
  have "spsc_reachable wrap (replicate N None) s'"
    using spsc_reachable.step [OF counted_reachable [OF step.hyps(1)] step.hyps(2)] .
  then have "\<not> sp_ub s'" using index_strategy.spsc_safe [OF strategy_wraps [OF assms(1)] _ assms(2)] by blast
  with step show ?case using step_advances push_advances_counts pop_advances_counts by blast
qed (simp add: counts_ok_def spsc_init_def)

text \<open>C18. The ring is wait-free with a bound of four. In any run, whatever the other thread does and even if it never
  runs again, each thread can take a step of its own. Every possible step is the own step of exactly one of the two
  threads. A thread inside an operation has taken at most three steps in it since the operation began, whichever of its
  possible steps it took, so that every push and every pop returns with its fourth own step at the latest.\<close>

theorem spsc_wait_free:
  assumes "is_strategy wrap" "is_power_of_two N" "spsc_counted wrap (replicate N None) s p c"
  shows "p \<le> 3 \<and> c \<le> 3 \<and>
    (\<exists>l s'. spsc_step wrap s l s' \<and> sp_prod s' \<noteq> sp_prod s) \<and> (\<exists>l s'. spsc_step wrap s l s' \<and> sp_cons s' \<noteq> sp_cons s) \<and>
    (\<forall>l s'. spsc_step wrap s l s' \<longrightarrow> (sp_prod s' \<noteq> sp_prod s \<longleftrightarrow> sp_cons s' = sp_cons s) \<and>
      ((\<exists>v. l = PushOk v \<or> l = PushFull v) \<longleftrightarrow> sp_prod s \<noteq> PIdle \<and> sp_prod s' = PIdle) \<and>
      ((l = PopEmpty \<or> (\<exists>v. l = PopOk v)) \<longleftrightarrow> sp_cons s \<noteq> CIdle \<and> sp_cons s' = CIdle) \<and>
      push_steps l s s' p \<le> 3 \<and> pop_steps l s s' c \<le> 3)"
proof -
  note wraps = strategy_wraps [OF assms(1)]
  note reach = counted_reachable [OF assms(3)]
  have "p \<le> 3 \<and> c \<le> 3" using counts_ok_small [OF counted_ok [OF assms]] .
  moreover have "\<exists>l s'. spsc_step wrap s l s' \<and> sp_prod s' \<noteq> sp_prod s"
    using index_strategy.spsc_producer_steps [OF wraps reach assms(2)] by (cases "sp_prod s") fastforce+
  moreover have "\<exists>l s'. spsc_step wrap s l s' \<and> sp_cons s' \<noteq> sp_cons s"
    using index_strategy.spsc_consumer_steps [OF wraps reach assms(2)] by (cases "sp_cons s") fastforce+
  moreover have "(sp_prod s' \<noteq> sp_prod s \<longleftrightarrow> sp_cons s' = sp_cons s) \<and>
      ((\<exists>v. l = PushOk v \<or> l = PushFull v) \<longleftrightarrow> sp_prod s \<noteq> PIdle \<and> sp_prod s' = PIdle) \<and>
      ((l = PopEmpty \<or> (\<exists>v. l = PopOk v)) \<longleftrightarrow> sp_cons s \<noteq> CIdle \<and> sp_cons s' = CIdle) \<and>
      push_steps l s s' p \<le> 3 \<and> pop_steps l s s' c \<le> 3" if st: "spsc_step wrap s l s'" for l s'
  proof -
    have "\<not> sp_ub s'"
      using index_strategy.spsc_safe [OF wraps spsc_reachable.step [OF reach st] assms(2)] by blast
    then have adv: "push_advances l s s' \<or> pop_advances l s s'" by (rule step_advances [OF st])
    have "push_steps l s s' p \<le> 3 \<and> pop_steps l s s' c \<le> 3"
      using counts_ok_small [OF counted_ok [OF assms(1,2) spsc_counted.step [OF assms(3) st]]] .
    with adv show ?thesis
      by (cases l) (auto simp: push_advances_def pop_advances_def split: if_splits)
  qed
  ultimately show ?thesis by blast
qed

section \<open>Witnesses\<close>

text \<open>A ring of two slots: one value is pushed, and the push of a second finds it full.\<close>

definition two_slots :: "nat SpscState" where
  "two_slots = (spsc_init (replicate 2 None))"

definition two_slots_full :: "nat SpscState" where
  "two_slots_full = two_slots\<lparr> sp_head := 1, sp_slots := [Some 7, None], sp_sent := [7],
     sp_prod := PLoad 8 0 \<rparr>"

lemma two_slots_full_counted: "spsc_counted branch_wrap (replicate 2 None) two_slots_full 1 0"
proof -
  let ?s1 = "two_slots\<lparr> sp_prod := PWrite 7 1 \<rparr>"
  let ?s2 = "two_slots\<lparr> sp_slots := [Some 7, None], sp_prod := PStore 7 1 \<rparr>"
  let ?s3 = "two_slots\<lparr> sp_head := 1, sp_slots := [Some 7, None], sp_sent := [7] \<rparr>"
  note steps = two_slots_def spsc_init_def branch_wrap_def numeral_2_eq_2 push_steps_def pop_steps_def
  have 0: "spsc_counted branch_wrap (replicate 2 None) two_slots 0 0"
    unfolding two_slots_def by (rule spsc_counted.init)
  have "spsc_step branch_wrap two_slots Tau ?s1"
    using spsc_step.push_start [of two_slots branch_wrap 1 7] by (simp add: steps)
  from spsc_counted.step [OF 0 this] have 1: "spsc_counted branch_wrap (replicate 2 None) ?s1 1 0" by (simp add: steps)
  have "spsc_step branch_wrap ?s1 Tau ?s2"
    using spsc_step.push_write [of ?s1 7 1 branch_wrap] by (simp add: steps)
  from spsc_counted.step [OF 1 this] have 2: "spsc_counted branch_wrap (replicate 2 None) ?s2 2 0" by (simp add: steps)
  have "spsc_step branch_wrap ?s2 (PushOk 7) ?s3"
    using spsc_step.push_publish [of ?s2 7 1 branch_wrap] by (simp add: steps)
  from spsc_counted.step [OF 2 this] have 3: "spsc_counted branch_wrap (replicate 2 None) ?s3 0 0" by (simp add: steps)
  have "spsc_step branch_wrap ?s3 Tau two_slots_full"
    using spsc_step.push_start [of ?s3 branch_wrap 0 8] by (simp add: steps two_slots_full_def)
  from spsc_counted.step [OF 3 this] show ?thesis by (simp add: steps two_slots_full_def)
qed

lemmas two_slots_full_reachable = two_slots_full_counted [THEN counted_reachable]

lemma two_slots_full_step:
  "spsc_step branch_wrap two_slots_full (PushFull 8) (two_slots_full\<lparr> sp_prod := PIdle \<rparr>)"
  using spsc_step.push_full [of two_slots_full 8 0 branch_wrap]
  by (simp add: two_slots_full_def two_slots_def spsc_init_def)

lemma two_slots_pow2: "is_power_of_two 2"
  using power_of_two_mask [of 1] by simp

theorem spsc_concurrent_safe_witness:
  "\<not> sp_ub two_slots_full \<and> prefix (sp_recv two_slots_full) (sp_sent two_slots_full)"
  using spsc_concurrent_safe [OF _ two_slots_pow2 two_slots_full_reachable] by (simp add: is_strategy_def)

theorem spsc_concurrent_truthful_witness:
  "length (sp_sent two_slots_full) = length (sp_recv two_slots_full) + 1"
  using spsc_concurrent_truthful [OF _ two_slots_pow2 two_slots_full_reachable two_slots_full_step]
  by (simp add: is_strategy_def)

theorem spsc_wait_free_witness:
  "\<exists>l s'. spsc_step branch_wrap two_slots_full l s' \<and> sp_prod s' \<noteq> PLoad 8 0 \<and> push_steps l two_slots_full s' 1 \<le> 3"
proof -
  have pc: "sp_prod two_slots_full = PLoad 8 0" by (simp add: two_slots_full_def)
  from spsc_wait_free [OF _ two_slots_pow2 two_slots_full_counted] show ?thesis
    unfolding pc is_strategy_def by blast
qed

end
