(* ===== verification/Spsc_Release_Acquire.thy ===== *)
theory Spsc_Release_Acquire
  imports Spsc_Concurrent
begin

text \<open>
  The SPSC ring under a release/acquire memory (\<open>crates/queue/src/engine.rs\<close>), which is what \<open>Ordering::Release\<close> and
  \<open>Ordering::Acquire\<close> promise. \<open>Spsc_Concurrent\<close> lets every load return the newest value; here a load may return any value
  that is not older than one the thread has already seen, and whether a slot access of one thread is ordered with
  those of the other is decided by what the loads and stores of the indices synchronise. Each thread has a clock; an
  access to a slot leaves the thread's time there; a release store attaches the thread's clock to the value, and an
  acquire load that returns this value joins it. An access to a slot that does not come after the last conflicting
  access of the other thread is a data race, which is undefined behaviour in Rust and sets a flag.

  A message only carries the clock, not which values of other locations its writer had seen, so the model allows all
  the executions of the language's memory model for this program, and more.
\<close>

section \<open>Memory\<close>

datatype agent = Pusher | Popper

type_synonym clock = "agent \<Rightarrow> nat"

datatype ordering = Relaxed | Acquire | Release

text \<open>A value in the modification order of an atomic, with the clock a load of it can acquire.\<close>

record message =
  mg_value :: usize
  mg_clock :: clock

definition atomic_new :: "usize \<Rightarrow> message list" where
  "atomic_new v = [\<lparr> mg_value = v, mg_clock = (\<lambda>_. 0) \<rparr>]"

definition atomic_store :: "ordering \<Rightarrow> clock \<Rightarrow> usize \<Rightarrow> message list \<Rightarrow> message list" where
  "atomic_store ord c v log = log @ [\<lparr> mg_value = v, mg_clock = (if ord = Release then c else (\<lambda>_. 0)) \<rparr>]"

definition synchronise :: "ordering \<Rightarrow> message \<Rightarrow> clock \<Rightarrow> clock" where
  "synchronise ord m c = (if ord = Acquire then (\<lambda>t. max (c t) (mg_clock m t)) else c)"

definition tick :: "agent \<Rightarrow> clock \<Rightarrow> clock" where
  "tick t c = c(t := Suc (c t))"

text \<open>The ring itself, with the newest value of each index; the histories of the indices and how far into the other's
  each thread has read; the clocks; and for each slot the producer's time of the last write and the consumer's of the
  last read, zero for none.\<close>

record 'a RaState =
  ra_ring :: "'a SpscState"
  ra_head_log :: "message list"
  ra_tail_log :: "message list"
  ra_tail_seen :: nat
  ra_head_seen :: nat
  ra_pclock :: clock
  ra_cclock :: clock
  ra_writes :: "nat list"
  ra_reads :: "nat list"
  ra_race :: bool

definition ra_init :: "'a slots \<Rightarrow> 'a RaState" where
  "ra_init storage = \<lparr> ra_ring = spsc_init storage, ra_head_log = atomic_new 0, ra_tail_log = atomic_new 0,
     ra_tail_seen = 0, ra_head_seen = 0, ra_pclock = (\<lambda>_. 0), ra_cclock = (\<lambda>_. 0),
     ra_writes = replicate (length storage) 0, ra_reads = replicate (length storage) 0, ra_race = False \<rparr>"

text \<open>A write must come after every earlier access of the slot, a read after the last write.\<close>

definition write_ordered :: "usize \<Rightarrow> 'a RaState \<Rightarrow> bool" where
  "write_ordered i s \<longleftrightarrow> ra_writes s ! i \<le> ra_pclock s Pusher \<and> ra_reads s ! i \<le> ra_pclock s Popper"

definition read_ordered :: "usize \<Rightarrow> 'a RaState \<Rightarrow> bool" where
  "read_ordered i s \<longleftrightarrow> ra_writes s ! i \<le> ra_cclock s Pusher"

section \<open>Steps\<close>

inductive ra_step :: "(usize \<Rightarrow> usize \<Rightarrow> usize panics) \<Rightarrow> 'a RaState \<Rightarrow> 'a spsc_label \<Rightarrow> 'a RaState \<Rightarrow> bool"
  for wrap where
  push_start:
    "r = ra_ring s \<Longrightarrow> sp_prod r = PIdle \<Longrightarrow> wrap (sp_head r + 1) (length (sp_slots r)) = Some next_head \<Longrightarrow>
     ra_step wrap s Tau (s\<lparr> ra_ring := r\<lparr> sp_prod :=
       (if next_head = sp_tail_cached r then PLoad v next_head else PWrite v next_head) \<rparr> \<rparr>)"
| push_load:
    "r = ra_ring s \<Longrightarrow> sp_prod r = PLoad v next_head \<Longrightarrow> ra_tail_seen s \<le> k \<Longrightarrow> k < length (ra_tail_log s) \<Longrightarrow>
     m = ra_tail_log s ! k \<Longrightarrow>
     ra_step wrap s (if next_head = mg_value m then PushFull v else Tau)
       (s\<lparr> ra_ring := r\<lparr> sp_tail_cached := mg_value m,
             sp_prod := (if next_head = mg_value m then PIdle else PWrite v next_head) \<rparr>,
           ra_tail_seen := k, ra_pclock := synchronise Acquire m (ra_pclock s) \<rparr>)"
| push_write:
    "r = ra_ring s \<Longrightarrow> sp_prod r = PWrite v next_head \<Longrightarrow> sp_head r < length (sp_slots r) \<Longrightarrow>
     sp_slots r ! sp_head r = None \<Longrightarrow>
     ra_step wrap s Tau
       (s\<lparr> ra_ring := r\<lparr> sp_slots := (sp_slots r)[sp_head r := Some v], sp_prod := PStore v next_head \<rparr>,
           ra_race := ra_race s \<or> \<not> write_ordered (sp_head r) s, ra_pclock := tick Pusher (ra_pclock s),
           ra_writes := (ra_writes s)[sp_head r := Suc (ra_pclock s Pusher)] \<rparr>)"
| push_write_ub:
    "r = ra_ring s \<Longrightarrow> sp_prod r = PWrite v next_head \<Longrightarrow>
     \<not> (sp_head r < length (sp_slots r) \<and> sp_slots r ! sp_head r = None) \<Longrightarrow>
     ra_step wrap s Tau (s\<lparr> ra_ring := r\<lparr> sp_ub := True \<rparr> \<rparr>)"
| push_publish:
    "r = ra_ring s \<Longrightarrow> sp_prod r = PStore v next_head \<Longrightarrow>
     ra_step wrap s (PushOk v)
       (s\<lparr> ra_ring := r\<lparr> sp_head := next_head, sp_prod := PIdle, sp_sent := sp_sent r @ [v] \<rparr>,
           ra_head_log := atomic_store Release (ra_pclock s) next_head (ra_head_log s) \<rparr>)"
| pop_start:
    "r = ra_ring s \<Longrightarrow> sp_cons r = CIdle \<Longrightarrow>
     ra_step wrap s Tau (s\<lparr> ra_ring := r\<lparr> sp_cons := (if sp_tail r = sp_head_cached r then CLoad else CRead) \<rparr> \<rparr>)"
| pop_load:
    "r = ra_ring s \<Longrightarrow> sp_cons r = CLoad \<Longrightarrow> ra_head_seen s \<le> k \<Longrightarrow> k < length (ra_head_log s) \<Longrightarrow>
     m = ra_head_log s ! k \<Longrightarrow>
     ra_step wrap s (if sp_tail r = mg_value m then PopEmpty else Tau)
       (s\<lparr> ra_ring := r\<lparr> sp_head_cached := mg_value m, sp_cons := (if sp_tail r = mg_value m then CIdle else CRead) \<rparr>,
           ra_head_seen := k, ra_cclock := synchronise Acquire m (ra_cclock s) \<rparr>)"
| pop_read:
    "r = ra_ring s \<Longrightarrow> sp_cons r = CRead \<Longrightarrow> sp_tail r < length (sp_slots r) \<Longrightarrow> sp_slots r ! sp_tail r = Some v \<Longrightarrow>
     wrap (sp_tail r + 1) (length (sp_slots r)) = Some next_tail \<Longrightarrow>
     ra_step wrap s Tau
       (s\<lparr> ra_ring := r\<lparr> sp_slots := (sp_slots r)[sp_tail r := None], sp_cons := CStore v next_tail \<rparr>,
           ra_race := ra_race s \<or> \<not> read_ordered (sp_tail r) s, ra_cclock := tick Popper (ra_cclock s),
           ra_reads := (ra_reads s)[sp_tail r := Suc (ra_cclock s Popper)] \<rparr>)"
| pop_read_ub:
    "r = ra_ring s \<Longrightarrow> sp_cons r = CRead \<Longrightarrow>
     \<not> (sp_tail r < length (sp_slots r) \<and> sp_slots r ! sp_tail r \<noteq> None) \<Longrightarrow>
     ra_step wrap s Tau (s\<lparr> ra_ring := r\<lparr> sp_ub := True \<rparr> \<rparr>)"
| pop_publish:
    "r = ra_ring s \<Longrightarrow> sp_cons r = CStore v next_tail \<Longrightarrow>
     ra_step wrap s (PopOk v)
       (s\<lparr> ra_ring := r\<lparr> sp_tail := next_tail, sp_cons := CIdle, sp_recv := sp_recv r @ [v] \<rparr>,
           ra_tail_log := atomic_store Release (ra_cclock s) next_tail (ra_tail_log s) \<rparr>)"

inductive ra_reachable :: "(usize \<Rightarrow> usize \<Rightarrow> usize panics) \<Rightarrow> 'a slots \<Rightarrow> 'a RaState \<Rightarrow> bool"
  for wrap storage where
  init: "ra_reachable wrap storage (ra_init storage)"
| step: "ra_reachable wrap storage s \<Longrightarrow> ra_step wrap s l s' \<Longrightarrow> ra_reachable wrap storage s'"

section \<open>Invariant\<close>

text \<open>The \<open>k\<close>-th value of an index is position \<open>k\<close>.\<close>

definition log_ok :: "nat \<Rightarrow> nat \<Rightarrow> message list \<Rightarrow> bool" where
  "log_ok N n log \<longleftrightarrow> length log = Suc n \<and> (\<forall>k\<le>n. mg_value (log ! k) = k mod N)"

text \<open>A clock knows the writes of the unread positions below \<open>k\<close>, or the reads of the positions below \<open>k\<close> whose slot is
  not yet written again.\<close>

definition knows_writes :: "nat \<Rightarrow> nat \<Rightarrow> nat list \<Rightarrow> nat \<Rightarrow> clock \<Rightarrow> bool" where
  "knows_writes N T writes k c \<longleftrightarrow> (\<forall>i. T \<le> i \<and> i < k \<longrightarrow> writes ! (i mod N) \<le> c Pusher)"

definition knows_reads :: "nat \<Rightarrow> nat \<Rightarrow> nat list \<Rightarrow> nat \<Rightarrow> clock \<Rightarrow> bool" where
  "knows_reads N H reads k c \<longleftrightarrow> (\<forall>i. i < k \<and> H \<le> i + N \<longrightarrow> reads ! (i mod N) \<le> c Popper)"

definition clocks_ok :: "nat \<Rightarrow> nat \<Rightarrow> nat \<Rightarrow> nat \<Rightarrow> nat \<Rightarrow> 'a RaState \<Rightarrow> bool" where
  "clocks_ok N H T TC HC s \<longleftrightarrow>
     (\<forall>j<N. ra_writes s ! j \<le> ra_pclock s Pusher) \<and> (\<forall>j<N. ra_reads s ! j \<le> ra_cclock s Popper) \<and>
     (\<forall>k\<le>H. knows_writes N T (ra_writes s) k (mg_clock (ra_head_log s ! k))) \<and>
     knows_writes N T (ra_writes s) HC (ra_cclock s) \<and>
     (\<forall>k\<le>T. knows_reads N H (ra_reads s) k (mg_clock (ra_tail_log s ! k))) \<and>
     knows_reads N H (ra_reads s) TC (ra_pclock s) \<and>
     (\<forall>j<N. (case sp_cons (ra_ring s) of CStore _ _ \<Rightarrow> T < j | _ \<Rightarrow> T \<le> j) \<longrightarrow> ra_reads s ! j = 0)"

definition ra_at :: "nat \<Rightarrow> nat \<Rightarrow> nat \<Rightarrow> nat \<Rightarrow> nat \<Rightarrow> 'a RaState \<Rightarrow> bool" where
  "ra_at N H T TC HC s \<longleftrightarrow> spsc_at N H T TC HC (ra_ring s) \<and> \<not> ra_race s \<and>
     ra_tail_seen s = TC \<and> ra_head_seen s = HC \<and>
     log_ok N H (ra_head_log s) \<and> log_ok N T (ra_tail_log s) \<and>
     length (ra_writes s) = N \<and> length (ra_reads s) = N \<and> clocks_ok N H T TC HC s"

lemma ra_init_at:
  assumes "is_power_of_two N"
  shows "ra_at N 0 0 0 0 (ra_init (replicate N None))"
  using assms
  by (simp add: ra_at_def ra_init_def log_ok_def atomic_new_def clocks_ok_def knows_writes_def knows_reads_def
      spsc_at_def spsc_init_def producer_ok_def consumer_ok_def slots_ok_def slot_of_def is_power_of_two_def)

lemma log_ok_store: "log_ok N n log \<Longrightarrow> v = Suc n mod N \<Longrightarrow> log_ok N (Suc n) (atomic_store ord c v log)"
  by (auto simp: log_ok_def atomic_store_def nth_append le_Suc_eq)

lemma nth_store: "k < length log \<Longrightarrow> atomic_store ord c v log ! k = log ! k"
  by (simp add: atomic_store_def nth_append)

lemma nth_store_last: "log_ok N n log \<Longrightarrow> mg_clock (atomic_store Release c v log ! Suc n) = c"
  by (simp add: log_ok_def atomic_store_def nth_append)

lemma synchronise_knows:
  "knows_writes N T w k (mg_clock m) \<Longrightarrow> knows_writes N T w k (synchronise Acquire m c)"
  "knows_reads N H r k (mg_clock m) \<Longrightarrow> knows_reads N H r k (synchronise Acquire m c)"
  by (auto simp: knows_writes_def knows_reads_def synchronise_def le_max_iff_disj)

lemma synchronise_le: "x \<le> c t \<Longrightarrow> x \<le> synchronise Acquire m c t"
  by (simp add: synchronise_def le_max_iff_disj)

lemma knows_writes_update:
  assumes "knows_writes N T w k c" "length w = N" "T \<le> p" "p < T + N" "k \<le> p" "T \<le> T'"
  shows "knows_writes N T' (w[p mod N := x]) k c"
proof -
  have "p mod N \<noteq> i mod N" if "T \<le> i" "i < k" for i using mod_window_eq [of T p N i] assms that by auto
  then show ?thesis using assms by (auto simp: knows_writes_def nth_list_update_neq)
qed

lemma knows_reads_update:
  assumes "knows_reads N H r k c" "length r = N" "k \<le> p" "p < H"
  shows "knows_reads N H (r[p mod N := x]) k c"
proof -
  have "p mod N \<noteq> i mod N" if "i < k" "H \<le> i + N" for i using mod_window_eq [of i p N i] assms that by auto
  then show ?thesis using assms by (auto simp: knows_reads_def nth_list_update_neq)
qed

lemma knows_writes_mono: "knows_writes N T w k c \<Longrightarrow> T \<le> T' \<Longrightarrow> knows_writes N T' w k c"
  and knows_reads_mono: "knows_reads N H r k c \<Longrightarrow> H \<le> H' \<Longrightarrow> knows_reads N H' r k c"
  by (auto simp: knows_writes_def knows_reads_def)

section \<open>Loads\<close>

lemma ra_push_load:
  assumes at: "ra_at N H T TC HC s" and pc: "sp_prod (ra_ring s) = PLoad v nh"
    and k: "ra_tail_seen s \<le> k" "k < length (ra_tail_log s)" "m = ra_tail_log s ! k"
  shows "mg_value m = k mod N" "k \<le> T"
    and "ra_at N H T k HC (s\<lparr> ra_ring := (ra_ring s)\<lparr> sp_tail_cached := mg_value m,
             sp_prod := (if nh = mg_value m then PIdle else PWrite v nh) \<rparr>,
           ra_tail_seen := k, ra_pclock := synchronise Acquire m (ra_pclock s) \<rparr>)"
proof -
  note A = at [unfolded ra_at_def]
  show kT: "k \<le> T" and m: "mg_value m = k mod N" using A k by (auto simp: log_ok_def)
  have ring: "spsc_at N H T k HC ((ra_ring s)\<lparr> sp_tail_cached := mg_value m,
      sp_prod := (if nh = mg_value m then PIdle else PWrite v nh) \<rparr>)"
    unfolding m using A pc k(1) kT by (intro spsc_push_load_at) auto
  have "knows_reads N H (ra_reads s) k (synchronise Acquire m (ra_pclock s))"
    using A kT k(3) by (intro synchronise_knows) (auto simp: clocks_ok_def)
  then show "ra_at N H T k HC (s\<lparr> ra_ring := (ra_ring s)\<lparr> sp_tail_cached := mg_value m,
             sp_prod := (if nh = mg_value m then PIdle else PWrite v nh) \<rparr>,
           ra_tail_seen := k, ra_pclock := synchronise Acquire m (ra_pclock s) \<rparr>)"
    using A ring by (simp add: ra_at_def clocks_ok_def synchronise_le)
qed

lemma ra_pop_load:
  assumes at: "ra_at N H T TC HC s" and pc: "sp_cons (ra_ring s) = CLoad"
    and k: "ra_head_seen s \<le> k" "k < length (ra_head_log s)" "m = ra_head_log s ! k"
  shows "mg_value m = k mod N" "k \<le> H"
    and "ra_at N H T TC k (s\<lparr> ra_ring := (ra_ring s)\<lparr> sp_head_cached := mg_value m,
             sp_cons := (if sp_tail (ra_ring s) = mg_value m then CIdle else CRead) \<rparr>,
           ra_head_seen := k, ra_cclock := synchronise Acquire m (ra_cclock s) \<rparr>)"
proof -
  note A = at [unfolded ra_at_def]
  show kH: "k \<le> H" and m: "mg_value m = k mod N" using A k by (auto simp: log_ok_def)
  have ring: "spsc_at N H T TC k ((ra_ring s)\<lparr> sp_head_cached := mg_value m,
      sp_cons := (if sp_tail (ra_ring s) = mg_value m then CIdle else CRead) \<rparr>)"
    unfolding m using A pc k(1) kH by (intro spsc_pop_load_at) auto
  have "knows_writes N T (ra_writes s) k (synchronise Acquire m (ra_cclock s))"
    using A kH k(3) by (intro synchronise_knows) (auto simp: clocks_ok_def)
  then show "ra_at N H T TC k (s\<lparr> ra_ring := (ra_ring s)\<lparr> sp_head_cached := mg_value m,
             sp_cons := (if sp_tail (ra_ring s) = mg_value m then CIdle else CRead) \<rparr>,
           ra_head_seen := k, ra_cclock := synchronise Acquire m (ra_cclock s) \<rparr>)"
    using A ring pc by (simp add: ra_at_def clocks_ok_def synchronise_le)
qed

section \<open>Slot accesses\<close>

text \<open>The slot the producer writes was last read at a position whose read it has acquired, or never.\<close>

lemma ra_write_ordered:
  assumes at: "ra_at N H T TC HC s" and pc: "sp_prod (ra_ring s) = PWrite v nh"
  shows "write_ordered (sp_head (ra_ring s)) s"
proof -
  note A = at [unfolded ra_at_def] and C = at [unfolded ra_at_def clocks_ok_def]
  have head: "sp_head (ra_ring s) = H mod N" and room: "Suc H < TC + N" and ord: "T \<le> H" "0 < N" "HC \<le> H"
    using A pc by (auto simp: spsc_at_def producer_ok_def)
  have "ra_reads s ! (H mod N) \<le> ra_pclock s Popper"
  proof (cases "H < N")
    case True
    have "case sp_cons (ra_ring s) of CStore _ _ \<Rightarrow> T < H | _ \<Rightarrow> T \<le> H"
      using A ord by (auto simp: spsc_at_def consumer_ok_def split: consumer_pc.splits)
    then have "ra_reads s ! H = 0" using C True by blast
    with True show ?thesis by simp
  next
    case False
    then have "H - N < TC" "H \<le> (H - N) + N" using room by linarith+
    then have "ra_reads s ! ((H - N) mod N) \<le> ra_pclock s Popper" using C unfolding knows_reads_def by blast
    with False show ?thesis by (simp add: le_mod_geq)
  qed
  then show ?thesis using C ord(2) by (simp add: write_ordered_def head)
qed

lemma ra_read_ordered:
  assumes at: "ra_at N H T TC HC s" and pc: "sp_cons (ra_ring s) = CRead"
  shows "read_ordered (sp_tail (ra_ring s)) s"
  using at pc by (auto simp: ra_at_def clocks_ok_def spsc_at_def consumer_ok_def read_ordered_def knows_writes_def)

lemma ra_push_write:
  assumes at: "ra_at N H T TC HC s" and pc: "sp_prod (ra_ring s) = PWrite v nh" and r: "r = ra_ring s"
  shows "ra_at N H T TC HC (s\<lparr> ra_ring := r\<lparr> sp_slots := (sp_slots r)[sp_head r := Some v], sp_prod := PStore v nh \<rparr>,
           ra_race := ra_race s \<or> \<not> write_ordered (sp_head r) s, ra_pclock := tick Pusher (ra_pclock s),
           ra_writes := (ra_writes s)[sp_head r := Suc (ra_pclock s Pusher)] \<rparr>)"
proof -
  note A = at [unfolded ra_at_def] and C = at [unfolded ra_at_def clocks_ok_def]
  have head: "sp_head r = H mod N" and ord: "T \<le> H" "H < T + N" "HC \<le> H" using A r by (auto simp: spsc_at_def)
  let ?w = "(ra_writes s)[H mod N := Suc (ra_pclock s Pusher)]"
  have "\<forall>k\<le>H. knows_writes N T ?w k (mg_clock (ra_head_log s ! k))" "knows_writes N T ?w HC (ra_cclock s)"
    using C ord by (auto intro!: knows_writes_update)
  moreover have "\<forall>j<N. ?w ! j \<le> tick Pusher (ra_pclock s) Pusher"
    using C by (auto simp: nth_list_update tick_def le_SucI)
  moreover have "knows_reads N H (ra_reads s) TC (tick Pusher (ra_pclock s))"
    using C by (simp add: knows_reads_def tick_def)
  ultimately show ?thesis
    using A spsc_push_write_at(3) [of N H T TC HC r v nh] ra_write_ordered [OF at pc] pc unfolding r
    by (simp add: ra_at_def clocks_ok_def head [unfolded r])
qed

section \<open>Stores\<close>

lemma ra_push_publish:
  assumes at: "ra_at N H T TC HC s" and pc: "sp_prod (ra_ring s) = PStore v nh" and r: "r = ra_ring s"
  shows "ra_at N (Suc H) T TC HC (s\<lparr> ra_ring := r\<lparr> sp_head := nh, sp_prod := PIdle, sp_sent := sp_sent r @ [v] \<rparr>,
           ra_head_log := atomic_store Release (ra_pclock s) nh (ra_head_log s) \<rparr>)"
proof -
  note A = at [unfolded ra_at_def] and C = at [unfolded ra_at_def clocks_ok_def]
  let ?log = "atomic_store Release (ra_pclock s) nh (ra_head_log s)"
  have log: "log_ok N H (ra_head_log s)" and nh: "nh = Suc H mod N" and N: "0 < N"
    using A pc by (auto simp: spsc_at_def producer_ok_def)
  have "knows_writes N T (ra_writes s) k (mg_clock (?log ! k))" if "k \<le> Suc H" for k
  proof (cases "k = Suc H")
    case True
    then show ?thesis using C N by (simp add: nth_store_last [OF log] knows_writes_def)
  next
    case False
    then show ?thesis using C log that by (simp add: nth_store log_ok_def)
  qed
  then have "clocks_ok N (Suc H) T TC HC (s\<lparr> ra_ring := r\<lparr> sp_head := nh, sp_prod := PIdle, sp_sent := sp_sent r @ [v] \<rparr>,
      ra_head_log := ?log \<rparr>)"
    using C unfolding r by (auto simp: clocks_ok_def intro: knows_reads_mono)
  then show ?thesis using A spsc_push_publish_at [of N H T TC HC r v nh] pc log_ok_store [OF log nh] unfolding r
    by (simp add: ra_at_def)
qed

lemma ra_pop_publish:
  assumes at: "ra_at N H T TC HC s" and pc: "sp_cons (ra_ring s) = CStore v nt" and r: "r = ra_ring s"
  shows "ra_at N H (Suc T) TC HC (s\<lparr> ra_ring := r\<lparr> sp_tail := nt, sp_cons := CIdle, sp_recv := sp_recv r @ [v] \<rparr>,
           ra_tail_log := atomic_store Release (ra_cclock s) nt (ra_tail_log s) \<rparr>)"
proof -
  note A = at [unfolded ra_at_def] and C = at [unfolded ra_at_def clocks_ok_def]
  let ?log = "atomic_store Release (ra_cclock s) nt (ra_tail_log s)"
  have log: "log_ok N T (ra_tail_log s)" and nt: "nt = Suc T mod N" and N: "0 < N"
    using A pc by (auto simp: spsc_at_def consumer_ok_def)
  have "knows_reads N H (ra_reads s) k (mg_clock (?log ! k))" if "k \<le> Suc T" for k
  proof (cases "k = Suc T")
    case True
    then show ?thesis using C N by (simp add: nth_store_last [OF log] knows_reads_def)
  next
    case False
    then show ?thesis using C log that by (simp add: nth_store log_ok_def)
  qed
  then have "clocks_ok N H (Suc T) TC HC (s\<lparr> ra_ring := r\<lparr> sp_tail := nt, sp_cons := CIdle, sp_recv := sp_recv r @ [v] \<rparr>,
      ra_tail_log := ?log \<rparr>)"
    using C pc unfolding r by (auto simp: clocks_ok_def Suc_le_eq intro: knows_writes_mono)
  then show ?thesis using A spsc_pop_publish_at [of N H T TC HC r v nt] pc log_ok_store [OF log nt] unfolding r
    by (simp add: ra_at_def)
qed

context index_strategy
begin

lemma ra_pop_read:
  assumes pow: "is_power_of_two N" and at: "ra_at N H T TC HC s" and pc: "sp_cons (ra_ring s) = CRead" and r: "r = ra_ring s"
    and v: "sp_slots r ! sp_tail r = Some v" and nt: "wrap (sp_tail r + 1) (length (sp_slots r)) = Some nt"
  shows "ra_at N H T TC HC (s\<lparr> ra_ring := r\<lparr> sp_slots := (sp_slots r)[sp_tail r := None], sp_cons := CStore v nt \<rparr>,
           ra_race := ra_race s \<or> \<not> read_ordered (sp_tail r) s, ra_cclock := tick Popper (ra_cclock s),
           ra_reads := (ra_reads s)[sp_tail r := Suc (ra_cclock s Popper)] \<rparr>)"
proof -
  note A = at [unfolded ra_at_def] and C = at [unfolded ra_at_def clocks_ok_def]
  have ring: "spsc_at N H T TC HC (ra_ring s)" using A by simp
  have tail: "sp_tail r = T mod N" and ord: "TC \<le> T" using A r by (auto simp: spsc_at_def)
  note lt = spsc_pop_read_slot(1,2) [OF ring pc]
  let ?r = "(ra_reads s)[T mod N := Suc (ra_cclock s Popper)]"
  have "\<forall>k\<le>T. knows_reads N H ?r k (mg_clock (ra_tail_log s ! k))" "knows_reads N H ?r TC (ra_pclock s)"
    using C ord lt(2) by (auto intro!: knows_reads_update)
  moreover have "\<forall>j<N. ?r ! j \<le> tick Popper (ra_cclock s) Popper"
    using C by (auto simp: nth_list_update tick_def le_SucI)
  moreover have "knows_writes N T (ra_writes s) HC (tick Popper (ra_cclock s))"
    using C by (simp add: knows_writes_def tick_def)
  moreover have "?r ! j = 0" if "j < N" "T < j" for j
    using C pc that by simp
  ultimately show ?thesis
    using A spsc_pop_read_at [OF pow ring pc v [unfolded r] nt [unfolded r]] ra_read_ordered [OF at pc] unfolding r
    by (simp add: ra_at_def clocks_ok_def tail [unfolded r])
qed

theorem ra_step_at:
  assumes pow: "is_power_of_two N" and at: "ra_at N H T TC HC s" and step: "ra_step wrap s l s'"
  shows "\<exists>H T TC HC. ra_at N H T TC HC s'"
proof -
  note A = at [unfolded ra_at_def]
  have ring: "spsc_at N H T TC HC (ra_ring s)" using A by simp
  from step show ?thesis
  proof (cases rule: ra_step.cases)
    case (push_start r nh v)
    then have "ra_at N H T TC HC s'"
      using A spsc_push_start_at [OF pow ring, of nh v] by (simp add: ra_at_def clocks_ok_def)
    then show ?thesis by blast
  next
    case (push_load r v nh k m)
    then show ?thesis using ra_push_load(3) [OF at] by blast
  next
    case (push_write r v nh)
    then show ?thesis using ra_push_write [OF at] by blast
  next
    case (push_write_ub r v nh)
    then show ?thesis using spsc_push_write_at(1,2) [OF ring] by blast
  next
    case (push_publish r v nh)
    then show ?thesis using ra_push_publish [OF at] by blast
  next
    case (pop_start r)
    then have "ra_at N H T TC HC s'" using A spsc_pop_start_at [OF ring] by (simp add: ra_at_def clocks_ok_def)
    then show ?thesis by blast
  next
    case (pop_load r k m)
    then show ?thesis using ra_pop_load(3) [OF at] by blast
  next
    case (pop_read r v nt)
    then show ?thesis using ra_pop_read [OF pow at] by blast
  next
    case (pop_read_ub r)
    then show ?thesis using spsc_pop_read_slot [OF ring] by simp
  next
    case (pop_publish r v nt)
    then show ?thesis using ra_pop_publish [OF at] by blast
  qed
qed

lemma ra_reachable_at:
  assumes "ra_reachable wrap (replicate N None) s" "is_power_of_two N"
  shows "\<exists>H T TC HC. ra_at N H T TC HC s"
  using assms(1)
proof induction
  case init
  show ?case using ra_init_at [OF assms(2)] by blast
next
  case (step s l s')
  then show ?case using ra_step_at [OF assms(2)] by blast
qed

lemma ra_safe:
  assumes "ra_reachable wrap (replicate N None) s" "is_power_of_two N"
  shows "\<not> ra_race s" "\<not> sp_ub (ra_ring s)" "prefix (sp_recv (ra_ring s)) (sp_sent (ra_ring s))"
    and "length (sp_sent (ra_ring s)) < length (sp_recv (ra_ring s)) + N"
proof -
  obtain H T TC HC where "ra_at N H T TC HC s" using ra_reachable_at [OF assms] by blast
  then have A: "spsc_at N H T TC HC (ra_ring s)" "\<not> ra_race s" by (auto simp: ra_at_def)
  then show "\<not> ra_race s" "\<not> sp_ub (ra_ring s)" "length (sp_sent (ra_ring s)) < length (sp_recv (ra_ring s)) + N"
    by (auto simp: spsc_at_def)
  show "prefix (sp_recv (ra_ring s)) (sp_sent (ra_ring s))"
    using A take_is_prefix [of T "sp_sent (ra_ring s)"] by (simp add: spsc_at_def)
qed

text \<open>What a report means: it is true of the version of the other index that the load returned.\<close>

lemma ra_full_reports:
  assumes reach: "ra_reachable wrap (replicate N None) s" "is_power_of_two N" and step: "ra_step wrap s (PushFull v) s'"
  shows "ra_tail_seen s' \<le> length (sp_recv (ra_ring s)) \<and> length (sp_sent (ra_ring s)) = ra_tail_seen s' + (N - 1)"
proof -
  obtain H T TC HC where at: "ra_at N H T TC HC s" using ra_reachable_at [OF reach] by blast
  note A = at [unfolded ra_at_def spsc_at_def]
  from step show ?thesis
  proof cases
    case (push_load r v' nh k m)
    then have full: "nh = mg_value m" by (simp split: if_splits)
    have pc: "sp_prod (ra_ring s) = PLoad v' nh" using push_load by simp
    have k: "mg_value m = k mod N" "k \<le> T" "TC \<le> k" using ra_push_load(1,2) [OF at pc] push_load A by auto
    then have "Suc H mod N = k mod N" using A pc full by (simp add: producer_ok_def)
    moreover have "k \<le> H" "H < k + N" using A k by linarith+
    ultimately have "Suc H = k + N" using mod_lap [of k H N] by simp
    then show ?thesis using A k push_load by simp
  qed (simp_all split: if_splits)
qed

lemma ra_empty_reports:
  assumes reach: "ra_reachable wrap (replicate N None) s" "is_power_of_two N" and step: "ra_step wrap s PopEmpty s'"
  shows "ra_head_seen s' \<le> length (sp_sent (ra_ring s)) \<and> length (sp_recv (ra_ring s)) = ra_head_seen s'"
proof -
  obtain H T TC HC where at: "ra_at N H T TC HC s" using ra_reachable_at [OF reach] by blast
  note A = at [unfolded ra_at_def spsc_at_def]
  from step show ?thesis
  proof cases
    case (pop_load r k m)
    then have empty: "sp_tail (ra_ring s) = mg_value m" by (simp split: if_splits)
    have pc: "sp_cons (ra_ring s) = CLoad" using pop_load by simp
    have k: "mg_value m = k mod N" "k \<le> H" "HC \<le> k" using ra_pop_load(1,2) [OF at pc] pop_load A by auto
    then have "T mod N = k mod N" using A empty by simp
    moreover have "T \<le> k" "k < T + N" using A k by linarith+
    ultimately have "T = k" using mod_window_eq [of T T N k] by simp
    then show ?thesis using A k pop_load by simp
  qed (simp_all split: if_splits)
qed

end

section \<open>Relation to sequential consistency\<close>

text \<open>Loads that always return the newest value are a special case, so every execution of \<open>Spsc_Concurrent\<close> is one here.\<close>

definition newest :: "'a RaState \<Rightarrow> bool" where
  "newest s \<longleftrightarrow> ra_head_log s \<noteq> [] \<and> mg_value (last (ra_head_log s)) = sp_head (ra_ring s) \<and> ra_head_seen s < length (ra_head_log s) \<and>
     ra_tail_log s \<noteq> [] \<and> mg_value (last (ra_tail_log s)) = sp_tail (ra_ring s) \<and> ra_tail_seen s < length (ra_tail_log s)"

lemma newest_last:
  assumes "newest s"
  shows "last (ra_tail_log s) = ra_tail_log s ! (length (ra_tail_log s) - 1)"
    and "last (ra_head_log s) = ra_head_log s ! (length (ra_head_log s) - 1)"
    and "ra_tail_seen s \<le> length (ra_tail_log s) - 1" "length (ra_tail_log s) - 1 < length (ra_tail_log s)"
    and "ra_head_seen s \<le> length (ra_head_log s) - 1" "length (ra_head_log s) - 1 < length (ra_head_log s)"
  using assms by (auto simp: newest_def last_conv_nth)

lemma newest_step:
  assumes new: "newest s" and step: "spsc_step wrap (ra_ring s) l r'"
  shows "\<exists>s'. ra_step wrap s l s' \<and> ra_ring s' = r' \<and> newest s'"
  using step
proof cases
  case (push_start nh v)
  show ?thesis unfolding push_start(1,2)
    by (rule exI, intro conjI, rule ra_step.push_start [where s = s and wrap = wrap, OF refl push_start(3,4)]) (use new in \<open>simp_all add: newest_def\<close>)
next
  case (push_full v nh)
  have "ra_step wrap s l (s\<lparr> ra_ring := r', ra_tail_seen := length (ra_tail_log s) - 1,
      ra_pclock := synchronise Acquire (last (ra_tail_log s)) (ra_pclock s) \<rparr>)"
    using ra_step.push_load [where s = s and wrap = wrap, OF refl push_full(3) newest_last(3,4,1) [OF new]] push_full new by (simp add: newest_def)
  then show ?thesis using push_full new by (intro exI conjI) (assumption, simp_all add: newest_def)
next
  case (push_room v nh)
  have "ra_step wrap s l (s\<lparr> ra_ring := r', ra_tail_seen := length (ra_tail_log s) - 1,
      ra_pclock := synchronise Acquire (last (ra_tail_log s)) (ra_pclock s) \<rparr>)"
    using ra_step.push_load [where s = s and wrap = wrap, OF refl push_room(3) newest_last(3,4,1) [OF new]] push_room new by (simp add: newest_def)
  then show ?thesis using push_room new by (intro exI conjI) (assumption, simp_all add: newest_def)
next
  case (push_write v nh)
  show ?thesis unfolding push_write(1,2)
    by (rule exI, intro conjI, rule ra_step.push_write [where s = s and wrap = wrap, OF refl push_write(3-5)]) (use new in \<open>simp_all add: newest_def\<close>)
next
  case (push_write_ub v nh)
  show ?thesis unfolding push_write_ub(1,2)
    by (rule exI, intro conjI, rule ra_step.push_write_ub [where s = s and wrap = wrap, OF refl push_write_ub(3,4)]) (use new in \<open>simp_all add: newest_def\<close>)
next
  case (push_publish v nh)
  show ?thesis unfolding push_publish(1,2)
    by (rule exI, intro conjI, rule ra_step.push_publish [where s = s and wrap = wrap, OF refl push_publish(3)]) (use new in \<open>simp_all add: newest_def atomic_store_def\<close>)
next
  case pop_start
  show ?thesis unfolding pop_start(1,2)
    by (rule exI, intro conjI, rule ra_step.pop_start [where s = s and wrap = wrap, OF refl pop_start(3)]) (use new in \<open>simp_all add: newest_def\<close>)
next
  case pop_empty
  have "ra_step wrap s l (s\<lparr> ra_ring := r', ra_head_seen := length (ra_head_log s) - 1,
      ra_cclock := synchronise Acquire (last (ra_head_log s)) (ra_cclock s) \<rparr>)"
    using ra_step.pop_load [where s = s and wrap = wrap, OF refl pop_empty(3) newest_last(5,6,2) [OF new]] pop_empty new by (simp add: newest_def)
  then show ?thesis using pop_empty new by (intro exI conjI) (assumption, simp_all add: newest_def)
next
  case pop_some
  have "ra_step wrap s l (s\<lparr> ra_ring := r', ra_head_seen := length (ra_head_log s) - 1,
      ra_cclock := synchronise Acquire (last (ra_head_log s)) (ra_cclock s) \<rparr>)"
    using ra_step.pop_load [where s = s and wrap = wrap, OF refl pop_some(3) newest_last(5,6,2) [OF new]] pop_some new by (simp add: newest_def)
  then show ?thesis using pop_some new by (intro exI conjI) (assumption, simp_all add: newest_def)
next
  case (pop_read v nt)
  show ?thesis unfolding pop_read(1,2)
    by (rule exI, intro conjI, rule ra_step.pop_read [where s = s and wrap = wrap, OF refl pop_read(3-6)]) (use new in \<open>simp_all add: newest_def\<close>)
next
  case pop_read_ub
  show ?thesis unfolding pop_read_ub(1,2)
    by (rule exI, intro conjI, rule ra_step.pop_read_ub [where s = s and wrap = wrap, OF refl pop_read_ub(3,4)]) (use new in \<open>simp_all add: newest_def\<close>)
next
  case (pop_publish v nt)
  show ?thesis unfolding pop_publish(1,2)
    by (rule exI, intro conjI, rule ra_step.pop_publish [where s = s and wrap = wrap, OF refl pop_publish(3)]) (use new in \<open>simp_all add: newest_def atomic_store_def\<close>)
qed

theorem sc_executions_included:
  "spsc_reachable wrap storage r \<Longrightarrow> \<exists>s. ra_reachable wrap storage s \<and> ra_ring s = r \<and> newest s"
proof (induction rule: spsc_reachable.induct)
  case init
  show ?case by (rule exI, intro conjI, rule ra_reachable.init) (simp_all add: ra_init_def newest_def atomic_new_def spsc_init_def)
next
  case (step r l r')
  then obtain s where "ra_reachable wrap storage s" "ra_ring s = r" "newest s" by blast
  then show ?case using newest_step [of s wrap l r'] step.hyps(2) by (blast intro: ra_reachable.step)
qed

section \<open>Property\<close>

text \<open>C17. With release stores and acquire loads of the two indices the ring is free of data races, whatever old values the
  loads return: every write of a slot comes after the read it overwrites and every read after the write it reads.
  Nothing else goes wrong either: no slot is misused, values arrive in order, and fewer than \<open>N\<close> are in flight.
  Reports are true of what the load returned: full when, counted from the tail the producer saw, \<open>N - 1\<close> values are in
  the ring; empty when the consumer has received all up to the head it saw. (The newest value may differ: a push can
  be refused although the consumer has just made room.)\<close>

theorem spsc_release_acquire_race_free:
  assumes "is_strategy wrap" "is_power_of_two N" "ra_reachable wrap (replicate N None) s"
  shows "\<not> ra_race s \<and> \<not> sp_ub (ra_ring s) \<and> prefix (sp_recv (ra_ring s)) (sp_sent (ra_ring s)) \<and>
    length (sp_sent (ra_ring s)) < length (sp_recv (ra_ring s)) + N \<and>
    (\<forall>v s'. ra_step wrap s (PushFull v) s' \<longrightarrow>
       ra_tail_seen s' \<le> length (sp_recv (ra_ring s)) \<and> length (sp_sent (ra_ring s)) = ra_tail_seen s' + (N - 1)) \<and>
    (\<forall>s'. ra_step wrap s PopEmpty s' \<longrightarrow>
       ra_head_seen s' \<le> length (sp_sent (ra_ring s)) \<and> length (sp_recv (ra_ring s)) = ra_head_seen s')"
proof -
  note str = strategy_wraps [OF assms(1)] and reach = assms(3,2)
  show ?thesis
    using index_strategy.ra_safe [OF str reach] index_strategy.ra_full_reports [OF str reach]
      index_strategy.ra_empty_reports [OF str reach] by blast
qed

text \<open>A ring of two slots: a value goes through, and the next push is refused on the old tail although the ring is empty.\<close>

abbreviation stale_ring :: "usize \<Rightarrow> usize \<Rightarrow> nat slots \<Rightarrow> usize \<Rightarrow> nat producer_pc \<Rightarrow> nat consumer_pc \<Rightarrow> nat list \<Rightarrow> nat list \<Rightarrow> nat SpscState" where
  "stale_ring h t sl hc p c sent recv \<equiv> \<lparr> sp_head = h, sp_tail = t, sp_slots = sl, sp_tail_cached = 0,
     sp_head_cached = hc, sp_prod = p, sp_cons = c, sp_sent = sent, sp_recv = recv, sp_ub = False \<rparr>"

definition stale_full :: "nat RaState" where
  "stale_full = \<lparr> ra_ring = stale_ring 1 1 [None, None] 1 (PLoad 8 0) CIdle [7] [7],
     ra_head_log = [\<lparr> mg_value = 0, mg_clock = \<lambda>_. 0 \<rparr>, \<lparr> mg_value = 1, mg_clock = (\<lambda>_. 0)(Pusher := 1) \<rparr>],
     ra_tail_log = [\<lparr> mg_value = 0, mg_clock = \<lambda>_. 0 \<rparr>, \<lparr> mg_value = 1, mg_clock = (\<lambda>_. 0)(Pusher := 1, Popper := 1) \<rparr>],
     ra_tail_seen = 0, ra_head_seen = 1, ra_pclock = (\<lambda>_. 0)(Pusher := 1), ra_cclock = (\<lambda>_. 0)(Pusher := 1, Popper := 1),
     ra_writes = [1, 0], ra_reads = [1, 0], ra_race = False \<rparr>"

lemma stale_full_reachable: "ra_reachable branch_wrap (replicate 2 None) stale_full"
proof -
  let ?R = "ra_reachable branch_wrap (replicate 2 None :: nat slots)"
  let ?s = "\<lambda>ring hl tl hs pc cc w r. \<lparr> ra_ring = ring, ra_head_log = hl, ra_tail_log = tl, ra_tail_seen = 0, ra_head_seen = hs,
    ra_pclock = pc, ra_cclock = cc, ra_writes = w, ra_reads = r, ra_race = False \<rparr>"
  let ?m0 = "\<lparr> mg_value = 0, mg_clock = \<lambda>_. 0 \<rparr> :: message" and ?z = "(\<lambda>_. 0) :: clock"
  let ?p1 = "(\<lambda>_. 0)(Pusher := 1) :: clock" and ?pc = "(\<lambda>_. 0)(Pusher := 1, Popper := 1) :: clock"
  let ?m1 = "\<lparr> mg_value = 1, mg_clock = ?p1 \<rparr> :: message"
  note run = ra_reachable.step [where wrap = branch_wrap and storage = "replicate 2 None :: nat slots"]
  note calc = ra_init_def spsc_init_def atomic_new_def branch_wrap_def numeral_2_eq_2 atomic_store_def synchronise_def tick_def
    write_ordered_def read_ordered_def fun_upd_def
  have "?R (ra_init (replicate 2 None))" by (rule ra_reachable.init)
  from run [OF this ra_step.push_start [OF refl, where v = 7 and next_head = 1]]
  have "?R (?s (stale_ring 0 0 [None, None] 0 (PWrite 7 1) CIdle [] []) [?m0] [?m0] 0 ?z ?z [0, 0] [0, 0])" by (simp add: calc)
  from run [OF this ra_step.push_write [OF refl]]
  have "?R (?s (stale_ring 0 0 [Some 7, None] 0 (PStore 7 1) CIdle [] []) [?m0] [?m0] 0 ?p1 ?z [1, 0] [0, 0])" by (simp add: calc)
  from run [OF this ra_step.push_publish [OF refl]]
  have "?R (?s (stale_ring 1 0 [Some 7, None] 0 PIdle CIdle [7] []) [?m0, ?m1] [?m0] 0 ?p1 ?z [1, 0] [0, 0])" by (simp add: calc)
  from run [OF this ra_step.pop_start [OF refl]]
  have "?R (?s (stale_ring 1 0 [Some 7, None] 0 PIdle CLoad [7] []) [?m0, ?m1] [?m0] 0 ?p1 ?z [1, 0] [0, 0])" by (simp add: calc)
  from run [OF this ra_step.pop_load [OF refl _ _ _ refl, where k = 1]]
  have "?R (?s (stale_ring 1 0 [Some 7, None] 1 PIdle CRead [7] []) [?m0, ?m1] [?m0] 1 ?p1 ?p1 [1, 0] [0, 0])"
    by (simp add: calc max_def if_distrib cong: if_cong)
  from run [OF this ra_step.pop_read [OF refl, where next_tail = 1]]
  have "?R (?s (stale_ring 1 0 [None, None] 1 PIdle (CStore 7 1) [7] []) [?m0, ?m1] [?m0] 1 ?p1 ?pc [1, 0] [1, 0])"
    by (simp add: calc)
  from run [OF this ra_step.pop_publish [OF refl]]
  have "?R (?s (stale_ring 1 1 [None, None] 1 PIdle CIdle [7] [7]) [?m0, ?m1] [?m0, \<lparr> mg_value = 1, mg_clock = ?pc \<rparr>]
      1 ?p1 ?pc [1, 0] [1, 0])" by (simp add: calc)
  from run [OF this ra_step.push_start [OF refl, where v = 8 and next_head = 0]]
  show ?thesis by (simp add: calc stale_full_def)
qed

theorem spsc_release_acquire_race_free_witness:
  "(\<exists>s'. ra_step branch_wrap stale_full (PushFull 8) s') \<and> sp_sent (ra_ring stale_full) = sp_recv (ra_ring stale_full) \<and>
   \<not> ra_race stale_full \<and> prefix (sp_recv (ra_ring stale_full)) (sp_sent (ra_ring stale_full))"
proof -
  have "\<exists>s'. ra_step branch_wrap stale_full (PushFull 8) s'"
    using ra_step.push_load [where s = stale_full and wrap = branch_wrap and k = 0, OF refl _ _ _ refl, of 8 0]
    by (auto simp: stale_full_def)
  moreover have "sp_sent (ra_ring stale_full) = sp_recv (ra_ring stale_full)" by (simp add: stale_full_def)
  ultimately show ?thesis
    using spsc_release_acquire_race_free [OF _ two_slots_pow2 stale_full_reachable] by (simp add: is_strategy_def)
qed

end
