(* ===== verification/Position.thy ===== *)
theory Position
  imports Domain_Types
begin

text \<open>
  Signed inventory (\<open>crates/strategy/src/position.rs\<close>): volume-weighted entry price, realised
  profit on a reduction, flips through flat, mark to market. The code replaces an overflowing
  intermediate result by zero; the theorems say for which quantities and prices this does not
  happen, and that the profit then agrees with the cash that the fills moved.
\<close>

record Position =
  pos_instrument_id :: InstrumentId
  pos_qty :: SignedLots
  pos_avg_entry :: fixed
  pos_realized_pnl :: fixed
  pos_fill_count :: u32

definition position_new :: "InstrumentId \<Rightarrow> Position" where
  "position_new instrument_id = \<lparr> pos_instrument_id = instrument_id, pos_qty = signed_lots_ZERO,
     pos_avg_entry = fixed_ZERO, pos_realized_pnl = fixed_ZERO, pos_fill_count = 0 \<rparr>"

definition unwrap_or :: "'a option \<Rightarrow> 'a \<Rightarrow> 'a" where
  "unwrap_or x d = (case x of Some v \<Rightarrow> v | None \<Rightarrow> d)"

definition u32_saturating_add :: "u32 \<Rightarrow> u32 \<Rightarrow> u32" where
  "u32_saturating_add a b = (if unat a + unat b < 2 ^ 32 then a + b else - 1)"

definition min_i64 :: "i64 \<Rightarrow> i64 \<Rightarrow> i64" where
  "min_i64 a b = (if sint a \<le> sint b then a else b)"

text \<open>The signed change of a fill, as \<open>on_fill\<close> and the exposure view compute it.\<close>

definition signed_delta :: "bool \<Rightarrow> Side \<Rightarrow> Lots \<Rightarrow> SignedLots panics" where
  "signed_delta oc side qty = (case side of
       Bid \<Rightarrow> Some (signed_lots_from_lots qty)
     | Ask \<Rightarrow> signed_lots_neg oc (signed_lots_from_lots qty))"

definition position_on_fill :: "bool \<Rightarrow> Side \<Rightarrow> Lots \<Rightarrow> fixed \<Rightarrow> Position \<Rightarrow> Position panics" where
  "position_on_fill oc side qty price self =
     do {
       delta \<leftarrow> signed_delta oc side qty;
       let old_qty = pos_qty self;
       new_qty \<leftarrow> signed_lots_add oc old_qty delta;
       let increasing = (signed_lots_is_zero old_qty \<or>
                         (sint old_qty > 0 \<and> sint delta > 0) \<or> (sint old_qty < 0 \<and> sint delta < 0));
       self \<leftarrow>
         (if increasing then do {
            old_qty_raw \<leftarrow> abs_i64 oc old_qty;
            delta_raw \<leftarrow> abs_i64 oc delta;
            new_qty_raw \<leftarrow> abs_i64 oc new_qty;
            let old_cost = unwrap_or (checked_mul_int (pos_avg_entry self) old_qty_raw) fixed_ZERO;
            let new_cost = unwrap_or (checked_mul_int price delta_raw) fixed_ZERO;
            let total_cost = unwrap_or (fixed_checked_add old_cost new_cost) fixed_ZERO;
            avg \<leftarrow> checked_div_int total_cost new_qty_raw;
            Some (self\<lparr> pos_avg_entry := unwrap_or avg fixed_ZERO \<rparr>)
          } else do {
            delta_raw \<leftarrow> abs_i64 oc delta;
            old_qty_raw \<leftarrow> abs_i64 oc old_qty;
            let closed_qty = min_i64 delta_raw old_qty_raw;
            let direction = signed_lots_signum old_qty;
            let pnl_per_lot =
              unwrap_or (checked_mul_int
                (unwrap_or (fixed_checked_sub price (pos_avg_entry self)) fixed_ZERO) direction) fixed_ZERO;
            let fill_pnl = unwrap_or (checked_mul_int pnl_per_lot closed_qty) fixed_ZERO;
            let self = self\<lparr> pos_realized_pnl :=
              unwrap_or (fixed_checked_add (pos_realized_pnl self) fill_pnl) (pos_realized_pnl self) \<rparr>;
            new_qty_raw \<leftarrow> abs_i64 oc new_qty;
            Some (if sint new_qty_raw > 0 \<and> signed_lots_signum new_qty \<noteq> signed_lots_signum old_qty
                  then self\<lparr> pos_avg_entry := price \<rparr> else self)
          });
       let self = self\<lparr> pos_qty := new_qty, pos_fill_count := u32_saturating_add (pos_fill_count self) 1 \<rparr>;
       Some (if signed_lots_is_zero (pos_qty self) then self\<lparr> pos_avg_entry := fixed_ZERO \<rparr> else self)
     }"

definition position_unrealized_pnl :: "fixed \<Rightarrow> Position \<Rightarrow> fixed" where
  "position_unrealized_pnl current_mid self =
     (if signed_lots_is_zero (pos_qty self) then fixed_ZERO
      else let price_diff = unwrap_or (fixed_checked_sub current_mid (pos_avg_entry self)) fixed_ZERO
           in unwrap_or (checked_mul_int price_diff (pos_qty self)) fixed_ZERO)"

definition position_total_pnl :: "fixed \<Rightarrow> Position \<Rightarrow> fixed" where
  "position_total_pnl current_mid self =
     unwrap_or (fixed_checked_add (pos_realized_pnl self) (position_unrealized_pnl current_mid self))
       (pos_realized_pnl self)"

definition position_notional :: "bool \<Rightarrow> fixed \<Rightarrow> Position \<Rightarrow> fixed panics" where
  "position_notional oc current_mid self =
     do {
       abs_qty \<leftarrow> abs_i64 oc (pos_qty self);
       Some (unwrap_or (checked_mul_int current_mid abs_qty) fixed_ZERO)
     }"

section \<open>Histories\<close>

type_synonym fill_in = "Side \<times> Lots \<times> fixed"

fun position_run :: "bool \<Rightarrow> fill_in list \<Rightarrow> Position \<Rightarrow> Position panics" where
  "position_run oc [] p = Some p"
| "position_run oc ((side, qty, price) # fs) p =
     do { p' \<leftarrow> position_on_fill oc side qty price p; position_run oc fs p' }"

text \<open>What the fills did, in exact integers: the change of inventory and the cash moved.\<close>

definition fill_delta :: "fill_in \<Rightarrow> int" where
  "fill_delta f = (case f of (Bid, q, _) \<Rightarrow> sint q | (Ask, q, _) \<Rightarrow> - sint q)"

definition fill_price :: "fill_in \<Rightarrow> int" where
  "fill_price f = sint (snd (snd f))"

definition net_qty :: "fill_in list \<Rightarrow> int" where
  "net_qty fs = sum_list (map fill_delta fs)"

definition net_cash :: "fill_in list \<Rightarrow> int" where
  "net_cash fs = sum_list (map (\<lambda>f. - (fill_delta f * fill_price f)) fs)"

section \<open>One fill in exact integers\<close>

definition adds_to :: "int \<Rightarrow> int \<Rightarrow> bool" where
  "adds_to q d \<longleftrightarrow> q = 0 \<or> (q > 0 \<and> d > 0) \<or> (q < 0 \<and> d < 0)"

definition entry_after :: "int \<Rightarrow> int \<Rightarrow> int \<Rightarrow> int \<Rightarrow> int" where
  "entry_after q a d p =
     (if q + d = 0 then 0
      else if adds_to q d then (\<bar>q\<bar> * a + \<bar>d\<bar> * p) sdiv \<bar>q + d\<bar>
      else if sgn (q + d) \<noteq> sgn q then p else a)"

definition realized_after :: "int \<Rightarrow> int \<Rightarrow> int \<Rightarrow> int \<Rightarrow> int" where
  "realized_after q a d p = (if adds_to q d then 0 else min \<bar>d\<bar> \<bar>q\<bar> * (sgn q * (p - a)))"

text \<open>The profit of a fill is the cash it moves, up to the truncation of the entry price.\<close>

lemma fill_conserves:
  "\<bar>(realized_after q a d p - (q + d) * entry_after q a d p) - (- (q * a)) - (- (d * p))\<bar>
    \<le> (if adds_to q d then \<bar>q + d\<bar> else 0)"
proof (cases "adds_to q d")
  case True
  define t where "t = \<bar>q\<bar> * a + \<bar>d\<bar> * p"
  define s where "s = (if q + d < 0 then - 1 else 1 :: int)"
  have s: "q + d = s * \<bar>q + d\<bar>" "q * a + d * p = s * t" "\<bar>s\<bar> = 1"
    using True by (auto simp: adds_to_def s_def t_def algebra_simps)
  show ?thesis
  proof (cases "q + d = 0")
    case False
    then have "\<bar>t - \<bar>q + d\<bar> * (t sdiv \<bar>q + d\<bar>)\<bar> \<le> \<bar>q + d\<bar>"
      using sdiv_error [of "\<bar>q + d\<bar>" t] by (auto simp: mult.commute)
    moreover have "q * a + d * p - (q + d) * (t sdiv \<bar>q + d\<bar>) = s * (t - \<bar>q + d\<bar> * (t sdiv \<bar>q + d\<bar>))"
      using s(1,2) by (simp add: right_diff_distrib mult.assoc [symmetric])
    ultimately have "\<bar>q * a + d * p - (q + d) * (t sdiv \<bar>q + d\<bar>)\<bar> \<le> \<bar>q + d\<bar>"
      using s(3) by (simp add: abs_mult)
    moreover have "entry_after q a d p = t sdiv \<bar>q + d\<bar>"
      using True False by (simp add: entry_after_def t_def)
    ultimately show ?thesis
      using True by (simp add: realized_after_def algebra_simps)
  qed (use True in \<open>auto simp: realized_after_def adds_to_def\<close>)
next
  case False
  then consider "d = 0" | "d = - q" | "0 < q" "d < 0" "- d < q" | "0 < q" "d < 0" "q < - d"
    | "q < 0" "0 < d" "d < - q" | "q < 0" "0 < d" "- q < d"
    by (fastforce simp: adds_to_def)
  then show ?thesis
    using False by cases (auto simp: entry_after_def realized_after_def algebra_simps sgn_if)
qed

section \<open>The code computes it\<close>

lemma unwrap_or_Some [simp]: "unwrap_or (Some x) d = x"
  by (simp add: unwrap_or_def)

lemma sint_min_i64 [simp]: "sint (min_i64 a b) = min (sint a) (sint b)"
  by (simp add: min_i64_def min_def)

lemma i64_results:
  assumes "\<bar>x\<bar> < 2 ^ 63"
  obtains r where "i64_arith oc x = Some r" "i64_checked x = Some r" "sint r = x"
  using assms by (auto simp: in_i64_numeral_range i64_checked_def)

lemma signed_delta_fits:
  assumes "\<bar>sint q\<bar> < 2 ^ 63"
  obtains d where "signed_delta oc side q = Some d" "sint d = fill_delta (side, q, p)"
proof (cases side)
  case Bid
  then show ?thesis
    using that by (simp add: signed_delta_def signed_lots_from_lots_def fill_delta_def)
next
  case Ask
  obtain d where "i64_arith oc (- sint q) = Some d" "sint d = - sint q"
    using i64_results [of "- sint q"] assms by auto
  with Ask show ?thesis
    using that by (simp add: signed_delta_def signed_lots_from_lots_def signed_lots_neg_def neg_i64_def fill_delta_def)
qed

definition fill_fits :: "int \<Rightarrow> int \<Rightarrow> int \<Rightarrow> int \<Rightarrow> int \<Rightarrow> int \<Rightarrow> int \<Rightarrow> bool" where
  "fill_fits L P q a r d p \<longleftrightarrow> 1 \<le> L \<and> 1 \<le> P \<and> 2 * L * P < 2 ^ 63 \<and> \<bar>q\<bar> \<le> L \<and> \<bar>q + d\<bar> \<le> L \<and>
     \<bar>a\<bar> \<le> P \<and> \<bar>p\<bar> \<le> P \<and> \<bar>r\<bar> + 2 * L * P < 2 ^ 63"

lemma fill_fits_cost:
  assumes "fill_fits L P q a r d p" "adds_to q d"
  shows "\<bar>a * \<bar>q\<bar>\<bar> < 2 ^ 63" "\<bar>p * \<bar>d\<bar>\<bar> < 2 ^ 63" "\<bar>a * \<bar>q\<bar> + p * \<bar>d\<bar>\<bar> < 2 ^ 63"
    "\<bar>\<bar>q\<bar> * a + \<bar>d\<bar> * p\<bar> \<le> P * \<bar>q + d\<bar>"
proof -
  have le: "\<bar>a * \<bar>q\<bar>\<bar> \<le> P * \<bar>q\<bar>" "\<bar>p * \<bar>d\<bar>\<bar> \<le> P * \<bar>d\<bar>"
    using assms by (auto simp: fill_fits_def abs_mult mult_right_mono)
  have sum: "P * \<bar>q\<bar> + P * \<bar>d\<bar> = P * \<bar>q + d\<bar>"
    using assms(2) by (auto simp: adds_to_def distrib_left [symmetric])
  have "P * \<bar>q + d\<bar> \<le> P * L" "0 \<le> P * \<bar>q\<bar>" "0 \<le> P * \<bar>d\<bar>" "0 \<le> P * L" "2 * (P * L) < 2 ^ 63"
    using assms(1) by (auto simp: fill_fits_def mult_left_mono mult.commute mult.left_commute)
  then show "\<bar>a * \<bar>q\<bar>\<bar> < 2 ^ 63" "\<bar>p * \<bar>d\<bar>\<bar> < 2 ^ 63" "\<bar>a * \<bar>q\<bar> + p * \<bar>d\<bar>\<bar> < 2 ^ 63"
    "\<bar>\<bar>q\<bar> * a + \<bar>d\<bar> * p\<bar> \<le> P * \<bar>q + d\<bar>"
    using le sum abs_triangle_ineq [of "a * \<bar>q\<bar>" "p * \<bar>d\<bar>"] by (auto simp: mult.commute)
qed

lemma fill_fits_pnl:
  assumes "fill_fits L P q a r d p"
  shows "\<bar>p - a\<bar> < 2 ^ 63" "\<bar>(p - a) * sgn q\<bar> < 2 ^ 63"
    "\<bar>(p - a) * sgn q * min \<bar>d\<bar> \<bar>q\<bar>\<bar> \<le> 2 * L * P" "\<bar>d\<bar> < 2 ^ 63" "\<bar>q\<bar> < 2 ^ 63" "\<bar>q + d\<bar> < 2 ^ 63"
proof -
  have pa: "\<bar>p - a\<bar> \<le> 2 * P" and L: "1 \<le> L" and P: "1 \<le> P"
    and q: "\<bar>q\<bar> \<le> L" "\<bar>q + d\<bar> \<le> L" and LP: "2 * L * P < 2 ^ 63"
    using assms by (auto simp: fill_fits_def)
  have sg: "\<bar>(p - a) * sgn q\<bar> \<le> \<bar>p - a\<bar>" by (simp add: abs_mult sgn_if)
  have "\<bar>(p - a) * sgn q * min \<bar>d\<bar> \<bar>q\<bar>\<bar> = \<bar>(p - a) * sgn q\<bar> * min \<bar>d\<bar> \<bar>q\<bar>" by (simp add: abs_mult)
  also have "\<dots> \<le> (2 * P) * L" using sg pa q L P by (intro mult_mono) auto
  finally show "\<bar>(p - a) * sgn q * min \<bar>d\<bar> \<bar>q\<bar>\<bar> \<le> 2 * L * P" by (simp add: mult.commute mult.left_commute)
  have "L \<le> L * P" using L P mult_left_mono [of 1 P L] by simp
  then show "\<bar>d\<bar> < 2 ^ 63" "\<bar>q\<bar> < 2 ^ 63" "\<bar>q + d\<bar> < 2 ^ 63" using q LP by linarith+
  show "\<bar>p - a\<bar> < 2 ^ 63" "\<bar>(p - a) * sgn q\<bar> < 2 ^ 63"
    using mult_right_mono [OF L, of P] P pa LP sg by linarith+
qed

lemma fill_fits_realized:
  assumes "fill_fits L P q a r d p"
  shows "in_i64 (r + realized_after q a d p)" "\<bar>realized_after q a d p\<bar> \<le> 2 * L * P"
    "\<bar>r + realized_after q a d p\<bar> \<le> \<bar>r\<bar> + 2 * L * P"
proof -
  have "0 \<le> 2 * L * P" using assms by (auto simp: fill_fits_def)
  then show le: "\<bar>realized_after q a d p\<bar> \<le> 2 * L * P"
    using fill_fits_pnl(3) [OF assms] by (simp add: realized_after_def mult.commute mult.left_commute)
  then show "\<bar>r + realized_after q a d p\<bar> \<le> \<bar>r\<bar> + 2 * L * P" by linarith
  then show "in_i64 (r + realized_after q a d p)"
    using assms by (auto simp: fill_fits_def intro!: in_i64_numeral_range)
qed

lemma entry_after_bound:
  assumes "fill_fits L P q a r d p"
  shows "\<bar>entry_after q a d p\<bar> \<le> P"
proof (cases "q + d = 0 \<or> \<not> adds_to q d")
  case True
  with assms show ?thesis by (auto simp: entry_after_def fill_fits_def)
next
  case False
  define t where "t = \<bar>q\<bar> * a + \<bar>d\<bar> * p"
  have "\<bar>t sdiv \<bar>q + d\<bar>\<bar> = \<bar>t\<bar> div \<bar>q + d\<bar>" by (simp add: abs_sdiv)
  also have "\<dots> \<le> (P * \<bar>q + d\<bar>) div \<bar>q + d\<bar>"
    using fill_fits_cost(4) [OF assms] False unfolding t_def by (intro zdiv_mono1) auto
  also have "\<dots> = P" using False by simp
  finally show ?thesis using False by (simp add: entry_after_def t_def)
qed

text \<open>The two branches of \<open>on_fill\<close>.\<close>

lemma vwap_exact:
  assumes fits: "fill_fits L P (sint q) (sint a) r (sint d) (sint p)" and add: "adds_to (sint q) (sint d)"
    and nq: "sint nq = sint q + sint d"
  obtains oq dr nr avg where
    "abs_i64 oc q = Some oq" "abs_i64 oc d = Some dr" "abs_i64 oc nq = Some nr"
    "checked_div_int (unwrap_or (fixed_checked_add (unwrap_or (checked_mul_int a oq) fixed_ZERO)
       (unwrap_or (checked_mul_int p dr) fixed_ZERO)) fixed_ZERO) nr = Some avg"
    "sint q + sint d \<noteq> 0 \<Longrightarrow> sint (unwrap_or avg fixed_ZERO) = entry_after (sint q) (sint a) (sint d) (sint p)"
proof -
  note small = fill_fits_pnl [OF fits] and cost = fill_fits_cost [OF fits add]
  obtain oq where oq: "abs_i64 oc q = Some oq" "sint oq = \<bar>sint q\<bar>"
    using i64_results [of "\<bar>sint q\<bar>"] small(5) by (auto simp: abs_i64_def)
  obtain dr where dr: "abs_i64 oc d = Some dr" "sint dr = \<bar>sint d\<bar>"
    using i64_results [of "\<bar>sint d\<bar>"] small(4) by (auto simp: abs_i64_def)
  obtain nr where nr: "abs_i64 oc nq = Some nr" "sint nr = \<bar>sint q + sint d\<bar>"
    using i64_results [of "\<bar>sint q + sint d\<bar>"] small(6) by (auto simp: abs_i64_def nq)
  obtain c1 where c1: "checked_mul_int a oq = Some c1" "sint c1 = sint a * \<bar>sint q\<bar>"
    using i64_results [OF cost(1)] by (auto simp: checked_mul_int_eq oq)
  obtain c2 where c2: "checked_mul_int p dr = Some c2" "sint c2 = sint p * \<bar>sint d\<bar>"
    using i64_results [OF cost(2)] by (auto simp: checked_mul_int_eq dr)
  obtain t where t: "fixed_checked_add c1 c2 = Some t" "sint t = sint a * \<bar>sint q\<bar> + sint p * \<bar>sint d\<bar>"
    using i64_results [OF cost(3)] by (auto simp: fixed_checked_add_iff c1 c2)
  have nr0: "nr = 0 \<longleftrightarrow> sint q + sint d = 0" using nr(2) by (metis abs_eq_0 sint_eq_0_iff)
  have fits_div: "in_i64 (sint t sdiv \<bar>sint q + sint d\<bar>)" if "sint q + sint d \<noteq> 0"
    using that by (intro in_i64_sdiv) auto
  show ?thesis
  proof (rule that [OF oq(1) dr(1) nr(1), of "if sint q + sint d = 0 then None
        else Some (word_of_int (sint t sdiv \<bar>sint q + sint d\<bar>))"])
    show "checked_div_int (unwrap_or (fixed_checked_add (unwrap_or (checked_mul_int a oq) fixed_ZERO)
       (unwrap_or (checked_mul_int p dr) fixed_ZERO)) fixed_ZERO) nr =
       Some (if sint q + sint d = 0 then None else Some (word_of_int (sint t sdiv \<bar>sint q + sint d\<bar>)))"
      using fits_div by (simp add: c1 c2 t(1) checked_div_int_eq nr0 nr(2))
  qed (use fits_div add in \<open>simp add: entry_after_def t(2) mult.commute\<close>)
qed

lemma realize_exact:
  assumes fits: "fill_fits L P (sint q) (sint a) (sint r) (sint d) (sint p)"
    and red: "\<not> adds_to (sint q) (sint d)" and nq: "sint nq = sint q + sint d"
  obtains oq dr nr r' where
    "abs_i64 oc q = Some oq" "abs_i64 oc d = Some dr" "abs_i64 oc nq = Some nr"
    "unwrap_or (fixed_checked_add r (unwrap_or (checked_mul_int (unwrap_or (checked_mul_int
       (unwrap_or (fixed_checked_sub p a) fixed_ZERO) (signed_lots_signum q)) fixed_ZERO)
       (min_i64 dr oq)) fixed_ZERO)) r = r'"
    "sint r' = sint r + realized_after (sint q) (sint a) (sint d) (sint p)"
    "sint nr > 0 \<longleftrightarrow> sint q + sint d \<noteq> 0"
proof -
  note small = fill_fits_pnl [OF fits]
  obtain oq where oq: "abs_i64 oc q = Some oq" "sint oq = \<bar>sint q\<bar>"
    using i64_results [of "\<bar>sint q\<bar>"] small(5) by (auto simp: abs_i64_def)
  obtain dr where dr: "abs_i64 oc d = Some dr" "sint dr = \<bar>sint d\<bar>"
    using i64_results [of "\<bar>sint d\<bar>"] small(4) by (auto simp: abs_i64_def)
  obtain nr where nr: "abs_i64 oc nq = Some nr" "sint nr = \<bar>sint q + sint d\<bar>"
    using i64_results [of "\<bar>sint q + sint d\<bar>"] small(6) by (auto simp: abs_i64_def nq)
  obtain x1 where x1: "fixed_checked_sub p a = Some x1" "sint x1 = sint p - sint a"
    using i64_results [OF small(1)] by (auto simp: fixed_checked_sub_iff)
  obtain x2 where x2: "checked_mul_int x1 (signed_lots_signum q) = Some x2"
      "sint x2 = (sint p - sint a) * sgn (sint q)"
    using i64_results [OF small(2)] by (auto simp: checked_mul_int_eq signed_lots_signum_def x1)
  have "\<bar>(sint p - sint a) * sgn (sint q) * min \<bar>sint d\<bar> \<bar>sint q\<bar>\<bar> < 2 ^ 63"
    using small(3) fits by (auto simp: fill_fits_def)
  then obtain x3 where x3: "checked_mul_int x2 (min_i64 dr oq) = Some x3"
      "sint x3 = (sint p - sint a) * sgn (sint q) * min \<bar>sint d\<bar> \<bar>sint q\<bar>"
    by (rule i64_results) (auto simp: checked_mul_int_eq x2 oq dr)
  have ra: "realized_after (sint q) (sint a) (sint d) (sint p) = sint x3"
    using red by (simp add: realized_after_def x3(2) mult.commute mult.left_commute)
  have "in_i64 (sint r + sint x3)" using fill_fits_realized(1) [OF fits] by (simp add: ra)
  then obtain r' where r': "fixed_checked_add r x3 = Some r'" "sint r' = sint r + sint x3"
    using sint_of_int_i64 by (fastforce simp only: fixed_checked_add_iff i64_checked_def if_True)
  show ?thesis
    by (rule that [OF oq(1) dr(1) nr(1), of r']) (simp_all add: x1 x2(1) x3(1) r' ra nr(2))
qed

lemma position_on_fill_exact:
  assumes fits: "fill_fits L P (sint (pos_qty s)) (sint (pos_avg_entry s)) (sint (pos_realized_pnl s))
      (fill_delta (side, q, p)) (sint p)" and "\<bar>sint q\<bar> < 2 ^ 63"
  shows "\<exists>s'. position_on_fill oc side q p s = Some s' \<and>
    sint (pos_qty s') = sint (pos_qty s) + fill_delta (side, q, p) \<and>
    sint (pos_avg_entry s') =
      entry_after (sint (pos_qty s)) (sint (pos_avg_entry s)) (fill_delta (side, q, p)) (sint p) \<and>
    sint (pos_realized_pnl s') = sint (pos_realized_pnl s) +
      realized_after (sint (pos_qty s)) (sint (pos_avg_entry s)) (fill_delta (side, q, p)) (sint p)"
proof -
  obtain d where d: "signed_delta oc side q = Some d" "sint d = fill_delta (side, q, p)"
    using signed_delta_fits [OF assms(2)] by blast
  note fits = fits [folded d(2)]
  obtain nq where nq: "signed_lots_add oc (pos_qty s) d = Some nq" "sint nq = sint (pos_qty s) + sint d"
    using i64_results [OF fill_fits_pnl(6) [OF fits]] by (auto simp: signed_lots_add_def add_i64_def)
  have nq0: "signed_lots_is_zero nq \<longleftrightarrow> sint (pos_qty s) + sint d = 0"
    using nq(2) unfolding signed_lots_is_zero_def by (metis sint_eq_0_iff)
  have inc: "(signed_lots_is_zero (pos_qty s) \<or> (sint (pos_qty s) > 0 \<and> sint d > 0) \<or>
      (sint (pos_qty s) < 0 \<and> sint d < 0)) \<longleftrightarrow> adds_to (sint (pos_qty s)) (sint d)"
    by (auto simp: adds_to_def signed_lots_is_zero_def)
  show ?thesis
  proof (cases "adds_to (sint (pos_qty s)) (sint d)")
    case True
    obtain oq dr nr avg where v: "abs_i64 oc (pos_qty s) = Some oq" "abs_i64 oc d = Some dr"
      "abs_i64 oc nq = Some nr"
      "checked_div_int (unwrap_or (fixed_checked_add
         (unwrap_or (checked_mul_int (pos_avg_entry s) oq) fixed_ZERO)
         (unwrap_or (checked_mul_int p dr) fixed_ZERO)) fixed_ZERO) nr = Some avg"
      "sint (pos_qty s) + sint d \<noteq> 0 \<Longrightarrow>
         sint (unwrap_or avg fixed_ZERO) = entry_after (sint (pos_qty s)) (sint (pos_avg_entry s)) (sint d) (sint p)"
      using vwap_exact [OF fits True nq(2)] by metis
    have "position_on_fill oc side q p s = Some (s\<lparr> pos_avg_entry :=
          (if sint (pos_qty s) + sint d = 0 then fixed_ZERO else unwrap_or avg fixed_ZERO),
        pos_qty := nq, pos_fill_count := u32_saturating_add (pos_fill_count s) 1 \<rparr>)"
      by (simp add: position_on_fill_def d(1) nq(1) inc True v(1-4) nq0)
    with True v(5) nq(2) show ?thesis
      by (simp add: d(2) [symmetric] realized_after_def fixed_ZERO_def entry_after_def)
  next
    case False
    obtain oq dr nr r' where v: "abs_i64 oc (pos_qty s) = Some oq" "abs_i64 oc d = Some dr"
      "abs_i64 oc nq = Some nr"
      "unwrap_or (fixed_checked_add (pos_realized_pnl s) (unwrap_or (checked_mul_int (unwrap_or (checked_mul_int
         (unwrap_or (fixed_checked_sub p (pos_avg_entry s)) fixed_ZERO) (signed_lots_signum (pos_qty s))) fixed_ZERO)
         (min_i64 dr oq)) fixed_ZERO)) (pos_realized_pnl s) = r'"
      "sint r' = sint (pos_realized_pnl s) + realized_after (sint (pos_qty s)) (sint (pos_avg_entry s)) (sint d) (sint p)"
      "sint nr > 0 \<longleftrightarrow> sint (pos_qty s) + sint d \<noteq> 0"
      using realize_exact [OF fits False nq(2)] by metis
    have sg: "signed_lots_signum nq \<noteq> signed_lots_signum (pos_qty s) \<longleftrightarrow>
        sgn (sint (pos_qty s) + sint d) \<noteq> sgn (sint (pos_qty s))"
      by (simp add: signed_lots_signum_def i64_eq_iff nq(2))
    have "position_on_fill oc side q p s = Some (s\<lparr> pos_realized_pnl := r', pos_avg_entry :=
          (if sint (pos_qty s) + sint d = 0 then fixed_ZERO
           else if sgn (sint (pos_qty s) + sint d) \<noteq> sgn (sint (pos_qty s)) then p else pos_avg_entry s),
        pos_qty := nq, pos_fill_count := u32_saturating_add (pos_fill_count s) 1 \<rparr>)"
      using v(6) sg by (simp add: position_on_fill_def d(1) nq(1) inc False v(1-4) nq0)
    with False v(5) nq(2) show ?thesis
      by (simp add: d(2) [symmetric] fixed_ZERO_def entry_after_def)
  qed
qed

section \<open>Histories of fills\<close>

fun fills_within :: "int \<Rightarrow> int \<Rightarrow> int \<Rightarrow> fill_in list \<Rightarrow> bool" where
  "fills_within L P q [] \<longleftrightarrow> \<bar>q\<bar> \<le> L"
| "fills_within L P q (f # fs) \<longleftrightarrow>
     \<bar>q\<bar> \<le> L \<and> \<bar>fill_price f\<bar> \<le> P \<and> fills_within L P (q + fill_delta f) fs"

lemma fills_within_head: "fills_within L P q fs \<Longrightarrow> \<bar>q\<bar> \<le> L"
  by (cases fs) auto

lemma position_run_exact:
  assumes "1 \<le> L" "1 \<le> P" "fills_within L P (sint (pos_qty s)) fs" "\<bar>sint (pos_avg_entry s)\<bar> \<le> P"
    and "2 * L * P < 2 ^ 63" and "\<bar>sint (pos_realized_pnl s)\<bar> + 2 * L * P * int (length fs) < 2 ^ 63"
  shows "\<exists>s'. position_run oc fs s = Some s' \<and> sint (pos_qty s') = sint (pos_qty s) + net_qty fs \<and>
    \<bar>sint (pos_qty s')\<bar> \<le> L \<and> \<bar>sint (pos_avg_entry s')\<bar> \<le> P \<and>
    \<bar>sint (pos_realized_pnl s')\<bar> \<le> \<bar>sint (pos_realized_pnl s)\<bar> + 2 * L * P * int (length fs) \<and>
    \<bar>(sint (pos_realized_pnl s') - sint (pos_qty s') * sint (pos_avg_entry s')) -
     (sint (pos_realized_pnl s) - sint (pos_qty s) * sint (pos_avg_entry s)) - net_cash fs\<bar>
      \<le> L * int (length fs)"
  using assms(3-6)
proof (induction fs arbitrary: s)
  case Nil
  then show ?case by (simp add: net_qty_def net_cash_def)
next
  case (Cons f fs)
  obtain side q p where f: "f = (side, q, p)" by (cases f)
  let ?q = "sint (pos_qty s)" and ?a = "sint (pos_avg_entry s)" and ?r = "sint (pos_realized_pnl s)"
    and ?d = "fill_delta f"
  have step: "\<bar>?q\<bar> \<le> L" "\<bar>?q + ?d\<bar> \<le> L" "\<bar>sint p\<bar> \<le> P"
    using Cons.prems(1) fills_within_head [of L P "?q + ?d" fs] by (auto simp: f fill_price_def)
  have LP: "0 \<le> 2 * L * P" "0 \<le> 2 * L * P * int (length fs)" "L \<le> L * P"
    using assms(1,2) by auto
  have len: "2 * L * P * int (length (f # fs)) = 2 * L * P + 2 * L * P * int (length fs)"
    "L * int (length (f # fs)) = L + L * int (length fs)" by (simp_all add: algebra_simps)
  have "\<bar>?r\<bar> + 2 * L * P < 2 ^ 63" using Cons.prems(4) LP(2) unfolding len by linarith
  then have fits: "fill_fits L P ?q ?a ?r (fill_delta (side, q, p)) (sint p)"
    using assms(1,2) Cons.prems(2,3) step by (simp add: fill_fits_def f)
  have "\<bar>sint q\<bar> = \<bar>?d\<bar>" by (cases side) (auto simp: f fill_delta_def)
  then have "\<bar>sint q\<bar> < 2 ^ 63" using fill_fits_pnl(4) [OF fits] by (simp add: f)
  then obtain s1 where s1: "position_on_fill oc side q p s = Some s1" "sint (pos_qty s1) = ?q + ?d"
    "sint (pos_avg_entry s1) = entry_after ?q ?a ?d (sint p)"
    "sint (pos_realized_pnl s1) = ?r + realized_after ?q ?a ?d (sint p)"
    using position_on_fill_exact [OF fits] f by metis
  have b1: "\<bar>sint (pos_avg_entry s1)\<bar> \<le> P" "\<bar>sint (pos_realized_pnl s1)\<bar> \<le> \<bar>?r\<bar> + 2 * L * P"
    using entry_after_bound [OF fits] fill_fits_realized(3) [OF fits] s1 by (simp_all add: f)
  have rest: "\<bar>sint (pos_realized_pnl s1)\<bar> + 2 * L * P * int (length fs) < 2 ^ 63"
    using Cons.prems(4) b1(2) unfolding len by linarith
  have c1: "\<bar>(sint (pos_realized_pnl s1) - sint (pos_qty s1) * sint (pos_avg_entry s1)) -
      (?r - ?q * ?a) - (- (?d * sint p))\<bar> \<le> L"
    using fill_conserves [of ?q ?a ?d "sint p"] step(2) by (simp add: s1 split: if_splits)
  obtain s' where s': "position_run oc fs s1 = Some s'"
    "sint (pos_qty s') = sint (pos_qty s1) + net_qty fs" "\<bar>sint (pos_qty s')\<bar> \<le> L"
    "\<bar>sint (pos_avg_entry s')\<bar> \<le> P"
    "\<bar>sint (pos_realized_pnl s')\<bar> \<le> \<bar>sint (pos_realized_pnl s1)\<bar> + 2 * L * P * int (length fs)"
    "\<bar>(sint (pos_realized_pnl s') - sint (pos_qty s') * sint (pos_avg_entry s')) -
     (sint (pos_realized_pnl s1) - sint (pos_qty s1) * sint (pos_avg_entry s1)) - net_cash fs\<bar>
      \<le> L * int (length fs)"
    using Cons.IH [of s1] Cons.prems(1,3) b1(1) rest by (auto simp: f s1(2))
  have net: "net_qty (f # fs) = ?d + net_qty fs" "net_cash (f # fs) = - (?d * sint p) + net_cash fs"
    by (simp_all add: net_qty_def net_cash_def f fill_price_def)
  show ?case
  proof (intro exI [of _ s'] conjI)
    show "position_run oc (f # fs) s = Some s'" using s1 s' by (simp add: f)
    show "\<bar>sint (pos_realized_pnl s')\<bar> \<le> \<bar>?r\<bar> + 2 * L * P * int (length (f # fs))"
      using s'(5) b1(2) unfolding len by linarith
    show "\<bar>(sint (pos_realized_pnl s') - sint (pos_qty s') * sint (pos_avg_entry s')) -
        (?r - ?q * ?a) - net_cash (f # fs)\<bar> \<le> L * int (length (f # fs))"
      using s'(6) c1 unfolding len net by linarith
  qed (use s' s1 net in auto)
qed

text \<open>C22. The profit of a position is the cash its fills moved plus its inventory at the mid price.
  For any sequence of buys and sells, through additions, reductions and flips, with prices of at most
  \<open>P\<close> and an inventory that stays within \<open>L\<close> lots, no step panics or falls back to zero as long as
  \<open>2 * L * P * (n + 1)\<close> is below \<open>2 ^ 63\<close>, the quantity is the net of the fills, and the total profit
  is exact up to one unit of the last decimal per lot and fill, the truncation of the average entry
  price.\<close>

theorem position_pnl_is_cash:
  assumes "1 \<le> L" "1 \<le> P" "2 * L * P * (int (length fs) + 1) < 2 ^ 63"
    and "fills_within L P 0 fs" "\<bar>sint mid\<bar> \<le> P"
  shows "\<exists>s. position_run oc fs (position_new iid) = Some s \<and> sint (pos_qty s) = net_qty fs \<and>
    \<bar>sint (position_total_pnl mid s) - (net_cash fs + net_qty fs * sint mid)\<bar> \<le> L * int (length fs)"
proof -
  have LP: "0 \<le> 2 * L * P" "0 \<le> 2 * L * P * int (length fs)" "L \<le> L * P" "P \<le> L * P" using assms(1,2) by auto
  have len: "2 * L * P * (int (length fs) + 1) = 2 * L * P + 2 * L * P * int (length fs)"
    by (simp add: algebra_simps)
  have small: "2 * L * P < 2 ^ 63" "\<bar>0\<bar> + 2 * L * P * int (length fs) < 2 ^ 63"
    using assms(3) LP unfolding len by linarith+
  have new: "sint (pos_qty (position_new iid)) = 0" "sint (pos_avg_entry (position_new iid)) = 0"
    "sint (pos_realized_pnl (position_new iid)) = 0"
    by (simp_all add: position_new_def signed_lots_ZERO_def fixed_ZERO_def)
  obtain s where s: "position_run oc fs (position_new iid) = Some s" "sint (pos_qty s) = net_qty fs"
    "\<bar>sint (pos_qty s)\<bar> \<le> L" "\<bar>sint (pos_avg_entry s)\<bar> \<le> P"
    "\<bar>sint (pos_realized_pnl s)\<bar> \<le> 2 * L * P * int (length fs)"
    "\<bar>sint (pos_realized_pnl s) - sint (pos_qty s) * sint (pos_avg_entry s) - net_cash fs\<bar> \<le> L * int (length fs)"
    using position_run_exact [of L P "position_new iid" fs oc, unfolded new] assms(1,2,4) small by auto
  have pa: "\<bar>sint mid - sint (pos_avg_entry s)\<bar> \<le> 2 * P" using s(4) assms(5) by linarith
  have m: "\<bar>(sint mid - sint (pos_avg_entry s)) * sint (pos_qty s)\<bar> \<le> 2 * L * P"
    using mult_mono [OF pa s(3)] assms(2) by (simp add: abs_mult mult.commute mult.left_commute)
  have "\<bar>sint mid - sint (pos_avg_entry s)\<bar> < 2 ^ 63"
    "\<bar>(sint mid - sint (pos_avg_entry s)) * sint (pos_qty s)\<bar> < 2 ^ 63"
    "\<bar>sint (pos_realized_pnl s) + (sint mid - sint (pos_avg_entry s)) * sint (pos_qty s)\<bar> < 2 ^ 63"
    using pa m LP s(5) assms(3) unfolding len by linarith+
  note fits = this [THEN i64_results]
  obtain x where x: "fixed_checked_sub mid (pos_avg_entry s) = Some x" "sint x = sint mid - sint (pos_avg_entry s)"
    using fits(1) by (metis fixed_checked_sub_iff)
  obtain y where y: "checked_mul_int x (pos_qty s) = Some y"
      "sint y = (sint mid - sint (pos_avg_entry s)) * sint (pos_qty s)"
    using fits(2) by (metis checked_mul_int_eq x(2))
  have u: "sint (position_unrealized_pnl mid s) = (sint mid - sint (pos_avg_entry s)) * sint (pos_qty s)"
    using x y by (simp add: position_unrealized_pnl_def signed_lots_is_zero_def fixed_ZERO_def)
  obtain z where z: "fixed_checked_add (pos_realized_pnl s) (position_unrealized_pnl mid s) = Some z"
      "sint z = sint (pos_realized_pnl s) + (sint mid - sint (pos_avg_entry s)) * sint (pos_qty s)"
    using fits(3) by (metis fixed_checked_add_iff u)
  have "sint (position_total_pnl mid s) = sint z" by (simp add: position_total_pnl_def z(1))
  then have "sint (position_total_pnl mid s) - (net_cash fs + net_qty fs * sint mid) =
      sint (pos_realized_pnl s) - sint (pos_qty s) * sint (pos_avg_entry s) - net_cash fs"
    by (simp add: z(2) s(2) algebra_simps)
  then show ?thesis using s(1,2,6) by auto
qed

section \<open>The documented invariants\<close>

definition position_inv :: "Position \<Rightarrow> bool" where
  "position_inv s \<longleftrightarrow> (signed_lots_is_zero (pos_qty s) \<longrightarrow> pos_avg_entry s = fixed_ZERO) \<and>
     0 \<le> sint (pos_avg_entry s)"

lemma sint_fixed_ZERO [simp]: "sint fixed_ZERO = 0"
  by (simp add: fixed_ZERO_def)

lemma abs_i64_nonneg: "abs_i64 True x = Some r \<Longrightarrow> 0 \<le> sint r"
  by (simp add: abs_i64_def i64_arith_checked i64_checked_eq_Some)

lemma unwrap_mul_nonneg:
  "0 \<le> sint x \<Longrightarrow> 0 \<le> sint k \<Longrightarrow> 0 \<le> sint (unwrap_or (checked_mul_int x k) fixed_ZERO)"
  by (auto simp: checked_mul_int_eq unwrap_or_def fixed_ZERO_def i64_checked_eq_Some split: option.split)

lemma unwrap_add_nonneg:
  "0 \<le> sint x \<Longrightarrow> 0 \<le> sint y \<Longrightarrow> 0 \<le> sint (unwrap_or (fixed_checked_add x y) fixed_ZERO)"
  by (auto simp: fixed_checked_add_iff unwrap_or_def fixed_ZERO_def i64_checked_eq_Some split: option.split)

lemma unwrap_div_nonneg:
  assumes "checked_div_int x k = Some r" "0 \<le> sint x" "0 \<le> sint k"
  shows "0 \<le> sint (unwrap_or r fixed_ZERO)"
proof (cases "k = 0")
  case False
  then have "0 < sint k" using assms(3) by (metis le_less sint_eq_0_iff)
  with assms False have "r = Some (word_of_int (sint x sdiv sint k))" "in_i64 (sint x sdiv sint k)"
    "0 \<le> sint x sdiv sint k"
    by (auto simp: checked_div_int_eq sdiv_nonneg pos_imp_zdiv_nonneg_iff split: if_splits)
  then show ?thesis by simp
qed (use assms in \<open>simp add: checked_div_int_eq unwrap_or_def fixed_ZERO_def\<close>)

lemma vwap_nonneg:
  assumes "checked_div_int (unwrap_or (fixed_checked_add (unwrap_or (checked_mul_int a oq) fixed_ZERO)
      (unwrap_or (checked_mul_int p dr) fixed_ZERO)) fixed_ZERO) nr = Some avg"
    and "abs_i64 True q = Some oq" "abs_i64 True d = Some dr" "abs_i64 True nq = Some nr"
    and "0 \<le> sint p" "0 \<le> sint a"
  shows "0 \<le> sint (unwrap_or avg fixed_ZERO)"
  using assms by (blast intro: unwrap_div_nonneg unwrap_add_nonneg unwrap_mul_nonneg abs_i64_nonneg)

lemma position_on_fill_inv:
  assumes "position_inv s" "0 \<le> sint p" "position_on_fill True side q p s = Some s'"
  shows "position_inv s' \<and> pos_fill_count s' = u32_saturating_add (pos_fill_count s) 1"
  using assms unfolding position_on_fill_def Let_def
  by (elim bind_eq_SomeE)
    (auto simp: position_inv_def dest: vwap_nonneg elim!: bind_eq_SomeE split: if_splits)

lemma unat_u32_saturating_Suc: "unat (u32_saturating_add c 1) = min (Suc (unat c)) (2 ^ 32 - 1)"
proof -
  have "unat c < 2 ^ 32" using unsigned_less [of c] by simp
  then show ?thesis by (auto simp: u32_saturating_add_def unat_word_ariths unsigned_minus_1_eq_mask mask_eq_exp_minus_1)
qed

lemma position_run_inv:
  assumes "position_inv s" "list_all (\<lambda>f. 0 \<le> fill_price f) fs" "position_run True fs s = Some s'"
  shows "position_inv s' \<and> unat (pos_fill_count s') = min (unat (pos_fill_count s) + length fs) (2 ^ 32 - 1)"
  using assms
proof (induction fs arbitrary: s)
  case Nil
  have "unat (pos_fill_count s) < 2 ^ 32" using unsigned_less [of "pos_fill_count s"] by simp
  with Nil show ?case by simp
next
  case (Cons f fs)
  obtain side q p where f: "f = (side, q, p)" by (cases f)
  obtain s1 where s1: "position_on_fill True side q p s = Some s1" "position_run True fs s1 = Some s'"
    using Cons.prems(3) by (auto simp: f elim!: bind_eq_SomeE)
  have inv1: "position_inv s1" and cnt: "pos_fill_count s1 = u32_saturating_add (pos_fill_count s) 1"
    using position_on_fill_inv [OF Cons.prems(1) _ s1(1)] Cons.prems(2) by (simp_all add: f fill_price_def)
  have "unat (pos_fill_count s1) = min (Suc (unat (pos_fill_count s))) (2 ^ 32 - 1)"
    unfolding cnt by (rule unat_u32_saturating_Suc)
  then show ?case using Cons.IH [OF inv1 _ s1(2)] Cons.prems(2) by simp
qed

text \<open>The invariants the type documents hold in every build with overflow checks, whatever the
  sequence of fills, overflowing intermediate results included, as long as no fill price is negative:
  a flat position has entry price zero, the entry price is never negative, and the fill counter counts
  the fills and then stays at its maximum.\<close>

theorem position_documented_invariants:
  assumes "list_all (\<lambda>f. 0 \<le> fill_price f) fs" "position_run True fs (position_new iid) = Some s"
  shows "(pos_qty s = 0 \<longrightarrow> pos_avg_entry s = 0) \<and> 0 \<le> sint (pos_avg_entry s) \<and>
    unat (pos_fill_count s) = min (length fs) (2 ^ 32 - 1)"
proof -
  have "position_inv (position_new iid)" "unat (pos_fill_count (position_new iid)) = 0"
    by (simp_all add: position_inv_def position_new_def)
  with position_run_inv [OF _ assms] show ?thesis
    by (simp add: position_inv_def signed_lots_is_zero_def fixed_ZERO_def)
qed

section \<open>Witnesses\<close>

text \<open>Buy ten lots at 0.5, sell four at 0.6, sell eight at 0.4: a flip to two lots short.\<close>

definition fills_flip :: "fill_in list" where
  "fills_flip = [(Bid, 10, 500000), (Ask, 4, 600000), (Ask, 8, 400000)]"

theorem position_pnl_is_cash_witness:
  "\<exists>s. position_run True fills_flip (position_new 1) = Some s \<and> sint (pos_qty s) = - 2 \<and>
    \<bar>sint (position_total_pnl 500000 s) - (600000 - 1000000)\<bar> \<le> 30"
proof -
  have "fills_within 10 600000 0 fills_flip" "net_qty fills_flip = - 2" "net_cash fills_flip = 600000"
    by (simp_all add: fills_flip_def fill_delta_def fill_price_def sint_numeral_i64 net_qty_def net_cash_def)
  with position_pnl_is_cash [of 10 600000 fills_flip 500000 True 1] show ?thesis
    by (simp add: sint_numeral_i64 fills_flip_def)
qed

theorem position_documented_invariants_witness:
  "\<exists>s. position_run True fills_flip (position_new 1) = Some s \<and>
    (pos_qty s = 0 \<longrightarrow> pos_avg_entry s = 0) \<and> 0 \<le> sint (pos_avg_entry s) \<and> unat (pos_fill_count s) = 3"
proof -
  have "fills_within 10 600000 0 fills_flip"
    by (simp add: fills_flip_def fill_delta_def fill_price_def sint_numeral_i64)
  then obtain s where "position_run True fills_flip (position_new 1) = Some s"
    using position_run_exact [of 10 600000 "position_new 1" fills_flip True]
    by (auto simp: position_new_def fills_flip_def signed_lots_ZERO_def)
  moreover have "list_all (\<lambda>f. 0 \<le> fill_price f) fills_flip"
    by (simp add: fills_flip_def fill_price_def sint_numeral_i64)
  ultimately show ?thesis
    using position_documented_invariants [of fills_flip 1 s] by (simp add: fills_flip_def)
qed

end
