(* ===== verification/Order_Tracker.thy ===== *)
theory Order_Tracker
  imports Domain_Types "HOL-Library.Multiset"
begin

text \<open>
  Open-order tracking (\<open>crates/strategy/src/order_tracker.rs\<close>): a fixed array of 64 slots, the
  lifecycle of an order, and the counter of active orders. The counter is right as long as the
  venue acknowledges, rejects and cancels active orders only, and the filled quantities are those of the
  fills in the history; the last section shows what happens otherwise.
\<close>

definition MAX_TRACKED_ORDERS :: nat where
  "MAX_TRACKED_ORDERS = 64"

datatype OrderState = Pending | Sending | Live | CancelPending | Filled | Cancelled | Rejected

record TrackedOrder =
  to_client_order_id :: u64
  to_exchange_order_id :: u64
  to_strategy_id :: u8
  to_instrument_id :: InstrumentId
  to_side :: Side
  to_price :: Ticks
  to_original_qty :: Lots
  to_filled_qty :: Lots
  to_state :: OrderState
  to_created_at_ns :: u64
  to_acked_at_ns :: u64

definition remaining_qty :: "bool \<Rightarrow> TrackedOrder \<Rightarrow> Lots panics" where
  "remaining_qty oc self = lots_sub oc (to_original_qty self) (to_filled_qty self)"

definition is_active :: "TrackedOrder \<Rightarrow> bool" where
  "is_active self \<longleftrightarrow> to_state self \<in> {Pending, Sending, Live, CancelPending}"

datatype TrackerFullError = TrackerFullError

record OrderTracker =
  ot_orders :: "TrackedOrder option list"
  ot_active_count :: usize

definition tracker_new :: OrderTracker where
  "tracker_new = \<lparr> ot_orders = replicate MAX_TRACKED_ORDERS None, ot_active_count = 0 \<rparr>"

definition can_reuse :: "TrackedOrder option \<Rightarrow> bool" where
  "can_reuse slot = (case slot of None \<Rightarrow> True | Some od \<Rightarrow> to_state od \<in> {Filled, Cancelled, Rejected})"

text \<open>The loop of \<open>on_intent_sent\<close>: the first slot that can be reused takes the order.\<close>

fun place_order :: "TrackedOrder \<Rightarrow> TrackedOrder option list \<Rightarrow> TrackedOrder option list option" where
  "place_order order [] = None"
| "place_order order (slot # slots) =
     (if can_reuse slot then Some (Some order # slots)
      else map_option ((#) slot) (place_order order slots))"

definition on_intent_sent :: "TrackedOrder \<Rightarrow> OrderTracker \<Rightarrow> (TrackerFullError + unit) \<times> OrderTracker" where
  "on_intent_sent order self = (case place_order order (ot_orders self) of
       Some orders \<Rightarrow>
         (Inr (), self\<lparr> ot_orders := orders, ot_active_count := ot_active_count self + 1 \<rparr>)
     | None \<Rightarrow> (Inl TrackerFullError, self))"

text \<open>\<open>find_mut\<close> and \<open>get\<close>: the first order with the id, as an index so that it can be updated.\<close>

fun find_slot :: "u64 \<Rightarrow> TrackedOrder option list \<Rightarrow> (nat \<times> TrackedOrder) option" where
  "find_slot cid [] = None"
| "find_slot cid (None # slots) = map_option (map_prod Suc (\<lambda>od. od)) (find_slot cid slots)"
| "find_slot cid (Some od # slots) =
     (if to_client_order_id od = cid then Some (0, od)
      else map_option (map_prod Suc (\<lambda>od. od)) (find_slot cid slots))"

definition put_slot :: "nat \<Rightarrow> TrackedOrder \<Rightarrow> OrderTracker \<Rightarrow> OrderTracker" where
  "put_slot i order self = self\<lparr> ot_orders := (ot_orders self)[i := Some order] \<rparr>"

definition on_ack :: "u64 \<Rightarrow> u64 \<Rightarrow> u64 \<Rightarrow> OrderTracker \<Rightarrow> OrderTracker" where
  "on_ack cid exchange_order_id acked_at_ns self = (case find_slot cid (ot_orders self) of
       Some (i, order) \<Rightarrow> put_slot i (order\<lparr> to_state := Live,
         to_exchange_order_id := exchange_order_id, to_acked_at_ns := acked_at_ns \<rparr>) self
     | None \<Rightarrow> self)"

definition on_reject :: "u64 \<Rightarrow> OrderTracker \<Rightarrow> OrderTracker" where
  "on_reject cid self = (case find_slot cid (ot_orders self) of
       Some (i, order) \<Rightarrow> (put_slot i (order\<lparr> to_state := Rejected \<rparr>) self)
         \<lparr> ot_active_count := ot_active_count self - 1 \<rparr>
     | None \<Rightarrow> self)"

definition on_fill :: "bool \<Rightarrow> u64 \<Rightarrow> Lots \<Rightarrow> OrderTracker \<Rightarrow> OrderTracker panics" where
  "on_fill oc cid fill_qty self = (case find_slot cid (ot_orders self) of
       Some (i, order) \<Rightarrow>
         (if \<not> is_active order then Some self
          else do {
            filled \<leftarrow> lots_add oc (to_filled_qty order) fill_qty;
            let order = order\<lparr> to_filled_qty := filled \<rparr>;
            Some (if sint (to_filled_qty order) \<ge> sint (to_original_qty order)
                  then (put_slot i (order\<lparr> to_filled_qty := to_original_qty order, to_state := Filled \<rparr>) self)
                         \<lparr> ot_active_count := ot_active_count self - 1 \<rparr>
                  else put_slot i order self)
          })
     | None \<Rightarrow> Some self)"

definition on_cancel_ack :: "u64 \<Rightarrow> OrderTracker \<Rightarrow> OrderTracker" where
  "on_cancel_ack cid self = (case find_slot cid (ot_orders self) of
       Some (i, order) \<Rightarrow> (put_slot i (order\<lparr> to_state := Cancelled \<rparr>) self)
         \<lparr> ot_active_count := ot_active_count self - 1 \<rparr>
     | None \<Rightarrow> self)"

definition tracker_get :: "u64 \<Rightarrow> OrderTracker \<Rightarrow> TrackedOrder option" where
  "tracker_get cid self = map_option snd (find_slot cid (ot_orders self))"

definition tracker_active_count :: "OrderTracker \<Rightarrow> usize" where
  "tracker_active_count self = ot_active_count self"

definition orders_in :: "TrackedOrder option list \<Rightarrow> TrackedOrder list" where
  "orders_in slots = List.map_filter (\<lambda>s. s) slots"

fun open_qty_loop :: "bool \<Rightarrow> InstrumentId \<Rightarrow> Side \<Rightarrow> Lots \<Rightarrow> TrackedOrder list \<Rightarrow> Lots panics" where
  "open_qty_loop oc iid side acc [] = Some acc"
| "open_qty_loop oc iid side acc (order # orders) =
     (if is_active order \<and> to_instrument_id order = iid \<and> to_side order = side
      then do {
        r \<leftarrow> remaining_qty oc order;
        acc \<leftarrow> lots_add oc acc r;
        open_qty_loop oc iid side acc orders
      }
      else open_qty_loop oc iid side acc orders)"

definition open_qty :: "bool \<Rightarrow> InstrumentId \<Rightarrow> Side \<Rightarrow> OrderTracker \<Rightarrow> Lots panics" where
  "open_qty oc iid side self = open_qty_loop oc iid side lots_ZERO (orders_in (ot_orders self))"

definition active_orders :: "OrderTracker \<Rightarrow> TrackedOrder list" where
  "active_orders self = filter is_active (orders_in (ot_orders self))"

section \<open>Slots\<close>

lemma orders_in_simps [simp]:
  "orders_in [] = []" "orders_in (None # xs) = orders_in xs" "orders_in (Some od # xs) = od # orders_in xs"
  by (simp_all add: orders_in_def List.map_filter_def)

lemma orders_in_append [simp]: "orders_in (xs @ ys) = orders_in xs @ orders_in ys"
  by (simp add: orders_in_def List.map_filter_def)

lemma orders_in_replicate [simp]: "orders_in (replicate n None) = []"
  by (induction n) auto

lemma can_reuse_iff: "can_reuse slot \<longleftrightarrow> (\<forall>od. slot = Some od \<longrightarrow> \<not> is_active od)"
  by (cases slot; cases "to_state (the slot)") (auto simp: can_reuse_def is_active_def)

lemma find_slot_Some:
  assumes "find_slot cid slots = Some (i, od)"
  shows "\<exists>pre post. slots = pre @ Some od # post \<and> length pre = i \<and> to_client_order_id od = cid \<and>
    (\<forall>od'\<in>set (orders_in pre). to_client_order_id od' \<noteq> cid)"
  using assms
proof (induction cid slots arbitrary: i rule: find_slot.induct)
  case (2 cid slots)
  then obtain j where "find_slot cid slots = Some (j, od)" "i = Suc j" by (auto simp: map_prod_def)
  with "2.IH" obtain pre post where "slots = pre @ Some od # post" "length pre = j"
    "to_client_order_id od = cid" "\<forall>od'\<in>set (orders_in pre). to_client_order_id od' \<noteq> cid" by blast
  then show ?case using \<open>i = Suc j\<close> by (intro exI [of _ "None # pre"] exI [of _ post]) simp
next
  case (3 cid x slots)
  show ?case
  proof (cases "to_client_order_id x = cid")
    case True
    with 3 show ?thesis by (intro exI [of _ "[]"] exI [of _ slots]) simp
  next
    case False
    with 3 obtain j where "find_slot cid slots = Some (j, od)" "i = Suc j" by (auto simp: map_prod_def)
    with "3.IH" [OF False] obtain pre post where "slots = pre @ Some od # post" "length pre = j"
      "to_client_order_id od = cid" "\<forall>od'\<in>set (orders_in pre). to_client_order_id od' \<noteq> cid" by blast
    then show ?thesis
      using \<open>i = Suc j\<close> False by (intro exI [of _ "Some x # pre"] exI [of _ post]) simp
  qed
qed simp

lemma find_slot_None: "find_slot cid slots = None \<longleftrightarrow> (\<forall>od\<in>set (orders_in slots). to_client_order_id od \<noteq> cid)"
  by (induction cid slots rule: find_slot.induct) auto

lemma place_order_Some:
  "place_order order slots = Some slots' \<Longrightarrow>
   \<exists>pre slot post. slots = pre @ slot # post \<and> slots' = pre @ Some order # post \<and> can_reuse slot \<and>
     list_all (\<lambda>s. \<not> can_reuse s) pre"
proof (induction slots arbitrary: slots')
  case (Cons slot slots)
  show ?case
  proof (cases "can_reuse slot")
    case True
    with Cons.prems show ?thesis by (intro exI [of _ "[]"] exI [of _ slot] exI [of _ slots]) simp
  next
    case False
    with Cons.prems obtain rest where r: "place_order order slots = Some rest" "slots' = slot # rest" by auto
    from Cons.IH [OF r(1)] obtain pre s post where "slots = pre @ s # post" "rest = pre @ Some order # post"
      "can_reuse s" "list_all (\<lambda>s. \<not> can_reuse s) pre" by blast
    with False r(2) show ?thesis by (intro exI [of _ "slot # pre"] exI [of _ s] exI [of _ post]) simp
  qed
qed simp

lemma place_order_None: "place_order order slots = None \<longleftrightarrow> list_all (\<lambda>s. \<not> can_reuse s) slots"
  by (induction slots) auto

section \<open>Consistency\<close>

definition order_ok :: "TrackedOrder \<Rightarrow> bool" where
  "order_ok od \<longleftrightarrow> 0 \<le> sint (to_filled_qty od) \<and> sint (to_filled_qty od) \<le> sint (to_original_qty od) \<and>
     sint (to_original_qty od) \<le> 2 ^ 56 \<and> (to_state od = Filled \<longrightarrow> to_filled_qty od = to_original_qty od)"

definition tracker_ok :: "OrderTracker \<Rightarrow> bool" where
  "tracker_ok self \<longleftrightarrow> length (ot_orders self) = MAX_TRACKED_ORDERS \<and>
     list_all order_ok (orders_in (ot_orders self)) \<and> ot_active_count self = length (active_orders self)"

lemma tracker_new_ok: "tracker_ok tracker_new"
  by (simp add: tracker_ok_def tracker_new_def active_orders_def)

text \<open>What writing back a found order does to the tracker.\<close>

lemma put_slot_ok:
  assumes "find_slot cid (ot_orders self) = Some (i, od)" "tracker_ok self" "order_ok od'"
  shows "length (ot_orders (put_slot i od' self)) = MAX_TRACKED_ORDERS"
    "list_all order_ok (orders_in (ot_orders (put_slot i od' self)))"
    "order_ok od"
    "length (active_orders (put_slot i od' self)) + of_bool (is_active od) =
       ot_active_count self + of_bool (is_active od')"
proof -
  obtain pre post where sl: "ot_orders self = pre @ Some od # post" "length pre = i"
    using find_slot_Some [OF assms(1)] by blast
  have put: "ot_orders (put_slot i od' self) = pre @ Some od' # post"
    using sl by (auto simp: put_slot_def list_update_append)
  show "length (ot_orders (put_slot i od' self)) = MAX_TRACKED_ORDERS"
    "list_all order_ok (orders_in (ot_orders (put_slot i od' self)))" "order_ok od"
    "length (active_orders (put_slot i od' self)) + of_bool (is_active od) =
       ot_active_count self + of_bool (is_active od')"
    using assms(2,3) unfolding tracker_ok_def active_orders_def put by (simp_all add: sl(1))
qed

lemma active_orders_count [simp]: "active_orders (self\<lparr> ot_active_count := n \<rparr>) = active_orders self"
  by (simp add: active_orders_def)

lemma put_slot_count [simp]: "ot_active_count (put_slot i od self) = ot_active_count self"
  by (simp add: put_slot_def)

definition slot_active :: "u64 \<Rightarrow> OrderTracker \<Rightarrow> bool" where
  "slot_active cid self = (case tracker_get cid self of Some od \<Rightarrow> is_active od | None \<Rightarrow> True)"

lemma slot_active_found:
  "slot_active cid self \<Longrightarrow> find_slot cid (ot_orders self) = Some (i, od) \<Longrightarrow> is_active od"
  by (simp add: slot_active_def tracker_get_def)

lemma found_order_ok:
  assumes "find_slot cid (ot_orders self) = Some (i, od)" "tracker_ok self"
  shows "order_ok od"
  using find_slot_Some [OF assms(1)] assms(2) by (auto simp: tracker_ok_def)

lemma on_ack_ok:
  assumes "tracker_ok self" "slot_active cid self"
  shows "tracker_ok (on_ack cid ex t self)"
proof (cases "find_slot cid (ot_orders self)")
  case (Some r)
  obtain i od where r: "r = (i, od)" by (cases r)
  let ?od = "od\<lparr> to_state := Live, to_exchange_order_id := ex, to_acked_at_ns := t \<rparr>"
  have act: "is_active od" "is_active ?od"
    using slot_active_found [OF assms(2) Some [unfolded r]] by (simp_all add: is_active_def)
  have "order_ok ?od" using found_order_ok [OF Some [unfolded r] assms(1)] by (simp add: order_ok_def)
  from put_slot_ok [OF Some [unfolded r] assms(1) this] act Some r show ?thesis
    by (simp add: tracker_ok_def on_ack_def)
qed (use assms in \<open>simp add: on_ack_def\<close>)

text \<open>Ending an active order keeps the tracker consistent.\<close>

lemma end_order_ok:
  assumes "find_slot cid (ot_orders self) = Some (i, od)" "tracker_ok self" "is_active od"
    and "order_ok od'" "\<not> is_active od'"
  shows "tracker_ok ((put_slot i od' self)\<lparr> ot_active_count := ot_active_count self - 1 \<rparr>)"
  using put_slot_ok [OF assms(1,2,4)] assms(3,5) by (simp add: tracker_ok_def)

lemma on_reject_ok:
  assumes "tracker_ok self" "slot_active cid self"
  shows "tracker_ok (on_reject cid self)"
proof (cases "find_slot cid (ot_orders self)")
  case (Some r)
  obtain i od where r: "find_slot cid (ot_orders self) = Some (i, od)" using Some by (cases r) auto
  have "order_ok (od\<lparr> to_state := Rejected \<rparr>)" "\<not> is_active (od\<lparr> to_state := Rejected \<rparr>)"
    using found_order_ok [OF r assms(1)] by (simp_all add: order_ok_def is_active_def)
  with end_order_ok [OF r assms(1) slot_active_found [OF assms(2) r]] r show ?thesis
    by (simp add: on_reject_def)
qed (use assms in \<open>simp add: on_reject_def\<close>)

lemma on_cancel_ack_ok:
  assumes "tracker_ok self" "slot_active cid self"
  shows "tracker_ok (on_cancel_ack cid self)"
proof (cases "find_slot cid (ot_orders self)")
  case (Some r)
  obtain i od where r: "find_slot cid (ot_orders self) = Some (i, od)" using Some by (cases r) auto
  have "order_ok (od\<lparr> to_state := Cancelled \<rparr>)" "\<not> is_active (od\<lparr> to_state := Cancelled \<rparr>)"
    using found_order_ok [OF r assms(1)] by (simp_all add: order_ok_def is_active_def)
  with end_order_ok [OF r assms(1) slot_active_found [OF assms(2) r]] r show ?thesis
    by (simp add: on_cancel_ack_def)
qed (use assms in \<open>simp add: on_cancel_ack_def\<close>)

lemma on_fill_ok:
  assumes "tracker_ok self" "0 \<le> sint q" "sint q \<le> 2 ^ 62"
  shows "\<exists>self'. on_fill oc cid q self = Some self' \<and> tracker_ok self'"
proof (cases "find_slot cid (ot_orders self)")
  case (Some r)
  obtain i od where r: "find_slot cid (ot_orders self) = Some (i, od)" using Some by (cases r) auto
  have ok: "order_ok od" by (rule found_order_ok [OF r assms(1)])
  show ?thesis
  proof (cases "is_active od")
    case True
    have "\<bar>sint (to_filled_qty od) + sint q\<bar> < 2 ^ 63" using ok assms(2,3) by (simp add: order_ok_def)
    then obtain f where f: "lots_add oc (to_filled_qty od) q = Some f" "sint f = sint (to_filled_qty od) + sint q"
      by (metis in_i64_numeral_range i64_arith_fits lots_add_def add_i64_def sint_of_int_i64)
    let ?full = "od\<lparr> to_filled_qty := to_original_qty od, to_state := Filled \<rparr>"
      and ?part = "od\<lparr> to_filled_qty := f \<rparr>"
    have full: "order_ok ?full" "\<not> is_active ?full" using ok by (simp_all add: order_ok_def is_active_def)
    show ?thesis
    proof (cases "sint (to_original_qty od) \<le> sint f")
      case True
      then show ?thesis
        using end_order_ok [OF r assms(1) \<open>is_active od\<close> full] \<open>is_active od\<close> r f(1) by (simp add: on_fill_def)
    next
      case False
      have "order_ok ?part" "is_active ?part"
        using ok False f(2) assms(2) \<open>is_active od\<close> by (auto simp: order_ok_def is_active_def)
      then have "tracker_ok (put_slot i ?part self)"
        using put_slot_ok [OF r assms(1) \<open>order_ok ?part\<close>] \<open>is_active od\<close> by (simp add: tracker_ok_def)
      with False \<open>is_active od\<close> r f(1) show ?thesis by (simp add: on_fill_def)
    qed
  qed (use r assms in \<open>simp add: on_fill_def\<close>)
qed (use assms in \<open>simp add: on_fill_def\<close>)

lemma on_intent_sent_Inr:
  assumes "on_intent_sent order self = (Inr (), self')"
  obtains pre slot post where "ot_orders self = pre @ slot # post" "can_reuse slot"
    "list_all (\<lambda>s. \<not> can_reuse s) pre"
    "self' = self\<lparr> ot_orders := pre @ Some order # post, ot_active_count := ot_active_count self + 1 \<rparr>"
proof -
  obtain slots where "place_order order (ot_orders self) = Some slots"
    "self' = self\<lparr> ot_orders := slots, ot_active_count := ot_active_count self + 1 \<rparr>"
    using assms by (auto simp: on_intent_sent_def split: option.splits)
  with place_order_Some [of order "ot_orders self" slots] that show ?thesis by metis
qed

lemma reusable_orders: "can_reuse slot \<Longrightarrow> filter is_active (orders_in [slot]) = []"
  by (cases slot) (auto simp: can_reuse_iff)

lemma on_intent_sent_active:
  assumes "on_intent_sent order self = (Inr (), self')" "is_active order"
  shows "mset (active_orders self') = add_mset order (mset (active_orders self))"
proof -
  obtain pre slot post where sl: "ot_orders self = pre @ slot # post" "can_reuse slot"
    "self' = self\<lparr> ot_orders := pre @ Some order # post, ot_active_count := ot_active_count self + 1 \<rparr>"
    by (rule on_intent_sent_Inr [OF assms(1)])
  have "orders_in (slot # post) = orders_in [slot] @ orders_in post" by (cases slot) auto
  with sl reusable_orders [OF sl(2)] assms(2) show ?thesis by (simp add: active_orders_def)
qed

lemma on_intent_sent_ok:
  assumes "tracker_ok self" "order_ok order" "is_active order"
  shows "tracker_ok (snd (on_intent_sent order self))"
proof (cases "fst (on_intent_sent order self)")
  case (Inr u)
  then obtain self' where s: "on_intent_sent order self = (Inr (), self')"
    by (cases "on_intent_sent order self") auto
  obtain pre slot post where sl: "ot_orders self = pre @ slot # post"
    "self' = self\<lparr> ot_orders := pre @ Some order # post, ot_active_count := ot_active_count self + 1 \<rparr>"
    by (rule on_intent_sent_Inr [OF s])
  have "length (active_orders self') = Suc (length (active_orders self))"
    using on_intent_sent_active [OF s assms(3)] by (metis size_add_mset size_mset)
  moreover have "list_all order_ok (orders_in post)" "list_all order_ok (orders_in pre)"
    using assms(1) sl(1) by (cases slot; simp add: tracker_ok_def)+
  ultimately show ?thesis using assms sl by (simp add: s tracker_ok_def)
qed (use assms in \<open>auto simp: on_intent_sent_def split: option.splits\<close>)

section \<open>Open quantity\<close>

definition open_sum :: "InstrumentId \<Rightarrow> Side \<Rightarrow> TrackedOrder list \<Rightarrow> int" where
  "open_sum iid side orders = sum_list (map (\<lambda>od. sint (to_original_qty od) - sint (to_filled_qty od))
     (filter (\<lambda>od. is_active od \<and> to_instrument_id od = iid \<and> to_side od = side) orders))"

lemma i64_arith_small: "\<bar>x\<bar> < 2 ^ 63 \<Longrightarrow> \<exists>r. i64_arith oc x = Some r \<and> sint r = x"
  by (simp add: in_i64_numeral_range)

lemma open_qty_loop_sum:
  assumes "list_all order_ok orders" "0 \<le> sint acc" "sint acc + 2 ^ 56 * int (length orders) < 2 ^ 63"
  shows "\<exists>r. open_qty_loop oc iid side acc orders = Some r \<and> sint r = sint acc + open_sum iid side orders \<and>
    0 \<le> open_sum iid side orders"
  using assms
proof (induction orders arbitrary: acc)
  case Nil
  then show ?case by (simp add: open_sum_def)
next
  case (Cons od orders)
  show ?case
  proof (cases "is_active od \<and> to_instrument_id od = iid \<and> to_side od = side")
    case True
    have le: "0 \<le> sint (to_original_qty od) - sint (to_filled_qty od)"
      "sint (to_original_qty od) - sint (to_filled_qty od) \<le> 2 ^ 56"
      using Cons.prems(1) by (simp_all add: order_ok_def)
    obtain r where r: "remaining_qty oc od = Some r" "sint r = sint (to_original_qty od) - sint (to_filled_qty od)"
      using i64_arith_small [of "sint (to_original_qty od) - sint (to_filled_qty od)" oc] le
      by (auto simp: remaining_qty_def lots_sub_def sub_i64_def)
    obtain a where a: "lots_add oc acc r = Some a" "sint a = sint acc + sint r"
      using i64_arith_small [of "sint acc + sint r" oc] le r(2) Cons.prems
      by (auto simp: lots_add_def add_i64_def)
    have "0 \<le> sint a" "sint a + 2 ^ 56 * int (length orders) < 2 ^ 63"
      using a(2) r(2) le Cons.prems by (auto simp: algebra_simps)
    with Cons.IH [of a] Cons.prems(1) True r a le show ?thesis by (auto simp: open_sum_def)
  next
    case False
    with Cons show ?thesis by (auto simp: open_sum_def)
  qed
qed

lemma length_orders_in: "length (orders_in slots) \<le> length slots"
  by (induction slots rule: list.induct; simp; case_tac x1; simp)

lemma open_qty_sum:
  assumes "tracker_ok self"
  shows "\<exists>r. open_qty oc iid side self = Some r \<and> sint r = open_sum iid side (orders_in (ot_orders self)) \<and> 0 \<le> sint r"
proof -
  have "length (orders_in (ot_orders self)) \<le> 64"
    using length_orders_in [of "ot_orders self"] assms by (simp add: tracker_ok_def MAX_TRACKED_ORDERS_def)
  then have "sint lots_ZERO + 2 ^ 56 * int (length (orders_in (ot_orders self))) < 2 ^ 63"
    by (simp add: lots_ZERO_def)
  with open_qty_loop_sum [of "orders_in (ot_orders self)" lots_ZERO oc iid side] assms show ?thesis
    by (auto simp: open_qty_def tracker_ok_def lots_ZERO_def)
qed

section \<open>Histories\<close>

datatype tracker_cmd =
    IntentSent TrackedOrder
  | Ack u64 u64 u64
  | Reject u64
  | FillOf u64 Lots
  | CancelAck u64

fun tracker_step :: "bool \<Rightarrow> tracker_cmd \<Rightarrow> OrderTracker \<Rightarrow> OrderTracker panics" where
  "tracker_step oc (IntentSent order) self = Some (snd (on_intent_sent order self))"
| "tracker_step oc (Ack cid ex t) self = Some (on_ack cid ex t self)"
| "tracker_step oc (Reject cid) self = Some (on_reject cid self)"
| "tracker_step oc (FillOf cid q) self = on_fill oc cid q self"
| "tracker_step oc (CancelAck cid) self = Some (on_cancel_ack cid self)"

text \<open>A venue that answers active orders only, and quantities in range.\<close>

fun venue_respects :: "tracker_cmd \<Rightarrow> OrderTracker \<Rightarrow> bool" where
  "venue_respects (IntentSent order) self \<longleftrightarrow> order_ok order \<and> is_active order"
| "venue_respects (Ack cid ex t) self \<longleftrightarrow> slot_active cid self"
| "venue_respects (Reject cid) self \<longleftrightarrow> slot_active cid self"
| "venue_respects (FillOf cid q) self \<longleftrightarrow> 0 \<le> sint q \<and> sint q \<le> 2 ^ 62"
| "venue_respects (CancelAck cid) self \<longleftrightarrow> slot_active cid self"

inductive tracker_reaches :: "bool \<Rightarrow> tracker_cmd list \<Rightarrow> OrderTracker \<Rightarrow> bool" for oc where
  start: "tracker_reaches oc [] tracker_new"
| more: "tracker_reaches oc cs self \<Longrightarrow> venue_respects c self \<Longrightarrow> tracker_step oc c self = Some self' \<Longrightarrow>
    tracker_reaches oc (cs @ [c]) self'"

lemma tracker_step_ok:
  assumes "tracker_ok self" "venue_respects c self"
  shows "\<exists>self'. tracker_step oc c self = Some self' \<and> tracker_ok self'"
  using assms by (cases c) (auto intro: on_intent_sent_ok on_ack_ok on_reject_ok on_cancel_ack_ok on_fill_ok)

lemma tracker_reaches_ok: "tracker_reaches oc cs self \<Longrightarrow> tracker_ok self"
proof (induction rule: tracker_reaches.induct)
  case (more cs self c self')
  with tracker_step_ok [of self c oc] show ?case by auto
qed (rule tracker_new_ok)

section \<open>What a history says of an order\<close>

fun intents :: "tracker_cmd list \<Rightarrow> TrackedOrder list" where
  "intents [] = []"
| "intents (IntentSent od # cs) = od # intents cs"
| "intents (_ # cs) = intents cs"

lemma intents_append [simp]: "intents (cs @ ds) = intents cs @ intents ds"
  by (induction cs rule: intents.induct) simp_all

text \<open>A strategy that numbers its orders and sends them unfilled, with a positive size.\<close>

definition proper_intents :: "tracker_cmd list \<Rightarrow> bool" where
  "proper_intents cs \<longleftrightarrow> distinct (map to_client_order_id (intents cs)) \<and>
     list_all (\<lambda>od. to_filled_qty od = 0 \<and> 0 < sint (to_original_qty od)) (intents cs)"

text \<open>The quantity received for an id since its intent, up to a rejection or a cancel confirmation, and whether
  there has been one. Only the commands are looked at.\<close>

fun account_step :: "u64 \<Rightarrow> tracker_cmd \<Rightarrow> int \<times> bool \<Rightarrow> int \<times> bool" where
  "account_step cid (IntentSent od) (n, over) = (if to_client_order_id od = cid then (0, False) else (n, over))"
| "account_step cid (Ack c ex t) (n, over) = (n, over)"
| "account_step cid (Reject c) (n, over) = (n, over \<or> c = cid)"
| "account_step cid (FillOf c q) (n, over) = (if c = cid \<and> \<not> over then n + sint q else n, over)"
| "account_step cid (CancelAck c) (n, over) = (n, over \<or> c = cid)"

definition account :: "u64 \<Rightarrow> tracker_cmd list \<Rightarrow> int \<times> bool" where
  "account cid cs = fold (account_step cid) cs (0, True)"

definition received :: "tracker_cmd list \<Rightarrow> TrackedOrder \<Rightarrow> int" where
  "received cs sent = fst (account (to_client_order_id sent) cs)"

definition still_open :: "tracker_cmd list \<Rightarrow> TrackedOrder \<Rightarrow> bool" where
  "still_open cs sent \<longleftrightarrow> \<not> snd (account (to_client_order_id sent) cs) \<and> received cs sent < sint (to_original_qty sent)"

text \<open>The orders for which \<open>on_intent_sent\<close> returned \<open>Ok\<close>.\<close>

definition accept_step :: "bool \<Rightarrow> tracker_cmd \<Rightarrow> OrderTracker \<times> TrackedOrder list \<Rightarrow> OrderTracker \<times> TrackedOrder list" where
  "accept_step oc c st = (case st of (self, acc) \<Rightarrow> (case tracker_step oc c self of None \<Rightarrow> st
     | Some self' \<Rightarrow> (self', acc @ (case c of IntentSent od \<Rightarrow>
         (case fst (on_intent_sent od self) of Inr _ \<Rightarrow> [od] | Inl _ \<Rightarrow> []) | _ \<Rightarrow> []))))"

definition accepted :: "bool \<Rightarrow> tracker_cmd list \<Rightarrow> TrackedOrder list" where
  "accepted oc cs = snd (fold (accept_step oc) cs (tracker_new, []))"

lemma account_snoc: "account cid (cs @ [c]) = account_step cid c (account cid cs)"
  by (simp add: account_def)

lemma account_other:
  "(\<And>od. c = IntentSent od \<Longrightarrow> to_client_order_id od \<noteq> cid) \<Longrightarrow>
   (\<And>q. c \<noteq> FillOf cid q) \<Longrightarrow> c \<noteq> Reject cid \<Longrightarrow> c \<noteq> CancelAck cid \<Longrightarrow> account cid (cs @ [c]) = account cid cs"
  by (cases c; cases "account cid cs") (auto simp: account_snoc)

lemma reaches_fold: "tracker_reaches oc cs self \<Longrightarrow> fst (fold (accept_step oc) cs (tracker_new, [])) = self"
  by (induction rule: tracker_reaches.induct) (auto simp: accept_step_def split: prod.splits)

lemma accepted_snoc:
  assumes "tracker_reaches oc cs self" "tracker_step oc c self = Some self'"
  shows "accepted oc (cs @ [c]) = accepted oc cs @ (case c of IntentSent od \<Rightarrow>
     (case fst (on_intent_sent od self) of Inr _ \<Rightarrow> [od] | Inl _ \<Rightarrow> []) | _ \<Rightarrow> [])"
  using reaches_fold [OF assms(1)] assms(2)
  by (cases "fold (accept_step oc) cs (tracker_new, [])") (auto simp: accepted_def accept_step_def)

text \<open>What a slot holds of the order that was sent.\<close>

definition matches :: "tracker_cmd list \<Rightarrow> TrackedOrder \<Rightarrow> TrackedOrder \<Rightarrow> bool" where
  "matches cs sent od \<longleftrightarrow> to_client_order_id od = to_client_order_id sent \<and>
     to_instrument_id od = to_instrument_id sent \<and> to_side od = to_side sent \<and>
     to_original_qty od = to_original_qty sent \<and>
     sint (to_filled_qty od) = min (sint (to_original_qty sent)) (received cs sent) \<and>
     (is_active od \<longleftrightarrow> still_open cs sent) \<and>
     (to_state od = Filled \<longleftrightarrow> \<not> snd (account (to_client_order_id sent) cs) \<and> sint (to_original_qty sent) \<le> received cs sent)"

definition slots_match :: "tracker_cmd list \<Rightarrow> TrackedOrder list \<Rightarrow> TrackedOrder option list \<Rightarrow> bool" where
  "slots_match cs acc slots \<longleftrightarrow> distinct (map to_client_order_id acc) \<and> distinct (map to_client_order_id (orders_in slots)) \<and>
     (\<forall>od\<in>set (orders_in slots). \<exists>sent\<in>set acc. matches cs sent od) \<and>
     (\<forall>sent\<in>set acc. still_open cs sent \<longrightarrow> (\<exists>od\<in>set (orders_in slots). to_client_order_id od = to_client_order_id sent))"

lemma matches_cong:
  "account (to_client_order_id sent) cs' = account (to_client_order_id sent) cs \<Longrightarrow> matches cs' sent od = matches cs sent od"
  "account (to_client_order_id sent) cs' = account (to_client_order_id sent) cs \<Longrightarrow> still_open cs' sent = still_open cs sent"
  by (simp_all add: matches_def still_open_def received_def)

text \<open>A command about one id, at a slot that holds it: the order is replaced, and the others are as before.\<close>

lemma slots_match_put:
  assumes "slots_match cs acc (pre @ Some od # post)" "to_client_order_id od' = to_client_order_id od"
    and "\<And>sent :: TrackedOrder. to_client_order_id sent \<noteq> to_client_order_id od \<Longrightarrow>
      account (to_client_order_id sent) cs' = account (to_client_order_id sent) cs"
    and "\<And>sent. matches cs sent od \<Longrightarrow> matches cs' sent od'"
  shows "slots_match cs' acc (pre @ Some od' # post)"
proof -
  let ?old = "orders_in (pre @ Some od # post)" and ?new = "orders_in (pre @ Some od' # post)"
  have ids: "map to_client_order_id ?new = map to_client_order_id ?old" using assms(2) by simp
  have dist: "distinct (map to_client_order_id ?old)" using assms(1) by (simp add: slots_match_def)
  have "\<exists>sent\<in>set acc. matches cs' sent x" if "x \<in> set ?new" for x
  proof (cases "x = od'")
    case True
    obtain sent where "sent \<in> set acc" "matches cs sent od" using assms(1) by (auto simp: slots_match_def)
    with assms(4) True show ?thesis by blast
  next
    case False
    then have x: "x \<in> set ?old" "to_client_order_id x \<noteq> to_client_order_id od" using that dist by (auto simp: image_iff)
    then obtain sent where sent: "sent \<in> set acc" "matches cs sent x" using assms(1) unfolding slots_match_def by blast
    then have "to_client_order_id sent \<noteq> to_client_order_id od" using x(2) by (simp add: matches_def)
    from matches_cong(1) [OF assms(3) [OF this]] sent show ?thesis by blast
  qed
  moreover have "\<exists>x\<in>set ?new. to_client_order_id x = to_client_order_id sent"
    if "sent \<in> set acc" "still_open cs' sent" for sent
  proof (cases "to_client_order_id sent = to_client_order_id od")
    case False
    from that(2) have "still_open cs sent" unfolding matches_cong(2) [OF assms(3) [OF False]] .
    then have "\<exists>x\<in>set ?old. to_client_order_id x = to_client_order_id sent"
      using that(1) assms(1) unfolding slots_match_def by blast
    then have "to_client_order_id sent \<in> set (map to_client_order_id ?old)" by (metis image_eqI set_map)
    then show ?thesis unfolding ids [symmetric] by auto
  qed (use assms(2) in auto)
  moreover have "distinct (map to_client_order_id acc)" using assms(1) by (simp add: slots_match_def)
  ultimately show ?thesis using dist unfolding slots_match_def ids by blast
qed

text \<open>A command about an id that no slot holds, or whose order has ended.\<close>

lemma slots_match_same:
  assumes "slots_match cs acc slots"
    and "\<And>sent. sent \<in> set acc \<Longrightarrow> still_open cs' sent \<Longrightarrow> still_open cs sent"
    and "\<And>sent od. sent \<in> set acc \<Longrightarrow> od \<in> set (orders_in slots) \<Longrightarrow> matches cs sent od \<Longrightarrow> matches cs' sent od"
  shows "slots_match cs' acc slots"
  using assms unfolding slots_match_def by blast

lemma found_in_slots:
  assumes "find_slot cid slots = Some (i, od)"
  obtains pre post where "slots = pre @ Some od # post" "slots[i := Some od'] = pre @ Some od' # post" "to_client_order_id od = cid"
  using find_slot_Some [OF assms] that by (metis list_update_length)

lemma account_fill:
  "account cid (cs @ [FillOf c q]) = (if c = cid \<and> \<not> snd (account cid cs) then (fst (account cid cs) + sint q, False) else account cid cs)"
  "account cid (cs @ [Reject c]) = (fst (account cid cs), snd (account cid cs) \<or> c = cid)"
  "account cid (cs @ [CancelAck c]) = (fst (account cid cs), snd (account cid cs) \<or> c = cid)"
  "account cid (cs @ [Ack c ex t]) = account cid cs"
  "account cid (cs @ [IntentSent od]) = (if to_client_order_id od = cid then (0, False) else account cid cs)"
  by (cases "account cid cs"; auto simp: account_snoc)+

lemma matches_ends:
  assumes "matches cs sent od" "is_active od" "c = Reject (to_client_order_id od) \<or> c = CancelAck (to_client_order_id od)"
    and "x = Rejected \<or> x = Cancelled"
  shows "matches (cs @ [c]) sent (od\<lparr> to_state := x \<rparr>)"
  using assms by (auto simp: matches_def still_open_def received_def account_fill is_active_def)

lemma slots_match_end:
  assumes "slots_match cs acc (ot_orders self)" "slot_active cid self" "c = Reject cid \<or> c = CancelAck cid"
    and "x = Rejected \<or> x = Cancelled"
    and "slots' = (case find_slot cid (ot_orders self) of Some (i, od) \<Rightarrow> (ot_orders self)[i := Some (od\<lparr> to_state := x \<rparr>)]
       | None \<Rightarrow> ot_orders self)"
  shows "slots_match (cs @ [c]) acc slots'"
proof (cases "find_slot cid (ot_orders self)")
  case (Some r)
  obtain i od where r: "find_slot cid (ot_orders self) = Some (i, od)" using Some by (cases r) auto
  have act: "is_active od" by (rule slot_active_found [OF assms(2) r])
  obtain pre post where sl: "ot_orders self = pre @ Some od # post"
      "(ot_orders self)[i := Some (od\<lparr> to_state := x \<rparr>)] = pre @ Some (od\<lparr> to_state := x \<rparr>) # post" "to_client_order_id od = cid"
    by (rule found_in_slots [OF r])
  have c: "c = Reject (to_client_order_id od) \<or> c = CancelAck (to_client_order_id od)" using assms(3) sl(3) by simp
  have "slots_match (cs @ [c]) acc (pre @ Some (od\<lparr> to_state := x \<rparr>) # post)"
    using matches_ends [OF _ act c assms(4)] c
    by (intro slots_match_put [OF assms(1) [unfolded sl(1)]]) (auto simp: account_fill prod_eq_iff)
  then show ?thesis using assms(5) r sl(2) by simp
next
  case None
  have gone: "\<forall>od\<in>set (orders_in (ot_orders self)). to_client_order_id od \<noteq> cid" using None by (simp add: find_slot_None)
  have "slots_match (cs @ [c]) acc (ot_orders self)"
  proof (rule slots_match_same [OF assms(1)])
    show "still_open cs sent" if "still_open (cs @ [c]) sent" for sent
      using that assms(3) by (auto simp: still_open_def received_def account_fill)
    show "matches (cs @ [c]) sent od" if "od \<in> set (orders_in (ot_orders self))" "matches cs sent od" for sent od
      using that gone assms(3) by (auto simp: matches_def still_open_def received_def account_fill)
  qed
  then show ?thesis using assms(5) None by simp
qed

lemma slots_match_ack:
  assumes "slots_match cs acc (ot_orders self)" "slot_active cid self"
  shows "slots_match (cs @ [Ack cid ex t]) acc (ot_orders (on_ack cid ex t self))"
proof (cases "find_slot cid (ot_orders self)")
  case (Some r)
  obtain i od where r: "find_slot cid (ot_orders self) = Some (i, od)" using Some by (cases r) auto
  let ?od = "od\<lparr> to_state := Live, to_exchange_order_id := ex, to_acked_at_ns := t \<rparr>"
  have act: "is_active od" by (rule slot_active_found [OF assms(2) r])
  obtain pre post where sl: "ot_orders self = pre @ Some od # post" "(ot_orders self)[i := Some ?od] = pre @ Some ?od # post"
    by (rule found_in_slots [OF r])
  have "matches (cs @ [Ack cid ex t]) sent ?od" if "matches cs sent od" for sent
    using that act by (auto simp: matches_def still_open_def received_def account_fill is_active_def)
  then have "slots_match (cs @ [Ack cid ex t]) acc (pre @ Some ?od # post)"
    by (intro slots_match_put [OF assms(1) [unfolded sl(1)]]) (auto simp: account_fill)
  then show ?thesis using r sl(2) by (simp add: on_ack_def put_slot_def)
next
  case None
  then show ?thesis
    using assms(1) by (auto simp: on_ack_def slots_match_def matches_def still_open_def received_def account_fill)
qed

lemma fill_result:
  assumes "order_ok od" "0 \<le> sint q" "sint q \<le> 2 ^ 62"
  shows "\<exists>f. lots_add oc (to_filled_qty od) q = Some f \<and> sint f = sint (to_filled_qty od) + sint q"
proof -
  have "\<bar>sint (to_filled_qty od) + sint q\<bar> < 2 ^ 63" using assms by (simp add: order_ok_def)
  then show ?thesis by (metis in_i64_numeral_range i64_arith_fits lots_add_def add_i64_def sint_of_int_i64)
qed

lemma matches_fill:
  assumes "matches cs sent od" "is_active od" "0 \<le> sint q" "sint f = sint (to_filled_qty od) + sint q"
  shows "sint (to_original_qty od) \<le> sint f \<Longrightarrow> matches (cs @ [FillOf (to_client_order_id od) q]) sent
      (od\<lparr> to_filled_qty := to_original_qty od, to_state := Filled \<rparr>)"
    and "\<not> sint (to_original_qty od) \<le> sint f \<Longrightarrow> matches (cs @ [FillOf (to_client_order_id od) q]) sent (od\<lparr> to_filled_qty := f \<rparr>)"
  using assms by (auto simp: matches_def still_open_def received_def account_fill is_active_def)

lemma slots_match_fill:
  assumes "slots_match cs acc (ot_orders self)" "tracker_ok self" "0 \<le> sint q" "sint q \<le> 2 ^ 62"
    and "on_fill oc cid q self = Some self'"
  shows "slots_match (cs @ [FillOf cid q]) acc (ot_orders self')"
proof (cases "\<exists>i od. find_slot cid (ot_orders self) = Some (i, od) \<and> is_active od")
  case True
  then obtain i od where r: "find_slot cid (ot_orders self) = Some (i, od)" and act: "is_active od" by blast
  obtain f where f: "lots_add oc (to_filled_qty od) q = Some f" "sint f = sint (to_filled_qty od) + sint q"
    using fill_result [OF found_order_ok [OF r assms(2)] assms(3,4)] by blast
  define od' where "od' = (if sint (to_original_qty od) \<le> sint f
     then od\<lparr> to_filled_qty := to_original_qty od, to_state := Filled \<rparr> else od\<lparr> to_filled_qty := f \<rparr>)"
  obtain pre post where sl: "ot_orders self = pre @ Some od # post" "(ot_orders self)[i := Some od'] = pre @ Some od' # post"
      "to_client_order_id od = cid"
    by (rule found_in_slots [OF r])
  have "matches (cs @ [FillOf cid q]) sent od'" if "matches cs sent od" for sent
    using matches_fill [OF that act assms(3) f(2)] sl(3) by (auto simp: od'_def)
  moreover have "to_client_order_id od' = to_client_order_id od" by (simp add: od'_def)
  ultimately have "slots_match (cs @ [FillOf cid q]) acc (pre @ Some od' # post)"
    using sl(3) by (intro slots_match_put [OF assms(1) [unfolded sl(1)]]) (auto simp: account_fill)
  moreover have "ot_orders self' = (ot_orders self)[i := Some od']"
    using assms(5) r act f(1) by (auto simp: on_fill_def put_slot_def od'_def split: if_splits)
  ultimately show ?thesis using sl(2) by simp
next
  case False
  then have self': "self' = self" using assms(5) by (auto simp: on_fill_def split: option.splits if_splits)
  have over: "\<not> still_open cs sent"
    if "sent \<in> set acc" "matches cs sent od" "od \<in> set (orders_in (ot_orders self))" "to_client_order_id od = cid" for sent od
  proof -
    have "find_slot cid (ot_orders self) \<noteq> None" using that(3,4) by (auto simp: find_slot_None)
    then obtain i od2 where r: "find_slot cid (ot_orders self) = Some (i, od2)" by auto
    obtain pre post where sl: "ot_orders self = pre @ Some od2 # post" "to_client_order_id od2 = cid"
      using found_in_slots [OF r] by metis
    have "od = od2"
      using that(3,4) sl assms(1) unfolding slots_match_def distinct_map by (metis inj_onD in_set_conv_decomp orders_in_append orders_in_simps(3))
    then show ?thesis using False r that(2) by (auto simp: matches_def)
  qed
  show ?thesis unfolding self'
  proof (rule slots_match_same [OF assms(1)])
    show "still_open cs sent" if "still_open (cs @ [FillOf cid q]) sent" for sent
      using that assms(3) by (auto simp: still_open_def received_def account_fill split: if_splits)
    show "matches (cs @ [FillOf cid q]) sent od"
      if "sent \<in> set acc" "od \<in> set (orders_in (ot_orders self))" "matches cs sent od" for sent od
    proof (cases "to_client_order_id od = cid")
      case True
      with over [OF that(1,3,2)] that(3) assms(3) show ?thesis
        by (auto simp: matches_def still_open_def received_def account_fill)
    next
      case False
      then show ?thesis using that(3) by (auto simp: matches_def still_open_def received_def account_fill)
    qed
  qed
qed

lemma slots_match_intent:
  assumes "slots_match cs acc (ot_orders self)" "is_active order" "to_filled_qty order = 0" "0 < sint (to_original_qty order)"
    and "\<forall>sent\<in>set acc. to_client_order_id sent \<noteq> to_client_order_id order"
  shows "slots_match (cs @ [IntentSent order])
    (acc @ (case fst (on_intent_sent order self) of Inr _ \<Rightarrow> [order] | Inl _ \<Rightarrow> [])) (ot_orders (snd (on_intent_sent order self)))"
proof -
  let ?cs = "cs @ [IntentSent order]" and ?id = to_client_order_id
  have acct: "account (?id sent) ?cs = account (?id sent) cs" if "sent \<in> set acc" for sent
    using assms(5) that by (auto simp: account_fill)
  have fresh: "?id od \<noteq> ?id order" if "od \<in> set (orders_in (ot_orders self))" for od
    using that assms(1,5) by (auto simp: slots_match_def matches_def)
  have same: "slots_match ?cs acc (ot_orders self)"
    using matches_cong [OF acct] by (intro slots_match_same [OF assms(1)]) auto
  show ?thesis
  proof (cases "fst (on_intent_sent order self)")
    case (Inr u)
    then have "on_intent_sent order self = (Inr (), snd (on_intent_sent order self))"
      by (cases "on_intent_sent order self") auto
    from on_intent_sent_Inr [OF this] obtain pre slot post where sl: "ot_orders self = pre @ slot # post" "can_reuse slot"
      "ot_orders (snd (on_intent_sent order self)) = pre @ Some order # post" by (metis OrderTracker.select_convs(1) OrderTracker.surjective OrderTracker.update_convs(1,2))
    let ?old = "orders_in (pre @ slot # post)" and ?new = "orders_in (pre @ Some order # post)"
    have old: "set ?old = set (orders_in [slot]) \<union> set (orders_in (pre @ post))"
      "set ?new = insert order (set (orders_in (pre @ post)))" by (cases slot; auto)+
    have "distinct (map ?id (orders_in (pre @ post)))"
      using assms(1) sl(1) by (cases slot) (auto simp: slots_match_def)
    moreover have "?id order \<notin> ?id ` set (orders_in (pre @ post))" using fresh old(1) unfolding sl(1) by force
    ultimately have dist: "distinct (map ?id ?new)" by auto
    have self: "matches ?cs order order"
      using assms(2-4) by (auto simp: matches_def still_open_def received_def account_fill is_active_def)
    have "\<exists>sent\<in>set (acc @ [order]). matches ?cs sent od" if "od \<in> set ?new" for od
      using that self same old unfolding sl(1) slots_match_def by auto
    moreover have "\<exists>od\<in>set ?new. ?id od = ?id sent" if sent: "sent \<in> set (acc @ [order])" "still_open ?cs sent" for sent
    proof (cases "sent = order")
      case False
      then have "sent \<in> set acc" using sent by simp
      then obtain od where od: "od \<in> set ?old" "?id od = ?id sent"
        using same sent(2) unfolding slots_match_def sl(1) by blast
      show ?thesis
      proof (cases "od \<in> set (orders_in (pre @ post))")
        case False
        then have "slot = Some od" using od(1) old(1) by (cases slot) auto
        then have "\<not> is_active od" using sl(2) by (auto simp: can_reuse_iff)
        obtain sent2 where s2: "sent2 \<in> set acc" "matches ?cs sent2 od" using same od(1) unfolding slots_match_def sl(1) by blast
        have "sent2 = sent" using s2 od(2) \<open>sent \<in> set acc\<close> same
          by (auto simp: slots_match_def matches_def distinct_map dest: inj_onD)
        then show ?thesis using s2(2) \<open>\<not> is_active od\<close> sent(2) by (simp add: matches_def)
      qed (use old od in auto)
    qed (use old in auto)
    moreover have "distinct (map ?id (acc @ [order]))" using assms(1,5) by (auto simp: slots_match_def)
    ultimately show ?thesis using dist Inr sl(3) by (simp add: slots_match_def)
  next
    case (Inl e)
    then have "snd (on_intent_sent order self) = self" by (auto simp: on_intent_sent_def split: option.splits)
    then show ?thesis using Inl same by simp
  qed
qed

lemma accepted_intents: "tracker_reaches oc cs self \<Longrightarrow> set (accepted oc cs) \<subseteq> set (intents cs)"
proof (induction rule: tracker_reaches.induct)
  case (more cs self c self')
  then show ?case unfolding accepted_snoc [OF more.hyps(1,3)]
    by (auto split: tracker_cmd.splits sum.splits)
qed (simp add: accepted_def)

lemma tracker_reaches_match:
  "tracker_reaches oc cs self \<Longrightarrow> proper_intents cs \<Longrightarrow> slots_match cs (accepted oc cs) (ot_orders self)"
proof (induction rule: tracker_reaches.induct)
  case start
  show ?case by (simp add: slots_match_def accepted_def tracker_new_def)
next
  case (more cs self c self')
  have ok: "tracker_ok self" by (rule tracker_reaches_ok [OF more.hyps(1)])
  have IH: "slots_match cs (accepted oc cs) (ot_orders self)"
    using more.IH more.prems by (auto simp: proper_intents_def)
  note acc = accepted_snoc [OF more.hyps(1,3)]
  show ?case
  proof (cases c)
    case (IntentSent order)
    have "\<forall>sent\<in>set (accepted oc cs). to_client_order_id sent \<noteq> to_client_order_id order"
      using more.prems accepted_intents [OF more.hyps(1)] IntentSent by (fastforce simp: proper_intents_def image_iff)
    with slots_match_intent [OF IH, of order] more IntentSent acc show ?thesis by (auto simp: proper_intents_def)
  next
    case (Ack cid ex t)
    then show ?thesis using slots_match_ack [OF IH] more.hyps acc by auto
  next
    case (Reject cid)
    have "ot_orders self' = (case find_slot cid (ot_orders self) of
        Some (i, od) \<Rightarrow> (ot_orders self)[i := Some (od\<lparr> to_state := Rejected \<rparr>)] | None \<Rightarrow> ot_orders self)"
      using more.hyps(3) Reject by (auto simp: on_reject_def put_slot_def split: option.split)
    from slots_match_end [OF IH _ _ _ this, of c] more.hyps(2) Reject acc show ?thesis by auto
  next
    case (FillOf cid q)
    then show ?thesis using slots_match_fill [OF IH ok] more.hyps(2,3) acc by auto
  next
    case (CancelAck cid)
    have "ot_orders self' = (case find_slot cid (ot_orders self) of
        Some (i, od) \<Rightarrow> (ot_orders self)[i := Some (od\<lparr> to_state := Cancelled \<rparr>)] | None \<Rightarrow> ot_orders self)"
      using more.hyps(3) CancelAck by (auto simp: on_cancel_ack_def put_slot_def split: option.split)
    from slots_match_end [OF IH _ _ _ this, of c] more.hyps(2) CancelAck acc show ?thesis by auto
  qed
qed

text \<open>The active orders in the slots are the open orders of the history, so sums over both agree.\<close>

lemma same_pairs_sum:
  fixes ps qs :: "('k \<times> int) list"
  assumes "distinct (map fst ps)" "distinct (map fst qs)" "set ps = set qs"
  shows "sum_list (map snd ps) = sum_list (map snd qs)" "length ps = length qs"
proof -
  have "mset ps = mset qs" using assms by (simp add: distinct_map set_eq_iff_mset_eq_distinct)
  then show "sum_list (map snd ps) = sum_list (map snd qs)" "length ps = length qs"
    by (metis mset_map sum_mset_sum_list) (metis \<open>mset ps = mset qs\<close> size_mset)
qed

lemma open_orders_agree:
  assumes "slots_match cs acc slots" "\<And>x y. to_instrument_id x = to_instrument_id y \<Longrightarrow> to_side x = to_side y \<Longrightarrow> P x = P y"
  defines "xs \<equiv> filter (\<lambda>od. is_active od \<and> P od) (orders_in slots)" and "ys \<equiv> filter (\<lambda>sent. still_open cs sent \<and> P sent) acc"
  shows "sum_list (map (\<lambda>od. sint (to_original_qty od) - sint (to_filled_qty od)) xs) =
      sum_list (map (\<lambda>sent. sint (to_original_qty sent) - received cs sent) ys)"
    and "length xs = length ys"
proof -
  let ?id = to_client_order_id
  define ps where "ps = map (\<lambda>od. (?id od, sint (to_original_qty od) - sint (to_filled_qty od))) xs"
  define qs where "qs = map (\<lambda>sent. (?id sent, sint (to_original_qty sent) - received cs sent)) ys"
  have dist: "distinct (map ?id acc)" "distinct (map ?id (orders_in slots))" using assms(1) by (simp_all add: slots_match_def)
  have "distinct (map fst ps)" "distinct (map fst qs)"
    using dist by (simp_all add: ps_def qs_def xs_def ys_def o_def distinct_map_filter)
  moreover have "set ps = set qs"
  proof -
    have 1: "(\<exists>sent\<in>set ys. matches cs sent od)" if "od \<in> set xs" for od
    proof -
      have od: "od \<in> set (orders_in slots)" "is_active od" "P od" using that by (simp_all add: xs_def)
      then obtain sent where s: "sent \<in> set acc" "matches cs sent od" using assms(1) unfolding slots_match_def by blast
      then have "still_open cs sent" "P sent" using od(2,3) assms(2) [of sent od] by (simp_all add: matches_def)
      with s show ?thesis by (auto simp: ys_def)
    qed
    have 2: "(\<exists>od\<in>set xs. matches cs sent od)" if "sent \<in> set ys" for sent
    proof -
      have s: "sent \<in> set acc" "still_open cs sent" "P sent" using that by (simp_all add: ys_def)
      then obtain od where od: "od \<in> set (orders_in slots)" "?id od = ?id sent" using assms(1) unfolding slots_match_def by blast
      then obtain sent2 where s2: "sent2 \<in> set acc" "matches cs sent2 od" using assms(1) unfolding slots_match_def by blast
      then have "?id sent2 = ?id sent" using od(2) by (simp add: matches_def)
      then have "sent2 = sent" using s2(1) s(1) dist(1) by (auto simp: distinct_map dest: inj_onD)
      then have m: "matches cs sent od" using s2(2) by simp
      then have "is_active od" "P od" using s(2,3) assms(2) [of od sent] by (simp_all add: matches_def)
      then show ?thesis using od(1) m by (auto simp: xs_def)
    qed
    have pair: "(?id od, sint (to_original_qty od) - sint (to_filled_qty od)) =
        (?id sent, sint (to_original_qty sent) - received cs sent)" if "matches cs sent od" "is_active od" for sent od
      using that by (simp add: matches_def still_open_def)
    have act: "is_active od" if "od \<in> set xs" for od using that by (simp add: xs_def)
    show ?thesis unfolding ps_def qs_def set_map
    proof (intro subset_antisym image_subsetI)
      show "(?id od, sint (to_original_qty od) - sint (to_filled_qty od)) \<in>
          (\<lambda>sent. (?id sent, sint (to_original_qty sent) - received cs sent)) ` set ys" if x: "od \<in> set xs" for od
      proof -
        obtain sent where s: "sent \<in> set ys" "matches cs sent od" using 1 [OF x] by blast
        show ?thesis by (rule image_eqI [of _ _ sent]) (fact pair [OF s(2) act [OF x]], fact s(1))
      qed
      show "(?id sent, sint (to_original_qty sent) - received cs sent) \<in>
          (\<lambda>od. (?id od, sint (to_original_qty od) - sint (to_filled_qty od))) ` set xs" if y: "sent \<in> set ys" for sent
      proof -
        obtain od where od: "od \<in> set xs" "matches cs sent od" using 2 [OF y] by blast
        show ?thesis by (rule image_eqI [of _ _ od]) (fact pair [OF od(2) act [OF od(1)], symmetric], fact od(1))
      qed
    qed
  qed
  ultimately have "sum_list (map snd ps) = sum_list (map snd qs)" "length ps = length qs" by (rule same_pairs_sum)+
  then show "sum_list (map (\<lambda>od. sint (to_original_qty od) - sint (to_filled_qty od)) xs) =
      sum_list (map (\<lambda>sent. sint (to_original_qty sent) - received cs sent) ys)" "length xs = length ys"
    by (simp_all add: ps_def qs_def o_def)
qed

lemma tracker_get_in: "tracker_get cid self = Some od \<Longrightarrow> od \<in> set (orders_in (ot_orders self)) \<and> to_client_order_id od = cid"
  using find_slot_Some [of cid "ot_orders self" _ od] by (auto simp: tracker_get_def)

lemma slots_match_get:
  assumes "slots_match cs acc (ot_orders self)" "sent \<in> set acc"
  shows "case tracker_get (to_client_order_id sent) self of Some od \<Rightarrow> matches cs sent od | None \<Rightarrow> \<not> still_open cs sent"
proof (cases "tracker_get (to_client_order_id sent) self")
  case None
  then have "\<forall>od\<in>set (orders_in (ot_orders self)). to_client_order_id od \<noteq> to_client_order_id sent"
    by (simp add: tracker_get_def find_slot_None)
  with assms have "\<not> still_open cs sent" unfolding slots_match_def by blast
  with None show ?thesis by simp
next
  case (Some od)
  note od = tracker_get_in [OF Some]
  then obtain sent2 where s2: "sent2 \<in> set acc" "matches cs sent2 od" using assms(1) unfolding slots_match_def by blast
  then have "to_client_order_id sent2 = to_client_order_id sent" using od by (simp add: matches_def)
  then have "sent2 = sent" using s2(1) assms by (metis slots_match_def distinct_map inj_onD)
  with s2 Some show ?thesis by simp
qed

section \<open>Properties\<close>


text \<open>Placing an order never evicts an active one: \<open>on_intent_sent\<close> refuses exactly when all
  slots hold active orders and then changes nothing; otherwise the active orders afterwards are those
  from before and the new one, and the new order is found by its id unless an older order carries it.\<close>

theorem tracker_placement:
  assumes "is_active order"
  shows "case on_intent_sent order self of
      (Inl e, self') \<Rightarrow> self' = self \<and> list_all (\<lambda>s. \<exists>od. s = Some od \<and> is_active od) (ot_orders self)
    | (Inr u, self') \<Rightarrow> \<not> list_all (\<lambda>s. \<exists>od. s = Some od \<and> is_active od) (ot_orders self) \<and>
        mset (active_orders self') = add_mset order (mset (active_orders self)) \<and>
        (tracker_get (to_client_order_id order) self = None \<longrightarrow>
         tracker_get (to_client_order_id order) self' = Some order)"
proof -
  have act: "(\<exists>od. s = Some od \<and> is_active od) \<longleftrightarrow> \<not> can_reuse s" for s by (auto simp: can_reuse_iff)
  obtain res self' where s: "on_intent_sent order self = (res, self')" by fastforce
  show ?thesis
  proof (cases res)
    case (Inl e)
    with s show ?thesis by (auto simp: on_intent_sent_def act place_order_None split: option.splits)
  next
    case (Inr u)
    then have s': "on_intent_sent order self = (Inr (), self')" using s by simp
    obtain pre slot post where sl: "ot_orders self = pre @ slot # post" "can_reuse slot"
      "self' = self\<lparr> ot_orders := pre @ Some order # post, ot_active_count := ot_active_count self + 1 \<rparr>"
      by (rule on_intent_sent_Inr [OF s'])
    have "find_slot (to_client_order_id order) (pre @ Some order # post) = Some (length pre, order)"
      if "\<forall>od\<in>set (orders_in pre). to_client_order_id od \<noteq> to_client_order_id order"
      using that by (induction pre rule: list.induct; simp) (case_tac x1; simp)
    moreover have "tracker_get (to_client_order_id order) self = None \<Longrightarrow>
        \<forall>od\<in>set (orders_in pre). to_client_order_id od \<noteq> to_client_order_id order"
      using sl(1) by (simp add: tracker_get_def find_slot_None)
    ultimately show ?thesis
      using sl on_intent_sent_active [OF s' assms] by (auto simp: s' act tracker_get_def)
  qed
qed

text \<open>C35. Answers to orders that are already over corrupt the counter. \<open>on_fill\<close> ignores them, but on a consistent
  tracker a rejection or a cancel confirmation of a finished order takes one from the counter although no active
  order disappeared, so that it is one short whenever another order is active (with none active it saturates at zero,
  which is right); and an acknowledgement makes the finished order active again without counting it, so that the
  counter is one short in every case.\<close>

theorem tracker_late_answers_miscount:
  assumes "tracker_reaches oc cs self" "tracker_get cid self = Some od" "\<not> is_active od"
  shows "length (active_orders (on_reject cid self)) = length (active_orders self) \<and>
    (active_orders self \<noteq> [] \<longrightarrow> ot_active_count (on_reject cid self) + 1 = length (active_orders (on_reject cid self))) \<and>
    length (active_orders (on_cancel_ack cid self)) = length (active_orders self) \<and>
    (active_orders self \<noteq> [] \<longrightarrow> ot_active_count (on_cancel_ack cid self) + 1 = length (active_orders (on_cancel_ack cid self))) \<and>
    (active_orders self = [] \<longrightarrow> ot_active_count (on_reject cid self) = 0 \<and> ot_active_count (on_cancel_ack cid self) = 0) \<and>
    length (active_orders (on_ack cid ex t self)) = length (active_orders self) + 1 \<and>
    ot_active_count (on_ack cid ex t self) + 1 = length (active_orders (on_ack cid ex t self)) \<and>
    on_fill oc cid q self = Some self"
proof -
  have ok: "tracker_ok self" using assms(1) by (rule tracker_reaches_ok)
  obtain i where r: "find_slot cid (ot_orders self) = Some (i, od)"
    using assms(2) by (auto simp: tracker_get_def)
  have ook: "order_ok od" by (rule found_order_ok [OF r ok])
  note put = put_slot_ok(4) [OF r ok]
  have "order_ok (od\<lparr> to_state := Rejected \<rparr>)" "order_ok (od\<lparr> to_state := Cancelled \<rparr>)"
    "order_ok (od\<lparr> to_state := Live, to_exchange_order_id := ex, to_acked_at_ns := t \<rparr>)"
    using ook by (simp_all add: order_ok_def)
  from this [THEN put] show ?thesis
    using assms(3) ok r
    by (auto simp: on_reject_def on_cancel_ack_def on_ack_def on_fill_def is_active_def tracker_ok_def Suc_le_eq)
qed

section \<open>Witnesses\<close>

definition sample_order :: TrackedOrder where
  "sample_order = \<lparr> to_client_order_id = 7, to_exchange_order_id = 0, to_strategy_id = 1,
     to_instrument_id = 1, to_side = Bid, to_price = 50, to_original_qty = 10, to_filled_qty = 0,
     to_state = Pending, to_created_at_ns = 1, to_acked_at_ns = 0 \<rparr>"

definition sample_tracker :: "TrackedOrder \<Rightarrow> nat \<Rightarrow> OrderTracker" where
  "sample_tracker od n = \<lparr> ot_orders = Some od # replicate 63 None, ot_active_count = n \<rparr>"

lemma sample_placed: "snd (on_intent_sent sample_order tracker_new) = sample_tracker sample_order 1"
proof -
  have "ot_orders tracker_new = None # replicate 63 None"
    by (simp add: tracker_new_def MAX_TRACKED_ORDERS_def numeral_nat)
  then show ?thesis
    by (simp add: on_intent_sent_def can_reuse_def sample_tracker_def tracker_new_def)
qed

lemma sample_active: "is_active sample_order" "order_ok sample_order"
  by (simp_all add: is_active_def order_ok_def sample_order_def sint_numeral_i64)

lemma sample_reaches: "tracker_reaches True [IntentSent sample_order] (sample_tracker sample_order 1)"
  using tracker_reaches.more [OF tracker_reaches.start, of "IntentSent sample_order" True]
  by (simp add: sample_placed sample_active)

lemma sample_filled_reaches:
  "tracker_reaches True [IntentSent sample_order, FillOf 7 10]
     (sample_tracker (sample_order\<lparr> to_filled_qty := 10, to_state := Filled \<rparr>) 0)"
proof -
  have "on_fill True 7 10 (sample_tracker sample_order 1) =
      Some (sample_tracker (sample_order\<lparr> to_filled_qty := 10, to_state := Filled \<rparr>) 0)"
    by (simp add: on_fill_def sample_tracker_def sample_order_def is_active_def lots_add_def add_i64_def
        put_slot_def sint_numeral_i64 in_i64_def)
  with tracker_reaches.more [OF sample_reaches, of "FillOf 7 10"] show ?thesis
    by (simp add: sint_numeral_i64)
qed

text \<open>Two orders of 10 lots, the second filled by 4 and then by 16.\<close>

definition sample_orders :: "TrackedOrder \<Rightarrow> nat \<Rightarrow> OrderTracker" where
  "sample_orders od n = \<lparr> ot_orders = Some sample_order # Some od # replicate 62 None, ot_active_count = n \<rparr>"

definition second_order :: TrackedOrder where
  "second_order = sample_order\<lparr> to_client_order_id := 8 \<rparr>"

lemma sample_two_reaches:
  "tracker_reaches True [IntentSent sample_order, IntentSent second_order] (sample_orders second_order 2)"
proof -
  have "replicate 63 (None :: TrackedOrder option) = None # replicate 62 None" by (simp add: numeral_nat)
  then have "snd (on_intent_sent second_order (sample_tracker sample_order 1)) = sample_orders second_order 2"
    by (simp add: on_intent_sent_def sample_tracker_def sample_orders_def can_reuse_def sample_order_def numeral_2_eq_2)
  with tracker_reaches.more [OF sample_reaches, of "IntentSent second_order"] show ?thesis
    using sample_active by (simp add: second_order_def is_active_def order_ok_def)
qed

lemma sample_fill_step:
  "on_fill True 8 4 (sample_orders second_order 2) = Some (sample_orders (second_order\<lparr> to_filled_qty := 4 \<rparr>) 2)"
  "on_fill True 8 16 (sample_orders (second_order\<lparr> to_filled_qty := 4 \<rparr>) 2) =
     Some (sample_orders (second_order\<lparr> to_filled_qty := 10, to_state := Filled \<rparr>) 1)"
  by (simp_all add: on_fill_def sample_orders_def sample_order_def second_order_def is_active_def lots_add_def add_i64_def
      put_slot_def sint_numeral_i64 in_i64_def)

lemma sample_part_reaches:
  "tracker_reaches True [IntentSent sample_order, IntentSent second_order, FillOf 8 4]
     (sample_orders (second_order\<lparr> to_filled_qty := 4 \<rparr>) 2)"
  using tracker_reaches.more [OF sample_two_reaches, of "FillOf 8 4"] by (simp add: sample_fill_step sint_numeral_i64)

lemma sample_over_reaches:
  "tracker_reaches True [IntentSent sample_order, IntentSent second_order, FillOf 8 4, FillOf 8 16]
     (sample_orders (second_order\<lparr> to_filled_qty := 10, to_state := Filled \<rparr>) 1)"
  using tracker_reaches.more [OF sample_part_reaches, of "FillOf 8 16"] by (simp add: sample_fill_step sint_numeral_i64)

lemma sample_part_accepted:
  "accepted True [IntentSent sample_order, IntentSent second_order, FillOf 8 4] = [sample_order, second_order]"
proof -
  have "fst (on_intent_sent sample_order tracker_new) = Inr ()"
    by (simp add: on_intent_sent_def tracker_new_def MAX_TRACKED_ORDERS_def numeral_nat can_reuse_def)
  moreover have "fst (on_intent_sent second_order (sample_tracker sample_order 1)) = Inr ()"
    by (simp add: on_intent_sent_def sample_tracker_def can_reuse_def sample_order_def numeral_nat)
  ultimately show ?thesis
    using accepted_snoc [OF tracker_reaches.start, of True "IntentSent sample_order"]
      accepted_snoc [OF sample_reaches, of "IntentSent second_order"] accepted_snoc [OF sample_two_reaches, of "FillOf 8 4"]
    by (simp add: sample_placed sample_fill_step accepted_def)
qed


theorem tracker_placement_witness:
  "is_active sample_order \<and>
   mset (active_orders (sample_tracker sample_order 1)) = add_mset sample_order (mset (active_orders tracker_new)) \<and>
   tracker_get 7 (sample_tracker sample_order 1) = Some sample_order"
proof -
  have new: "ot_orders tracker_new = None # replicate 63 None"
    by (simp add: tracker_new_def MAX_TRACKED_ORDERS_def numeral_nat)
  have "on_intent_sent sample_order tracker_new = (Inr (), sample_tracker sample_order 1)"
    using sample_placed by (cases "on_intent_sent sample_order tracker_new")
      (auto simp: on_intent_sent_def new can_reuse_def)
  moreover have "tracker_get 7 tracker_new = None"
    by (simp add: tracker_get_def find_slot_None tracker_new_def)
  moreover have "to_client_order_id sample_order = 7" by (simp add: sample_order_def)
  ultimately show ?thesis
    using tracker_placement [OF sample_active(1), of tracker_new] sample_active(1) by simp
qed

theorem tracker_late_answers_miscount_witness:
  "\<exists>self. tracker_reaches True [IntentSent sample_order, IntentSent second_order, FillOf 8 4, FillOf 8 16] self \<and>
    length (active_orders self) = 1 \<and>
    length (active_orders (on_reject 8 self)) = 1 \<and> ot_active_count (on_reject 8 self) = 0 \<and>
    length (active_orders (on_cancel_ack 8 self)) = 1 \<and> ot_active_count (on_cancel_ack 8 self) = 0 \<and>
    length (active_orders (on_ack 8 9 9 self)) = 2 \<and> ot_active_count (on_ack 8 9 9 self) = 1"
proof -
  let ?od = "second_order\<lparr> to_filled_qty := 10, to_state := Filled \<rparr>"
  let ?self = "sample_orders ?od 1"
  have "tracker_get 8 ?self = Some ?od" "\<not> is_active ?od" and one: "length (active_orders ?self) = 1" "active_orders ?self \<noteq> []"
    by (simp_all add: tracker_get_def sample_orders_def sample_order_def second_order_def is_active_def active_orders_def)
  from tracker_late_answers_miscount [OF sample_over_reaches this(1,2), where ex = 9 and t = 9 and q = 0] one have
    "length (active_orders (on_reject 8 ?self)) = 1 \<and> ot_active_count (on_reject 8 ?self) = 0 \<and>
    length (active_orders (on_cancel_ack 8 ?self)) = 1 \<and> ot_active_count (on_cancel_ack 8 ?self) = 0 \<and>
    length (active_orders (on_ack 8 9 9 ?self)) = 2 \<and> ot_active_count (on_ack 8 9 9 ?self) = 1" by auto
  with sample_over_reaches one show ?thesis by blast
qed

end
