(* ===== verification/Exposure.thy ===== *)
theory Exposure
  imports Position Order_Tracker
begin

text \<open>
  The exposure view of \<open>crates/strategy/src/exposure.rs\<close>: positions and open orders combined for
  risk checks. The worst case it reports bounds every position that fills of the open orders can
  lead to.
\<close>

record ExposureView =
  ev_positions :: "Position list"
  ev_orders :: OrderTracker

definition exposure_new :: "Position list \<Rightarrow> OrderTracker \<Rightarrow> ExposureView" where
  "exposure_new positions orders = \<lparr> ev_positions = positions, ev_orders = orders \<rparr>"

definition worst_case_qty :: "bool \<Rightarrow> InstrumentId \<Rightarrow> Side \<Rightarrow> ExposureView \<Rightarrow> SignedLots panics" where
  "worst_case_qty oc iid side self =
     do {
       let current = (case find (\<lambda>p. pos_instrument_id p = iid) (ev_positions self) of
                        None \<Rightarrow> signed_lots_ZERO | Some p \<Rightarrow> pos_qty p);
       open_lots \<leftarrow> open_qty oc iid side (ev_orders self);
       delta \<leftarrow> signed_delta oc side open_lots;
       signed_lots_add oc current delta
     }"

fun notional_positions :: "bool \<Rightarrow> InstrumentId \<Rightarrow> fixed \<Rightarrow> Position list \<Rightarrow> fixed \<Rightarrow> fixed panics" where
  "notional_positions oc iid mid [] acc = Some acc"
| "notional_positions oc iid mid (p # ps) acc =
     (if pos_instrument_id p = iid
      then do {
        n \<leftarrow> position_notional oc mid p;
        notional_positions oc iid mid ps (fixed_saturating_add n acc)
      }
      else notional_positions oc iid mid ps acc)"

fun notional_loop :: "bool \<Rightarrow> Position list \<Rightarrow> (InstrumentId \<times> fixed) list \<Rightarrow> fixed \<Rightarrow> fixed panics" where
  "notional_loop oc ps [] acc = Some acc"
| "notional_loop oc ps ((iid, mid) # mids) acc =
     do { acc \<leftarrow> notional_positions oc iid mid ps acc; notional_loop oc ps mids acc }"

definition total_notional_at_risk :: "bool \<Rightarrow> (InstrumentId \<times> fixed) list \<Rightarrow> ExposureView \<Rightarrow> fixed panics" where
  "total_notional_at_risk oc mid_prices self = notional_loop oc (ev_positions self) mid_prices fixed_ZERO"

section \<open>Worst case\<close>

lemma add_i64_checked: "add_i64 True a b = Some r \<Longrightarrow> sint r = sint a + sint b"
  by (simp add: add_i64_def i64_arith_checked i64_checked_eq_Some)

lemma signed_delta_checked: "signed_delta True side q = Some d \<Longrightarrow> sint d = fill_delta (side, q, p)"
  by (cases side) (auto simp: signed_delta_def signed_lots_from_lots_def signed_lots_neg_def neg_i64_def
      fill_delta_def i64_arith_checked i64_checked_eq_Some)

lemma position_on_fill_qty:
  assumes "position_on_fill True side q p s = Some s'"
  shows "sint (pos_qty s') = sint (pos_qty s) + fill_delta (side, q, p)"
proof -
  obtain d nq where d: "signed_delta True side q = Some d" "signed_lots_add True (pos_qty s) d = Some nq"
    and s': "pos_qty s' = nq"
    using assms unfolding position_on_fill_def Let_def by (elim bind_eq_SomeE) (auto split: if_splits)
  with signed_delta_checked [OF d(1)] add_i64_checked show ?thesis
    by (simp add: signed_lots_add_def)
qed

lemma position_run_qty:
  "position_run True fs s = Some s' \<Longrightarrow> sint (pos_qty s') = sint (pos_qty s) + net_qty fs"
proof (induction fs arbitrary: s)
  case (Cons f fs)
  obtain side q p where f: "f = (side, q, p)" by (cases f)
  from Cons.prems obtain s1 where "position_on_fill True side q p s = Some s1" "position_run True fs s1 = Some s'"
    by (auto simp: f elim: bind_eq_SomeE)
  with Cons.IH [of s1] position_on_fill_qty [of side q p s s1] show ?case
    by (simp add: f net_qty_def)
qed (simp add: net_qty_def)

lemma net_qty_one_side:
  assumes "list_all (\<lambda>f. fst f = side \<and> 0 \<le> sint (fst (snd f))) fs"
  shows "net_qty fs = (case side of Bid \<Rightarrow> 1 | Ask \<Rightarrow> - 1) * sum_list (map (\<lambda>f. sint (fst (snd f))) fs) \<and>
    0 \<le> sum_list (map (\<lambda>f. sint (fst (snd f))) fs)"
  using assms
proof (induction fs)
  case (Cons f fs)
  obtain q p where f: "f = (side, q, p)" using Cons.prems by (cases f) auto
  with Cons show ?case by (cases side) (simp_all add: net_qty_def fill_delta_def)
qed (simp add: net_qty_def)

text \<open>C24. The worst case is one. When the open orders of an instrument and side are filled, in
  any number of fills at any prices whose sizes do not exceed what the tracker holds open, the position
  moves toward \<open>worst_case_qty\<close> and never past it. The view is read in a build with overflow checks;
  the tracker is any one that a history of a well-behaved venue leads to.\<close>

theorem exposure_worst_case_sound:
  assumes "tracker_reaches True cs tr" "find (\<lambda>p. pos_instrument_id p = iid) ps = Some p"
    and "worst_case_qty True iid side (exposure_new ps tr) = Some w"
    and "list_all (\<lambda>f. fst f = side \<and> 0 \<le> sint (fst (snd f))) fs"
    and "sum_list (map (\<lambda>f. sint (fst (snd f))) fs) \<le> open_sum iid side (orders_in (ot_orders tr))"
    and "position_run True fs p = Some p'"
  shows "case side of
      Bid \<Rightarrow> sint (pos_qty p) \<le> sint (pos_qty p') \<and> sint (pos_qty p') \<le> sint w
    | Ask \<Rightarrow> sint w \<le> sint (pos_qty p') \<and> sint (pos_qty p') \<le> sint (pos_qty p)"
proof -
  obtain r where r: "open_qty True iid side tr = Some r" "sint r = open_sum iid side (orders_in (ot_orders tr))"
    using open_qty_sum [OF tracker_reaches_ok [OF assms(1)], of True iid side] by blast
  obtain d where d: "signed_delta True side r = Some d" "signed_lots_add True (pos_qty p) d = Some w"
    using assms(2,3) by (auto simp: worst_case_qty_def exposure_new_def r(1) elim: bind_eq_SomeE)
  have "sint w = sint (pos_qty p) + fill_delta (side, r, 0)"
    using signed_delta_checked [OF d(1)] add_i64_checked d(2) by (simp add: signed_lots_add_def)
  then show ?thesis
    using position_run_qty [OF assms(6)] net_qty_one_side [OF assms(4)] assms(5) r(2)
    by (cases side) (auto simp: fill_delta_def)
qed

section \<open>Notional\<close>

lemma notional_value:
  assumes "\<bar>sint (pos_qty p)\<bar> < 2 ^ 63"
  shows "\<exists>n. position_notional oc mid p = Some n \<and>
    sint n = (if in_i64 (sint mid * \<bar>sint (pos_qty p)\<bar>) then sint mid * \<bar>sint (pos_qty p)\<bar> else 0)"
proof -
  obtain a where a: "abs_i64 oc (pos_qty p) = Some a" "sint a = \<bar>sint (pos_qty p)\<bar>"
    using i64_results [of "\<bar>sint (pos_qty p)\<bar>" oc] assms by (auto simp: abs_i64_def)
  show ?thesis
  proof (cases "in_i64 (sint mid * \<bar>sint (pos_qty p)\<bar>)")
    case True
    then have "i64_checked (sint mid * \<bar>sint (pos_qty p)\<bar>) = Some (word_of_int (sint mid * \<bar>sint (pos_qty p)\<bar>))"
      by (simp only: i64_checked_def if_True)
    with True show ?thesis
      by (simp only: position_notional_def a checked_mul_int_eq bind_panics_Some unwrap_or_Some sint_of_int_i64
          if_True simp_thms option.inject ex_simps)
  next
    case False
    then show ?thesis
      by (simp add: position_notional_def a checked_mul_int_eq i64_checked_def unwrap_or_def fixed_ZERO_def)
  qed
qed

text \<open>What one position adds for one quoted price.\<close>

definition notional_term :: "InstrumentId \<Rightarrow> fixed \<Rightarrow> Position \<Rightarrow> int" where
  "notional_term iid mid p = (if pos_instrument_id p = iid then sint mid * \<bar>sint (pos_qty p)\<bar> else 0)"

definition notional_sum :: "Position list \<Rightarrow> (InstrumentId \<times> fixed) list \<Rightarrow> int" where
  "notional_sum ps mids = sum_list (map (\<lambda>(iid, mid). sum_list (map (notional_term iid mid) ps)) mids)"

definition notional_fits :: "Position list \<Rightarrow> (InstrumentId \<times> fixed) list \<Rightarrow> bool" where
  "notional_fits ps mids \<longleftrightarrow> list_all (\<lambda>p. \<bar>sint (pos_qty p)\<bar> < 2 ^ 63) ps \<and>
     list_all (\<lambda>(iid, mid). 0 \<le> sint mid \<and> list_all (\<lambda>p. notional_term iid mid p < 2 ^ 63) ps) mids"

lemma notional_positions_sum:
  assumes "list_all (\<lambda>p. \<bar>sint (pos_qty p)\<bar> < 2 ^ 63) ps" "0 \<le> sint mid"
    and "list_all (\<lambda>p. notional_term iid mid p < 2 ^ 63) ps" "0 \<le> sint acc"
  shows "\<exists>r. notional_positions oc iid mid ps acc = Some r \<and>
    sint r = min (2 ^ 63 - 1) (sint acc + sum_list (map (notional_term iid mid) ps)) \<and>
    0 \<le> sum_list (map (notional_term iid mid) ps)"
  using assms
proof (induction ps arbitrary: acc)
  case Nil
  then show ?case using sint_i64_bounds [of acc] by simp
next
  case (Cons p ps)
  show ?case
  proof (cases "pos_instrument_id p = iid")
    case True
    have t: "0 \<le> notional_term iid mid p" "notional_term iid mid p < 2 ^ 63"
      using Cons.prems by (auto simp: notional_term_def)
    obtain n where n: "position_notional oc mid p = Some n" "sint n = notional_term iid mid p"
      using notional_value [of p oc mid] Cons.prems(1) t True by (auto simp: notional_term_def in_i64_def)
    have acc: "sint (fixed_saturating_add n acc) = min (2 ^ 63 - 1) (sint n + sint acc)"
      using t n(2) Cons.prems(4) by (simp add: fixed_saturating_add_sint)
    have "0 \<le> sint (fixed_saturating_add n acc)" using t n(2) Cons.prems(4) by (simp add: acc)
    with Cons.IH [of "fixed_saturating_add n acc"] Cons.prems True n acc t show ?thesis by auto
  qed (use Cons in \<open>simp add: notional_term_def\<close>)
qed

lemma notional_loop_sum:
  assumes "notional_fits ps mids" "0 \<le> sint acc"
  shows "\<exists>r. notional_loop oc ps mids acc = Some r \<and> sint r = min (2 ^ 63 - 1) (sint acc + notional_sum ps mids) \<and>
    0 \<le> notional_sum ps mids"
  using assms
proof (induction mids arbitrary: acc)
  case Nil
  then show ?case using sint_i64_bounds [of acc] by (simp add: notional_sum_def)
next
  case (Cons im mids)
  obtain iid mid where im: "im = (iid, mid)" by (cases im)
  obtain r where r: "notional_positions oc iid mid ps acc = Some r"
    "sint r = min (2 ^ 63 - 1) (sint acc + sum_list (map (notional_term iid mid) ps))"
    "0 \<le> sum_list (map (notional_term iid mid) ps)"
    using notional_positions_sum [of ps mid iid acc oc] Cons.prems by (auto simp: notional_fits_def im)
  have "0 \<le> sint r" using r Cons.prems(2) by simp
  with Cons.IH [of r] Cons.prems r show ?case by (auto simp: notional_fits_def notional_sum_def im)
qed

text \<open>\<open>total_notional_at_risk\<close> is the sum of the absolute positions at the quoted mid prices,
  clamped to the largest representable amount, when no price is negative and no single term
  overflows.\<close>

theorem exposure_notional_sum:
  assumes "notional_fits ps mids"
  shows "\<exists>r. total_notional_at_risk oc mids (exposure_new ps tr) = Some r \<and>
    sint r = min (2 ^ 63 - 1) (notional_sum ps mids)"
  using notional_loop_sum [OF assms, of fixed_ZERO oc] by (auto simp: total_notional_at_risk_def exposure_new_def)

text \<open>C36. A position too large to value is reported as no exposure at all: when the absolute position
  times the mid price leaves the range of \<open>i64\<close>, its notional, and with it the notional at risk of a
  book that holds only this position, is zero instead of the largest amount.\<close>

theorem exposure_overflow_vanishes:
  assumes "\<bar>sint (pos_qty p)\<bar> < 2 ^ 63" "2 ^ 63 \<le> sint mid * \<bar>sint (pos_qty p)\<bar>"
  shows "total_notional_at_risk oc [(pos_instrument_id p, mid)] (exposure_new [p] tr) = Some fixed_ZERO"
proof -
  obtain n where n: "position_notional oc mid p = Some n" "sint n = 0"
    using notional_value [OF assms(1), of oc mid] assms(2) by (auto simp: in_i64_def)
  then have "n = fixed_ZERO" by (simp add: fixed_ZERO_def)
  moreover have "fixed_saturating_add fixed_ZERO fixed_ZERO = fixed_ZERO"
    by (simp add: i64_eq_iff fixed_saturating_add_sint)
  ultimately show ?thesis by (simp add: total_notional_at_risk_def exposure_new_def n(1))
qed

section \<open>Witnesses\<close>

definition sample_position :: "SignedLots \<Rightarrow> Position" where
  "sample_position q = (position_new 1)\<lparr> pos_qty := q \<rparr>"

lemma sample_worst_case:
  "worst_case_qty True 1 Bid (exposure_new [sample_position 5] (sample_tracker sample_order 1)) = Some 15"
  by (simp add: worst_case_qty_def exposure_new_def sample_position_def position_new_def sample_tracker_def
      open_qty_def sample_order_def is_active_def remaining_qty_def lots_sub_def sub_i64_def lots_add_def
      add_i64_def lots_ZERO_def signed_delta_def signed_lots_from_lots_def signed_lots_add_def
      sint_numeral_i64 in_i64_def)

theorem exposure_worst_case_sound_witness:
  "\<exists>p'. position_run True [(Bid, 4, 500000)] (sample_position 5) = Some p' \<and>
    5 \<le> sint (pos_qty p') \<and> sint (pos_qty p') \<le> 15"
proof -
  have "fills_within 9 500000 5 [(Bid, 4, 500000)]"
    by (simp add: fill_delta_def fill_price_def sint_numeral_i64)
  then obtain p' where p': "position_run True [(Bid, 4, 500000)] (sample_position 5) = Some p'"
    using position_run_exact [of 9 500000 "sample_position 5" "[(Bid, 4, 500000)]" True]
    by (auto simp: sample_position_def position_new_def sint_numeral_i64)
  have "open_sum 1 Bid (orders_in (ot_orders (sample_tracker sample_order 1))) = 10"
    by (simp add: sample_tracker_def open_sum_def is_active_def sample_order_def sint_numeral_i64)
  then show ?thesis
    using exposure_worst_case_sound [OF sample_reaches _ sample_worst_case _ _ p'] p'
    by (simp add: sample_position_def position_new_def sint_numeral_i64)
qed

theorem exposure_notional_sum_witness:
  "\<exists>r. total_notional_at_risk True [(1, 500000)] (exposure_new [sample_position 5] tracker_new) = Some r \<and>
    sint r = 2500000"
proof -
  have "notional_fits [sample_position 5] [(1, 500000)]" "notional_sum [sample_position 5] [(1, 500000)] = 2500000"
    by (simp_all add: notional_fits_def notional_sum_def notional_term_def sample_position_def position_new_def
        sint_numeral_i64)
  with exposure_notional_sum [of "[sample_position 5]" "[(1, 500000)]" True tracker_new] show ?thesis by simp
qed

theorem exposure_overflow_vanishes_witness:
  "total_notional_at_risk True [(1, 500000)]
     (exposure_new [sample_position 100000000000000] tracker_new) = Some fixed_ZERO"
  using exposure_overflow_vanishes [of "sample_position 100000000000000" 500000 True tracker_new]
  by (simp add: sample_position_def position_new_def sint_numeral_i64)

end
