(* ===== verification/Queue_Estimator.thy ===== *)
theory Queue_Estimator
  imports Domain_Types Float64
begin

text \<open>
  The queue position estimator (\<open>crates/strategy/src/queue.rs\<close>): slots of resting orders with the quantity
  estimated ahead of each, trade rates per instrument, and the probability of a fill. Integer steps are at
  their width, floating-point steps are the operations of \<open>Float64\<close>, and the three functions of the
  \<open>libm\<close> crate are an argument, with the documented behaviour of \<open>pow\<close> as a hypothesis where it matters. Nothing
  keeps an estimate below the size of its level; the theorem says what holds all the same.
\<close>

section \<open>State\<close>

definition MAX_QUEUED_ORDERS :: nat where
  "MAX_QUEUED_ORDERS = 64"

definition MAX_RATE_INSTRUMENTS :: nat where
  "MAX_RATE_INSTRUMENTS = 16"

datatype QueueFullError = QueueFullError

record QueuedOrder =
  qo_order_id :: u64
  qo_instrument_id :: InstrumentId
  qo_side :: Side
  qo_price :: Ticks
  qo_qty :: Lots
  qo_ahead_qty :: Lots
  qo_posted_at_level_size :: Lots

record TakeRateEntry =
  te_instrument_id :: InstrumentId
  te_rate :: f64

record QueueEstimator =
  qe_orders :: "QueuedOrder option list"
  qe_order_count :: usize
  qe_take_rates_bid :: "TakeRateEntry option list"
  qe_take_rates_ask :: "TakeRateEntry option list"
  qe_prob_power_n :: f64

record Libm =
  libm_pow :: "f64 \<Rightarrow> f64 \<Rightarrow> f64"
  libm_exp :: "f64 \<Rightarrow> f64"
  libm_sqrt :: "f64 \<Rightarrow> f64"

definition queue_new :: "f64 \<Rightarrow> QueueEstimator" where
  "queue_new prob_power_n =
     \<lparr> qe_orders = replicate MAX_QUEUED_ORDERS None, qe_order_count = 0,
       qe_take_rates_bid = replicate MAX_RATE_INSTRUMENTS None,
       qe_take_rates_ask = replicate MAX_RATE_INSTRUMENTS None, qe_prob_power_n = prob_power_n \<rparr>"

definition queue_default :: QueueEstimator where
  "queue_default = queue_new (Fin 3)"

section \<open>Orders\<close>

text \<open>The loop for the first free slot.\<close>

fun fill_first :: "'a \<Rightarrow> 'a option list \<Rightarrow> 'a option list" where
  "fill_first x [] = []"
| "fill_first x (None # ss) = Some x # ss"
| "fill_first x (Some y # ss) = Some y # fill_first x ss"

definition register_order :: "bool \<Rightarrow> u64 \<Rightarrow> InstrumentId \<Rightarrow> Side \<Rightarrow> Ticks \<Rightarrow> Lots \<Rightarrow> Lots \<Rightarrow>
    QueueEstimator \<Rightarrow> ((QueueFullError + unit) \<times> QueueEstimator) panics" where
  "register_order oc order_id iid side price qty current_level_size self =
     (if None \<in> set (qe_orders self)
      then do {
        posted \<leftarrow> add_i64 oc current_level_size qty;
        let ord = \<lparr> qo_order_id = order_id, qo_instrument_id = iid, qo_side = side, qo_price = price,
                    qo_qty = qty, qo_ahead_qty = current_level_size, qo_posted_at_level_size = posted \<rparr>;
        Some (Inr (), self\<lparr> qe_orders := fill_first ord (qe_orders self),
                            qe_order_count := qe_order_count self + 1 \<rparr>)
      }
      else Some (Inl QueueFullError, self))"

fun queue_find :: "u64 \<Rightarrow> QueuedOrder option list \<Rightarrow> QueuedOrder option" where
  "queue_find i [] = None"
| "queue_find i (None # ss) = queue_find i ss"
| "queue_find i (Some ord # ss) = (if qo_order_id ord = i then Some ord else queue_find i ss)"

text \<open>\<open>find_order_mut\<close>: a change of the first order with the identifier.\<close>

fun change_order :: "u64 \<Rightarrow> (QueuedOrder \<Rightarrow> QueuedOrder) \<Rightarrow> QueuedOrder option list \<Rightarrow> QueuedOrder option list" where
  "change_order i f [] = []"
| "change_order i f (None # ss) = None # change_order i f ss"
| "change_order i f (Some ord # ss) =
     (if qo_order_id ord = i then Some (f ord) # ss else Some ord # change_order i f ss)"

fun clear_slot :: "u64 \<Rightarrow> QueuedOrder option list \<Rightarrow> QueuedOrder option list option" where
  "clear_slot i [] = None"
| "clear_slot i (None # ss) = map_option (Cons None) (clear_slot i ss)"
| "clear_slot i (Some ord # ss) =
     (if qo_order_id ord = i then Some (None # ss) else map_option (Cons (Some ord)) (clear_slot i ss))"

definition remove_order :: "u64 \<Rightarrow> QueueEstimator \<Rightarrow> QueueEstimator" where
  "remove_order order_id self = (case clear_slot order_id (qe_orders self) of
       None \<Rightarrow> self
     | Some ss \<Rightarrow> self\<lparr> qe_orders := ss, qe_order_count := qe_order_count self - 1 \<rparr>)"

definition order_filled :: "bool \<Rightarrow> u64 \<Rightarrow> Lots \<Rightarrow> QueueEstimator \<Rightarrow> QueueEstimator panics" where
  "order_filled oc order_id fill_qty self = (case queue_find order_id (qe_orders self) of
       None \<Rightarrow> Some self
     | Some ord \<Rightarrow> do {
         remaining \<leftarrow> sub_i64 oc (qo_qty ord) fill_qty;
         Some (if sint remaining \<le> 0 then remove_order order_id self
               else self\<lparr> qe_orders := change_order order_id
                      (\<lambda>ord. ord\<lparr> qo_qty := remaining, qo_ahead_qty := lots_ZERO \<rparr>) (qe_orders self) \<rparr>)
       })"

definition order_cancelled :: "u64 \<Rightarrow> QueueEstimator \<Rightarrow> QueueEstimator" where
  "order_cancelled order_id self = remove_order order_id self"

definition queue_ahead :: "u64 \<Rightarrow> QueueEstimator \<Rightarrow> Lots option" where
  "queue_ahead order_id self = map_option qo_ahead_qty (queue_find order_id (qe_orders self))"

section \<open>Trade rates\<close>

fun update_rate :: "InstrumentId \<Rightarrow> (f64 \<Rightarrow> f64) \<Rightarrow> TakeRateEntry option list \<Rightarrow> TakeRateEntry option list option" where
  "update_rate iid f [] = None"
| "update_rate iid f (None # rs) = map_option (Cons None) (update_rate iid f rs)"
| "update_rate iid f (Some r # rs) =
     (if te_instrument_id r = iid then Some (Some (r\<lparr> te_rate := f (te_rate r) \<rparr>) # rs)
      else map_option (Cons (Some r)) (update_rate iid f rs))"

definition update_take_rate :: "TakeRateEntry option list \<Rightarrow> InstrumentId \<Rightarrow> f64 \<Rightarrow> f64 \<Rightarrow> TakeRateEntry option list" where
  "update_take_rate rates iid qty_f alpha =
     (case update_rate iid
        (\<lambda>rate. f64_add (f64_mul rate (f64_sub (Fin 1) alpha)) (f64_mul qty_f alpha)) rates of
       Some rates \<Rightarrow> rates
     | None \<Rightarrow> (let entry = \<lparr> te_instrument_id = iid, te_rate = qty_f \<rparr>
                in if None \<in> set rates then fill_first entry rates else rates[0 := Some entry]))"

fun find_rate :: "InstrumentId \<Rightarrow> TakeRateEntry option list \<Rightarrow> f64" where
  "find_rate iid [] = Fin 1"
| "find_rate iid (None # rs) = find_rate iid rs"
| "find_rate iid (Some r # rs) = (if te_instrument_id r = iid then te_rate r else find_rate iid rs)"

definition instrument_take_rate :: "InstrumentId \<Rightarrow> Side \<Rightarrow> QueueEstimator \<Rightarrow> f64" where
  "instrument_take_rate iid side self =
     find_rate iid (case side of Bid \<Rightarrow> qe_take_rates_bid self | Ask \<Rightarrow> qe_take_rates_ask self)"

definition take_rate :: "InstrumentId \<Rightarrow> Side \<Rightarrow> QueueEstimator \<Rightarrow> f64" where
  "take_rate iid side self = instrument_take_rate iid side self"

section \<open>Market events\<close>

fun map_orders :: "(QueuedOrder \<Rightarrow> QueuedOrder panics) \<Rightarrow> QueuedOrder option list \<Rightarrow> QueuedOrder option list panics" where
  "map_orders f [] = Some []"
| "map_orders f (None # ss) = map_option (Cons None) (map_orders f ss)"
| "map_orders f (Some ord # ss) = do { ord \<leftarrow> f ord; ss \<leftarrow> map_orders f ss; Some (Some ord # ss) }"

definition at_level :: "InstrumentId \<Rightarrow> Side \<Rightarrow> Ticks \<Rightarrow> QueuedOrder \<Rightarrow> bool" where
  "at_level iid side price ord \<longleftrightarrow> qo_instrument_id ord = iid \<and> qo_side ord = side \<and> qo_price ord = price"

definition max_0 :: "i64 \<Rightarrow> i64" where
  "max_0 x = (if sint x < 0 then 0 else x)"

definition trade_ahead :: "bool \<Rightarrow> Lots \<Rightarrow> QueuedOrder \<Rightarrow> QueuedOrder panics" where
  "trade_ahead oc qty ord =
     (let reduction = (if sint qty \<le> sint (qo_ahead_qty ord) then qty else qo_ahead_qty ord)
      in do { a \<leftarrow> sub_i64 oc (qo_ahead_qty ord) reduction; Some (ord\<lparr> qo_ahead_qty := max_0 a \<rparr>) })"

definition on_trade :: "bool \<Rightarrow> InstrumentId \<Rightarrow> Side \<Rightarrow> Ticks \<Rightarrow> Lots \<Rightarrow> QueueEstimator \<Rightarrow> QueueEstimator panics" where
  "on_trade oc iid side price qty self =
     (let alpha = f64_round False (1 / 10);
          qty_f = f64_of_int (sint qty);
          self = (case side of
              Bid \<Rightarrow> self\<lparr> qe_take_rates_bid := update_take_rate (qe_take_rates_bid self) iid qty_f alpha \<rparr>
            | Ask \<Rightarrow> self\<lparr> qe_take_rates_ask := update_take_rate (qe_take_rates_ask self) iid qty_f alpha \<rparr>)
      in do {
        orders \<leftarrow> map_orders (\<lambda>ord. if at_level iid side price ord then trade_ahead oc qty ord else Some ord)
          (qe_orders self);
        Some (self\<lparr> qe_orders := orders \<rparr>)
      })"

definition level_change_ahead :: "Libm \<Rightarrow> bool \<Rightarrow> f64 \<Rightarrow> Lots \<Rightarrow> i64 \<Rightarrow> QueuedOrder \<Rightarrow> QueuedOrder panics" where
  "level_change_ahead lm oc n old_qty decrease ord =
     (let front = f64_of_int (sint (qo_ahead_qty ord)); size_f = f64_of_int (sint old_qty)
      in if f64_le size_f (Fin 0) then Some ord
         else let back = f64_sub size_f front;
                  prob_from_back = (if f64_lt (Fin 0) (f64_add back front)
                    then f64_div (libm_pow lm back n) (f64_add (libm_pow lm back n) (libm_pow lm front n))
                    else f64_round False (1 / 2));
                  decrease_f = f64_of_int (sint decrease);
                  cancel_from_front = f64_mul decrease_f (f64_sub (Fin 1) prob_from_back);
                  cancel_lots = f64_to_i64 cancel_from_front
              in do {
                a \<leftarrow> sub_i64 oc (qo_ahead_qty ord) cancel_lots;
                Some (ord\<lparr> qo_ahead_qty := max_0 a \<rparr>)
              })"

definition on_level_change :: "Libm \<Rightarrow> bool \<Rightarrow> InstrumentId \<Rightarrow> Side \<Rightarrow> Ticks \<Rightarrow> Lots \<Rightarrow> Lots \<Rightarrow> QueueEstimator \<Rightarrow>
    QueueEstimator panics" where
  "on_level_change lm oc iid side price old_qty new_qty self =
     (if sint new_qty \<ge> sint old_qty then Some self
      else do {
        decrease \<leftarrow> sub_i64 oc old_qty new_qty;
        orders \<leftarrow> map_orders (\<lambda>ord. if at_level iid side price ord
             then level_change_ahead lm oc (qe_prob_power_n self) old_qty decrease ord else Some ord)
          (qe_orders self);
        Some (self\<lparr> qe_orders := orders \<rparr>)
      })"

section \<open>Fill probability\<close>

text \<open>A decimal literal is the value nearest to it.\<close>

definition lit :: "rat \<Rightarrow> f64" where
  "lit r = f64_round False r"

definition erfc :: "Libm \<Rightarrow> f64 \<Rightarrow> f64" where
  "erfc lm x =
     (let abs_x = (if f64_lt x (Fin 0) then f64_neg x else x);
          t = f64_div (Fin 1) (f64_add (Fin 1) (f64_mul (lit (3275911 / 10 ^ 7)) abs_x));
          poly = f64_mul t (f64_add (lit (254829592 / 10 ^ 9)) (f64_mul t
            (f64_add (f64_neg (lit (284496736 / 10 ^ 9))) (f64_mul t
              (f64_add (lit (1421413741 / 10 ^ 9)) (f64_mul t
                (f64_add (f64_neg (lit (1453152027 / 10 ^ 9))) (f64_mul t (lit (1061405429 / 10 ^ 9))))))))));
          result = f64_mul poly (libm_exp lm (f64_mul (f64_neg abs_x) abs_x))
      in if f64_le (Fin 0) x then result else f64_sub (Fin 2) result)"

text \<open>The sum of the Poisson terms over \<open>i..i + m\<close>.\<close>

fun poisson_loop :: "f64 \<Rightarrow> nat \<Rightarrow> nat \<Rightarrow> f64 \<Rightarrow> f64 \<Rightarrow> f64" where
  "poisson_loop lam i 0 cdf t = cdf"
| "poisson_loop lam i (Suc m) cdf t =
     poisson_loop lam (Suc i) m (f64_add cdf t) (f64_mul t (f64_div lam (f64_of_int (int (i + 1)))))"

definition fill_probability :: "Libm \<Rightarrow> bool \<Rightarrow> u64 \<Rightarrow> f64 \<Rightarrow> QueueEstimator \<Rightarrow> f64 panics" where
  "fill_probability lm oc order_id time_remaining_secs self = (case queue_find order_id (qe_orders self) of
       None \<Rightarrow> Some (Fin 0)
     | Some ord \<Rightarrow>
         (let rate = instrument_take_rate (qo_instrument_id ord) (qo_side ord) self;
              lam = f64_mul rate time_remaining_secs
          in do {
            need \<leftarrow> add_i64 oc (qo_ahead_qty ord) (qo_qty ord);
            let k = f64_of_int (sint need);
            Some (if f64_le lam (Fin 0) then Fin 0
                  else if f64_lt (Fin 20) lam
                  then (let z = f64_div (f64_sub k lam) (libm_sqrt lm lam)
                        in f64_mul (lit (1 / 2)) (erfc lm (f64_div z (libm_sqrt lm (Fin 2)))))
                  else f64_sub (Fin 1) (poisson_loop lam 0 (unat (f64_to_u64 k)) (Fin 0) (libm_exp lm (f64_neg lam))))
          }))"

section \<open>The share of a cancellation\<close>

text \<open>What \<open>libm\<close> documents of \<open>pow\<close>. For a finite base that is not negative the result is not negative, positive
  infinity or a NaN. For a negative one it is a NaN when the exponent is not an integer, and otherwise plus or minus
  the power of the absolute value. Its error is below 0.7 units in the last place, so from exponent 1 on it does
  not reorder the powers of two integers up to \<open>2 ^ 53\<close>.\<close>

definition nonneg_result :: "f64 \<Rightarrow> bool" where
  "nonneg_result z \<longleftrightarrow> z = NaN \<or> z = Inf False \<or> (f64_finite z \<and> 0 \<le> f64_val z \<and> f64_ok z)"

definition pow_documented :: "(f64 \<Rightarrow> f64 \<Rightarrow> f64) \<Rightarrow> bool" where
  "pow_documented pow \<longleftrightarrow>
     (\<forall>x y. f64_finite x \<and> 0 \<le> f64_val x \<longrightarrow> nonneg_result (pow x y)) \<and>
     (\<forall>x y. f64_finite x \<and> f64_val x < 0 \<longrightarrow>
        pow x y = NaN \<or> pow x y = pow (f64_neg x) y \<or> pow x y = f64_neg (pow (f64_neg x) y)) \<and>
     (\<forall>i j y. 0 \<le> i \<and> i \<le> j \<and> j \<le> 2 ^ 53 \<and> f64_le (Fin 1) y \<longrightarrow>
        f64_le (pow (Fin (of_int i)) y) (pow (Fin (of_int j)) y))"

definition nan_or_between :: "rat \<Rightarrow> rat \<Rightarrow> f64 \<Rightarrow> bool" where
  "nan_or_between a b x \<longleftrightarrow> x = NaN \<or> f64_between a b x"

lemma share_between:
  assumes "nonneg_result B" "nonneg_result F"
  shows "nan_or_between 0 1 (f64_div B (f64_add B F))"
proof (cases "f64_finite B \<and> f64_finite F")
  case False
  then consider "B = NaN" | "F = NaN" | "B = Inf False" "F \<noteq> NaN" | "f64_finite B" "F = Inf False"
    using assms by (auto simp: nonneg_result_def)
  then show ?thesis
  proof cases
    case 1
    then show ?thesis by (simp add: nan_or_between_def f64_div_def Let_def)
  next
    case 2
    then have "f64_add B F = NaN" by (cases B) (simp_all add: f64_add_def)
    then show ?thesis by (cases B) (simp_all add: nan_or_between_def f64_div_def Let_def)
  next
    case 3
    then have "f64_add B F = Inf False" using assms(2) by (cases F) (simp_all add: f64_add_def nonneg_result_def)
    with 3 show ?thesis by (simp add: nan_or_between_def f64_div_def Let_def)
  next
    case 4
    then have "f64_add B F = Inf False" by (cases B) (simp_all add: f64_add_def)
    with 4 show ?thesis by (cases B) (simp_all add: nan_or_between_def f64_div_def f64_between_def Let_def)
  qed
next
  case True
  then have B: "f64_finite B" "0 \<le> f64_val B" "f64_ok B" and F: "f64_finite F" "0 \<le> f64_val F"
    using assms by (auto simp: nonneg_result_def)
  let ?S = "f64_add B F"
  consider "?S = Inf False" | "f64_finite ?S" "f64_val B \<le> f64_val ?S"
  proof -
    have rnd: "f64_val B \<le> f64_rnd (f64_val B + f64_val F)"
      using f64_rnd_mono [of "f64_val B" "f64_val B + f64_val F"] B F by (simp add: f64_ok_def f64_rnd_representable)
    show thesis
    proof (cases "B = NegZero \<and> F = NegZero")
      case True
      then show ?thesis using that(2) by (simp add: f64_add_def)
    next
      case False
      then have "?S = f64_round False (f64_val B + f64_val F)" using f64_add_finite [OF B(1) F(1)] by auto
      then show ?thesis using that rnd B(2) by (auto simp: f64_round_def Let_def split: if_splits)
    qed
  qed
  then show ?thesis
  proof cases
    case 1
    with B show ?thesis by (auto simp: nan_or_between_def f64_div_def f64_between_def f64_finite_def Let_def)
  next
    case 2
    show ?thesis
    proof (cases "f64_val ?S = 0")
      case True
      with 2 B show ?thesis by (auto simp: nan_or_between_def f64_div_def f64_finite_def Let_def)
    next
      case False
      then have "f64_div B ?S = f64_round (f64_neg_sign B \<noteq> f64_neg_sign ?S) (f64_val B / f64_val ?S)"
        using 2 B by (intro f64_div_finite)
      moreover have "0 \<le> f64_val B / f64_val ?S" "f64_val B / f64_val ?S \<le> 1"
        using 2 B False by (auto simp: divide_le_eq)
      ultimately show ?thesis by (simp add: nan_or_between_def f64_round_between)
    qed
  qed
qed

lemma front_cancel_between:
  assumes "nan_or_between 0 1 p" "0 \<le> D" "D \<le> 2 ^ 53"
  shows "0 \<le> sint (f64_to_i64 (f64_mul (Fin (of_int D)) (f64_sub (Fin 1) p))) \<and>
    sint (f64_to_i64 (f64_mul (Fin (of_int D)) (f64_sub (Fin 1) p))) \<le> D"
proof (cases "p = NaN")
  case True
  then show ?thesis using assms(2) by (simp add: f64_sub_def f64_neg_def f64_add_def f64_mul_def Let_def)
next
  case False
  then have p: "f64_finite p" "0 \<le> f64_val p" "f64_val p \<le> 1" using assms(1) by (auto simp: nan_or_between_def f64_between_def)
  then have "f64_sub (Fin 1) p = f64_round False (1 - f64_val p)" by (simp add: f64_sub_def f64_add_finite)
  then have x: "f64_between 0 1 (f64_sub (Fin 1) p)" using p by (simp add: f64_round_between)
  let ?x = "f64_sub (Fin 1) p"
  have D: "representable (of_int D)" "\<bar>rat_of_int D\<bar> < 2 ^ 1024" "0 \<le> rat_of_int D"
  proof -
    have "rat_of_int D \<le> of_int (2 ^ 53)" using assms(3) by (simp only: of_int_le_iff)
    then have "rat_of_int D < 2 ^ 1024" by (intro less_2_1024) simp
    then show "representable (of_int D)" "\<bar>rat_of_int D\<bar> < 2 ^ 1024" "0 \<le> rat_of_int D"
      using assms(2,3) by (auto intro: representable_int)
  qed
  have "f64_mul (Fin (of_int D)) ?x = f64_round (f64_neg_sign (Fin (of_int D)) \<noteq> f64_neg_sign ?x) (of_int D * f64_val ?x)"
    using x by (simp add: f64_mul_finite f64_between_def)
  moreover have "0 \<le> of_int D * f64_val ?x" "of_int D * f64_val ?x \<le> of_int D"
    using x D(3) by (simp_all add: f64_between_def mult_left_le)
  ultimately have "f64_between (of_int 0) (of_int D) (f64_mul (Fin (of_int D)) ?x)"
    using D by (simp add: f64_round_between)
  from f64_to_i64_between [OF this] assms(3) show ?thesis by simp
qed

text \<open>A base behind the front of the queue that is negative, because the estimate exceeds the level: the
  share is not positive, and the cancellations put at the front are not negative, but may exceed the decrease.\<close>

definition nonneg_or_nan :: "f64 \<Rightarrow> bool" where
  "nonneg_or_nan x \<longleftrightarrow> x = NaN \<or> x = Inf False \<or> (f64_finite x \<and> 0 \<le> f64_val x)"

definition at_most_0_or_nan :: "f64 \<Rightarrow> bool" where
  "at_most_0_or_nan x \<longleftrightarrow> x = NaN \<or> x = Inf True \<or> (f64_finite x \<and> f64_val x \<le> 0)"

lemma f64_round_sign: "0 \<le> r \<Longrightarrow> nonneg_or_nan (f64_round s r)" "r \<le> 0 \<Longrightarrow> at_most_0_or_nan (f64_round s r)"
  using f64_rnd_nonneg [of r] f64_rnd_nonneg [of "- r"]
  by (auto simp: nonneg_or_nan_def at_most_0_or_nan_def f64_round_def f64_rnd_neg Let_def)

lemma f64_to_i64_nonneg:
  assumes "nonneg_or_nan x"
  shows "0 \<le> sint (f64_to_i64 x)"
proof -
  let ?c = "f64_clamp (- (2 ^ 63)) (2 ^ 63 - 1) x"
  have "0 \<le> ?c \<and> ?c \<le> 2 ^ 63 - 1"
    using assms by (cases x) (auto simp: nonneg_or_nan_def f64_clamp_def f64_trunc_def)
  then show ?thesis unfolding f64_to_i64_def by (subst sint_of_int_i64) (auto simp: in_i64_def)
qed

lemma negative_share:
  assumes "nonneg_result P" "nonneg_result F" "f64_le P F"
  shows "at_most_0_or_nan (f64_div (f64_neg P) (f64_add (f64_neg P) F))"
proof (cases "f64_finite P \<and> f64_finite F")
  case False
  then consider "P = Inf False" "F = Inf False" | "f64_finite P" "F = Inf False"
    using assms by (cases P; cases F) (auto simp: nonneg_result_def f64_le_def)
  then show ?thesis
  proof cases
    case 2
    then have "f64_add (f64_neg P) F = Inf False" by (cases P) (simp_all add: f64_add_def f64_neg_def)
    with 2 show ?thesis by (cases P) (simp_all add: at_most_0_or_nan_def f64_div_def f64_neg_def Let_def)
  qed (simp add: at_most_0_or_nan_def f64_add_def f64_neg_def f64_div_def)
next
  case True
  let ?B = "f64_neg P" and ?S = "f64_add (f64_neg P) F"
  have B: "f64_finite ?B" "f64_val ?B \<le> 0" and le: "f64_val P \<le> f64_val F"
    using True assms by (auto simp: nonneg_result_def)
  show ?thesis
  proof (cases "f64_val ?B = 0")
    case True
    then show ?thesis using B(1)
      by (cases ?B; cases ?S) (auto simp: at_most_0_or_nan_def f64_div_def f64_round_def Let_def)
  next
    case False
    then have neg: "f64_neg_sign ?B" "?B \<noteq> NegZero" using B by (cases ?B; simp add: f64_neg_sign_def)+
    have S: "?S = f64_round False (f64_val ?B + f64_val F)" using f64_add_finite [OF B(1), of F] True neg(2) by auto
    have "0 \<le> f64_val ?B + f64_val F" using le by simp
    then have q: "0 \<le> f64_rnd (f64_val ?B + f64_val F)" by (rule f64_rnd_nonneg)
    define q where "q = f64_rnd (f64_val ?B + f64_val F)"
    have "?S = (if q = 0 then Fin 0 else if 2 ^ 1024 \<le> q then Inf False else Fin q)" "0 \<le> q"
      using q unfolding S q_def by (simp_all add: f64_round_def Let_def)
    then consider "?S = Fin 0" | "?S = Inf False" | q where "?S = Fin q" "0 < q"
      by (metis order_less_le)
    then show ?thesis
    proof cases
      case 3
      then have "f64_div ?B ?S = f64_round (f64_neg_sign ?B \<noteq> f64_neg_sign ?S) (f64_val ?B / q)"
        using f64_div_finite [OF B(1), of ?S] by simp
      moreover have "f64_val ?B / q \<le> 0" using B(2) 3(2) by (simp add: divide_le_0_iff)
      ultimately show ?thesis by (simp add: f64_round_sign(2))
    qed (use B(1) neg False in \<open>cases ?B; auto simp: at_most_0_or_nan_def f64_div_def f64_neg_sign_def Let_def\<close>)+
  qed
qed

lemma front_cancel_nonneg:
  assumes "at_most_0_or_nan p" "0 < D"
  shows "0 \<le> sint (f64_to_i64 (f64_mul (Fin (of_int D)) (f64_sub (Fin 1) p)))"
proof -
  have "nonneg_or_nan (f64_sub (Fin 1) p)"
  proof (cases "f64_finite p")
    case True
    then have "f64_sub (Fin 1) p = f64_round False (1 - f64_val p)" by (simp add: f64_sub_def f64_add_finite)
    then show ?thesis using assms(1) True by (auto simp: at_most_0_or_nan_def intro!: f64_round_sign)
  qed (use assms(1) in \<open>auto simp: at_most_0_or_nan_def nonneg_or_nan_def f64_sub_def f64_add_def f64_neg_def\<close>)
  then consider "f64_sub (Fin 1) p = NaN" | "f64_sub (Fin 1) p = Inf False" |
      "f64_finite (f64_sub (Fin 1) p)" "0 \<le> f64_val (f64_sub (Fin 1) p)" unfolding nonneg_or_nan_def by blast
  then have "nonneg_or_nan (f64_mul (Fin (of_int D)) (f64_sub (Fin 1) p))"
  proof cases
    case 3
    then have "0 \<le> of_int D * f64_val (f64_sub (Fin 1) p)" using assms(2) by simp
    then show ?thesis using 3 by (simp add: f64_mul_finite f64_round_sign(1))
  qed (use assms(2) in \<open>simp_all add: nonneg_or_nan_def f64_mul_def f64_neg_sign_def\<close>)
  then show ?thesis by (rule f64_to_i64_nonneg)
qed

lemma share_low:
  assumes "pow_documented pow" "0 < T" "T < A" "A \<le> 2 ^ 53" "f64_le (Fin 1) n"
  defines "B \<equiv> pow (Fin (of_int (T - A))) n" and "F \<equiv> pow (Fin (of_int A)) n"
  shows "nan_or_between 0 1 (f64_div B (f64_add B F)) \<or> at_most_0_or_nan (f64_div B (f64_add B F))"
proof -
  define P where "P = pow (Fin (of_int (A - T))) n"
  have PF: "nonneg_result P" "nonneg_result F"
    using assms(1-4) unfolding pow_documented_def P_def F_def by (simp_all del: of_int_diff)
  have neg: "f64_neg (Fin (of_int (T - A))) = Fin (of_int (A - T))" using assms(3) by (simp add: f64_neg_def)
  have "f64_finite (Fin (of_int (T - A))) \<and> f64_val (Fin (of_int (T - A))) < 0" using assms(3) by simp
  then consider "B = NaN" | "B = P" | "B = f64_neg P"
    using assms(1) unfolding pow_documented_def B_def P_def neg [symmetric] by blast
  then show ?thesis
  proof cases
    case 1
    then show ?thesis by (simp add: nan_or_between_def f64_div_def Let_def)
  next
    case 2
    then show ?thesis using share_between [OF PF] by simp
  next
    case 3
    have "f64_le P F" using assms(1-5) unfolding pow_documented_def P_def F_def by (simp del: of_int_diff)
    then show ?thesis using negative_share [OF PF] 3 by simp
  qed
qed

lemma sint_max_0: "in_i64 x \<Longrightarrow> sint (max_0 (word_of_int x)) = max 0 x"
  by (simp add: max_0_def)

lemma level_change_ahead_ok:
  assumes "pow_documented (libm_pow lm)" "f64_le (Fin 1) n" "0 \<le> sint (qo_ahead_qty ord)" "sint (qo_ahead_qty ord) \<le> 2 ^ 53"
    and "0 < sint old_qty" "sint old_qty \<le> 2 ^ 53" "0 < sint dec" "sint dec \<le> 2 ^ 53"
  shows "\<exists>a. level_change_ahead lm oc n old_qty dec ord = Some (ord\<lparr> qo_ahead_qty := a \<rparr>) \<and>
    0 \<le> sint a \<and> sint a \<le> sint (qo_ahead_qty ord) \<and>
    (sint (qo_ahead_qty ord) \<le> sint old_qty \<longrightarrow> sint (qo_ahead_qty ord) - sint dec \<le> sint a)"
proof -
  define A T D where defs: "A = sint (qo_ahead_qty ord)" "T = sint old_qty" "D = sint dec"
  note assms = assms [folded defs]
  have ex: "f64_of_int A = Fin (of_int A)" "f64_of_int T = Fin (of_int T)" "f64_of_int D = Fin (of_int D)"
    using assms by (simp_all add: f64_of_int_exact)
  have behind: "f64_sub (Fin (of_int T)) (Fin (of_int A)) = Fin (of_int (T - A))"
  proof -
    have "f64_sub (Fin (of_int T)) (Fin (of_int A)) = f64_round False (of_int T - of_int A)"
      by (simp add: f64_sub_def f64_add_finite)
    also have "of_int T - of_int A = rat_of_int (T - A)" by simp
    finally show ?thesis using f64_of_int_exact [of "T - A"] assms(3-6) by (simp add: f64_of_int_def)
  qed
  have sum: "f64_lt (Fin 0) (f64_add (Fin (of_int (T - A))) (Fin (of_int A)))"
  proof -
    have "f64_add (Fin (of_int (T - A))) (Fin (of_int A)) = f64_round False (of_int T)"
      by (simp add: f64_add_finite)
    then show ?thesis using ex(2) assms(5) by (simp add: f64_of_int_def)
  qed
  define p where "p = f64_div (libm_pow lm (Fin (of_int (T - A))) n)
    (f64_add (libm_pow lm (Fin (of_int (T - A))) n) (libm_pow lm (Fin (of_int A)) n))"
  define c where "c = f64_to_i64 (f64_mul (Fin (of_int D)) (f64_sub (Fin 1) p))"
  have inside: "nan_or_between 0 1 p" if "A \<le> T"
  proof -
    have "f64_finite (Fin (of_int (T - A))) \<and> 0 \<le> f64_val (Fin (of_int (T - A)))"
      "f64_finite (Fin (of_int A)) \<and> 0 \<le> f64_val (Fin (of_int A))" using assms(3) that by simp_all
    then show ?thesis using assms(1) unfolding p_def pow_documented_def by (blast intro: share_between)
  qed
  have "nan_or_between 0 1 p \<or> at_most_0_or_nan p"
    using inside share_low [OF assms(1,5) _ assms(4,2)] unfolding p_def by linarith
  then have c: "0 \<le> sint c"
    using front_cancel_between [of p D] front_cancel_nonneg [of p D] assms(7,8) by (auto simp: c_def)
  have c_le: "sint c \<le> D" if "A \<le> T" using front_cancel_between [OF inside [OF that]] assms(7,8) by (simp add: c_def)
  have fits: "in_i64 (A - sint c)" using assms(3,4) c sint_i64_bounds [of c] by (simp add: in_i64_def)
  have "level_change_ahead lm oc n old_qty dec ord = Some (ord\<lparr> qo_ahead_qty := max_0 (word_of_int (A - sint c)) \<rparr>)"
    using assms(5) sum fits
    by (simp add: level_change_ahead_def Let_def ex behind sub_i64_def del: of_int_diff flip: defs p_def c_def)
  moreover have "sint (max_0 (word_of_int (A - sint c))) = max 0 (A - sint c)" using fits by (rule sint_max_0)
  ultimately show ?thesis unfolding defs [symmetric] using c c_le assms(3)
    by (intro exI [of _ "max_0 (word_of_int (A - sint c))"]) auto
qed

lemma trade_ahead_ok:
  assumes "0 \<le> sint (qo_ahead_qty ord)" "0 \<le> sint qty"
  shows "\<exists>a. trade_ahead oc qty ord = Some (ord\<lparr> qo_ahead_qty := a \<rparr>) \<and> sint a = max 0 (sint (qo_ahead_qty ord) - sint qty)"
proof -
  have "in_i64 (sint (qo_ahead_qty ord) - sint qty)"
    using assms sint_i64_bounds [of "qo_ahead_qty ord"] sint_i64_bounds [of qty] by (simp add: in_i64_def)
  then have "sint (word_of_int (sint (qo_ahead_qty ord) - sint qty) :: i64) = sint (qo_ahead_qty ord) - sint qty"
    by (rule sint_of_int_i64)
  with \<open>in_i64 _\<close> show ?thesis
    using assms by (cases "sint qty \<le> sint (qo_ahead_qty ord)")
      (auto simp: trade_ahead_def Let_def sub_i64_def max_0_def i64_arith_def in_i64_def intro!: exI)
qed

section \<open>Market events seen by one order\<close>

datatype market_event = TradeAt InstrumentId Side Ticks Lots | LevelChange InstrumentId Side Ticks Lots Lots

fun queue_market :: "Libm \<Rightarrow> bool \<Rightarrow> market_event \<Rightarrow> QueueEstimator \<Rightarrow> QueueEstimator panics" where
  "queue_market lm oc (TradeAt iid side price qty) self = on_trade oc iid side price qty self"
| "queue_market lm oc (LevelChange iid side price old new) self = on_level_change lm oc iid side price old new self"

fun queue_market_run :: "Libm \<Rightarrow> bool \<Rightarrow> market_event list \<Rightarrow> QueueEstimator \<Rightarrow> QueueEstimator panics" where
  "queue_market_run lm oc [] self = Some self"
| "queue_market_run lm oc (ev # evs) self = do { self \<leftarrow> queue_market lm oc ev self; queue_market_run lm oc evs self }"

fun hits :: "market_event \<Rightarrow> QueuedOrder \<Rightarrow> bool" where
  "hits (TradeAt iid side price qty) ord = at_level iid side price ord"
| "hits (LevelChange iid side price old new) ord = at_level iid side price ord"

text \<open>What an event takes away from its level: traded, and cancelled.\<close>

fun traded_qty :: "market_event \<Rightarrow> int" where
  "traded_qty (TradeAt iid side price qty) = sint qty"
| "traded_qty (LevelChange iid side price old new) = 0"

fun cancelled_qty :: "market_event \<Rightarrow> int" where
  "cancelled_qty (TradeAt iid side price qty) = 0"
| "cancelled_qty (LevelChange iid side price old new) = max 0 (sint old - sint new)"

text \<open>Events with quantities that are not negative and level sizes up to \<open>2 ^ 53\<close>, where \<open>f64\<close> is exact.\<close>

fun event_sized :: "market_event \<Rightarrow> bool" where
  "event_sized (TradeAt iid side price qty) \<longleftrightarrow> 0 \<le> sint qty"
| "event_sized (LevelChange iid side price old new) \<longleftrightarrow> 0 \<le> sint new \<and> sint old \<le> 2 ^ 53"

text \<open>Whether the level of an event is at least as large as the quantity estimated ahead of an order in it. The
  estimator neither checks nor keeps this: a large cancellation leaves the estimate of an order near the front
  almost as it is, so that the level may become smaller than the estimate.\<close>

fun level_holds :: "market_event \<Rightarrow> QueuedOrder \<Rightarrow> bool" where
  "level_holds (TradeAt iid side price qty) ord \<longleftrightarrow> True"
| "level_holds (LevelChange iid side price old new) ord \<longleftrightarrow> sint (qo_ahead_qty ord) \<le> sint old"

fun holds_along :: "Libm \<Rightarrow> bool \<Rightarrow> u64 \<Rightarrow> market_event list \<Rightarrow> QueueEstimator \<Rightarrow> bool" where
  "holds_along lm oc i [] self = True"
| "holds_along lm oc i (ev # evs) self =
     ((case queue_find i (qe_orders self) of None \<Rightarrow> True | Some ord \<Rightarrow> hits ev ord \<longrightarrow> level_holds ev ord) \<and>
      (case queue_market lm oc ev self of None \<Rightarrow> True | Some self' \<Rightarrow> holds_along lm oc i evs self'))"

definition ahead_sized :: "QueuedOrder option list \<Rightarrow> bool" where
  "ahead_sized ss = list_all (\<lambda>s. case s of None \<Rightarrow> True
     | Some ord \<Rightarrow> 0 \<le> sint (qo_ahead_qty ord) \<and> sint (qo_ahead_qty ord) \<le> 2 ^ 53) ss"

text \<open>What one event does to one order.\<close>

definition ahead_step :: "market_event \<Rightarrow> QueuedOrder \<Rightarrow> QueuedOrder \<Rightarrow> bool" where
  "ahead_step ev ord ord' \<longleftrightarrow> (\<exists>a. ord' = ord\<lparr> qo_ahead_qty := a \<rparr> \<and>
     (if hits ev ord
      then 0 \<le> sint a \<and> sint a \<le> max 0 (sint (qo_ahead_qty ord) - traded_qty ev) \<and>
           (level_holds ev ord \<longrightarrow> sint (qo_ahead_qty ord) - traded_qty ev - cancelled_qty ev \<le> sint a)
      else a = qo_ahead_qty ord))"

lemma map_orders_related:
  assumes "\<And>ord. Some ord \<in> set ss \<Longrightarrow> \<exists>ord'. f ord = Some ord' \<and> R ord ord'"
  shows "\<exists>ss'. map_orders f ss = Some ss' \<and> list_all2 (rel_option R) ss ss'"
  using assms
proof (induction ss)
  case (Cons s ss)
  then obtain ss' where "map_orders f ss = Some ss'" "list_all2 (rel_option R) ss ss'" by auto
  then show ?case using Cons.prems [of "the s"] by (cases s) (auto simp: list_all2_Cons1)
qed simp

lemma queue_find_related:
  assumes "list_all2 (rel_option R) ss ss'" "\<And>x y. R x y \<Longrightarrow> qo_order_id y = qo_order_id x" "queue_find i ss = Some ord"
  shows "\<exists>ord'. queue_find i ss' = Some ord' \<and> R ord ord'"
  using assms(1,3)
proof (induction ss ss' rule: list_all2_induct)
  case (Cons s ss s' ss')
  then show ?case using assms(2) by (cases s; cases s') (auto split: if_splits)
qed simp

lemma ahead_stepI:
  "(hits ev ord \<Longrightarrow> 0 \<le> sint a \<and> sint a \<le> max 0 (sint (qo_ahead_qty ord) - traded_qty ev) \<and>
      (level_holds ev ord \<longrightarrow> sint (qo_ahead_qty ord) - traded_qty ev - cancelled_qty ev \<le> sint a)) \<Longrightarrow>
   (\<not> hits ev ord \<Longrightarrow> a = qo_ahead_qty ord) \<Longrightarrow> ahead_step ev ord (ord\<lparr> qo_ahead_qty := a \<rparr>)"
  unfolding ahead_step_def by (rule exI [of _ a]) simp

lemma ahead_step_same: "(hits ev ord \<Longrightarrow> 0 \<le> sint (qo_ahead_qty ord) \<and> traded_qty ev = 0 \<and> 0 \<le> cancelled_qty ev) \<Longrightarrow>
    ahead_step ev ord ord"
  using ahead_stepI [of ev ord "qo_ahead_qty ord"] by fastforce

lemma ahead_sizedD:
  "ahead_sized ss \<Longrightarrow> Some ord \<in> set ss \<Longrightarrow> 0 \<le> sint (qo_ahead_qty ord) \<and> sint (qo_ahead_qty ord) \<le> 2 ^ 53"
  by (auto simp: ahead_sized_def list_all_iff split: option.splits)

lemmas ahead_nonnegD = ahead_sizedD [THEN conjunct1]

lemma on_trade_step:
  assumes "ahead_sized (qe_orders self)" "0 \<le> sint qty"
  shows "\<exists>self'. on_trade oc iid side price qty self = Some self' \<and>
    list_all2 (rel_option (ahead_step (TradeAt iid side price qty))) (qe_orders self) (qe_orders self')"
proof -
  let ?ev = "TradeAt iid side price qty"
    and ?f = "\<lambda>ord. if at_level iid side price ord then trade_ahead oc qty ord else Some ord"
  have "\<exists>ord'. ?f ord = Some ord' \<and> ahead_step ?ev ord ord'" if "Some ord \<in> set (qe_orders self)" for ord
  proof (cases "at_level iid side price ord")
    case True
    then show ?thesis using trade_ahead_ok [OF ahead_nonnegD [OF assms(1) that] assms(2), of oc]
      by (auto intro!: ahead_stepI)
  qed (auto intro: ahead_step_same)
  from map_orders_related [of "qe_orders self" ?f, OF this] obtain ss where
    "map_orders ?f (qe_orders self) = Some ss" "list_all2 (rel_option (ahead_step ?ev)) (qe_orders self) ss" by blast
  then show ?thesis by (cases side) (auto simp: on_trade_def Let_def)
qed

lemma on_level_change_step:
  assumes "pow_documented (libm_pow lm)" "f64_le (Fin 1) (qe_prob_power_n self)" "ahead_sized (qe_orders self)"
    and "event_sized (LevelChange iid side price old new)"
  shows "\<exists>self'. on_level_change lm oc iid side price old new self = Some self' \<and>
    list_all2 (rel_option (ahead_step (LevelChange iid side price old new))) (qe_orders self) (qe_orders self')"
proof (cases "sint old \<le> sint new")
  case True
  have "rel_option (ahead_step (LevelChange iid side price old new)) s s" if "s \<in> set (qe_orders self)" for s
  proof (cases s)
    case (Some ord)
    with that ahead_nonnegD [OF assms(3)] True show ?thesis by (auto intro!: ahead_step_same)
  qed simp
  then show ?thesis using True by (simp add: on_level_change_def list.rel_refl_strong)
next
  case False
  let ?ev = "LevelChange iid side price old new"
  define dec where "dec = (word_of_int (sint old - sint new) :: i64)"
  have fits: "in_i64 (sint old - sint new)" using assms(4) False by (simp add: in_i64_def)
  then have dec: "sub_i64 oc old new = Some dec" "sint dec = sint old - sint new"
    using sint_of_int_i64 [OF fits] by (simp_all only: sub_i64_def i64_arith_fits dec_def)
  let ?f = "\<lambda>ord. if at_level iid side price ord
      then level_change_ahead lm oc (qe_prob_power_n self) old dec ord else Some ord"
  have "\<exists>ord'. ?f ord = Some ord' \<and> ahead_step ?ev ord ord'" if o: "Some ord \<in> set (qe_orders self)" for ord
  proof (cases "at_level iid side price ord")
    case True
    obtain a where "?f ord = Some (ord\<lparr> qo_ahead_qty := a \<rparr>)" "0 \<le> sint a" "sint a \<le> sint (qo_ahead_qty ord)"
      "sint (qo_ahead_qty ord) \<le> sint old \<longrightarrow> sint (qo_ahead_qty ord) - sint dec \<le> sint a"
      using level_change_ahead_ok [OF assms(1,2), of ord old dec oc] ahead_sizedD [OF assms(3) o] assms(4)
        True False dec(2) by auto
    then show ?thesis using True False dec(2) by (auto intro!: ahead_stepI)
  qed (auto intro: ahead_step_same)
  from map_orders_related [of "qe_orders self" ?f, OF this] obtain ss where
    "map_orders ?f (qe_orders self) = Some ss" "list_all2 (rel_option (ahead_step ?ev)) (qe_orders self) ss" by blast
  then show ?thesis using False dec(1) by (simp add: on_level_change_def)
qed

lemma queue_market_step:
  assumes "pow_documented (libm_pow lm)" "f64_le (Fin 1) (qe_prob_power_n self)" "ahead_sized (qe_orders self)" "event_sized ev"
  shows "\<exists>self'. queue_market lm oc ev self = Some self' \<and>
    list_all2 (rel_option (ahead_step ev)) (qe_orders self) (qe_orders self')"
  using assms on_trade_step [of self] on_level_change_step [of lm self] by (cases ev) simp_all

lemma queue_market_power: "queue_market lm oc ev self = Some self' \<Longrightarrow> qe_prob_power_n self' = qe_prob_power_n self"
  by (cases ev) (auto simp: on_trade_def on_level_change_def Let_def elim!: bind_eq_SomeE split: if_splits Side.splits)

lemma traded_nonneg: "event_sized ev \<Longrightarrow> 0 \<le> traded_qty ev"
  by (cases ev) simp_all

lemma ahead_sized_step:
  "list_all2 (rel_option (ahead_step ev)) ss ss' \<Longrightarrow> event_sized ev \<Longrightarrow> ahead_sized ss \<Longrightarrow> ahead_sized ss'"
proof (induction ss ss' rule: list_all2_induct)
  case (Cons s ss s' ss')
  then show ?case using traded_nonneg [OF Cons.prems(1)]
    by (cases s; cases s') (auto simp: ahead_sized_def ahead_step_def split: if_splits)
qed simp

definition level_total :: "(market_event \<Rightarrow> int) \<Rightarrow> QueuedOrder \<Rightarrow> market_event list \<Rightarrow> int" where
  "level_total f ord evs = sum_list (map f (filter (\<lambda>ev. hits ev ord) evs))"

lemma hits_ahead [simp]: "hits ev (ord\<lparr> qo_ahead_qty := a \<rparr>) = hits ev ord"
  by (cases ev) (simp_all add: at_level_def)

lemma level_total_ahead [simp]: "level_total f (ord\<lparr> qo_ahead_qty := a \<rparr>) evs = level_total f ord evs"
  by (simp add: level_total_def)

lemma level_total_Cons:
  "level_total f ord (ev # evs) = (if hits ev ord then f ev else 0) + level_total f ord evs"
  by (simp add: level_total_def)

lemma queue_find_in: "queue_find i ss = Some ord \<Longrightarrow> Some ord \<in> set ss"
  by (induction i ss rule: queue_find.induct) (auto split: if_splits)

lemma queue_run_ahead:
  assumes "pow_documented (libm_pow lm)" "f64_le (Fin 1) (qe_prob_power_n self)" "ahead_sized (qe_orders self)"
    and "list_all event_sized evs" "queue_find i (qe_orders self) = Some ord"
  shows "\<exists>self' a. queue_market_run lm oc evs self = Some self' \<and>
    queue_find i (qe_orders self') = Some (ord\<lparr> qo_ahead_qty := a \<rparr>) \<and> 0 \<le> level_total traded_qty ord evs \<and>
    0 \<le> sint a \<and> sint a \<le> max 0 (sint (qo_ahead_qty ord) - level_total traded_qty ord evs) \<and>
    (holds_along lm oc i evs self \<longrightarrow>
       sint (qo_ahead_qty ord) - level_total traded_qty ord evs - level_total cancelled_qty ord evs \<le> sint a)"
  using assms(2-5)
proof (induction evs arbitrary: self ord)
  case Nil
  then have "0 \<le> sint (qo_ahead_qty ord)" by (metis ahead_nonnegD queue_find_in)
  moreover have "ord = ord\<lparr> qo_ahead_qty := qo_ahead_qty ord \<rparr>" by simp
  ultimately show ?case using Nil by (intro exI [of _ self] exI [of _ "qo_ahead_qty ord"]) (simp add: level_total_def)
next
  case (Cons ev evs)
  obtain self1 where step: "queue_market lm oc ev self = Some self1"
    "list_all2 (rel_option (ahead_step ev)) (qe_orders self) (qe_orders self1)"
    using queue_market_step [OF assms(1) Cons.prems(1,2), of ev oc] Cons.prems(3) by auto
  have "qo_order_id y = qo_order_id x" if "ahead_step ev x y" for x y using that by (auto simp: ahead_step_def)
  from queue_find_related [OF step(2) this Cons.prems(4)] obtain ord1 where
    "queue_find i (qe_orders self1) = Some ord1" "ahead_step ev ord ord1" by blast
  then obtain a1 where o1: "queue_find i (qe_orders self1) = Some (ord\<lparr> qo_ahead_qty := a1 \<rparr>)"
    and a1: "if hits ev ord then 0 \<le> sint a1 \<and> sint a1 \<le> max 0 (sint (qo_ahead_qty ord) - traded_qty ev) \<and>
        (level_holds ev ord \<longrightarrow> sint (qo_ahead_qty ord) - traded_qty ev - cancelled_qty ev \<le> sint a1)
      else a1 = qo_ahead_qty ord"
    unfolding ahead_step_def by blast
  have "ahead_sized (qe_orders self1)" using ahead_sized_step [OF step(2) _ Cons.prems(2)] Cons.prems(3) by simp
  moreover have "f64_le (Fin 1) (qe_prob_power_n self1)" using queue_market_power [OF step(1)] Cons.prems(1) by simp
  ultimately obtain self' a where run: "queue_market_run lm oc evs self1 = Some self'"
      "queue_find i (qe_orders self') = Some (ord\<lparr> qo_ahead_qty := a \<rparr>)" and T: "0 \<le> level_total traded_qty ord evs"
    and a: "0 \<le> sint a" "sint a \<le> max 0 (sint a1 - level_total traded_qty ord evs)"
      "holds_along lm oc i evs self1 \<longrightarrow> sint a1 - level_total traded_qty ord evs - level_total cancelled_qty ord evs \<le> sint a"
    using Cons.IH [OF _ _ _ o1] Cons.prems(3) unfolding level_total_ahead QueuedOrder.simps by auto
  have t: "0 \<le> traded_qty ev" using Cons.prems(3) by (simp add: traded_nonneg)
  have holds: "(hits ev ord \<longrightarrow> level_holds ev ord) \<and> holds_along lm oc i evs self1" if "holds_along lm oc i (ev # evs) self"
    using that Cons.prems(4) step(1) by simp
  have "0 \<le> level_total traded_qty ord (ev # evs) \<and> 0 \<le> sint a \<and>
    sint a \<le> max 0 (sint (qo_ahead_qty ord) - level_total traded_qty ord (ev # evs)) \<and>
    (holds_along lm oc i (ev # evs) self \<longrightarrow>
       sint (qo_ahead_qty ord) - level_total traded_qty ord (ev # evs) - level_total cancelled_qty ord (ev # evs) \<le> sint a)"
  proof (cases "hits ev ord")
    case True
    with a1 have b: "0 \<le> sint a1" "sint a1 \<le> max 0 (sint (qo_ahead_qty ord) - traded_qty ev)"
      "level_holds ev ord \<longrightarrow> sint (qo_ahead_qty ord) - traded_qty ev - cancelled_qty ev \<le> sint a1" by simp_all
    show ?thesis unfolding level_total_Cons if_P [OF True]
      using a b T t holds True by (intro conjI impI) linarith+
  qed (use a a1 T holds in \<open>simp add: level_total_Cons\<close>)
  with run step(1) show ?case by (simp only: queue_market_run.simps bind_panics_Some) blast
qed

section \<open>Slots and counter\<close>

datatype queue_cmd = Register u64 InstrumentId Side Ticks Lots Lots | Filled u64 Lots | Cancelled u64
  | Market market_event

fun queue_step :: "Libm \<Rightarrow> bool \<Rightarrow> queue_cmd \<Rightarrow> QueueEstimator \<Rightarrow> QueueEstimator panics" where
  "queue_step lm oc (Register i iid side price qty level) self =
     map_option snd (register_order oc i iid side price qty level self)"
| "queue_step lm oc (Filled i qty) self = order_filled oc i qty self"
| "queue_step lm oc (Cancelled i) self = Some (order_cancelled i self)"
| "queue_step lm oc (Market ev) self = queue_market lm oc ev self"

fun queue_run :: "Libm \<Rightarrow> bool \<Rightarrow> queue_cmd list \<Rightarrow> QueueEstimator \<Rightarrow> QueueEstimator panics" where
  "queue_run lm oc [] self = Some self"
| "queue_run lm oc (c # cs) self = do { self \<leftarrow> queue_step lm oc c self; queue_run lm oc cs self }"

definition occupied :: "'a option list \<Rightarrow> nat" where
  "occupied ss = length (filter (\<lambda>s. s \<noteq> None) ss)"

definition queue_ok :: "QueueEstimator \<Rightarrow> bool" where
  "queue_ok self \<longleftrightarrow> length (qe_orders self) = 64 \<and> qe_order_count self = occupied (qe_orders self) \<and>
     length (qe_take_rates_bid self) = 16 \<and> length (qe_take_rates_ask self) = 16"

lemma occupied_full: "None \<notin> set ss \<longleftrightarrow> occupied ss = length ss"
proof (induction ss)
  case (Cons s ss)
  have "occupied ss \<le> length ss" by (simp add: occupied_def)
  moreover have "occupied (s # ss) = (if s = None then 0 else 1) + occupied ss" by (simp add: occupied_def)
  ultimately show ?case using Cons by auto
qed (simp add: occupied_def)

lemma fill_first_occupied: "length (fill_first x ss) = length ss"
  "None \<in> set ss \<Longrightarrow> occupied (fill_first x ss) = Suc (occupied ss)"
  by (induction x ss rule: fill_first.induct) (auto simp: occupied_def)

lemma change_order_occupied: "length (change_order i f ss) = length ss" "occupied (change_order i f ss) = occupied ss"
  by (induction i f ss rule: change_order.induct) (auto simp: occupied_def)

lemma clear_slot_occupied: "clear_slot i ss = Some ss' \<Longrightarrow> length ss' = length ss \<and> Suc (occupied ss') = occupied ss"
  by (induction i ss arbitrary: ss' rule: clear_slot.induct) (auto simp: occupied_def split: if_splits)

lemma map_orders_occupied: "map_orders f ss = Some ss' \<Longrightarrow> length ss' = length ss \<and> occupied ss' = occupied ss"
  by (induction f ss arbitrary: ss' rule: map_orders.induct) (auto simp: occupied_def elim!: bind_eq_SomeE)

lemma update_rate_length: "update_rate iid f rs = Some rs' \<Longrightarrow> length rs' = length rs"
  by (induction iid f rs arbitrary: rs' rule: update_rate.induct) (auto split: if_splits)

lemma update_take_rate_length [simp]: "length (update_take_rate rs iid q alpha) = length rs"
  by (auto simp: update_take_rate_def Let_def fill_first_occupied update_rate_length split: option.split)

lemma remove_order_ok: "queue_ok self \<Longrightarrow> queue_ok (remove_order i self)"
  using clear_slot_occupied [of i "qe_orders self"]
  by (fastforce simp: remove_order_def queue_ok_def split: option.split)

lemma queue_market_ok: "queue_ok self \<Longrightarrow> queue_market lm oc ev self = Some self' \<Longrightarrow> queue_ok self'"
  by (cases ev) (auto simp: on_trade_def on_level_change_def queue_ok_def Let_def dest!: map_orders_occupied
      elim!: bind_eq_SomeE split: if_splits Side.splits)

lemma queue_step_ok: "queue_ok self \<Longrightarrow> queue_step lm oc c self = Some self' \<Longrightarrow> queue_ok self'"
proof (cases c)
  case (Register i iid side price qty level)
  moreover assume "queue_ok self" "queue_step lm oc c self = Some self'"
  ultimately show ?thesis
    by (auto simp: register_order_def queue_ok_def fill_first_occupied Let_def elim!: bind_eq_SomeE split: if_splits)
next
  case (Filled i qty)
  moreover assume "queue_ok self" "queue_step lm oc c self = Some self'"
  ultimately show ?thesis
    by (auto simp: order_filled_def remove_order_ok elim!: bind_eq_SomeE split: if_splits option.splits)
      (auto simp: queue_ok_def change_order_occupied)
qed (auto simp: order_cancelled_def remove_order_ok queue_market_ok)

lemma queue_new_ok: "queue_ok (queue_new n)"
  by (simp add: queue_ok_def queue_new_def occupied_def MAX_QUEUED_ORDERS_def MAX_RATE_INSTRUMENTS_def)

lemma queue_run_ok: "queue_ok self \<Longrightarrow> queue_run lm oc cs self = Some self' \<Longrightarrow> queue_ok self'"
  by (induction cs arbitrary: self) (auto elim!: bind_eq_SomeE dest: queue_step_ok)

text \<open>Without overflow checks nothing panics.\<close>

lemma map_orders_total: "(\<And>ord. \<exists>ord'. f ord = Some ord') \<Longrightarrow> \<exists>ss'. map_orders f ss = Some ss'"
  using map_orders_related [of ss f "\<lambda>_ _. True"] by blast

lemma sub_unchecked: "sub_i64 False a b = Some (a - b)" "add_i64 False a b = Some (a + b)"
  by (simp_all add: sub_i64_def add_i64_def i64_arith_wraps)

lemma queue_market_total: "\<exists>self'. queue_market lm False ev self = Some self'"
proof (cases ev)
  case (TradeAt iid side price qty)
  obtain ss where "map_orders (\<lambda>ord. if at_level iid side price ord then trade_ahead False qty ord else Some ord) (qe_orders self) = Some ss"
    using map_orders_total [of "\<lambda>ord. if at_level iid side price ord then trade_ahead False qty ord else Some ord"]
    by (fastforce simp: trade_ahead_def Let_def sub_unchecked)
  with TradeAt show ?thesis by (cases side) (simp_all add: on_trade_def Let_def)
next
  case (LevelChange iid side price old new)
  obtain ss where "map_orders (\<lambda>ord. if at_level iid side price ord
      then level_change_ahead lm False (qe_prob_power_n self) old (old - new) ord else Some ord) (qe_orders self) = Some ss"
    using map_orders_total [of "\<lambda>ord. if at_level iid side price ord
      then level_change_ahead lm False (qe_prob_power_n self) old (old - new) ord else Some ord"]
    by (fastforce simp: level_change_ahead_def Let_def sub_unchecked)
  with LevelChange show ?thesis by (simp add: on_level_change_def sub_unchecked)
qed

lemma queue_run_total: "\<exists>self'. queue_run lm False cs self = Some self'"
proof (induction cs arbitrary: self)
  case (Cons c cs)
  have "\<exists>self'. queue_step lm False c self = Some self'"
    using queue_market_total
    by (cases c) (auto simp: register_order_def order_filled_def sub_unchecked Let_def split: option.split)
  with Cons show ?case by auto
qed simp

section \<open>Properties\<close>

text \<open>C25. The estimate of the quantity ahead is sound. Follow one tracked order through any sequence of trades
  and level changes, on its level and on others, in any build, with quantities that are not negative, sizes up to \<open>2 ^ 53\<close>
  and a power of at least 1, as the recommended ones are: no step panics, and the quantity the estimator puts ahead of
  the order is not negative and never more than the quantity it joined behind less everything traded at its level,
  whatever rounding does. It is also never less than that with all cancellations at its level taken off, as long
  as no level change finds a level smaller than the estimate; the estimator does not see to that, and beyond it takes
  off more than was cancelled.\<close>

theorem queue_ahead_sound:
  assumes "pow_documented (libm_pow lm)" "f64_le (Fin 1) (qe_prob_power_n self)" "ahead_sized (qe_orders self)"
    and "list_all event_sized evs" "queue_find i (qe_orders self) = Some ord" "joined = sint (qo_ahead_qty ord)"
  shows "\<exists>self' a. queue_market_run lm oc evs self = Some self' \<and> queue_ahead i self' = Some a \<and>
    0 \<le> sint a \<and> sint a \<le> max 0 (joined - level_total traded_qty ord evs) \<and>
    (holds_along lm oc i evs self \<longrightarrow>
       joined - level_total traded_qty ord evs - level_total cancelled_qty ord evs \<le> sint a)"
  using queue_run_ahead [OF assms(1-5), of oc] unfolding assms(6) queue_ahead_def by fastforce

text \<open>The counter of tracked orders is the number of occupied slots after any sequence of registrations, fills,
  cancellations and market events, the arrays keep their sizes, so an order is refused exactly when 64
  are tracked; without overflow checks no sequence panics.\<close>

theorem queue_slots_counted:
  "(\<forall>self. queue_run lm oc cs (queue_new n) = Some self \<longrightarrow>
      length (qe_orders self) = 64 \<and> qe_order_count self = occupied (qe_orders self) \<and>
      (None \<notin> set (qe_orders self) \<longleftrightarrow> qe_order_count self = 64)) \<and>
   (\<exists>self. queue_run lm False cs (queue_new n) = Some self)"
proof -
  have "length (qe_orders self) = 64 \<and> qe_order_count self = occupied (qe_orders self) \<and>
      (None \<notin> set (qe_orders self) \<longleftrightarrow> qe_order_count self = 64)" if "queue_run lm oc cs (queue_new n) = Some self" for self
    using queue_run_ok [OF queue_new_ok that] occupied_full [of "qe_orders self"] by (simp add: queue_ok_def)
  then show ?thesis using queue_run_total by blast
qed

section \<open>Witnesses\<close>

definition square_libm :: Libm where
  "square_libm = \<lparr> libm_pow = (\<lambda>x y. f64_mul x x), libm_exp = (\<lambda>x. x), libm_sqrt = (\<lambda>x. x) \<rparr>"

definition resting_order :: QueuedOrder where
  "resting_order = \<lparr> qo_order_id = 1, qo_instrument_id = 1, qo_side = Bid, qo_price = 650, qo_qty = 100,
     qo_ahead_qty = 500, qo_posted_at_level_size = 600 \<rparr>"

definition queue_with_order :: QueueEstimator where
  "queue_with_order = (queue_new (Fin 2))\<lparr> qe_orders := Some resting_order # replicate 63 None, qe_order_count := 1 \<rparr>"

lemma queue_with_order_registered:
  "register_order True 1 1 Bid 650 100 500 (queue_new (Fin 2)) = Some (Inr (), queue_with_order)"
proof -
  have "replicate 64 (None :: QueuedOrder option) = None # replicate 63 None" by (simp add: numeral_eq_Suc)
  then show ?thesis
    by (simp add: register_order_def queue_with_order_def queue_new_def MAX_QUEUED_ORDERS_def resting_order_def
        add_i64_def i64_arith_def in_i64_def sint_numeral_i64)
qed

lemma square_documented: "pow_documented (libm_pow square_libm)"
proof -
  have pos: "nonneg_result (f64_round s r)" if "0 \<le> r" for s r
    using f64_rnd_nonneg [OF that] f64_round_ok [of s r]
    by (auto simp: nonneg_result_def f64_round_def Let_def split: if_splits)
  have neg: "f64_mul x x = f64_mul (f64_neg x) (f64_neg x)" if "f64_finite x" for x
    using that by (simp add: f64_mul_finite)
  have mono: "f64_le (f64_mul (Fin (of_int i)) (Fin (of_int i))) (f64_mul (Fin (of_int j)) (Fin (of_int j)))"
    if "0 \<le> i" "i \<le> j" for i j :: int
  proof -
    have "i * i \<le> j * j" using that by (intro mult_mono) simp_all
    then have "rat_of_int i * rat_of_int i \<le> rat_of_int j * rat_of_int j" by (simp flip: of_int_mult)
    then show ?thesis by (simp add: f64_mul_finite f64_round_le)
  qed
  show ?thesis unfolding pow_documented_def
    using pos neg mono by (simp add: square_libm_def f64_mul_finite)
qed

lemma none_related: "list_all2 (rel_option R) (replicate n None) ss \<Longrightarrow> \<forall>s\<in>set ss. s = None"
  by (induction n arbitrary: ss) (auto simp: list_all2_Cons1)

theorem queue_ahead_sound_witness:
  "\<exists>self a. queue_market_run square_libm True [TradeAt 1 Bid 650 200, LevelChange 1 Bid 650 300 240] queue_with_order = Some self \<and>
    queue_ahead 1 self = Some a \<and> 240 \<le> sint a \<and> sint a \<le> 300"
proof -
  let ?evs = "[TradeAt 1 Bid 650 200, LevelChange 1 Bid 650 300 240]"
  have slots: "qe_orders queue_with_order = Some resting_order # replicate 63 None" "qe_prob_power_n queue_with_order = Fin 2"
    by (simp_all add: queue_with_order_def queue_new_def)
  have 1: "ahead_sized (qe_orders queue_with_order)" and 2: "queue_find 1 (qe_orders queue_with_order) = Some resting_order"
    unfolding slots by (simp_all add: ahead_sized_def list_all_iff resting_order_def sint_numeral_i64)
  have 3: "list_all event_sized ?evs" "f64_le (Fin 1) (qe_prob_power_n queue_with_order)"
    by (simp_all add: sint_numeral_i64 slots)
  obtain self1 where self1: "on_trade True 1 Bid 650 200 queue_with_order = Some self1"
      "list_all2 (rel_option (ahead_step (TradeAt 1 Bid 650 200))) (qe_orders queue_with_order) (qe_orders self1)"
    using on_trade_step [OF 1, of 200 True 1 Bid 650] by (auto simp: sint_numeral_i64)
  have "qo_order_id y = qo_order_id x" if "ahead_step (TradeAt 1 Bid 650 200) x y" for x y
    using that by (auto simp: ahead_step_def)
  from queue_find_related [OF self1(2) this 2] obtain ord' where
    "queue_find 1 (qe_orders self1) = Some ord'" "ahead_step (TradeAt 1 Bid 650 200) resting_order ord'" by blast
  then have "holds_along square_libm True 1 ?evs queue_with_order"
    using self1(1) 2 by (auto simp: ahead_step_def resting_order_def at_level_def sint_numeral_i64 split: option.split if_splits)
  with queue_ahead_sound [OF square_documented 3(2) 1 3(1) 2 refl, of True]
  show ?thesis by (auto simp: level_total_def resting_order_def at_level_def sint_numeral_i64)
qed

theorem queue_slots_counted_witness:
  "\<exists>self. queue_run square_libm False [Register 1 1 Bid 650 100 500, Cancelled 1, Cancelled 1] (queue_new (Fin 2)) = Some self \<and>
    qe_order_count self = occupied (qe_orders self)"
  using queue_slots_counted [of square_libm False "[Register 1 1 Bid 650 100 500, Cancelled 1, Cancelled 1]" "Fin 2"]
  by blast

end
