(* ===== verification/Strategy_Types.thy ===== *)
theory Strategy_Types
  imports Queue_Estimator Order_Tracker Position Market_State
begin

text \<open>
  The data of the strategy crate that its interface shares (\<open>intent.rs\<close>, \<open>risk.rs\<close>, \<open>context.rs\<close> under
  \<open>crates/strategy/src\<close>): order intents, risk limits and the context a strategy owns, over the market-state
  engine, queue estimator, order tracker and positions modelled in their own theories.
\<close>

section \<open>Order intents\<close>

definition MAX_INTENTS_PER_TICK :: nat where
  "MAX_INTENTS_PER_TICK = 32"

datatype OrderAction = Post | Cancel | Amend

record OrderIntent =
  oi_instrument_id :: InstrumentId
  oi_side :: Side
  oi_price :: Ticks
  oi_qty :: Lots
  oi_action :: OrderAction
  oi_client_order_id :: u64
  oi_target_order_id :: u64
  oi_strategy_id :: u8

definition intent_default :: OrderIntent where
  "intent_default = \<lparr> oi_instrument_id = 0, oi_side = Bid, oi_price = 0, oi_qty = 0, oi_action = Post,
     oi_client_order_id = 0, oi_target_order_id = 0, oi_strategy_id = 0 \<rparr>"

section \<open>Risk limits\<close>

record RiskLimits =
  rl_max_position_per_instrument :: Lots
  rl_max_capital_deployed :: fixed
  rl_max_worst_case_loss :: fixed
  rl_max_orders_live :: "16 word"
  rl_max_intents_per_sec :: "16 word"
  rl_max_replaces_per_min :: "16 word"
  rl_capital_budget :: fixed

datatype RiskCheckResult = Pass | RejectPosition | RejectCapital | RejectOrderCount | RejectRate | RejectFeedUnhealthy

section \<open>Strategy context\<close>

record 'b StrategyContext =
  sx_engine :: "'b MarketStateEngine"
  sx_queue :: QueueEstimator
  sx_orders :: OrderTracker
  sx_risk :: RiskLimits
  sx_positions :: "Position list"

end
