(* ===== verification/Seq_Lock.thy ===== *)
theory Seq_Lock
  imports Mantis_Prelude
begin

text \<open>
  The sequence lock of \<open>crates/seqlock/src/raw/seqlock.rs\<close>: one writer, a reader, a 64 bit sequence
  counter and a value that is copied in chunks, so that a copy can see a half-written value. A step is
  one access to shared memory and the steps of the two threads interleave arbitrarily, each thread's accesses
  in program order; \<open>Seq_Lock_Weak\<close> is about the orderings of the source, which do not keep that order everywhere.
  Readers do not change the shared state, so one reader stands for each of them.
\<close>

section \<open>Threads\<close>

datatype 'c writer_pc = WIdle | WCopy u64 "'c list" nat
datatype 'c reader_pc = RIdle | RCopy u64 "'c list" nat

text \<open>\<open>sq_hist\<close> records the values stored so far, the initial one first, and the last component of
  \<open>RCopy\<close> how many of them there were when the reader read the sequence; the program has neither.\<close>

record 'c SeqLock =
  sq_seq :: u64
  sq_data :: "'c list"
  sq_writer :: "'c writer_pc"
  sq_reader :: "'c reader_pc"
  sq_hist :: "'c list list"

datatype 'c seq_label = SeqTau | Stored "'c list" | Loaded "'c list"

definition seqlock_new :: "'c list \<Rightarrow> 'c SeqLock" where
  "seqlock_new initial = \<lparr> sq_seq = 0, sq_data = initial, sq_writer = WIdle, sq_reader = RIdle,
     sq_hist = [initial] \<rparr>"

definition seqlock_version :: "'c SeqLock \<Rightarrow> u64" where
  "seqlock_version s = sq_seq s"

inductive seqlock_step :: "'c SeqLock \<Rightarrow> 'c seq_label \<Rightarrow> 'c SeqLock \<Rightarrow> bool" where
  store_begin:
    "sq_writer s = WIdle \<Longrightarrow> length val = length (sq_data s) \<Longrightarrow>
     seqlock_step s SeqTau (s\<lparr> sq_seq := sq_seq s + 1, sq_writer := WCopy (sq_seq s) val 0 \<rparr>)"
| store_copy:
    "sq_writer s = WCopy seq val i \<Longrightarrow> i < length val \<Longrightarrow>
     seqlock_step s SeqTau (s\<lparr> sq_data := (sq_data s)[i := val ! i], sq_writer := WCopy seq val (Suc i) \<rparr>)"
| store_end:
    "sq_writer s = WCopy seq val i \<Longrightarrow> i = length val \<Longrightarrow>
     seqlock_step s (Stored val) (s\<lparr> sq_seq := seq + 2, sq_writer := WIdle, sq_hist := sq_hist s @ [val] \<rparr>)"
| load_spin:
    "sq_reader s = RIdle \<Longrightarrow> odd (uint (sq_seq s)) \<Longrightarrow> seqlock_step s SeqTau s"
| load_begin:
    "sq_reader s = RIdle \<Longrightarrow> even (uint (sq_seq s)) \<Longrightarrow>
     seqlock_step s SeqTau (s\<lparr> sq_reader := RCopy (sq_seq s) [] (length (sq_hist s)) \<rparr>)"
| load_copy:
    "sq_reader s = RCopy seq1 buf h \<Longrightarrow> length buf < length (sq_data s) \<Longrightarrow>
     seqlock_step s SeqTau (s\<lparr> sq_reader := RCopy seq1 (buf @ [sq_data s ! length buf]) h \<rparr>)"
| load_end:
    "sq_reader s = RCopy seq1 buf h \<Longrightarrow> length buf = length (sq_data s) \<Longrightarrow> sq_seq s = seq1 \<Longrightarrow>
     seqlock_step s (Loaded buf) (s\<lparr> sq_reader := RIdle \<rparr>)"
| load_retry:
    "sq_reader s = RCopy seq1 buf h \<Longrightarrow> length buf = length (sq_data s) \<Longrightarrow> sq_seq s \<noteq> seq1 \<Longrightarrow>
     seqlock_step s SeqTau (s\<lparr> sq_reader := RIdle \<rparr>)"

inductive seqlock_reachable :: "'c list \<Rightarrow> 'c SeqLock \<Rightarrow> bool" for initial where
  init: "seqlock_reachable initial (seqlock_new initial)"
| step: "seqlock_reachable initial s \<Longrightarrow> seqlock_step s l s' \<Longrightarrow> seqlock_reachable initial s'"

inductive seqlock_path :: "'c SeqLock \<Rightarrow> 'c seq_label list \<Rightarrow> 'c SeqLock \<Rightarrow> bool" where
  path_nil: "seqlock_path s [] s"
| path_cons: "seqlock_step s l s1 \<Longrightarrow> seqlock_path s1 ls s2 \<Longrightarrow> seqlock_path s (l # ls) s2"

inductive_cases loaded_stepE: "seqlock_step s (Loaded val) s'"

section \<open>Invariant\<close>

text \<open>The sequence after \<open>k\<close> stores.\<close>

definition seq_of :: "nat \<Rightarrow> u64" where
  "seq_of k = word_of_int (2 * int k)"

definition writer_ok :: "'c SeqLock \<Rightarrow> bool" where
  "writer_ok s = (case sq_writer s of
      WIdle \<Rightarrow> sq_seq s = seq_of (length (sq_hist s) - 1) \<and> sq_data s = last (sq_hist s)
    | WCopy seq val i \<Rightarrow> seq = seq_of (length (sq_hist s) - 1) \<and> sq_seq s = seq + 1 \<and>
        length val = length (last (sq_hist s)) \<and> i \<le> length val \<and>
        sq_data s = take i val @ drop i (last (sq_hist s)))"

text \<open>While nothing has been stored since the reader read the sequence, what it has copied belongs
  to the value that was current then.\<close>

definition reader_ok :: "'c SeqLock \<Rightarrow> bool" where
  "reader_ok s = (case sq_reader s of
      RIdle \<Rightarrow> True
    | RCopy seq1 buf h \<Rightarrow> 1 \<le> h \<and> h \<le> length (sq_hist s) \<and> seq1 = seq_of (h - 1) \<and>
        (sq_writer s = WIdle \<and> h = length (sq_hist s) \<longrightarrow> take (length buf) (last (sq_hist s)) = buf))"

definition seqlock_inv :: "nat \<Rightarrow> 'c SeqLock \<Rightarrow> bool" where
  "seqlock_inv n s \<longleftrightarrow> sq_hist s \<noteq> [] \<and> length (last (sq_hist s)) = n \<and>
     writer_ok s \<and> reader_ok s"

lemma uint_seq_of: "uint (seq_of k) = (2 * int k) mod 2 ^ 64"
  unfolding seq_of_def uint_word_of_int by simp

lemma even_seq_of [simp]: "even (uint (seq_of k))"
  by (simp add: uint_seq_of dvd_mod_iff)

lemma uint_inc: "uint (w + 1 :: u64) = (uint w + 1) mod 2 ^ 64"
  by (simp add: uint_word_ariths)

lemma odd_seq_of [simp]: "odd (uint (seq_of k + 1))"
proof -
  have "even (((2 :: int) ^ 64))" by simp
  then show ?thesis unfolding uint_inc by (subst dvd_mod_iff) simp_all
qed

lemma seq_of_Suc: "seq_of k + 2 = seq_of (Suc k)"
  by (simp add: seq_of_def)

lemma seq_of_eq:
  assumes "seq_of j = seq_of k" "j \<le> k" "k < j + 2 ^ 63"
  shows "j = k"
proof -
  have "(2 * int j) mod 2 ^ 64 = (2 * int k) mod 2 ^ 64" using assms(1) by (metis uint_seq_of)
  then have "(2 :: int) ^ 64 dvd 2 * int k - 2 * int j" by (metis mod_eq_dvd_iff)
  then have "(2 * 2 ^ 63 :: int) dvd 2 * (int k - int j)" by (simp add: algebra_simps)
  then have "(2 ^ 63 :: int) dvd int k - int j" by (simp only: dvd_times_left_cancel_iff)
  moreover have "0 \<le> int k - int j" "int k - int j < 2 ^ 63" using assms(2,3) by auto
  ultimately have "int k - int j = 0" using zdvd_not_zless [of "int k - int j" "2 ^ 63"] by fastforce
  then show ?thesis by simp
qed

lemma seqlock_new_inv: "seqlock_inv (length initial) (seqlock_new initial)"
  by (simp add: seqlock_inv_def seqlock_new_def writer_ok_def reader_ok_def seq_of_def)

lemma copy_chunk:
  assumes "i < length val" "length val = length old"
  shows "(take i val @ drop i old)[i := val ! i] = take (Suc i) val @ drop (Suc i) old"
proof (rule nth_equalityI)
  fix j assume "j < length ((take i val @ drop i old)[i := val ! i])"
  with assms show "(take i val @ drop i old)[i := val ! i] ! j = (take (Suc i) val @ drop (Suc i) old) ! j"
    by (cases j i rule: linorder_cases) (auto simp: nth_append nth_list_update less_Suc_eq)
qed (use assms in auto)

lemmas seqlock_inv_defs = seqlock_inv_def writer_ok_def reader_ok_def

lemma seqlock_step_inv:
  assumes "seqlock_inv n s" "seqlock_step s l s'"
  shows "seqlock_inv n s'"
  using assms(2)
proof (cases rule: seqlock_step.cases)
  case (store_begin val)
  with assms(1) show ?thesis by (simp add: seqlock_inv_defs split: reader_pc.splits)
next
  case (store_copy seq val i)
  then have "sq_data s = take i val @ drop i (last (sq_hist s))" "length val = length (last (sq_hist s))"
    using assms(1) by (simp_all add: seqlock_inv_def writer_ok_def)
  with copy_chunk [OF store_copy(4)]
  have "(sq_data s)[i := val ! i] = take (Suc i) val @ drop (Suc i) (last (sq_hist s))" by simp
  with assms(1) store_copy show ?thesis
    by (simp add: seqlock_inv_defs split: reader_pc.splits)
next
  case (store_end seq val i)
  with assms(1) show ?thesis by (simp add: seqlock_inv_defs seq_of_Suc Suc_diff_le split: reader_pc.splits)
next
  case load_spin
  with assms(1) show ?thesis by simp
next
  case load_begin
  with assms(1) show ?thesis
    by (cases "sq_writer s") (simp_all add: seqlock_inv_defs Suc_le_eq)
next
  case (load_copy seq1 buf h)
  with assms(1) show ?thesis
    by (cases "sq_writer s") (simp_all add: seqlock_inv_defs take_Suc_conv_app_nth)
next
  case (load_end seq1 buf h)
  with assms(1) show ?thesis by (simp add: seqlock_inv_defs split: writer_pc.splits)
next
  case (load_retry seq1 buf h)
  with assms(1) show ?thesis by (simp add: seqlock_inv_defs split: writer_pc.splits)
qed

lemma seqlock_reachable_inv: "seqlock_reachable initial s \<Longrightarrow> seqlock_inv (length initial) s"
  by (induction rule: seqlock_reachable.induct) (auto intro: seqlock_new_inv seqlock_step_inv)

section \<open>Properties\<close>

text \<open>A load never returns a torn value. Whatever the interleaving of a store's chunk writes with
  a load's chunk reads, a load that returns gives exactly the value of the latest completed store (or
  the initial value), provided that fewer than \<open>2 ^ 63\<close> stores complete during its last attempt, so
  that the 64 bit sequence cannot come back to the same number.\<close>

theorem seqlock_load_consistent:
  assumes "seqlock_reachable initial s" "sq_reader s = RCopy seq1 buf h" "seqlock_step s (Loaded val) s'"
    and "length (sq_hist s) < h + 2 ^ 63"
  shows "val = last (sq_hist s) \<and> sq_writer s = WIdle"
proof -
  have i: "seqlock_inv (length initial) s" using assms(1) by (rule seqlock_reachable_inv)
  have v: "val = buf" "length buf = length (sq_data s)" "sq_seq s = seq1"
    using assms(2,3) by (auto elim: loaded_stepE)
  have r: "1 \<le> h" "h \<le> length (sq_hist s)" "seq1 = seq_of (h - 1)"
    "sq_writer s = WIdle \<and> h = length (sq_hist s) \<Longrightarrow> take (length buf) (last (sq_hist s)) = buf"
    using i assms(2) by (auto simp: seqlock_inv_def reader_ok_def)
  have idle: "sq_writer s = WIdle"
  proof (cases "sq_writer s")
    case (WCopy seq w j)
    with i have "sq_seq s = seq_of (length (sq_hist s) - 1) + 1" by (simp add: seqlock_inv_def writer_ok_def)
    with v(3) r(3) odd_seq_of even_seq_of show ?thesis by metis
  qed
  with i have "sq_seq s = seq_of (length (sq_hist s) - 1)" "sq_data s = last (sq_hist s)"
    by (simp_all add: seqlock_inv_def writer_ok_def)
  then have "h - 1 = length (sq_hist s) - 1"
    using seq_of_eq [of "h - 1" "length (sq_hist s) - 1"] v(3) r(1-3) assms(4) by auto
  then have "h = length (sq_hist s)" using r(1,2) by simp
  with r(4) idle v \<open>sq_data s = last (sq_hist s)\<close> show ?thesis by simp
qed

section \<open>Operations end\<close>

lemma seqlock_path_append:
  "seqlock_path s ls s1 \<Longrightarrow> seqlock_path s1 ls' s2 \<Longrightarrow> seqlock_path s (ls @ ls') s2"
  by (induction rule: seqlock_path.induct) (auto intro: seqlock_path.intros)

lemma seqlock_path_reachable:
  "seqlock_path s ls s' \<Longrightarrow> seqlock_reachable initial s \<Longrightarrow> seqlock_reachable initial s'"
  by (induction rule: seqlock_path.induct) (auto intro: seqlock_reachable.step)

lemma store_copy_path:
  "sq_writer s = WCopy seq val i \<Longrightarrow> i + k = length val \<Longrightarrow>
   \<exists>d. seqlock_path s (replicate k SeqTau) (s\<lparr> sq_data := d, sq_writer := WCopy seq val (length val) \<rparr>)"
proof (induction k arbitrary: s i)
  case 0
  then have "s\<lparr> sq_data := sq_data s, sq_writer := WCopy seq val (length val) \<rparr> = s" by simp
  then show ?case using path_nil [of s] by (intro exI [of _ "sq_data s"]) simp
next
  case (Suc k)
  let ?s1 = "s\<lparr> sq_data := (sq_data s)[i := val ! i], sq_writer := WCopy seq val (Suc i) \<rparr>"
  have step: "seqlock_step s SeqTau ?s1" using Suc.prems by (intro seqlock_step.store_copy) auto
  obtain d where "seqlock_path ?s1 (replicate k SeqTau) (?s1\<lparr> sq_data := d, sq_writer := WCopy seq val (length val) \<rparr>)"
    using Suc.IH [of ?s1 "Suc i"] Suc.prems by auto
  with step show ?case by (auto intro: path_cons)
qed

lemma load_copy_path:
  "sq_reader s = RCopy seq1 (take i (sq_data s)) h \<Longrightarrow> i + k = length (sq_data s) \<Longrightarrow>
   seqlock_path s (replicate k SeqTau) (s\<lparr> sq_reader := RCopy seq1 (sq_data s) h \<rparr>)"
proof (induction k arbitrary: s i)
  case 0
  then have "s\<lparr> sq_reader := RCopy seq1 (sq_data s) h \<rparr> = s" by simp
  then show ?case using path_nil [of s] by simp
next
  case (Suc k)
  let ?s1 = "s\<lparr> sq_reader := RCopy seq1 (take (Suc i) (sq_data s)) h \<rparr>"
  have "seqlock_step s SeqTau ?s1"
    using seqlock_step.load_copy [OF Suc.prems(1)] Suc.prems(2) by (simp add: take_Suc_conv_app_nth)
  moreover have "seqlock_path ?s1 (replicate k SeqTau) (?s1\<lparr> sq_reader := RCopy seq1 (sq_data ?s1) h \<rparr>)"
    using Suc.prems(2) by (intro Suc.IH [of _ "Suc i"]) auto
  ultimately show ?case by (auto intro: path_cons)
qed

lemma seqlock_store_path:
  assumes "seqlock_inv n s" "sq_writer s = WIdle" "length val = n"
  shows "\<exists>s'. seqlock_path s (replicate (n + 1) SeqTau @ [Stored val]) s' \<and> sq_writer s' = WIdle \<and>
    sq_reader s' = sq_reader s \<and> sq_seq s' = sq_seq s + 2 \<and> sq_hist s' = sq_hist s @ [val]"
proof -
  let ?s1 = "s\<lparr> sq_seq := sq_seq s + 1, sq_writer := WCopy (sq_seq s) val 0 \<rparr>"
  have "seqlock_step s SeqTau ?s1"
    using assms by (intro seqlock_step.store_begin) (simp_all add: seqlock_inv_def writer_ok_def)
  moreover obtain d where "seqlock_path ?s1 (replicate n SeqTau)
      (?s1\<lparr> sq_data := d, sq_writer := WCopy (sq_seq s) val (length val) \<rparr>)" (is "seqlock_path _ _ ?s2")
    using store_copy_path [of ?s1 "sq_seq s" val 0 n] assms(3) by auto
  moreover have "seqlock_path ?s2 [Stored val]
      (?s2\<lparr> sq_seq := sq_seq s + 2, sq_writer := WIdle, sq_hist := sq_hist ?s2 @ [val] \<rparr>)" (is "seqlock_path _ _ ?s3")
    by (rule path_cons [OF seqlock_step.store_end path_nil]) simp_all
  ultimately have "seqlock_path s (SeqTau # replicate n SeqTau @ [Stored val]) ?s3"
    by (rule path_cons [OF _ seqlock_path_append])
  then show ?thesis by (intro exI [of _ ?s3]) simp
qed

lemma seqlock_load_path:
  assumes "seqlock_inv n s" "sq_writer s = WIdle" "sq_reader s = RIdle"
  shows "seqlock_path s (replicate (n + 1) SeqTau @ [Loaded (last (sq_hist s))]) s"
proof -
  have d: "sq_data s = last (sq_hist s)" "length (sq_data s) = n" "even (uint (sq_seq s))"
    using assms by (simp_all add: seqlock_inv_def writer_ok_def)
  let ?s1 = "s\<lparr> sq_reader := RCopy (sq_seq s) [] (length (sq_hist s)) \<rparr>"
    and ?s2 = "s\<lparr> sq_reader := RCopy (sq_seq s) (sq_data s) (length (sq_hist s)) \<rparr>"
  have "seqlock_step s SeqTau ?s1" using assms(3) d(3) by (rule seqlock_step.load_begin)
  moreover have "seqlock_path ?s1 (replicate n SeqTau) ?s2"
    using load_copy_path [of ?s1 "sq_seq s" 0 "length (sq_hist s)" n] d(2) by simp
  moreover have "seqlock_path ?s2 [Loaded (sq_data s)] (?s2\<lparr> sq_reader := RIdle \<rparr>)"
    by (rule path_cons [OF seqlock_step.load_end path_nil]) simp_all
  ultimately have "seqlock_path s (SeqTau # replicate n SeqTau @ [Loaded (sq_data s)]) (?s2\<lparr> sq_reader := RIdle \<rparr>)"
    by (rule path_cons [OF _ seqlock_path_append])
  moreover have "?s2\<lparr> sq_reader := RIdle \<rparr> = s" using assms(3) by simp
  ultimately show ?thesis by (simp add: d(1))
qed

text \<open>A store ends after one step per chunk and two for the sequence, whatever the reader is
  doing, and advances the version by two; a load that runs while no store is in progress ends after as
  many steps and returns the stored value.\<close>

theorem seqlock_operations_end:
  assumes "seqlock_reachable initial s" "sq_writer s = WIdle" "length val = length initial"
  shows "\<exists>s'. seqlock_path s (replicate (length initial + 1) SeqTau @ [Stored val]) s' \<and>
    seqlock_version s' = seqlock_version s + 2 \<and>
    (sq_reader s = RIdle \<longrightarrow>
       seqlock_path s' (replicate (length initial + 1) SeqTau @ [Loaded val]) s')"
proof -
  obtain s' where s': "seqlock_path s (replicate (length initial + 1) SeqTau @ [Stored val]) s'"
    "sq_writer s' = WIdle" "sq_reader s' = sq_reader s" "sq_seq s' = sq_seq s + 2" "sq_hist s' = sq_hist s @ [val]"
    using seqlock_store_path [OF seqlock_reachable_inv [OF assms(1)] assms(2,3)] by blast
  have "seqlock_inv (length initial) s'"
    using seqlock_path_reachable [OF s'(1) assms(1)] by (rule seqlock_reachable_inv)
  with seqlock_load_path [of "length initial" s'] s' show ?thesis
    by (intro exI [of _ s']) (simp add: seqlock_version_def)
qed

section \<open>Witnesses\<close>

definition two_chunks :: "nat SeqLock" where
  "two_chunks = (seqlock_new [1, 2])\<lparr> sq_reader := RCopy 0 [1, 2] 1 \<rparr>"

lemma two_chunks_reachable: "seqlock_reachable [1, 2] two_chunks"
proof -
  let ?s = "seqlock_new [1, 2 :: nat]"
  let ?s1 = "?s\<lparr> sq_reader := RCopy (sq_seq ?s) [] (length (sq_hist ?s)) \<rparr>"
  have "seqlock_step ?s SeqTau ?s1"
    by (rule seqlock_step.load_begin) (simp_all add: seqlock_new_def)
  then have r: "seqlock_reachable [1, 2] ?s1" by (rule seqlock_reachable.step [OF seqlock_reachable.init])
  have "seqlock_path ?s1 (replicate 2 SeqTau) (?s1\<lparr> sq_reader := RCopy 0 (sq_data ?s1) 1 \<rparr>)"
    by (rule load_copy_path [of ?s1 0 0 1 2]) (simp_all add: seqlock_new_def)
  moreover have "?s1\<lparr> sq_reader := RCopy 0 (sq_data ?s1) 1 \<rparr> = two_chunks"
    by (simp add: two_chunks_def seqlock_new_def)
  ultimately show ?thesis using seqlock_path_reachable [OF _ r] by simp
qed

theorem seqlock_load_consistent_witness:
  "seqlock_step two_chunks (Loaded [1, 2]) (two_chunks\<lparr> sq_reader := RIdle \<rparr>) \<and>
   [1, 2] = last (sq_hist two_chunks)"
proof -
  have "seqlock_step two_chunks (Loaded [1, 2]) (two_chunks\<lparr> sq_reader := RIdle \<rparr>)"
    by (rule seqlock_step.load_end) (simp_all add: two_chunks_def seqlock_new_def)
  with seqlock_load_consistent [OF two_chunks_reachable _ this, of 0 "[1, 2]" 1] show ?thesis
    by (simp add: two_chunks_def seqlock_new_def)
qed

theorem seqlock_operations_end_witness:
  "\<exists>s'. seqlock_path (seqlock_new [1, 2 :: nat]) (replicate 3 SeqTau @ [Stored [3, 4]]) s' \<and>
     seqlock_version s' = 2 \<and> seqlock_path s' (replicate 3 SeqTau @ [Loaded [3, 4]]) s'"
  using seqlock_operations_end [OF seqlock_reachable.init, of "[1, 2 :: nat]" "[3, 4]"]
  by (simp add: seqlock_new_def seqlock_version_def numeral_3_eq_3)

end
