(* ===== verification/Seq_Lock_Weak.thy ===== *)
theory Seq_Lock_Weak
  imports Seq_Lock
begin

text \<open>
  The sequence lock on a weak memory (\<open>crates/seqlock/src/raw/seqlock.rs\<close>), with the orderings the source asks for. Every location,
  the sequence and each chunk of the value, has the history of its values; a thread has a view, how far into each
  history it must have read, and a value carries the view a reader of it gains. A \<open>Release\<close> store attaches the whole view
  of the writer and an \<open>Acquire\<close> load adds it to the reader's; a plain copy of a chunk attaches nothing but itself, and
  what it carries is gained only at the next acquire barrier. On x86-64 all stores become visible in order
  and loads happen in order, so there every store is a release, every load an acquire, and the barrier of the source is
  one for the compiler only.

  The flag \<open>fenced\<close> adds a release fence between the first store of the sequence and the copy. The source has none, and
  its comment says that the ordering of that store makes it visible before the copy; a release store orders what comes
  before it. The theorems say what follows: on x86-64 a load returns a stored value, on arm64 it can return a mixture, and
  with the fence it cannot.
\<close>

section \<open>Memory\<close>

datatype arch = X86 | Arm64

datatype loc = Seq | Chunk nat

type_synonym view = "loc \<Rightarrow> nat"

record 'v wmsg =
  wm_value :: 'v
  wm_view :: view

definition only :: "loc \<Rightarrow> nat \<Rightarrow> view" where
  "only l k = (\<lambda>_. 0)(l := k)"

text \<open>The second component of the reader's states is the index at which it read the sequence; the program has the value only.\<close>

datatype 'c weak_reader = LIdle | LCopy u64 nat "'c list" | LCheck u64 nat "'c list"

record 'c WeakLock =
  wk_seq_log :: "u64 wmsg list"
  wk_data_log :: "'c wmsg list list"
  wk_writer :: "'c writer_pc"
  wk_wview :: view
  wk_wrel :: view
  wk_reader :: "'c weak_reader"
  wk_rview :: view
  wk_racq :: view
  wk_hist :: "'c list list"

definition weak_new :: "'c list \<Rightarrow> 'c WeakLock" where
  "weak_new initial = \<lparr> wk_seq_log = [\<lparr> wm_value = 0, wm_view = (\<lambda>_. 0) \<rparr>],
     wk_data_log = map (\<lambda>c. [\<lparr> wm_value = c, wm_view = (\<lambda>_. 0) \<rparr>]) initial,
     wk_writer = WIdle, wk_wview = (\<lambda>_. 0), wk_wrel = (\<lambda>_. 0), wk_reader = LIdle, wk_rview = (\<lambda>_. 0), wk_racq = (\<lambda>_. 0),
     wk_hist = [initial] \<rparr>"

section \<open>Accesses\<close>

definition seq_store_release :: "u64 \<Rightarrow> 'c WeakLock \<Rightarrow> 'c WeakLock" where
  "seq_store_release v s =
     (let view = (wk_wview s)(Seq := length (wk_seq_log s))
      in s\<lparr> wk_seq_log := wk_seq_log s @ [\<lparr> wm_value = v, wm_view = view \<rparr>], wk_wview := view \<rparr>)"

definition chunk_store :: "arch \<Rightarrow> nat \<Rightarrow> 'c \<Rightarrow> 'c WeakLock \<Rightarrow> 'c WeakLock" where
  "chunk_store a i c s =
     (let idx = length (wk_data_log s ! i);
          view = (wk_wview s)(Chunk i := idx);
          carried = (if a = X86 then view else sup (wk_wrel s) (only (Chunk i) idx))
      in s\<lparr> wk_data_log := (wk_data_log s)[i := wk_data_log s ! i @ [\<lparr> wm_value = c, wm_view = carried \<rparr>]], wk_wview := view \<rparr>)"

definition release_fence :: "'c WeakLock \<Rightarrow> 'c WeakLock" where
  "release_fence s = s\<lparr> wk_wrel := wk_wview s \<rparr>"

text \<open>A load at index \<open>k\<close>, and what it adds to the reader's view.\<close>

definition load_acquire :: "loc \<Rightarrow> nat \<Rightarrow> view \<Rightarrow> 'c WeakLock \<Rightarrow> 'c WeakLock" where
  "load_acquire l k carried s = s\<lparr> wk_rview := sup (sup (wk_rview s) carried) (only l k) \<rparr>"

definition load_plain :: "arch \<Rightarrow> loc \<Rightarrow> nat \<Rightarrow> view \<Rightarrow> 'c WeakLock \<Rightarrow> 'c WeakLock" where
  "load_plain a l k carried s =
     (if a = X86 then load_acquire l k carried s
      else s\<lparr> wk_rview := sup (wk_rview s) (only l k), wk_racq := sup (wk_racq s) carried \<rparr>)"

definition seqlock_read_barrier :: "arch \<Rightarrow> 'c WeakLock \<Rightarrow> 'c WeakLock" where
  "seqlock_read_barrier a s = (if a = X86 then s else s\<lparr> wk_rview := sup (wk_rview s) (wk_racq s) \<rparr>)"

section \<open>Steps\<close>

inductive weak_step :: "arch \<Rightarrow> bool \<Rightarrow> 'c WeakLock \<Rightarrow> 'c seq_label \<Rightarrow> 'c WeakLock \<Rightarrow> bool" for a fenced where
  store_begin:
    "wk_writer s = WIdle \<Longrightarrow> length val = length (wk_data_log s) \<Longrightarrow> seq = wm_value (last (wk_seq_log s)) \<Longrightarrow>
     s1 = seq_store_release (seq + 1) s \<Longrightarrow> s2 = (if fenced then release_fence s1 else s1) \<Longrightarrow>
     weak_step a fenced s SeqTau (s2\<lparr> wk_writer := WCopy seq val 0 \<rparr>)"
| store_copy:
    "wk_writer s = WCopy seq val i \<Longrightarrow> i < length val \<Longrightarrow>
     weak_step a fenced s SeqTau ((chunk_store a i (val ! i) s)\<lparr> wk_writer := WCopy seq val (Suc i) \<rparr>)"
| store_end:
    "wk_writer s = WCopy seq val i \<Longrightarrow> i = length val \<Longrightarrow>
     weak_step a fenced s (Stored val)
       ((seq_store_release (seq + 2) s)\<lparr> wk_writer := WIdle, wk_hist := wk_hist s @ [val] \<rparr>)"
| load_begin:
    "wk_reader s = LIdle \<Longrightarrow> wk_rview s Seq \<le> k \<Longrightarrow> k < length (wk_seq_log s) \<Longrightarrow> m = wk_seq_log s ! k \<Longrightarrow>
     weak_step a fenced s SeqTau ((load_acquire Seq k (wm_view m) s)\<lparr> wk_reader :=
       (if wm_value m AND 1 \<noteq> 0 then LIdle else LCopy (wm_value m) k []) \<rparr>)"
| load_copy:
    "wk_reader s = LCopy seq1 h buf \<Longrightarrow> i = length buf \<Longrightarrow> i < length (wk_data_log s) \<Longrightarrow>
     wk_rview s (Chunk i) \<le> k \<Longrightarrow> k < length (wk_data_log s ! i) \<Longrightarrow> m = wk_data_log s ! i ! k \<Longrightarrow>
     weak_step a fenced s SeqTau ((load_plain a (Chunk i) k (wm_view m) s)\<lparr> wk_reader := LCopy seq1 h (buf @ [wm_value m]) \<rparr>)"
| load_barrier:
    "wk_reader s = LCopy seq1 h buf \<Longrightarrow> length buf = length (wk_data_log s) \<Longrightarrow>
     weak_step a fenced s SeqTau ((seqlock_read_barrier a s)\<lparr> wk_reader := LCheck seq1 h buf \<rparr>)"
| load_end:
    "wk_reader s = LCheck seq1 h buf \<Longrightarrow> wk_rview s Seq \<le> k \<Longrightarrow> k < length (wk_seq_log s) \<Longrightarrow> m = wk_seq_log s ! k \<Longrightarrow>
     weak_step a fenced s (if wm_value m = seq1 then Loaded buf else SeqTau)
       ((load_plain a Seq k (wm_view m) s)\<lparr> wk_reader := LIdle \<rparr>)"

inductive weak_reachable :: "arch \<Rightarrow> bool \<Rightarrow> 'c list \<Rightarrow> 'c WeakLock \<Rightarrow> bool" for a fenced initial where
  init: "weak_reachable a fenced initial (weak_new initial)"
| step: "weak_reachable a fenced initial s \<Longrightarrow> weak_step a fenced s l s' \<Longrightarrow> weak_reachable a fenced initial s'"

section \<open>Invariant\<close>

text \<open>The values stored or being stored, and how many of them have reached chunk \<open>i\<close>.\<close>

definition values_of :: "'c WeakLock \<Rightarrow> 'c list list" where
  "values_of s = wk_hist s @ (case wk_writer s of WIdle \<Rightarrow> [] | WCopy seq val i \<Rightarrow> [val])"

definition written :: "'c WeakLock \<Rightarrow> nat \<Rightarrow> nat" where
  "written s i = length (wk_hist s) + (case wk_writer s of WIdle \<Rightarrow> 0 | WCopy seq val p \<Rightarrow> if i < p then 1 else 0)"

text \<open>The sequence at index \<open>k\<close> is \<open>k\<close>, and who acquires it has seen \<open>k div 2\<close> values of every chunk.\<close>

definition seq_ok :: "nat \<Rightarrow> u64 wmsg list \<Rightarrow> bool" where
  "seq_ok n log \<longleftrightarrow> (\<forall>k < length log. wm_value (log ! k) = word_of_nat k \<and> (\<forall>i < n. k div 2 \<le> wm_view (log ! k) (Chunk i)))"

text \<open>The \<open>j\<close>-th value of chunk \<open>i\<close>; it carries the sequence number that announced it.\<close>

definition chunk_ok :: "'c WeakLock \<Rightarrow> nat \<Rightarrow> bool" where
  "chunk_ok s i \<longleftrightarrow> length (wk_data_log s ! i) = written s i \<and>
     (\<forall>j < written s i. wm_value (wk_data_log s ! i ! j) = values_of s ! j ! i \<and>
        (0 < j \<longrightarrow> 2 * j - 1 \<le> wm_view (wk_data_log s ! i ! j) Seq))"

definition writer_inv :: "arch \<Rightarrow> bool \<Rightarrow> nat \<Rightarrow> 'c WeakLock \<Rightarrow> bool" where
  "writer_inv a fenced n s \<longleftrightarrow> wk_hist s \<noteq> [] \<and> (\<forall>v \<in> set (values_of s). length v = n) \<and> length (wk_data_log s) = n \<and>
     length (wk_seq_log s) = length (wk_hist s) + length (values_of s) - 1 \<and> length (wk_seq_log s) - 1 \<le> wk_wview s Seq \<and>
     (case wk_writer s of
       WIdle \<Rightarrow> True
     | WCopy seq val p \<Rightarrow> p \<le> n \<and> seq = word_of_nat (2 * (length (wk_hist s) - 1)) \<and>
         (a = X86 \<or> length (wk_seq_log s) - 1 \<le> wk_wrel s Seq)) \<and>
     (\<forall>i < n. written s i - 1 \<le> wk_wview s (Chunk i))"

definition mem_inv :: "arch \<Rightarrow> bool \<Rightarrow> nat \<Rightarrow> 'c WeakLock \<Rightarrow> bool" where
  "mem_inv a fenced n s \<longleftrightarrow> writer_inv a fenced n s \<and> seq_ok n (wk_seq_log s) \<and> (\<forall>i < n. chunk_ok s i)"

text \<open>What the reader has copied: values not older than its sequence number, and a newer one has put a later sequence number
  into the view it will have at the check.\<close>

definition chunk_src :: "nat \<Rightarrow> view \<Rightarrow> 'c WeakLock \<Rightarrow> nat \<Rightarrow> 'c \<Rightarrow> bool" where
  "chunk_src h view s i c \<longleftrightarrow> (\<exists>j. h div 2 \<le> j \<and> j < written s i \<and> c = values_of s ! j ! i \<and>
     (h div 2 < j \<longrightarrow> 2 * j - 1 \<le> view Seq))"

definition copied_ok :: "nat \<Rightarrow> nat \<Rightarrow> 'c list \<Rightarrow> view \<Rightarrow> 'c WeakLock \<Rightarrow> bool" where
  "copied_ok n h buf view s \<longleftrightarrow> length buf \<le> n \<and> (\<forall>i < length buf. chunk_src h view s i (buf ! i))"

definition check_view :: "arch \<Rightarrow> 'c WeakLock \<Rightarrow> view" where
  "check_view a s = (if a = X86 then wk_rview s else sup (wk_rview s) (wk_racq s))"

definition read_inv :: "arch \<Rightarrow> nat \<Rightarrow> 'c WeakLock \<Rightarrow> bool" where
  "read_inv a n s = (case wk_reader s of
      LIdle \<Rightarrow> True
    | LCopy seq1 h buf \<Rightarrow> even h \<and> h < length (wk_seq_log s) \<and> seq1 = word_of_nat h \<and> (\<forall>i < n. h div 2 \<le> wk_rview s (Chunk i)) \<and>
        copied_ok n h buf (check_view a s) s
    | LCheck seq1 h buf \<Rightarrow> even h \<and> h < length (wk_seq_log s) \<and> seq1 = word_of_nat h \<and> length buf = n \<and>
        copied_ok n h buf (wk_rview s) s)"

lemma mem_inv_new: "mem_inv a fenced (length initial) (weak_new initial)"
  by (simp add: mem_inv_def writer_inv_def seq_ok_def chunk_ok_def weak_new_def values_of_def written_def)

text \<open>Steps of the writer.\<close>

lemma store_begin_inv:
  assumes inv: "mem_inv a fenced n s" and ordered: "a = X86 \<or> fenced" and "wk_writer s = WIdle" "length val = n"
  defines "seq \<equiv> wm_value (last (wk_seq_log s))"
  defines "s1 \<equiv> seq_store_release (seq + 1) s"
  defines "s' \<equiv> (if fenced then release_fence s1 else s1)\<lparr> wk_writer := WCopy seq val 0 \<rparr>"
  shows "mem_inv a fenced n s'"
proof -
  let ?H = "length (wk_hist s)"
  have W: "wk_hist s \<noteq> []" "\<forall>v \<in> set (wk_hist s). length v = n" "length (wk_data_log s) = n"
    "length (wk_seq_log s) = 2 * ?H - 1" "\<forall>i < n. ?H - 1 \<le> wk_wview s (Chunk i)" "seq_ok n (wk_seq_log s)" "\<forall>i < n. chunk_ok s i"
    using inv assms(3) by (auto simp: mem_inv_def writer_inv_def values_of_def written_def)
  then obtain w where w: "?H = Suc w" by (cases "wk_hist s") simp_all
  have "seq = word_of_nat (2 * w)"
    using W(4,6) by (simp add: seq_def seq_ok_def last_conv_nth w flip: length_greater_0_conv)
  then have seq: "seq = word_of_nat (2 * w)" "seq + 1 = word_of_nat (Suc (2 * w))" by (simp_all add: add.commute)
  have fields: "wk_seq_log s' = wk_seq_log s @ [\<lparr> wm_value = seq + 1, wm_view = (wk_wview s)(Seq := length (wk_seq_log s)) \<rparr>]"
    "wk_wview s' = (wk_wview s)(Seq := length (wk_seq_log s))" "wk_writer s' = WCopy seq val 0" "wk_hist s' = wk_hist s"
    "wk_data_log s' = wk_data_log s" "fenced \<Longrightarrow> wk_wrel s' = wk_wview s'"
    by (simp_all add: s'_def s1_def seq_store_release_def release_fence_def Let_def)
  have vals: "values_of s = wk_hist s" "values_of s' = wk_hist s @ [val]" "written s = (\<lambda>_. ?H)" "written s' = (\<lambda>_. ?H)"
    using assms(3) by (auto simp: values_of_def written_def fields)
  have "seq_ok n (wk_seq_log s')"
    using W(4-6) seq(2) by (auto simp: seq_ok_def fields nth_append less_Suc_eq w)
  moreover have "chunk_ok s' i" if "i < n" for i
    using W(7) that by (simp add: chunk_ok_def vals fields nth_append)
  moreover have "writer_inv a fenced n s'"
    using W seq(1) ordered assms(4) by (auto simp: writer_inv_def vals fields w)
  ultimately show ?thesis by (simp add: mem_inv_def)
qed

lemma store_copy_inv:
  assumes inv: "mem_inv a fenced n s" and "wk_writer s = WCopy seq val p" "p < length val"
  defines "s' \<equiv> (chunk_store a p (val ! p) s)\<lparr> wk_writer := WCopy seq val (Suc p) \<rparr>"
  shows "mem_inv a fenced n s'"
proof -
  let ?H = "length (wk_hist s)" and ?idx = "length (wk_data_log s ! p)"
  have W: "writer_inv a fenced n s" "seq_ok n (wk_seq_log s)" "\<And>i. i < n \<Longrightarrow> chunk_ok s i" using inv by (auto simp: mem_inv_def)
  have n: "length val = n" "p < n" "length (wk_data_log s) = n" "wk_hist s \<noteq> []"
    using W(1) assms(2,3) by (auto simp: writer_inv_def values_of_def)
  have len: "length (wk_seq_log s) = 2 * ?H" "2 * ?H - 1 \<le> wk_wview s Seq" "a \<noteq> X86 \<Longrightarrow> 2 * ?H - 1 \<le> wk_wrel s Seq"
    using W(1) assms(2) by (auto simp: writer_inv_def values_of_def)
  let ?carried = "if a = X86 then (wk_wview s)(Chunk p := ?idx) else sup (wk_wrel s) (only (Chunk p) ?idx)"
  have fields: "wk_seq_log s' = wk_seq_log s" "wk_hist s' = wk_hist s" "wk_writer s' = WCopy seq val (Suc p)" "wk_wrel s' = wk_wrel s"
    "wk_wview s' = (wk_wview s)(Chunk p := ?idx)"
    "wk_data_log s' = (wk_data_log s)[p := wk_data_log s ! p @ [\<lparr> wm_value = val ! p, wm_view = ?carried \<rparr>]]"
    by (simp_all add: s'_def chunk_store_def Let_def)
  have vals: "values_of s' = values_of s" "values_of s ! ?H = val" "written s p = ?H" "written s' p = Suc ?H"
    using assms(2) by (simp_all add: values_of_def written_def fields nth_append)
  have other: "written s' i = written s i" if "i \<noteq> p" for i using that assms(2) by (auto simp: written_def fields)
  have idx: "?idx = ?H" using W(3) [OF n(2)] by (simp add: chunk_ok_def vals)
  have "2 * ?H - 1 \<le> ?carried Seq" using len(2,3) by (auto simp: only_def intro: le_supI1)
  then have "chunk_ok s' p"
    using W(3) [OF n(2)] n vals idx by (simp add: chunk_ok_def fields nth_append less_Suc_eq)
  moreover have "chunk_ok s' i" if "i < n" "i \<noteq> p" for i
    using W(3) [OF that(1)] that by (simp add: chunk_ok_def vals other fields)
  moreover have "written s' i - 1 \<le> wk_wview s' (Chunk i)" if "i < n" for i
    using W(1) that idx vals(4) other [of i] by (cases "i = p") (simp_all add: fields writer_inv_def)
  then have "writer_inv a fenced n s'"
    using W(1) n assms(2) len by (auto simp: writer_inv_def vals fields)
  ultimately show ?thesis using W(2) by (auto simp: mem_inv_def fields)
qed

lemma store_end_inv:
  assumes inv: "mem_inv a fenced n s" and "wk_writer s = WCopy seq val p" "p = length val"
  defines "s' \<equiv> (seq_store_release (seq + 2) s)\<lparr> wk_writer := WIdle, wk_hist := wk_hist s @ [val] \<rparr>"
  shows "mem_inv a fenced n s'"
proof -
  let ?H = "length (wk_hist s)"
  have W: "writer_inv a fenced n s" "seq_ok n (wk_seq_log s)" "\<And>i. i < n \<Longrightarrow> chunk_ok s i" using inv by (auto simp: mem_inv_def)
  have n: "length val = n" "wk_hist s \<noteq> []" "length (wk_seq_log s) = 2 * ?H" "seq = word_of_nat (2 * (?H - 1))"
    using W(1) assms(2) by (auto simp: writer_inv_def values_of_def)
  have "2 * ?H = 2 * (?H - 1) + 2" using n(2) by (cases "wk_hist s") simp_all
  then have seq: "seq + 2 = word_of_nat (2 * ?H)" unfolding n(4) by (metis of_nat_add of_nat_numeral)
  have fields: "wk_seq_log s' = wk_seq_log s @ [\<lparr> wm_value = seq + 2, wm_view = (wk_wview s)(Seq := length (wk_seq_log s)) \<rparr>]"
    "wk_wview s' = (wk_wview s)(Seq := length (wk_seq_log s))" "wk_writer s' = WIdle" "wk_hist s' = wk_hist s @ [val]"
    "wk_data_log s' = wk_data_log s"
    by (simp_all add: s'_def seq_store_release_def Let_def)
  have vals: "values_of s' = values_of s" "values_of s = wk_hist s @ [val]" "\<And>i. i < n \<Longrightarrow> written s i = Suc ?H" "written s' = (\<lambda>_. Suc ?H)"
    using assms(2,3) n(1) by (auto simp: values_of_def written_def fields)
  have chunks: "?H \<le> wk_wview s (Chunk i)" if "i < n" for i using W(1) that vals(3) by (auto simp: writer_inv_def)
  have "seq_ok n (wk_seq_log s')"
    using W(2) n(3) seq chunks by (auto simp: seq_ok_def fields nth_append less_Suc_eq)
  moreover have "chunk_ok s' i" if "i < n" for i
    using W(3) [OF that] that by (simp add: chunk_ok_def vals fields)
  moreover have "writer_inv a fenced n s'"
    using W(1) n chunks by (auto simp: writer_inv_def vals fields)
  ultimately show ?thesis by (simp add: mem_inv_def)
qed

text \<open>What the writer does leaves the reader's knowledge true.\<close>

lemma written_le: "written s i \<le> length (values_of s)"
  by (simp add: written_def values_of_def split: writer_pc.split)

lemma chunk_src_mono:
  assumes "chunk_src h view s i c" "view Seq \<le> view' Seq" "\<And>i. written s i \<le> written s' i"
    and "\<And>j. j < length (values_of s) \<Longrightarrow> values_of s' ! j = values_of s ! j"
  shows "chunk_src h view' s' i c"
proof -
  obtain j where j: "h div 2 \<le> j" "j < written s i" "c = values_of s ! j ! i" "h div 2 < j \<longrightarrow> 2 * j - 1 \<le> view Seq"
    using assms(1) by (auto simp: chunk_src_def)
  have "j < length (values_of s)" using j(2) written_le [of s i] by simp
  then show ?thesis
    unfolding chunk_src_def using j assms(2,3) assms(4) [of j] by (intro exI [of _ j]) (auto intro: less_le_trans le_trans)
qed

lemma read_inv_extend:
  assumes "read_inv a n s" "wk_reader s' = wk_reader s" "wk_rview s' = wk_rview s" "wk_racq s' = wk_racq s"
    and "length (wk_seq_log s) \<le> length (wk_seq_log s')" "\<And>i. written s i \<le> written s' i"
    and "\<And>j. j < length (values_of s) \<Longrightarrow> values_of s' ! j = values_of s ! j"
  shows "read_inv a n s'"
proof -
  have "copied_ok n h buf view s'" if "copied_ok n h buf view s" for h buf view
    using that chunk_src_mono [where s = s and s' = s' and view = view and view' = view, OF _ order_refl assms(6,7)]
    by (simp add: copied_ok_def)
  moreover have "check_view a s' = check_view a s" by (simp add: check_view_def assms)
  ultimately show ?thesis
    using assms(1,2,3,5) by (auto simp: read_inv_def split: weak_reader.splits)
qed

lemma sees_fields [simp]:
  "written (s\<lparr> wk_reader := r \<rparr>) = written s" "values_of (s\<lparr> wk_reader := r \<rparr>) = values_of s"
  "written (s\<lparr> wk_rview := v \<rparr>) = written s" "values_of (s\<lparr> wk_rview := v \<rparr>) = values_of s"
  "written (s\<lparr> wk_racq := v \<rparr>) = written s" "values_of (s\<lparr> wk_racq := v \<rparr>) = values_of s"
  by (simp_all add: written_def values_of_def fun_eq_iff)

lemma mem_inv_fields [simp]:
  "mem_inv a fenced n (s\<lparr> wk_rview := v \<rparr>) = mem_inv a fenced n s" "mem_inv a fenced n (s\<lparr> wk_racq := v \<rparr>) = mem_inv a fenced n s"
  "mem_inv a fenced n (s\<lparr> wk_reader := r \<rparr>) = mem_inv a fenced n s"
  by (simp_all add: mem_inv_def writer_inv_def chunk_ok_def split: writer_pc.split)

lemma check_view_reader [simp]: "check_view a (s\<lparr> wk_reader := r \<rparr>) = check_view a s"
  by (simp add: check_view_def)

lemma chunk_src_fields [simp]:
  "chunk_src h view (s\<lparr> wk_reader := r \<rparr>) = chunk_src h view s" "chunk_src h view (s\<lparr> wk_rview := v \<rparr>) = chunk_src h view s"
  "chunk_src h view (s\<lparr> wk_racq := v \<rparr>) = chunk_src h view s"
  by (simp_all add: chunk_src_def fun_eq_iff)

lemma mem_inv_reader:
  "mem_inv a fenced n (load_acquire l k v s) = mem_inv a fenced n s" "mem_inv a fenced n (load_plain a' l k v s) = mem_inv a fenced n s"
  "mem_inv a fenced n (seqlock_read_barrier a' s) = mem_inv a fenced n s"
  by (simp_all add: load_acquire_def load_plain_def seqlock_read_barrier_def)

lemma even_of_mask: "(word_of_nat h :: u64) AND 1 = 0 \<Longrightarrow> even h"
  by (simp add: and_one_eq mod_2_eq_odd)

lemma load_begin_inv:
  assumes inv: "mem_inv a fenced n s" and k: "k < length (wk_seq_log s)" "m = wk_seq_log s ! k"
  shows "read_inv a n ((load_acquire Seq k (wm_view m) s)\<lparr> wk_reader :=
    (if wm_value m AND 1 \<noteq> 0 then LIdle else LCopy (wm_value m) k []) \<rparr>)"
proof -
  have "wm_value m = word_of_nat k" "\<forall>i < n. k div 2 \<le> wm_view m (Chunk i)"
    using inv k by (auto simp: mem_inv_def seq_ok_def)
  then show ?thesis
    using k(1) even_of_mask [of k] by (auto simp: read_inv_def copied_ok_def load_acquire_def intro: le_supI1 le_supI2)
qed

lemma load_copy_inv:
  assumes inv: "mem_inv a fenced n s" "read_inv a n s" and r: "wk_reader s = LCopy seq1 h buf" "length buf < n"
    and k: "wk_rview s (Chunk (length buf)) \<le> k" "k < length (wk_data_log s ! length buf)" "m = wk_data_log s ! length buf ! k"
  shows "read_inv a n ((load_plain a (Chunk (length buf)) k (wm_view m) s)\<lparr> wk_reader := LCopy seq1 h (buf @ [wm_value m]) \<rparr>)"
proof -
  let ?i = "length buf"
  let ?s = "load_plain a (Chunk ?i) k (wm_view m) s"
  have R: "even h" "h < length (wk_seq_log s)" "seq1 = word_of_nat h" "\<forall>i < n. h div 2 \<le> wk_rview s (Chunk i)"
    "\<And>i. i < length buf \<Longrightarrow> chunk_src h (check_view a s) s i (buf ! i)" using inv(2) r(1) by (simp_all add: read_inv_def copied_ok_def)
  have chunk: "k < written s ?i" "wm_value m = values_of s ! k ! ?i" "0 < k \<longrightarrow> 2 * k - 1 \<le> wm_view m Seq"
    using inv(1) r(2) k(2,3) by (auto simp: mem_inv_def chunk_ok_def)
  have up: "check_view a s Seq \<le> check_view a ?s Seq" "wm_view m Seq \<le> check_view a ?s Seq" "wk_rview s l \<le> wk_rview ?s l" for l
    by (auto simp: check_view_def load_plain_def load_acquire_def intro: le_supI1 le_supI2 sup.coboundedI1 sup.coboundedI2)
  have "h div 2 \<le> k" using R(4) r(2) k(1) by (meson le_trans)
  then have "chunk_src h (check_view a ?s) s ?i (wm_value m)"
    unfolding chunk_src_def using chunk up(2) by (intro exI [of _ k]) (auto intro: le_trans)
  moreover have "chunk_src h (check_view a ?s) s i (buf ! i)" if "i < ?i" for i
    using R(5) [OF that] up(1) by (rule chunk_src_mono) simp_all
  ultimately have "\<forall>i < Suc ?i. chunk_src h (check_view a ?s) s i ((buf @ [wm_value m]) ! i)"
    by (simp add: nth_append less_Suc_eq)
  moreover have "wk_seq_log ?s = wk_seq_log s" "chunk_src h v ?s = chunk_src h v s" for v
    by (simp_all add: load_plain_def load_acquire_def)
  moreover have "\<forall>i < n. h div 2 \<le> wk_rview ?s (Chunk i)" using R(4) up(3) by (meson le_trans)
  ultimately show ?thesis
    using R(1-3) r(2) by (simp add: read_inv_def copied_ok_def)
qed

lemma load_barrier_inv:
  assumes "read_inv a n s" "wk_reader s = LCopy seq1 h buf" "length buf = n"
  shows "read_inv a n ((seqlock_read_barrier a s)\<lparr> wk_reader := LCheck seq1 h buf \<rparr>)"
  using assms by (auto simp: read_inv_def copied_ok_def check_view_def seqlock_read_barrier_def)

lemma weak_step_inv:
  assumes "weak_step a fenced s l s'" "a = X86 \<or> fenced" "mem_inv a fenced n s" "read_inv a n s"
  shows "mem_inv a fenced n s' \<and> read_inv a n s'"
  using assms(1)
proof cases
  case (store_begin val seq s1 s2)
  have "length (wk_data_log s) = n" using assms(3) by (simp add: mem_inv_def writer_inv_def)
  then have "mem_inv a fenced n s'"
    using store_begin_inv [OF assms(3,2) store_begin(3), of val] store_begin by (cases fenced) simp_all
  moreover have "read_inv a n s'"
    using store_begin by (intro read_inv_extend [OF assms(4)])
      (simp_all add: seq_store_release_def release_fence_def Let_def written_def values_of_def nth_append)
  ultimately show ?thesis ..
next
  case (store_copy seq val i)
  have "mem_inv a fenced n s'" using store_copy_inv [OF assms(3)] store_copy by simp
  moreover have "read_inv a n s'"
    using store_copy by (intro read_inv_extend [OF assms(4)]) (simp_all add: chunk_store_def Let_def written_def values_of_def)
  ultimately show ?thesis ..
next
  case (store_end seq val i)
  have "mem_inv a fenced n s'" using store_end_inv [OF assms(3)] store_end by simp
  moreover have "read_inv a n s'"
    using store_end by (intro read_inv_extend [OF assms(4)]) (simp_all add: seq_store_release_def Let_def written_def values_of_def)
  ultimately show ?thesis ..
next
  case (load_begin k m)
  then show ?thesis using load_begin_inv [OF assms(3), of k m] assms(3) by (simp add: mem_inv_reader)
next
  case (load_copy seq1 h buf i k m)
  have "length (wk_data_log s) = n" using assms(3) by (simp add: mem_inv_def writer_inv_def)
  then show ?thesis using load_copy_inv [OF assms(3,4), of seq1 h buf k m] load_copy assms(3) by (simp add: mem_inv_reader)
next
  case (load_barrier seq1 h buf)
  have "length (wk_data_log s) = n" using assms(3) by (simp add: mem_inv_def writer_inv_def)
  then show ?thesis using load_barrier_inv [OF assms(4)] load_barrier assms(3) by (simp add: mem_inv_reader)
next
  case (load_end seq1 h buf k m)
  then show ?thesis using assms(3) by (simp add: mem_inv_reader read_inv_def)
qed

lemma weak_reachable_inv:
  assumes "weak_reachable a fenced initial s" "a = X86 \<or> fenced"
  shows "mem_inv a fenced (length initial) s \<and> read_inv a (length initial) s"
  using assms(1)
proof induction
  case init
  show ?case using mem_inv_new by (auto simp: read_inv_def weak_new_def)
next
  case (step s l s')
  then show ?case using weak_step_inv [OF step.hyps(2) assms(2)] by blast
qed

lemma weak_load:
  assumes inv: "mem_inv a fenced n s" "read_inv a n s" and r: "wk_reader s = LCheck seq1 h val"
    and k: "wk_rview s Seq \<le> k" "k < length (wk_seq_log s)" "wm_value (wk_seq_log s ! k) = seq1" "length (wk_seq_log s) \<le> 2 ^ 64"
  shows "\<exists>j < length (wk_hist s). k = 2 * j \<and> val = wk_hist s ! j"
proof -
  have R: "even h" "h < length (wk_seq_log s)" "seq1 = word_of_nat h" "length val = n"
    "\<And>i. i < n \<Longrightarrow> chunk_src h (wk_rview s) s i (val ! i)" using inv(2) r by (auto simp: read_inv_def copied_ok_def)
  have "word_of_nat k = (word_of_nat h :: u64)" using inv(1) k(2,3) R(3) by (auto simp: mem_inv_def seq_ok_def)
  then have "k mod 2 ^ 64 = h mod 2 ^ 64" by (simp add: word_of_nat_eq_iff take_bit_eq_mod)
  then have kh: "k = h" using k(2,4) R(2) by simp
  have len: "length (wk_seq_log s) \<le> 2 * length (wk_hist s)"
    using inv(1) by (auto simp: mem_inv_def writer_inv_def values_of_def split: writer_pc.splits)
  obtain j where j: "h = 2 * j" using R(1) by blast
  then have J: "j < length (wk_hist s)" using R(2) len by simp
  have "val ! i = wk_hist s ! j ! i" if i: "i < n" for i
  proof -
    obtain j' where j': "j \<le> j'" "val ! i = values_of s ! j' ! i" "j < j' \<longrightarrow> 2 * j' - 1 \<le> wk_rview s Seq"
      using R(5) [OF i] j by (auto simp: chunk_src_def)
    have "j' = j" using j'(1,3) k(1) kh j by (cases "j < j'") auto
    then show ?thesis using j'(2) J by (simp add: values_of_def nth_append)
  qed
  moreover have "length (wk_hist s ! j) = n"
    using inv(1) J by (auto simp: mem_inv_def writer_inv_def values_of_def)
  ultimately have "val = wk_hist s ! j" using R(4) by (intro nth_equalityI) simp_all
  then show ?thesis using J kh j by auto
qed

section \<open>Properties\<close>

text \<open>C15. On x86-64 the sequence lock is right with the orderings the source asks for, although loads may return old values: a
  load returns a value that was stored, whole, and none older than what the reader has seen before. With a
  release fence after the first store of the sequence it is right on arm64 as well. (The sequence counter must not wrap
  around during the run.)\<close>

theorem seqlock_weak_consistent:
  assumes "a = X86 \<or> fenced" "weak_reachable a fenced initial s" "weak_step a fenced s (Loaded val) s'"
    and "length (wk_hist s) < 2 ^ 63"
  shows "\<exists>j < length (wk_hist s). val = wk_hist s ! j \<and> wk_rview s Seq \<le> 2 * j \<and> 2 * j \<le> wk_rview s' Seq"
  using assms(3)
proof cases
  case (load_end seq1 h buf k m)
  have "buf = val" "wm_value m = seq1" using load_end(1) by (simp_all split: if_splits)
  note inv = weak_reachable_inv [OF assms(2,1)]
  have "length (wk_seq_log s) \<le> 2 * length (wk_hist s)"
    using inv by (auto simp: mem_inv_def writer_inv_def values_of_def split: writer_pc.splits)
  then have "length (wk_seq_log s) \<le> 2 ^ 64" using assms(4) by simp
  then obtain j where j: "j < length (wk_hist s)" "k = 2 * j" "val = wk_hist s ! j"
    using weak_load [of a fenced _ s seq1 h buf k] inv load_end \<open>buf = val\<close> \<open>wm_value m = seq1\<close> by blast
  moreover have "k \<le> wk_rview s' Seq"
    unfolding load_end(2) by (simp add: load_plain_def load_acquire_def only_def)
  ultimately show ?thesis using load_end(4) by auto
qed

text \<open>A load of the initial value.\<close>

theorem seqlock_weak_consistent_witness:
  "\<exists>s s'. weak_reachable X86 False [7 :: nat] s \<and> weak_step X86 False s (Loaded [7]) s' \<and> (\<exists>j < length (wk_hist s). [7] = wk_hist s ! j)"
proof -
  let ?R = "weak_reachable X86 False [7 :: nat]"
  let ?s = "\<lambda>r. (weak_new [7 :: nat])\<lparr> wk_reader := r \<rparr>"
  note run = weak_reachable.step [where a = X86 and fenced = False and initial = "[7 :: nat]"]
  note calc = weak_new_def load_acquire_def load_plain_def seqlock_read_barrier_def only_def sup_fun_def sup_nat_def fun_upd_def
  have 0: "?R (weak_new [7])" by (rule weak_reachable.init)
  have 1: "?R (?s (LCopy 0 0 []))"
    using run [OF 0 weak_step.load_begin [where k = 0, OF _ _ _ refl]] by (simp add: calc)
  have 2: "?R (?s (LCopy 0 0 [7]))"
    using run [OF 1 weak_step.load_copy [where k = 0, OF _ refl _ _ _ refl]] by (simp add: calc)
  have 3: "?R (?s (LCheck 0 0 [7]))"
    using run [OF 2 weak_step.load_barrier] by (simp add: calc)
  obtain s' where 4: "weak_step X86 False (?s (LCheck 0 0 [7])) (Loaded [7]) s'"
    using weak_step.load_end [where k = 0 and a = X86 and fenced = False, OF _ _ _ refl, of "?s (LCheck 0 0 [7])" 0 0 "[7]"]
    by (auto simp: weak_new_def)
  have "length (wk_hist (?s (LCheck 0 0 [7]))) < 2 ^ 63" by (simp add: weak_new_def)
  from seqlock_weak_consistent [OF _ 3 4 this] 3 4 show ?thesis by blast
qed

text \<open>C16. On arm64, as written, a load can return a value that was never stored. The comment in \<open>store\<close> says that the release
  ordering of the first store makes the odd sequence number visible before the copy; it orders what comes before it, so
  a chunk of the new value can be visible while the sequence number still looks even and unchanged. Here the first store
  of \<open>[b, b]\<close> over \<open>[a, a]\<close> has copied one chunk, and a load returns \<open>[b, a]\<close>.\<close>

theorem seqlock_torn_on_arm64:
  "\<exists>s s'. weak_reachable Arm64 False [a, a] s \<and> weak_step Arm64 False s (Loaded [b, a]) s' \<and>
    wk_hist s = [[a, a]] \<and> wk_writer s = WCopy 0 [b, b] 1"
proof -
  let ?R = "weak_reachable Arm64 False [a, a]" and ?z = "(\<lambda>_. 0) :: view"
  let ?s = "\<lambda>sl dl w wv r rv ra. \<lparr> wk_seq_log = sl, wk_data_log = dl, wk_writer = w, wk_wview = wv, wk_wrel = ?z, wk_reader = r,
    wk_rview = rv, wk_racq = ra, wk_hist = [[a, a]] \<rparr>"
  let ?m0 = "\<lparr> wm_value = 0, wm_view = ?z \<rparr> :: u64 wmsg" and ?v1 = "?z(Seq := 1)"
  let ?m1 = "\<lparr> wm_value = 1, wm_view = ?v1 \<rparr> :: u64 wmsg"
  let ?a = "\<lparr> wm_value = a, wm_view = ?z \<rparr>" and ?b = "\<lparr> wm_value = b, wm_view = only (Chunk 0) 1 \<rparr>"
  note run = weak_reachable.step [where a = Arm64 and fenced = False and initial = "[a, a]"]
  note calc = weak_new_def seq_store_release_def chunk_store_def load_acquire_def load_plain_def seqlock_read_barrier_def only_def
    sup_fun_def fun_upd_def sup_nat_def fun_eq_iff Let_def
  have 0: "?R (weak_new [a, a])" by (rule weak_reachable.init)
  have 1: "?R (?s [?m0, ?m1] [[?a], [?a]] (WCopy 0 [b, b] 0) ?v1 LIdle ?z ?z)"
    using run [OF 0 weak_step.store_begin [where val = "[b, b]", OF _ _ refl refl refl]] by (simp add: calc)
  have 2: "?R (?s [?m0, ?m1] [[?a, ?b], [?a]] (WCopy 0 [b, b] 1) (?v1(Chunk 0 := 1)) LIdle ?z ?z)"
    using run [OF 1 weak_step.store_copy] by (simp add: calc)
  have 3: "?R (?s [?m0, ?m1] [[?a, ?b], [?a]] (WCopy 0 [b, b] 1) (?v1(Chunk 0 := 1)) (LCopy 0 0 []) ?z ?z)"
    using run [OF 2 weak_step.load_begin [where k = 0, OF _ _ _ refl]] by (simp add: calc)
  have 4: "?R (?s [?m0, ?m1] [[?a, ?b], [?a]] (WCopy 0 [b, b] 1) (?v1(Chunk 0 := 1)) (LCopy 0 0 [b])
      (only (Chunk 0) 1) (only (Chunk 0) 1))"
    using run [OF 3 weak_step.load_copy [where k = 1, OF _ refl _ _ _ refl]] by (simp add: calc)
  have 5: "?R (?s [?m0, ?m1] [[?a, ?b], [?a]] (WCopy 0 [b, b] 1) (?v1(Chunk 0 := 1)) (LCopy 0 0 [b, a])
      (only (Chunk 0) 1) (only (Chunk 0) 1))"
    using run [OF 4 weak_step.load_copy [where k = 0, OF _ refl _ _ _ refl]] by (simp add: calc)
  have 6: "?R (?s [?m0, ?m1] [[?a, ?b], [?a]] (WCopy 0 [b, b] 1) (?v1(Chunk 0 := 1)) (LCheck 0 0 [b, a])
      (only (Chunk 0) 1) (only (Chunk 0) 1))"
    using run [OF 5 weak_step.load_barrier] by (simp add: calc)
  show ?thesis
    using 6 weak_step.load_end [where k = 0 and a = Arm64 and fenced = False, OF _ _ _ refl,
      of "?s [?m0, ?m1] [[?a, ?b], [?a]] (WCopy 0 [b, b] 1) (?v1(Chunk 0 := 1)) (LCheck 0 0 [b, a]) (only (Chunk 0) 1) (only (Chunk 0) 1)"
        0 0 "[b, a]"]
    by (fastforce simp: only_def)
qed

end
