(* ===== verification/Registry.thy ===== *)
theory Registry
  imports Fixed_Parse Domain_Types
begin

text \<open>
  The instrument registry (\<open>crates/registry/src\<close>): stable instrument ids, and the reverse indices
  from logical keys, Binance symbols and Polymarket token ids that the decoders resolve through. A
  \<open>HashMap\<close> is a partial function. The invariant \<open>registry_ok\<close> says that each index is exactly
  the inverse of what the records hold, the token index of the windows that binding calls put there: the source does
  not index the windows that an insertion brings along.
\<close>

section \<open>Keys, bindings and records\<close>

datatype InstrumentClass = Spot | Perp | PredictionBinary | OracleReference
datatype Asset = Btc | Eth | Sol | Xrp | Doge | Usdt | Usdc | Usd
datatype Timeframe = M5 | M15 | M60 | H4
datatype OutcomeSide = Up | Down | Yes | No

record InstrumentKey =
  key_class :: InstrumentClass
  key_base :: Asset
  key_quote :: "Asset option"
  key_timeframe :: "Timeframe option"
  key_outcome :: "OutcomeSide option"

definition key_prediction :: "Asset \<Rightarrow> Timeframe \<Rightarrow> OutcomeSide \<Rightarrow> InstrumentKey" where
  "key_prediction base timeframe outcome = \<lparr> key_class = PredictionBinary, key_base = base,
     key_quote = Some Usdc, key_timeframe = Some timeframe, key_outcome = Some outcome \<rparr>"

definition key_spot_reference :: "Asset \<Rightarrow> Asset \<Rightarrow> InstrumentKey" where
  "key_spot_reference base quote = \<lparr> key_class = OracleReference, key_base = base,
     key_quote = Some quote, key_timeframe = None, key_outcome = None \<rparr>"

text \<open>The derived \<open>Debug\<close> texts, in upper case for assets.\<close>

definition asset_upper :: "Asset \<Rightarrow> string" where
  "asset_upper a = (case a of Btc \<Rightarrow> ''BTC'' | Eth \<Rightarrow> ''ETH'' | Sol \<Rightarrow> ''SOL'' | Xrp \<Rightarrow> ''XRP''
     | Doge \<Rightarrow> ''DOGE'' | Usdt \<Rightarrow> ''USDT'' | Usdc \<Rightarrow> ''USDC'' | Usd \<Rightarrow> ''USD'')"

definition timeframe_debug :: "Timeframe \<Rightarrow> string" where
  "timeframe_debug t = (case t of M5 \<Rightarrow> ''M5'' | M15 \<Rightarrow> ''M15'' | M60 \<Rightarrow> ''M60'' | H4 \<Rightarrow> ''H4'')"

definition outcome_debug :: "OutcomeSide \<Rightarrow> string" where
  "outcome_debug s = (case s of Up \<Rightarrow> ''Up'' | Down \<Rightarrow> ''Down'' | Yes \<Rightarrow> ''Yes'' | No \<Rightarrow> ''No'')"

fun join_dash :: "string list \<Rightarrow> string" where
  "join_dash [] = ''''"
| "join_dash [s] = s"
| "join_dash (s # ss) = s @ ''-'' @ join_dash ss"

definition key_symbol :: "InstrumentKey \<Rightarrow> string" where
  "key_symbol self = join_dash
     ([asset_upper (key_base self)] @
      (case key_timeframe self of Some tf \<Rightarrow> [timeframe_debug tf] | None \<Rightarrow> []) @
      (case key_outcome self of Some oc \<Rightarrow> [outcome_debug oc] | None \<Rightarrow> []) @
      (if key_class self = OracleReference
       then (case key_quote self of Some q \<Rightarrow> [asset_upper q] | None \<Rightarrow> []) @ [''Ref'']
       else []))"

record BinanceBinding =
  bn_symbol :: bytes

record PolymarketWindowBinding =
  pw_token_id :: bytes
  pw_market_slug :: bytes
  pw_window_start :: Timestamp
  pw_window_end :: Timestamp
  pw_condition_id :: "bytes option"

record PolymarketBinding =
  pm_current :: "PolymarketWindowBinding option"
  pm_next :: "PolymarketWindowBinding option"

definition polymarket_default :: PolymarketBinding where
  "polymarket_default = \<lparr> pm_current = None, pm_next = None \<rparr>"

record CanonicalInstrument =
  ci_instrument_id :: InstrumentId
  ci_key :: InstrumentKey
  ci_meta :: InstrumentMeta

record InstrumentRecord =
  ir_canonical :: CanonicalInstrument
  ir_binance :: "BinanceBinding option"
  ir_polymarket :: "PolymarketBinding option"

datatype RegistryError =
    DuplicateInstrumentId InstrumentId
  | DuplicateInstrumentKey
  | DuplicateBinanceSymbol bytes
  | DuplicatePolymarketTokenId bytes
  | MissingInstrument InstrumentId
  | MissingPolymarketBinding InstrumentId
  | NoNextWindow InstrumentId
  | IdSpaceExhausted

record InstrumentRegistry =
  rg_by_id :: "InstrumentId \<rightharpoonup> InstrumentRecord"
  rg_by_key :: "InstrumentKey \<rightharpoonup> InstrumentId"
  rg_by_binance :: "bytes \<rightharpoonup> InstrumentId"
  rg_by_token :: "bytes \<rightharpoonup> InstrumentId"
  rg_next_id :: u32

definition registry_new :: InstrumentRegistry where
  "registry_new = \<lparr> rg_by_id = Map.empty, rg_by_key = Map.empty, rg_by_binance = Map.empty,
     rg_by_token = Map.empty, rg_next_id = 1 \<rparr>"

section \<open>Lookups\<close>

definition registry_get :: "InstrumentId \<Rightarrow> InstrumentRegistry \<Rightarrow> InstrumentRecord option" where
  "registry_get iid self = rg_by_id self iid"

definition registry_meta :: "InstrumentId \<Rightarrow> InstrumentRegistry \<Rightarrow> InstrumentMeta option" where
  "registry_meta iid self = map_option (\<lambda>r. ci_meta (ir_canonical r)) (rg_by_id self iid)"

definition by_binance_symbol :: "bytes \<Rightarrow> InstrumentRegistry \<Rightarrow> InstrumentId option" where
  "by_binance_symbol symbol self = rg_by_binance self symbol"

definition by_polymarket_token_id :: "bytes \<Rightarrow> InstrumentRegistry \<Rightarrow> InstrumentId option" where
  "by_polymarket_token_id token_id self = rg_by_token self token_id"

definition by_key :: "InstrumentKey \<Rightarrow> InstrumentRegistry \<Rightarrow> InstrumentId option" where
  "by_key key self = rg_by_key self key"

text \<open>The order of the keys of a \<open>HashMap\<close> is unspecified: a set.\<close>

definition active_polymarket_token_ids :: "InstrumentRegistry \<Rightarrow> bytes set" where
  "active_polymarket_token_ids self = dom (rg_by_token self)"

definition registry_len :: "InstrumentRegistry \<Rightarrow> usize" where
  "registry_len self = card (dom (rg_by_id self))"

definition registry_is_empty :: "InstrumentRegistry \<Rightarrow> bool" where
  "registry_is_empty self \<longleftrightarrow> dom (rg_by_id self) = {}"

section \<open>Mutations\<close>

definition alloc_id :: "InstrumentRegistry \<Rightarrow> (RegistryError + InstrumentId) \<times> InstrumentRegistry" where
  "alloc_id self =
     (if rg_next_id self = 0 then (Inl IdSpaceExhausted, self)
      else (Inr (rg_next_id self), self\<lparr> rg_next_id := rg_next_id self + 1 \<rparr>))"

definition registry_insert :: "InstrumentKey \<Rightarrow> InstrumentMeta \<Rightarrow> BinanceBinding option \<Rightarrow>
    PolymarketBinding option \<Rightarrow> InstrumentRegistry \<Rightarrow> (RegistryError + InstrumentId) \<times> InstrumentRegistry" where
  "registry_insert key meta binance polymarket self =
     (if rg_by_key self key \<noteq> None then (Inl DuplicateInstrumentKey, self)
      else case alloc_id self of
        (Inl e, self) \<Rightarrow> (Inl e, self)
      | (Inr iid, self) \<Rightarrow>
          (case binance of
             Some bn \<Rightarrow> if rg_by_binance self (bn_symbol bn) \<noteq> None
               then (Inl (DuplicateBinanceSymbol (bn_symbol bn)), self)
               else (Inr iid, self\<lparr>
                 rg_by_binance := (rg_by_binance self)(bn_symbol bn \<mapsto> iid),
                 rg_by_key := (rg_by_key self)(key \<mapsto> iid),
                 rg_by_id := (rg_by_id self)(iid \<mapsto>
                   \<lparr> ir_canonical = \<lparr> ci_instrument_id = iid, ci_key = key, ci_meta = meta \<rparr>,
                     ir_binance = binance, ir_polymarket = polymarket \<rparr>) \<rparr>)
           | None \<Rightarrow> (Inr iid, self\<lparr>
               rg_by_key := (rg_by_key self)(key \<mapsto> iid),
               rg_by_id := (rg_by_id self)(iid \<mapsto>
                 \<lparr> ir_canonical = \<lparr> ci_instrument_id = iid, ci_key = key, ci_meta = meta \<rparr>,
                   ir_binance = binance, ir_polymarket = polymarket \<rparr>) \<rparr>)))"

definition insert_prediction_pair :: "Asset \<Rightarrow> Timeframe \<Rightarrow> InstrumentMeta \<Rightarrow> bytes option \<Rightarrow>
    InstrumentRegistry \<Rightarrow> (RegistryError + (InstrumentId \<times> InstrumentId)) \<times> InstrumentRegistry" where
  "insert_prediction_pair base timeframe meta binance_symbol self =
     (let up_key = key_prediction base timeframe Up; down_key = key_prediction base timeframe Down
      in if rg_by_key self up_key \<noteq> None \<or> rg_by_key self down_key \<noteq> None
         then (Inl DuplicateInstrumentKey, self)
         else case (case binance_symbol of None \<Rightarrow> None
                    | Some symb \<Rightarrow> if rg_by_binance self symb \<noteq> None then Some symb else None) of
           Some symb \<Rightarrow> (Inl (DuplicateBinanceSymbol symb), self)
         | None \<Rightarrow>
        (case registry_insert up_key meta (map_option (\<lambda>s. \<lparr> bn_symbol = s \<rparr>) binance_symbol)
                     (Some polymarket_default) self of
           (Inl e, self) \<Rightarrow> (Inl e, self)
         | (Inr up_id, self) \<Rightarrow>
             (case registry_insert down_key meta None (Some polymarket_default) self of
                (Inl e, self) \<Rightarrow> (Inl e, self)
              | (Inr down_id, self) \<Rightarrow> (Inr (up_id, down_id), self))))"

text \<open>The two checks every Polymarket operation starts with.\<close>

definition polymarket_of :: "InstrumentId \<Rightarrow> InstrumentRegistry \<Rightarrow>
    RegistryError + (InstrumentRecord \<times> PolymarketBinding)" where
  "polymarket_of iid self = (case rg_by_id self iid of
       None \<Rightarrow> Inl (MissingInstrument iid)
     | Some r \<Rightarrow> (case ir_polymarket r of
         None \<Rightarrow> Inl (MissingPolymarketBinding iid) | Some pm \<Rightarrow> Inr (r, pm)))"

definition set_polymarket :: "InstrumentId \<Rightarrow> InstrumentRecord \<Rightarrow> PolymarketBinding \<Rightarrow>
    InstrumentRegistry \<Rightarrow> InstrumentRegistry" where
  "set_polymarket iid r pm self =
     self\<lparr> rg_by_id := (rg_by_id self)(iid \<mapsto> r\<lparr> ir_polymarket := Some pm \<rparr>) \<rparr>"

definition remove_token :: "PolymarketWindowBinding option \<Rightarrow> (bytes \<rightharpoonup> InstrumentId) \<Rightarrow> (bytes \<rightharpoonup> InstrumentId)" where
  "remove_token w m = (case w of Some old \<Rightarrow> m(pw_token_id old := None) | None \<Rightarrow> m)"

definition bind_polymarket_current :: "InstrumentId \<Rightarrow> PolymarketWindowBinding \<Rightarrow> InstrumentRegistry \<Rightarrow>
    (RegistryError + unit) \<times> InstrumentRegistry" where
  "bind_polymarket_current iid binding self = (case polymarket_of iid self of
       Inl e \<Rightarrow> (Inl e, self)
     | Inr (r, pm) \<Rightarrow>
         (Inr (), set_polymarket iid r (pm\<lparr> pm_current := Some binding \<rparr>) (self\<lparr> rg_by_token :=
            (remove_token (pm_current pm) (rg_by_token self))(pw_token_id binding \<mapsto> iid) \<rparr>)))"

definition bind_polymarket_next :: "InstrumentId \<Rightarrow> PolymarketWindowBinding \<Rightarrow> InstrumentRegistry \<Rightarrow>
    (RegistryError + unit) \<times> InstrumentRegistry" where
  "bind_polymarket_next iid binding self = (case polymarket_of iid self of
       Inl e \<Rightarrow> (Inl e, self)
     | Inr (r, pm) \<Rightarrow>
         (Inr (), set_polymarket iid r (pm\<lparr> pm_next := Some binding \<rparr>) (self\<lparr> rg_by_token :=
            (remove_token (pm_next pm) (rg_by_token self))(pw_token_id binding \<mapsto> iid) \<rparr>)))"

definition promote_polymarket_next :: "InstrumentId \<Rightarrow> InstrumentRegistry \<Rightarrow>
    (RegistryError + unit) \<times> InstrumentRegistry" where
  "promote_polymarket_next iid self = (case polymarket_of iid self of
       Inl e \<Rightarrow> (Inl e, self)
     | Inr (r, pm) \<Rightarrow> (case pm_next pm of
         None \<Rightarrow> (Inl (NoNextWindow iid), self)
       | Some next \<Rightarrow>
           (Inr (), set_polymarket iid r (pm\<lparr> pm_next := None, pm_current := Some next \<rparr>)
              (self\<lparr> rg_by_token := remove_token (pm_current pm) (rg_by_token self) \<rparr>))))"

definition unbind_polymarket :: "InstrumentId \<Rightarrow> InstrumentRegistry \<Rightarrow>
    (RegistryError + unit) \<times> InstrumentRegistry" where
  "unbind_polymarket iid self = (case polymarket_of iid self of
       Inl e \<Rightarrow> (Inl e, self)
     | Inr (r, pm) \<Rightarrow>
         (Inr (), set_polymarket iid r (pm\<lparr> pm_current := None, pm_next := None \<rparr>) (self\<lparr> rg_by_token :=
            remove_token (pm_next pm) (remove_token (pm_current pm) (rg_by_token self)) \<rparr>)))"

section \<open>The indices invert the records\<close>

text \<open>The places of an instrument that hold a window.\<close>

datatype window_slot = Current | Next

definition window_at :: "InstrumentRegistry \<Rightarrow> InstrumentId \<Rightarrow> window_slot \<Rightarrow> PolymarketWindowBinding option" where
  "window_at self iid slot = (case rg_by_id self iid of
       None \<Rightarrow> None
     | Some r \<Rightarrow> (case ir_polymarket r of
         None \<Rightarrow> None | Some pm \<Rightarrow> (case slot of Current \<Rightarrow> pm_current pm | Next \<Rightarrow> pm_next pm)))"

definition token_at :: "InstrumentRegistry \<Rightarrow> InstrumentId \<Rightarrow> window_slot \<Rightarrow> bytes option" where
  "token_at self iid slot = map_option pw_token_id (window_at self iid slot)"

text \<open>The places whose window was put there by a binding call, or promoted from such a place. The window of a
  binding that comes with an insertion is in the record but not in this table.\<close>

type_synonym bound_places = "InstrumentId \<Rightarrow> window_slot \<Rightarrow> bool"

text \<open>An index of tokens is the inverse of the bound places of a table of tokens without repetitions.\<close>

definition index_of :: "(bytes \<rightharpoonup> InstrumentId) \<Rightarrow> bound_places \<Rightarrow> (InstrumentId \<Rightarrow> window_slot \<Rightarrow> bytes option) \<Rightarrow> bool" where
  "index_of m bd tk \<longleftrightarrow>
     (\<forall>t i. m t = Some i \<longleftrightarrow> (\<exists>slot. tk i slot = Some t \<and> bd i slot)) \<and>
     (\<forall>t i s j s'. tk i s = Some t \<and> tk j s' = Some t \<longrightarrow> i = j \<and> s = s')"

definition tokens_ok :: "bound_places \<Rightarrow> InstrumentRegistry \<Rightarrow> bool" where
  "tokens_ok bd self \<longleftrightarrow> index_of (rg_by_token self) bd (token_at self)"

definition identities_ok :: "InstrumentRegistry \<Rightarrow> bool" where
  "identities_ok self \<longleftrightarrow>
     (\<forall>iid r. rg_by_id self iid = Some r \<longrightarrow> ci_instrument_id (ir_canonical r) = iid \<and>
        iid \<noteq> InstrumentId_NONE \<and> (rg_next_id self = 0 \<or> iid < rg_next_id self)) \<and>
     (\<forall>key iid. rg_by_key self key = Some iid \<longleftrightarrow>
        (\<exists>r. rg_by_id self iid = Some r \<and> ci_key (ir_canonical r) = key)) \<and>
     (\<forall>s iid. rg_by_binance self s = Some iid \<longleftrightarrow>
        (\<exists>r bn. rg_by_id self iid = Some r \<and> ir_binance r = Some bn \<and> bn_symbol bn = s))"

definition registry_ok :: "bound_places \<Rightarrow> InstrumentRegistry \<Rightarrow> bool" where
  "registry_ok bd self \<longleftrightarrow> identities_ok self \<and> tokens_ok bd self"

lemma index_ofD:
  assumes "index_of m bd tk"
  shows "m t = Some i \<longleftrightarrow> (\<exists>slot. tk i slot = Some t \<and> bd i slot)"
    and "tk i s = Some t \<Longrightarrow> tk j s' = Some t \<Longrightarrow> i = j \<and> s = s'"
  using assms unfolding index_of_def by blast+

lemma index_ofI:
  assumes "\<And>t i. m t = Some i \<longleftrightarrow> (\<exists>slot. tk i slot = Some t \<and> bd i slot)"
    and "\<And>t i s j s'. tk i s = Some t \<Longrightarrow> tk j s' = Some t \<Longrightarrow> i = j \<and> s = s'"
  shows "index_of m bd tk"
  using assms unfolding index_of_def by blast

text \<open>Emptying a place: its token leaves the index, if it was there.\<close>

lemma index_of_remove:
  assumes "index_of m bd tk"
  shows "index_of (case tk i s of Some t \<Rightarrow> m(t := None) | None \<Rightarrow> m) (bd(i := (bd i)(s := x))) (tk(i := (tk i)(s := None)))"
proof (cases "tk i s")
  case (Some u)
  have m: "(m(u := None)) t = Some j \<longleftrightarrow>
      (\<exists>slot. (tk(i := (tk i)(s := None))) j slot = Some t \<and> (bd(i := (bd i)(s := x))) j slot)" for t j
  proof
    assume "(m(u := None)) t = Some j"
    then obtain slot where "tk j slot = Some t" "bd j slot" "t \<noteq> u"
      using index_ofD(1) [OF assms] by (auto split: if_splits)
    with Some show "\<exists>slot. (tk(i := (tk i)(s := None))) j slot = Some t \<and> (bd(i := (bd i)(s := x))) j slot"
      by (intro exI [of _ slot]) auto
  next
    assume "\<exists>slot. (tk(i := (tk i)(s := None))) j slot = Some t \<and> (bd(i := (bd i)(s := x))) j slot"
    then obtain slot where "tk j slot = Some t" "bd j slot" "\<not> (j = i \<and> slot = s)" by (auto split: if_splits)
    moreover from this have "t \<noteq> u" using index_ofD(2) [OF assms _ Some] by blast
    ultimately show "(m(u := None)) t = Some j" using index_ofD(1) [OF assms] by auto
  qed
  moreover have "j = k \<and> sj = sk" if "(tk(i := (tk i)(s := None))) j sj = Some t"
    "(tk(i := (tk i)(s := None))) k sk = Some t" for t j k sj sk
    using that index_ofD(2) [OF assms] by (auto split: if_splits)
  ultimately show ?thesis unfolding index_of_def Some option.case by blast
next
  case None
  then have "tk(i := (tk i)(s := None)) = tk" by (auto simp: fun_eq_iff)
  moreover have "tk j slot = Some t \<and> (bd(i := (bd i)(s := x))) j slot \<longleftrightarrow> tk j slot = Some t \<and> bd j slot" for j slot t
    using None by auto
  ultimately show ?thesis using None assms by (simp add: index_of_def)
qed

lemma index_of_add:
  assumes "index_of m bd tk" "tk i s = None" "\<And>j slot. tk j slot \<noteq> Some t"
  shows "index_of (m(t \<mapsto> i)) (bd(i := (bd i)(s := True))) (tk(i := (tk i)(s := Some t)))"
proof -
  have m: "(m(t \<mapsto> i)) u = Some j \<longleftrightarrow>
      (\<exists>slot. (tk(i := (tk i)(s := Some t))) j slot = Some u \<and> (bd(i := (bd i)(s := True))) j slot)" for u j
  proof
    assume *: "(m(t \<mapsto> i)) u = Some j"
    show "\<exists>slot. (tk(i := (tk i)(s := Some t))) j slot = Some u \<and> (bd(i := (bd i)(s := True))) j slot"
    proof (cases "u = t")
      case True
      with * show ?thesis by (intro exI [of _ s]) auto
    next
      case False
      with * obtain slot where "tk j slot = Some u" "bd j slot" using index_ofD(1) [OF assms(1)] by auto
      with assms(2) show ?thesis by (intro exI [of _ slot]) auto
    qed
  next
    assume "\<exists>slot. (tk(i := (tk i)(s := Some t))) j slot = Some u \<and> (bd(i := (bd i)(s := True))) j slot"
    then consider "j = i" "u = t" | slot where "tk j slot = Some u" "bd j slot" by (auto split: if_splits)
    then show "(m(t \<mapsto> i)) u = Some j"
      using assms(3) index_ofD(1) [OF assms(1)] by cases auto
  qed
  moreover have "j = k \<and> sj = sk" if "(tk(i := (tk i)(s := Some t))) j sj = Some u"
    "(tk(i := (tk i)(s := Some t))) k sk = Some u" for u j k sj sk
    using that assms(3) index_ofD(2) [OF assms(1)] by (auto split: if_splits)
  ultimately show ?thesis unfolding index_of_def by blast
qed

text \<open>Moving a token between the places of one instrument does not change the index.\<close>

lemma index_of_move:
  assumes "index_of m bd tk" "tk i s' = None" "s \<noteq> s'"
  shows "index_of m (bd(i := (bd i)(s := False, s' := bd i s))) (tk(i := (tk i)(s := None, s' := tk i s)))"
proof (rule index_ofI)
  let ?tk = "tk(i := (tk i)(s := None, s' := tk i s))" and ?bd = "bd(i := (bd i)(s := False, s' := bd i s))"
  have place: "tk l (if l = i \<and> u = s' then s else u) = Some t" "\<not> (l = i \<and> u = s)" if "?tk l u = Some t" for t l u
    using that assms(3) by (auto split: if_splits)
  show "j = k \<and> sj = sk" if "?tk j sj = Some t" "?tk k sk = Some t" for t j k sj sk
    using index_ofD(2) [OF assms(1) place(1) [OF that(1)] place(1) [OF that(2)]] place(2) [OF that(1)] place(2) [OF that(2)]
    by (simp split: if_splits)
  show "m t = Some j \<longleftrightarrow> (\<exists>slot. ?tk j slot = Some t \<and> ?bd j slot)" for t j
    unfolding index_ofD(1) [OF assms(1)]
  proof
    assume "\<exists>slot. tk j slot = Some t \<and> bd j slot"
    then obtain slot where "tk j slot = Some t" "bd j slot" by blast
    with assms(2,3) show "\<exists>slot. ?tk j slot = Some t \<and> ?bd j slot"
      by (intro exI [of _ "if j = i \<and> slot = s then s' else slot"]) auto
  next
    assume "\<exists>slot. ?tk j slot = Some t \<and> ?bd j slot"
    then obtain slot where a: "?tk j slot = Some t" "?bd j slot" by blast
    then have "bd j (if j = i \<and> slot = s' then s else slot)" using assms(3) by (auto split: if_splits)
    with place(1) [OF a(1)] show "\<exists>slot. tk j slot = Some t \<and> bd j slot" by blast
  qed
qed

text \<open>A new instrument whose windows are in no other place, and not in the index.\<close>

lemma index_of_insert:
  assumes "index_of m bd tk" "\<And>slot. tk i slot = None"
    and "\<And>t s s'. new s = Some t \<Longrightarrow> new s' = Some t \<Longrightarrow> s = s'" "\<And>t s j s'. new s = Some t \<Longrightarrow> tk j s' \<noteq> Some t"
  shows "index_of m (bd(i := (\<lambda>_. False))) (tk(i := new))"
proof (rule index_ofI)
  show "m t = Some j \<longleftrightarrow> (\<exists>slot. (tk(i := new)) j slot = Some t \<and> (bd(i := (\<lambda>_. False))) j slot)" for t j
    unfolding index_ofD(1) [OF assms(1)] using assms(2) by (cases "j = i") auto
  show "j = k \<and> sj = sk" if "(tk(i := new)) j sj = Some t" "(tk(i := new)) k sk = Some t" for t j k sj sk
    using that assms(3) [of sj t sk] assms(4) [of sj t k sk] assms(4) [of sk t j sj] index_ofD(2) [OF assms(1), of j sj t k sk]
    by (cases "j = i"; cases "k = i") simp_all
qed

lemma polymarket_of_Inr:
  "polymarket_of iid self = Inr (r, pm) \<longleftrightarrow> rg_by_id self iid = Some r \<and> ir_polymarket r = Some pm"
  by (auto simp: polymarket_of_def split: option.splits)

definition pm_slot :: "PolymarketBinding \<Rightarrow> window_slot \<Rightarrow> bytes option" where
  "pm_slot pm slot = map_option pw_token_id (case slot of Current \<Rightarrow> pm_current pm | Next \<Rightarrow> pm_next pm)"

lemma token_at_pm: "polymarket_of iid self = Inr (r, pm) \<Longrightarrow> token_at self iid = pm_slot pm"
  by (auto simp: token_at_def window_at_def pm_slot_def polymarket_of_Inr fun_eq_iff)

lemma token_at_set:
  "token_at (set_polymarket iid r pm (self\<lparr> rg_by_token := m \<rparr>)) = (token_at self)(iid := pm_slot pm)"
  by (auto simp: token_at_def window_at_def pm_slot_def set_polymarket_def fun_eq_iff)

lemma remove_token_pm:
  "remove_token (pm_current pm) m = (case pm_slot pm Current of Some t \<Rightarrow> m(t := None) | None \<Rightarrow> m)"
  "remove_token (pm_next pm) m = (case pm_slot pm Next of Some t \<Rightarrow> m(t := None) | None \<Rightarrow> m)"
  by (auto simp: remove_token_def pm_slot_def split: option.splits)

lemma pm_slot_update [simp]:
  "pm_slot (pm\<lparr> pm_current := w \<rparr>) = (pm_slot pm)(Current := map_option pw_token_id w)"
  "pm_slot (pm\<lparr> pm_next := w \<rparr>) = (pm_slot pm)(Next := map_option pw_token_id w)"
  by (auto simp: pm_slot_def fun_eq_iff split: window_slot.splits)

lemma pm_slot_default [simp]: "pm_slot polymarket_default = (\<lambda>_. None)"
  by (auto simp: pm_slot_def polymarket_default_def fun_eq_iff split: window_slot.split)

lemma slots_cleared: "f(Current := x, Next := x) = (\<lambda>_. x)" "f(Next := x, Current := x) = (\<lambda>_. x)"
  by (auto simp: fun_eq_iff) (metis window_slot.exhaust)+

lemma clear_then_move: "f(Current := x, Next := x, Current := y) = f(Next := x, Current := y)"
  by (auto simp: fun_eq_iff)

lemma set_polymarket_identities:
  assumes "polymarket_of iid self = Inr (r, pm)" "identities_ok self"
  shows "identities_ok (set_polymarket iid r pm' (self\<lparr> rg_by_token := m \<rparr>))"
  using assms unfolding identities_ok_def set_polymarket_def polymarket_of_Inr by auto

section \<open>Every operation keeps the invariant\<close>

definition token_free :: "bytes \<Rightarrow> InstrumentId \<Rightarrow> window_slot \<Rightarrow> InstrumentRegistry \<Rightarrow> bool" where
  "token_free t iid slot self \<longleftrightarrow> (\<forall>j s. token_at self j s = Some t \<longrightarrow> j = iid \<and> s = slot)"

text \<open>Rebinding one place of an instrument.\<close>

lemma rebind_ok:
  assumes "registry_ok bd self" "polymarket_of iid self = Inr (r, pm)" "token_free t iid slot self"
    and "pm_slot pm' = (pm_slot pm)(slot := Some t)"
  shows "registry_ok (bd(iid := (bd iid)(slot := True))) (set_polymarket iid r pm' (self\<lparr> rg_by_token :=
     (case pm_slot pm slot of Some u \<Rightarrow> (rg_by_token self)(u := None) | None \<Rightarrow> rg_by_token self)(t \<mapsto> iid) \<rparr>))"
proof -
  define tk where "tk = token_at self"
  define m where "m = (case tk iid slot of Some u \<Rightarrow> (rg_by_token self)(u := None) | None \<Rightarrow> rg_by_token self)"
  define tk1 where "tk1 = tk(iid := (tk iid)(slot := None))"
  let ?bd = "bd(iid := (bd iid)(slot := True))"
  have tk: "tk iid = pm_slot pm" using token_at_pm [OF assms(2)] by (simp add: tk_def)
  have "index_of m ?bd tk1"
    using index_of_remove [of "rg_by_token self" bd tk iid slot True] assms(1)
    by (simp add: registry_ok_def tokens_ok_def m_def tk1_def tk_def)
  moreover have "tk1 j s \<noteq> Some t" for j s using assms(3) by (auto simp: tk1_def token_free_def tk_def split: if_splits)
  ultimately have "index_of (m(t \<mapsto> iid)) (?bd(iid := (?bd iid)(slot := True))) (tk1(iid := (tk1 iid)(slot := Some t)))"
    by (intro index_of_add) (simp_all add: tk1_def)
  moreover have "tk1(iid := (tk1 iid)(slot := Some t)) = tk(iid := pm_slot pm')"
    by (simp add: tk1_def tk assms(4))
  ultimately have "index_of (m(t \<mapsto> iid)) ?bd (tk(iid := pm_slot pm'))" by simp
  then have "tokens_ok ?bd (set_polymarket iid r pm' (self\<lparr> rg_by_token := m(t \<mapsto> iid) \<rparr>))"
    by (simp only: tokens_ok_def token_at_set tk_def) (simp add: set_polymarket_def)
  with set_polymarket_identities [OF assms(2)] assms(1) show ?thesis
    by (simp add: registry_ok_def m_def tk)
qed

text \<open>What a call makes of the bound places.\<close>

datatype registry_cmd =
    Insert InstrumentKey InstrumentMeta "BinanceBinding option" "PolymarketBinding option"
  | InsertPair Asset Timeframe InstrumentMeta "bytes option"
  | BindCurrent InstrumentId PolymarketWindowBinding
  | BindNext InstrumentId PolymarketWindowBinding
  | Promote InstrumentId
  | Unbind InstrumentId

fun bound_step :: "registry_cmd \<Rightarrow> InstrumentRegistry \<Rightarrow> bound_places \<Rightarrow> bound_places" where
  "bound_step (Insert key meta bn pm) self bd = (case fst (registry_insert key meta bn pm self) of
      Inr iid \<Rightarrow> bd(iid := (\<lambda>_. False)) | Inl _ \<Rightarrow> bd)"
| "bound_step (InsertPair base tf meta symb) self bd = bd"
| "bound_step (BindCurrent iid w) self bd = (case fst (bind_polymarket_current iid w self) of
      Inr _ \<Rightarrow> bd(iid := (bd iid)(Current := True)) | Inl _ \<Rightarrow> bd)"
| "bound_step (BindNext iid w) self bd = (case fst (bind_polymarket_next iid w self) of
      Inr _ \<Rightarrow> bd(iid := (bd iid)(Next := True)) | Inl _ \<Rightarrow> bd)"
| "bound_step (Promote iid) self bd = (case fst (promote_polymarket_next iid self) of
      Inr _ \<Rightarrow> bd(iid := (bd iid)(Next := False, Current := bd iid Next)) | Inl _ \<Rightarrow> bd)"
| "bound_step (Unbind iid) self bd = (case fst (unbind_polymarket iid self) of
      Inr _ \<Rightarrow> bd(iid := (\<lambda>_. False)) | Inl _ \<Rightarrow> bd)"

lemma bind_current_ok:
  assumes "registry_ok bd self" "token_free (pw_token_id w) iid Current self"
  shows "registry_ok (bound_step (BindCurrent iid w) self bd) (snd (bind_polymarket_current iid w self))"
  using rebind_ok [OF assms(1) _ assms(2)] assms(1)
  by (auto simp: bind_polymarket_current_def remove_token_pm split: sum.split)

lemma bind_next_ok:
  assumes "registry_ok bd self" "token_free (pw_token_id w) iid Next self"
  shows "registry_ok (bound_step (BindNext iid w) self bd) (snd (bind_polymarket_next iid w self))"
  using rebind_ok [OF assms(1) _ assms(2)] assms(1)
  by (auto simp: bind_polymarket_next_def remove_token_pm split: sum.split)

lemma promote_ok:
  assumes "registry_ok bd self"
  shows "registry_ok (bound_step (Promote iid) self bd) (snd (promote_polymarket_next iid self))"
proof (cases "\<exists>r pm n. polymarket_of iid self = Inr (r, pm) \<and> pm_next pm = Some n")
  case True
  then obtain r pm n where pm: "polymarket_of iid self = Inr (r, pm)" "pm_next pm = Some n" by blast
  define tk where "tk = token_at self"
  have tk: "tk iid = pm_slot pm" using token_at_pm [OF pm(1)] by (simp add: tk_def)
  define m where "m = remove_token (pm_current pm) (rg_by_token self)"
  define tk1 where "tk1 = tk(iid := (tk iid)(Current := None))"
  let ?bd = "bd(iid := (bd iid)(Next := False, Current := bd iid Next))"
  have "index_of m (bd(iid := (bd iid)(Current := False))) tk1"
    using index_of_remove [of "rg_by_token self" bd tk iid Current False] assms
    by (simp add: registry_ok_def tokens_ok_def m_def tk1_def tk remove_token_pm(1)) (simp add: tk_def)
  from index_of_move [OF this, of iid Current Next]
  have "index_of m ?bd (tk1(iid := (tk1 iid)(Next := None, Current := tk1 iid Next)))"
    by (simp add: tk1_def clear_then_move)
  moreover have "tk1(iid := (tk1 iid)(Next := None, Current := tk1 iid Next)) =
      tk(iid := pm_slot (pm\<lparr> pm_next := None, pm_current := Some n \<rparr>))"
    using pm(2) by (auto simp: tk1_def tk pm_slot_def fun_eq_iff split: window_slot.splits)
  ultimately have "tokens_ok ?bd (set_polymarket iid r (pm\<lparr> pm_next := None, pm_current := Some n \<rparr>)
      (self\<lparr> rg_by_token := m \<rparr>))"
    by (simp only: tokens_ok_def token_at_set tk_def) (simp add: set_polymarket_def)
  with set_polymarket_identities [OF pm(1)] assms pm show ?thesis
    by (simp add: registry_ok_def promote_polymarket_next_def m_def)
next
  case False
  with assms show ?thesis by (auto simp: promote_polymarket_next_def split: sum.splits option.splits)
qed

lemma unbind_ok:
  assumes "registry_ok bd self"
  shows "registry_ok (bound_step (Unbind iid) self bd) (snd (unbind_polymarket iid self))"
proof (cases "polymarket_of iid self")
  case (Inr rp)
  then obtain r pm where pm: "polymarket_of iid self = Inr (r, pm)" by (cases rp) auto
  define tk where "tk = token_at self"
  have tk: "tk iid = pm_slot pm" using token_at_pm [OF pm] by (simp add: tk_def)
  define tk1 where "tk1 = tk(iid := (tk iid)(Current := None))"
  define m where "m = remove_token (pm_current pm) (rg_by_token self)"
  have "index_of m (bd(iid := (bd iid)(Current := False))) tk1"
    using index_of_remove [of "rg_by_token self" bd tk iid Current False] assms
    by (simp add: registry_ok_def tokens_ok_def m_def tk1_def tk remove_token_pm(1)) (simp add: tk_def)
  from index_of_remove [OF this, of iid Next False]
  have "index_of (remove_token (pm_next pm) m) (bd(iid := (bd iid)(Current := False, Next := False)))
      (tk1(iid := (tk1 iid)(Next := None)))"
    by (simp add: tk1_def tk remove_token_pm(2))
  note this [unfolded slots_cleared]
  moreover have "tk1(iid := (tk1 iid)(Next := None)) = tk(iid := pm_slot (pm\<lparr> pm_current := None, pm_next := None \<rparr>))"
    by (simp add: tk1_def tk)
  ultimately have "tokens_ok (bd(iid := (\<lambda>_. False))) (set_polymarket iid r (pm\<lparr> pm_current := None, pm_next := None \<rparr>)
      (self\<lparr> rg_by_token := remove_token (pm_next pm) m \<rparr>))"
    by (simp only: tokens_ok_def token_at_set tk_def) (simp add: set_polymarket_def)
  with set_polymarket_identities [OF pm] assms pm show ?thesis
    by (simp add: registry_ok_def unbind_polymarket_def m_def)
qed (use assms in \<open>simp add: unbind_polymarket_def\<close>)

definition fresh_record :: "InstrumentId \<Rightarrow> InstrumentKey \<Rightarrow> InstrumentMeta \<Rightarrow> BinanceBinding option \<Rightarrow>
    PolymarketBinding option \<Rightarrow> InstrumentRecord" where
  "fresh_record iid key meta binance polymarket =
     \<lparr> ir_canonical = \<lparr> ci_instrument_id = iid, ci_key = key, ci_meta = meta \<rparr>,
       ir_binance = binance, ir_polymarket = polymarket \<rparr>"

definition after_insert :: "InstrumentKey \<Rightarrow> InstrumentMeta \<Rightarrow> BinanceBinding option \<Rightarrow> PolymarketBinding option \<Rightarrow>
    InstrumentRegistry \<Rightarrow> InstrumentRegistry" where
  "after_insert key meta binance polymarket self = self\<lparr>
     rg_next_id := rg_next_id self + 1,
     rg_by_binance := (case binance of None \<Rightarrow> rg_by_binance self
       | Some bn \<Rightarrow> (rg_by_binance self)(bn_symbol bn \<mapsto> rg_next_id self)),
     rg_by_key := (rg_by_key self)(key \<mapsto> rg_next_id self),
     rg_by_id := (rg_by_id self)(rg_next_id self \<mapsto> fresh_record (rg_next_id self) key meta binance polymarket) \<rparr>"

lemma registry_insert_eq:
  "registry_insert key meta binance polymarket self =
     (if rg_by_key self key \<noteq> None then (Inl DuplicateInstrumentKey, self)
      else if rg_next_id self = 0 then (Inl IdSpaceExhausted, self)
      else case binance of
        Some bn \<Rightarrow> if rg_by_binance self (bn_symbol bn) \<noteq> None
          then (Inl (DuplicateBinanceSymbol (bn_symbol bn)), self\<lparr> rg_next_id := rg_next_id self + 1 \<rparr>)
          else (Inr (rg_next_id self), after_insert key meta binance polymarket self)
      | None \<Rightarrow> (Inr (rg_next_id self), after_insert key meta binance polymarket self))"
  by (cases binance) (auto simp: registry_insert_def alloc_id_def after_insert_def fresh_record_def)

lemma u32_next: "(x :: u32) + 1 = 0 \<or> x < x + 1"
  using unatSuc [of x] by (cases "1 + x = 0") (simp_all add: word_less_nat_alt add.commute)

lemma less_u32_next: "(i :: u32) < n \<Longrightarrow> n + 1 = 0 \<or> i < n + 1"
  using u32_next [of n] by force

lemma next_id_fresh: "identities_ok self \<Longrightarrow> rg_next_id self \<noteq> 0 \<Longrightarrow> rg_by_id self (rg_next_id self) = None"
  unfolding identities_ok_def by (metis not_None_eq less_irrefl)

lemma identities_bump:
  assumes "identities_ok self" "rg_next_id self \<noteq> 0"
  shows "identities_ok (self\<lparr> rg_next_id := rg_next_id self + 1 \<rparr>)"
  using assms less_u32_next unfolding identities_ok_def by auto

lemma identities_insert:
  assumes ok: "identities_ok self" and n0: "rg_next_id self \<noteq> 0" and key: "rg_by_key self key = None"
    and bn: "\<And>b. binance = Some b \<Longrightarrow> rg_by_binance self (bn_symbol b) = None"
  shows "identities_ok (after_insert key meta binance polymarket self)"
proof -
  let ?n = "rg_next_id self" and ?self = "after_insert key meta binance polymarket self"
  note fresh = next_id_fresh [OF ok n0]
  have rec: "rg_by_id ?self = (rg_by_id self)(?n \<mapsto> fresh_record ?n key meta binance polymarket)"
    and nxt: "rg_next_id ?self = ?n + 1" and bk: "rg_by_key ?self = (rg_by_key self)(key \<mapsto> ?n)"
    and bb: "rg_by_binance ?self = (case binance of None \<Rightarrow> rg_by_binance self
        | Some b \<Rightarrow> (rg_by_binance self)(bn_symbol b \<mapsto> ?n))"
    by (simp_all add: after_insert_def)
  have 1: "ci_instrument_id (ir_canonical r) = iid \<and> iid \<noteq> InstrumentId_NONE \<and>
      (rg_next_id ?self = 0 \<or> iid < rg_next_id ?self)" if "rg_by_id ?self iid = Some r" for iid r
    using that ok n0 u32_next [of ?n] less_u32_next [of iid ?n] unfolding rec nxt identities_ok_def
    by (auto simp: fresh_record_def InstrumentId_NONE_def split: if_splits)
  have 2: "rg_by_key ?self k = Some iid \<longleftrightarrow> (\<exists>r. rg_by_id ?self iid = Some r \<and> ci_key (ir_canonical r) = k)" for k iid
  proof (cases "iid = ?n")
    case True
    then show ?thesis
      using ok fresh key unfolding rec bk identities_ok_def by (auto simp: fresh_record_def)
  next
    case False
    have "rg_by_id self iid = Some r \<Longrightarrow> ci_key (ir_canonical r) \<noteq> key" for r
      using ok key unfolding identities_ok_def by (metis option.distinct(1))
    with False show ?thesis using ok unfolding rec bk identities_ok_def by auto
  qed
  have 3: "rg_by_binance ?self s = Some iid \<longleftrightarrow>
      (\<exists>r b. rg_by_id ?self iid = Some r \<and> ir_binance r = Some b \<and> bn_symbol b = s)" for s iid
  proof (cases "iid = ?n")
    case True
    then show ?thesis
      using ok fresh unfolding rec bb identities_ok_def
      by (auto simp: fresh_record_def split: option.splits)
  next
    case False
    have "rg_by_id self iid = Some r \<Longrightarrow> ir_binance r = Some b' \<Longrightarrow> binance = Some b \<Longrightarrow> bn_symbol b' \<noteq> bn_symbol b" for r b b'
      using ok bn [of b] unfolding identities_ok_def by (metis option.distinct(1))
    with False show ?thesis using ok unfolding rec bb identities_ok_def by (auto split: option.splits)
  qed
  show ?thesis unfolding identities_ok_def using 1 2 3 by blast
qed

lemma token_at_insert:
  "token_at (after_insert key meta binance polymarket self) =
     (token_at self)(rg_next_id self := (case polymarket of None \<Rightarrow> (\<lambda>_. None) | Some pm \<Rightarrow> pm_slot pm))"
  by (auto simp: fun_eq_iff token_at_def window_at_def after_insert_def fresh_record_def pm_slot_def split: option.splits)

text \<open>The windows that come with an insertion are in no place yet, and differ.\<close>

definition windows_free :: "PolymarketBinding option \<Rightarrow> InstrumentRegistry \<Rightarrow> bool" where
  "windows_free polymarket self \<longleftrightarrow> (case polymarket of None \<Rightarrow> True | Some pm \<Rightarrow>
     (\<forall>t slot. pm_slot pm slot = Some t \<longrightarrow> (\<forall>j s. token_at self j s \<noteq> Some t)) \<and>
     (\<forall>t. \<not> (pm_slot pm Current = Some t \<and> pm_slot pm Next = Some t)))"

lemma windows_free_empty [simp]: "windows_free None self" "windows_free (Some polymarket_default) self"
  by (simp_all add: windows_free_def)

lemma registry_insert_ok:
  assumes "registry_ok bd self" "windows_free polymarket self"
  shows "registry_ok (bound_step (Insert key meta binance polymarket) self bd)
     (snd (registry_insert key meta binance polymarket self))"
proof -
  let ?n = "rg_next_id self"
  let ?new = "case polymarket of None \<Rightarrow> (\<lambda>_. None) | Some pm \<Rightarrow> pm_slot pm"
  have ids: "identities_ok self" and tok: "index_of (rg_by_token self) bd (token_at self)"
    using assms(1) by (simp_all add: registry_ok_def tokens_ok_def)
  have ok: "registry_ok (bd(?n := (\<lambda>_. False))) (after_insert key meta binance polymarket self)"
    if n: "?n \<noteq> 0" "rg_by_key self key = None" "\<And>b. binance = Some b \<Longrightarrow> rg_by_binance self (bn_symbol b) = None"
  proof -
    have 1: "token_at self ?n slot = None" for slot using next_id_fresh [OF ids n(1)] by (simp add: token_at_def window_at_def)
    have 2: "s = s'" if "?new s = Some t" "?new s' = Some t" for t s s'
      using that assms(2) by (cases s; cases s') (auto simp: windows_free_def split: option.splits)
    have 3: "token_at self j s' \<noteq> Some t" if "?new s = Some t" for t s j s'
      using that assms(2) by (auto simp: windows_free_def split: option.splits)
    have "index_of (rg_by_token self) (bd(?n := (\<lambda>_. False))) ((token_at self)(?n := ?new))"
      by (rule index_of_insert [OF tok 1 2 3])
    then have "tokens_ok (bd(?n := (\<lambda>_. False))) (after_insert key meta binance polymarket self)"
      unfolding tokens_ok_def token_at_insert by (simp add: after_insert_def)
    then show ?thesis using identities_insert [OF ids n] by (simp add: registry_ok_def)
  qed
  have bump: "registry_ok bd (self\<lparr> rg_next_id := ?n + 1 \<rparr>)" if "?n \<noteq> 0"
  proof -
    have "token_at (self\<lparr> rg_next_id := ?n + 1 \<rparr>) = token_at self"
      by (simp add: token_at_def window_at_def fun_eq_iff)
    with identities_bump [OF ids that] tok show ?thesis by (simp add: registry_ok_def tokens_ok_def)
  qed
  show ?thesis using assms(1) ok bump by (auto simp: registry_insert_eq split: option.split)
qed

text \<open>An instrument without windows changes no place, so the table of bound places may stay.\<close>

lemma registry_insert_bare_ok:
  assumes "registry_ok bd self" "registry_insert key meta binance (Some polymarket_default) self = (r, self')"
  shows "registry_ok bd self'"
proof -
  have "registry_ok (bound_step (Insert key meta binance (Some polymarket_default)) self bd) self'"
    using registry_insert_ok [OF assms(1) windows_free_empty(2), of key meta binance] assms(2) by simp
  then have ids: "identities_ok self'" by (simp add: registry_ok_def)
  have n: "token_at self (rg_next_id self) = (\<lambda>_. None)" if "rg_next_id self \<noteq> 0"
    using next_id_fresh [OF _ that] assms(1) by (simp add: registry_ok_def token_at_def window_at_def fun_eq_iff)
  have "token_at self' = token_at self \<and> rg_by_token self' = rg_by_token self"
  proof (cases "self' = after_insert key meta binance (Some polymarket_default) self \<and> rg_next_id self \<noteq> 0")
    case True
    then have "token_at self' = (token_at self)(rg_next_id self := pm_slot polymarket_default)" by (simp add: token_at_insert)
    then show ?thesis using True n by (auto simp: after_insert_def fun_eq_iff)
  next
    case False
    then show ?thesis using assms(2)
      by (auto simp: registry_insert_eq token_at_def window_at_def fun_eq_iff split: if_splits option.splits)
  qed
  then show ?thesis using ids assms(1) by (simp add: registry_ok_def tokens_ok_def)
qed

lemma pair_eq:
  "insert_prediction_pair base tf meta symb self =
     (let up = key_prediction base tf Up; down = key_prediction base tf Down;
          bn = map_option (\<lambda>s. \<lparr> bn_symbol = s \<rparr>) symb
      in if rg_by_key self up \<noteq> None \<or> rg_by_key self down \<noteq> None then (Inl DuplicateInstrumentKey, self)
         else if symb \<noteq> None \<and> rg_by_binance self (the symb) \<noteq> None
         then (Inl (DuplicateBinanceSymbol (the symb)), self)
         else if rg_next_id self = 0 then (Inl IdSpaceExhausted, self)
         else let self1 = after_insert up meta bn (Some polymarket_default) self
              in if rg_next_id self + 1 = 0 then (Inl IdSpaceExhausted, self1)
                 else (Inr (rg_next_id self, rg_next_id self + 1),
                       after_insert down meta None (Some polymarket_default) self1))"
proof -
  have ne: "key_prediction base tf Up \<noteq> key_prediction base tf Down" by (simp add: key_prediction_def)
  show ?thesis
  proof (cases symb)
    case None
    with ne show ?thesis
      by (simp add: insert_prediction_pair_def Let_def registry_insert_eq)
        (auto simp: after_insert_def)
  next
    case (Some s)
    with ne show ?thesis
      by (simp add: insert_prediction_pair_def Let_def registry_insert_eq)
        (auto simp: after_insert_def)
  qed
qed

section \<open>Histories\<close>

fun registry_step :: "registry_cmd \<Rightarrow> InstrumentRegistry \<Rightarrow> InstrumentRegistry" where
  "registry_step (Insert key meta bn pm) self = snd (registry_insert key meta bn pm self)"
| "registry_step (InsertPair base tf meta symb) self = snd (insert_prediction_pair base tf meta symb self)"
| "registry_step (BindCurrent iid w) self = snd (bind_polymarket_current iid w self)"
| "registry_step (BindNext iid w) self = snd (bind_polymarket_next iid w self)"
| "registry_step (Promote iid) self = snd (promote_polymarket_next iid self)"
| "registry_step (Unbind iid) self = snd (unbind_polymarket iid self)"

text \<open>What the callers must see to: a token is in one place only.\<close>

fun registry_respects :: "registry_cmd \<Rightarrow> InstrumentRegistry \<Rightarrow> bool" where
  "registry_respects (Insert key meta bn pm) self \<longleftrightarrow> windows_free pm self"
| "registry_respects (InsertPair base tf meta symb) self \<longleftrightarrow> True"
| "registry_respects (BindCurrent iid w) self \<longleftrightarrow> token_free (pw_token_id w) iid Current self"
| "registry_respects (BindNext iid w) self \<longleftrightarrow> token_free (pw_token_id w) iid Next self"
| "registry_respects (Promote iid) self \<longleftrightarrow> True"
| "registry_respects (Unbind iid) self \<longleftrightarrow> True"

inductive registry_reaches :: "registry_cmd list \<Rightarrow> bound_places \<Rightarrow> InstrumentRegistry \<Rightarrow> bool" where
  start: "registry_reaches [] (\<lambda>_ _. False) registry_new"
| more: "registry_reaches cs bd self \<Longrightarrow> registry_respects c self \<Longrightarrow>
    registry_reaches (cs @ [c]) (bound_step c self bd) (registry_step c self)"

lemma registry_new_ok: "registry_ok bd registry_new"
  by (simp add: registry_ok_def identities_ok_def tokens_ok_def index_of_def registry_new_def token_at_def window_at_def)

lemma pair_ok:
  assumes "registry_ok bd self"
  shows "registry_ok bd (snd (insert_prediction_pair base tf meta symb self))"
  using assms registry_insert_bare_ok
  by (auto simp: insert_prediction_pair_def Let_def split: option.split prod.split sum.split) blast+

lemma registry_reaches_ok: "registry_reaches cs bd self \<Longrightarrow> registry_ok bd self"
proof (induction rule: registry_reaches.induct)
  case (more cs bd self c)
  then show ?case
    by (cases c) (auto intro: registry_insert_ok pair_ok bind_current_ok bind_next_ok promote_ok unbind_ok
        simp del: bound_step.simps, simp add: pair_ok)
qed (rule registry_new_ok)

text \<open>When no instrument is inserted with windows, every window is bound.\<close>

definition all_bound :: "bound_places \<Rightarrow> InstrumentRegistry \<Rightarrow> bool" where
  "all_bound bd self \<longleftrightarrow> (\<forall>i slot. token_at self i slot \<noteq> None \<longrightarrow> bd i slot)"

lemma all_bound_set:
  assumes "all_bound bd self" "\<And>slot. pm_slot pm slot \<noteq> None \<Longrightarrow> b slot"
  shows "all_bound (bd(iid := b)) (set_polymarket iid r pm (self\<lparr> rg_by_token := m \<rparr>))"
  using assms unfolding all_bound_def token_at_set by auto

lemma all_bound_insert:
  assumes "all_bound bd self" "registry_insert key meta bn pm self = (r, self')" "pm = None \<or> pm = Some polymarket_default"
  shows "all_bound bd self'" "all_bound (case r of Inr iid \<Rightarrow> bd(iid := (\<lambda>_. False)) | Inl _ \<Rightarrow> bd) self'"
proof -
  have "(case pm of None \<Rightarrow> (\<lambda>_. None) | Some pm \<Rightarrow> pm_slot pm) = (\<lambda>_. None)"
    using assms(3) by auto
  then have "token_at (after_insert key meta bn pm self) = (token_at self)(rg_next_id self := (\<lambda>_. None))"
    by (simp add: token_at_insert)
  moreover have "token_at (self\<lparr> rg_next_id := n \<rparr>) = token_at self" for n
    by (simp add: token_at_def window_at_def fun_eq_iff)
  ultimately show "all_bound bd self'" "all_bound (case r of Inr iid \<Rightarrow> bd(iid := (\<lambda>_. False)) | Inl _ \<Rightarrow> bd) self'"
    using assms(1,2) by (auto simp: registry_insert_eq all_bound_def split: if_splits option.splits)
qed

lemma all_bound_pair:
  assumes "all_bound bd self"
  shows "all_bound bd (snd (insert_prediction_pair base tf meta symb self))"
  using assms all_bound_insert(1) [where pm = "Some polymarket_default"]
  by (auto simp: insert_prediction_pair_def Let_def split: option.split prod.split sum.split) blast+

lemma pm_slot_bound: "all_bound bd self \<Longrightarrow> polymarket_of iid self = Inr (r, pm) \<Longrightarrow> pm_slot pm slot \<noteq> None \<Longrightarrow> bd iid slot"
  using token_at_pm unfolding all_bound_def by metis

lemma all_bound_step:
  assumes "all_bound bd self" "\<And>key meta bn pm. c = Insert key meta bn (Some pm) \<Longrightarrow> pm = polymarket_default"
  shows "all_bound (bound_step c self bd) (registry_step c self)"
proof (cases c)
  case (Insert key meta bn pm)
  then have "pm = None \<or> pm = Some polymarket_default" using assms(2) by (cases pm) auto
  then show ?thesis using all_bound_insert(2) [OF assms(1)] Insert by (cases "registry_insert key meta bn pm self") auto
next
  case (Promote iid)
  then show ?thesis using assms(1) pm_slot_bound [OF assms(1), of iid]
    by (auto simp: promote_polymarket_next_def split: sum.split option.split intro!: all_bound_set)
      (auto simp: pm_slot_def split: window_slot.splits)
qed (use assms(1) pm_slot_bound [OF assms(1)] in
    \<open>auto simp: bind_polymarket_current_def bind_polymarket_next_def unbind_polymarket_def all_bound_pair
      slots_cleared
      split: sum.split if_splits intro!: all_bound_set\<close>)

lemma registry_reaches_all_bound:
  "registry_reaches cs bd self \<Longrightarrow> \<forall>key meta bn pm. Insert key meta bn (Some pm) \<in> set cs \<longrightarrow> pm = polymarket_default \<Longrightarrow>
   all_bound bd self"
proof (induction rule: registry_reaches.induct)
  case (more cs bd self c)
  then show ?case by (intro all_bound_step) auto
qed (simp add: all_bound_def registry_new_def token_at_def window_at_def)

section \<open>Properties\<close>

text \<open>C10. The three indices are exactly the inverses of the records. Take any history of insertions,
  pair insertions, bindings of current and next windows, promotions and unbindings, failed calls included, in which no
  call puts a token in a place while another place of the registry holds it. A token id resolves to
  the instrument with a bound window that carries it and to no other, where a window is bound when a binding call put
  it there, or a promotion from such a place. A window that comes inside the binding of an insertion is
  not bound: its token does not resolve until a binding call repeats it, a defect of the insertion; in a history
  whose insertions carry no windows every window is bound. A Binance symbol and a key resolve to the one instrument
  registered with them, and no instrument has the reserved id.\<close>

theorem registry_indices_exact:
  assumes "registry_reaches cs bd self"
  shows "(by_polymarket_token_id t self = Some iid \<longleftrightarrow> (\<exists>slot. token_at self iid slot = Some t \<and> bd iid slot)) \<and>
    ((\<forall>key meta bn pm. Insert key meta bn (Some pm) \<in> set cs \<longrightarrow> pm = polymarket_default) \<longrightarrow>
       (\<forall>i slot. token_at self i slot \<noteq> None \<longrightarrow> bd i slot)) \<and>
    (by_binance_symbol symb self = Some iid \<longleftrightarrow>
       (\<exists>r bn. registry_get iid self = Some r \<and> ir_binance r = Some bn \<and> bn_symbol bn = symb)) \<and>
    (by_key key self = Some iid \<longleftrightarrow>
       (\<exists>r. registry_get iid self = Some r \<and> ci_key (ir_canonical r) = key)) \<and>
    registry_get InstrumentId_NONE self = None"
proof -
  have ok: "registry_ok bd self" using assms by (rule registry_reaches_ok)
  then have "registry_get InstrumentId_NONE self = None"
    by (cases "registry_get InstrumentId_NONE self") (auto simp: registry_get_def registry_ok_def identities_ok_def)
  with ok index_ofD(1) [of "rg_by_token self" bd "token_at self" t iid] show ?thesis
    using registry_reaches_all_bound [OF assms]
    by (simp add: registry_ok_def identities_ok_def tokens_ok_def by_polymarket_token_id_def by_binance_symbol_def
        by_key_def registry_get_def all_bound_def)
qed

text \<open>An insertion with a window succeeds and stores the window, but its token does not resolve, although the
  promotion relies on the next window being in the index.\<close>

theorem registry_insert_unindexed:
  assumes "rg_by_key self key = None" "rg_next_id self \<noteq> 0" "rg_by_token self (pw_token_id w) = None"
    and "pm = polymarket_default\<lparr> pm_next := Some w \<rparr>"
  shows "\<exists>iid s1 s2. registry_insert key meta None (Some pm) self = (Inr iid, s1) \<and>
    promote_polymarket_next iid s1 = (Inr (), s2) \<and> window_at s2 iid Current = Some w \<and>
    by_polymarket_token_id (pw_token_id w) s1 = None \<and> by_polymarket_token_id (pw_token_id w) s2 = None"
  using assms
  by (simp add: registry_insert_eq after_insert_def fresh_record_def promote_polymarket_next_def polymarket_of_def
      set_polymarket_def window_at_def by_polymarket_token_id_def polymarket_default_def remove_token_def)

text \<open>A rollover keeps the identity: promoting the bound next window of an instrument succeeds, its token
  still resolves to the same instrument, the token of the window before no longer resolves, and every
  other token, symbol, key and conversion resolves as before.\<close>

theorem registry_rollover:
  assumes "registry_reaches cs bd self" "window_at self iid Next = Some n" "bd iid Next"
  shows "\<exists>self'. promote_polymarket_next iid self = (Inr (), self') \<and>
    window_at self' iid Current = Some n \<and> window_at self' iid Next = None \<and>
    by_polymarket_token_id (pw_token_id n) self' = Some iid \<and>
    (\<forall>t. by_polymarket_token_id t self' =
       (if token_at self iid Current = Some t then None else by_polymarket_token_id t self)) \<and>
    (\<forall>j. registry_meta j self' = registry_meta j self) \<and>
    (\<forall>k. by_key k self' = by_key k self) \<and> (\<forall>s. by_binance_symbol s self' = by_binance_symbol s self)"
proof -
  have ok: "index_of (rg_by_token self) bd (token_at self)"
    using registry_reaches_ok [OF assms(1)] by (simp add: registry_ok_def tokens_ok_def)
  obtain r pm where pm: "polymarket_of iid self = Inr (r, pm)" "pm_next pm = Some n"
    using assms(2) by (auto simp: window_at_def polymarket_of_Inr split: option.splits)
  let ?self = "set_polymarket iid r (pm\<lparr> pm_next := None, pm_current := Some n \<rparr>)
      (self\<lparr> rg_by_token := remove_token (pm_current pm) (rg_by_token self) \<rparr>)"
  have cur: "token_at self iid Current = map_option pw_token_id (pm_current pm)"
    and nxt: "token_at self iid Next = Some (pw_token_id n)"
    using token_at_pm [OF pm(1)] pm(2) by (simp_all add: pm_slot_def)
  have tok: "rg_by_token ?self t = (if token_at self iid Current = Some t then None else rg_by_token self t)" for t
    by (auto simp: set_polymarket_def remove_token_def cur split: option.splits)
  have "rg_by_token self (pw_token_id n) = Some iid" "token_at self iid Current \<noteq> Some (pw_token_id n)"
    using index_ofD [OF ok] nxt assms(3) by blast+
  moreover have "registry_meta j ?self = registry_meta j self" for j
    using pm(1) by (auto simp: registry_meta_def set_polymarket_def polymarket_of_Inr)
  ultimately show ?thesis
    using pm tok
    by (intro exI [of _ ?self])
      (auto simp: promote_polymarket_next_def by_polymarket_token_id_def by_key_def by_binance_symbol_def
        window_at_def set_polymarket_def)
qed

text \<open>Registering an Up/Down pair is all or nothing: unless a single instrument id is left, a
  failing call leaves the registry as it was, and a successful one registers both outcomes under
  different ids with the symbol bound to the Up instrument.\<close>

theorem registry_pair_atomic:
  assumes "rg_next_id self \<noteq> - 1"
  shows "case insert_prediction_pair base tf meta symb self of
      (Inl e, self') \<Rightarrow> self' = self
    | (Inr (up, down), self') \<Rightarrow> up \<noteq> down \<and>
        by_key (key_prediction base tf Up) self' = Some up \<and>
        by_key (key_prediction base tf Down) self' = Some down \<and>
        registry_meta up self' = Some meta \<and> registry_meta down self' = Some meta \<and>
        (case symb of Some s \<Rightarrow> by_binance_symbol s self' = Some up | None \<Rightarrow> rg_by_binance self' = rg_by_binance self)"
proof -
  have "rg_next_id self + 1 \<noteq> 0" using assms by (metis add.commute add_eq_0_iff)
  moreover have "key_prediction base tf Up \<noteq> key_prediction base tf Down" by (simp add: key_prediction_def)
  ultimately show ?thesis
    unfolding pair_eq Let_def
    by (cases symb) (simp_all add: after_insert_def fresh_record_def by_key_def registry_meta_def by_binance_symbol_def)
qed

text \<open>C34. The registry accepts a token that another instrument already holds, although it has an error
  for it, and then loses it. When instrument \<open>b\<close> binds the token of \<open>a\<close>, both calls succeed; when \<open>a\<close> then moves on to
  another token, or is unbound as at the end of its market, the token no longer resolves at all while it is
  still the current window of \<open>b\<close>.\<close>

theorem registry_shared_token_lost:
  assumes "polymarket_of a self = Inr (ra, pa)" "polymarket_of b self = Inr (rb, pb)" "a \<noteq> b"
    and "pw_token_id w \<noteq> pw_token_id w'"
  shows "\<exists>s1 s2 moved unbound. bind_polymarket_current a w self = (Inr (), s1) \<and>
    bind_polymarket_current b w s1 = (Inr (), s2) \<and>
    bind_polymarket_current a w' s2 = (Inr (), moved) \<and> unbind_polymarket a s2 = (Inr (), unbound) \<and>
    by_polymarket_token_id (pw_token_id w) moved = None \<and> window_at moved b Current = Some w \<and>
    by_polymarket_token_id (pw_token_id w) unbound = None \<and> window_at unbound b Current = Some w"
proof -
  obtain s1 where s1: "bind_polymarket_current a w self = (Inr (), s1)"
    "polymarket_of a s1 = Inr (ra\<lparr> ir_polymarket := Some (pa\<lparr> pm_current := Some w \<rparr>) \<rparr>, pa\<lparr> pm_current := Some w \<rparr>)"
    "polymarket_of b s1 = Inr (rb, pb)"
    using assms by (auto simp: bind_polymarket_current_def set_polymarket_def polymarket_of_Inr)
  obtain s2 where s2: "bind_polymarket_current b w s1 = (Inr (), s2)"
    "polymarket_of a s2 = Inr (ra\<lparr> ir_polymarket := Some (pa\<lparr> pm_current := Some w \<rparr>) \<rparr>, pa\<lparr> pm_current := Some w \<rparr>)"
    "window_at s2 b Current = Some w"
    using s1 assms(3) by (auto simp: bind_polymarket_current_def set_polymarket_def polymarket_of_Inr window_at_def)
  then obtain moved where "bind_polymarket_current a w' s2 = (Inr (), moved)"
    "by_polymarket_token_id (pw_token_id w) moved = None" "window_at moved b Current = Some w"
    using assms(3,4)
    by (auto simp: bind_polymarket_current_def set_polymarket_def by_polymarket_token_id_def remove_token_def window_at_def)
  moreover from s2 obtain unbound where "unbind_polymarket a s2 = (Inr (), unbound)"
    "by_polymarket_token_id (pw_token_id w) unbound = None" "window_at unbound b Current = Some w"
    using assms(3)
    by (auto simp: unbind_polymarket_def set_polymarket_def by_polymarket_token_id_def remove_token_def window_at_def
        split: option.split)
  ultimately show ?thesis using s1(1) s2(1) by blast
qed

section \<open>Witnesses\<close>

definition sample_meta :: InstrumentMeta where
  "sample_meta = \<lparr> meta_tick_size = 10000, meta_lot_size = 10000 \<rparr>"

definition sample_window :: "u8 \<Rightarrow> PolymarketWindowBinding" where
  "sample_window t = \<lparr> pw_token_id = [t], pw_market_slug = [], pw_window_start = 0, pw_window_end = 1,
     pw_condition_id = None \<rparr>"

definition sample_pair :: InstrumentRegistry where
  "sample_pair = registry_step (InsertPair Btc M15 sample_meta None) registry_new"

definition sample_bound :: InstrumentRegistry where
  "sample_bound = registry_step (BindNext 1 (sample_window 50)) (registry_step (BindCurrent 1 (sample_window 49)) sample_pair)"

lemma sample_pair_eq:
  "sample_pair = registry_new\<lparr> rg_next_id := 3,
     rg_by_key := [key_prediction Btc M15 Up \<mapsto> 1, key_prediction Btc M15 Down \<mapsto> 2],
     rg_by_id := [1 \<mapsto> fresh_record 1 (key_prediction Btc M15 Up) sample_meta None (Some polymarket_default),
                  2 \<mapsto> fresh_record 2 (key_prediction Btc M15 Down) sample_meta None (Some polymarket_default)] \<rparr>"
  by (simp add: sample_pair_def pair_eq Let_def after_insert_def registry_new_def)

lemma sample_bound_windows:
  "window_at sample_bound 1 Current = Some (sample_window 49)" "window_at sample_bound 1 Next = Some (sample_window 50)"
  by (simp_all add: sample_bound_def sample_pair_eq bind_polymarket_current_def bind_polymarket_next_def
      polymarket_of_def set_polymarket_def fresh_record_def window_at_def)

definition sample_places :: bound_places where
  "sample_places = (\<lambda>i slot. i = 1)"

lemma sample_bound_reaches:
  "registry_reaches [InsertPair Btc M15 sample_meta None, BindCurrent 1 (sample_window 49),
     BindNext 1 (sample_window 50)] sample_places sample_bound"
proof -
  let ?s1 = "registry_step (BindCurrent 1 (sample_window 49)) sample_pair"
  have 1: "registry_reaches [InsertPair Btc M15 sample_meta None] (\<lambda>_ _. False) sample_pair"
    using registry_reaches.more [OF registry_reaches.start, of "InsertPair Btc M15 sample_meta None"]
    by (simp add: sample_pair_def)
  note defs = token_free_def token_at_def window_at_def sample_pair_eq bind_polymarket_current_def bind_polymarket_next_def
    polymarket_of_def set_polymarket_def fresh_record_def registry_new_def sample_window_def polymarket_default_def
  have "registry_respects (BindCurrent 1 (sample_window 49)) sample_pair"
    by (auto simp: defs split: option.splits if_splits window_slot.splits)
  from registry_reaches.more [OF 1 this]
  have 2: "registry_reaches [InsertPair Btc M15 sample_meta None, BindCurrent 1 (sample_window 49)]
      (bound_step (BindCurrent 1 (sample_window 49)) sample_pair (\<lambda>_ _. False)) ?s1" by simp
  have "registry_respects (BindNext 1 (sample_window 50)) ?s1"
    by (auto simp: defs split: option.splits if_splits window_slot.splits)
  from registry_reaches.more [OF 2 this]
  have "registry_reaches [InsertPair Btc M15 sample_meta None, BindCurrent 1 (sample_window 49), BindNext 1 (sample_window 50)]
    (bound_step (BindNext 1 (sample_window 50)) ?s1 (bound_step (BindCurrent 1 (sample_window 49)) sample_pair (\<lambda>_ _. False)))
    sample_bound"
    by (simp add: sample_bound_def)
  moreover have "bound_step (BindNext 1 (sample_window 50)) ?s1
      (bound_step (BindCurrent 1 (sample_window 49)) sample_pair (\<lambda>_ _. False)) = sample_places"
    by (simp add: defs slots_cleared) (simp add: sample_places_def fun_eq_iff)
  ultimately show ?thesis by (simp only:)
qed

theorem registry_indices_exact_witness:
  "by_polymarket_token_id [50] sample_bound = Some 1 \<and> registry_get 0 sample_bound = None"
proof -
  have "token_at sample_bound 1 Next = Some [50]" "sample_places 1 Next"
    by (simp_all add: token_at_def sample_bound_windows sample_window_def sample_places_def)
  with registry_indices_exact [OF sample_bound_reaches, of "[50]" 1] show ?thesis
    by (auto simp: InstrumentId_NONE_def)
qed

theorem registry_insert_unindexed_witness:
  "\<exists>iid s1 s2. registry_insert (key_prediction Btc M15 Up) sample_meta None
      (Some (polymarket_default\<lparr> pm_next := Some (sample_window 49) \<rparr>)) registry_new = (Inr iid, s1) \<and>
    promote_polymarket_next iid s1 = (Inr (), s2) \<and> by_polymarket_token_id [49] s2 = None"
  using registry_insert_unindexed [of registry_new "key_prediction Btc M15 Up" "sample_window 49" _ sample_meta, OF _ _ _ refl]
  by (auto simp: registry_new_def sample_window_def)

theorem registry_rollover_witness:
  "\<exists>self'. promote_polymarket_next 1 sample_bound = (Inr (), self') \<and>
    by_polymarket_token_id [50] self' = Some 1 \<and> by_polymarket_token_id [49] self' = None"
proof -
  have "token_at sample_bound 1 Current = Some [49]" "sample_places 1 Next"
    by (simp_all add: token_at_def sample_bound_windows sample_window_def sample_places_def)
  with registry_rollover [OF sample_bound_reaches sample_bound_windows(2)] show ?thesis
    by (auto simp: sample_window_def)
qed

theorem registry_pair_atomic_witness:
  "rg_next_id registry_new \<noteq> - 1 \<and> (\<exists>up down self'.
     insert_prediction_pair Btc M15 sample_meta (Some [66]) registry_new = (Inr (up, down), self') \<and>
     up \<noteq> down \<and> by_binance_symbol [66] self' = Some up)"
proof -
  have n: "rg_next_id registry_new \<noteq> - 1" by (simp add: registry_new_def)
  obtain up down self' where
    r: "insert_prediction_pair Btc M15 sample_meta (Some [66]) registry_new = (Inr (up, down), self')"
    by (simp add: pair_eq Let_def registry_new_def)
  from registry_pair_atomic [OF n, of Btc M15 sample_meta "Some [66]"] r n show ?thesis by auto
qed

theorem registry_shared_token_lost_witness:
  "\<exists>s1 s2 moved unbound. bind_polymarket_current 1 (sample_window 49) sample_pair = (Inr (), s1) \<and>
    bind_polymarket_current 2 (sample_window 49) s1 = (Inr (), s2) \<and>
    bind_polymarket_current 1 (sample_window 50) s2 = (Inr (), moved) \<and> unbind_polymarket 1 s2 = (Inr (), unbound) \<and>
    by_polymarket_token_id [49] moved = None \<and> window_at moved 2 Current = Some (sample_window 49) \<and>
    by_polymarket_token_id [49] unbound = None \<and> window_at unbound 2 Current = Some (sample_window 49)"
proof -
  have "polymarket_of 1 sample_pair = Inr (fresh_record 1 (key_prediction Btc M15 Up) sample_meta None
      (Some polymarket_default), polymarket_default)"
    "polymarket_of 2 sample_pair = Inr (fresh_record 2 (key_prediction Btc M15 Down) sample_meta None
      (Some polymarket_default), polymarket_default)"
    by (simp_all add: polymarket_of_def sample_pair_eq fresh_record_def)
  from registry_shared_token_lost [OF this, of "sample_window 49" "sample_window 50"] show ?thesis
    by (simp add: sample_window_def)
qed

end
