(* ===== verification/Decoder_Core.thy ===== *)
theory Decoder_Core
  imports Registry Events
begin

text \<open>
  What the two exchange decoders share: numerals converted to ticks and lots, the sequence counter and
  the output array of 64 events. JSON parsing is done by third-party crates; each decoder takes its
  parsers as an argument.
\<close>

section \<open>Output array and sequence\<close>

text \<open>Indexing the output array panics out of range.\<close>

definition out_set :: "nat \<Rightarrow> HotEvent \<Rightarrow> HotEvent list \<Rightarrow> HotEvent list panics" where
  "out_set i e out = (if i < length out then Some (out[i := e]) else None)"

lemma take_1_update [simp]: "0 < length out \<Longrightarrow> take (Suc 0) (out[0 := e]) = [e]"
  by (cases out) simp_all

text \<open>The sequence numbers of a run of events, and the \<open>n\<close> numbers that follow \<open>s\<close>.\<close>

definition event_seqs :: "HotEvent list \<Rightarrow> u64 list" where
  "event_seqs es = map (\<lambda>e. hdr_seq (ev_header e)) es"

fun next_seqs :: "u64 \<Rightarrow> nat \<Rightarrow> u64 list" where
  "next_seqs s 0 = []"
| "next_seqs s (Suc n) = (s + 1) # next_seqs (s + 1) n"

lemma event_seqs_simps [simp]:
  "event_seqs [] = []" "event_seqs (e # es) = hdr_seq (ev_header e) # event_seqs es"
  "event_seqs (es @ fs) = event_seqs es @ event_seqs fs"
  by (simp_all add: event_seqs_def)

lemma next_seqs_add: "next_seqs s (m + n) = next_seqs s m @ next_seqs (s + word_of_nat m) n"
  by (induction m arbitrary: s) (simp_all add: ac_simps)

lemma next_seqs_nth: "i < n \<Longrightarrow> next_seqs s n ! i = s + word_of_nat (Suc i)"
  by (induction n arbitrary: s i) (auto simp: less_Suc_eq_0_disj ac_simps)

lemma length_next_seqs [simp]: "length (next_seqs s n) = n"
  by (induction n arbitrary: s) simp_all

section \<open>Numerals to ticks and lots\<close>

text \<open>\<open>parse_decimal_bytes\<close> followed by \<open>.ok()?\<close>: an error makes the whole result \<open>None\<close>.\<close>

definition parse_ok :: "bool \<Rightarrow> nat \<Rightarrow> bytes \<Rightarrow> fixed option panics" where
  "parse_ok oc D s = map_option (\<lambda>r. case r of Inl e \<Rightarrow> None | Inr v \<Rightarrow> Some v) (parse_decimal_bytes oc D s)"

text \<open>The reference: the exact value of a numeral at scale \<open>D\<close>.\<close>

definition decimal_value :: "nat \<Rightarrow> bytes \<Rightarrow> fixed option" where
  "decimal_value D s = (case decimal_parts s of
       None \<Rightarrow> None
     | Some parts \<Rightarrow> (case parse_spec D parts of Inl e \<Rightarrow> None | Inr v \<Rightarrow> Some v))"

definition ticks_value :: "InstrumentMeta \<Rightarrow> fixed \<Rightarrow> Ticks" where
  "ticks_value m v = word_of_int (sint v sdiv sint (meta_tick_size m))"

definition lots_value :: "InstrumentMeta \<Rightarrow> fixed \<Rightarrow> Lots" where
  "lots_value m v = word_of_int (sint v sdiv sint (meta_lot_size m))"

lemma parse_ok_value: "D \<le> 18 \<Longrightarrow> parse_ok oc D s = Some (decimal_value D s)"
  using parse_decimal_bytes_numeral [of D s _ oc] parse_decimal_bytes_no_numeral [of s oc D]
  by (cases "decimal_parts s") (auto simp: parse_ok_def decimal_value_def split: sum.split)

lemma to_ticks_lots [simp]:
  "meta_wf m \<Longrightarrow> price_to_ticks m v = Some (Some (ticks_value m v))"
  "meta_wf m \<Longrightarrow> qty_to_lots m v = Some (Some (lots_value m v))"
  by (simp_all add: price_to_ticks_eq qty_to_lots_eq ticks_value_def lots_value_def)

lemma sample_meta_wf: "meta_wf sample_meta"
  by (simp add: meta_wf_def sample_meta_def sint_numeral_i64)

end
