(* ===== verification/Polymarket_Decoder.thy ===== *)
theory Polymarket_Decoder
  imports Decoder_Core
begin

text \<open>
  The Polymarket market decoder (\<open>crates/polymarket/src/market/decoder.rs\<close> and \<open>schema.rs\<close>): message
  type detection on the raw bytes, price changes, trades and book snapshots, resolved through the
  registry. The theorems describe the emitted batch event by event.
\<close>

section \<open>Messages\<close>

record BookLevel =
  bl_price :: bytes
  bl_size :: bytes

record PolymarketBookMsg =
  pb_asset_id :: bytes
  pb_bids :: "BookLevel list"
  pb_asks :: "BookLevel list"

record PolymarketPriceChangeMsg =
  pc_asset_id :: bytes
  pc_price :: bytes
  pc_size :: bytes
  pc_side :: bytes

record PolymarketTradeMsg =
  pt_asset_id :: bytes
  pt_price :: bytes
  pt_size :: bytes
  pt_side :: "bytes option"

text \<open>The JSON parsers, code of a third-party crate: arguments of the decoder.\<close>

record PolymarketJson =
  pj_book :: "bytes \<Rightarrow> PolymarketBookMsg option"
  pj_price_change :: "bytes \<Rightarrow> PolymarketPriceChangeMsg option"
  pj_trade :: "bytes \<Rightarrow> PolymarketTradeMsg option"

record PolymarketMarketDecoder =
  pd_seq :: u64
  pd_source_id :: SourceId
  pd_registry :: InstrumentRegistry

definition polymarket_decoder_new :: "SourceId \<Rightarrow> InstrumentRegistry \<Rightarrow> PolymarketMarketDecoder" where
  "polymarket_decoder_new source_id registry =
     \<lparr> pd_seq = 0, pd_source_id = source_id, pd_registry = registry \<rparr>"

section \<open>Message type\<close>

text \<open>ASCII text as bytes.\<close>

definition ascii :: "string \<Rightarrow> bytes" where
  "ascii s = map (\<lambda>c. word_of_nat (of_char c)) s"

fun memchr_byte_from :: "u8 \<Rightarrow> nat \<Rightarrow> bytes \<Rightarrow> nat option" where
  "memchr_byte_from byte i [] = None"
| "memchr_byte_from byte i (b # bs) = (if b = byte then Some i else memchr_byte_from byte (Suc i) bs)"

definition memchr_byte :: "u8 \<Rightarrow> bytes \<Rightarrow> nat option" where
  "memchr_byte byte haystack = memchr_byte_from byte 0 haystack"

text \<open>The loop over \<open>0..limit\<close>, with the number of positions left.\<close>

fun memchr_find_from :: "bytes \<Rightarrow> bytes \<Rightarrow> nat \<Rightarrow> nat \<Rightarrow> nat option" where
  "memchr_find_from haystack needle i 0 = None"
| "memchr_find_from haystack needle i (Suc k) =
     (if take (length needle) (drop i haystack) = needle then Some i
      else memchr_find_from haystack needle (Suc i) k)"

definition memchr_find :: "bytes \<Rightarrow> bytes \<Rightarrow> nat option" where
  "memchr_find haystack needle =
     (if length needle > length haystack then None
      else memchr_find_from haystack needle 0 (length haystack - length needle + 1))"

text \<open>\<open>core::str::from_utf8\<close>: well-formed sequences of one to four bytes.\<close>

definition utf8_cont :: "u8 \<Rightarrow> bool" where
  "utf8_cont b \<longleftrightarrow> 0x80 \<le> b \<and> b \<le> 0xBF"

fun utf8_valid :: "bytes \<Rightarrow> bool" where
  "utf8_valid [] \<longleftrightarrow> True"
| "utf8_valid (a # bs) \<longleftrightarrow>
     (if a \<le> 0x7F then utf8_valid bs
      else if 0xC2 \<le> a \<and> a \<le> 0xDF then (case bs of b # bs' \<Rightarrow> utf8_cont b \<and> utf8_valid bs' | _ \<Rightarrow> False)
      else if 0xE0 \<le> a \<and> a \<le> 0xEF then
        (case bs of b # c # bs' \<Rightarrow> utf8_cont b \<and> utf8_cont c \<and> (a = 0xE0 \<longrightarrow> 0xA0 \<le> b) \<and>
           (a = 0xED \<longrightarrow> b \<le> 0x9F) \<and> utf8_valid bs' | _ \<Rightarrow> False)
      else if 0xF0 \<le> a \<and> a \<le> 0xF4 then
        (case bs of b # c # d # bs' \<Rightarrow> utf8_cont b \<and> utf8_cont c \<and> utf8_cont d \<and> (a = 0xF0 \<longrightarrow> 0x90 \<le> b) \<and>
           (a = 0xF4 \<longrightarrow> b \<le> 0x8F) \<and> utf8_valid bs' | _ \<Rightarrow> False)
      else False)"

definition type_needle :: bytes where
  "type_needle = [0x22, 0x74, 0x79, 0x70, 0x65, 0x22, 0x3A, 0x22]"

definition peek_type :: "bytes \<Rightarrow> bytes option" where
  "peek_type buf =
     do {
       pos \<leftarrow> memchr_find buf type_needle;
       let value_start = pos + length type_needle;
       let remaining = drop value_start buf;
       end_pos \<leftarrow> memchr_byte 0x22 remaining;
       (if utf8_valid (take end_pos remaining) then Some (take end_pos remaining) else None)
     }"

section \<open>Fields\<close>

definition parse_side :: "bytes \<Rightarrow> Side option" where
  "parse_side s = (if s = ascii ''BUY'' then Some Bid else if s = ascii ''SELL'' then Some Ask else None)"

definition parse_price_qty :: "bool \<Rightarrow> nat \<Rightarrow> bytes \<Rightarrow> bytes \<Rightarrow> InstrumentMeta \<Rightarrow> (Ticks \<times> Lots) option panics" where
  "parse_price_qty oc D price_str size_str meta =
     do {
       price_fixed \<leftarrow> parse_ok oc D price_str;
       case price_fixed of None \<Rightarrow> Some None | Some price_fixed \<Rightarrow> do {
         qty_fixed \<leftarrow> parse_ok oc D size_str;
         case qty_fixed of None \<Rightarrow> Some None | Some qty_fixed \<Rightarrow> do {
           price \<leftarrow> price_to_ticks meta price_fixed;
           case price of None \<Rightarrow> Some None | Some price \<Rightarrow> do {
             qty \<leftarrow> qty_to_lots meta qty_fixed;
             Some (case qty of None \<Rightarrow> None | Some qty \<Rightarrow> Some (price, qty))
           }
         }
       }
     }"

definition polymarket_resolve :: "bytes \<Rightarrow> PolymarketMarketDecoder \<Rightarrow> (InstrumentId \<times> InstrumentMeta) option" where
  "polymarket_resolve asset_id self =
     do {
       iid \<leftarrow> by_polymarket_token_id asset_id (pd_registry self);
       meta \<leftarrow> registry_meta iid (pd_registry self);
       Some (iid, meta)
     }"

section \<open>Decoding\<close>

type_synonym decode_result = "(nat \<times> PolymarketMarketDecoder \<times> HotEvent list) panics"

definition decode_price_change :: "PolymarketJson \<Rightarrow> bool \<Rightarrow> nat \<Rightarrow> bytes \<Rightarrow> Timestamp \<Rightarrow>
    HotEvent list \<Rightarrow> PolymarketMarketDecoder \<Rightarrow> decode_result" where
  "decode_price_change pj oc D buf recv_ts out self =
     (case pj_price_change pj buf of None \<Rightarrow> Some (0, self, out) | Some msg \<Rightarrow>
      (case polymarket_resolve (pc_asset_id msg) self of None \<Rightarrow> Some (0, self, out) | Some (iid, meta) \<Rightarrow>
       do {
         pq \<leftarrow> parse_price_qty oc D (pc_price msg) (pc_size msg) meta;
         case pq of None \<Rightarrow> Some (0, self, out) | Some (price, qty) \<Rightarrow>
         (case parse_side (pc_side msg) of None \<Rightarrow> Some (0, self, out) | Some side \<Rightarrow>
          do {
            seq \<leftarrow> inc_u64 oc (pd_seq self);
            out \<leftarrow> out_set 0 (event_book_delta recv_ts seq iid (pd_source_id self) LAST_IN_BATCH
              \<lparr> bd_price = price, bd_qty = qty, bd_side = side, bd_action = Change, bd_depth = 0 \<rparr>) out;
            Some (1, self\<lparr> pd_seq := seq \<rparr>, out)
          })
       }))"

definition decode_trade :: "PolymarketJson \<Rightarrow> bool \<Rightarrow> nat \<Rightarrow> bytes \<Rightarrow> Timestamp \<Rightarrow>
    HotEvent list \<Rightarrow> PolymarketMarketDecoder \<Rightarrow> decode_result" where
  "decode_trade pj oc D buf recv_ts out self =
     (case pj_trade pj buf of None \<Rightarrow> Some (0, self, out) | Some msg \<Rightarrow>
      (case polymarket_resolve (pt_asset_id msg) self of None \<Rightarrow> Some (0, self, out) | Some (iid, meta) \<Rightarrow>
       do {
         pq \<leftarrow> parse_price_qty oc D (pt_price msg) (pt_size msg) meta;
         case pq of None \<Rightarrow> Some (0, self, out) | Some (price, qty) \<Rightarrow>
         do {
           let aggressor = (case Option.bind (pt_side msg) parse_side of Some s \<Rightarrow> s | None \<Rightarrow> Bid);
           seq \<leftarrow> inc_u64 oc (pd_seq self);
           out \<leftarrow> out_set 0 (event_trade recv_ts seq iid (pd_source_id self) LAST_IN_BATCH
             \<lparr> tr_price = price, tr_qty = qty, tr_aggressor = aggressor \<rparr>) out;
           Some (1, self\<lparr> pd_seq := seq \<rparr>, out)
         }
       }))"

text \<open>The loop over the levels of one side; the warning on truncation is only logged.\<close>

fun book_levels :: "bool \<Rightarrow> nat \<Rightarrow> Timestamp \<Rightarrow> InstrumentId \<Rightarrow> InstrumentMeta \<Rightarrow> Side \<Rightarrow> nat \<Rightarrow>
    BookLevel list \<Rightarrow> nat \<times> PolymarketMarketDecoder \<times> HotEvent list \<Rightarrow> decode_result" where
  "book_levels oc D recv_ts iid meta side depth_idx [] st = Some st"
| "book_levels oc D recv_ts iid meta side depth_idx (level # levels) (count, self, out) =
     (if count \<ge> 64 then Some (count, self, out)
      else do {
        pq \<leftarrow> parse_price_qty oc D (bl_price level) (bl_size level) meta;
        case pq of
          None \<Rightarrow> book_levels oc D recv_ts iid meta side (Suc depth_idx) levels (count, self, out)
        | Some (price, qty) \<Rightarrow> do {
            seq \<leftarrow> inc_u64 oc (pd_seq self);
            out \<leftarrow> out_set count (event_book_delta recv_ts seq iid (pd_source_id self) IS_SNAPSHOT
              \<lparr> bd_price = price, bd_qty = qty, bd_side = side, bd_action = New,
                bd_depth = word_of_nat depth_idx \<rparr>) out;
            book_levels oc D recv_ts iid meta side (Suc depth_idx) levels (count + 1, self\<lparr> pd_seq := seq \<rparr>, out)
          }
      })"

definition add_flags :: "EventFlags \<Rightarrow> HotEvent \<Rightarrow> HotEvent" where
  "add_flags f e = e\<lparr> ev_header := (ev_header e)\<lparr> hdr_flags := flags_bitor (hdr_flags (ev_header e)) f \<rparr> \<rparr>"

definition decode_book :: "PolymarketJson \<Rightarrow> bool \<Rightarrow> nat \<Rightarrow> bytes \<Rightarrow> Timestamp \<Rightarrow>
    HotEvent list \<Rightarrow> PolymarketMarketDecoder \<Rightarrow> decode_result" where
  "decode_book pj oc D buf recv_ts out self =
     (case pj_book pj buf of None \<Rightarrow> Some (0, self, out) | Some msg \<Rightarrow>
      (case polymarket_resolve (pb_asset_id msg) self of None \<Rightarrow> Some (0, self, out) | Some (iid, meta) \<Rightarrow>
       if pb_bids msg = [] \<and> pb_asks msg = [] then Some (0, self, out)
       else do {
         st \<leftarrow> book_levels oc D recv_ts iid meta Bid 0 (pb_bids msg) (0, self, out);
         (count, self, out) \<leftarrow> book_levels oc D recv_ts iid meta Ask 0 (pb_asks msg) st;
         (if count > 0
          then do {
            out \<leftarrow> (if count - 1 < length out then Some (out[count - 1 := add_flags LAST_IN_BATCH (out ! (count - 1))])
                    else None);
            Some (count, self, out)
          }
          else Some (count, self, out))
       }))"

definition polymarket_decode :: "PolymarketJson \<Rightarrow> bool \<Rightarrow> nat \<Rightarrow> bytes \<Rightarrow> Timestamp \<Rightarrow>
    HotEvent list \<Rightarrow> PolymarketMarketDecoder \<Rightarrow> decode_result" where
  "polymarket_decode pj oc D buf recv_ts out self =
     (if buf = [] then Some (0, self, out)
      else case peek_type buf of
        None \<Rightarrow> Some (0, self, out)
      | Some msg_type \<Rightarrow>
          (if msg_type = ascii ''price_change'' then decode_price_change pj oc D buf recv_ts out self
           else if msg_type = ascii ''last_trade_price'' then decode_trade pj oc D buf recv_ts out self
           else if msg_type = ascii ''book'' then decode_book pj oc D buf recv_ts out self
           else Some (0, self, out)))"

section \<open>What a snapshot should emit\<close>

definition level_value :: "nat \<Rightarrow> InstrumentMeta \<Rightarrow> bytes \<Rightarrow> bytes \<Rightarrow> (Ticks \<times> Lots) option" where
  "level_value D m price sz = (case decimal_value D price of None \<Rightarrow> None | Some p \<Rightarrow>
     (case decimal_value D sz of None \<Rightarrow> None | Some q \<Rightarrow> Some (ticks_value m p, lots_value m q)))"

fun level_payloads :: "nat \<Rightarrow> InstrumentMeta \<Rightarrow> Side \<Rightarrow> nat \<Rightarrow> BookLevel list \<Rightarrow> BookDeltaPayload list" where
  "level_payloads D m side i [] = []"
| "level_payloads D m side i (l # ls) = (case level_value D m (bl_price l) (bl_size l) of
       None \<Rightarrow> level_payloads D m side (Suc i) ls
     | Some (p, q) \<Rightarrow> \<lparr> bd_price = p, bd_qty = q, bd_side = side, bd_action = New, bd_depth = word_of_nat i \<rparr>
         # level_payloads D m side (Suc i) ls)"

definition snapshot_payloads :: "nat \<Rightarrow> InstrumentMeta \<Rightarrow> PolymarketBookMsg \<Rightarrow> BookDeltaPayload list" where
  "snapshot_payloads D m msg =
     take 64 (level_payloads D m Bid 0 (pb_bids msg) @ level_payloads D m Ask 0 (pb_asks msg))"

fun number_events :: "Timestamp \<Rightarrow> u64 \<Rightarrow> InstrumentId \<Rightarrow> SourceId \<Rightarrow> BookDeltaPayload list \<Rightarrow> HotEvent list" where
  "number_events ts seq iid src [] = []"
| "number_events ts seq iid src (p # ps) =
     event_book_delta ts (seq + 1) iid src IS_SNAPSHOT p # number_events ts (seq + 1) iid src ps"

definition mark_last :: "HotEvent list \<Rightarrow> HotEvent list" where
  "mark_last es = (if es = [] then [] else butlast es @ [add_flags LAST_IN_BATCH (last es)])"

lemma length_number_events [simp]: "length (number_events ts seq iid src ps) = length ps"
  by (induction ps arbitrary: seq) auto

lemma number_events_append:
  "number_events ts seq iid src (ps @ qs) =
     number_events ts seq iid src ps @ number_events ts (seq + word_of_nat (length ps)) iid src qs"
  by (induction ps arbitrary: seq) (auto simp: ac_simps)

lemma parse_price_qty_value:
  "D \<le> 18 \<Longrightarrow> meta_wf m \<Longrightarrow> parse_price_qty oc D price sz m = Some (level_value D m price sz)"
  by (auto simp: parse_price_qty_def parse_ok_value level_value_def split: option.split)

lemma book_levels_emit:
  assumes "D \<le> 18" "meta_wf m"
  shows "length out + length rest = 64 \<Longrightarrow> unat (pd_seq self) + length rest < 2 ^ 64 \<Longrightarrow>
    ps = take (length rest) (level_payloads D m side i ls) \<Longrightarrow>
    book_levels oc D ts iid m side i ls (length out, self, out @ rest) =
      Some (length out + length ps, self\<lparr> pd_seq := pd_seq self + word_of_nat (length ps) \<rparr>,
        out @ number_events ts (pd_seq self) iid (pd_source_id self) ps @ drop (length ps) rest)"
proof (induction ls arbitrary: i self out rest ps)
  case Nil
  then show ?case by simp
next
  case (Cons l ls)
  show ?case
  proof (cases rest)
    case Nil
    with Cons.prems show ?thesis by simp
  next
    case (Cons e rest')
    note rest = this
    show ?thesis
    proof (cases "level_value D m (bl_price l) (bl_size l)")
      case None
      then have "ps = take (length rest) (level_payloads D m side (Suc i) ls)" using Cons.prems(3) by simp
      from Cons.IH [OF Cons.prems(1,2) this] None Cons.prems(1) rest show ?thesis
        by (simp add: parse_price_qty_value [OF assms])
    next
      case (Some pq)
      obtain p q where pq: "pq = (p, q)" by (cases pq)
      let ?pl = "\<lparr> bd_price = p, bd_qty = q, bd_side = side, bd_action = New, bd_depth = word_of_nat i \<rparr>"
      let ?ev = "event_book_delta ts (pd_seq self + 1) iid (pd_source_id self) IS_SNAPSHOT ?pl"
      let ?self = "self\<lparr> pd_seq := pd_seq self + 1 \<rparr>"
      define qs where "qs = take (length rest') (level_payloads D m side (Suc i) ls)"
      have ps: "ps = ?pl # qs" using Cons.prems(3) Some pq rest by (simp add: qs_def)
      have small: "unat (pd_seq self) < 2 ^ 64 - 1" using Cons.prems(2) rest by simp
      then have seq: "unat (pd_seq self + 1) = unat (pd_seq self) + 1"
        using Cons.prems(2) rest by (simp add: unat_word_ariths)
      have "book_levels oc D ts iid m side (Suc i) ls (length (out @ [?ev]), ?self, (out @ [?ev]) @ rest') =
          Some (length (out @ [?ev]) + length qs, ?self\<lparr> pd_seq := pd_seq ?self + word_of_nat (length qs) \<rparr>,
            (out @ [?ev]) @ number_events ts (pd_seq ?self) iid (pd_source_id ?self) qs @ drop (length qs) rest')"
        using Cons.prems(1,2) rest seq by (intro Cons.IH) (simp_all add: qs_def)
      then show ?thesis
        using Some pq Cons.prems(1) rest small
        by (simp add: parse_price_qty_value [OF assms] inc_u64_small out_set_def ps ac_simps)
    qed
  qed
qed

lemma mark_last_update:
  "es \<noteq> [] \<Longrightarrow> (es @ rest)[length es - 1 := add_flags f ((es @ rest) ! (length es - 1))] =
     butlast es @ [add_flags f (last es)] @ rest"
  by (induction es rule: rev_induct) (auto simp: list_update_append nth_append)

lemma decode_book_emits:
  assumes "D \<le> 18" "length out = 64" "pj_book pj buf = Some msg"
    and "polymarket_resolve (pb_asset_id msg) self = Some (iid, m)" "meta_wf m"
    and "unat (pd_seq self) + 64 < 2 ^ 64" "ps = snapshot_payloads D m msg"
  shows "decode_book pj oc D buf ts out self =
    Some (length ps, self\<lparr> pd_seq := pd_seq self + word_of_nat (length ps) \<rparr>,
      mark_last (number_events ts (pd_seq self) iid (pd_source_id self) ps) @ drop (length ps) out)"
proof -
  define bs where "bs = take 64 (level_payloads D m Bid 0 (pb_bids msg))"
  define as where "as = take (64 - length bs) (level_payloads D m Ask 0 (pb_asks msg))"
  let ?self1 = "self\<lparr> pd_seq := pd_seq self + word_of_nat (length bs) \<rparr>"
    and ?out1 = "number_events ts (pd_seq self) iid (pd_source_id self) bs"
  have len: "length bs \<le> 64" by (simp add: bs_def)
  have ps: "ps = bs @ as" by (simp add: assms(7) snapshot_payloads_def bs_def as_def min_def)
  have seq: "unat (pd_seq ?self1) = unat (pd_seq self) + length bs"
    using assms(6) len by (simp add: unat_word_ariths unat_of_nat)
  have 1: "book_levels oc D ts iid m Bid 0 (pb_bids msg) (0, self, out) =
      Some (length bs, ?self1, ?out1 @ drop (length bs) out)"
    using book_levels_emit [OF assms(1,5), of "[]" out self bs Bid 0 "pb_bids msg" oc ts iid] assms(2,6)
    by (simp add: bs_def)
  have 2: "book_levels oc D ts iid m Ask 0 (pb_asks msg) (length ?out1, ?self1, ?out1 @ drop (length bs) out) =
      Some (length ?out1 + length as, ?self1\<lparr> pd_seq := pd_seq ?self1 + word_of_nat (length as) \<rparr>,
        ?out1 @ number_events ts (pd_seq ?self1) iid (pd_source_id ?self1) as @ drop (length as) (drop (length bs) out))"
    using assms(2,6) len seq by (intro book_levels_emit [OF assms(1,5)]) (simp_all add: as_def)
  let ?evs = "number_events ts (pd_seq self) iid (pd_source_id self) ps"
  have run: "do { st \<leftarrow> book_levels oc D ts iid m Bid 0 (pb_bids msg) (0, self, out);
        book_levels oc D ts iid m Ask 0 (pb_asks msg) st } =
      Some (length ps, self\<lparr> pd_seq := pd_seq self + word_of_nat (length ps) \<rparr>, ?evs @ drop (length ps) out)"
    using 1 2 by (simp add: ps number_events_append ac_simps)
  show ?thesis
  proof (cases "ps = []")
    case True
    with run assms(3,4) show ?thesis
      by (auto simp: decode_book_def mark_last_def bind_assoc [symmetric])
  next
    case False
    then have "?evs \<noteq> []" by (cases ps) auto
    then have upd: "(?evs @ drop (length ps) out)[length ps - 1 :=
        add_flags LAST_IN_BATCH ((?evs @ drop (length ps) out) ! (length ps - 1))] =
        mark_last ?evs @ drop (length ps) out"
      using mark_last_update [of ?evs "drop (length ps) out" LAST_IN_BATCH] by (simp add: mark_last_def)
    have "\<not> (pb_bids msg = [] \<and> pb_asks msg = [])"
      using False by (auto simp: assms(7) snapshot_payloads_def)
    moreover have "length ps - 1 < length (?evs @ drop (length ps) out)" using False by (cases ps) auto
    ultimately show ?thesis
      using False run upd assms(3,4) by (simp add: decode_book_def bind_assoc [symmetric])
  qed
qed

section \<open>Properties\<close>

text \<open>C11. A book snapshot is decoded level by level, exactly. For a message whose token the registry
  resolves, the decoder writes one event per level whose price and size are numerals that fit, bids
  before asks, each in the order of the message, with ticks and lots truncated from the exact decimal
  values, at most 64 of them; the events carry consecutive sequence numbers, all the snapshot flag and
  the last one the end-of-batch flag; the rest of the output array is left alone and nothing panics.\<close>

theorem polymarket_book_exact:
  assumes "D \<le> 18" "length out = 64" "pj_book pj buf = Some msg"
    and "polymarket_resolve (pb_asset_id msg) self = Some (iid, m)" "meta_wf m"
    and "unat (pd_seq self) + 64 < 2 ^ 64" "ps = snapshot_payloads D m msg"
  shows "decode_book pj oc D buf ts out self =
    Some (length ps, self\<lparr> pd_seq := pd_seq self + word_of_nat (length ps) \<rparr>,
      mark_last (number_events ts (pd_seq self) iid (pd_source_id self) ps) @ drop (length ps) out)"
  using assms by (rule decode_book_emits)

section \<open>Every message\<close>


lemma decode_price_change_total:
  assumes "D \<le> 18" "length out = 64" "unat (pd_seq self) + 64 < 2 ^ 64"
    and "\<And>iid m. registry_meta iid (pd_registry self) = Some m \<Longrightarrow> meta_wf m"
  shows "\<exists>n out'. decode_price_change pj oc D buf ts out self =
      Some (n, self\<lparr> pd_seq := pd_seq self + word_of_nat n \<rparr>, out') \<and> n \<le> 64 \<and> length out' = 64 \<and> drop n out' = drop n out \<and>
      event_seqs (take n out') = next_seqs (pd_seq self) n"
proof (cases "pj_price_change pj buf")
  case (Some msg)
  have idle: "\<exists>n out'. Some (0, self, out) = Some (n, self\<lparr> pd_seq := pd_seq self + word_of_nat n \<rparr>, out') \<and>
      n \<le> 64 \<and> length out' = 64 \<and> drop n out' = drop n out \<and>
      event_seqs (take n out') = next_seqs (pd_seq self) n" using assms(2) by (intro exI [of _ 0]) auto
  show ?thesis
  proof (cases "polymarket_resolve (pc_asset_id msg) self")
    case (Some im)
    obtain iid m where im: "im = (iid, m)" by (cases im)
    have "meta_wf m" using Some assms(4) by (auto simp: im polymarket_resolve_def elim!: bind_eq_SomeE)
    then show ?thesis
      using \<open>pj_price_change pj buf = Some msg\<close> Some idle assms(2,3)
      by (auto simp: im decode_price_change_def parse_price_qty_value [OF assms(1)] inc_u64_small out_set_def event_book_delta_def
          event_trade_def event_header_def intro!: exI [of _ 1] split: option.split)
  qed (use Some idle in \<open>simp add: decode_price_change_def\<close>)
qed (use assms(2) in \<open>auto simp: decode_price_change_def intro!: exI [of _ 0]\<close>)

lemma decode_trade_total:
  assumes "D \<le> 18" "length out = 64" "unat (pd_seq self) + 64 < 2 ^ 64"
    and "\<And>iid m. registry_meta iid (pd_registry self) = Some m \<Longrightarrow> meta_wf m"
  shows "\<exists>n out'. decode_trade pj oc D buf ts out self =
      Some (n, self\<lparr> pd_seq := pd_seq self + word_of_nat n \<rparr>, out') \<and> n \<le> 64 \<and> length out' = 64 \<and> drop n out' = drop n out \<and>
      event_seqs (take n out') = next_seqs (pd_seq self) n"
proof (cases "pj_trade pj buf")
  case (Some msg)
  have idle: "\<exists>n out'. Some (0, self, out) = Some (n, self\<lparr> pd_seq := pd_seq self + word_of_nat n \<rparr>, out') \<and>
      n \<le> 64 \<and> length out' = 64 \<and> drop n out' = drop n out \<and>
      event_seqs (take n out') = next_seqs (pd_seq self) n" using assms(2) by (intro exI [of _ 0]) auto
  show ?thesis
  proof (cases "polymarket_resolve (pt_asset_id msg) self")
    case (Some im)
    obtain iid m where im: "im = (iid, m)" by (cases im)
    have "meta_wf m" using Some assms(4) by (auto simp: im polymarket_resolve_def elim!: bind_eq_SomeE)
    then show ?thesis
      using \<open>pj_trade pj buf = Some msg\<close> Some idle assms(2,3)
      by (auto simp: im decode_trade_def parse_price_qty_value [OF assms(1)] inc_u64_small out_set_def event_book_delta_def
          event_trade_def event_header_def intro!: exI [of _ 1] split: option.split)
  qed (use Some idle in \<open>simp add: decode_trade_def\<close>)
qed (use assms(2) in \<open>auto simp: decode_trade_def intro!: exI [of _ 0]\<close>)

lemma length_mark_last [simp]: "length (mark_last es) = length es"
  by (cases es rule: rev_cases) (simp_all add: mark_last_def)

lemma event_seqs_number_events [simp]: "event_seqs (number_events ts seq iid src ps) = next_seqs seq (length ps)"
  by (induction ps arbitrary: seq) (simp_all add: event_book_delta_def event_header_def)

lemma event_seqs_mark_last [simp]: "event_seqs (mark_last es) = event_seqs es"
  by (cases es rule: rev_cases) (simp_all add: mark_last_def add_flags_def)

lemma decode_book_total:
  assumes "D \<le> 18" "length out = 64" "unat (pd_seq self) + 64 < 2 ^ 64"
    and "\<And>iid m. registry_meta iid (pd_registry self) = Some m \<Longrightarrow> meta_wf m"
  shows "\<exists>n out'. decode_book pj oc D buf ts out self =
      Some (n, self\<lparr> pd_seq := pd_seq self + word_of_nat n \<rparr>, out') \<and> n \<le> 64 \<and> length out' = 64 \<and> drop n out' = drop n out \<and>
      event_seqs (take n out') = next_seqs (pd_seq self) n"
proof (cases "\<exists>msg iid m. pj_book pj buf = Some msg \<and> polymarket_resolve (pb_asset_id msg) self = Some (iid, m)")
  case True
  then obtain msg iid m where r: "pj_book pj buf = Some msg" "polymarket_resolve (pb_asset_id msg) self = Some (iid, m)"
    by blast
  have wf: "meta_wf m" using r(2) assms(4) by (auto simp: polymarket_resolve_def elim!: bind_eq_SomeE)
  have "length (snapshot_payloads D m msg) \<le> 64" by (simp add: snapshot_payloads_def)
  with decode_book_emits [OF assms(1,2) r wf assms(3) refl, of oc ts] assms(2) show ?thesis by auto
next
  case False
  then have "decode_book pj oc D buf ts out self = Some (0, self, out)"
    by (auto simp: decode_book_def split: option.split)
  with assms(2) show ?thesis by (intro exI [of _ 0]) auto
qed

lemma polymarket_decode_returns:
  assumes "D \<le> 18" "length out = 64" "unat (pd_seq self) + 64 < 2 ^ 64"
    and "\<And>iid m. registry_meta iid (pd_registry self) = Some m \<Longrightarrow> meta_wf m"
  shows "\<exists>n out'. polymarket_decode pj oc D buf ts out self =
      Some (n, self\<lparr> pd_seq := pd_seq self + word_of_nat n \<rparr>, out') \<and> n \<le> 64 \<and> length out' = 64 \<and> drop n out' = drop n out \<and>
      event_seqs (take n out') = next_seqs (pd_seq self) n"
proof -
  have idle: "\<exists>n out'. Some (0, self, out) = Some (n, self\<lparr> pd_seq := pd_seq self + word_of_nat n \<rparr>, out') \<and>
      n \<le> 64 \<and> length out' = 64 \<and> drop n out' = drop n out \<and>
      event_seqs (take n out') = next_seqs (pd_seq self) n" using assms(2) by (intro exI [of _ 0]) auto
  note totals = decode_price_change_total [where pj = pj and oc = oc and buf = buf and ts = ts, OF assms]
    decode_trade_total [where pj = pj and oc = oc and buf = buf and ts = ts, OF assms]
    decode_book_total [where pj = pj and oc = oc and buf = buf and ts = ts, OF assms]
  show ?thesis
    unfolding polymarket_decode_def using idle totals by (simp only: split: option.split if_split) blast
qed

text \<open>The decoder survives every input. Whatever bytes arrive and whatever the JSON parsers make of
  them, with positive tick and lot sizes in the registry the call returns without a panic, reports at
  most 64 events, writes nothing past them, gives them the next sequence numbers and
  changes nothing else.\<close>

theorem polymarket_decode_total:
  assumes "D \<le> 18" "length out = 64" "unat (pd_seq self) + 64 < 2 ^ 64"
    and "\<And>iid m. registry_meta iid (pd_registry self) = Some m \<Longrightarrow> meta_wf m"
  shows "\<exists>n out'. polymarket_decode pj oc D buf ts out self =
      Some (n, self\<lparr> pd_seq := pd_seq self + word_of_nat n \<rparr>, out') \<and> n \<le> 64 \<and> length out' = 64 \<and> drop n out' = drop n out \<and>
      event_seqs (take n out') = next_seqs (pd_seq self) n"
  using assms by (rule polymarket_decode_returns)

section \<open>Message type detection\<close>

lemma memchr_find_from_Some:
  "memchr_find_from h n i k = Some j \<longleftrightarrow>
     i \<le> j \<and> j < i + k \<and> take (length n) (drop j h) = n \<and> (\<forall>l. i \<le> l \<and> l < j \<longrightarrow> take (length n) (drop l h) \<noteq> n)"
proof (induction k arbitrary: i)
  case (Suc k)
  show ?case
  proof (cases "take (length n) (drop i h) = n")
    case True
    then show ?thesis by (auto intro: le_antisym simp: not_less [symmetric])
  next
    case False
    then show ?thesis unfolding memchr_find_from.simps using Suc.IH [of "Suc i"] Suc_le_eq le_less by auto
  qed
qed simp

text \<open>\<open>memchr_find\<close> is the first occurrence.\<close>

lemma memchr_find_first:
  "memchr_find h n = Some j \<longleftrightarrow>
     j + length n \<le> length h \<and> take (length n) (drop j h) = n \<and> (\<forall>l<j. take (length n) (drop l h) \<noteq> n)"
  by (auto simp: memchr_find_def memchr_find_from_Some simp del: memchr_find_from.simps)

lemma memchr_byte_from_Some:
  "memchr_byte_from b i bs = Some (i + j) \<longleftrightarrow> j < length bs \<and> bs ! j = b \<and> b \<notin> set (take j bs)"
proof (induction bs arbitrary: i j)
  case (Cons c bs)
  have ge: "memchr_byte_from b i' xs = Some k \<Longrightarrow> i' \<le> k" for i' k xs
    by (induction xs arbitrary: i') (auto split: if_splits dest: Suc_leD)
  show ?case
  proof (cases j)
    case 0
    then show ?thesis using ge [of "Suc i" bs i] by auto
  next
    case (Suc j')
    then show ?thesis using Cons.IH [of "Suc i" j'] by auto
  qed
qed simp

section \<open>Witnesses\<close>

definition sample_json :: PolymarketJson where
  "sample_json = \<lparr> pj_book = (\<lambda>buf. Some \<lparr> pb_asset_id = [49],
       pb_bids = [\<lparr> bl_price = [0x2E, 0x35], bl_size = [0x31] \<rparr>, \<lparr> bl_price = [0x78], bl_size = [0x31] \<rparr>],
       pb_asks = [\<lparr> bl_price = [0x2E, 0x36], bl_size = [0x32] \<rparr>] \<rparr>),
     pj_price_change = (\<lambda>buf. None), pj_trade = (\<lambda>buf. None) \<rparr>"

definition sample_decoder :: PolymarketMarketDecoder where
  "sample_decoder = polymarket_decoder_new 7 sample_bound"

definition sample_out :: "HotEvent list" where
  "sample_out = replicate 64 (event_heartbeat 0 0 7 flags_EMPTY \<lparr> hb_counter = 0 \<rparr>)"

lemma sample_resolve: "polymarket_resolve [49] sample_decoder = Some (1, sample_meta)"
  by (simp add: polymarket_resolve_def sample_decoder_def polymarket_decoder_new_def by_polymarket_token_id_def
      registry_meta_def sample_bound_def sample_pair_eq bind_polymarket_current_def bind_polymarket_next_def
      polymarket_of_def set_polymarket_def fresh_record_def sample_window_def polymarket_default_def remove_token_def)

lemma sample_registry_meta_wf: "registry_meta iid sample_bound = Some m \<Longrightarrow> meta_wf m"
  using sample_meta_wf
  by (auto simp: registry_meta_def sample_bound_def sample_pair_eq bind_polymarket_current_def bind_polymarket_next_def
      polymarket_of_def set_polymarket_def fresh_record_def split: if_splits)

lemma sample_payloads:
  "snapshot_payloads 6 sample_meta (the (pj_book sample_json buf)) =
     [\<lparr> bd_price = 50, bd_qty = 100, bd_side = Bid, bd_action = New, bd_depth = 0 \<rparr>,
      \<lparr> bd_price = 60, bd_qty = 200, bd_side = Ask, bd_action = New, bd_depth = 0 \<rparr>]"
  by (simp add: snapshot_payloads_def sample_json_def level_value_def decimal_value_def decimal_parts_def
      strip_sign_def is_digit_uint parse_spec_def dec_val_def in_i64_def ticks_value_def lots_value_def
      sample_meta_def sint_numeral_i64 sdiv_nonneg)

theorem polymarket_book_exact_witness:
  "\<exists>out'. decode_book sample_json True 6 [] 5 sample_out sample_decoder = Some (2, sample_decoder\<lparr> pd_seq := 2 \<rparr>, out') \<and>
    hdr_flags (ev_header (out' ! 1)) = IS_SNAPSHOT OR LAST_IN_BATCH"
proof -
  let ?msg = "the (pj_book sample_json [])"
  have "pj_book sample_json [] = Some ?msg" "pb_asset_id ?msg = [49]" by (simp_all add: sample_json_def)
  moreover have "length sample_out = 64" "pd_seq sample_decoder = 0"
    by (simp_all add: sample_out_def sample_decoder_def polymarket_decoder_new_def)
  ultimately show ?thesis
    using polymarket_book_exact [of 6 sample_out sample_json "[]" ?msg sample_decoder 1 sample_meta _ True 5]
    by (simp add: sample_resolve sample_meta_wf sample_payloads mark_last_def add_flags_def flags_bitor_def
        event_book_delta_def event_header_def)
qed

theorem polymarket_decode_total_witness:
  "\<exists>n out'. polymarket_decode sample_json True 6 [1, 2] 5 sample_out sample_decoder =
      Some (n, sample_decoder\<lparr> pd_seq := word_of_nat n \<rparr>, out') \<and> n \<le> 64"
proof -
  have "meta_wf m" if "registry_meta iid (pd_registry sample_decoder) = Some m" for iid m
    using that sample_registry_meta_wf by (simp add: sample_decoder_def polymarket_decoder_new_def)
  moreover have "length sample_out = 64" "pd_seq sample_decoder = 0"
    by (simp_all add: sample_out_def sample_decoder_def polymarket_decoder_new_def)
  ultimately show ?thesis
    using polymarket_decode_total [of 6 sample_out sample_decoder sample_json True "[1, 2]" 5] by auto
qed

end
