(* ===== verification/Binance_Decoder.thy ===== *)
theory Binance_Decoder
  imports Decoder_Core
begin

text \<open>
  The Binance book-ticker decoder (\<open>crates/binance/src/decoder.rs\<close> and \<open>schema.rs\<close>): a table of at
  most eight symbols held in fixed arrays, and the translation of a ticker into a top-of-book event. The
  table is proved to be the list of mappings it was built from.
\<close>

section \<open>Messages and table\<close>

definition MAX_BINANCE_SYMBOLS :: nat where
  "MAX_BINANCE_SYMBOLS = 8"

definition MAX_SYMBOL_LEN :: nat where
  "MAX_SYMBOL_LEN = 16"

record BinanceBookTicker =
  bt_e :: bytes
  bt_s :: bytes
  bt_b :: bytes
  bt_bid_qty :: bytes
  bt_a :: bytes
  bt_ask_qty :: bytes

record BinanceCombinedStream =
  bc_stream :: bytes
  bc_data :: BinanceBookTicker

text \<open>The JSON parsers, code of a third-party crate: arguments of the decoder.\<close>

record BinanceJson =
  bj_ticker :: "bytes \<Rightarrow> BinanceBookTicker option"
  bj_combined :: "bytes \<Rightarrow> BinanceCombinedStream option"

record BinanceSymbolMapping =
  bm_symbol :: bytes
  bm_instrument_id :: InstrumentId
  bm_meta :: InstrumentMeta

datatype DecoderError = TooManySymbols | EmptyMappings | SymbolTooLong

record BinanceDecoder =
  bd_seq :: u64
  bd_source_id :: SourceId
  bd_instrument_ids :: "InstrumentId list"
  bd_metas :: "InstrumentMeta list"
  bd_symbol_names :: "bytes list"
  bd_symbol_lens :: "u8 list"
  bd_len :: usize
  bd_combined_stream :: bool

text \<open>The loop of \<open>new\<close> over the mappings; a symbol is copied to the front of a zeroed array.\<close>

fun fill_mappings :: "nat \<Rightarrow> BinanceSymbolMapping list \<Rightarrow> BinanceDecoder \<Rightarrow> DecoderError + BinanceDecoder" where
  "fill_mappings i [] self = Inr self"
| "fill_mappings i (m # ms) self =
     (let self = self\<lparr> bd_instrument_ids := (bd_instrument_ids self)[i := bm_instrument_id m],
                       bd_metas := (bd_metas self)[i := bm_meta m] \<rparr>;
          symb = bm_symbol m
      in if length symb > MAX_SYMBOL_LEN then Inl SymbolTooLong
         else fill_mappings (Suc i) ms (self\<lparr>
           bd_symbol_names := (bd_symbol_names self)[i := symb @ drop (length symb) (bd_symbol_names self ! i)],
           bd_symbol_lens := (bd_symbol_lens self)[i := word_of_nat (length symb)] \<rparr>))"

definition binance_new :: "SourceId \<Rightarrow> BinanceSymbolMapping list \<Rightarrow> DecoderError + BinanceDecoder" where
  "binance_new source_id mappings =
     (if mappings = [] then Inl EmptyMappings
      else if length mappings > MAX_BINANCE_SYMBOLS then Inl TooManySymbols
      else fill_mappings 0 mappings
        \<lparr> bd_seq = 0, bd_source_id = source_id,
          bd_instrument_ids = replicate MAX_BINANCE_SYMBOLS InstrumentId_NONE,
          bd_metas = replicate MAX_BINANCE_SYMBOLS (bm_meta (hd mappings)),
          bd_symbol_names = replicate MAX_BINANCE_SYMBOLS (replicate MAX_SYMBOL_LEN 0),
          bd_symbol_lens = replicate MAX_BINANCE_SYMBOLS 0,
          bd_len = length mappings, bd_combined_stream = (length mappings > 1) \<rparr>)"

definition set_combined_stream :: "bool \<Rightarrow> BinanceDecoder \<Rightarrow> BinanceDecoder" where
  "set_combined_stream combined self = self\<lparr> bd_combined_stream := combined \<rparr>"

text \<open>The loop over \<open>0..len\<close>; an index past the arrays would panic.\<close>

fun find_symbol_from :: "BinanceDecoder \<Rightarrow> bytes \<Rightarrow> nat \<Rightarrow> nat \<Rightarrow> nat option panics" where
  "find_symbol_from self symb i 0 = Some None"
| "find_symbol_from self symb i (Suc k) =
     (if i < length (bd_symbol_lens self) \<and> i < length (bd_symbol_names self)
      then let slen = unat (bd_symbol_lens self ! i)
           in if slen = length symb
              then (if slen \<le> length (bd_symbol_names self ! i)
                    then (if take slen (bd_symbol_names self ! i) = symb then Some (Some i)
                          else find_symbol_from self symb (Suc i) k)
                    else None)
              else find_symbol_from self symb (Suc i) k
      else None)"

definition find_symbol :: "BinanceDecoder \<Rightarrow> bytes \<Rightarrow> nat option panics" where
  "find_symbol self symb = find_symbol_from self symb 0 (bd_len self)"

section \<open>Decoding\<close>

definition decode_ticker :: "bool \<Rightarrow> nat \<Rightarrow> BinanceBookTicker \<Rightarrow> InstrumentMeta \<Rightarrow> TopOfBookPayload option panics" where
  "decode_ticker oc D ticker meta =
     do {
       bid_price \<leftarrow> parse_ok oc D (bt_b ticker);
       case bid_price of None \<Rightarrow> Some None | Some bid_price \<Rightarrow> do {
         ask_price \<leftarrow> parse_ok oc D (bt_a ticker);
         case ask_price of None \<Rightarrow> Some None | Some ask_price \<Rightarrow> do {
           bid_qty \<leftarrow> parse_ok oc D (bt_bid_qty ticker);
           case bid_qty of None \<Rightarrow> Some None | Some bid_qty \<Rightarrow> do {
             ask_qty \<leftarrow> parse_ok oc D (bt_ask_qty ticker);
             case ask_qty of None \<Rightarrow> Some None | Some ask_qty \<Rightarrow> do {
               bid_ticks \<leftarrow> price_to_ticks meta bid_price;
               case bid_ticks of None \<Rightarrow> Some None | Some bid_ticks \<Rightarrow> do {
                 ask_ticks \<leftarrow> price_to_ticks meta ask_price;
                 case ask_ticks of None \<Rightarrow> Some None | Some ask_ticks \<Rightarrow> do {
                   bid_lots \<leftarrow> qty_to_lots meta bid_qty;
                   case bid_lots of None \<Rightarrow> Some None | Some bid_lots \<Rightarrow> do {
                     ask_lots \<leftarrow> qty_to_lots meta ask_qty;
                     Some (case ask_lots of None \<Rightarrow> None | Some ask_lots \<Rightarrow>
                       Some \<lparr> tob_bid_price = bid_ticks, tob_bid_qty = bid_lots,
                              tob_ask_price = ask_ticks, tob_ask_qty = ask_lots \<rparr>)
                   }
                 }
               }
             }
           }
         }
       }
     }"

definition binance_decode :: "BinanceJson \<Rightarrow> bool \<Rightarrow> nat \<Rightarrow> bytes \<Rightarrow> Timestamp \<Rightarrow>
    HotEvent list \<Rightarrow> BinanceDecoder \<Rightarrow> (nat \<times> BinanceDecoder \<times> HotEvent list) panics" where
  "binance_decode bj oc D buf recv_ts out self =
     (case (if bd_combined_stream self then map_option bc_data (bj_combined bj buf) else bj_ticker bj buf) of
        None \<Rightarrow> Some (0, self, out)
      | Some ticker \<Rightarrow> do {
          found \<leftarrow> find_symbol self (bt_s ticker);
          case found of None \<Rightarrow> Some (0, self, out) | Some idx \<Rightarrow>
          (if idx < length (bd_metas self) \<and> idx < length (bd_instrument_ids self)
           then do {
             payload \<leftarrow> decode_ticker oc D ticker (bd_metas self ! idx);
             case payload of None \<Rightarrow> Some (0, self, out) | Some payload \<Rightarrow> do {
               seq \<leftarrow> inc_u64 oc (bd_seq self);
               out \<leftarrow> out_set 0 (event_top_of_book recv_ts seq (bd_instrument_ids self ! idx) (bd_source_id self)
                 flags_EMPTY payload) out;
               Some (1, self\<lparr> bd_seq := seq \<rparr>, out)
             }
           }
           else None)
        })"

section \<open>The table is the list of mappings\<close>

definition entry_ok :: "BinanceSymbolMapping \<Rightarrow> nat \<Rightarrow> BinanceDecoder \<Rightarrow> bool" where
  "entry_ok m i self \<longleftrightarrow> bd_instrument_ids self ! i = bm_instrument_id m \<and> bd_metas self ! i = bm_meta m \<and>
     length (bm_symbol m) \<le> 16 \<and> unat (bd_symbol_lens self ! i) = length (bm_symbol m) \<and>
     take (length (bm_symbol m)) (bd_symbol_names self ! i) = bm_symbol m"

definition table_ok :: "BinanceSymbolMapping list \<Rightarrow> BinanceDecoder \<Rightarrow> bool" where
  "table_ok ms self \<longleftrightarrow> length (bd_instrument_ids self) = 8 \<and> length (bd_metas self) = 8 \<and>
     length (bd_symbol_names self) = 8 \<and> length (bd_symbol_lens self) = 8 \<and>
     list_all (\<lambda>n. length n = 16) (bd_symbol_names self) \<and> length ms \<le> 8 \<and>
     (\<forall>i < length ms. entry_ok (ms ! i) i self)"

lemma fill_mappings_ok:
  assumes "table_ok done self" "length done + length ms \<le> 8" "fill_mappings (length done) ms self = Inr self'"
  shows "table_ok (done @ ms) self' \<and> bd_len self' = bd_len self \<and> bd_source_id self' = bd_source_id self \<and>
    bd_seq self' = bd_seq self \<and> bd_combined_stream self' = bd_combined_stream self"
  using assms
proof (induction ms arbitrary: self "done")
  case Nil
  then show ?case by simp
next
  case (Cons m ms)
  let ?i = "length done"
  let ?self = "self\<lparr> bd_instrument_ids := (bd_instrument_ids self)[?i := bm_instrument_id m],
      bd_metas := (bd_metas self)[?i := bm_meta m],
      bd_symbol_names := (bd_symbol_names self)[?i := bm_symbol m @ drop (length (bm_symbol m)) (bd_symbol_names self ! ?i)],
      bd_symbol_lens := (bd_symbol_lens self)[?i := word_of_nat (length (bm_symbol m))] \<rparr>"
  have short: "length (bm_symbol m) \<le> 16" and rest: "fill_mappings (length (done @ [m])) ms ?self = Inr self'"
    using Cons.prems(3) by (auto simp: Let_def MAX_SYMBOL_LEN_def split: if_splits)
  have i: "?i < 8" using Cons.prems(2) by simp
  have len: "length (bd_symbol_names self ! ?i) = 16"
    using Cons.prems(1) i by (simp add: table_ok_def list_all_length)
  have lenm: "unat (word_of_nat (length (bm_symbol m)) :: u8) = length (bm_symbol m)"
    using short by (simp add: unat_of_nat)
  have "entry_ok ((done @ [m]) ! j) j ?self" if "j < length (done @ [m])" for j
  proof (cases "j = ?i")
    case True
    with Cons.prems(1) i short lenm show ?thesis by (simp add: entry_ok_def table_ok_def)
  next
    case False
    then have "j < ?i" using that by simp
    with Cons.prems(1) False show ?thesis by (simp add: entry_ok_def table_ok_def nth_append)
  qed
  moreover have "list_all (\<lambda>n. length n = 16) (bd_symbol_names ?self)"
    using Cons.prems(1) len short i by (auto simp: table_ok_def list_all_length nth_list_update)
  ultimately have "table_ok (done @ [m]) ?self" using Cons.prems(1) i by (simp add: table_ok_def)
  from Cons.IH [OF this _ rest] Cons.prems(2) show ?case by simp
qed

lemma binance_new_table:
  assumes "binance_new src ms = Inr self"
  shows "table_ok ms self" "bd_len self = length ms" "ms \<noteq> []" "bd_source_id self = src" "bd_seq self = 0"
    "bd_combined_stream self \<longleftrightarrow> length ms > 1"
proof -
  define d0 where "d0 = \<lparr> bd_seq = 0, bd_source_id = src,
          bd_instrument_ids = replicate MAX_BINANCE_SYMBOLS InstrumentId_NONE,
          bd_metas = replicate MAX_BINANCE_SYMBOLS (bm_meta (hd ms)),
          bd_symbol_names = replicate MAX_BINANCE_SYMBOLS (replicate MAX_SYMBOL_LEN 0),
          bd_symbol_lens = replicate MAX_BINANCE_SYMBOLS 0,
          bd_len = length ms, bd_combined_stream = (length ms > 1) \<rparr>"
  have "ms \<noteq> []" "length ms \<le> 8" and fill: "fill_mappings (length []) ms d0 = Inr self"
    using assms by (auto simp: binance_new_def d0_def MAX_BINANCE_SYMBOLS_def split: if_splits)
  moreover have "table_ok [] d0"
    by (simp add: table_ok_def d0_def MAX_BINANCE_SYMBOLS_def MAX_SYMBOL_LEN_def list_all_length)
  ultimately show "table_ok ms self" "bd_len self = length ms" "ms \<noteq> []" "bd_source_id self = src" "bd_seq self = 0"
    "bd_combined_stream self \<longleftrightarrow> length ms > 1"
    using fill_mappings_ok [of "[]" d0 ms self] by (simp_all add: d0_def)
qed

lemma fill_mappings_error:
  "fill_mappings i ms self = Inl e \<longleftrightarrow> e = SymbolTooLong \<and> (\<exists>m\<in>set ms. length (bm_symbol m) > 16)"
  by (induction ms arbitrary: i self) (auto simp: Let_def MAX_SYMBOL_LEN_def)

text \<open>The index \<open>find_symbol\<close> returns is that of the first mapping with the symbol.\<close>

fun first_index :: "bytes \<Rightarrow> nat \<Rightarrow> BinanceSymbolMapping list \<Rightarrow> nat option" where
  "first_index s i [] = None"
| "first_index s i (m # ms) = (if bm_symbol m = s then Some i else first_index s (Suc i) ms)"

lemma find_symbol_from_first:
  assumes "table_ok (done @ ms) self"
  shows "find_symbol_from self s (length done) (length ms) = Some (first_index s (length done) ms)"
  using assms
proof (induction ms arbitrary: "done")
  case (Cons m ms)
  let ?i = "length done"
  have "entry_ok ((done @ m # ms) ! ?i) ?i self"
    using Cons.prems unfolding table_ok_def by (metis add_gr_0 length_append length_Cons less_add_same_cancel1 zero_less_Suc)
  then have e: "entry_ok m ?i self" by simp
  have i: "?i < 8" "length (bd_symbol_names self ! ?i) = 16"
    using Cons.prems by (simp_all add: table_ok_def list_all_length)
  have IH: "find_symbol_from self s (Suc ?i) (length ms) = Some (first_index s (Suc ?i) ms)"
    using Cons.IH [of "done @ [m]"] Cons.prems by simp
  show ?case
    using i e IH Cons.prems by (auto simp: entry_ok_def table_ok_def Let_def)
qed simp

lemma find_symbol_first:
  "table_ok ms self \<Longrightarrow> bd_len self = length ms \<Longrightarrow> find_symbol self s = Some (first_index s 0 ms)"
  using find_symbol_from_first [of "[]" ms self s] by (simp add: find_symbol_def)

lemma first_index_Some:
  "first_index s i ms = Some k \<Longrightarrow> \<exists>m. find (\<lambda>m. bm_symbol m = s) ms = Some m \<and> i \<le> k \<and> k - i < length ms \<and> ms ! (k - i) = m"
proof (induction ms arbitrary: i)
  case (Cons m ms)
  show ?case
  proof (cases "bm_symbol m = s")
    case True
    with Cons.prems show ?thesis by simp
  next
    case False
    with Cons.prems Cons.IH [of "Suc i"] obtain m' where
      "find (\<lambda>m. bm_symbol m = s) ms = Some m'" "Suc i \<le> k" "k - Suc i < length ms" "ms ! (k - Suc i) = m'" by auto
    with False show ?thesis by (auto simp: nth_Cons' Suc_diff_Suc)
  qed
qed simp

lemma first_index_None: "first_index s i ms = None \<longleftrightarrow> find (\<lambda>m. bm_symbol m = s) ms = None"
  by (induction ms arbitrary: i) auto

section \<open>Properties\<close>

definition ticker_value :: "nat \<Rightarrow> BinanceBookTicker \<Rightarrow> InstrumentMeta \<Rightarrow> TopOfBookPayload option" where
  "ticker_value D t m = (case (decimal_value D (bt_b t), decimal_value D (bt_a t),
        decimal_value D (bt_bid_qty t), decimal_value D (bt_ask_qty t)) of
       (Some b, Some a, Some bq, Some aq) \<Rightarrow> Some \<lparr> tob_bid_price = ticks_value m b, tob_bid_qty = lots_value m bq,
         tob_ask_price = ticks_value m a, tob_ask_qty = lots_value m aq \<rparr>
     | _ \<Rightarrow> None)"

lemma decode_ticker_value: "D \<le> 18 \<Longrightarrow> meta_wf m \<Longrightarrow> decode_ticker oc D t m = Some (ticker_value D t m)"
  by (auto simp: decode_ticker_def ticker_value_def parse_ok_value split: option.split)

lemma binance_decode_by_table:
  assumes "D \<le> 18" "binance_new src ms = Inr d0" "list_all (\<lambda>m. meta_wf (bm_meta m)) ms"
    and "self = d0\<lparr> bd_seq := seq, bd_combined_stream := comb \<rparr>" "unat seq < 2 ^ 64 - 1" "out \<noteq> []"
    and "msg = (if comb then map_option bc_data (bj_combined bj buf) else bj_ticker bj buf)"
  shows "binance_decode bj oc D buf ts out self = Some
    (case msg of None \<Rightarrow> (0, self, out) | Some t \<Rightarrow>
     (case find (\<lambda>m. bm_symbol m = bt_s t) ms of None \<Rightarrow> (0, self, out) | Some m \<Rightarrow>
      (case ticker_value D t (bm_meta m) of None \<Rightarrow> (0, self, out) | Some p \<Rightarrow>
        (1, self\<lparr> bd_seq := seq + 1 \<rparr>,
         out[0 := event_top_of_book ts (seq + 1) (bm_instrument_id m) src flags_EMPTY p]))))"
proof (cases msg)
  case None
  with assms(4,7) show ?thesis by (simp add: binance_decode_def split: if_splits)
next
  case (Some t)
  have tab: "table_ok ms self" "bd_len self = length ms" and src: "bd_source_id self = src"
    using binance_new_table [OF assms(2)] by (auto simp: assms(4) table_ok_def entry_ok_def)
  have read: "(if bd_combined_stream self then map_option bc_data (bj_combined bj buf) else bj_ticker bj buf) = Some t"
    using Some assms(4,7) by simp
  show ?thesis
  proof (cases "first_index (bt_s t) 0 ms")
    case None
    then have "find (\<lambda>m. bm_symbol m = bt_s t) ms = None" by (simp add: first_index_None)
    with None read \<open>msg = Some t\<close> tab show ?thesis by (simp add: binance_decode_def find_symbol_first)
  next
    case (Some k)
    with first_index_Some [OF Some] obtain m where m: "find (\<lambda>m. bm_symbol m = bt_s t) ms = Some m"
      "k < length ms" "ms ! k = m" by auto
    have fs: "find_symbol self (bt_s t) = Some (Some k)" using find_symbol_first [OF tab] Some by simp
    have e: "k < length (bd_metas self)" "k < length (bd_instrument_ids self)" "bd_metas self ! k = bm_meta m"
      "bd_instrument_ids self ! k = bm_instrument_id m" using tab m by (auto simp: table_ok_def entry_ok_def)
    have wf: "meta_wf (bm_meta m)" using assms(3) m by (auto simp: list_all_length)
    have seq: "bd_seq self = seq" by (simp add: assms(4))
    show ?thesis
      using read fs e seq src \<open>msg = Some t\<close> m(1) assms(5,6)
      by (cases "ticker_value D t (bm_meta m)")
        (simp_all add: binance_decode_def decode_ticker_value [OF assms(1) wf] inc_u64_small out_set_def)
  qed
qed

text \<open>C12. A decoder built from a list of symbol mappings decodes exactly as that list says: a ticker
  whose symbol is in the list and whose four numerals fit becomes one top-of-book event of the first
  instrument listed for the symbol, with ticks and lots truncated from the exact decimal values, the
  next sequence number and the rest of the output untouched; every other message is ignored without any
  effect. This holds for every byte string, whatever the JSON parsers make of it, and nothing panics.\<close>

theorem binance_decode_exact:
  assumes "D \<le> 18" "binance_new src ms = Inr d0" "list_all (\<lambda>m. meta_wf (bm_meta m)) ms"
    and "self = d0\<lparr> bd_seq := seq, bd_combined_stream := comb \<rparr>" "unat seq < 2 ^ 64 - 1" "out \<noteq> []"
    and "msg = (if comb then map_option bc_data (bj_combined bj buf) else bj_ticker bj buf)"
  shows "binance_decode bj oc D buf ts out self = Some
    (case msg of None \<Rightarrow> (0, self, out) | Some t \<Rightarrow>
     (case find (\<lambda>m. bm_symbol m = bt_s t) ms of None \<Rightarrow> (0, self, out) | Some m \<Rightarrow>
      (case ticker_value D t (bm_meta m) of None \<Rightarrow> (0, self, out) | Some p \<Rightarrow>
        (1, self\<lparr> bd_seq := seq + 1 \<rparr>,
         out[0 := event_top_of_book ts (seq + 1) (bm_instrument_id m) src flags_EMPTY p]))))"
  using assms by (rule binance_decode_by_table)

text \<open>The constructor accepts exactly the lists of one to eight mappings with symbols of at most 16
  bytes, and reports the right error otherwise, the number of mappings first.\<close>

theorem binance_new_errors:
  "case binance_new src ms of
     Inr d \<Rightarrow> ms \<noteq> [] \<and> length ms \<le> 8 \<and> list_all (\<lambda>m. length (bm_symbol m) \<le> 16) ms
   | Inl EmptyMappings \<Rightarrow> ms = []
   | Inl TooManySymbols \<Rightarrow> length ms > 8
   | Inl SymbolTooLong \<Rightarrow> ms \<noteq> [] \<and> length ms \<le> 8 \<and> \<not> list_all (\<lambda>m. length (bm_symbol m) \<le> 16) ms"
proof (cases "binance_new src ms")
  case (Inl e)
  then show ?thesis
    by (cases e) (auto simp: binance_new_def fill_mappings_error MAX_BINANCE_SYMBOLS_def list_all_iff not_le
      split: if_splits)
next
  case (Inr d)
  have "table_ok ms d" "ms \<noteq> []" using binance_new_table [OF Inr] by blast+
  with Inr show ?thesis by (auto simp: table_ok_def entry_ok_def list_all_length)
qed

section \<open>Witnesses\<close>

definition sample_ticker :: BinanceBookTicker where
  "sample_ticker = \<lparr> bt_e = [], bt_s = [66, 84], bt_b = [0x2E, 0x35], bt_bid_qty = [0x31],
     bt_a = [0x2E, 0x36], bt_ask_qty = [0x32] \<rparr>"

definition sample_parser :: BinanceJson where
  "sample_parser = \<lparr> bj_ticker = (\<lambda>buf. Some sample_ticker),
     bj_combined = (\<lambda>buf. Some \<lparr> bc_stream = [], bc_data = sample_ticker \<rparr>) \<rparr>"

definition sample_mappings :: "BinanceSymbolMapping list" where
  "sample_mappings = [\<lparr> bm_symbol = [66], bm_instrument_id = 1, bm_meta = sample_meta \<rparr>,
     \<lparr> bm_symbol = [66, 84], bm_instrument_id = 2, bm_meta = sample_meta \<rparr>]"

definition sample_table :: BinanceDecoder where
  "sample_table = (case binance_new 7 sample_mappings of Inr d \<Rightarrow> d)"

lemma sample_table_new: "binance_new 7 sample_mappings = Inr sample_table"
  by (simp add: sample_table_def binance_new_def sample_mappings_def MAX_BINANCE_SYMBOLS_def MAX_SYMBOL_LEN_def Let_def)

lemma sample_ticker_value: "ticker_value 6 sample_ticker sample_meta =
    Some \<lparr> tob_bid_price = 50, tob_bid_qty = 100, tob_ask_price = 60, tob_ask_qty = 200 \<rparr>"
  by (simp add: ticker_value_def sample_ticker_def decimal_value_def decimal_parts_def strip_sign_def is_digit_uint
      parse_spec_def dec_val_def in_i64_def ticks_value_def lots_value_def sample_meta_def sint_numeral_i64 sdiv_nonneg)

theorem binance_decode_exact_witness:
  "binance_decode sample_parser True 6 [] 5 [event_heartbeat 0 0 7 flags_EMPTY \<lparr> hb_counter = 0 \<rparr>]
     (sample_table\<lparr> bd_seq := 41, bd_combined_stream := True \<rparr>) =
   Some (1, sample_table\<lparr> bd_seq := 42, bd_combined_stream := True \<rparr>,
     [event_top_of_book 5 42 2 7 flags_EMPTY
        \<lparr> tob_bid_price = 50, tob_bid_qty = 100, tob_ask_price = 60, tob_ask_qty = 200 \<rparr>])"
proof -
  have "list_all (\<lambda>m. meta_wf (bm_meta m)) sample_mappings" by (simp add: sample_mappings_def sample_meta_wf)
  moreover have "find (\<lambda>m. bm_symbol m = bt_s sample_ticker) sample_mappings =
      Some \<lparr> bm_symbol = [66, 84], bm_instrument_id = 2, bm_meta = sample_meta \<rparr>"
    by (simp add: sample_mappings_def sample_ticker_def)
  moreover have "bj_combined sample_parser [] = Some \<lparr> bc_stream = [], bc_data = sample_ticker \<rparr>"
    by (simp add: sample_parser_def)
  ultimately show ?thesis
    using binance_decode_exact [OF _ sample_table_new _ refl, of 6 41 "[event_heartbeat 0 0 7 flags_EMPTY \<lparr> hb_counter = 0 \<rparr>]"
        "Some sample_ticker" True sample_parser "[]" True 5]
    by (simp add: sample_ticker_value)
qed

end
