(* ===== verification/Feed_Callback.thy ===== *)
theory Feed_Callback
  imports Polymarket_Decoder Binance_Decoder Spsc_Ring "HOL-Library.Sublist"
begin

text \<open>
  The callbacks that \<open>build_callback\<close> gives to the feed threads (\<open>crates/binance/src/spawn.rs\<close> and
  \<open>crates/polymarket/src/market/spawn.rs\<close>): each message is counted, decoded into a reused array of 64
  events, and every decoded event is handed to a push closure; refused events are counted. What the
  callback needs of a decoder is the locale \<open>feed_decoder\<close>, which both decoders provide; its lemmas say
  which events reach the closure over the life of a feed.
\<close>

section \<open>The callback\<close>

text \<open>A push closure owns a state and answers whether it took the event; it may panic.\<close>

type_synonym 'p push_fn = "HotEvent \<Rightarrow> 'p \<Rightarrow> (bool \<times> 'p) panics"

text \<open>A decoder: buffer, time of receipt, output array and decoder state to the number of events.\<close>

type_synonym 'd decode_fn = "bytes \<Rightarrow> Timestamp \<Rightarrow> HotEvent list \<Rightarrow> 'd \<Rightarrow> (nat \<times> 'd \<times> HotEvent list) panics"

text \<open>What the closure captures and shares: the decoder, the output array, the two counters and the
  state of the push closure.\<close>

record ('d, 'p) FeedCallback =
  cb_decoder :: 'd
  cb_out :: "HotEvent list"
  cb_event_count :: u64
  cb_drop_count :: u64
  cb_push :: 'p

definition make_out :: "HotEvent list" where
  "make_out = replicate 64 (event_heartbeat 0 0 0 flags_EMPTY \<lparr> hb_counter = 0 \<rparr>)"

definition build_callback :: "'d \<Rightarrow> 'p \<Rightarrow> ('d, 'p) FeedCallback" where
  "build_callback decoder push =
     \<lparr> cb_decoder = decoder, cb_out = make_out, cb_event_count = 0, cb_drop_count = 0, cb_push = push \<rparr>"

text \<open>The loop over the decoded events; \<open>fetch_add\<close> wraps.\<close>

fun push_events :: "'p push_fn \<Rightarrow> HotEvent list \<Rightarrow> 'p \<Rightarrow> u64 \<Rightarrow> ('p \<times> u64) panics" where
  "push_events push [] p dc = Some (p, dc)"
| "push_events push (event # events) p dc =
     do { (taken, p) \<leftarrow> push event p; push_events push events p (if taken then dc else dc + 1) }"

definition callback :: "'d decode_fn \<Rightarrow> 'p push_fn \<Rightarrow> bytes \<Rightarrow> Timestamp \<Rightarrow> ('d, 'p) FeedCallback \<Rightarrow>
    (bool \<times> ('d, 'p) FeedCallback) panics" where
  "callback decode push buf now self =
     (let self = self\<lparr> cb_event_count := cb_event_count self + 1 \<rparr>;
          recv_ts = now in
      do {
        (count, decoder, out) \<leftarrow> decode buf recv_ts (cb_out self) (cb_decoder self);
        (p, dc) \<leftarrow> push_events push (take count out) (cb_push self) (cb_drop_count self);
        Some (True, self\<lparr> cb_decoder := decoder, cb_out := out, cb_drop_count := dc, cb_push := p \<rparr>)
      })"

text \<open>The two feeds. A Binance feed of several symbols reads the combined stream.\<close>

definition binance_build_callback :: "nat \<Rightarrow> BinanceDecoder \<Rightarrow> 'p \<Rightarrow> (BinanceDecoder, 'p) FeedCallback" where
  "binance_build_callback symbols decoder push = build_callback (set_combined_stream (symbols > 1) decoder) push"

definition polymarket_build_callback :: "SourceId \<Rightarrow> InstrumentRegistry \<Rightarrow> 'p \<Rightarrow>
    (PolymarketMarketDecoder, 'p) FeedCallback" where
  "polymarket_build_callback source_id registry push =
     build_callback (polymarket_decoder_new source_id registry) push"

definition polymarket_callback :: "PolymarketJson \<Rightarrow> bool \<Rightarrow> nat \<Rightarrow> 'p push_fn \<Rightarrow> bytes \<Rightarrow> Timestamp \<Rightarrow>
    (PolymarketMarketDecoder, 'p) FeedCallback \<Rightarrow> (bool \<times> (PolymarketMarketDecoder, 'p) FeedCallback) panics" where
  "polymarket_callback pj oc D push buf now self = callback (polymarket_decode pj oc D) push buf now self"

section \<open>Feed and consumer\<close>

text \<open>A feed thread that pushes into a queue and a consumer that takes from it: the messages received and
  the takes, in the order they happen.\<close>

datatype pipeline_step = Receive bytes Timestamp | Take

fun pipeline :: "(bytes \<Rightarrow> Timestamp \<Rightarrow> ('d, 'q) FeedCallback \<Rightarrow> (bool \<times> ('d, 'q) FeedCallback) panics) \<Rightarrow>
    ('q \<Rightarrow> (HotEvent option \<times> 'q) panics) \<Rightarrow> pipeline_step list \<Rightarrow> ('d, 'q) FeedCallback \<Rightarrow>
    (HotEvent list \<times> ('d, 'q) FeedCallback) panics" where
  "pipeline cb pop [] s = Some ([], s)"
| "pipeline cb pop (Receive buf now # steps) s =
     do { (continue, s) \<leftarrow> cb buf now s; if continue then pipeline cb pop steps s else Some ([], s) }"
| "pipeline cb pop (Take # steps) s =
     do { (e, q) \<leftarrow> pop (cb_push s);
          (es, s) \<leftarrow> pipeline cb pop steps (s\<lparr> cb_push := q \<rparr>);
          Some (case e of None \<Rightarrow> es | Some e \<Rightarrow> e # es, s) }"

fun receives :: "pipeline_step list \<Rightarrow> nat" where
  "receives [] = 0"
| "receives (Receive _ _ # steps) = Suc (receives steps)"
| "receives (Take # steps) = receives steps"

text \<open>The messages received, with their times, and all the events a decoder makes of them, message by message in the
  reused array.\<close>

fun messages :: "pipeline_step list \<Rightarrow> (bytes \<times> Timestamp) list" where
  "messages [] = []"
| "messages (Receive buf ts # steps) = (buf, ts) # messages steps"
| "messages (Take # steps) = messages steps"

fun decoded :: "'d decode_fn \<Rightarrow> (bytes \<times> Timestamp) list \<Rightarrow> HotEvent list \<Rightarrow> 'd \<Rightarrow> HotEvent list" where
  "decoded decode [] out d = []"
| "decoded decode ((buf, ts) # ms) out d =
     (case decode buf ts out d of None \<Rightarrow> []
      | Some (n, d, out) \<Rightarrow> take n out @ decoded decode ms out d)"

section \<open>What a feed needs of its decoder\<close>

text \<open>A decoder in a good state with \<open>64\<close> sequence numbers left returns at most 64 events, numbered on
  from its sequence, and stays in a good state.\<close>

locale feed_decoder =
  fixes decode :: "'d decode_fn" and ok :: "'d \<Rightarrow> bool" and seq :: "'d \<Rightarrow> u64"
  assumes decode_ok: "ok d \<Longrightarrow> length out = 64 \<Longrightarrow> unat (seq d) + 64 < 2 ^ 64 \<Longrightarrow>
    \<exists>n d' out'. decode buf ts out d = Some (n, d', out') \<and> n \<le> 64 \<and> length out' = 64 \<and> ok d' \<and>
      seq d' = seq d + word_of_nat n \<and> event_seqs (take n out') = next_seqs (seq d) n"
begin

lemma callback_ok:
  assumes "ok (cb_decoder s)" "length (cb_out s) = 64" "unat (seq (cb_decoder s)) + 64 < 2 ^ 64"
  shows "\<exists>es d' out'. callback decode push buf now s = map_option
      (\<lambda>(p, dc). (True, s\<lparr> cb_decoder := d', cb_out := out', cb_event_count := cb_event_count s + 1,
          cb_drop_count := dc, cb_push := p \<rparr>)) (push_events push es (cb_push s) (cb_drop_count s)) \<and>
    length es \<le> 64 \<and> ok d' \<and> length out' = 64 \<and> seq d' = seq (cb_decoder s) + word_of_nat (length es) \<and>
    event_seqs es = next_seqs (seq (cb_decoder s)) (length es) \<and>
    (\<forall>ms. decoded decode ((buf, now) # ms) (cb_out s) (cb_decoder s) = es @ decoded decode ms out' d')"
proof -
  obtain n d' out' where d: "decode buf now (cb_out s) (cb_decoder s) = Some (n, d', out')" "n \<le> 64"
    "length out' = 64" "ok d'" "seq d' = seq (cb_decoder s) + word_of_nat n"
    "event_seqs (take n out') = next_seqs (seq (cb_decoder s)) n"
    using decode_ok [OF assms, of buf now] by blast
  then show ?thesis
    by (intro exI [of _ "take n out'"] exI [of _ d'] exI [of _ out'])
      (cases "push_events push (take n out') (cb_push s) (cb_drop_count s)";
        simp add: callback_def split_def)
qed

end

section \<open>What the consumer sees\<close>

locale feed_pipeline = feed_decoder decode ok seq + bounded_queue rep bound push pop
  for decode :: "'d decode_fn" and ok :: "'d \<Rightarrow> bool" and seq :: "'d \<Rightarrow> u64"
    and rep :: "'q \<Rightarrow> HotEvent list \<Rightarrow> bool" and bound push pop
begin

text \<open>The queue as the push closure: it takes events as long as there is room.\<close>

lemma push_events_queue:
  assumes "rep s q"
  shows "\<exists>s' acc. push_events push es s dc = Some (s', dc + word_of_nat (length es - length acc)) \<and>
    rep s' (q @ acc) \<and> subseq acc es"
  using assms
proof (induction es arbitrary: s q dc)
  case Nil
  then show ?case by (intro exI [of _ s] exI [of _ "[]"]) simp
next
  case (Cons e es)
  let ?t = "length q < bound s"
  obtain s1 where 1: "push e s = Some (?t, s1)" "rep s1 (if ?t then q @ [e] else q)"
    using push_ok [OF Cons.prems] by blast
  obtain s2 acc where 2: "push_events push es s1 (if ?t then dc else dc + 1) =
      Some (s2, (if ?t then dc else dc + 1) + word_of_nat (length es - length acc))"
    "rep s2 ((if ?t then q @ [e] else q) @ acc)" "subseq acc es"
    using Cons.IH [OF 1(2)] by blast
  have "length acc \<le> length es" using 2(3) by (rule list_emb_length)
  then show ?case
    using 1(1) 2
    by (intro exI [of _ s2] exI [of _ "if ?t then e # acc else acc"])
      (auto simp: Suc_diff_le intro: list_emb_Cons)
qed

lemma pipeline_ok:
  assumes "ok (cb_decoder s)" "length (cb_out s) = 64" "rep (cb_push s) q"
    and "unat (seq (cb_decoder s)) + 64 * receives steps < 2 ^ 64"
  shows "\<exists>es acc outs s' q'. pipeline (callback decode push) pop steps s = Some (outs, s') \<and>
    es = decoded decode (messages steps) (cb_out s) (cb_decoder s) \<and>
    event_seqs es = next_seqs (seq (cb_decoder s)) (length es) \<and> length es \<le> 64 * receives steps \<and>
    subseq acc es \<and> q @ acc = outs @ q' \<and> rep (cb_push s') q' \<and>
    cb_drop_count s' = cb_drop_count s + word_of_nat (length es - length acc) \<and>
    cb_event_count s' = cb_event_count s + word_of_nat (receives steps)"
  using assms
proof (induction steps arbitrary: s q)
  case Nil
  then show ?case by (intro exI [of _ "[]"] exI [of _ s] exI [of _ q]) simp
next
  case (Cons step steps)
  show ?case
  proof (cases step)
    case Take
    obtain q1 where 1: "pop (cb_push s) = Some (case q of [] \<Rightarrow> None | v # _ \<Rightarrow> Some v, q1)" "rep q1 (tl q)"
      using pop_ok [OF Cons.prems(3)] by blast
    obtain es acc outs s' q' where 2: "pipeline (callback decode push) pop steps (s\<lparr> cb_push := q1 \<rparr>) = Some (outs, s')"
      "es = decoded decode (messages steps) (cb_out s) (cb_decoder s)"
      "event_seqs es = next_seqs (seq (cb_decoder s)) (length es)" "length es \<le> 64 * receives steps"
      "subseq acc es" "tl q @ acc = outs @ q'"
      "rep (cb_push s') q'" "cb_drop_count s' = cb_drop_count s + word_of_nat (length es - length acc)"
      "cb_event_count s' = cb_event_count s + word_of_nat (receives steps)"
      using Cons.IH [of "s\<lparr> cb_push := q1 \<rparr>" "tl q"] 1(2) Cons.prems Take by auto
    show ?thesis
    proof (cases q)
      case Nil
      then show ?thesis using 1 2 Take by (intro exI conjI) auto
    next
      case (Cons v q1)
      then show ?thesis using 1 2 Take
        by (intro exI [of _ es] exI [of _ acc] exI [of _ "v # outs"] exI [of _ s'] exI [of _ q']) auto
    qed
  next
    case (Receive buf now)
    obtain es d1 out1 where 1: "callback decode push buf now s = map_option
        (\<lambda>(p, dc). (True, s\<lparr> cb_decoder := d1, cb_out := out1, cb_event_count := cb_event_count s + 1,
          cb_drop_count := dc, cb_push := p \<rparr>)) (push_events push es (cb_push s) (cb_drop_count s))"
      "length es \<le> 64" "ok d1" "length out1 = 64" "seq d1 = seq (cb_decoder s) + word_of_nat (length es)"
      "event_seqs es = next_seqs (seq (cb_decoder s)) (length es)"
      "decoded decode ((buf, now) # messages steps) (cb_out s) (cb_decoder s) = es @ decoded decode (messages steps) out1 d1"
      using callback_ok [OF Cons.prems(1,2), of push buf now] Cons.prems(4) Receive by auto
    obtain p1 acc1 where 2: "push_events push es (cb_push s) (cb_drop_count s) =
        Some (p1, cb_drop_count s + word_of_nat (length es - length acc1))" "rep p1 (q @ acc1)" "subseq acc1 es"
      using push_events_queue [OF Cons.prems(3)] by blast
    let ?s1 = "s\<lparr> cb_decoder := d1, cb_out := out1, cb_event_count := cb_event_count s + 1,
          cb_drop_count := cb_drop_count s + word_of_nat (length es - length acc1), cb_push := p1 \<rparr>"
    have "unat (seq d1) \<le> unat (seq (cb_decoder s)) + 64"
      unfolding 1(5) using 1(2) by (simp add: unat_word_ariths unat_of_nat le_trans [OF mod_less_eq_dividend])
    then obtain fs acc2 outs s' q' where 3: "pipeline (callback decode push) pop steps ?s1 = Some (outs, s')"
      "fs = decoded decode (messages steps) out1 d1"
      "event_seqs fs = next_seqs (seq d1) (length fs)" "length fs \<le> 64 * receives steps" "subseq acc2 fs" "(q @ acc1) @ acc2 = outs @ q'"
      "rep (cb_push s') q'" "cb_drop_count s' = cb_drop_count ?s1 + word_of_nat (length fs - length acc2)"
      "cb_event_count s' = cb_event_count s + 1 + word_of_nat (receives steps)"
      using Cons.IH [of ?s1 "q @ acc1"] 1(3,4) 2(2) Cons.prems(4) Receive by auto
    have len: "length acc1 \<le> length es" "length acc2 \<le> length fs"
      using 2(3) 3(5) by (auto dest: list_emb_length)
    then have "(length es - length acc1) + (length fs - length acc2) = length (es @ fs) - length (acc1 @ acc2)" by simp
    then have drops: "word_of_nat (length (es @ fs) - length (acc1 @ acc2)) =
        (word_of_nat (length es - length acc1) + word_of_nat (length fs - length acc2) :: u64)"
      by (metis of_nat_add)
    show ?thesis
      using 1 2 3 drops Receive list_emb_append_mono [OF 2(3) 3(5)]
      by (intro exI [of _ "es @ fs"] exI [of _ "acc1 @ acc2"] exI [of _ outs] exI [of _ s'] exI [of _ q'])
        (simp add: next_seqs_add ac_simps del: of_nat_diff)
  qed
qed

end

section \<open>Both decoders provide the interface\<close>

text \<open>A Binance decoder built from mappings with positive tick and lot sizes, at a precision the numbers have.\<close>

definition binance_ready :: "nat \<Rightarrow> BinanceDecoder \<Rightarrow> bool" where
  "binance_ready D d \<longleftrightarrow> D \<le> 18 \<and> (\<exists>src ms d0 seq comb. binance_new src ms = Inr d0 \<and>
     list_all (\<lambda>m. meta_wf (bm_meta m)) ms \<and> d = d0\<lparr> bd_seq := seq, bd_combined_stream := comb \<rparr>)"

definition polymarket_ready :: "nat \<Rightarrow> PolymarketMarketDecoder \<Rightarrow> bool" where
  "polymarket_ready D d \<longleftrightarrow> D \<le> 18 \<and> (\<forall>iid m. registry_meta iid (pd_registry d) = Some m \<longrightarrow> meta_wf m)"

lemma binance_ready_new:
  assumes "D \<le> 18" "binance_new src ms = Inr d" "list_all (\<lambda>m. meta_wf (bm_meta m)) ms"
  shows "binance_ready D (set_combined_stream comb d)"
proof -
  have "bd_seq d = 0" using assms(2) by (rule binance_new_table)
  then show ?thesis unfolding binance_ready_def using assms
    by (intro conjI exI [of _ src] exI [of _ ms] exI [of _ d] exI [of _ "0 :: u64"] exI [of _ comb])
      (simp_all add: set_combined_stream_def)
qed

lemma polymarket_feed_decoder: "feed_decoder (polymarket_decode pj oc D) (polymarket_ready D) pd_seq"
proof unfold_locales
  fix d and out :: "HotEvent list" and buf ts
  assume "polymarket_ready D d" "length out = 64" "unat (pd_seq d) + 64 < 2 ^ 64"
  then show "\<exists>n d' out'. polymarket_decode pj oc D buf ts out d = Some (n, d', out') \<and> n \<le> 64 \<and>
      length out' = 64 \<and> polymarket_ready D d' \<and> pd_seq d' = pd_seq d + word_of_nat n \<and>
      event_seqs (take n out') = next_seqs (pd_seq d) n"
    using polymarket_decode_returns [of D out d pj oc buf ts] by (auto simp: polymarket_ready_def)
qed

lemma binance_feed_decoder: "feed_decoder (binance_decode bj oc D) (binance_ready D) bd_seq"
proof unfold_locales
  fix d and out :: "HotEvent list" and buf ts
  assume ready: "binance_ready D d" and out: "length out = 64" and seq: "unat (bd_seq d) + 64 < 2 ^ 64"
  from ready obtain src ms d0 s comb where b: "D \<le> 18" "binance_new src ms = Inr d0" "list_all (\<lambda>m. meta_wf (bm_meta m)) ms"
    "d = d0\<lparr> bd_seq := s, bd_combined_stream := comb \<rparr>" by (auto simp: binance_ready_def)
  have s: "bd_seq d = s" by (simp add: b(4))
  have again: "binance_ready D (d\<lparr> bd_seq := s' \<rparr>)" for s'
    unfolding binance_ready_def using b
    by (intro conjI exI [of _ src] exI [of _ ms] exI [of _ d0] exI [of _ s'] exI [of _ comb]) auto
  have "unat s < 2 ^ 64 - 1" "out \<noteq> []" using seq out s by auto
  note binance_decode_by_table [OF b this refl, where bj = bj and buf = buf and oc = oc and ts = ts]
  then show "\<exists>n d' out'. binance_decode bj oc D buf ts out d = Some (n, d', out') \<and> n \<le> 64 \<and>
      length out' = 64 \<and> binance_ready D d' \<and> bd_seq d' = bd_seq d + word_of_nat n \<and>
      event_seqs (take n out') = next_seqs (bd_seq d) n"
    using out ready again s
    by (auto simp: event_top_of_book_def event_header_def split: option.splits)
qed

interpretation polymarket: feed_decoder "polymarket_decode pj oc D" "polymarket_ready D" pd_seq
  by (rule polymarket_feed_decoder)

interpretation binance: feed_decoder "binance_decode bj oc D" "binance_ready D" bd_seq
  by (rule binance_feed_decoder)

text \<open>With any preset ring they form a pipeline.\<close>

lemma ring_pipeline:
  "feed_decoder decode ok seq \<Longrightarrow> preset_cfg cfg \<Longrightarrow>
   feed_pipeline decode ok seq (ring_rep cfg) ring_capacity (ring_push cfg) (ring_pop cfg)"
  by (intro feed_pipeline.intro ring_config_bounded_queue preset_ring_config)

interpretation polymarket_masked: feed_pipeline "polymarket_decode pj oc D" "polymarket_ready D" pd_seq
  "ring_rep (masked_cfg dbg ins arm)" ring_capacity "ring_push (masked_cfg dbg ins arm)" "ring_pop (masked_cfg dbg ins arm)"
  by (intro feed_pipeline.intro polymarket.feed_decoder_axioms masked_ring.bounded_queue_axioms)

interpretation binance_masked: feed_pipeline "binance_decode bj oc D" "binance_ready D" bd_seq
  "ring_rep (masked_cfg dbg ins arm)" ring_capacity "ring_push (masked_cfg dbg ins arm)" "ring_pop (masked_cfg dbg ins arm)"
  by (intro feed_pipeline.intro binance.feed_decoder_axioms masked_ring.bounded_queue_axioms)

section \<open>Properties\<close>

lemma ring_feed:
  assumes "feed_decoder decode ok seq" "preset_cfg cfg" "inline_storage_new N = Some st"
    and "ok d" "seq d = 0" "64 * receives steps < 2 ^ 64"
  shows "\<exists>es acc outs s'. pipeline (callback decode (ring_push cfg)) (ring_pop cfg) steps
      (build_callback d (ring_new st i)) = Some (outs, s') \<and> es = decoded decode (messages steps) make_out d \<and>
    event_seqs es = next_seqs 0 (length es) \<and> subseq acc es \<and> prefix outs acc \<and>
    ring_len (cb_push s') = length acc - length outs \<and> unat (cb_drop_count s') = length es - length acc \<and>
    unat (cb_event_count s') = receives steps"
proof -
  let ?s = "build_callback d (ring_new st i)"
  have st: "is_power_of_two N" "st = replicate N None"
    using assms(3) by (auto simp: inline_storage_new_def split: if_splits)
  have rep: "ring_rep cfg (cb_push ?s) []"
    using ring_config.rep_new [OF preset_ring_config [OF assms(2)] st(1)] by (simp add: build_callback_def st(2))
  have s: "cb_decoder ?s = d" "cb_out ?s = make_out" "length (cb_out ?s) = 64" "cb_drop_count ?s = 0" "cb_event_count ?s = 0"
    by (simp_all add: build_callback_def make_out_def)
  then obtain es acc outs s' q' where p: "pipeline (callback decode (ring_push cfg)) (ring_pop cfg) steps ?s = Some (outs, s')"
    "es = decoded decode (messages steps) make_out d"
    "event_seqs es = next_seqs 0 (length es)" "length es \<le> 64 * receives steps" "subseq acc es" "acc = outs @ q'"
    "ring_rep cfg (cb_push s') q'" "cb_drop_count s' = word_of_nat (length es - length acc)"
    "cb_event_count s' = word_of_nat (receives steps)"
    using feed_pipeline.pipeline_ok [OF ring_pipeline [OF assms(1,2)], of ?s "[]" steps] rep assms(4-6) by auto
  have "length es - length acc < 2 ^ 64" using p(4) assms(6) by linarith
  then have "unat (cb_drop_count s') = length es - length acc"
    unfolding p(8) by (simp add: unat_of_nat del: of_nat_diff)
  moreover have "unat (cb_event_count s') = receives steps" using assms(6) by (simp add: p(9) unat_of_nat)
  ultimately show ?thesis
    using p(1,2,3,5,6) ring_rep_len [OF p(7)] by (intro exI [of _ es] exI [of _ acc] exI [of _ outs] exI [of _ s']) auto
qed

text \<open>From the wire to the consumer, events are never invented, repeated or reordered, and every loss
  is counted. A Polymarket feed whose closure pushes on a fresh ring of any preset, its messages
  interleaved in any way with takes of the consumer: whatever the bytes, nothing panics and the feed never
  stops; the events the decoder makes of the messages are numbered 1, 2, 3 and so on; the consumer has received, in
  order, the first of those the ring accepted, the rest is still in the ring; the drop counter is
  exactly the number of events the ring refused, and the message counter the number of messages. With no
  drops the consumer therefore sees every number without a gap.\<close>

theorem polymarket_feed_to_consumer:
  assumes "preset_cfg cfg" "inline_storage_new N = Some st" "D \<le> 18"
    and "\<And>iid m. registry_meta iid reg = Some m \<Longrightarrow> meta_wf m" "64 * receives steps < 2 ^ 64"
  shows "\<exists>es acc outs s'. pipeline (polymarket_callback pj oc D (ring_push cfg)) (ring_pop cfg) steps
      (polymarket_build_callback src reg (ring_new st i)) = Some (outs, s') \<and>
    es = decoded (polymarket_decode pj oc D) (messages steps) make_out (polymarket_decoder_new src reg) \<and>
    event_seqs es = next_seqs 0 (length es) \<and> subseq acc es \<and> prefix outs acc \<and>
    ring_len (cb_push s') = length acc - length outs \<and> unat (cb_drop_count s') = length es - length acc \<and>
    unat (cb_event_count s') = receives steps"
proof -
  let ?d = "polymarket_decoder_new src reg"
  have "polymarket_ready D ?d" "pd_seq ?d = 0"
    using assms(3,4) by (auto simp: polymarket_ready_def polymarket_decoder_new_def)
  then show ?thesis
    using ring_feed [OF polymarket_feed_decoder assms(1,2) _ _ assms(5)]
    by (simp add: polymarket_build_callback_def polymarket_callback_def [abs_def])
qed

text \<open>The same holds of a Binance feed, single or combined stream.\<close>

theorem binance_feed_to_consumer:
  assumes "preset_cfg cfg" "inline_storage_new N = Some st" "D \<le> 18"
    and "binance_new src ms = Inr d" "list_all (\<lambda>m. meta_wf (bm_meta m)) ms" "64 * receives steps < 2 ^ 64"
  shows "\<exists>es acc outs s'. pipeline (callback (binance_decode bj oc D) (ring_push cfg)) (ring_pop cfg) steps
      (binance_build_callback symbols d (ring_new st i)) = Some (outs, s') \<and>
    es = decoded (binance_decode bj oc D) (messages steps) make_out (set_combined_stream (symbols > 1) d) \<and>
    event_seqs es = next_seqs 0 (length es) \<and> subseq acc es \<and> prefix outs acc \<and>
    ring_len (cb_push s') = length acc - length outs \<and> unat (cb_drop_count s') = length es - length acc \<and>
    unat (cb_event_count s') = receives steps"
proof -
  let ?d = "set_combined_stream (symbols > 1) d"
  have seq: "bd_seq d = 0" using assms(4) by (rule binance_new_table)
  have "binance_ready D ?d" by (rule binance_ready_new [OF assms(3-5)])
  moreover have "bd_seq ?d = 0" by (simp add: set_combined_stream_def seq)
  ultimately show ?thesis
    using ring_feed [OF binance_feed_decoder assms(1,2) _ _ assms(6)] by (simp add: binance_build_callback_def)
qed

section \<open>Witness\<close>

theorem polymarket_feed_to_consumer_witness:
  "\<exists>es acc outs s'. pipeline (polymarket_callback sample_json True 6 (ring_push (masked_cfg True no_instr False)))
      (ring_pop (masked_cfg True no_instr False)) [Receive [1, 2] 5, Take]
      (polymarket_build_callback 7 registry_new (ring_new [None, None] ())) = Some (outs, s') \<and>
    event_seqs es = next_seqs 0 (length es) \<and> subseq acc es \<and> prefix outs acc \<and> unat (cb_event_count s') = 1"
proof -
  have "preset_cfg (masked_cfg True no_instr False)" by (auto simp: preset_cfg_def)
  moreover have "inline_storage_new 2 = Some [None, None :: HotEvent option]"
    using power_of_two_mask [of 1] by (simp add: inline_storage_new_def numeral_2_eq_2)
  moreover have "registry_meta iid registry_new = None" for iid
    by (simp add: registry_meta_def registry_new_def)
  ultimately show ?thesis
    using polymarket_feed_to_consumer [of "masked_cfg True no_instr False" 2 "[None, None]" 6 registry_new
      "[Receive [1, 2] 5, Take]" sample_json True 7 "()"]
    by auto
qed

end
