(* ===== verification/Feed_Monitor.thy ===== *)
theory Feed_Monitor
  imports Domain_Types
begin

text \<open>
  The feed liveness monitor (\<open>crates/transport/src/monitor.rs\<close>): up to eight feeds, each with a shared
  message counter; a check compares every counter with the value the previous check saw. A shared
  counter is an address, and the memory at the time of a call gives its value. The refinement shows
  that the flags say what the observed values say.
\<close>

section \<open>The monitor\<close>

definition MAX_FEEDS :: nat where
  "MAX_FEEDS = 8"

record FeedState =
  fs_event_count :: nat
  fs_last_seen :: u64
  fs_source_id :: SourceId
  fs_stale :: bool
  fs_first_check :: bool

record StaleFeedInfo =
  sf_source_id :: SourceId
  sf_last_event_count :: u64

datatype MonitorFullError = MonitorFullError

record FeedMonitor =
  fm_feeds :: "FeedState option list"
  fm_len :: nat

definition monitor_new :: FeedMonitor where
  "monitor_new = \<lparr> fm_feeds = replicate MAX_FEEDS None, fm_len = 0 \<rparr>"

definition monitor_default :: FeedMonitor where
  "monitor_default = monitor_new"

type_synonym counters = "nat \<Rightarrow> u64"

definition monitor_register :: "counters \<Rightarrow> SourceId \<Rightarrow> nat \<Rightarrow> FeedMonitor \<Rightarrow>
    ((MonitorFullError + unit) \<times> FeedMonitor) panics" where
  "monitor_register mem source_id event_count self =
     (if fm_len self \<ge> MAX_FEEDS then Some (Inl MonitorFullError, self)
      else if fm_len self < length (fm_feeds self) then
        (let current = mem event_count in
         Some (Inr (), self\<lparr>
           fm_feeds := (fm_feeds self)[fm_len self := Some \<lparr> fs_event_count = event_count,
             fs_last_seen = current, fs_source_id = source_id, fs_stale = False, fs_first_check = True \<rparr>],
           fm_len := fm_len self + 1 \<rparr>))
      else None)"

text \<open>The body of the loop in \<open>check_all\<close> for one feed: the new state and what it adds to the count.\<close>

definition check_feed :: "counters \<Rightarrow> FeedState \<Rightarrow> nat \<times> FeedState" where
  "check_feed mem feed =
     (let current = mem (fs_event_count feed) in
      if fs_first_check feed then (0, feed\<lparr> fs_first_check := False, fs_last_seen := current \<rparr>)
      else if current = fs_last_seen feed then (1, feed\<lparr> fs_stale := True, fs_last_seen := current \<rparr>)
      else (0, feed\<lparr> fs_stale := False, fs_last_seen := current \<rparr>))"

fun check_slots :: "counters \<Rightarrow> FeedState option list \<Rightarrow> nat \<Rightarrow> nat \<times> FeedState option list" where
  "check_slots mem [] stale_count = (stale_count, [])"
| "check_slots mem (None # slots) stale_count =
     (let (n, slots) = check_slots mem slots stale_count in (n, None # slots))"
| "check_slots mem (Some feed # slots) stale_count =
     (let (k, feed) = check_feed mem feed; (n, slots) = check_slots mem slots (stale_count + k)
      in (n, Some feed # slots))"

text \<open>The slice \<open>self.feeds[..self.len]\<close> panics when the length exceeds the array.\<close>

definition feeds_slice :: "FeedMonitor \<Rightarrow> FeedState option list panics" where
  "feeds_slice self = (if fm_len self \<le> length (fm_feeds self) then Some (take (fm_len self) (fm_feeds self)) else None)"

definition check_all :: "counters \<Rightarrow> FeedMonitor \<Rightarrow> (nat \<times> FeedMonitor) panics" where
  "check_all mem self =
     do {
       slots \<leftarrow> feeds_slice self;
       let (n, slots) = check_slots mem slots 0;
       Some (n, self\<lparr> fm_feeds := slots @ drop (fm_len self) (fm_feeds self) \<rparr>)
     }"

definition stale_feeds :: "FeedMonitor \<Rightarrow> StaleFeedInfo list panics" where
  "stale_feeds self =
     do {
       slots \<leftarrow> feeds_slice self;
       Some (List.map_filter (\<lambda>slot. case slot of None \<Rightarrow> None | Some feed \<Rightarrow>
         if fs_stale feed then Some \<lparr> sf_source_id = fs_source_id feed, sf_last_event_count = fs_last_seen feed \<rparr>
         else None) slots)
     }"

definition monitor_is_stale :: "SourceId \<Rightarrow> FeedMonitor \<Rightarrow> bool panics" where
  "monitor_is_stale source_id self =
     do {
       slots \<leftarrow> feeds_slice self;
       Some (list_ex (\<lambda>slot. case slot of None \<Rightarrow> False | Some f \<Rightarrow> fs_source_id f = source_id \<and> fs_stale f) slots)
     }"

definition monitor_len :: "FeedMonitor \<Rightarrow> nat" where
  "monitor_len self = fm_len self"

definition monitor_is_empty :: "FeedMonitor \<Rightarrow> bool" where
  "monitor_is_empty self \<longleftrightarrow> fm_len self = 0"

section \<open>What the flags should mean\<close>

text \<open>A watched feed with the values its counter had at the checks since its registration. It is idle
  when the last two checks saw the same value.\<close>

record watched =
  w_source :: SourceId
  w_counter :: nat
  w_initial :: u64
  w_seen :: "u64 list"

definition idle :: "watched \<Rightarrow> bool" where
  "idle w \<longleftrightarrow> 2 \<le> length (w_seen w) \<and> last (w_seen w) = last (butlast (w_seen w))"

datatype monitor_cmd = Register counters SourceId nat | Check counters

datatype monitor_res = Registered bool | StaleCount nat

fun watch_step :: "monitor_cmd \<Rightarrow> watched list \<Rightarrow> monitor_res \<times> watched list" where
  "watch_step (Register mem src c) ws =
     (if length ws < 8 then (Registered True, ws @ [\<lparr> w_source = src, w_counter = c, w_initial = mem c, w_seen = [] \<rparr>])
      else (Registered False, ws))"
| "watch_step (Check mem) ws =
     (let ws' = map (\<lambda>w. w\<lparr> w_seen := w_seen w @ [mem (w_counter w)] \<rparr>) ws
      in (StaleCount (length (filter idle ws')), ws'))"

fun watch_run :: "monitor_cmd list \<Rightarrow> watched list \<Rightarrow> monitor_res list \<times> watched list" where
  "watch_run [] ws = ([], ws)"
| "watch_run (c # cs) ws =
     (let (r, ws) = watch_step c ws; (rs, ws) = watch_run cs ws in (r # rs, ws))"

fun monitor_step :: "monitor_cmd \<Rightarrow> FeedMonitor \<Rightarrow> (monitor_res \<times> FeedMonitor) panics" where
  "monitor_step (Register mem src c) m =
     map_option (\<lambda>(r, m). (Registered (r = Inr ()), m)) (monitor_register mem src c m)"
| "monitor_step (Check mem) m = map_option (\<lambda>(n, m). (StaleCount n, m)) (check_all mem m)"

fun monitor_run :: "monitor_cmd list \<Rightarrow> FeedMonitor \<Rightarrow> (monitor_res list \<times> FeedMonitor) panics" where
  "monitor_run [] m = Some ([], m)"
| "monitor_run (c # cs) m =
     do { (r, m) \<leftarrow> monitor_step c m; (rs, m) \<leftarrow> monitor_run cs m; Some (r # rs, m) }"

section \<open>Refinement\<close>

definition feed_of :: "watched \<Rightarrow> FeedState" where
  "feed_of w = \<lparr> fs_event_count = w_counter w,
     fs_last_seen = (if w_seen w = [] then w_initial w else last (w_seen w)),
     fs_source_id = w_source w, fs_stale = idle w, fs_first_check = (w_seen w = []) \<rparr>"

definition monitor_rep :: "FeedMonitor \<Rightarrow> watched list \<Rightarrow> bool" where
  "monitor_rep m ws \<longleftrightarrow> fm_len m = length ws \<and> length ws \<le> 8 \<and>
     fm_feeds m = map (\<lambda>w. Some (feed_of w)) ws @ replicate (8 - length ws) None"

lemma check_feed_of:
  "check_feed mem (feed_of w) = (let w' = w\<lparr> w_seen := w_seen w @ [mem (w_counter w)] \<rparr>
     in (if idle w' then 1 else 0, feed_of w'))"
  by (cases "w_seen w" rule: rev_cases) (auto simp: check_feed_def feed_of_def idle_def Let_def butlast_append)

lemma check_slots_of:
  "check_slots mem (map (\<lambda>w. Some (feed_of w)) ws) n =
     (let ws' = map (\<lambda>w. w\<lparr> w_seen := w_seen w @ [mem (w_counter w)] \<rparr>) ws
      in (n + length (filter idle ws'), map (\<lambda>w. Some (feed_of w)) ws'))"
  by (induction ws arbitrary: n) (simp_all add: check_feed_of Let_def)

lemma monitor_rep_slice: "monitor_rep m ws \<Longrightarrow> feeds_slice m = Some (map (\<lambda>w. Some (feed_of w)) ws)"
  by (simp add: monitor_rep_def feeds_slice_def)

lemma monitor_step_refines:
  assumes "monitor_rep m ws"
  shows "\<exists>m'. monitor_step c m = Some (fst (watch_step c ws), m') \<and> monitor_rep m' (snd (watch_step c ws))"
proof (cases c)
  case (Check mem)
  with assms show ?thesis
    by (simp add: check_all_def monitor_rep_slice check_slots_of Let_def) (simp add: monitor_rep_def)
next
  case (Register mem src k)
  let ?w = "\<lparr> w_source = src, w_counter = k, w_initial = mem k, w_seen = [] \<rparr>"
  have "(fm_feeds m)[length ws := Some (feed_of ?w)] = map (\<lambda>w. Some (feed_of w)) (ws @ [?w]) @ replicate (7 - length ws) None"
    if "length ws < 8"
  proof -
    have "(8 - length ws) = Suc (7 - length ws)" using that by simp
    then show ?thesis using assms by (simp add: monitor_rep_def list_update_append)
  qed
  with assms Register show ?thesis
    by (auto simp: monitor_register_def monitor_rep_def MAX_FEEDS_def Let_def feed_of_def idle_def)
qed

lemma monitor_run_refines:
  assumes "monitor_rep m ws"
  shows "\<exists>m'. monitor_run cs m = Some (fst (watch_run cs ws), m') \<and> monitor_rep m' (snd (watch_run cs ws))"
  using assms
proof (induction cs arbitrary: m ws)
  case (Cons c cs)
  obtain m1 where 1: "monitor_step c m = Some (fst (watch_step c ws), m1)" "monitor_rep m1 (snd (watch_step c ws))"
    using monitor_step_refines [OF Cons.prems] by blast
  from Cons.IH [OF 1(2)] 1(1) show ?case by (auto simp: split_def Let_def)
qed simp

section \<open>Properties\<close>

text \<open>The monitor reports exactly the feeds that went quiet. After any history of registrations and
  checks, whatever the counters did in between, no call panics, a registration is refused exactly when
  eight feeds are there, and a feed is flagged as stale exactly when the last two checks since its
  registration saw the same counter value; so the first check never flags one, and every check returns
  the number of feeds it leaves flagged, with \<open>stale_feeds\<close> listing them and their counters.\<close>

theorem monitor_reports_idle:
  "\<exists>m. monitor_run cs monitor_new = Some (fst (watch_run cs []), m) \<and>
    monitor_len m = length (snd (watch_run cs [])) \<and>
    stale_feeds m = Some (map (\<lambda>w. \<lparr> sf_source_id = w_source w, sf_last_event_count = last (w_seen w) \<rparr>)
      (filter idle (snd (watch_run cs [])))) \<and>
    monitor_is_stale src m = Some (list_ex (\<lambda>w. w_source w = src \<and> idle w) (snd (watch_run cs [])))"
proof -
  have "monitor_rep monitor_new []" by (simp add: monitor_rep_def monitor_new_def MAX_FEEDS_def)
  then obtain m where m: "monitor_run cs monitor_new = Some (fst (watch_run cs []), m)"
    "monitor_rep m (snd (watch_run cs []))" using monitor_run_refines by blast
  have "List.map_filter (\<lambda>slot. case slot of None \<Rightarrow> None | Some feed \<Rightarrow>
         if fs_stale feed then Some \<lparr> sf_source_id = fs_source_id feed, sf_last_event_count = fs_last_seen feed \<rparr>
         else None) (map (\<lambda>w. Some (feed_of w)) ws) =
      map (\<lambda>w. \<lparr> sf_source_id = w_source w, sf_last_event_count = last (w_seen w) \<rparr>) (filter idle ws)" for ws
    by (induction ws) (auto simp: map_filter_simps feed_of_def idle_def)
  then have "stale_feeds m = Some (map (\<lambda>w. \<lparr> sf_source_id = w_source w, sf_last_event_count = last (w_seen w) \<rparr>)
      (filter idle (snd (watch_run cs []))))"
    by (simp add: stale_feeds_def monitor_rep_slice [OF m(2)])
  moreover have "monitor_is_stale src m = Some (list_ex (\<lambda>w. w_source w = src \<and> idle w) (snd (watch_run cs [])))"
    by (simp add: monitor_is_stale_def monitor_rep_slice [OF m(2)] list_ex_iff feed_of_def)
  ultimately show ?thesis using m by (auto simp: monitor_len_def monitor_rep_def)
qed

end
