(* ===== verification/Feed_Loop.thy ===== *)
theory Feed_Loop
  imports Fixed_Parse Float64
begin

text \<open>
  The feed thread (\<open>crates/transport/src/feed.rs\<close>): the reconnection delay with its floating point
  jitter, the interruptible sleep, and the connection loop as a step relation over what the outside does
  (connections, reads, sleeps, the shutdown flag).
\<close>

section \<open>Reconnection delay\<close>

text \<open>\<open>std::time::Duration\<close>, in nanoseconds.\<close>

type_synonym Duration = nat

definition DURATION_MAX :: Duration where
  "DURATION_MAX = (2 ^ 64 - 1) * 10 ^ 9 + 999999999"

definition duration_saturating_mul :: "Duration \<Rightarrow> nat \<Rightarrow> Duration" where
  "duration_saturating_mul d k = min (d * k) DURATION_MAX"

definition from_secs :: "nat \<Rightarrow> Duration" where
  "from_secs n = n * 10 ^ 9"

definition from_millis :: "u64 \<Rightarrow> Duration" where
  "from_millis n = unat n * 10 ^ 6"

definition as_millis :: "Duration \<Rightarrow> nat" where
  "as_millis d = d div 10 ^ 6"

record BackoffConfig =
  bo_initial :: Duration
  bo_max :: Duration
  bo_jitter_factor :: f64

definition backoff_default :: BackoffConfig where
  "backoff_default = \<lparr> bo_initial = from_secs 1, bo_max = from_secs 30, bo_jitter_factor = Fin (1 / 8) \<rparr>"

text \<open>The argument \<open>nanos\<close> is the sub-second part of the system clock, or zero.\<close>

definition backoff_delay :: "nat \<Rightarrow> BackoffConfig \<Rightarrow> 32 word \<Rightarrow> Duration" where
  "backoff_delay nanos self attempt =
     (let base = duration_saturating_mul (bo_initial self) (2 ^ min (unat attempt) 20);
          capped = min base (bo_max self) in
      if f64_le (bo_jitter_factor self) (Fin 0) then capped
      else
        let capped_ms = f64_of_int (int (as_millis capped));
            jitter_range = f64_mul capped_ms (bo_jitter_factor self);
            jitter_ms = f64_sub (f64_mul (f64_mul (f64_div (f64_of_int (int (nanos mod 1000))) (f64_of_int 1000))
              jitter_range) (f64_of_int 2)) jitter_range;
            ms = f64_add capped_ms jitter_ms in
        from_millis (f64_to_u64 (f64_max ms (Fin 100))))"

section \<open>Bounds on the delay\<close>

lemma representable_quarter: "\<bar>n\<bar> \<le> 2 ^ 53 \<Longrightarrow> representable (of_int n / 4)"
  unfolding representable_def by (rule exI [of _ n], rule exI [of _ "- 2"]) (simp add: power_int_minus field_simps)

lemma quarter_round_between:
  assumes "of_int a / 4 \<le> r" "r \<le> of_int b / 4" "\<bar>a\<bar> \<le> 2 ^ 50" "\<bar>b\<bar> \<le> 2 ^ 50"
  shows "f64_between (of_int a / 4) (of_int b / 4) (f64_round s r)"
proof -
  have "\<bar>rat_of_int n / 4\<bar> < 2 ^ 1024" if "\<bar>n\<bar> \<le> 2 ^ 50" for n
  proof -
    have "rat_of_int \<bar>n\<bar> \<le> of_int (2 ^ 50)" using that by (simp only: of_int_le_iff)
    then have "\<bar>rat_of_int n / 4\<bar> \<le> 2 ^ 53" by simp
    then show ?thesis by (rule less_2_1024)
  qed
  with assms show ?thesis by (intro f64_round_between representable_quarter) auto
qed

text \<open>The jittered value for a cap of \<open>8 r\<close> milliseconds and a jitter of one eighth, with the fraction of
  the clock at least \<open>l / 4\<close>.\<close>

lemma jitter_between:
  assumes "0 < r" "r \<le> 10 ^ 6" "0 \<le> l" "l \<le> 4" "of_int l / 4 \<le> f64_val x" "f64_val x \<le> 1" "f64_finite x"
  shows "f64_between (of_int (8 * r - r) + of_int (2 * l * r) / 4) (of_int (9 * r))
     (f64_add (Fin (of_int (8 * r))) (f64_sub (f64_mul (f64_mul x (Fin (of_int r))) (f64_of_int 2)) (Fin (of_int r))))"
proof -
  have r: "0 < rat_of_int r" "rat_of_int r \<le> 10 ^ 6" using assms(1,2) of_int_le_iff [of r "10 ^ 6", where 'a = rat] by simp_all
  have lr: "0 \<le> l * r" "l * r \<le> 4 * 10 ^ 6" using assms(1-4) mult_mono [of l 4 r "10 ^ 6"] by auto
  define y where "y = f64_mul x (Fin (of_int r))"
  have "of_int (l * r) / 4 \<le> f64_val x * of_int r" using mult_right_mono [OF assms(5), of "of_int r"] r by simp
  moreover have "f64_val x * of_int r \<le> of_int (4 * r) / 4" using mult_right_mono [OF assms(6), of "of_int r"] r by simp
  ultimately have "f64_between (of_int (l * r) / 4) (of_int (4 * r) / 4) y"
    unfolding y_def f64_mul_finite [OF assms(7), of "Fin (of_int r)", simplified]
    using assms(1,2) lr by (intro quarter_round_between) auto
  then have y: "f64_finite y" "of_int (l * r) / 4 \<le> f64_val y" "f64_val y \<le> of_int r" by (auto simp: f64_between_def)
  define z where "z = f64_mul y (f64_of_int 2)"
  have two: "f64_of_int 2 = Fin 2" by (subst f64_of_int_exact) auto
  have "f64_between (of_int (2 * (l * r)) / 4) (of_int (8 * r) / 4) z"
    unfolding z_def two f64_mul_finite [OF y(1), of "Fin 2", simplified]
    using y assms(1,2) lr by (intro quarter_round_between) auto
  then have z: "f64_finite z" "of_int (2 * (l * r)) / 4 \<le> f64_val z" "f64_val z \<le> 2 * of_int r" by (auto simp: f64_between_def)
  define w where "w = f64_sub z (Fin (of_int r))"
  have "f64_neg (Fin (of_int r)) = Fin (- of_int r)" using r by (simp add: f64_neg_def)
  then have w_eq: "w = f64_round False (f64_val z - of_int r)"
    unfolding w_def f64_sub_def using f64_add_finite [OF z(1), of "Fin (- of_int r)"] by simp
  have "f64_between (of_int (2 * (l * r) - 4 * r) / 4) (of_int (4 * r) / 4) w"
    unfolding w_eq using z assms(1,2) lr by (intro quarter_round_between) (auto simp: field_simps)
  then have w: "f64_finite w" "of_int (2 * (l * r) - 4 * r) / 4 \<le> f64_val w" "f64_val w \<le> of_int r"
    by (auto simp: f64_between_def)
  have add: "f64_add (Fin (of_int (8 * r))) w = f64_round False (of_int (8 * r) + f64_val w)"
    using f64_add_finite [of "Fin (of_int (8 * r))" w] w(1) by simp
  have "f64_between (of_int (28 * r + 2 * (l * r)) / 4) (of_int (36 * r) / 4) (f64_add (Fin (of_int (8 * r))) w)"
    unfolding add using w assms(1,2) lr by (intro quarter_round_between) (auto simp: field_simps)
  moreover have "of_int (8 * r - r) + of_int (2 * l * r) / 4 = rat_of_int (28 * r + 2 * (l * r)) / 4"
    "of_int (9 * r) = rat_of_int (36 * r) / 4" by (simp_all add: field_simps)
  ultimately show ?thesis by (simp only: w_def z_def y_def)
qed

definition default_cap :: "nat \<Rightarrow> nat" where
  "default_cap attempt = min (1000 * 2 ^ min attempt 20) 30000"

lemma default_capped:
  "min (duration_saturating_mul (bo_initial backoff_default) (2 ^ min a 20)) (bo_max backoff_default) = default_cap a * 10 ^ 6"
proof -
  have "(2 :: nat) ^ min a 20 \<le> 2 ^ 20" by (rule power_increasing) auto
  then have "10 ^ 9 * 2 ^ min a 20 \<le> DURATION_MAX" by (simp add: DURATION_MAX_def)
  then have "duration_saturating_mul (bo_initial backoff_default) (2 ^ min a 20) = 1000 * 2 ^ min a 20 * 10 ^ 6"
    by (simp add: duration_saturating_mul_def backoff_default_def from_secs_def min_def)
  moreover have "bo_max backoff_default = 30000 * 10 ^ 6" by (simp add: backoff_default_def from_secs_def)
  ultimately show ?thesis unfolding default_cap_def min_mult_distrib_right by simp
qed

lemma default_cap_eighth: "\<exists>r. default_cap a = 8 * r \<and> 125 \<le> r \<and> r \<le> 3750"
proof -
  have "default_cap a = 8 * min (125 * 2 ^ min a 20) 3750" by (simp add: default_cap_def min_mult_distrib_left)
  moreover have "125 \<le> min (125 * 2 ^ min a 20) (3750 :: nat)" by simp
  ultimately show ?thesis by (metis min.cobounded2)
qed

lemma default_delay_between:
  assumes "default_cap (unat attempt) = 8 * r" "0 \<le> l" "l \<le> 4"
    and "of_int l / 4 \<le> f64_val (f64_div (f64_of_int (int (nanos mod 1000))) (f64_of_int 1000))"
    and "2 * l * int r = 4 * g" "125 \<le> r" "r \<le> 3750"
  shows "\<exists>ms. backoff_delay nanos backoff_default attempt = ms * 10 ^ 6 \<and> 7 * r + nat g \<le> ms \<and> ms \<le> 9 * r"
proof -
  let ?x = "f64_div (f64_of_int (int (nanos mod 1000))) (f64_of_int 1000)"
  have n: "f64_of_int (int (nanos mod 1000)) = Fin (of_nat (nanos mod 1000))" "f64_of_int 1000 = Fin 1000"
    by (subst f64_of_int_exact; simp)+
  have "rat_of_nat (nanos mod 1000) \<le> 1000" using mod_less_divisor [of 1000 nanos]
    by (metis less_imp_le of_nat_le_iff of_nat_numeral zero_less_numeral)
  then have "f64_between 0 1 ?x"
    unfolding n by (subst f64_div_finite) (auto intro!: f64_round_between)
  then have x: "f64_finite ?x" "f64_val ?x \<le> 1" by (auto simp: f64_between_def)
  have capped: "f64_of_int (int (as_millis (default_cap (unat attempt) * 10 ^ 6))) = Fin (of_int (8 * int r))"
    using assms(1,7) by (simp add: as_millis_def f64_of_int_exact)
  have "f64_rnd (of_int (int r)) = of_int (int r)" using assms(7) by (intro f64_rnd_representable representable_int) simp
  moreover have "\<bar>rat_of_nat r\<bar> < 2 ^ 1024" using assms(7)
    by (intro less_2_1024) (simp add: order_trans [of _ "of_nat 3750"])
  ultimately have range: "f64_mul (Fin (of_int (8 * int r))) (Fin (1 / 8)) = Fin (of_int (int r))"
    using assms(6) by (simp add: f64_mul_def f64_neg_sign_def f64_round_def Let_def)
  define m where "m = f64_add (Fin (of_int (8 * int r))) (f64_sub (f64_mul (f64_mul ?x (Fin (of_int (int r)))) (f64_of_int 2)) (Fin (of_int (int r))))"
  have "f64_between (of_int (7 * int r + g)) (of_int (9 * int r)) m"
  proof -
    have "of_int (2 * l * int r) / 4 = rat_of_int g" unfolding assms(5) by simp
    with jitter_between [of "int r" l ?x] assms(2-4,6,7) x show ?thesis by (simp add: m_def algebra_simps)
  qed
  moreover have "0 \<le> g"
  proof -
    have "0 \<le> 2 * l * int r" using assms(2) by simp
    then show ?thesis unfolding assms(5) by simp
  qed
  ultimately have m: "f64_finite m" "of_int (7 * int r + g) \<le> f64_val m" "f64_val m \<le> of_int (9 * int r)" "0 \<le> g"
    by (auto simp: f64_between_def)
  have "rat_of_nat r \<ge> 125" using assms(6) by (simp add: order_trans [of _ "of_nat 125"])
  then have "f64_max m (Fin 100) = m" using m by (auto simp: f64_max_def)
  moreover have "7 * int r + g \<le> f64_clamp 0 (2 ^ 64 - 1) m \<and> f64_clamp 0 (2 ^ 64 - 1) m \<le> 9 * int r"
    using m assms(7) by (intro f64_clamp_between) (auto simp: f64_between_def)
  ultimately have "\<exists>k. backoff_delay nanos backoff_default attempt = from_millis (word_of_int k) \<and> 7 * int r + g \<le> k \<and> k \<le> 9 * int r"
    unfolding backoff_delay_def Let_def default_capped capped
    using range by (auto simp: backoff_default_def m_def f64_to_u64_def f64_le_def)
  then obtain k where k: "backoff_delay nanos backoff_default attempt = from_millis (word_of_int k)" "7 * int r + g \<le> k" "k \<le> 9 * int r"
    by blast
  have "unat (word_of_int k :: u64) = nat k" using k(2,3) assms(7) m(4)
    by (simp add: unat_eq_nat_uint uint_word_of_int_eq take_bit_int_eq_self)
  then show ?thesis using k m(4) by (intro exI [of _ "nat k"]) (auto simp: from_millis_def)
qed

lemma clock_fraction:
  "f64_val (f64_div (f64_of_int (int n)) (f64_of_int 1000)) \<ge> 0"
  "f64_val (f64_div (f64_of_int 999) (f64_of_int 1000)) \<ge> 3 / 4"
proof -
  have "f64_rnd (of_int (int n)) \<ge> 0" by (rule f64_rnd_nonneg) simp
  moreover have "f64_of_int 1000 = Fin 1000" "f64_of_int 999 = Fin 999" by (subst f64_of_int_exact; simp)+
  moreover have "f64_rnd (f64_rnd (of_int (int n)) / 1000) \<ge> 0" by (intro f64_rnd_nonneg divide_nonneg_pos calculation) simp
  ultimately show "f64_val (f64_div (f64_of_int (int n)) (f64_of_int 1000)) \<ge> 0"
    by (auto simp: f64_of_int_def f64_round_def f64_div_def Let_def not_le)
  have "f64_between (of_int 3 / 4) (of_int 4 / 4) (f64_round s (999 / 1000))" for s
    by (rule quarter_round_between) simp_all
  moreover have "f64_div (Fin 999) (Fin 1000) = f64_round False (999 / 1000)"
    by (subst f64_div_finite) (simp_all add: f64_neg_sign_def)
  ultimately have "f64_between (of_int 3 / 4) (of_int 4 / 4) (f64_div (Fin 999) (Fin 1000))" by simp
  then show "f64_val (f64_div (f64_of_int 999) (f64_of_int 1000)) \<ge> 3 / 4"
    unfolding \<open>f64_of_int 1000 = Fin 1000\<close> \<open>f64_of_int 999 = Fin 999\<close> by (simp add: f64_between_def)
qed

text \<open>C32. The default reconnection delay is exponential, capped and within its jitter. For every attempt
  and every reading of the clock it is a whole number of milliseconds within 12.5 percent of
  \<open>min (1000 * 2 ^ min attempt 20) 30000\<close>, all rounding of the floating point computation included. The
  cap is applied before the jitter, so the delay can exceed the configured maximum of 30 seconds. With no
  jitter it is exactly the capped exponential.\<close>

theorem backoff_delay_bounds:
  "(\<exists>ms. backoff_delay nanos backoff_default attempt = ms * 10 ^ 6 \<and>
      7 * default_cap (unat attempt) \<le> 8 * ms \<and> 8 * ms \<le> 9 * default_cap (unat attempt)) \<and>
   bo_max backoff_default < backoff_delay 999 backoff_default 5 \<and>
   backoff_delay nanos \<lparr> bo_initial = from_secs 1, bo_max = from_secs 30, bo_jitter_factor = Fin 0 \<rparr> attempt =
     default_cap (unat attempt) * 10 ^ 6"
proof (intro conjI)
  obtain r where r: "default_cap (unat attempt) = 8 * r" "125 \<le> r" "r \<le> 3750" using default_cap_eighth by blast
  from default_delay_between [OF r(1), of 0 nanos 0] r clock_fraction(1)
  show "\<exists>ms. backoff_delay nanos backoff_default attempt = ms * 10 ^ 6 \<and>
      7 * default_cap (unat attempt) \<le> 8 * ms \<and> 8 * ms \<le> 9 * default_cap (unat attempt)" by auto
  have "default_cap (unat (5 :: 32 word)) = 8 * 3750" by (simp add: default_cap_def)
  from default_delay_between [OF this, of 3 999 5625] clock_fraction(2)
  show "bo_max backoff_default < backoff_delay 999 backoff_default 5"
    by (auto simp: backoff_default_def from_secs_def)
  show "backoff_delay nanos \<lparr> bo_initial = from_secs 1, bo_max = from_secs 30, bo_jitter_factor = Fin 0 \<rparr> attempt =
     default_cap (unat attempt) * 10 ^ 6"
    using default_capped [of "unat attempt"] by (simp add: backoff_delay_def backoff_default_def f64_le_def Let_def)
qed

section \<open>Interruptible sleep\<close>

text \<open>What the sleep observes of the machine: the shutdown flag over time, the time that passes between
  two readings of the clock, and by how much \<open>thread::sleep\<close> oversleeps.\<close>

record machine =
  mc_shutdown :: "nat \<Rightarrow> bool"
  mc_lag :: "nat \<Rightarrow> nat"
  mc_oversleep :: "nat \<Rightarrow> nat"

definition sleep_chunk :: Duration where
  "sleep_chunk = 100 * 10 ^ 6"

text \<open>The loop at time \<open>t\<close>: the answer, the time of the return and the number of rounds.\<close>

function sleep_loop :: "machine \<Rightarrow> nat \<Rightarrow> nat \<Rightarrow> bool \<times> nat \<times> nat" where
  "sleep_loop m deadline t =
     (if t < deadline then
        if mc_shutdown m t then (True, t, 0)
        else
          let now = t + mc_lag m t;
              remaining = deadline - now;
              (r, t', n) = sleep_loop m deadline (now + min remaining sleep_chunk + mc_oversleep m now)
          in (r, t', Suc n)
      else (mc_shutdown m t, t, 0))"
  by pat_completeness auto
termination by (relation "measure (\<lambda>(m, deadline, t). deadline - t)") (auto simp: sleep_chunk_def)

declare sleep_loop.simps [simp del]

definition interruptible_sleep :: "machine \<Rightarrow> Duration \<Rightarrow> nat \<Rightarrow> bool \<times> nat \<times> nat" where
  "interruptible_sleep m duration now = sleep_loop m (now + duration) now"

text \<open>When the loop wakes up after the round at time \<open>t\<close>.\<close>

definition wake_at :: "machine \<Rightarrow> nat \<Rightarrow> nat \<Rightarrow> nat" where
  "wake_at m deadline t = t + mc_lag m t + min (deadline - (t + mc_lag m t)) sleep_chunk + mc_oversleep m (t + mc_lag m t)"

lemma sleep_loop_round:
  "t < deadline \<Longrightarrow> \<not> mc_shutdown m t \<Longrightarrow> sleep_loop m deadline t =
     (case sleep_loop m deadline (wake_at m deadline t) of (r, t', n) \<Rightarrow> (r, t', Suc n))"
  by (subst sleep_loop.simps) (simp add: Let_def wake_at_def)

lemma sleep_loop_stop:
  "\<not> t < deadline \<or> mc_shutdown m t \<Longrightarrow> sleep_loop m deadline t = (mc_shutdown m t, t, 0)"
  by (subst sleep_loop.simps) auto

lemma wake_at_later: "t < deadline \<Longrightarrow> t < wake_at m deadline t"
  by (auto simp: wake_at_def sleep_chunk_def)

lemma wake_at_chunk: "wake_at m deadline t < deadline \<Longrightarrow> t + sleep_chunk \<le> wake_at m deadline t"
  by (auto simp: wake_at_def min_def split: if_splits)

text \<open>Rounds until the deadline: induction on the time that is left.\<close>

lemma sleep_loop_induct [case_names stop round]:
  assumes "\<And>t. \<not> t < deadline \<or> mc_shutdown m t \<Longrightarrow> P t"
    and "\<And>t. t < deadline \<Longrightarrow> \<not> mc_shutdown m t \<Longrightarrow> P (wake_at m deadline t) \<Longrightarrow> P t"
  shows "P t"
proof (induction "deadline - t" arbitrary: t rule: less_induct)
  case less
  then show ?case
    using assms wake_at_later [of t deadline m] by (cases "t < deadline \<and> \<not> mc_shutdown m t") auto
qed

lemma sleep_loop_result:
  "\<exists>t' n. sleep_loop m deadline t = (mc_shutdown m t', t', n) \<and> t \<le> t' \<and> n * sleep_chunk \<le> deadline - t + sleep_chunk \<and>
     (deadline \<le> t' \<or> mc_shutdown m t')"
proof (induction t rule: sleep_loop_induct [where m = m and deadline = deadline])
  case (stop t)
  then show ?case by (auto simp: sleep_loop_stop)
next
  case (round t)
  then obtain t' n where n: "sleep_loop m deadline (wake_at m deadline t) = (mc_shutdown m t', t', n)"
    "wake_at m deadline t \<le> t'" "n * sleep_chunk \<le> deadline - wake_at m deadline t + sleep_chunk"
    "deadline \<le> t' \<or> mc_shutdown m t'" by blast
  have "n * sleep_chunk \<le> deadline - t"
  proof (cases "wake_at m deadline t < deadline")
    case True
    with n(3) wake_at_chunk [OF True] show ?thesis by linarith
  next
    case False
    with n(1) show ?thesis by (simp add: sleep_loop_stop)
  qed
  with n wake_at_later [OF round(1), of m] sleep_loop_round [OF round(1,2)] show ?case by auto
qed

text \<open>With bounded delays the loop ends soon after its deadline; a flag that is set for good is answered
  within one chunk.\<close>

lemma wake_at_bound:
  assumes "\<And>u. mc_lag m u \<le> B \<and> mc_oversleep m u \<le> B" "t < deadline"
  shows "wake_at m deadline t \<le> t + sleep_chunk + 2 * B" "wake_at m deadline t \<le> deadline + 2 * B"
  using assms(1) [of t] assms(1) [of "t + mc_lag m t"] assms(2) by (auto simp: wake_at_def)

lemma sleep_loop_on_time:
  assumes "\<And>u. mc_lag m u \<le> B \<and> mc_oversleep m u \<le> B"
  shows "fst (snd (sleep_loop m deadline t)) \<le> max t (deadline + 2 * B)"
proof (induction t rule: sleep_loop_induct [where m = m and deadline = deadline])
  case (round t)
  then show ?case
    using wake_at_bound(2) [OF assms round(1)] sleep_loop_round [OF round(1,2)] by (auto simp: split_def)
qed (auto simp: sleep_loop_stop)

lemma sleep_loop_responds:
  assumes "\<And>u. mc_lag m u \<le> B \<and> mc_oversleep m u \<le> B" "\<And>u. T \<le> u \<Longrightarrow> mc_shutdown m u"
  shows "fst (snd (sleep_loop m deadline t)) \<le> max t (T + sleep_chunk + 2 * B)"
proof (induction t rule: sleep_loop_induct [where m = m and deadline = deadline])
  case (round t)
  have "t < T" using round(2) assms(2) not_le by blast
  then show ?case
    using wake_at_bound(1) [OF assms(1) round(1)] round(3) sleep_loop_round [OF round(1,2)] by (auto simp: split_def)
qed (auto simp: sleep_loop_stop)

text \<open>C31. The interruptible sleep always ends, sleeps long enough and answers a shutdown promptly. Whatever
  the shutdown flag does, whatever time passes between two readings of the clock and however long the system
  oversleeps, the loop ends after at most one round per 100 milliseconds of the duration plus one; it answers the
  value of the flag at its return, and it returns before the whole duration has passed only with a positive
  answer. If, moreover, no delay of the system exceeds \<open>B\<close>, it returns at most twice \<open>B\<close> after its deadline, and a
  flag that is set at time \<open>T\<close> for good makes it return within 100 milliseconds and twice \<open>B\<close> of \<open>T\<close>.\<close>

theorem interruptible_sleep_ends:
  "\<exists>r t n. interruptible_sleep m duration t0 = (r, t, n) \<and> n \<le> duration div sleep_chunk + 1 \<and>
    (r \<longleftrightarrow> mc_shutdown m t) \<and> t0 \<le> t \<and> (t < t0 + duration \<longrightarrow> r) \<and>
    (\<forall>B. (\<forall>u. mc_lag m u \<le> B \<and> mc_oversleep m u \<le> B) \<longrightarrow>
      t \<le> t0 + duration + 2 * B \<and>
      (\<forall>T. (\<forall>u. T \<le> u \<longrightarrow> mc_shutdown m u) \<longrightarrow> t \<le> max t0 (T + sleep_chunk + 2 * B)))"
proof -
  obtain t n where s: "sleep_loop m (t0 + duration) t0 = (mc_shutdown m t, t, n)" "t0 \<le> t"
    "n * sleep_chunk \<le> duration + sleep_chunk" "t0 + duration \<le> t \<or> mc_shutdown m t"
    using sleep_loop_result [of m "t0 + duration" t0] by auto
  have "(n * sleep_chunk) div sleep_chunk \<le> (duration + sleep_chunk) div sleep_chunk" by (rule div_le_mono [OF s(3)])
  then have "n \<le> duration div sleep_chunk + 1" by (simp add: sleep_chunk_def)
  moreover have "t \<le> t0 + duration + 2 * B" if "\<forall>u. mc_lag m u \<le> B \<and> mc_oversleep m u \<le> B" for B
    using sleep_loop_on_time [of m B "t0 + duration" t0] that s(1) by auto
  moreover have "t \<le> max t0 (T + sleep_chunk + 2 * B)"
    if "\<forall>u. mc_lag m u \<le> B \<and> mc_oversleep m u \<le> B" "\<forall>u. T \<le> u \<longrightarrow> mc_shutdown m u" for B T
    using sleep_loop_responds [of m B T "t0 + duration" t0] that s(1) by auto
  ultimately show ?thesis using s by (auto simp: interruptible_sleep_def)
qed

text \<open>A second's sleep on a machine that is never late: undisturbed it lasts exactly the second and answers no; with
  the flag set after a quarter of a second it is over within 350 milliseconds and answers yes.\<close>

definition quiet_machine :: machine where
  "quiet_machine = \<lparr> mc_shutdown = (\<lambda>_. False), mc_lag = (\<lambda>_. 0), mc_oversleep = (\<lambda>_. 0) \<rparr>"

definition stopped_machine :: machine where
  "stopped_machine = quiet_machine\<lparr> mc_shutdown := (\<lambda>u. 250 * 10 ^ 6 \<le> u) \<rparr>"

theorem interruptible_sleep_ends_witness:
  "(\<exists>n. interruptible_sleep quiet_machine (10 ^ 9) 0 = (False, 10 ^ 9, n)) \<and>
   (\<exists>t n. interruptible_sleep stopped_machine (10 ^ 9) 0 = (True, t, n) \<and> t \<le> 350 * 10 ^ 6)"
proof
  obtain r t n where q: "interruptible_sleep quiet_machine (10 ^ 9) 0 = (r, t, n)" "r \<longleftrightarrow> mc_shutdown quiet_machine t"
    "t < 0 + 10 ^ 9 \<longrightarrow> r"
    "\<forall>B. (\<forall>u. mc_lag quiet_machine u \<le> B \<and> mc_oversleep quiet_machine u \<le> B) \<longrightarrow> t \<le> 0 + 10 ^ 9 + 2 * B"
    using interruptible_sleep_ends [of quiet_machine "10 ^ 9" 0] by blast
  then show "\<exists>n. interruptible_sleep quiet_machine (10 ^ 9) 0 = (False, 10 ^ 9, n)"
    using spec [OF q(4), of 0] by (auto simp: quiet_machine_def)
next
  obtain r t n where q: "interruptible_sleep stopped_machine (10 ^ 9) 0 = (r, t, n)" "r \<longleftrightarrow> mc_shutdown stopped_machine t"
    "t < 0 + 10 ^ 9 \<longrightarrow> r"
    "\<forall>B. (\<forall>u. mc_lag stopped_machine u \<le> B \<and> mc_oversleep stopped_machine u \<le> B) \<longrightarrow>
       (\<forall>T. (\<forall>u. T \<le> u \<longrightarrow> mc_shutdown stopped_machine u) \<longrightarrow> t \<le> max 0 (T + sleep_chunk + 2 * B))"
    using interruptible_sleep_ends [of stopped_machine "10 ^ 9" 0] by blast
  have "t \<le> 350 * 10 ^ 6"
    using spec [OF mp [OF spec [OF q(4), of 0]], of "250 * 10 ^ 6"]
    by (simp add: stopped_machine_def quiet_machine_def sleep_chunk_def)
  then show "\<exists>t n. interruptible_sleep stopped_machine (10 ^ 9) 0 = (True, t, n) \<and> t \<le> 350 * 10 ^ 6" using q(1,3) by auto
qed

section \<open>The connection loop\<close>

record FeedConfig =
  fc_name :: string
  fc_core_id :: "nat option"
  fc_backoff :: BackoffConfig

text \<open>The states between two outside actions, each entered at a test of the shutdown flag: before a
  connection, before a read, asleep for a delay, and the end of the thread.\<close>

datatype feed_pc = Connecting | Reading | Sleeping Duration | Returned

record 's FeedThread =
  ft_pc :: feed_pc
  ft_attempt :: "32 word"
  ft_reconnects :: u64
  ft_msg_count :: u64
  ft_callback :: 's

definition feed_start :: "'s \<Rightarrow> 's FeedThread" where
  "feed_start cb = \<lparr> ft_pc = Connecting, ft_attempt = 0, ft_reconnects = 0, ft_msg_count = 0, ft_callback = cb \<rparr>"

definition saturating_inc :: "32 word \<Rightarrow> 32 word" where
  "saturating_inc n = (if n = - 1 then n else n + 1)"

text \<open>\<open>attempt = attempt.saturating_add(1)\<close> and a sleep for the delay of the attempt, in both error paths.\<close>

definition back_off :: "FeedConfig \<Rightarrow> nat \<Rightarrow> 's FeedThread \<Rightarrow> 's FeedThread" where
  "back_off config nanos s = s\<lparr> ft_pc := Sleeping (backoff_delay nanos (fc_backoff config) (ft_attempt s)),
     ft_attempt := saturating_inc (ft_attempt s) \<rparr>"

text \<open>What happens outside in a step: the value the shutdown flag is loaded with, and, when it is not set,
  the result of the connection, read or sleep. \<open>ReadIdle\<close> is \<open>Ok(0)\<close>.\<close>

datatype feed_event = Shutdown | ConnectOk | ConnectErr | ReadIdle | ReadText bytes | ReadErr | Slept

inductive feed_step :: "FeedConfig \<Rightarrow> (bytes \<Rightarrow> 's \<Rightarrow> bool \<times> 's) \<Rightarrow> feed_event \<Rightarrow> 's FeedThread \<Rightarrow> 's FeedThread \<Rightarrow> bool"
  for config on_message where
  shutdown: "ft_pc s \<noteq> Returned \<Longrightarrow> feed_step config on_message Shutdown s (s\<lparr> ft_pc := Returned \<rparr>)"
| connect_ok: "ft_pc s = Connecting \<Longrightarrow> feed_step config on_message ConnectOk s
     (s\<lparr> ft_pc := Reading, ft_reconnects := (if ft_attempt s > 0 then ft_reconnects s + 1 else ft_reconnects s),
        ft_attempt := 0 \<rparr>)"
| connect_err: "ft_pc s = Connecting \<Longrightarrow> feed_step config on_message ConnectErr s (back_off config nanos s)"
| read_idle: "ft_pc s = Reading \<Longrightarrow> feed_step config on_message ReadIdle s s"
| read_text: "ft_pc s = Reading \<Longrightarrow> on_message buf (ft_callback s) = (continue, cb) \<Longrightarrow>
     feed_step config on_message (ReadText buf) s
       (s\<lparr> ft_pc := (if continue then Reading else Returned), ft_msg_count := ft_msg_count s + 1, ft_callback := cb \<rparr>)"
| read_err: "ft_pc s = Reading \<Longrightarrow> feed_step config on_message ReadErr s (back_off config nanos s)"
| slept: "ft_pc s = Sleeping d \<Longrightarrow> feed_step config on_message Slept s (s\<lparr> ft_pc := Connecting \<rparr>)"

text \<open>The states a thread reaches, with the outside events so far.\<close>

inductive feed_run :: "FeedConfig \<Rightarrow> (bytes \<Rightarrow> 's \<Rightarrow> bool \<times> 's) \<Rightarrow> 's \<Rightarrow> feed_event list \<Rightarrow> 's FeedThread \<Rightarrow> bool"
  for config on_message cb where
  start: "feed_run config on_message cb [] (feed_start cb)"
| step: "feed_run config on_message cb es s \<Longrightarrow> feed_step config on_message e s s' \<Longrightarrow>
     feed_run config on_message cb (es @ [e]) s'"

inductive_cases feed_stepE: "feed_step config on_message e s s'"

section \<open>What the counters should mean\<close>

text \<open>The failures since the last connection, and the messages delivered.\<close>

fun failures_since :: "feed_event list \<Rightarrow> nat \<Rightarrow> nat" where
  "failures_since [] n = n"
| "failures_since (ConnectOk # es) n = failures_since es 0"
| "failures_since (ConnectErr # es) n = failures_since es (Suc n)"
| "failures_since (ReadErr # es) n = failures_since es (Suc n)"
| "failures_since (_ # es) n = failures_since es n"

fun texts :: "feed_event list \<Rightarrow> bytes list" where
  "texts (ReadText b # es) = b # texts es"
| "texts (_ # es) = texts es"
| "texts [] = []"

definition connections :: "feed_event list \<Rightarrow> nat" where
  "connections es = length (filter (\<lambda>e. e = ConnectOk) es)"

text \<open>Whether the very first attempt to connect succeeded.\<close>

definition connected_first :: "feed_event list \<Rightarrow> bool" where
  "connected_first es \<longleftrightarrow> (case es of [] \<Rightarrow> False | e # _ \<Rightarrow> e = ConnectOk)"

lemma connected_first_Nil [simp]: "\<not> connected_first []"
  by (simp add: connected_first_def)

lemma failures_since_snoc:
  "failures_since (es @ [e]) n = (case e of ConnectOk \<Rightarrow> 0 | ConnectErr \<Rightarrow> Suc (failures_since es n)
     | ReadErr \<Rightarrow> Suc (failures_since es n) | _ \<Rightarrow> failures_since es n)"
  by (induction es n rule: failures_since.induct) (auto split: feed_event.split)

lemma failures_since_le: "failures_since es n \<le> n + length es"
  by (induction es n rule: failures_since.induct) auto

lemma texts_snoc: "texts (es @ [e]) = texts es @ (case e of ReadText b \<Rightarrow> [b] | _ \<Rightarrow> [])"
  by (induction es rule: texts.induct) (auto split: feed_event.split)

lemma connections_snoc: "connections (es @ [e]) = connections es + (if e = ConnectOk then 1 else 0)"
  by (simp add: connections_def)

lemma saturating_inc_nat: "n < 2 ^ 32 - 1 \<Longrightarrow> saturating_inc (word_of_nat n) = word_of_nat (Suc n)"
proof -
  assume n: "n < 2 ^ 32 - 1"
  have "unat (word_of_nat n :: 32 word) = n" using n by (simp add: unat_of_nat)
  moreover have "unat (- 1 :: 32 word) = 2 ^ 32 - 1" by (simp add: unsigned_minus_1_eq_mask mask_eq_exp_minus_1)
  ultimately have "(word_of_nat n :: 32 word) \<noteq> - 1" using n by force
  then show ?thesis by (simp add: saturating_inc_def ac_simps)
qed

text \<open>The invariant of a run.\<close>

definition feed_inv :: "FeedConfig \<Rightarrow> (bytes \<Rightarrow> 's \<Rightarrow> bool \<times> 's) \<Rightarrow> 's \<Rightarrow> feed_event list \<Rightarrow> 's FeedThread \<Rightarrow> bool" where
  "feed_inv config on_message cb es s \<longleftrightarrow>
     ft_attempt s = word_of_nat (failures_since es 0) \<and>
     ft_reconnects s = word_of_nat (connections es - (if connected_first es then 1 else 0)) \<and>
     ft_msg_count s = word_of_nat (length (texts es)) \<and>
     ft_callback s = fold (\<lambda>b c. snd (on_message b c)) (texts es) cb \<and>
     (connected_first es \<longrightarrow> 0 < connections es) \<and>
     (ft_pc s = Connecting \<longrightarrow> es = [] \<or> 0 < failures_since es 0) \<and>
     (\<forall>d. ft_pc s = Sleeping d \<longrightarrow> 0 < failures_since es 0 \<and>
        (\<exists>nanos. d = backoff_delay nanos (fc_backoff config) (word_of_nat (failures_since es 0 - 1)))) \<and>
     (ft_pc s \<noteq> Connecting \<longrightarrow> es \<noteq> [])"

lemma connected_first_snoc:
  "connected_first (es @ [e]) \<longleftrightarrow> (if es = [] then e = ConnectOk else connected_first es)"
  by (cases es) (auto simp: connected_first_def)

lemma feed_inv_step:
  assumes "feed_inv config on_message cb es s" "feed_step config on_message e s s'" "length es < 2 ^ 32 - 1"
  shows "feed_inv config on_message cb (es @ [e]) s'"
proof -
  note snoc = failures_since_snoc texts_snoc connections_snoc connected_first_snoc
  have f: "failures_since es 0 < 2 ^ 32 - 1" using failures_since_le [of es 0] assms(3) by linarith
  have pos: "(0 < (word_of_nat (failures_since es 0) :: 32 word)) \<longleftrightarrow> 0 < failures_since es 0"
    using f by (simp add: word_less_nat_alt unat_of_nat)
  have inc: "saturating_inc (word_of_nat (failures_since es 0)) = word_of_nat (Suc (failures_since es 0))"
    by (rule saturating_inc_nat [OF f])
  from assms(2) show ?thesis
  proof cases
    case connect_ok
    show ?thesis
    proof (cases "es = []")
      case True
      with assms(1) connect_ok pos show ?thesis by (simp add: feed_inv_def snoc connections_def connected_first_def)
    next
      case False
      with assms(1) connect_ok have "0 < failures_since es 0" by (simp add: feed_inv_def)
      with False assms(1) connect_ok pos show ?thesis
        by (auto simp: feed_inv_def snoc Suc_diff_le ac_simps)
    qed
  next
    case (connect_err nanos)
    with assms(1) inc show ?thesis by (auto simp: feed_inv_def snoc back_off_def)
  next
    case (read_err nanos)
    with assms(1) inc show ?thesis by (auto simp: feed_inv_def snoc back_off_def)
  qed (use assms(1) in \<open>auto simp: feed_inv_def snoc ac_simps\<close>)
qed

lemma feed_run_inv:
  "feed_run config on_message cb es s \<Longrightarrow> length es < 2 ^ 32 \<Longrightarrow> feed_inv config on_message cb es s"
proof (induction rule: feed_run.induct)
  case start
  show ?case by (simp add: feed_inv_def feed_start_def connections_def connected_first_def)
next
  case (step es s e s')
  then show ?case by (intro feed_inv_step [of config on_message cb es s]) auto
qed

lemma texts_le: "length (texts es) \<le> length es"
  by (induction es rule: texts.induct) auto

section \<open>Properties of the loop\<close>

text \<open>C26. The counters and delays of a feed thread mean what they should, over every history of connections,
  reads, errors and sleeps (shorter than the 32 bit attempt counter): the attempt counter is the number of
  failures since the last connection; the message counter is the number of texts read, each of which
  went to the callback once and in order; a sleep lasts the backoff delay for the number of failures
  before the last one; and the reconnection counter is the number of successful connections, less one
  only if the very first attempt succeeded (so a first connection that needed retries is counted as a
  reconnection).\<close>

theorem feed_counters_exact:
  assumes "feed_run config on_message cb es s" "length es < 2 ^ 32"
  shows "unat (ft_attempt s) = failures_since es 0 \<and>
    unat (ft_msg_count s) = length (texts es) \<and>
    ft_callback s = fold (\<lambda>b c. snd (on_message b c)) (texts es) cb \<and>
    unat (ft_reconnects s) = connections es - (if connected_first es then 1 else 0) \<and>
    (\<forall>d. ft_pc s = Sleeping d \<longrightarrow> 0 < failures_since es 0 \<and>
      (\<exists>nanos. d = backoff_delay nanos (fc_backoff config) (word_of_nat (failures_since es 0 - 1))))"
proof -
  have i: "feed_inv config on_message cb es s" using assms by (rule feed_run_inv)
  have "connections es \<le> length es" by (simp add: connections_def)
  then have small: "failures_since es 0 < 2 ^ 32" "length (texts es) < 2 ^ 64"
      "connections es - (if connected_first es then 1 else 0) < 2 ^ 64"
    using failures_since_le [of es 0] texts_le [of es] assms(2) by auto
  have "unat (word_of_nat (failures_since es 0) :: 32 word) = failures_since es 0"
    "unat (word_of_nat (length (texts es)) :: u64) = length (texts es)"
    using small(1,2) by (simp_all add: unat_of_nat)
  moreover have "unat (word_of_nat (connections es - (if connected_first es then 1 else 0)) :: u64) =
      connections es - (if connected_first es then 1 else 0)"
    using small(3) by (simp add: unat_of_nat del: of_nat_diff)
  ultimately show ?thesis using i unfolding feed_inv_def by presburger
qed

section \<open>Witnesses\<close>

definition sample_feed :: FeedConfig where
  "sample_feed = \<lparr> fc_name = ''binance-reference'', fc_core_id = None, fc_backoff = backoff_default \<rparr>"

lemma sample_feed_run:
  "\<exists>s. feed_run sample_feed (\<lambda>b n. (True, Suc n)) (0 :: nat) [ConnectErr, Slept, ConnectOk, ReadText [1], ReadErr] s"
proof -
  let ?f = "\<lambda>(b :: bytes) n. (True, Suc n)"
  let ?s1 = "back_off sample_feed 0 (feed_start (0 :: nat))"
  let ?s2 = "?s1\<lparr> ft_pc := Connecting \<rparr>"
  let ?s3 = "?s2\<lparr> ft_pc := Reading, ft_reconnects := (if ft_attempt ?s2 > 0 then ft_reconnects ?s2 + 1 else ft_reconnects ?s2),
      ft_attempt := 0 \<rparr>"
  let ?s4 = "?s3\<lparr> ft_pc := (if True then Reading else Returned), ft_msg_count := ft_msg_count ?s3 + 1, ft_callback := 1 \<rparr>"
  have "feed_run sample_feed ?f 0 ([] @ [ConnectErr]) ?s1"
    by (rule feed_run.step [OF feed_run.start]) (rule feed_step.connect_err, simp add: feed_start_def)
  then have "feed_run sample_feed ?f 0 (([] @ [ConnectErr]) @ [Slept]) ?s2"
    by (rule feed_run.step) (rule feed_step.slept, simp add: back_off_def)
  then have "feed_run sample_feed ?f 0 ((([] @ [ConnectErr]) @ [Slept]) @ [ConnectOk]) ?s3"
    by (rule feed_run.step) (rule feed_step.connect_ok, simp)
  then have "feed_run sample_feed ?f 0 (((([] @ [ConnectErr]) @ [Slept]) @ [ConnectOk]) @ [ReadText [1]]) ?s4"
    by (rule feed_run.step) (rule feed_step.read_text, simp_all add: back_off_def feed_start_def)
  then have "feed_run sample_feed ?f 0 ((((([] @ [ConnectErr]) @ [Slept]) @ [ConnectOk]) @ [ReadText [1]]) @ [ReadErr])
      (back_off sample_feed 0 ?s4)"
    by (rule feed_run.step) (rule feed_step.read_err, simp)
  then show ?thesis by auto
qed

theorem feed_counters_exact_witness:
  "\<exists>s. feed_run sample_feed (\<lambda>b n. (True, Suc n)) (0 :: nat) [ConnectErr, Slept, ConnectOk, ReadText [1], ReadErr] s \<and>
    unat (ft_attempt s) = 1 \<and> unat (ft_msg_count s) = 1 \<and> unat (ft_reconnects s) = 1 \<and> ft_callback s = 1"
proof -
  obtain s where s: "feed_run sample_feed (\<lambda>b n. (True, Suc n)) 0 [ConnectErr, Slept, ConnectOk, ReadText [1], ReadErr] s"
    using sample_feed_run by blast
  from feed_counters_exact [OF s] s show ?thesis
    by (intro exI [of _ s]) (simp add: connections_def connected_first_def)
qed

end
