(* ===== verification/Timer_Thread.thy ===== *)
theory Timer_Thread
  imports Decoder_Core Feed_Loop
begin

text \<open>
  The timer thread (\<open>crates/transport/src/timer.rs\<close>): validation of its configuration and the metronome
  loop. A duration is its number of nanoseconds; what the loop observes of the outside in one round
  (whether the sleep was interrupted, the shutdown flag, two readings of the clock) is a record, and a
  run is a list of rounds. The theorem gives the emitted events in closed form.
\<close>

section \<open>Configuration\<close>

record TimerConfig =
  tc_tick_interval :: Duration
  tc_heartbeat_interval :: Duration
  tc_source_id :: SourceId

datatype TimerConfigError = ZeroTickInterval | HeartbeatShorterThanTick | HeartbeatNotDivisible | HeartbeatTooLarge

definition timer_validate :: "TimerConfig \<Rightarrow> TimerConfigError + u64" where
  "timer_validate config =
     (if tc_tick_interval config = 0 then Inl ZeroTickInterval
      else
        let tick_ns = tc_tick_interval config; hb_ns = tc_heartbeat_interval config in
        if hb_ns < tick_ns then Inl HeartbeatShorterThanTick
        else if hb_ns mod tick_ns \<noteq> 0 then Inl HeartbeatNotDivisible
        else
          let ratio = hb_ns div tick_ns in
          if ratio > 2 ^ 64 - 1 then Inl HeartbeatTooLarge
          else Inr (word_of_nat ratio))"

section \<open>The loop\<close>

record timer_round =
  tr_interrupted :: bool
  tr_shutdown :: bool
  tr_now :: Timestamp
  tr_now_heartbeat :: Timestamp

record TimerState =
  ts_tick_counter :: u64
  ts_heartbeat_counter :: "32 word"
  ts_seq :: u64

definition timer_start :: TimerState where
  "timer_start = \<lparr> ts_tick_counter = 0, ts_heartbeat_counter = 0, ts_seq = 0 \<rparr>"

text \<open>One round of the loop body past the shutdown tests: the events it pushes and the new state.\<close>

definition timer_tick :: "bool \<Rightarrow> TimerConfig \<Rightarrow> u64 \<Rightarrow> timer_round \<Rightarrow> TimerState \<Rightarrow> (HotEvent list \<times> TimerState) panics" where
  "timer_tick oc config heartbeat_every r st =
     do {
       tick_counter \<leftarrow> inc_u64 oc (ts_tick_counter st);
       seq \<leftarrow> inc_u64 oc (ts_seq st);
       let timer_payload = \<lparr> tm_timer_id = 0, tm_kind = Periodic \<rparr>;
       let timer = event_timer (tr_now r) seq InstrumentId_NONE (tc_source_id config) flags_EMPTY timer_payload;
       (if tick_counter mod heartbeat_every = 0
        then do {
          let heartbeat_counter = ts_heartbeat_counter st + 1;
          seq \<leftarrow> inc_u64 oc seq;
          Some ([timer, event_heartbeat (tr_now_heartbeat r) seq (tc_source_id config) flags_EMPTY
                   \<lparr> hb_counter = heartbeat_counter \<rparr>],
                \<lparr> ts_tick_counter = tick_counter, ts_heartbeat_counter = heartbeat_counter, ts_seq = seq \<rparr>)
        }
        else Some ([timer], st\<lparr> ts_tick_counter := tick_counter, ts_seq := seq \<rparr>))
     }"

text \<open>The loop over the rounds: the events pushed, and whether the thread has returned.\<close>

fun timer_loop :: "bool \<Rightarrow> TimerConfig \<Rightarrow> u64 \<Rightarrow> timer_round list \<Rightarrow> TimerState \<Rightarrow> (HotEvent list \<times> bool) panics" where
  "timer_loop oc config heartbeat_every [] st = Some ([], False)"
| "timer_loop oc config heartbeat_every (r # rs) st =
     (if tr_interrupted r then Some ([], True)
      else if tr_shutdown r then Some ([], True)
      else do {
        (es, st) \<leftarrow> timer_tick oc config heartbeat_every r st;
        (fs, returned) \<leftarrow> timer_loop oc config heartbeat_every rs st;
        Some (es @ fs, returned)
      })"

section \<open>The schedule\<close>

text \<open>Tick \<open>i\<close>, counted from one, with a heartbeat every \<open>k\<close> ticks: the tick is event number
  \<open>i + (i - 1) div k\<close>, and its heartbeat, when it has one, is the next event and the \<open>i div k\<close>-th heartbeat.\<close>

definition tick_events :: "TimerConfig \<Rightarrow> nat \<Rightarrow> timer_round \<Rightarrow> nat \<Rightarrow> HotEvent list" where
  "tick_events config k r i =
     event_timer (tr_now r) (word_of_nat (i + (i - 1) div k)) InstrumentId_NONE (tc_source_id config) flags_EMPTY
       \<lparr> tm_timer_id = 0, tm_kind = Periodic \<rparr> #
     (if k dvd i then [event_heartbeat (tr_now_heartbeat r) (word_of_nat (i + i div k)) (tc_source_id config) flags_EMPTY
       \<lparr> hb_counter = word_of_nat (i div k) \<rparr>] else [])"

fun schedule :: "TimerConfig \<Rightarrow> nat \<Rightarrow> nat \<Rightarrow> timer_round list \<Rightarrow> HotEvent list" where
  "schedule config k i [] = []"
| "schedule config k i (r # rs) = tick_events config k r (Suc i) @ schedule config k (Suc i) rs"

definition runs_on :: "timer_round \<Rightarrow> bool" where
  "runs_on r \<longleftrightarrow> \<not> tr_interrupted r \<and> \<not> tr_shutdown r"

definition timer_state_at :: "nat \<Rightarrow> nat \<Rightarrow> TimerState" where
  "timer_state_at k i = \<lparr> ts_tick_counter = word_of_nat i, ts_heartbeat_counter = word_of_nat (i div k),
     ts_seq = word_of_nat (i + i div k) \<rparr>"

lemma unat_word_of_nat: "n < 2 ^ 64 - 1 \<Longrightarrow> unat (word_of_nat n :: u64) = n"
  by (simp add: unat_of_nat)

lemma inc_word_of_nat: "n < 2 ^ 64 - 1 \<Longrightarrow> inc_u64 oc (word_of_nat n) = Some (word_of_nat (Suc n))"
  by (subst inc_u64_small) (simp_all only: unat_word_of_nat of_nat_Suc add.commute less_imp_diff_less)

lemma word_mod_eq_0:
  assumes "a < 2 ^ 64" "b < 2 ^ 64"
  shows "(word_of_nat a :: u64) mod word_of_nat b = 0 \<longleftrightarrow> b dvd a"
proof -
  have "(word_of_nat a :: u64) mod word_of_nat b = 0 \<longleftrightarrow> unat ((word_of_nat a :: u64) mod word_of_nat b) = 0" by (rule unat_eq_zero [symmetric])
  also have "\<dots> \<longleftrightarrow> a mod b = 0" using assms by (simp add: unat_mod_distrib unat_of_nat)
  finally show ?thesis by (simp add: dvd_eq_mod_eq_0)
qed

lemma Suc_div_step: "0 < k \<Longrightarrow> Suc i div k = (if k dvd Suc i then Suc (i div k) else i div k)"
  by (simp add: div_Suc dvd_eq_mod_eq_0)

lemma timer_tick_at:
  assumes "0 < k" "k < 2 ^ 64" "Suc i + Suc i div k < 2 ^ 64"
  shows "timer_tick oc config (word_of_nat k) r (timer_state_at k i) =
    Some (tick_events config k r (Suc i), timer_state_at k (Suc i))"
proof -
  have i: "i < 2 ^ 64 - 1" "i + i div k < 2 ^ 64 - 1"
    using assms(3) div_le_mono [of i "Suc i" k] by linarith+
  have m: "(word_of_nat (Suc i) :: u64) mod word_of_nat k = 0 \<longleftrightarrow> k dvd Suc i"
    using i(1) assms(2) by (intro word_mod_eq_0) simp_all
  show ?thesis
  proof (cases "k dvd Suc i")
    case True
    then have "Suc i div k = Suc (i div k)" using assms(1) by (simp add: Suc_div_step)
    moreover have "Suc (i + i div k) < 2 ^ 64 - 1" using assms(3) calculation by linarith
    ultimately show ?thesis
      using True m i by (simp add: timer_tick_def timer_state_at_def tick_events_def inc_word_of_nat
          del: of_nat_Suc of_nat_add) (simp add: ac_simps Let_def)
  next
    case False
    then show ?thesis
      using m i assms(1)
      by (simp add: timer_tick_def timer_state_at_def tick_events_def inc_word_of_nat Suc_div_step del: of_nat_Suc of_nat_add)
  qed
qed

lemma timer_loop_schedule:
  assumes "0 < k" "k < 2 ^ 64" "i + length rs + (i + length rs) div k < 2 ^ 64" "list_all runs_on rs"
  shows "timer_loop oc config (word_of_nat k) (rs @ rest) (timer_state_at k i) =
    map_option (\<lambda>(es, b). (schedule config k i rs @ es, b))
      (timer_loop oc config (word_of_nat k) rest (timer_state_at k (i + length rs)))"
  using assms(3,4)
proof (induction rs arbitrary: i)
  case Nil
  then show ?case by (simp add: option.map_ident split_def)
next
  case (Cons r rs)
  have "Suc i + Suc i div k < 2 ^ 64"
    using Cons.prems(1) div_le_mono [of "Suc i" "i + length (r # rs)" k] by simp
  from timer_tick_at [OF assms(1,2) this] Cons show ?case
    by (auto simp: runs_on_def option.map_comp split_def comp_def intro!: option.map_cong split: bind_splits)
qed

lemma event_seqs_tick:
  assumes "0 < k"
  shows "event_seqs (tick_events config k r (Suc i)) =
    next_seqs (word_of_nat (i + i div k)) (1 + (Suc i div k - i div k))"
  using assms by (simp add: tick_events_def event_timer_def event_heartbeat_def event_header_def Suc_div_step ac_simps)

lemma event_seqs_schedule:
  assumes "0 < k"
  shows "event_seqs (schedule config k i rs) =
    next_seqs (word_of_nat (i + i div k)) (length rs + ((i + length rs) div k - i div k))"
proof (induction rs arbitrary: i)
  case (Cons r rs)
  let ?a = "1 + (Suc i div k - i div k)" and ?b = "length rs + ((Suc i + length rs) div k - Suc i div k)"
  have le: "i div k \<le> Suc i div k" "Suc i div k \<le> (Suc i + length rs) div k"
    "i div k \<le> Suc (i + length rs) div k" by (simp_all add: div_le_mono)
  then have n: "length (r # rs) + ((i + length (r # rs)) div k - i div k) = ?a + ?b" by simp
  have s: "word_of_nat (i + i div k) + word_of_nat ?a = (word_of_nat (Suc i + Suc i div k) :: u64)"
    using le(1) by simp
  show ?case
    unfolding n next_seqs_add [of _ ?a ?b] s
    by (simp only: schedule.simps event_seqs_simps event_seqs_tick [OF assms] Cons.IH)
qed simp

text \<open>\<open>validate\<close> accepts exactly the configurations with a heartbeat every \<open>k\<close> ticks, \<open>k\<close> a positive
  64 bit number.\<close>

lemma timer_validate_iff:
  "timer_validate config = Inr every \<longleftrightarrow>
     0 < tc_tick_interval config \<and> 0 < unat every \<and> tc_heartbeat_interval config = unat every * tc_tick_interval config"
proof -
  define h where "h = tc_heartbeat_interval config"
  define t where "t = tc_tick_interval config"
  have every: "unat every < 2 ^ 64" using unsigned_less [of every] by simp
  have "timer_validate config = Inr every \<longleftrightarrow> 0 < t \<and> t \<le> h \<and> t dvd h \<and> h div t < 2 ^ 64 \<and> word_of_nat (h div t) = every"
    by (auto simp: timer_validate_def Let_def mod_eq_0_iff_dvd simp flip: h_def t_def)
  also have "\<dots> \<longleftrightarrow> 0 < t \<and> t \<le> h \<and> t dvd h \<and> h div t = unat every"
    using every by (auto simp: unat_of_nat)
  also have "\<dots> \<longleftrightarrow> 0 < t \<and> 0 < unat every \<and> h = unat every * t"
    by (auto elim!: dvdE simp: mult.commute)
  finally show ?thesis by (simp add: h_def t_def)
qed

section \<open>Properties\<close>

text \<open>C27. The timer thread keeps its schedule. With a configuration that \<open>validate\<close> accepts, the heartbeat
  interval is \<open>k\<close> tick intervals for the ratio \<open>k\<close> it returns. After \<open>n\<close> rounds without a stop the thread has
  pushed, without a panic, one periodic timer event per round and a heartbeat after every \<open>k\<close>-th,
  numbered by \<open>1, 2, ...\<close> without a gap, the heartbeats carrying their own count (schedule gives each in
  closed form); and at the first round that sees a shutdown it returns with nothing more pushed.\<close>

theorem timer_keeps_schedule:
  assumes "timer_validate config = Inr every" "list_all runs_on rs" "\<not> runs_on r"
    and "length rs + length rs div unat every < 2 ^ 64"
  shows "tc_heartbeat_interval config = unat every * tc_tick_interval config \<and>
    timer_loop oc config every rs timer_start = Some (schedule config (unat every) 0 rs, False) \<and>
    timer_loop oc config every (rs @ r # rest) timer_start = Some (schedule config (unat every) 0 rs, True) \<and>
    event_seqs (schedule config (unat every) 0 rs) = next_seqs 0 (length rs + length rs div unat every)"
proof -
  have k: "0 < unat every" "unat every < 2 ^ 64" and hb: "tc_heartbeat_interval config = unat every * tc_tick_interval config"
    using assms(1) unsigned_less [of every] by (simp_all add: timer_validate_iff)
  have start: "timer_start = timer_state_at (unat every) 0" by (simp add: timer_start_def timer_state_at_def)
  have run: "timer_loop oc config every (rs @ xs) timer_start = map_option
      (\<lambda>(es, b). (schedule config (unat every) 0 rs @ es, b)) (timer_loop oc config every xs (timer_state_at (unat every) (length rs)))" for xs
    using timer_loop_schedule [OF k, of 0 rs oc config xs] assms(2,4) by (simp add: start)
  show ?thesis
    using run [of "[]"] run [of "r # rest"] hb assms(3) event_seqs_schedule [OF k(1), of config 0 rs] by (auto simp: runs_on_def)
qed

text \<open>What \<open>validate\<close> answers to every other configuration.\<close>

theorem timer_validate_errors:
  "case timer_validate config of
     Inr every \<Rightarrow> 0 < tc_tick_interval config
   | Inl ZeroTickInterval \<Rightarrow> tc_tick_interval config = 0
   | Inl HeartbeatShorterThanTick \<Rightarrow> tc_heartbeat_interval config < tc_tick_interval config
   | Inl HeartbeatNotDivisible \<Rightarrow> \<not> tc_tick_interval config dvd tc_heartbeat_interval config
   | Inl HeartbeatTooLarge \<Rightarrow> tc_tick_interval config * 2 ^ 64 \<le> tc_heartbeat_interval config"
proof -
  have "2 ^ 64 - 1 < h div t \<Longrightarrow> 0 < t \<Longrightarrow> t * 2 ^ 64 \<le> h" for h t :: nat
    using less_eq_div_iff_mult_less_eq [of t "2 ^ 64" h] by (simp add: mult.commute)
  then show ?thesis by (auto simp: timer_validate_def Let_def mod_eq_0_iff_dvd)
qed

section \<open>Witness\<close>

definition sample_timer :: TimerConfig where
  "sample_timer = \<lparr> tc_tick_interval = 1000, tc_heartbeat_interval = 2000, tc_source_id = 9 \<rparr>"

definition sample_round :: timer_round where
  "sample_round = \<lparr> tr_interrupted = False, tr_shutdown = False, tr_now = 5, tr_now_heartbeat = 6 \<rparr>"

theorem timer_keeps_schedule_witness:
  "timer_validate sample_timer = Inr 2 \<and>
   timer_loop True sample_timer 2 [sample_round, sample_round, sample_round, sample_round\<lparr> tr_shutdown := True \<rparr>, sample_round]
     timer_start = Some (schedule sample_timer 2 0 [sample_round, sample_round, sample_round], True) \<and>
   event_seqs (schedule sample_timer 2 0 [sample_round, sample_round, sample_round]) = [1, 2, 3, 4]"
proof -
  have v: "timer_validate sample_timer = Inr 2" by (simp add: timer_validate_def sample_timer_def)
  let ?rs = "[sample_round, sample_round, sample_round]"
  have "length ?rs + length ?rs div unat (2 :: u64) = Suc (Suc (Suc (Suc 0)))" by simp
  then have seqs: "next_seqs 0 (length ?rs + length ?rs div unat (2 :: u64)) = [1, 2, 3, 4]"
    by (simp only: next_seqs.simps) simp
  have "list_all runs_on ?rs" "\<not> runs_on (sample_round\<lparr> tr_shutdown := True \<rparr>)" "length ?rs + length ?rs div unat (2 :: u64) < 2 ^ 64"
    by (simp_all add: runs_on_def sample_round_def)
  from timer_keeps_schedule [OF v this, of True "[sample_round]"] show ?thesis
    unfolding seqs by (simp add: v)
qed

end
