(* ===== verification/Web_Socket.thy ===== *)
theory Web_Socket
  imports Feed_Loop
begin

text \<open>
  The managed WebSocket connection (\<open>crates/transport/src/ws.rs\<close>) and the feed configurations built on it
  (\<open>crates/transport/src/binance/reference.rs\<close>, \<open>crates/transport/src/polymarket/market.rs\<close>). The socket
  itself is a third-party crate: its operations are an argument, and nothing is assumed of them. Every send
  may fail and every read may return anything: the theorem describes the dialogue with the socket, heartbeats
  and failed sends included, and what the feed makes of it.
\<close>

section \<open>Configuration\<close>

record WsConfig =
  wc_url :: string
  wc_subscribe_msg :: "string option"
  wc_ping_interval :: "Duration option"
  wc_read_timeout :: "Duration option"

definition ws_polymarket :: "string \<Rightarrow> WsConfig" where
  "ws_polymarket url = \<lparr> wc_url = url, wc_subscribe_msg = None, wc_ping_interval = Some (from_secs 10),
     wc_read_timeout = Some (from_secs 15) \<rparr>"

definition ws_binance :: "string \<Rightarrow> WsConfig" where
  "ws_binance url = \<lparr> wc_url = url, wc_subscribe_msg = None, wc_ping_interval = None,
     wc_read_timeout = Some (from_secs 35) \<rparr>"

definition WS_BASE :: string where
  "WS_BASE = ''wss://fstream.binance.com''"

fun join_slash :: "string list \<Rightarrow> string" where
  "join_slash [] = ''''"
| "join_slash [s] = s"
| "join_slash (s # ss) = s @ ''/'' @ join_slash ss"

definition book_ticker_url :: "string list \<Rightarrow> string" where
  "book_ticker_url symbols =
     (let streams = map (\<lambda>s. s @ ''@bookTicker'') symbols in
      if length streams = 1 then WS_BASE @ ''/ws/'' @ streams ! 0
      else WS_BASE @ ''/stream?streams='' @ join_slash streams)"

record BinanceReferenceConfig =
  br_symbols :: "string list"
  br_core_id :: "nat option"
  br_backoff :: BackoffConfig

definition reference_default :: BinanceReferenceConfig where
  "reference_default = \<lparr> br_symbols = [''btcusdt''], br_core_id = None, br_backoff = backoff_default \<rparr>"

datatype SpawnError = InvalidInput

text \<open>What \<open>spawn_reference_feed\<close> hands to the feed thread.\<close>

definition reference_feed_config :: "BinanceReferenceConfig \<Rightarrow> SpawnError + WsConfig \<times> FeedConfig" where
  "reference_feed_config config =
     (if br_symbols config = [] then Inl InvalidInput
      else Inr (ws_binance (book_ticker_url (br_symbols config)),
        \<lparr> fc_name = ''binance-reference'', fc_core_id = br_core_id config, fc_backoff = br_backoff config \<rparr>))"

record PolymarketMarketConfig =
  pm_token_ids :: "string list"
  pm_core_id :: "nat option"
  pm_backoff :: BackoffConfig

definition WS_MARKET_URL :: string where
  "WS_MARKET_URL = ''wss://ws-subscriptions-clob.polymarket.com/ws/market''"

text \<open>The text of the subscription message comes from a JSON printer.\<close>

definition market_feed_config :: "(string list \<Rightarrow> string) \<Rightarrow> PolymarketMarketConfig \<Rightarrow> SpawnError + WsConfig \<times> FeedConfig" where
  "market_feed_config subscribe_msg config =
     (if pm_token_ids config = [] then Inl InvalidInput
      else Inr (\<lparr> wc_url = WS_MARKET_URL, wc_subscribe_msg = Some (subscribe_msg (pm_token_ids config)),
          wc_ping_interval = Some (from_secs 10), wc_read_timeout = Some (from_secs 15) \<rparr>,
        \<lparr> fc_name = ''polymarket-market'', fc_core_id = pm_core_id config, fc_backoff = pm_backoff config \<rparr>))"

section \<open>The socket\<close>

datatype ws_message = Text bytes | Binary bytes | Ping bytes | Pong bytes | Close | Frame

datatype ws_read_failure = TimedOut | OtherFailure string

datatype WsError = Connect string | Read string | Send string | Closed

text \<open>The socket crate: opening a socket, setting its options, sending and reading. An error is its text.\<close>

record 'w WsIo =
  io_request :: "string \<Rightarrow> string option"
  io_connect :: "string \<Rightarrow> string + 'w"
  io_has_tcp :: "'w \<Rightarrow> bool"
  io_set_read_timeout :: "Duration option \<Rightarrow> 'w \<Rightarrow> string option \<times> 'w"
  io_set_nodelay :: "'w \<Rightarrow> string option \<times> 'w"
  io_send :: "ws_message \<Rightarrow> 'w \<Rightarrow> string option \<times> 'w"
  io_read :: "'w \<Rightarrow> (ws_read_failure + ws_message) \<times> 'w"

record 'w WsConnection =
  ws_socket :: 'w
  ws_config :: WsConfig
  ws_last_ping :: nat

definition text_bytes :: "string \<Rightarrow> bytes" where
  "text_bytes s = map (\<lambda>c. word_of_nat (of_char c)) s"

definition ws_tune :: "'w WsIo \<Rightarrow> WsConfig \<Rightarrow> 'w \<Rightarrow> WsError + 'w" where
  "ws_tune io config ws =
     (if io_has_tcp io ws
      then (case io_set_read_timeout io (wc_read_timeout config) ws of
          (Some e, ws) \<Rightarrow> Inl (Connect (''set_read_timeout: '' @ e))
        | (None, ws) \<Rightarrow> (case io_set_nodelay io ws of
            (Some e, ws) \<Rightarrow> Inl (Connect (''set_nodelay: '' @ e))
          | (None, ws) \<Rightarrow> Inr ws))
      else Inr ws)"

definition ws_connect :: "'w WsIo \<Rightarrow> nat \<Rightarrow> WsConfig \<Rightarrow> WsError + 'w WsConnection" where
  "ws_connect io now config =
     (case io_request io (wc_url config) of
        Some e \<Rightarrow> Inl (Connect (''invalid URL: '' @ e))
      | None \<Rightarrow> (case io_connect io (wc_url config) of
          Inl e \<Rightarrow> Inl (Connect e)
        | Inr ws \<Rightarrow> (case ws_tune io config ws of
            Inl e \<Rightarrow> Inl e
          | Inr ws \<Rightarrow>
              (let conn = \<lparr> ws_socket = ws, ws_config = config, ws_last_ping = now \<rparr> in
               case wc_subscribe_msg config of
                 None \<Rightarrow> Inr conn
               | Some sub \<Rightarrow> (case io_send io (Text (text_bytes sub)) (ws_socket conn) of
                   (Some e, ws) \<Rightarrow> Inl (Send (''subscribe: '' @ e))
                 | (None, ws) \<Rightarrow> Inr (conn\<lparr> ws_socket := ws \<rparr>))))))"

text \<open>Each test of the heartbeat reads the clock, and a ping that was sent reads it again.\<close>

definition send_ping :: "'w WsIo \<Rightarrow> nat \<Rightarrow> 'w WsConnection \<Rightarrow> (WsError + unit) \<times> 'w WsConnection" where
  "send_ping io now self =
     (case io_send io (Text (text_bytes ''PING'')) (ws_socket self) of
        (Some e, ws) \<Rightarrow> (Inl (Send (''ping: '' @ e)), self\<lparr> ws_socket := ws \<rparr>)
      | (None, ws) \<Rightarrow> (Inr (), self\<lparr> ws_socket := ws, ws_last_ping := now \<rparr>))"

definition maybe_send_ping :: "'w WsIo \<Rightarrow> nat \<times> nat \<Rightarrow> 'w WsConnection \<Rightarrow> (WsError + unit) \<times> 'w WsConnection" where
  "maybe_send_ping io clock self =
     (case wc_ping_interval (ws_config self) of
        None \<Rightarrow> (Inr (), self)
      | Some interval \<Rightarrow>
          (if fst clock - ws_last_ping self \<ge> interval then send_ping io (snd clock) self else (Inr (), self)))"

definition read_bytes :: "'w WsIo \<Rightarrow> nat \<times> nat \<Rightarrow> nat \<times> nat \<Rightarrow> bytes \<Rightarrow> 'w WsConnection \<Rightarrow>
    (WsError + nat) \<times> bytes \<times> 'w WsConnection" where
  "read_bytes io clock clock' buf self =
     (case maybe_send_ping io clock self of
        (Inl e, self) \<Rightarrow> (Inl e, buf, self)
      | (Inr _, self) \<Rightarrow> (case io_read io (ws_socket self) of (r, ws) \<Rightarrow>
          (let self = self\<lparr> ws_socket := ws \<rparr> in
           case r of
             Inr (Text txt) \<Rightarrow>
               (if txt = text_bytes ''PONG'' then (Inr 0, buf, self) else (Inr (length txt), txt, self))
           | Inr (Ping data) \<Rightarrow> (case io_send io (Pong data) (ws_socket self) of
                 (Some e, ws) \<Rightarrow> (Inl (Send (''pong: '' @ e)), buf, self\<lparr> ws_socket := ws \<rparr>)
               | (None, ws) \<Rightarrow> (Inr 0, buf, self\<lparr> ws_socket := ws \<rparr>))
           | Inr (Pong _) \<Rightarrow> (Inr 0, buf, self)
           | Inr (Binary _) \<Rightarrow> (Inr 0, buf, self)
           | Inr Frame \<Rightarrow> (Inr 0, buf, self)
           | Inr Close \<Rightarrow> (Inl Closed, buf, self)
           | Inl TimedOut \<Rightarrow> (case maybe_send_ping io clock' self of
                 (Inl e, self) \<Rightarrow> (Inl e, buf, self)
               | (Inr _, self) \<Rightarrow> (Inr 0, buf, self))
           | Inl (OtherFailure e) \<Rightarrow> (Inl (Read e), buf, self))))"

section \<open>Reading in the feed loop\<close>

text \<open>What the feed loop makes of one read.\<close>

definition read_event :: "WsError + nat \<Rightarrow> bytes \<Rightarrow> feed_event" where
  "read_event r buf = (case r of Inr n \<Rightarrow> if n = 0 then ReadIdle else ReadText buf | Inl _ \<Rightarrow> ReadErr)"

type_synonym clocks = "(nat \<times> nat) \<times> (nat \<times> nat)"

text \<open>The inner loop of \<open>feed_loop\<close>, which ends at the first error.\<close>

fun read_loop :: "'w WsIo \<Rightarrow> clocks list \<Rightarrow> bytes \<Rightarrow> 'w WsConnection \<Rightarrow> feed_event list \<times> 'w WsConnection" where
  "read_loop io [] buf conn = ([], conn)"
| "read_loop io ((c, c') # cs) buf conn =
     (case read_bytes io c c' buf conn of (r, buf, conn) \<Rightarrow>
      if read_event r buf = ReadErr then ([ReadErr], conn)
      else (case read_loop io cs buf conn of (es, conn) \<Rightarrow> (read_event r buf # es, conn)))"

section \<open>The dialogue with a socket\<close>

text \<open>What a connection does to its socket: messages sent, with the error of a failed send, and reads.\<close>

type_synonym incoming = "ws_read_failure + ws_message"

datatype ws_action = Sent ws_message "string option" | Received incoming

text \<open>Any socket, with a log of what was done to it beside its state.\<close>

definition observed :: "'w WsIo \<Rightarrow> ('w \<times> ws_action list) WsIo" where
  "observed io = \<lparr> io_request = io_request io,
     io_connect = (\<lambda>url. map_sum id (\<lambda>w. (w, [])) (io_connect io url)),
     io_has_tcp = (\<lambda>s. io_has_tcp io (fst s)),
     io_set_read_timeout = (\<lambda>d s. map_prod id (\<lambda>w. (w, snd s)) (io_set_read_timeout io d (fst s))),
     io_set_nodelay = (\<lambda>s. map_prod id (\<lambda>w. (w, snd s)) (io_set_nodelay io (fst s))),
     io_send = (\<lambda>m s. case io_send io m (fst s) of (e, w) \<Rightarrow> (e, w, snd s @ [Sent m e])),
     io_read = (\<lambda>s. case io_read io (fst s) of (r, w) \<Rightarrow> (r, w, snd s @ [Received r])) \<rparr>"

definition unobserved :: "('w \<times> ws_action list) WsConnection \<Rightarrow> 'w WsConnection" where
  "unobserved conn = \<lparr> ws_socket = fst (ws_socket conn), ws_config = ws_config conn, ws_last_ping = ws_last_ping conn \<rparr>"

abbreviation ws_log :: "('w \<times> ws_action list) WsConnection \<Rightarrow> ws_action list" where
  "ws_log conn \<equiv> snd (ws_socket conn)"

text \<open>The heartbeat test at a clock, with \<open>t\<close> the time of the last ping: a ping is sent exactly when the
  interval has passed, and its time is recorded unless the send failed.\<close>

definition ping_due :: "WsConfig \<Rightarrow> nat \<Rightarrow> nat \<Rightarrow> bool" where
  "ping_due config t now \<longleftrightarrow> (case wc_ping_interval config of None \<Rightarrow> False | Some i \<Rightarrow> i \<le> now - t)"

inductive heartbeat :: "WsConfig \<Rightarrow> nat \<times> nat \<Rightarrow> nat \<Rightarrow> ws_action list \<Rightarrow> string option \<Rightarrow> nat \<Rightarrow> bool"
  for config clock where
  quiet: "\<not> ping_due config t (fst clock) \<Longrightarrow> heartbeat config clock t [] None t"
| beat: "ping_due config t (fst clock) \<Longrightarrow> heartbeat config clock t [Sent (Text (text_bytes ''PING'')) None] None (snd clock)"
| missed: "ping_due config t (fst clock) \<Longrightarrow> heartbeat config clock t [Sent (Text (text_bytes ''PING'')) (Some e)] (Some e) t"

text \<open>One read: the actions on the socket, the error or the bytes handed over, and the time of the last ping
  afterwards.\<close>

inductive ws_turn :: "WsConfig \<Rightarrow> clocks \<Rightarrow> nat \<Rightarrow> ws_action list \<Rightarrow> WsError + bytes \<Rightarrow> nat \<Rightarrow> bool"
  for config clock where
  no_ping: "heartbeat config (fst clock) t hb (Some e) t' \<Longrightarrow> ws_turn config clock t hb (Inl (Send (''ping: '' @ e))) t'"
| handed_over: "heartbeat config (fst clock) t hb None t' \<Longrightarrow> b \<noteq> text_bytes ''PONG'' \<Longrightarrow>
    ws_turn config clock t (hb @ [Received (Inr (Text b))]) (Inr b) t'"
| ignored: "heartbeat config (fst clock) t hb None t' \<Longrightarrow>
    m = Text (text_bytes ''PONG'') \<or> m = Pong b \<or> m = Binary b \<or> m = Frame \<Longrightarrow>
    ws_turn config clock t (hb @ [Received (Inr m)]) (Inr []) t'"
| pong: "heartbeat config (fst clock) t hb None t' \<Longrightarrow>
    ws_turn config clock t (hb @ [Received (Inr (Ping d)), Sent (Pong d) None]) (Inr []) t'"
| no_pong: "heartbeat config (fst clock) t hb None t' \<Longrightarrow>
    ws_turn config clock t (hb @ [Received (Inr (Ping d)), Sent (Pong d) (Some e)]) (Inl (Send (''pong: '' @ e))) t'"
| close: "heartbeat config (fst clock) t hb None t' \<Longrightarrow>
    ws_turn config clock t (hb @ [Received (Inr Close)]) (Inl Closed) t'"
| failure: "heartbeat config (fst clock) t hb None t' \<Longrightarrow>
    ws_turn config clock t (hb @ [Received (Inl (OtherFailure e))]) (Inl (Read e)) t'"
| timeout: "heartbeat config (fst clock) t hb None t1 \<Longrightarrow> heartbeat config (snd clock) t1 hb' None t' \<Longrightarrow>
    ws_turn config clock t (hb @ Received (Inl TimedOut) # hb') (Inr []) t'"
| timeout_no_ping: "heartbeat config (fst clock) t hb None t1 \<Longrightarrow> heartbeat config (snd clock) t1 hb' (Some e) t' \<Longrightarrow>
    ws_turn config clock t (hb @ Received (Inl TimedOut) # hb') (Inl (Send (''ping: '' @ e))) t'"

text \<open>Reads until the clocks are used up or the first error, with the events of the feed loop.\<close>

inductive ws_session :: "WsConfig \<Rightarrow> nat \<Rightarrow> clocks list \<Rightarrow> ws_action list \<Rightarrow> feed_event list \<Rightarrow> nat \<Rightarrow> bool" for config where
  start: "ws_session config t [] [] [] t"
| ended: "ws_turn config c t acts (Inl e) t' \<Longrightarrow> ws_session config t (c # cs) acts [ReadErr] t'"
| next_read: "ws_turn config c t acts (Inr b) t1 \<Longrightarrow> ws_session config t1 cs acts' es t' \<Longrightarrow>
    ws_session config t (c # cs) (acts @ acts') ((if b = [] then ReadIdle else ReadText b) # es) t'"

text \<open>Which texts of a dialogue are for the feed, the data of its pings and of the pongs sent, and the actions
  after which a connection is given up.\<close>

fun feed_text :: "ws_action \<Rightarrow> bytes option" where
  "feed_text (Received (Inr (Text b))) = (if b = [] \<or> b = text_bytes ''PONG'' then None else Some b)"
| "feed_text _ = None"

fun ping_data :: "ws_action \<Rightarrow> bytes option" where
  "ping_data (Received (Inr (Ping d))) = Some d"
| "ping_data _ = None"

fun pong_data :: "ws_action \<Rightarrow> bytes option" where
  "pong_data (Sent (Pong d) res) = Some d"
| "pong_data _ = None"

fun fatal :: "ws_action \<Rightarrow> bool" where
  "fatal (Sent m res) \<longleftrightarrow> res \<noteq> None"
| "fatal (Received (Inl (OtherFailure e))) \<longleftrightarrow> True"
| "fatal (Received (Inr Close)) \<longleftrightarrow> True"
| "fatal _ \<longleftrightarrow> False"

section \<open>Every read follows the dialogue\<close>

lemma observed_simps [simp]:
  "io_send (observed io) m s = (case io_send io m (fst s) of (e, w) \<Rightarrow> (e, w, snd s @ [Sent m e]))"
  "io_read (observed io) s = (case io_read io (fst s) of (r, w) \<Rightarrow> (r, w, snd s @ [Received r]))"
  by (simp_all add: observed_def)

text \<open>The log changes nothing.\<close>

lemma maybe_send_ping_unobserved:
  "maybe_send_ping io c (unobserved conn) = map_prod id unobserved (maybe_send_ping (observed io) c conn)"
  by (simp add: maybe_send_ping_def send_ping_def unobserved_def split: option.split prod.split)

lemma read_bytes_unobserved:
  "read_bytes io c c' buf (unobserved conn) = map_prod id (map_prod id unobserved) (read_bytes (observed io) c c' buf conn)"
proof -
  have socket: "unobserved conn\<lparr> ws_socket := w \<rparr> = unobserved (conn\<lparr> ws_socket := (w, l) \<rparr>)" for conn :: "('a \<times> ws_action list) WsConnection" and w l
    by (simp add: unobserved_def)
  obtain r1 conn1 where 1: "maybe_send_ping (observed io) c conn = (r1, conn1)" by (cases "maybe_send_ping (observed io) c conn")
  obtain r w where 2: "io_read io (fst (ws_socket conn1)) = (r, w)" by (cases "io_read io (fst (ws_socket conn1))")
  let ?conn2 = "conn1\<lparr> ws_socket := (w, ws_log conn1 @ [Received r]) \<rparr>"
  obtain r3 conn3 where 3: "maybe_send_ping (observed io) c' ?conn2 = (r3, conn3)" by (cases "maybe_send_ping (observed io) c' ?conn2")
  have rd: "io_read io (ws_socket (unobserved conn1)) = (r, w)" using 2 by (simp add: unobserved_def)
  have hb2: "maybe_send_ping io c' (unobserved ?conn2) = (r3, unobserved conn3)" by (simp add: maybe_send_ping_unobserved 3)
  have first: "maybe_send_ping io c (unobserved conn) = (r1, unobserved conn1)" by (simp add: maybe_send_ping_unobserved 1)
  note defs = read_bytes_def first 1 2 rd Let_def socket [where l = "ws_log conn1 @ [Received r]"]
  show ?thesis
  proof (cases r1)
    case Inl
    then show ?thesis by (simp add: defs)
  next
    case ok: (Inr u)
    show ?thesis
    proof (cases r)
      case (Inl f)
      then show ?thesis using ok 3 hb2 by (cases f) (simp_all add: defs split: sum.split)
    next
      case (Inr m)
      then show ?thesis using ok
        by (cases m) (simp_all add: defs split: option.split prod.split, simp_all add: unobserved_def)
    qed
  qed
qed

lemma maybe_send_ping_heartbeat:
  assumes "maybe_send_ping (observed io) c conn = (r, conn')"
  shows "\<exists>hb e. heartbeat (ws_config conn) c (ws_last_ping conn) hb e (ws_last_ping conn') \<and>
    r = (case e of None \<Rightarrow> Inr () | Some e \<Rightarrow> Inl (Send (''ping: '' @ e))) \<and>
    ws_log conn' = ws_log conn @ hb \<and> ws_config conn' = ws_config conn"
proof (cases "ping_due (ws_config conn) (ws_last_ping conn) (fst c)")
  case True
  obtain e w where e: "io_send io (Text (text_bytes ''PING'')) (fst (ws_socket conn)) = (e, w)" by fastforce
  have "maybe_send_ping (observed io) c conn = send_ping (observed io) (snd c) conn"
    using True by (auto simp: maybe_send_ping_def ping_due_def split: option.splits)
  with assms e heartbeat.beat [OF True] heartbeat.missed [OF True] show ?thesis
    by (intro exI [of _ "[Sent (Text (text_bytes ''PING'')) e]"] exI [of _ e]) (auto simp: send_ping_def split: option.splits)
next
  case False
  then have "maybe_send_ping (observed io) c conn = (Inr (), conn)"
    by (auto simp: maybe_send_ping_def ping_due_def split: option.splits)
  with assms heartbeat.quiet [OF False] show ?thesis
    by (intro exI [of _ "[]"] exI [of _ None]) auto
qed

text \<open>The bytes a read hands over: none when the answer is 0.\<close>

definition handed :: "WsError + nat \<Rightarrow> bytes \<Rightarrow> WsError + bytes" where
  "handed r buf = map_sum id (\<lambda>n. if n = 0 then [] else buf) r"

lemma read_bytes_turn:
  assumes "read_bytes (observed io) c c' buf conn = (r, buf', conn')"
  shows "\<exists>acts. ws_turn (ws_config conn) (c, c') (ws_last_ping conn) acts (handed r buf') (ws_last_ping conn') \<and>
    ws_log conn' = ws_log conn @ acts \<and> ws_config conn' = ws_config conn"
proof -
  obtain r1 conn1 where 1: "maybe_send_ping (observed io) c conn = (r1, conn1)" by fastforce
  then obtain hb e where hb: "heartbeat (ws_config conn) c (ws_last_ping conn) hb e (ws_last_ping conn1)"
    "r1 = (case e of None \<Rightarrow> Inr () | Some e \<Rightarrow> Inl (Send (''ping: '' @ e)))"
    "ws_log conn1 = ws_log conn @ hb" "ws_config conn1 = ws_config conn" using maybe_send_ping_heartbeat by blast
  show ?thesis
  proof (cases e)
    case (Some e)
    then show ?thesis using assms 1 hb ws_turn.no_ping [of _ "(c, c')"] by (auto simp: read_bytes_def handed_def)
  next
    case None
    with hb have hb': "heartbeat (ws_config conn) (fst (c, c')) (ws_last_ping conn) hb None (ws_last_ping conn1)" "r1 = Inr ()" by auto
    obtain x w where 2: "io_read io (fst (ws_socket conn1)) = (x, w)" by fastforce
    let ?conn2 = "conn1\<lparr> ws_socket := (w, ws_log conn1 @ [Received x]) \<rparr>"
    note defs = read_bytes_def 1 2 hb(3,4) hb'(2) handed_def Let_def
    note turns = hb'(1) [THEN ws_turn.handed_over] hb'(1) [THEN ws_turn.ignored] hb'(1) [THEN ws_turn.pong]
      hb'(1) [THEN ws_turn.no_pong] hb'(1) [THEN ws_turn.close] hb'(1) [THEN ws_turn.failure]
    show ?thesis
    proof (cases x)
      case (Inl f)
      obtain r3 conn3 where 3: "maybe_send_ping (observed io) c' ?conn2 = (r3, conn3)" by fastforce
      then obtain hb3 e3 where hb3: "heartbeat (ws_config conn) (snd (c, c')) (ws_last_ping conn1) hb3 e3 (ws_last_ping conn3)"
        "r3 = (case e3 of None \<Rightarrow> Inr () | Some e \<Rightarrow> Inl (Send (''ping: '' @ e)))"
        "ws_log conn3 = ws_log conn @ hb @ [Received x] @ hb3" "ws_config conn3 = ws_config conn"
        using maybe_send_ping_heartbeat [OF 3] hb by auto
      show ?thesis
      proof (cases f)
        case TimedOut
        then show ?thesis
          using assms Inl 3 hb3 ws_turn.timeout [OF hb'(1)] ws_turn.timeout_no_ping [OF hb'(1)]
          by (cases e3) (auto simp: defs)
      next
        case (OtherFailure e)
        then show ?thesis using assms Inl turns(6) by (auto simp: defs)
      qed
    next
      case (Inr m)
      show ?thesis
      proof (cases m)
        case (Text b)
        then show ?thesis using assms Inr turns(1) [of b] turns(2) [of m] by (cases "b = text_bytes ''PONG''") (auto simp: defs)
      next
        case (Ping d)
        obtain e w' where "io_send io (Pong d) w = (e, w')" by fastforce
        then show ?thesis using assms Inr Ping turns(3) [of d] turns(4) [of d] by (cases e) (auto simp: defs)
      qed (use assms Inr turns(2) [of m] turns(5) in \<open>auto simp: defs\<close>)
    qed
  qed
qed

lemma read_event_handed: "read_event r buf = (case handed r buf of Inl _ \<Rightarrow> ReadErr | Inr b \<Rightarrow> if b = [] then ReadIdle else ReadText b)"
  if "\<And>n. r = Inr n \<Longrightarrow> n \<noteq> 0 \<Longrightarrow> buf \<noteq> []"
  using that by (cases r) (auto simp: read_event_def handed_def)

text \<open>An answer other than 0 is the length of the buffer.\<close>

lemma read_bytes_length: "read_bytes io c c' buf conn = (Inr n, buf', conn') \<Longrightarrow> n \<noteq> 0 \<Longrightarrow> n = length buf'"
  by (auto simp: read_bytes_def Let_def split: prod.splits sum.splits ws_message.splits option.splits ws_read_failure.splits if_splits)

lemma read_loop_unobserved:
  "read_loop io cs buf (unobserved conn) = map_prod id unobserved (read_loop (observed io) cs buf conn)"
proof (induction cs arbitrary: buf conn)
  case (Cons c cs)
  obtain r buf' conn' where r: "read_bytes (observed io) (fst c) (snd c) buf conn = (r, buf', conn')" by (metis prod_cases3)
  have "read_bytes io (fst c) (snd c) buf (unobserved conn) = (r, buf', unobserved conn')" by (simp add: read_bytes_unobserved r)
  with r Cons.IH [of buf' conn'] show ?case by (cases c) (simp add: split_def)
qed simp

lemma read_loop_session:
  assumes "read_loop (observed io) cs buf conn = (es, conn')"
  shows "\<exists>acts. ws_session (ws_config conn) (ws_last_ping conn) cs acts es (ws_last_ping conn') \<and>
    ws_log conn' = ws_log conn @ acts \<and> ws_config conn' = ws_config conn"
  using assms
proof (induction cs arbitrary: buf conn es)
  case Nil
  then show ?case by (auto intro: ws_session.start)
next
  case (Cons c cs)
  obtain r buf1 conn1 where r: "read_bytes (observed io) (fst c) (snd c) buf conn = (r, buf1, conn1)" by (metis prod_cases3)
  then obtain acts where a: "ws_turn (ws_config conn) c (ws_last_ping conn) acts (handed r buf1) (ws_last_ping conn1)"
    "ws_log conn1 = ws_log conn @ acts" "ws_config conn1 = ws_config conn" using read_bytes_turn [OF r] by auto
  have ev: "read_event r buf1 = (case handed r buf1 of Inl _ \<Rightarrow> ReadErr | Inr b \<Rightarrow> if b = [] then ReadIdle else ReadText b)"
    using read_bytes_length r by (intro read_event_handed) fastforce
  show ?case
  proof (cases "handed r buf1")
    case (Inl e)
    then show ?thesis using Cons.prems r a ev ws_session.ended by (cases c) auto
  next
    case (Inr b)
    obtain es2 where 2: "read_loop (observed io) cs buf1 conn1 = (es2, conn')" "es = read_event r buf1 # es2"
      using Cons.prems r ev Inr by (cases c) (auto split: prod.splits if_splits)
    then show ?thesis using Cons.IH [OF 2(1)] a ev Inr ws_session.next_read by fastforce
  qed
qed

section \<open>What the dialogue means\<close>

lemma heartbeat_meaning:
  "heartbeat config c t hb e t' \<Longrightarrow> List.map_filter feed_text hb = [] \<and> List.map_filter ping_data hb = [] \<and>
     List.map_filter pong_data hb = [] \<and> (list_ex fatal hb \<longleftrightarrow> e \<noteq> None) \<and> \<not> list_ex fatal (butlast hb)"
  by (induction rule: heartbeat.induct)
    (auto simp: map_filter_simps)

lemma map_filter_append: "List.map_filter f (xs @ ys) = List.map_filter f xs @ List.map_filter f ys"
  by (simp add: List.map_filter_def)

text \<open>The bytes of a turn are its text for the feed, its pings are answered, and it fails at its last action or not
  at all.\<close>

lemma turn_meaning:
  "ws_turn config c t acts r t' \<Longrightarrow> List.map_filter feed_text acts = (case r of Inl _ \<Rightarrow> [] | Inr b \<Rightarrow> if b = [] then [] else [b]) \<and>
     List.map_filter pong_data acts = List.map_filter ping_data acts \<and>
     (list_ex fatal acts \<longleftrightarrow> isl r) \<and> \<not> list_ex fatal (butlast acts)"
  by (induction rule: ws_turn.induct)
    (auto dest!: heartbeat_meaning simp: map_filter_append map_filter_simps butlast_append)

lemma session_meaning:
  "ws_session config t cs acts es t' \<Longrightarrow> texts es = List.map_filter feed_text acts \<and>
     List.map_filter pong_data acts = List.map_filter ping_data acts \<and>
     (ReadErr \<in> set es \<longleftrightarrow> list_ex fatal acts) \<and> \<not> list_ex fatal (butlast acts) \<and>
     ReadErr \<notin> set (butlast es) \<and> (length es = length cs \<or> ReadErr \<in> set es)"
proof (induction rule: ws_session.induct)
  case (next_read c t acts b t1 cs acts' es t')
  then show ?case using turn_meaning [OF next_read(1)]
    by (auto simp: map_filter_append butlast_append)
qed (auto dest: turn_meaning simp: map_filter_simps)

text \<open>A connection that opens has sent its subscription, if it has one, and nothing else.\<close>

lemma ws_connect_log:
  assumes "ws_connect (observed io) now config = Inr conn"
  shows "ws_log conn = (case wc_subscribe_msg config of None \<Rightarrow> [] | Some sub \<Rightarrow> [Sent (Text (text_bytes sub)) None])"
    "ws_config conn = config" "ws_last_ping conn = now"
proof -
  obtain ws ws1 where 1: "io_connect (observed io) (wc_url config) = Inr ws" "ws_tune (observed io) config ws = Inr ws1"
    using assms by (auto simp: ws_connect_def split: option.splits sum.splits)
  have "snd ws = []" using 1(1) by (cases "io_connect io (wc_url config)") (auto simp: observed_def)
  moreover have "snd ws1 = snd ws" using 1(2) by (auto simp: ws_tune_def observed_def map_prod_def split: if_splits prod.splits option.splits)
  ultimately show "ws_log conn = (case wc_subscribe_msg config of None \<Rightarrow> [] | Some sub \<Rightarrow> [Sent (Text (text_bytes sub)) None])"
    "ws_config conn = config" "ws_last_ping conn = now"
    using assms 1 by (auto simp: ws_connect_def Let_def split: option.splits prod.splits)
qed

text \<open>C29. The feed sees exactly the messages of the exchange, over any socket. Whatever the socket's reads return and
  whichever of its sends fail, and whatever the heartbeat clocks say, the reads of a connection and the socket
  hold the dialogue \<open>ws_session\<close>: before each read, and after one that timed out, a ping is sent exactly when the
  configured interval has passed since the last one that was sent, a ping of the server is answered at
  once by a pong with its data, and nothing else is sent; a failed send, a close or a failed read is the last
  action and the last event, an error, and nothing else is one. The feed gets the non-empty texts other than
  the answer to a heartbeat, whole and in order, and one event per read.\<close>

theorem ws_reads_exactly:
  fixes io :: "'w WsIo"
  shows "\<exists>es log w' t'.
    read_loop io clocks buf \<lparr> ws_socket = w, ws_config = config, ws_last_ping = t \<rparr> =
      (es, \<lparr> ws_socket = w', ws_config = config, ws_last_ping = t' \<rparr>) \<and>
    read_loop (observed io) clocks buf \<lparr> ws_socket = (w, []), ws_config = config, ws_last_ping = t \<rparr> =
      (es, \<lparr> ws_socket = (w', log), ws_config = config, ws_last_ping = t' \<rparr>) \<and>
    ws_session config t clocks log es t' \<and>
    texts es = List.map_filter feed_text log \<and>
    List.map_filter pong_data log = List.map_filter ping_data log \<and>
    (ReadErr \<in> set es \<longleftrightarrow> list_ex fatal log) \<and> \<not> list_ex fatal (butlast log) \<and>
    ReadErr \<notin> set (butlast es) \<and> (length es = length clocks \<or> ReadErr \<in> set es)"
proof -
  let ?conn = "\<lparr> ws_socket = (w, []), ws_config = config, ws_last_ping = t \<rparr>"
  obtain es conn where r: "read_loop (observed io) clocks buf ?conn = (es, conn)" by fastforce
  have u: "read_loop io clocks buf \<lparr> ws_socket = w, ws_config = config, ws_last_ping = t \<rparr> = (es, unobserved conn)"
    using read_loop_unobserved [of io clocks buf ?conn] r by (simp add: unobserved_def)
  have s: "ws_session config t clocks (ws_log conn) es (ws_last_ping conn)" "ws_config conn = config"
    using read_loop_session [OF r] by auto
  have "conn = \<lparr> ws_socket = (fst (ws_socket conn), ws_log conn), ws_config = config, ws_last_ping = ws_last_ping conn \<rparr>"
    using s(2) by (cases conn) simp
  with r u s session_meaning [OF s(1)] show ?thesis
    by (intro exI [of _ es] exI [of _ "ws_log conn"] exI [of _ "fst (ws_socket conn)"] exI [of _ "ws_last_ping conn"])
      (auto simp: unobserved_def)
qed

text \<open>A socket that plays a script of reads and cannot send: the text before the ping reaches the feed, the pong
  fails, and the connection is given up there.\<close>

definition mute_io :: "incoming list WsIo" where
  "mute_io = \<lparr> io_request = (\<lambda>_. None), io_connect = (\<lambda>_. Inr []), io_has_tcp = (\<lambda>_. True),
     io_set_read_timeout = (\<lambda>_ w. (None, w)), io_set_nodelay = (\<lambda>w. (None, w)),
     io_send = (\<lambda>m w. (Some ''broken pipe'', w)),
     io_read = (\<lambda>w. case w of [] \<Rightarrow> (Inl TimedOut, []) | r # rs \<Rightarrow> (r, rs)) \<rparr>"

theorem ws_reads_exactly_witness:
  "\<exists>es log w' t'. read_loop mute_io (replicate 3 ((9, 9), (9, 9))) []
      \<lparr> ws_socket = [Inr (Text [7]), Inr (Ping [1]), Inr (Text [8])], ws_config = ws_polymarket [], ws_last_ping = 0 \<rparr> =
      (es, \<lparr> ws_socket = w', ws_config = ws_polymarket [], ws_last_ping = t' \<rparr>) \<and>
    es = [ReadText [7], ReadErr] \<and> w' = [Inr (Text [8])] \<and>
    texts es = List.map_filter feed_text log \<and> list_ex fatal log"
proof -
  let ?cs = "replicate 3 ((9, 9), (9, 9))" and ?w = "[Inr (Text [7]), Inr (Ping [1]), Inr (Text [8])]"
  have "read_loop mute_io ?cs [] \<lparr> ws_socket = ?w, ws_config = ws_polymarket [], ws_last_ping = 0 \<rparr> =
    ([ReadText [7], ReadErr], \<lparr> ws_socket = [Inr (Text [8])], ws_config = ws_polymarket [], ws_last_ping = 0 \<rparr>)"
    by (simp add: mute_io_def read_bytes_def maybe_send_ping_def ws_polymarket_def from_secs_def text_bytes_def read_event_def
        numeral_3_eq_3 Let_def)
  with ws_reads_exactly [of mute_io ?cs "[]" ?w "ws_polymarket []" 0] show ?thesis by auto
qed

end
