(* ===== verification/Copy_Dispatch.thy ===== *)
theory Copy_Dispatch
  imports Mantis_Prelude
begin

text \<open>
  Copies of slot values (\<open>crates/platform/src/intrinsics/copy_dispatch.rs\<close> and \<open>copy_policy.rs\<close>): the 128 bit
  kernels, the dispatcher that chooses one by the size of the type, and the copy policies built on it.
  Memory maps addresses to bytes, and only allocated addresses have one; an access outside, an
  overlapping \<open>copy_nonoverlapping\<close> and (in a checked build) an underflowing subtraction have no result. What a
  client needs of a copy policy is the locale \<open>copy_policy\<close>.
\<close>

section \<open>Memory\<close>

type_synonym memory = "nat \<rightharpoonup> u8"

definition allocated :: "memory \<Rightarrow> nat \<Rightarrow> nat \<Rightarrow> bool" where
  "allocated m a n \<longleftrightarrow> (\<forall>i<n. m (a + i) \<noteq> None)"

definition read_at :: "memory \<Rightarrow> nat \<Rightarrow> nat \<Rightarrow> u8 list" where
  "read_at m a n = map (\<lambda>i. the (m (a + i))) [0..<n]"

definition write_at :: "memory \<Rightarrow> nat \<Rightarrow> u8 list \<Rightarrow> memory" where
  "write_at m a bs = (\<lambda>x. if a \<le> x \<and> x < a + length bs then Some (bs ! (x - a)) else m x)"

definition disjoint_ranges :: "nat \<Rightarrow> nat \<Rightarrow> nat \<Rightarrow> bool" where
  "disjoint_ranges a b n \<longleftrightarrow> a + n \<le> b \<or> b + n \<le> a"

definition copy_nonoverlapping :: "nat \<Rightarrow> nat \<Rightarrow> nat \<Rightarrow> memory \<Rightarrow> memory panics" where
  "copy_nonoverlapping src dst n m =
     (if allocated m src n \<and> allocated m dst n \<and> disjoint_ranges src dst n
      then Some (write_at m dst (read_at m src n)) else None)"

section \<open>Kernels\<close>

definition load128 :: "nat \<Rightarrow> memory \<Rightarrow> u8 list panics" where
  "load128 src m = (if allocated m src 16 then Some (read_at m src 16) else None)"

definition store128 :: "nat \<Rightarrow> u8 list \<Rightarrow> memory \<Rightarrow> memory panics" where
  "store128 dst v m = (if allocated m dst 16 then Some (write_at m dst v) else None)"

text \<open>The loop of \<open>define_copy_exact\<close> from chunk \<open>i\<close>, with \<open>k\<close> chunks left.\<close>

fun copy_chunks :: "nat \<Rightarrow> nat \<Rightarrow> nat \<Rightarrow> nat \<Rightarrow> memory \<Rightarrow> memory panics" where
  "copy_chunks 0 i dst src m = Some m"
| "copy_chunks (Suc k) i dst src m =
     do {
       v \<leftarrow> load128 (src + i * 16) m;
       m \<leftarrow> store128 (dst + i * 16) v m;
       copy_chunks k (i + 1) dst src m
     }"

definition copy_16 :: "nat \<Rightarrow> nat \<Rightarrow> memory \<Rightarrow> memory panics" where
  "copy_16 dst src m = copy_chunks 1 0 dst src m"

definition copy_32 :: "nat \<Rightarrow> nat \<Rightarrow> memory \<Rightarrow> memory panics" where
  "copy_32 dst src m = copy_chunks 2 0 dst src m"

definition copy_48 :: "nat \<Rightarrow> nat \<Rightarrow> memory \<Rightarrow> memory panics" where
  "copy_48 dst src m = copy_chunks 3 0 dst src m"

definition copy_64 :: "nat \<Rightarrow> nat \<Rightarrow> memory \<Rightarrow> memory panics" where
  "copy_64 dst src m = copy_chunks 4 0 dst src m"

definition usize_sub :: "bool \<Rightarrow> nat \<Rightarrow> nat \<Rightarrow> nat panics" where
  "usize_sub oc a b = (if b \<le> a then Some (a - b) else if oc then None else Some (2 ^ 64 + a - b))"

definition copy_bucket :: "bool \<Rightarrow> nat \<Rightarrow> nat \<Rightarrow> nat \<Rightarrow> nat \<Rightarrow> memory \<Rightarrow> memory panics" where
  "copy_bucket oc BASE N dst src m =
     do {
       m \<leftarrow> (if BASE = 16 then copy_16 dst src m
              else if BASE = 32 then copy_32 dst src m
              else if BASE = 48 then copy_48 dst src m
              else Some m);
       tail \<leftarrow> usize_sub oc N BASE;
       copy_nonoverlapping (src + BASE) (dst + BASE) tail m
     }"

section \<open>Dispatch\<close>

text \<open>\<open>CopyDispatcher<T, N>::copy\<close>, on a target with kernels (\<open>simd\<close>) or without.\<close>

definition dispatcher_copy :: "bool \<Rightarrow> bool \<Rightarrow> nat \<Rightarrow> nat \<Rightarrow> nat \<Rightarrow> memory \<Rightarrow> memory panics" where
  "dispatcher_copy simd oc N dst src m =
     (if simd \<and> N \<le> 8 then copy_nonoverlapping src dst N m
      else if simd \<and> N = 16 then copy_16 dst src m
      else if simd \<and> N = 32 then copy_32 dst src m
      else if simd \<and> N = 48 then copy_48 dst src m
      else if simd \<and> N = 64 then copy_64 dst src m
      else if simd \<and> N < 32 then copy_bucket oc 16 N dst src m
      else if simd \<and> N < 48 then copy_bucket oc 32 N dst src m
      else if simd \<and> N < 64 then copy_bucket oc 48 N dst src m
      else copy_nonoverlapping src dst N m)"

section \<open>Copy policies\<close>

definition default_copy_in :: "nat \<Rightarrow> nat \<Rightarrow> nat \<Rightarrow> memory \<Rightarrow> memory panics" where
  "default_copy_in N dst src m = copy_nonoverlapping src dst N m"

definition default_copy_out :: "nat \<Rightarrow> nat \<Rightarrow> nat \<Rightarrow> memory \<Rightarrow> memory panics" where
  "default_copy_out N dst src m = copy_nonoverlapping src dst N m"

definition simd_copy_in :: "bool \<Rightarrow> bool \<Rightarrow> nat \<Rightarrow> nat \<Rightarrow> nat \<Rightarrow> memory \<Rightarrow> memory panics" where
  "simd_copy_in simd oc N dst src m = dispatcher_copy simd oc N dst src m"

definition simd_copy_out :: "bool \<Rightarrow> bool \<Rightarrow> nat \<Rightarrow> nat \<Rightarrow> nat \<Rightarrow> memory \<Rightarrow> memory panics" where
  "simd_copy_out simd oc N dst src m = dispatcher_copy simd oc N dst src m"

section \<open>Lemmas on memory\<close>

lemma length_read_at [simp]: "length (read_at m a n) = n"
  by (simp add: read_at_def)

lemma read_at_nth [simp]: "i < n \<Longrightarrow> read_at m a n ! i = the (m (a + i))"
  by (simp add: read_at_def)

lemma read_at_append: "read_at m a k @ read_at m (a + k) n = read_at m a (k + n)"
  by (auto intro!: nth_equalityI simp: nth_append add.assoc)

lemma write_at_append: "write_at (write_at m a xs) (a + length xs) ys = write_at m a (xs @ ys)"
  by (auto simp: write_at_def nth_append fun_eq_iff)

lemma allocated_write_at [simp]: "allocated m b n \<Longrightarrow> allocated (write_at m a bs) b n"
  by (simp add: allocated_def write_at_def)

lemma allocated_sub: "allocated m a n \<Longrightarrow> k + l \<le> n \<Longrightarrow> allocated m (a + k) l"
  by (simp add: allocated_def add.assoc)

lemma read_at_other:
  assumes "disjoint_ranges src dst n" "length bs \<le> n" "k + l \<le> n"
  shows "read_at (write_at m dst bs) (src + k) l = read_at m (src + k) l"
  using assms by (intro nth_equalityI) (auto simp: write_at_def disjoint_ranges_def)

text \<open>After \<open>i\<close> chunks the first \<open>16 i\<close> bytes have been copied.\<close>

lemma copy_chunks_copies:
  assumes "allocated m src n" "allocated m dst n" "disjoint_ranges src dst n"
  shows "16 * (i + k) \<le> n \<Longrightarrow> copy_chunks k i dst src (write_at m dst (read_at m src (16 * i))) =
    Some (write_at m dst (read_at m src (16 * (i + k))))"
proof (induction k arbitrary: i)
  case (Suc k)
  let ?m = "write_at m dst (read_at m src (16 * i))"
  have "allocated ?m (src + i * 16) 16" "allocated ?m (dst + i * 16) 16"
    using Suc.prems assms(1,2) by (auto intro!: allocated_write_at allocated_sub)
  moreover have "read_at ?m (src + i * 16) 16 = read_at m (src + 16 * i) 16"
    using Suc.prems read_at_other [OF assms(3), of "read_at m src (16 * i)" "16 * i" 16] by (simp add: mult.commute)
  moreover have "write_at ?m (dst + i * 16) (read_at m (src + 16 * i) 16) = write_at m dst (read_at m src (16 * Suc i))"
    using write_at_append [of m dst "read_at m src (16 * i)" "read_at m (src + 16 * i) 16"]
    by (simp add: read_at_append mult.commute add.commute)
  ultimately show ?case using Suc.IH [of "Suc i"] Suc.prems by (simp add: load128_def store128_def add.assoc)
qed simp

lemma copy_exact_copies:
  assumes "allocated m src n" "allocated m dst n" "disjoint_ranges src dst n" "16 * k \<le> n"
  shows "copy_chunks k 0 dst src m = Some (write_at m dst (read_at m src (16 * k)))"
proof -
  have "write_at m dst (read_at m src 0) = m" by (rule ext) (auto simp: write_at_def)
  then show ?thesis using copy_chunks_copies [OF assms(1-3), of 0 k] assms(4) by simp
qed

lemma copy_bucket_copies:
  assumes "allocated m src N" "allocated m dst N" "disjoint_ranges src dst N"
    and "BASE = 16 \<or> BASE = 32 \<or> BASE = 48" "BASE \<le> N"
  shows "copy_bucket oc BASE N dst src m = Some (write_at m dst (read_at m src N))"
proof -
  let ?m = "write_at m dst (read_at m src BASE)"
  obtain k where k: "BASE = 16 * k" "k = 1 \<or> k = 2 \<or> k = 3" using assms(4) by force
  have "copy_chunks k 0 dst src m = Some ?m"
    using copy_exact_copies [OF assms(1-3), of k] assms(5) k(1) by simp
  then have kernel: "(if BASE = 16 then copy_16 dst src m else if BASE = 32 then copy_32 dst src m
      else if BASE = 48 then copy_48 dst src m else Some m) = Some ?m"
    using k by (auto simp: copy_16_def copy_32_def copy_48_def)
  have "allocated ?m (src + BASE) (N - BASE)" "allocated ?m (dst + BASE) (N - BASE)"
    using assms(1,2,5) by (auto intro!: allocated_write_at allocated_sub)
  moreover have "disjoint_ranges (src + BASE) (dst + BASE) (N - BASE)"
    using assms(3,5) by (auto simp: disjoint_ranges_def)
  moreover have "read_at ?m (src + BASE) (N - BASE) = read_at m (src + BASE) (N - BASE)"
    using read_at_other [OF assms(3), of "read_at m src BASE" BASE "N - BASE"] assms(5) by simp
  moreover have "write_at ?m (dst + BASE) (read_at m (src + BASE) (N - BASE)) = write_at m dst (read_at m src N)"
    using write_at_append [of m dst "read_at m src BASE" "read_at m (src + BASE) (N - BASE)"] assms(5)
    by (simp add: read_at_append)
  ultimately show ?thesis
    using assms(5) by (simp add: copy_bucket_def kernel usize_sub_def copy_nonoverlapping_def)
qed

lemma write_at_dom: "allocated m a (length bs) \<Longrightarrow> write_at m a bs x \<noteq> None \<longleftrightarrow> m x \<noteq> None"
  by (auto simp: write_at_def allocated_def dest: spec [of _ "x - a"])

lemma not_allocated_beyond:
  assumes "\<And>a. m a \<noteq> None \<Longrightarrow> a < 2 ^ 63" "2 ^ 63 < n"
  shows "\<not> allocated m a n"
proof -
  have "m (a + 2 ^ 63) = None" using assms(1) [of "a + 2 ^ 63"] by fastforce
  with assms(2) show ?thesis unfolding allocated_def by blast
qed

text \<open>For sizes from 9 to 15 the tail length underflows: no memory has that many bytes.\<close>

lemma copy_bucket_underflow:
  assumes "N < 16" "\<And>a. m a \<noteq> None \<Longrightarrow> a < 2 ^ 63"
  shows "copy_bucket oc 16 N dst src m = None"
proof -
  have "m' a \<noteq> None \<Longrightarrow> a < 2 ^ 63" if "copy_16 dst src m = Some m'" for m' a
  proof -
    have "\<exists>v. allocated m dst (length v) \<and> m' = write_at m dst v"
      using that by (auto simp: copy_16_def load128_def store128_def split: if_splits intro!: exI [of _ "read_at m src 16"])
    then show "m' a \<noteq> None \<Longrightarrow> a < 2 ^ 63" using assms(2) write_at_dom by metis
  qed
  then have "\<not> allocated m' a (2 ^ 64 + N - 16)" if "copy_16 dst src m = Some m'" for m' a
    using that by (intro not_allocated_beyond) auto
  then show ?thesis using assms(1)
    by (cases "copy_16 dst src m") (auto simp: copy_bucket_def usize_sub_def copy_nonoverlapping_def)
qed

section \<open>What a client needs of a copy policy\<close>

text \<open>Between valid ranges of the type's size that do not overlap, both operations copy the bytes and
  nothing else.\<close>

locale copy_policy =
  fixes N :: nat and copy_in copy_out :: "nat \<Rightarrow> nat \<Rightarrow> memory \<Rightarrow> memory panics"
  assumes copy_in_copies: "allocated m src N \<Longrightarrow> allocated m dst N \<Longrightarrow> disjoint_ranges src dst N \<Longrightarrow>
      copy_in dst src m = Some (write_at m dst (read_at m src N))"
    and copy_out_copies: "allocated m src N \<Longrightarrow> allocated m dst N \<Longrightarrow> disjoint_ranges src dst N \<Longrightarrow>
      copy_out dst src m = Some (write_at m dst (read_at m src N))"
begin

text \<open>A value put into a slot and taken out again is the value: what the copy ring and the sequence lock
  assume of their copies.\<close>

lemma slot_roundtrip:
  assumes "allocated m src N" "allocated m slot N" "allocated m dst N"
    and "disjoint_ranges src slot N" "disjoint_ranges slot dst N"
  shows "\<exists>m1 m2. copy_in slot src m = Some m1 \<and> copy_out dst slot m1 = Some m2 \<and>
    read_at m1 slot N = read_at m src N \<and> read_at m2 dst N = read_at m src N \<and>
    (\<forall>x. \<not> (slot \<le> x \<and> x < slot + N) \<and> \<not> (dst \<le> x \<and> x < dst + N) \<longrightarrow> m2 x = m x)"
proof -
  let ?m1 = "write_at m slot (read_at m src N)"
  let ?m2 = "write_at ?m1 dst (read_at ?m1 slot N)"
  have "copy_in slot src m = Some ?m1" using assms by (intro copy_in_copies) auto
  moreover have "copy_out dst slot ?m1 = Some ?m2" using assms by (intro copy_out_copies) auto
  moreover have "read_at ?m1 slot N = read_at m src N" "read_at ?m2 dst N = read_at ?m1 slot N"
    by (auto intro!: nth_equalityI simp: write_at_def)
  moreover have "?m2 x = m x" if "\<not> (slot \<le> x \<and> x < slot + N) \<and> \<not> (dst \<le> x \<and> x < dst + N)" for x
    using that by (auto simp: write_at_def)
  ultimately show ?thesis by (intro exI [of _ ?m1] exI [of _ ?m2]) simp
qed

end

interpretation default_policy: copy_policy N "default_copy_in N" "default_copy_out N"
  by unfold_locales (simp_all add: default_copy_in_def default_copy_out_def copy_nonoverlapping_def)

lemma dispatcher_copies:
  assumes "allocated m src N" "allocated m dst N" "disjoint_ranges src dst N" "\<not> (simd \<and> 8 < N \<and> N < 16)"
  shows "dispatcher_copy simd oc N dst src m = Some (write_at m dst (read_at m src N))"
proof -
  note exact = copy_exact_copies [OF assms(1-3)] and bucket = copy_bucket_copies [OF assms(1-3)]
  have plain: "copy_nonoverlapping src dst N m = Some (write_at m dst (read_at m src N))"
    using assms(1-3) by (simp add: copy_nonoverlapping_def)
  show ?thesis
    using assms(4) plain exact [of 1] exact [of 2] exact [of 3] exact [of 4] bucket [of 16 oc] bucket [of 32 oc] bucket [of 48 oc]
    by (auto simp: dispatcher_copy_def copy_16_def copy_32_def copy_48_def copy_64_def)
qed

lemma simd_policy:
  "\<not> (simd \<and> 8 < N \<and> N < 16) \<Longrightarrow> copy_policy N (simd_copy_in simd oc N) (simd_copy_out simd oc N)"
  by unfold_locales (simp_all add: simd_copy_in_def simd_copy_out_def dispatcher_copies)

text \<open>Events and other cache-line values, of 64 bytes.\<close>

interpretation simd_event: copy_policy 64 "simd_copy_in simd oc 64" "simd_copy_out simd oc 64"
  by (rule simd_policy) simp

section \<open>Properties\<close>

text \<open>C38. The SIMD copy of a value is a plain copy, except for sizes from 9 to 15. For every target and build and
  every two valid ranges of \<open>N\<close> bytes that do not overlap, the dispatcher writes exactly the bytes of the source to the
  destination; but on a target with kernels a type of 9 to 15 bytes is sent to the kernel for at least
  16, whose tail length \<open>N - 16\<close> underflows: a panic in a checked build, and otherwise a copy of almost
  \<open>2 ^ 64\<close> bytes, which no memory has room for, so the result is undefined.\<close>

theorem copy_dispatch_exact_or_undefined:
  assumes "allocated m src N" "allocated m dst N" "disjoint_ranges src dst N" "\<And>a. m a \<noteq> None \<Longrightarrow> a < 2 ^ 63"
  shows "dispatcher_copy simd oc N dst src m =
    (if simd \<and> 8 < N \<and> N < 16 then None else Some (write_at m dst (read_at m src N)))"
proof (cases "simd \<and> 8 < N \<and> N < 16")
  case True
  then show ?thesis using copy_bucket_underflow [OF _ assms(4), where N = N and oc = oc and dst = dst and src = src] by (simp add: dispatcher_copy_def)
next
  case False
  then show ?thesis using dispatcher_copies [OF assms(1-3), of simd oc] by auto
qed

section \<open>Witness\<close>

definition sample_memory :: memory where
  "sample_memory a = (if a < 64 then Some (word_of_nat a) else None)"

theorem copy_dispatch_exact_or_undefined_witness:
  "dispatcher_copy True True 12 32 0 sample_memory = None \<and>
   dispatcher_copy True True 24 32 0 sample_memory = Some (write_at sample_memory 32 (read_at sample_memory 0 24))"
proof -
  have "a < 2 ^ 63" if "sample_memory a \<noteq> None" for a using that by (simp add: sample_memory_def split: if_splits)
  moreover have "allocated sample_memory 0 12" "allocated sample_memory 32 12" "disjoint_ranges 0 32 12"
    "allocated sample_memory 0 24" "allocated sample_memory 32 24" "disjoint_ranges 0 32 24"
    by (simp_all add: sample_memory_def allocated_def disjoint_ranges_def)
  ultimately show ?thesis
    using copy_dispatch_exact_or_undefined [of sample_memory 0 12 32 True True]
      copy_dispatch_exact_or_undefined [of sample_memory 0 24 32 True True]
    by simp
qed

end
