(* ===== verification/Copy_Concurrent.thy ===== *)
theory Copy_Concurrent
  imports Spsc_Concurrent Copy_Ring
begin

text \<open>
  The copy ring under two threads, batches included (\<open>crates/queue/src/copy_ring/engine.rs\<close> and \<open>handle.rs\<close>). A step is
  one access to shared memory of one thread: the acquire load of the other side's index, the copy of one value
  to or from a slot, the release store of the own index. A batch copies its values slot by slot, in the two
  chunks of the code, and publishes them with one store. Values are plain data, so a slot keeps its old value
  after a read; undefined behaviour (a slot past the end, a read of a slot that was never written) sets a flag.
\<close>

section \<open>Threads\<close>

datatype 'a writer_pc =
    WIdle
  | WLoadOne 'a usize
  | WLoadBatch "'a list"
  | WCopy "'a list" nat
  | WPublish "'a list"

datatype 'a reader_pc =
    RIdle
  | RLoadOne
  | RLoadBatch nat
  | RCopy nat "'a list"
  | RPublish "'a list"

record 'a CopyState =
  cs_head :: usize
  cs_tail :: usize
  cs_slots :: "'a slots"
  cs_tail_cached :: usize
  cs_head_cached :: usize
  cs_writer :: "'a writer_pc"
  cs_reader :: "'a reader_pc"
  cs_sent :: "'a list"
  cs_recv :: "'a list"
  cs_ub :: bool

text \<open>\<open>cs_sent\<close> and \<open>cs_recv\<close> record the published and the consumed values; no step reads them.\<close>

datatype 'a copy_label = CTau | CSent "'a list" | CFull | CReceived "'a list" | CEmpty

definition copy_init :: "'a slots \<Rightarrow> 'a CopyState" where
  "copy_init storage = \<lparr> cs_head = 0, cs_tail = 0, cs_slots = storage, cs_tail_cached = 0, cs_head_cached = 0,
     cs_writer = WIdle, cs_reader = RIdle, cs_sent = [], cs_recv = [], cs_ub = False \<rparr>"

text \<open>The slot of value \<open>i\<close> of a copy of \<open>n\<close> values that starts at slot \<open>start\<close>: the first chunk ends with the array,
  the second begins at slot zero.\<close>

definition chunk_slot :: "usize \<Rightarrow> usize \<Rightarrow> nat \<Rightarrow> nat \<Rightarrow> usize" where
  "chunk_slot cap start n i =
     (let first_chunk = min n (cap - start) in if i < first_chunk then start + i else i - first_chunk)"

abbreviation free_slots :: "'a CopyState \<Rightarrow> usize \<Rightarrow> nat" where
  "free_slots s tail \<equiv> length (cs_slots s) - 1 - ring_distance (length (cs_slots s)) tail (cs_head s)"

abbreviation available :: "'a CopyState \<Rightarrow> usize \<Rightarrow> nat" where
  "available s head \<equiv> ring_distance (length (cs_slots s)) (cs_tail s) head"

abbreviation write_to :: "'a CopyState \<Rightarrow> 'a list \<Rightarrow> nat \<Rightarrow> usize" where
  "write_to s xs i \<equiv> chunk_slot (length (cs_slots s)) (cs_head s) (length xs) i"

abbreviation read_from :: "'a CopyState \<Rightarrow> nat \<Rightarrow> nat \<Rightarrow> usize" where
  "read_from s n i \<equiv> chunk_slot (length (cs_slots s)) (cs_tail s) n i"

inductive copy_conc_step :: "(usize \<Rightarrow> usize \<Rightarrow> usize panics) \<Rightarrow> 'a CopyState \<Rightarrow> 'a copy_label \<Rightarrow> 'a CopyState \<Rightarrow> bool"
  for wrap where
  push_start:
    "cs_writer s = WIdle \<Longrightarrow> wrap (cs_head s + 1) (length (cs_slots s)) = Some next_head \<Longrightarrow>
     copy_conc_step wrap s CTau (s\<lparr> cs_writer :=
       (if next_head = cs_tail_cached s then WLoadOne v next_head else WCopy [v] 0) \<rparr>)"
| push_full:
    "cs_writer s = WLoadOne v next_head \<Longrightarrow> next_head = cs_tail s \<Longrightarrow>
     copy_conc_step wrap s CFull (s\<lparr> cs_tail_cached := cs_tail s, cs_writer := WIdle \<rparr>)"
| push_room:
    "cs_writer s = WLoadOne v next_head \<Longrightarrow> next_head \<noteq> cs_tail s \<Longrightarrow>
     copy_conc_step wrap s CTau (s\<lparr> cs_tail_cached := cs_tail s, cs_writer := WCopy [v] 0 \<rparr>)"
| batch_start:
    "cs_writer s = WIdle \<Longrightarrow> src \<noteq> [] \<Longrightarrow>
     copy_conc_step wrap s CTau (s\<lparr> cs_writer :=
       (if free_slots s (cs_tail_cached s) < length src then WLoadBatch src else WCopy src 0) \<rparr>)"
| batch_full:
    "cs_writer s = WLoadBatch src \<Longrightarrow> free_slots s (cs_tail s) = 0 \<Longrightarrow>
     copy_conc_step wrap s CFull (s\<lparr> cs_tail_cached := cs_tail s, cs_writer := WIdle \<rparr>)"
| batch_room:
    "cs_writer s = WLoadBatch src \<Longrightarrow> free_slots s (cs_tail s) \<noteq> 0 \<Longrightarrow>
     copy_conc_step wrap s CTau (s\<lparr> cs_tail_cached := cs_tail s,
       cs_writer := WCopy (take (min (length src) (free_slots s (cs_tail s))) src) 0 \<rparr>)"
| copy_in:
    "cs_writer s = WCopy xs i \<Longrightarrow> write_to s xs i < length (cs_slots s) \<Longrightarrow>
     copy_conc_step wrap s CTau (s\<lparr> cs_slots := (cs_slots s)[write_to s xs i := Some (xs ! i)],
       cs_writer := (if i + 1 = length xs then WPublish xs else WCopy xs (i + 1)) \<rparr>)"
| copy_in_ub:
    "cs_writer s = WCopy xs i \<Longrightarrow> \<not> write_to s xs i < length (cs_slots s) \<Longrightarrow>
     copy_conc_step wrap s CTau (s\<lparr> cs_ub := True \<rparr>)"
| publish:
    "cs_writer s = WPublish xs \<Longrightarrow> wrap (cs_head s + length xs) (length (cs_slots s)) = Some new_head \<Longrightarrow>
     copy_conc_step wrap s (CSent xs) (s\<lparr> cs_head := new_head, cs_writer := WIdle, cs_sent := cs_sent s @ xs \<rparr>)"
| pop_start:
    "cs_reader s = RIdle \<Longrightarrow>
     copy_conc_step wrap s CTau (s\<lparr> cs_reader := (if cs_tail s = cs_head_cached s then RLoadOne else RCopy 1 []) \<rparr>)"
| pop_empty:
    "cs_reader s = RLoadOne \<Longrightarrow> cs_tail s = cs_head s \<Longrightarrow>
     copy_conc_step wrap s CEmpty (s\<lparr> cs_head_cached := cs_head s, cs_reader := RIdle \<rparr>)"
| pop_some:
    "cs_reader s = RLoadOne \<Longrightarrow> cs_tail s \<noteq> cs_head s \<Longrightarrow>
     copy_conc_step wrap s CTau (s\<lparr> cs_head_cached := cs_head s, cs_reader := RCopy 1 [] \<rparr>)"
| take_start:
    "cs_reader s = RIdle \<Longrightarrow> 0 < k \<Longrightarrow>
     copy_conc_step wrap s CTau (s\<lparr> cs_reader :=
       (if available s (cs_head_cached s) < k then RLoadBatch k else RCopy k []) \<rparr>)"
| take_empty:
    "cs_reader s = RLoadBatch k \<Longrightarrow> available s (cs_head s) = 0 \<Longrightarrow>
     copy_conc_step wrap s CEmpty (s\<lparr> cs_head_cached := cs_head s, cs_reader := RIdle \<rparr>)"
| take_some:
    "cs_reader s = RLoadBatch k \<Longrightarrow> available s (cs_head s) \<noteq> 0 \<Longrightarrow>
     copy_conc_step wrap s CTau (s\<lparr> cs_head_cached := cs_head s,
       cs_reader := RCopy (min k (available s (cs_head s))) [] \<rparr>)"
| copy_out:
    "cs_reader s = RCopy n got \<Longrightarrow> read_from s n (length got) < length (cs_slots s) \<Longrightarrow>
     cs_slots s ! read_from s n (length got) = Some v \<Longrightarrow>
     copy_conc_step wrap s CTau (s\<lparr> cs_reader :=
       (if length got + 1 = n then RPublish (got @ [v]) else RCopy n (got @ [v])) \<rparr>)"
| copy_out_ub:
    "cs_reader s = RCopy n got \<Longrightarrow>
     \<not> (read_from s n (length got) < length (cs_slots s) \<and> cs_slots s ! read_from s n (length got) \<noteq> None) \<Longrightarrow>
     copy_conc_step wrap s CTau (s\<lparr> cs_ub := True \<rparr>)"
| release:
    "cs_reader s = RPublish got \<Longrightarrow> wrap (cs_tail s + length got) (length (cs_slots s)) = Some new_tail \<Longrightarrow>
     copy_conc_step wrap s (CReceived got) (s\<lparr> cs_tail := new_tail, cs_reader := RIdle, cs_recv := cs_recv s @ got \<rparr>)"

inductive copy_reachable :: "(usize \<Rightarrow> usize \<Rightarrow> usize panics) \<Rightarrow> 'a slots \<Rightarrow> 'a CopyState \<Rightarrow> bool"
  for wrap storage where
  init: "copy_reachable wrap storage (copy_init storage)"
| step: "copy_reachable wrap storage s \<Longrightarrow> copy_conc_step wrap s l s' \<Longrightarrow> copy_reachable wrap storage s'"

text \<open>The slots each thread has still to access in its copy.\<close>

definition writer_slots :: "'a CopyState \<Rightarrow> nat set" where
  "writer_slots s = (case cs_writer s of WCopy xs i \<Rightarrow> write_to s xs ` {i..<length xs} | _ \<Rightarrow> {})"

definition reader_slots :: "'a CopyState \<Rightarrow> nat set" where
  "reader_slots s = (case cs_reader s of RCopy n got \<Rightarrow> read_from s n ` {length got..<n} | _ \<Rightarrow> {})"

section \<open>Invariant\<close>

text \<open>The values copied but not yet published, and what each thread knows.\<close>

definition copied :: "'a writer_pc \<Rightarrow> 'a list" where
  "copied w = (case w of WCopy xs i \<Rightarrow> take i xs | WPublish xs \<Rightarrow> xs | _ \<Rightarrow> [])"

definition writer_ok :: "nat \<Rightarrow> nat \<Rightarrow> nat \<Rightarrow> 'a writer_pc \<Rightarrow> bool" where
  "writer_ok N H TC w = (case w of
      WIdle \<Rightarrow> True
    | WLoadOne v nh \<Rightarrow> nh = Suc H mod N
    | WLoadBatch src \<Rightarrow> src \<noteq> []
    | WCopy xs i \<Rightarrow> i < length xs \<and> H + length xs < TC + N
    | WPublish xs \<Rightarrow> H + length xs < TC + N)"

definition reader_ok :: "nat \<Rightarrow> nat \<Rightarrow> 'a list \<Rightarrow> 'a reader_pc \<Rightarrow> bool" where
  "reader_ok T HC sent r = (case r of
      RIdle \<Rightarrow> True
    | RLoadOne \<Rightarrow> True
    | RLoadBatch k \<Rightarrow> 0 < k
    | RCopy n got \<Rightarrow> length got < n \<and> T + n \<le> HC \<and> got = take (length got) (drop T sent)
    | RPublish got \<Rightarrow> T + length got \<le> HC \<and> got = take (length got) (drop T sent))"

definition copy_slots_ok :: "nat \<Rightarrow> nat \<Rightarrow> 'a list \<Rightarrow> 'a slots \<Rightarrow> bool" where
  "copy_slots_ok N T w slots \<longleftrightarrow> length slots = N \<and> (\<forall>i. T \<le> i \<and> i < length w \<longrightarrow> slots ! (i mod N) = Some (w ! i))"

definition copy_conc_at :: "nat \<Rightarrow> nat \<Rightarrow> nat \<Rightarrow> nat \<Rightarrow> nat \<Rightarrow> 'a CopyState \<Rightarrow> bool" where
  "copy_conc_at N H T TC HC s \<longleftrightarrow>
     length (cs_sent s) = H \<and> length (cs_recv s) = T \<and> \<not> cs_ub s \<and> cs_recv s = take T (cs_sent s) \<and>
     H < TC + N \<and> TC \<le> T \<and> T \<le> HC \<and> HC \<le> H \<and>
     cs_head s = H mod N \<and> cs_tail s = T mod N \<and> cs_tail_cached s = TC mod N \<and> cs_head_cached s = HC mod N \<and>
     writer_ok N H TC (cs_writer s) \<and> reader_ok T HC (cs_sent s) (cs_reader s) \<and>
     copy_slots_ok N T (cs_sent s @ copied (cs_writer s)) (cs_slots s)"

lemma chunk_slot_mod:
  assumes "start = x mod cap" "i < n" "n < cap"
  shows "chunk_slot cap start n i = (x + i) mod cap"
proof -
  have lt: "start < cap" using assms by simp
  have "(x + i) mod cap = (start + i) mod cap" by (simp add: assms(1) mod_add_left_eq)
  also have "\<dots> = (if start + i < cap then start + i else start + i - cap)"
    using lt assms(2,3) le_mod_geq [of cap "start + i"] by (cases "start + i < cap") simp_all
  finally show ?thesis using lt assms(2,3) by (auto simp: chunk_slot_def Let_def min_def)
qed

lemma copy_slots_ok_write:
  assumes "copy_slots_ok N T w slots" "T \<le> length w" "length w < T + N"
  shows "copy_slots_ok N T (w @ [v]) (slots[length w mod N := Some v])"
proof -
  have "slots[length w mod N := Some v] ! (i mod N) = Some ((w @ [v]) ! i)" if "T \<le> i" "i < length (w @ [v])" for i
  proof (cases "i = length w")
    case True
    then show ?thesis using assms by (simp add: copy_slots_ok_def)
  next
    case False
    then have "i mod N \<noteq> length w mod N" "i < length w" using mod_window_eq [of T i N "length w"] that assms(2,3) by auto
    then show ?thesis using assms(1) that by (simp add: copy_slots_ok_def nth_append)
  qed
  with assms(1) show ?thesis by (simp add: copy_slots_ok_def)
qed

lemma take_drop_snoc:
  "got = take (length got) (drop T sent) \<Longrightarrow> T + length got < length sent \<Longrightarrow>
     got @ [sent ! (T + length got)] = take (Suc (length got)) (drop T sent)"
  by (simp add: take_Suc_conv_app_nth)

lemma copy_init_at:
  assumes "is_power_of_two N"
  shows "copy_conc_at N 0 0 0 0 (copy_init (replicate N None))"
  using assms
  by (simp add: copy_conc_at_def copy_init_def writer_ok_def reader_ok_def copy_slots_ok_def copied_def is_power_of_two_def)

lemmas copy_conc_defs = copy_conc_at_def writer_ok_def reader_ok_def copied_def

text \<open>The distances the code computes from indices are those of the positions.\<close>

lemma copy_conc_distances:
  assumes "copy_conc_at N H T TC HC s"
  shows "length (cs_slots s) = N" "T \<le> H" "H < T + N"
    and "free_slots s (cs_tail_cached s) = N - 1 - (H - TC)" and "free_slots s (cs_tail s) = N - 1 - (H - T)"
    and "available s (cs_head_cached s) = HC - T" and "available s (cs_head s) = H - T"
    and "cs_writer s = WCopy xs i \<Longrightarrow> write_to s xs i = (H + i) mod N"
    and "cs_reader s = RCopy n got \<Longrightarrow> j < n \<Longrightarrow> read_from s n j = (T + j) mod N"
proof -
  note A = assms [unfolded copy_conc_at_def]
  show len: "length (cs_slots s) = N" using A by (simp add: copy_slots_ok_def)
  show ord: "T \<le> H" "H < T + N" using A by linarith+
  have idx: "cs_head s = H mod N" "cs_tail s = T mod N" "cs_tail_cached s = TC mod N" "cs_head_cached s = HC mod N"
    using A by simp_all
  have ord': "TC \<le> H" "H - TC < N" "H - T < N" "HC - T < N" "T \<le> HC" using A by linarith+
  note d = ring_distance_mod [where cap = N]
  show "free_slots s (cs_tail_cached s) = N - 1 - (H - TC)" using d [OF ord'(2) idx(3)] ord'(1) idx(1) by (simp add: len)
  show "free_slots s (cs_tail s) = N - 1 - (H - T)" "available s (cs_head s) = H - T"
    using d [OF ord'(3) idx(2)] ord(1) idx(1) by (simp_all add: len)
  show "available s (cs_head_cached s) = HC - T" using d [OF ord'(4) idx(2)] ord'(5) idx(4) by (simp add: len)
  show "write_to s xs i = (H + i) mod N" if "cs_writer s = WCopy xs i"
    using chunk_slot_mod [OF idx(1)] that A by (simp add: len writer_ok_def)
  show "read_from s n j = (T + j) mod N" if "cs_reader s = RCopy n got" "j < n"
    using chunk_slot_mod [OF idx(2) that(2)] that(1) A by (simp add: len reader_ok_def)
qed

context batch_index_strategy
begin

lemma wrap_mod:
  assumes "is_power_of_two N" "h = x mod N" "n < N"
  shows "wrap (h + n) N = Some ((x + n) mod N)"
proof -
  have "h < N" using assms by (simp add: is_power_of_two_def)
  then have "wrap (h + n) N = Some ((h + n) mod N)" using assms(1,3) by (intro wrap_far) simp_all
  then show ?thesis by (simp add: assms(2) mod_add_left_eq)
qed

lemma push_room_at:
  assumes at: "copy_conc_at N H T TC HC s" and pc: "cs_writer s = WLoadOne v nh" "nh \<noteq> cs_tail s"
  shows "copy_conc_at N H T T HC (s\<lparr> cs_tail_cached := cs_tail s, cs_writer := WCopy [v] 0 \<rparr>)"
proof -
  note A = at [unfolded copy_conc_at_def]
  have "Suc H < T + N" using A pc mod_lap [of T H N] copy_conc_distances(2,3) [OF at] by (auto simp: writer_ok_def)
  then show ?thesis using A pc by (simp add: copy_conc_defs)
qed

lemma push_start_at:
  assumes pow: "is_power_of_two N" and at: "copy_conc_at N H T TC HC s"
    and pc: "cs_writer s = WIdle" "wrap (cs_head s + 1) (length (cs_slots s)) = Some nh"
  shows "copy_conc_at N H T TC HC (s\<lparr> cs_writer := (if nh = cs_tail_cached s then WLoadOne v nh else WCopy [v] 0) \<rparr>)"
proof -
  note A = at [unfolded copy_conc_at_def]
  have nh: "nh = Suc H mod N" using wrap_next [OF pow, of "cs_head s" H] A pc copy_conc_distances(1) [OF at] by simp
  have "nh \<noteq> cs_tail_cached s \<Longrightarrow> Suc H < TC + N" using A nh mod_lap [of TC H N] by auto
  then show ?thesis using A pc nh by (simp add: copy_conc_defs)
qed

lemma batch_room_at:
  assumes at: "copy_conc_at N H T TC HC s" and pc: "cs_writer s = WLoadBatch src" "free_slots s (cs_tail s) \<noteq> 0"
  shows "copy_conc_at N H T T HC (s\<lparr> cs_tail_cached := cs_tail s,
    cs_writer := WCopy (take (min (length src) (free_slots s (cs_tail s))) src) 0 \<rparr>)"
proof -
  note A = at [unfolded copy_conc_at_def] and D = copy_conc_distances [OF at]
  define n where "n = min (length src) (free_slots s (cs_tail s))"
  have "0 < n" "n \<le> length src" "H + n < T + N" using A pc D(2,3) unfolding n_def D(5) by (auto simp: writer_ok_def)
  then have "copy_conc_at N H T T HC (s\<lparr> cs_tail_cached := cs_tail s, cs_writer := WCopy (take n src) 0 \<rparr>)"
    using A pc(1) by (simp add: copy_conc_defs)
  then show ?thesis by (simp only: n_def)
qed

lemma batch_start_at:
  assumes at: "copy_conc_at N H T TC HC s" and pc: "cs_writer s = WIdle" "src \<noteq> []"
  shows "copy_conc_at N H T TC HC (s\<lparr> cs_writer :=
    (if free_slots s (cs_tail_cached s) < length src then WLoadBatch src else WCopy src 0) \<rparr>)"
proof -
  note A = at [unfolded copy_conc_at_def] and D = copy_conc_distances [OF at]
  have "\<not> free_slots s (cs_tail_cached s) < length src \<Longrightarrow> H + length src < TC + N"
    using A pc(2) unfolding D(4) by (cases src) auto
  then show ?thesis using A pc by (simp add: copy_conc_defs)
qed

lemma copy_in_at:
  assumes at: "copy_conc_at N H T TC HC s" and pc: "cs_writer s = WCopy xs i"
  shows "copy_conc_at N H T TC HC (s\<lparr> cs_slots := (cs_slots s)[write_to s xs i := Some (xs ! i)],
    cs_writer := (if i + 1 = length xs then WPublish xs else WCopy xs (i + 1)) \<rparr>)"
proof -
  note A = at [unfolded copy_conc_at_def] and D = copy_conc_distances [OF at]
  let ?w = "cs_sent s @ take i xs"
  have i: "i < length xs" "H + length xs < TC + N" using A pc by (simp_all add: writer_ok_def)
  have len: "length ?w = H + i" using A i(1) by simp
  have "copy_slots_ok N T ?w (cs_slots s)" using A pc by (simp add: copied_def)
  then have ok: "copy_slots_ok N T (?w @ [xs ! i]) ((cs_slots s)[(H + i) mod N := Some (xs ! i)])"
    using copy_slots_ok_write [of N T ?w "cs_slots s" "xs ! i"] A i D(2) unfolding len by linarith
  let ?pc = "if i + 1 = length xs then WPublish xs else WCopy xs (i + 1)"
  have new: "copied ?pc = take i xs @ [xs ! i]"
    using i(1) take_Suc_conv_app_nth [OF i(1)] by (cases "i + 1 = length xs") (simp_all add: copied_def)
  have "writer_ok N H TC ?pc" using i by (cases "i + 1 = length xs") (simp_all add: writer_ok_def)
  moreover have "copy_slots_ok N T (cs_sent s @ copied ?pc) ((cs_slots s)[write_to s xs i := Some (xs ! i)])"
    unfolding new D(8) [OF pc] using ok by simp
  ultimately show ?thesis using A unfolding copy_conc_at_def by (simp)
qed

lemma publish_at:
  assumes pow: "is_power_of_two N" and at: "copy_conc_at N H T TC HC s"
    and pc: "cs_writer s = WPublish xs" "wrap (cs_head s + length xs) (length (cs_slots s)) = Some nh"
  shows "copy_conc_at N (H + length xs) T TC HC (s\<lparr> cs_head := nh, cs_writer := WIdle, cs_sent := cs_sent s @ xs \<rparr>)"
proof -
  note A = at [unfolded copy_conc_at_def] and D = copy_conc_distances [OF at]
  have room: "H + length xs < TC + N" using A pc(1) by (simp add: writer_ok_def)
  then have "length xs < N" using A by linarith
  then have nh: "nh = (H + length xs) mod N" using wrap_mod [OF pow, of "cs_head s" H "length xs"] A pc(2) D(1) by simp
  have "reader_ok T HC (cs_sent s @ xs) (cs_reader s)"
    using A by (cases "cs_reader s") (auto simp: reader_ok_def)
  then show ?thesis using A pc(1) room nh D(2) by (simp add: copy_conc_at_def writer_ok_def copied_def)
qed

lemma pop_start_at:
  assumes at: "copy_conc_at N H T TC HC s" and pc: "cs_reader s = RIdle"
  shows "copy_conc_at N H T TC HC (s\<lparr> cs_reader := (if cs_tail s = cs_head_cached s then RLoadOne else RCopy 1 []) \<rparr>)"
proof -
  note A = at [unfolded copy_conc_at_def]
  have "cs_tail s \<noteq> cs_head_cached s \<Longrightarrow> T < HC" using A by (cases "T = HC") auto
  then show ?thesis using A by (auto simp: copy_conc_defs Suc_le_eq)
qed

lemma pop_some_at:
  assumes at: "copy_conc_at N H T TC HC s" and pc: "cs_tail s \<noteq> cs_head s"
  shows "copy_conc_at N H T TC H (s\<lparr> cs_head_cached := cs_head s, cs_reader := RCopy 1 [] \<rparr>)"
proof -
  note A = at [unfolded copy_conc_at_def]
  have "T < H" using A pc by (cases "T = H") auto
  then show ?thesis using A by (simp add: copy_conc_defs)
qed

lemma take_start_at:
  assumes at: "copy_conc_at N H T TC HC s" and k: "0 < k"
  shows "copy_conc_at N H T TC HC (s\<lparr> cs_reader :=
    (if available s (cs_head_cached s) < k then RLoadBatch k else RCopy k []) \<rparr>)"
proof -
  note A = at [unfolded copy_conc_at_def]
  have "\<not> available s (cs_head_cached s) < k \<Longrightarrow> T + k \<le> HC"
    using A k unfolding copy_conc_distances(6) [OF at] by linarith
  then show ?thesis using A k by (simp add: copy_conc_defs)
qed

lemma take_some_at:
  assumes at: "copy_conc_at N H T TC HC s" and pc: "cs_reader s = RLoadBatch k" "available s (cs_head s) \<noteq> 0"
  shows "copy_conc_at N H T TC H (s\<lparr> cs_head_cached := cs_head s,
    cs_reader := RCopy (min k (available s (cs_head s))) [] \<rparr>)"
proof -
  note A = at [unfolded copy_conc_at_def] and D = copy_conc_distances [OF at]
  define n where "n = min k (available s (cs_head s))"
  have "0 < n" "T + n \<le> H" using A pc D(2) unfolding n_def D(7) by (auto simp: reader_ok_def)
  then have "copy_conc_at N H T TC H (s\<lparr> cs_head_cached := cs_head s, cs_reader := RCopy n [] \<rparr>)"
    using A D(2) by (simp add: copy_conc_defs)
  then show ?thesis by (simp only: n_def)
qed

text \<open>The slot a reader is about to read lies in the array and holds the next value of the stream.\<close>

lemma copy_out_slot:
  assumes at: "copy_conc_at N H T TC HC s" and pc: "cs_reader s = RCopy n got"
  shows "read_from s n (length got) < length (cs_slots s)"
    and "cs_slots s ! read_from s n (length got) = Some (cs_sent s ! (T + length got))"
    and "T + length got < length (cs_sent s)"
proof -
  note A = at [unfolded copy_conc_at_def] and D = copy_conc_distances [OF at]
  have n: "length got < n" "T + n \<le> HC" using A pc by (simp_all add: reader_ok_def)
  show lt: "T + length got < length (cs_sent s)" using A n by linarith
  show "read_from s n (length got) < length (cs_slots s)" using D(1-3) D(9) [OF pc n(1)] by simp
  show "cs_slots s ! read_from s n (length got) = Some (cs_sent s ! (T + length got))"
    unfolding D(9) [OF pc n(1)] using A lt by (simp add: copy_slots_ok_def nth_append)
qed

lemma copy_out_at:
  assumes at: "copy_conc_at N H T TC HC s" and pc: "cs_reader s = RCopy n got"
    and v: "cs_slots s ! read_from s n (length got) = Some v"
  shows "copy_conc_at N H T TC HC (s\<lparr> cs_reader :=
    (if length got + 1 = n then RPublish (got @ [v]) else RCopy n (got @ [v])) \<rparr>)"
proof -
  note A = at [unfolded copy_conc_at_def] and O = copy_out_slot [OF at pc]
  let ?pc = "if length got + 1 = n then RPublish (got @ [v]) else RCopy n (got @ [v])"
  have n: "length got < n" "T + n \<le> HC" "got = take (length got) (drop T (cs_sent s))"
    using A pc by (simp_all add: reader_ok_def)
  have "v = cs_sent s ! (T + length got)" using O(2) v by simp
  then have "got @ [v] = take (length (got @ [v])) (drop T (cs_sent s))"
    unfolding length_append_singleton by (metis take_drop_snoc [OF n(3) O(3)])
  then have "reader_ok T HC (cs_sent s) ?pc" using n(1,2) length_append_singleton [of got v]
    by (cases "length got + 1 = n") (auto simp: reader_ok_def simp del: length_append length_append_singleton)
  then show ?thesis using A by (simp add: copy_conc_at_def)
qed

lemma release_at:
  assumes pow: "is_power_of_two N" and at: "copy_conc_at N H T TC HC s"
    and pc: "cs_reader s = RPublish got" "wrap (cs_tail s + length got) (length (cs_slots s)) = Some nt"
  shows "copy_conc_at N H (T + length got) TC HC (s\<lparr> cs_tail := nt, cs_reader := RIdle, cs_recv := cs_recv s @ got \<rparr>)"
proof -
  note A = at [unfolded copy_conc_at_def] and D = copy_conc_distances [OF at]
  have n: "T + length got \<le> HC" "got = take (length got) (drop T (cs_sent s))" using A pc(1) by (simp_all add: reader_ok_def)
  have "length got < N" using A n(1) by linarith
  then have nt: "nt = (T + length got) mod N" using wrap_mod [OF pow, of "cs_tail s" T "length got"] A pc(2) D(1) by simp
  have "cs_recv s @ got = take (T + length got) (cs_sent s)" using A n(2) by (simp add: take_add)
  moreover have "copy_slots_ok N (T + length got) (cs_sent s @ copied (cs_writer s)) (cs_slots s)"
    using A by (simp add: copy_slots_ok_def)
  ultimately show ?thesis using A n(1) nt by (simp add: copy_conc_at_def reader_ok_def)
qed

text \<open>A copy into a slot never leaves the array.\<close>

lemma copy_in_slot:
  assumes "copy_conc_at N H T TC HC s" "cs_writer s = WCopy xs i"
  shows "write_to s xs i < length (cs_slots s)"
  using copy_conc_distances(1-3) [OF assms(1)] copy_conc_distances(8) [OF assms] by simp

theorem copy_step_at:
  assumes step: "copy_conc_step wrap s l s'" and pow: "is_power_of_two N" and at: "copy_conc_at N H T TC HC s"
  shows "\<exists>H' T' TC' HC'. copy_conc_at N H' T' TC' HC' s'"
  using step
proof cases
  case (push_full v nh)
  then have "copy_conc_at N H T T HC s'" using at by (auto simp: copy_conc_defs)
  then show ?thesis by blast
next
  case (batch_full src)
  then have "copy_conc_at N H T T HC s'" using at by (auto simp: copy_conc_defs)
  then show ?thesis by blast
next
  case pop_empty
  then have "copy_conc_at N H T TC H s'" using at by (auto simp: copy_conc_defs)
  then show ?thesis by blast
next
  case (take_empty k)
  then have "copy_conc_at N H T TC H s'" using at by (auto simp: copy_conc_defs)
  then show ?thesis by blast
next
  case (copy_in_ub xs i)
  then show ?thesis using copy_in_slot [OF at] by blast
next
  case (copy_out_ub n got)
  then show ?thesis using copy_out_slot(1,2) [OF at copy_out_ub(3)] by simp
next
  case (push_start nh v)
  then show ?thesis using push_start_at [OF pow at] by blast
next
  case (push_room v nh)
  then show ?thesis using push_room_at [OF at] by blast
next
  case (batch_start src)
  then show ?thesis using batch_start_at [OF at] by blast
next
  case (batch_room src)
  then show ?thesis using batch_room_at [OF at] by blast
next
  case (copy_in xs i)
  then show ?thesis using copy_in_at [OF at] by blast
next
  case (publish xs nh)
  then show ?thesis using publish_at [OF pow at] by blast
next
  case pop_start
  then show ?thesis using pop_start_at [OF at] by blast
next
  case pop_some
  then show ?thesis using pop_some_at [OF at] by blast
next
  case (take_start k)
  then show ?thesis using take_start_at [OF at] by blast
next
  case (take_some k)
  then show ?thesis using take_some_at [OF at] by blast
next
  case (copy_out n got v)
  then show ?thesis using copy_out_at [OF at] by blast
next
  case (release got nt)
  then show ?thesis using release_at [OF pow at] by blast
qed

theorem copy_reachable_at:
  assumes "copy_reachable wrap (replicate N None) s" "is_power_of_two N"
  shows "\<exists>H T TC HC. copy_conc_at N H T TC HC s"
  using assms(1)
proof induction
  case init
  show ?case using copy_init_at [OF assms(2)] by blast
next
  case (step s l s')
  then show ?case using copy_step_at [OF step(2) assms(2)] by blast
qed

text \<open>The positions from \<open>H + i\<close> a writer still fills and those from \<open>T\<close> a reader still reads fall into one window of
  \<open>N\<close> positions, so their slots differ.\<close>

lemma copy_slots_disjoint:
  assumes at: "copy_conc_at N H T TC HC s"
  shows "writer_slots s \<inter> reader_slots s = {}"
proof (rule ccontr)
  note A = at [unfolded copy_conc_at_def] and D = copy_conc_distances [OF at]
  assume "writer_slots s \<inter> reader_slots s \<noteq> {}"
  then obtain slot where slot: "slot \<in> writer_slots s" "slot \<in> reader_slots s" by blast
  then obtain xs i n got where pcs: "cs_writer s = WCopy xs i" "cs_reader s = RCopy n got"
    by (cases "cs_writer s"; cases "cs_reader s") (simp_all add: writer_slots_def reader_slots_def)
  with slot obtain a where a: "a < length xs" "slot = write_to s xs a" by (auto simp: writer_slots_def)
  from slot(2) pcs obtain b where b: "b < n" "slot = read_from s n b" by (auto simp: reader_slots_def)
  have ab: "a < length xs" "b < n" "write_to s xs a = read_from s n b" using a b by simp_all
  have bounds: "H + length xs < TC + N" "T + n \<le> HC" using A pcs by (simp_all add: writer_ok_def reader_ok_def)
  have w: "write_to s xs a = (H + a) mod N"
    using chunk_slot_mod [of "cs_head s" H N a "length xs"] A ab(1) bounds(1) D(1) by simp
  have "(H + a) mod N = (T + b) mod N" using ab(3) w D(9) [OF pcs(2) ab(2)] by simp
  moreover have "T \<le> H + a" "H + a < T + N" "T + b < T + N" using A ab bounds D(2,3) by linarith+
  ultimately have "H + a = T + b" using mod_window_eq [of T "H + a" N "T + b"] by simp
  then show False using A ab(2) bounds(2) by linarith
qed

lemma copy_safe:
  assumes "copy_reachable wrap (replicate N None) s" "is_power_of_two N"
  shows "\<not> cs_ub s" "prefix (cs_recv s) (cs_sent s)" "length (cs_sent s) < length (cs_recv s) + N"
    and "writer_slots s \<inter> reader_slots s = {}"
proof -
  obtain H T TC HC where at: "copy_conc_at N H T TC HC s" using copy_reachable_at [OF assms] by blast
  note A = at [unfolded copy_conc_at_def]
  show "\<not> cs_ub s" "prefix (cs_recv s) (cs_sent s)" using A by (auto intro: take_is_prefix)
  show "length (cs_sent s) < length (cs_recv s) + N" using A by linarith
  show "writer_slots s \<inter> reader_slots s = {}" by (rule copy_slots_disjoint [OF at])
qed

lemma copy_full_truthful:
  assumes reach: "copy_reachable wrap (replicate N None) s" "is_power_of_two N" and step: "copy_conc_step wrap s CFull s'"
  shows "length (cs_sent s) = length (cs_recv s) + (N - 1)"
proof -
  obtain H T TC HC where at: "copy_conc_at N H T TC HC s" using copy_reachable_at [OF reach] by blast
  note A = at [unfolded copy_conc_at_def] and D = copy_conc_distances [OF at]
  from step show ?thesis
  proof cases
    case (push_full v nh)
    then have "Suc H mod N = T mod N" using A by (simp add: writer_ok_def)
    then have "\<not> Suc H < T + N" using mod_lap [of T H N] D(2,3) by auto
    then show ?thesis using A D(2,3) by linarith
  next
    case (batch_full src)
    then show ?thesis using A D(2,3,5) by linarith
  qed
qed

lemma copy_empty_truthful:
  assumes reach: "copy_reachable wrap (replicate N None) s" "is_power_of_two N" and step: "copy_conc_step wrap s CEmpty s'"
  shows "cs_recv s = cs_sent s"
proof -
  obtain H T TC HC where at: "copy_conc_at N H T TC HC s" using copy_reachable_at [OF reach] by blast
  note A = at [unfolded copy_conc_at_def] and D = copy_conc_distances [OF at]
  from step have "T = H"
  proof cases
    case pop_empty
    then show ?thesis using A D(2,3) mod_window_eq [of T T N H] by auto
  next
    case (take_empty k)
    then show ?thesis using D(2,7) by linarith
  qed
  then show ?thesis using A by simp
qed

end

section \<open>Property\<close>

text \<open>C19. Whatever the interleaving of the two threads' single and batch operations on the copy ring: no access leaves
  the array or reads a slot that was never written; what was received is a prefix of what was sent, with fewer than
  \<open>N\<close> values in flight; no slot the writer has still to fill is one the reader has still to read, the two chunks of a
  wrapped batch included; and an operation that reports no room or no value does so only when the ring holds
  \<open>N - 1\<close> values, respectively none.\<close>

theorem copy_concurrent_safe:
  assumes reach: "copy_reachable (pow2_masked_wrap dbg) (replicate N None) s" and pow: "is_power_of_two N"
  shows "\<not> cs_ub s \<and> prefix (cs_recv s) (cs_sent s) \<and> length (cs_sent s) < length (cs_recv s) + N \<and>
    writer_slots s \<inter> reader_slots s = {} \<and>
    (\<forall>s'. copy_conc_step (pow2_masked_wrap dbg) s CFull s' \<longrightarrow> length (cs_sent s) = length (cs_recv s) + (N - 1)) \<and>
    (\<forall>s'. copy_conc_step (pow2_masked_wrap dbg) s CEmpty s' \<longrightarrow> cs_recv s = cs_sent s)"
  using pow2.copy_safe [OF assms] pow2.copy_full_truthful [OF assms] pow2.copy_empty_truthful [OF assms] by blast

text \<open>Four slots: a batch of three fills the ring; the reader is about to copy two of its values out while the writer is
  about to find that there is no room for a fourth.\<close>

abbreviation four_slots :: "usize \<Rightarrow> nat slots \<Rightarrow> nat writer_pc \<Rightarrow> nat reader_pc \<Rightarrow> nat list \<Rightarrow> usize \<Rightarrow> nat CopyState" where
  "four_slots head slots w r sent cached \<equiv> \<lparr> cs_head = head, cs_tail = 0, cs_slots = slots, cs_tail_cached = 0,
     cs_head_cached = cached, cs_writer = w, cs_reader = r, cs_sent = sent, cs_recv = [], cs_ub = False \<rparr>"

definition four_slots_full :: "nat CopyState" where
  "four_slots_full = four_slots 3 [Some 7, Some 8, Some 9, None] (WLoadBatch [4]) (RCopy 2 []) [7, 8, 9] 3"

lemma four_slots_full_reachable: "copy_reachable (pow2_masked_wrap True) (replicate 4 None) four_slots_full"
proof -
  let ?w = "pow2_masked_wrap True" and ?b = "[7, 8, 9 :: nat]" and ?full = "[Some 7, Some 8, Some 9, None] :: nat slots"
  let ?R = "copy_reachable ?w (replicate 4 None :: nat slots)"
  have wrap3: "?w 3 4 = Some 3" by code_simp
  note run = copy_reachable.step [where wrap = ?w and storage = "replicate 4 None :: nat slots"]
  note calc = copy_init_def ring_distance_def chunk_slot_def Let_def eval_nat_numeral
  have "?R (copy_init (replicate 4 None))" by (rule copy_reachable.init)
  from run [OF this copy_conc_step.batch_start [where src = ?b]]
  have "?R (four_slots 0 [None, None, None, None] (WCopy ?b 0) RIdle [] 0)" by (simp add: calc)
  from run [OF this copy_conc_step.copy_in]
  have "?R (four_slots 0 [Some 7, None, None, None] (WCopy ?b 1) RIdle [] 0)" by (simp add: calc)
  from run [OF this copy_conc_step.copy_in]
  have "?R (four_slots 0 [Some 7, Some 8, None, None] (WCopy ?b 2) RIdle [] 0)" by (simp add: calc)
  from run [OF this copy_conc_step.copy_in]
  have "?R (four_slots 0 ?full (WPublish ?b) RIdle [] 0)" by (simp add: calc)
  from run [OF this copy_conc_step.publish [where new_head = 3]] wrap3
  have "?R (four_slots 3 ?full WIdle RIdle ?b 0)" by (simp add: eval_nat_numeral)
  from run [OF this copy_conc_step.take_start [where k = 2]]
  have "?R (four_slots 3 ?full WIdle (RLoadBatch 2) ?b 0)" by (simp add: calc)
  from run [OF this copy_conc_step.take_some]
  have "?R (four_slots 3 ?full WIdle (RCopy 2 []) ?b 3)" by (simp add: calc)
  from run [OF this copy_conc_step.batch_start [where src = "[4]"]]
  show ?thesis by (simp add: calc four_slots_full_def)
qed

theorem copy_concurrent_safe_witness:
  "copy_conc_step (pow2_masked_wrap True) four_slots_full CFull (four_slots_full\<lparr> cs_writer := WIdle \<rparr>) \<and>
   length (cs_sent four_slots_full) = length (cs_recv four_slots_full) + 3 \<and>
   writer_slots four_slots_full \<inter> reader_slots four_slots_full = {} \<and>
   prefix (cs_recv four_slots_full) (cs_sent four_slots_full)"
proof -
  have "copy_conc_step (pow2_masked_wrap True) four_slots_full CFull (four_slots_full\<lparr> cs_writer := WIdle \<rparr>)"
    using copy_conc_step.batch_full [of four_slots_full "[4]" "pow2_masked_wrap True"]
    by (simp add: four_slots_full_def ring_distance_def)
  moreover have "is_power_of_two 4" using power_of_two_mask [of 2] by simp
  ultimately show ?thesis using copy_concurrent_safe [OF four_slots_full_reachable] by fastforce
qed

end
