(* ===== verification/Ring_Handles.thy ===== *)
theory Ring_Handles
  imports Copy_Ring
begin

text \<open>
  The public faces of the two rings (\<open>crates/queue/src/handle.rs\<close>, \<open>copy_ring/handle.rs\<close>, \<open>copy_ring/mod.rs\<close>,
  \<open>presets.rs\<close>): the unsplit \<open>RawRing\<close> and its presets, and the producer and consumer handles that share an
  engine through an \<open>Arc\<close>. Calls and drops of the two handles interleave in any order, as a step relation;
  the locale \<open>shared_engine\<close> proves once that the engine is freed exactly when the second handle goes.
\<close>

section \<open>Unsplit rings\<close>

record ('a, 'i) RawRing =
  raw_engine :: "('a, 'i) RingEngine"

definition raw_with_strategies :: "'a slots \<Rightarrow> 'i \<Rightarrow> ('a, 'i) RawRing" where
  "raw_with_strategies storage instr = \<lparr> raw_engine = ring_new storage instr \<rparr>"

definition raw_try_push :: "'i RingCfg \<Rightarrow> 'a \<Rightarrow> ('a, 'i) RawRing \<Rightarrow> (('a PushError + unit) \<times> ('a, 'i) RawRing) panics" where
  "raw_try_push cfg value self =
     do { (res, e) \<leftarrow> ring_try_push cfg value (raw_engine self); Some (res, self\<lparr> raw_engine := e \<rparr>) }"

definition raw_try_pop :: "'i RingCfg \<Rightarrow> ('a, 'i) RawRing \<Rightarrow> ((QueueError + 'a) \<times> ('a, 'i) RawRing) panics" where
  "raw_try_pop cfg self =
     do { (res, e) \<leftarrow> ring_try_pop cfg (raw_engine self); Some (res, self\<lparr> raw_engine := e \<rparr>) }"

definition raw_push :: "'i RingCfg \<Rightarrow> 'a \<Rightarrow> ('a, 'i) RawRing \<Rightarrow> (bool \<times> ('a, 'i) RawRing) panics" where
  "raw_push cfg value self =
     do { (ok, e) \<leftarrow> ring_push cfg value (raw_engine self); Some (ok, self\<lparr> raw_engine := e \<rparr>) }"

text \<open>The buffer \<open>out\<close> is written on success only.\<close>

definition raw_pop_into :: "'i RingCfg \<Rightarrow> 'a \<Rightarrow> ('a, 'i) RawRing \<Rightarrow> (bool \<times> 'a \<times> ('a, 'i) RawRing) panics" where
  "raw_pop_into cfg out self =
     do {
       (v, e) \<leftarrow> ring_pop cfg (raw_engine self);
       Some (case v of None \<Rightarrow> (False, out, self\<lparr> raw_engine := e \<rparr>) | Some x \<Rightarrow> (True, x, self\<lparr> raw_engine := e \<rparr>))
     }"

definition raw_len :: "('a, 'i) RawRing \<Rightarrow> usize" where
  "raw_len self = ring_len (raw_engine self)"

definition raw_is_empty :: "('a, 'i) RawRing \<Rightarrow> bool" where
  "raw_is_empty self \<longleftrightarrow> ring_is_empty (raw_engine self)"

definition raw_capacity :: "('a, 'i) RawRing \<Rightarrow> usize" where
  "raw_capacity self = ring_capacity (raw_engine self)"

definition raw_instrumentation :: "('a, 'i) RawRing \<Rightarrow> 'i" where
  "raw_instrumentation self = rg_instr (raw_engine self)"

text \<open>The constructors of the presets; \<open>masked_cfg\<close> and \<open>branch_cfg\<close> are the strategies their type aliases fix.\<close>

definition SpscRing_new :: "nat \<Rightarrow> ('a, unit) RawRing panics" where
  "SpscRing_new N = do { s \<leftarrow> inline_storage_new N; Some (raw_with_strategies s ()) }"

definition SpscRingFast_new :: "nat \<Rightarrow> ('a, unit) RawRing panics" where
  "SpscRingFast_new N = do { s \<leftarrow> inline_storage_new N; Some (raw_with_strategies s ()) }"

definition SpscRingHeap_with_capacity :: "usize \<Rightarrow> ('a, unit) RawRing panics" where
  "SpscRingHeap_with_capacity capacity = do { s \<leftarrow> heap_storage_new capacity; Some (raw_with_strategies s ()) }"

definition SpscRingInstrumented_new :: "nat \<Rightarrow> ('a, CountingInstr) RawRing panics" where
  "SpscRingInstrumented_new N = do { s \<leftarrow> inline_storage_new N; Some (raw_with_strategies s counting_new) }"

section \<open>Unsplit copy rings\<close>

record ('a, 'i) RawRingCopy =
  rawc_engine :: "('a, 'i) RingEngine"

definition rawc_with_strategies :: "'a slots \<Rightarrow> 'i \<Rightarrow> ('a, 'i) RawRingCopy" where
  "rawc_with_strategies storage instr = \<lparr> rawc_engine = ring_new storage instr \<rparr>"

definition rawc_push :: "'i RingCfg \<Rightarrow> 'a \<Rightarrow> ('a, 'i) RawRingCopy \<Rightarrow> (bool \<times> ('a, 'i) RawRingCopy) panics" where
  "rawc_push cfg value self =
     do { (ok, e) \<leftarrow> copy_push cfg value (rawc_engine self); Some (ok, self\<lparr> rawc_engine := e \<rparr>) }"

definition rawc_pop :: "'i RingCfg \<Rightarrow> 'a \<Rightarrow> ('a, 'i) RawRingCopy \<Rightarrow> (bool \<times> 'a \<times> ('a, 'i) RawRingCopy) panics" where
  "rawc_pop cfg out self =
     do {
       (v, e) \<leftarrow> copy_pop cfg (rawc_engine self);
       Some (case v of None \<Rightarrow> (False, out, self\<lparr> rawc_engine := e \<rparr>) | Some x \<Rightarrow> (True, x, self\<lparr> rawc_engine := e \<rparr>))
     }"

definition rawc_push_batch :: "'i RingCfg \<Rightarrow> 'a list \<Rightarrow> ('a, 'i) RawRingCopy \<Rightarrow> (usize \<times> ('a, 'i) RawRingCopy) panics" where
  "rawc_push_batch cfg src self =
     do { (n, e) \<leftarrow> copy_push_batch cfg src (rawc_engine self); Some (n, self\<lparr> rawc_engine := e \<rparr>) }"

definition rawc_pop_batch :: "'i RingCfg \<Rightarrow> 'a list \<Rightarrow> ('a, 'i) RawRingCopy \<Rightarrow> (usize \<times> 'a list \<times> ('a, 'i) RawRingCopy) panics" where
  "rawc_pop_batch cfg dst self =
     do { (n, dst', e) \<leftarrow> copy_pop_batch cfg dst (rawc_engine self); Some (n, dst', self\<lparr> rawc_engine := e \<rparr>) }"

definition rawc_len :: "('a, 'i) RawRingCopy \<Rightarrow> usize" where
  "rawc_len self = copy_len (rawc_engine self)"

definition rawc_capacity :: "('a, 'i) RawRingCopy \<Rightarrow> usize" where
  "rawc_capacity self = ring_capacity (rawc_engine self)"

definition rawc_is_empty :: "('a, 'i) RawRingCopy \<Rightarrow> bool" where
  "rawc_is_empty self \<longleftrightarrow> copy_len (rawc_engine self) = 0"

definition SpscRingCopy_new :: "nat \<Rightarrow> ('a, unit) RawRingCopy panics" where
  "SpscRingCopy_new N = do { s \<leftarrow> inline_storage_new N; Some (rawc_with_strategies s ()) }"

definition SpscRingCopyHeap_with_capacity :: "usize \<Rightarrow> ('a, unit) RawRingCopy panics" where
  "SpscRingCopyHeap_with_capacity capacity = do { s \<leftarrow> heap_storage_new capacity; Some (rawc_with_strategies s ()) }"

definition SpscRingCopyInstrumented_new :: "nat \<Rightarrow> ('a, CountingInstr) RawRingCopy panics" where
  "SpscRingCopyInstrumented_new N = do { s \<leftarrow> inline_storage_new N; Some (rawc_with_strategies s counting_new) }"

section \<open>Handles\<close>

text \<open>
  An engine behind an \<open>Arc\<close>: \<open>None\<close> once it is freed, the strong count, and which of the two handles still
  exist. A call through a handle uses the engine; a use after it was freed has no result, nor has a drop when
  the count is zero.
\<close>

record 'e Split =
  sp_engine :: "'e option"
  sp_strong :: nat
  sp_tx :: bool
  sp_rx :: bool

definition arc_split :: "'e \<Rightarrow> 'e Split" where
  "arc_split e = \<lparr> sp_engine = Some e, sp_strong = 2, sp_tx = True, sp_rx = True \<rparr>"

definition with_engine :: "('e \<Rightarrow> ('r \<times> 'e) panics) \<Rightarrow> 'e Split \<Rightarrow> ('r \<times> 'e Split) panics" where
  "with_engine f s =
     do { e \<leftarrow> sp_engine s; (r, e') \<leftarrow> f e; Some (r, s\<lparr> sp_engine := Some e' \<rparr>) }"

definition arc_drop :: "('e \<Rightarrow> 'v list panics) \<Rightarrow> 'e Split \<Rightarrow> ('v list \<times> 'e Split) panics" where
  "arc_drop finish s =
     (if sp_strong s = 0 then None
      else if sp_strong s = 1
      then do { e \<leftarrow> sp_engine s; vs \<leftarrow> finish e; Some (vs, s\<lparr> sp_engine := None, sp_strong := 0 \<rparr>) }
      else Some ([], s\<lparr> sp_strong := sp_strong s - 1 \<rparr>))"

definition drop_producer :: "('e \<Rightarrow> 'v list panics) \<Rightarrow> 'e Split \<Rightarrow> ('v list \<times> 'e Split) panics" where
  "drop_producer finish s = do { (vs, s') \<leftarrow> arc_drop finish s; Some (vs, s'\<lparr> sp_tx := False \<rparr>) }"

definition drop_consumer :: "('e \<Rightarrow> 'v list panics) \<Rightarrow> 'e Split \<Rightarrow> ('v list \<times> 'e Split) panics" where
  "drop_consumer finish s = do { (vs, s') \<leftarrow> arc_drop finish s; Some (vs, s'\<lparr> sp_rx := False \<rparr>) }"

definition spsc_ring :: "nat \<Rightarrow> ('a, unit) RingEngine Split panics" where
  "spsc_ring N = do { s \<leftarrow> inline_storage_new N; Some (arc_split (ring_new s ())) }"

definition spsc_ring_heap :: "usize \<Rightarrow> ('a, unit) RingEngine Split panics" where
  "spsc_ring_heap capacity = do { s \<leftarrow> heap_storage_new capacity; Some (arc_split (ring_new s ())) }"

definition spsc_ring_copy :: "nat \<Rightarrow> ('a, unit) RingEngine Split panics" where
  "spsc_ring_copy N = do { s \<leftarrow> inline_storage_new N; Some (arc_split (ring_new s ())) }"

definition spsc_ring_copy_heap :: "usize \<Rightarrow> ('a, unit) RingEngine Split panics" where
  "spsc_ring_copy_heap capacity = do { s \<leftarrow> heap_storage_new capacity; Some (arc_split (ring_new s ())) }"

text \<open>The methods of \<open>Producer\<close> and \<open>Consumer\<close>, one command each.\<close>

datatype 'a ring_cmd = TryPush 'a | FlagPush 'a | TryPop | PopInto 'a

datatype 'a ring_res = TryPushed "'a PushError + unit" | FlagPushed bool | TryPopped "QueueError + 'a" | PoppedInto bool 'a

definition producer_try_push :: "'i RingCfg \<Rightarrow> 'a \<Rightarrow> ('a, 'i) RingEngine Split \<Rightarrow>
    (('a PushError + unit) \<times> ('a, 'i) RingEngine Split) panics" where
  "producer_try_push cfg value = with_engine (ring_try_push cfg value)"

definition producer_push :: "'i RingCfg \<Rightarrow> 'a \<Rightarrow> ('a, 'i) RingEngine Split \<Rightarrow> (bool \<times> ('a, 'i) RingEngine Split) panics" where
  "producer_push cfg value = with_engine (ring_push cfg value)"

definition consumer_try_pop :: "'i RingCfg \<Rightarrow> ('a, 'i) RingEngine Split \<Rightarrow>
    ((QueueError + 'a) \<times> ('a, 'i) RingEngine Split) panics" where
  "consumer_try_pop cfg = with_engine (ring_try_pop cfg)"

definition consumer_pop_into :: "'i RingCfg \<Rightarrow> 'a \<Rightarrow> ('a, 'i) RingEngine Split \<Rightarrow>
    ((bool \<times> 'a) \<times> ('a, 'i) RingEngine Split) panics" where
  "consumer_pop_into cfg out = with_engine (\<lambda>e. do {
     (v, e') \<leftarrow> ring_pop cfg e;
     Some (case v of None \<Rightarrow> (False, out) | Some x \<Rightarrow> (True, x), e') })"

fun ring_call :: "'i RingCfg \<Rightarrow> 'a ring_cmd \<Rightarrow> ('a, 'i) RingEngine Split \<Rightarrow>
    ('a ring_res \<times> ('a, 'i) RingEngine Split) panics" where
  "ring_call cfg (TryPush v) s = do { (r, s') \<leftarrow> producer_try_push cfg v s; Some (TryPushed r, s') }"
| "ring_call cfg (FlagPush v) s = do { (r, s') \<leftarrow> producer_push cfg v s; Some (FlagPushed r, s') }"
| "ring_call cfg TryPop s = do { (r, s') \<leftarrow> consumer_try_pop cfg s; Some (TryPopped r, s') }"
| "ring_call cfg (PopInto out) s = do { ((ok, v), s') \<leftarrow> consumer_pop_into cfg out s; Some (PoppedInto ok v, s') }"

fun ring_needs_tx :: "'a ring_cmd \<Rightarrow> bool" where
  "ring_needs_tx (TryPush v) = True"
| "ring_needs_tx (FlagPush v) = True"
| "ring_needs_tx TryPop = False"
| "ring_needs_tx (PopInto out) = False"

definition ring_finish :: "'i RingCfg \<Rightarrow> ('a, 'i) RingEngine \<Rightarrow> 'a list panics" where
  "ring_finish cfg e = map_option fst (ring_drop cfg e)"

text \<open>\<open>ProducerCopy\<close> and \<open>ConsumerCopy\<close>; a copy ring has no destructor.\<close>

definition copy_call :: "'i RingCfg \<Rightarrow> 'a copy_cmd \<Rightarrow> ('a, 'i) RingEngine Split \<Rightarrow>
    ('a copy_res \<times> ('a, 'i) RingEngine Split) panics" where
  "copy_call cfg c = with_engine (copy_step cfg c)"

fun copy_needs_tx :: "'a copy_cmd \<Rightarrow> bool" where
  "copy_needs_tx (CPush v) = True"
| "copy_needs_tx CPop = False"
| "copy_needs_tx (CPushBatch xs) = True"
| "copy_needs_tx (CPopBatch dst) = False"

definition copy_finish :: "('a, 'i) RingEngine \<Rightarrow> 'a list panics" where
  "copy_finish e = Some []"

text \<open>The two handles, interleaved: a call through a handle that exists, or its drop.\<close>

datatype ('c, 'r, 'v) split_event = Call 'c 'r | DropTx "'v list" | DropRx "'v list"

inductive split_steps ::
  "('c \<Rightarrow> 'e Split \<Rightarrow> ('r \<times> 'e Split) panics) \<Rightarrow> ('c \<Rightarrow> bool) \<Rightarrow> ('e \<Rightarrow> 'v list panics) \<Rightarrow>
     'e Split \<Rightarrow> ('c, 'r, 'v) split_event list \<Rightarrow> 'e Split \<Rightarrow> bool"
  for call needs_tx finish s0 where
  start: "split_steps call needs_tx finish s0 [] s0"
| call: "split_steps call needs_tx finish s0 es s \<Longrightarrow> (if needs_tx c then sp_tx s else sp_rx s) \<Longrightarrow>
     call c s = Some (r, s') \<Longrightarrow> split_steps call needs_tx finish s0 (es @ [Call c r]) s'"
| drop_tx: "split_steps call needs_tx finish s0 es s \<Longrightarrow> sp_tx s \<Longrightarrow>
     drop_producer finish s = Some (vs, s') \<Longrightarrow> split_steps call needs_tx finish s0 (es @ [DropTx vs]) s'"
| drop_rx: "split_steps call needs_tx finish s0 es s \<Longrightarrow> sp_rx s \<Longrightarrow>
     drop_consumer finish s = Some (vs, s') \<Longrightarrow> split_steps call needs_tx finish s0 (es @ [DropRx vs]) s'"

section \<open>Replaying a trace\<close>

text \<open>The results of the calls against a reference on lists (\<open>None\<close> when one differs), and the values that drops
  released.\<close>

fun replay :: "('c \<Rightarrow> 'a list \<Rightarrow> 'r \<times> 'a list) \<Rightarrow> ('c, 'r, 'v) split_event list \<Rightarrow> 'a list \<Rightarrow> 'a list option" where
  "replay ref [] q = Some q"
| "replay ref (Call c r # es) q = (if fst (ref c q) = r then replay ref es (snd (ref c q)) else None)"
| "replay ref (DropTx vs # es) q = replay ref es q"
| "replay ref (DropRx vs # es) q = replay ref es q"

fun released :: "('c, 'r, 'v) split_event list \<Rightarrow> 'v list" where
  "released [] = []"
| "released (Call c r # es) = released es"
| "released (DropTx vs # es) = vs @ released es"
| "released (DropRx vs # es) = vs @ released es"

lemma replay_append: "replay ref (es @ fs) q = (case replay ref es q of None \<Rightarrow> None | Some q' \<Rightarrow> replay ref fs q')"
  by (induction ref es q rule: replay.induct) simp_all

lemma released_append [simp]: "released (es @ fs) = released es @ released fs"
  by (induction es rule: released.induct) simp_all

section \<open>A shared engine\<close>

locale shared_engine =
  fixes rep :: "'e \<Rightarrow> 'a list \<Rightarrow> bool"
    and call :: "'c \<Rightarrow> 'e Split \<Rightarrow> ('r \<times> 'e Split) option"
    and needs_tx :: "'c \<Rightarrow> bool"
    and finish :: "'e \<Rightarrow> 'a list option"
    and ref :: "'c \<Rightarrow> 'a list \<Rightarrow> 'r \<times> 'a list"
    and owned :: bool
  assumes call_ok: "sp_engine s = Some e \<Longrightarrow> rep e q \<Longrightarrow>
      \<exists>e'. call c s = Some (fst (ref c q), s\<lparr> sp_engine := Some e' \<rparr>) \<and> rep e' (snd (ref c q))"
    and finish_ok: "rep e q \<Longrightarrow> finish e = Some (if owned then q else [])"
begin

text \<open>While a handle is left the engine is there and represents what the reference has queued; after the last
  drop it is freed, and that drop released what was queued.\<close>

lemma steps_inv:
  assumes "split_steps call needs_tx finish (arc_split e0) es s" "rep e0 q0"
  shows "\<exists>q. replay ref es q0 = Some q \<and> sp_strong s = of_bool (sp_tx s) + of_bool (sp_rx s) \<and>
    (if sp_tx s \<or> sp_rx s then released es = [] \<and> (\<exists>e. sp_engine s = Some e \<and> rep e q)
     else sp_engine s = None \<and> released es = (if owned then q else []))"
  using assms(1)
proof (induction rule: split_steps.induct)
  case start
  then show ?case using assms(2) by (simp add: arc_split_def)
next
  case (call es s c r s')
  have live: "sp_tx s \<or> sp_rx s" using call.hyps(2) by (simp split: if_splits)
  then obtain q e where q: "replay ref es q0 = Some q" "sp_strong s = of_bool (sp_tx s) + of_bool (sp_rx s)"
    "released es = []" "sp_engine s = Some e" "rep e q" using call.IH by auto
  obtain e' where "call c s = Some (fst (ref c q), s\<lparr> sp_engine := Some e' \<rparr>)" "rep e' (snd (ref c q))"
    using call_ok [OF q(4,5)] by blast
  with q live call.hyps(3) show ?case by (auto simp: replay_append)
next
  case (drop_tx es s vs s')
  then obtain q e where q: "replay ref es q0 = Some q" "sp_strong s = 1 + of_bool (sp_rx s)"
    "released es = []" "sp_engine s = Some e" "rep e q" by auto
  with drop_tx.hyps(2,3) finish_ok [OF q(5)] show ?case
    by (cases "sp_rx s") (auto simp: replay_append drop_producer_def arc_drop_def)
next
  case (drop_rx es s vs s')
  then obtain q e where q: "replay ref es q0 = Some q" "sp_strong s = of_bool (sp_tx s) + 1"
    "released es = []" "sp_engine s = Some e" "rep e q" by auto
  with drop_rx.hyps(2,3) finish_ok [OF q(5)] show ?case
    by (cases "sp_tx s") (auto simp: replay_append drop_consumer_def arc_drop_def)
qed

text \<open>No call through a live handle and no drop of one goes wrong.\<close>

lemma never_stuck:
  assumes "split_steps call needs_tx finish (arc_split e0) es s" "rep e0 q0"
  shows "(if needs_tx c then sp_tx s else sp_rx s) \<longrightarrow> (\<exists>r s'. call c s = Some (r, s'))"
    and "sp_tx s \<longrightarrow> (\<exists>vs s'. drop_producer finish s = Some (vs, s'))"
    and "sp_rx s \<longrightarrow> (\<exists>vs s'. drop_consumer finish s = Some (vs, s'))"
proof -
  from steps_inv [OF assms] obtain q where
    n: "sp_strong s = of_bool (sp_tx s) + of_bool (sp_rx s)" and
    e: "sp_tx s \<or> sp_rx s \<Longrightarrow> \<exists>e. sp_engine s = Some e \<and> rep e q" by (auto split: if_splits)
  show "(if needs_tx c then sp_tx s else sp_rx s) \<longrightarrow> (\<exists>r s'. call c s = Some (r, s'))"
    using e call_ok [of s _ q c] by (auto split: if_splits)
  show "sp_tx s \<longrightarrow> (\<exists>vs s'. drop_producer finish s = Some (vs, s'))"
    and "sp_rx s \<longrightarrow> (\<exists>vs s'. drop_consumer finish s = Some (vs, s'))"
    using n e finish_ok by (auto simp: drop_producer_def drop_consumer_def arc_drop_def)
qed

end

section \<open>Both rings provide it\<close>

fun ring_ref :: "nat \<Rightarrow> 'a ring_cmd \<Rightarrow> 'a list \<Rightarrow> 'a ring_res \<times> 'a list" where
  "ring_ref b (TryPush v) q = (TryPushed (if length q < b then Inr () else Inl (Full v)), if length q < b then q @ [v] else q)"
| "ring_ref b (FlagPush v) q = (FlagPushed (length q < b), if length q < b then q @ [v] else q)"
| "ring_ref b TryPop q = (TryPopped (case q of [] \<Rightarrow> Inl QueueEmpty | v # _ \<Rightarrow> Inr v), tl q)"
| "ring_ref b (PopInto out) q = (case q of [] \<Rightarrow> PoppedInto False out | v # _ \<Rightarrow> PoppedInto True v, tl q)"

lemma ring_shared_engine:
  fixes cfg :: "'i RingCfg"
  assumes "ring_config cfg"
  shows "shared_engine (\<lambda>e q. ring_rep cfg e q \<and> ring_capacity e = b) (ring_call cfg) (ring_finish cfg) (ring_ref b) True"
proof unfold_locales
  fix s :: "('a, 'i) RingEngine Split" and e q c
  assume e: "sp_engine s = Some e" and rep: "ring_rep cfg e q \<and> ring_capacity e = b"
  note push = ring_config.try_push_rep [OF assms conjunct1 [OF rep]] and pop = ring_config.try_pop_rep [OF assms conjunct1 [OF rep]]
  note defs = producer_try_push_def producer_push_def consumer_try_pop_def consumer_pop_into_def with_engine_def e
    ring_push_eq_try_push ring_pop_eq_try_pop ring_capacity_def
  show "\<exists>e'. ring_call cfg c s = Some (fst (ring_ref b c q), s\<lparr> sp_engine := Some e' \<rparr>) \<and>
      ring_rep cfg e' (snd (ring_ref b c q)) \<and> ring_capacity e' = b"
  proof (cases c)
    case (TryPush v)
    with push [of v] rep show ?thesis by (auto simp: defs)
  next
    case (FlagPush v)
    with push [of v] rep show ?thesis by (auto simp: defs)
  next
    case TryPop
    with pop rep show ?thesis by (auto simp: defs)
  next
    case (PopInto out)
    with pop rep show ?thesis by (cases q) (auto simp: defs)
  qed
next
  fix e and q :: "'a list"
  assume "ring_rep cfg e q \<and> ring_capacity e = b"
  then show "ring_finish cfg e = Some (if True then q else [])"
    using ring_config.drop_rep [OF assms] by (auto simp: ring_finish_def)
qed

interpretation ring_handles: shared_engine
  "\<lambda>e q. ring_rep (masked_cfg dbg ins arm) e q \<and> ring_capacity e = b"
  "ring_call (masked_cfg dbg ins arm)" ring_needs_tx "ring_finish (masked_cfg dbg ins arm)" "ring_ref b" True
  by (rule ring_shared_engine) (rule masked_ring.ring_config_axioms)

interpretation copy_handles: shared_engine
  "\<lambda>e q. copy_rep (masked_cfg dbg ins arm) e q \<and> ring_capacity e = b"
  "copy_call (masked_cfg dbg ins arm)" copy_needs_tx copy_finish "copy_ref_step b" False
proof unfold_locales
  fix s :: "('a, 'b) RingEngine Split" and e q c
  assume "sp_engine s = Some e" and "copy_rep (masked_cfg dbg ins arm) e q \<and> ring_capacity e = b"
  then show "\<exists>e'. copy_call (masked_cfg dbg ins arm) c s =
        Some (fst (copy_ref_step b c q), s\<lparr> sp_engine := Some e' \<rparr>) \<and>
      copy_rep (masked_cfg dbg ins arm) e' (snd (copy_ref_step b c q)) \<and> ring_capacity e' = b"
    using copy_step_ref [OF masked_copy_ring.copy_ring_config_axioms, of dbg ins arm e q c]
    by (auto simp: copy_call_def with_engine_def)
qed (simp add: copy_finish_def)

section \<open>What went in and what came out\<close>

fun ring_accepted :: "('a ring_cmd, 'a ring_res, 'a) split_event list \<Rightarrow> 'a list" where
  "ring_accepted (Call (TryPush v) (TryPushed (Inr _)) # es) = v # ring_accepted es"
| "ring_accepted (Call (FlagPush v) (FlagPushed True) # es) = v # ring_accepted es"
| "ring_accepted (e # es) = ring_accepted es"
| "ring_accepted [] = []"

fun ring_delivered :: "('a ring_cmd, 'a ring_res, 'a) split_event list \<Rightarrow> 'a list" where
  "ring_delivered (Call c (TryPopped (Inr v)) # es) = v # ring_delivered es"
| "ring_delivered (Call c (PoppedInto True v) # es) = v # ring_delivered es"
| "ring_delivered (e # es) = ring_delivered es"
| "ring_delivered [] = []"

lemma ring_replay_balance: "replay (ring_ref b) es q0 = Some q \<Longrightarrow> q0 @ ring_accepted es = ring_delivered es @ q"
proof (induction es arbitrary: q0)
  case (Cons e es)
  show ?case
  proof (cases e)
    case (Call c r)
    with Cons.prems have r: "r = fst (ring_ref b c q0)" and es: "replay (ring_ref b) es (snd (ring_ref b c q0)) = Some q"
      by (simp_all split: if_splits)
    have IH: "snd (ring_ref b c q0) @ ring_accepted es = ring_delivered es @ q" by (rule Cons.IH [OF es])
    show ?thesis
    proof (cases c)
      case (TryPush v)
      with IH show ?thesis by (cases "length q0 < b") (simp_all add: Call r)
    next
      case (FlagPush v)
      with IH show ?thesis by (cases "length q0 < b") (simp_all add: Call r)
    next
      case TryPop
      with IH show ?thesis by (cases q0) (simp_all add: Call r)
    next
      case (PopInto out)
      with IH show ?thesis by (cases q0) (simp_all add: Call r)
    qed
  qed (use Cons in auto)
qed simp

lemma split_started:
  assumes "spsc_ring N = Some s0 \<or> spsc_ring_heap N = Some s0"
  shows "\<exists>e. s0 = arc_split e \<and> ring_rep (masked_cfg dbg no_instr arm) e []"
proof -
  have "\<exists>n. is_power_of_two n \<and> s0 = arc_split (ring_new (replicate n None) ())"
    using assms
  proof
    assume "spsc_ring N = Some s0"
    then show ?thesis by (auto simp: spsc_ring_def inline_storage_new_def split: if_splits)
  next
    assume "spsc_ring_heap N = Some s0"
    then show ?thesis
      using next_power_of_two(1) [of N] by (auto simp: spsc_ring_heap_def heap_storage_new_def split: if_splits)
  qed
  then show ?thesis by (elim exE conjE) (intro exI conjI, assumption, erule masked_ring.rep_new)
qed

section \<open>Properties\<close>

text \<open>C21. The split handles of a ring, inline or on the heap, in any interleaving of calls and drops: a value that a
  push accepted is delivered once, in order, or is still queued, or was released by the drop of the second
  handle; the engine is freed exactly then, and no call or drop through a live handle panics, touches a freed
  engine or an uninitialised slot.
\<close>

theorem split_handles_release_once:
  fixes es :: "('a ring_cmd, 'a ring_res, 'a) split_event list" and dbg arm :: bool
  defines "cfg \<equiv> masked_cfg dbg no_instr arm"
  assumes "spsc_ring N = Some s0 \<or> spsc_ring_heap N = Some s0"
    "split_steps (ring_call cfg) ring_needs_tx (ring_finish cfg) s0 es s"
  shows "(\<exists>q. ring_accepted es = ring_delivered es @ released es @ q
      \<and> (sp_tx s \<or> sp_rx s \<longrightarrow> sp_engine s \<noteq> None \<and> released es = [])
      \<and> (\<not> sp_tx s \<and> \<not> sp_rx s \<longrightarrow> sp_engine s = None \<and> q = []))
    \<and> ((if ring_needs_tx c then sp_tx s else sp_rx s) \<longrightarrow> (\<exists>r s'. ring_call cfg c s = Some (r, s')))
    \<and> (sp_tx s \<longrightarrow> (\<exists>vs s'. drop_producer (ring_finish cfg) s = Some (vs, s')))
    \<and> (sp_rx s \<longrightarrow> (\<exists>vs s'. drop_consumer (ring_finish cfg) s = Some (vs, s')))"
proof (intro conjI)
  obtain e where e: "s0 = arc_split e" "ring_rep (masked_cfg dbg no_instr arm) e []" using split_started [OF assms(2)] by blast
  note run = assms(3) [unfolded e(1) cfg_def]
  have rep: "ring_rep (masked_cfg dbg no_instr arm) e [] \<and> ring_capacity e = ring_capacity e" using e(2) by simp
  obtain q where q: "replay (ring_ref (ring_capacity e)) es [] = Some q"
    "if sp_tx s \<or> sp_rx s then released es = [] \<and> sp_engine s \<noteq> None else sp_engine s = None \<and> released es = q"
    using ring_handles.steps_inv [OF run rep] by (auto split: if_splits)
  then show "\<exists>q. ring_accepted es = ring_delivered es @ released es @ q
      \<and> (sp_tx s \<or> sp_rx s \<longrightarrow> sp_engine s \<noteq> None \<and> released es = [])
      \<and> (\<not> sp_tx s \<and> \<not> sp_rx s \<longrightarrow> sp_engine s = None \<and> q = [])"
    using ring_replay_balance [OF q(1)] by (intro exI [of _ "if sp_tx s \<or> sp_rx s then q else []"]) auto
  show "(if ring_needs_tx c then sp_tx s else sp_rx s) \<longrightarrow> (\<exists>r s'. ring_call cfg c s = Some (r, s'))"
    "sp_tx s \<longrightarrow> (\<exists>vs s'. drop_producer (ring_finish cfg) s = Some (vs, s'))"
    "sp_rx s \<longrightarrow> (\<exists>vs s'. drop_consumer (ring_finish cfg) s = Some (vs, s'))"
    unfolding cfg_def by (rule ring_handles.never_stuck [OF run rep])+
qed

text \<open>One value pushed into a ring of two slots and never popped; the consumer is dropped before the producer.\<close>

theorem split_handles_release_once_witness:
  "\<exists>es s. split_steps (ring_call (masked_cfg True no_instr False)) ring_needs_tx
       (ring_finish (masked_cfg True no_instr False)) (the (spsc_ring 2)) es s
     \<and> \<not> sp_tx s \<and> \<not> sp_rx s \<and> released es = [7 :: nat] \<and> ring_accepted es = ring_delivered es @ released es"
proof -
  let ?cfg = "masked_cfg True no_instr False"
  let ?state = "\<lambda>h sl n rx. \<lparr> sp_engine = Some \<lparr> rg_head = h, rg_head_local = 0, rg_tail_cached = 0, rg_tail = 0,
      rg_tail_local = 0, rg_head_cached = 0, rg_storage = sl, rg_instr = () \<rparr>, sp_strong = n, sp_tx = True, sp_rx = rx \<rparr>"
  let ?s0 = "?state 0 [None, None :: nat option] 2 True" and ?s1 = "?state 1 [Some (7 :: nat), None] 2 True"
    and ?s2 = "?state 1 [Some (7 :: nat), None] 1 False"
    and ?s3 = "\<lparr> sp_engine = None, sp_strong = 0, sp_tx = False, sp_rx = False \<rparr> :: (nat, unit) RingEngine Split"
  let ?es = "[Call (FlagPush 7) (FlagPushed True), DropRx [], DropTx [7]]"
  have s0: "spsc_ring 2 = Some ?s0" by code_simp
  let ?steps = "split_steps (ring_call ?cfg) ring_needs_tx (ring_finish ?cfg) ?s0"
  have c: "ring_call ?cfg (FlagPush 7) ?s0 = Some (FlagPushed True, ?s1)" by code_simp
  have d: "drop_consumer (ring_finish ?cfg) ?s1 = Some ([], ?s2)" by code_simp
  have f: "drop_producer (ring_finish ?cfg) ?s2 = Some ([7], ?s3)" by code_simp
  have "?steps ([] @ [Call (FlagPush 7) (FlagPushed True)]) ?s1"
    by (rule split_steps.call, rule split_steps.start, simp, rule c)
  from split_steps.drop_rx [OF this _ d] have "?steps ([Call (FlagPush 7) (FlagPushed True)] @ [DropRx []]) ?s2" by simp
  from split_steps.drop_tx [OF this _ f] have run: "?steps ?es ?s3" by simp
  from split_handles_release_once [THEN conjunct1, OF disjI1 [OF s0] run]
  have "ring_accepted ?es = ring_delivered ?es @ released ?es" by auto
  with run show ?thesis unfolding s0 option.sel by (intro exI [of _ ?es] exI [of _ ?s3]) simp
qed

end
