(* ===== verification/Metering.thy ===== *)
theory Metering
  imports Float64
begin

text \<open>
  Performance counters (\<open>crates/platform/src/metering\<close>, \<open>isa_x86/rdtsc.rs\<close>, \<open>isa_arm64/counters.rs\<close>) and the
  sample collector of the benchmarks (\<open>crates/bench/src/measurement.rs\<close>, \<open>bench_runner.rs\<close>). What a clock, a
  kernel call or a counter register returns is an argument, in the order in which the code reads it. The
  locale \<open>interval_clock\<close> is what a benchmark needs of a counter that measures time.
\<close>

section \<open>Saturating arithmetic on u64\<close>

definition u64_saturate :: "nat \<Rightarrow> u64" where
  "u64_saturate n = (if n < 2 ^ 64 then of_nat n else - 1)"

definition u64_saturating_sub :: "u64 \<Rightarrow> u64 \<Rightarrow> u64" where
  "u64_saturating_sub a b = (if b \<le> a then a - b else 0)"

definition u64_saturating_mul :: "u64 \<Rightarrow> u64 \<Rightarrow> u64" where
  "u64_saturating_mul a b = u64_saturate (unat a * unat b)"

definition u64_saturating_add :: "u64 \<Rightarrow> u64 \<Rightarrow> u64" where
  "u64_saturating_add a b = u64_saturate (unat a + unat b)"

definition u64_checked_div :: "u64 \<Rightarrow> u64 \<Rightarrow> u64 option" where
  "u64_checked_div a b = (if b = 0 then None else Some (a div b))"

definition u64_try_from :: "int \<Rightarrow> u64 option" where
  "u64_try_from x = (if 0 \<le> x \<and> x < 2 ^ 64 then Some (of_int x) else None)"

section \<open>Measurements and cycle counters\<close>

record Measurement =
  ms_nanos :: u64
  ms_cycles :: u64
  ms_instructions :: "u64 option"
  ms_branch_misses :: "u64 option"
  ms_l1d_misses :: "u64 option"
  ms_llc_misses :: "u64 option"

abbreviation timing :: "u64 \<Rightarrow> u64 \<Rightarrow> Measurement" where
  "timing n c \<equiv> \<lparr> ms_nanos = n, ms_cycles = c, ms_instructions = None, ms_branch_misses = None,
     ms_l1d_misses = None, ms_llc_misses = None \<rparr>"

text \<open>\<open>InstantCounter\<close>: \<open>ns\<close> is the age of the epoch in nanoseconds, a \<open>u128\<close>.\<close>

definition instant_start :: "nat \<Rightarrow> u64" where
  "instant_start ns = u64_saturate ns"

definition instant_elapsed :: "nat \<Rightarrow> u64 \<Rightarrow> Measurement" where
  "instant_elapsed ns start = timing (u64_saturating_sub (u64_saturate ns) start) 0"

text \<open>\<open>RdtscCounter\<close>: the two halves of the time stamp counter, the counter at the epoch, and a measurement,
  which reads the counter, the age of the epoch, and the counter again.\<close>

definition rdtsc_value :: "u32 \<Rightarrow> u32 \<Rightarrow> u64" where
  "rdtsc_value hi lo = or (push_bit 32 (ucast hi)) (ucast lo)"

record RdtscCounter =
  rd_epoch_tsc :: u64

definition rdtsc_new :: "u64 \<Rightarrow> RdtscCounter" where
  "rdtsc_new tsc = \<lparr> rd_epoch_tsc = tsc \<rparr>"

definition rdtsc_start :: "u64 \<Rightarrow> u64" where
  "rdtsc_start tsc = tsc"

definition rdtsc_elapsed :: "RdtscCounter \<Rightarrow> u64 \<Rightarrow> nat \<Rightarrow> u64 \<Rightarrow> u64 \<Rightarrow> Measurement" where
  "rdtsc_elapsed self end_tsc ns later_tsc start =
     (let cycles = u64_saturating_sub end_tsc start;
          nanos = u64_saturate ns;
          epoch_cycles = u64_saturating_sub later_tsc (rd_epoch_tsc self);
          interval_nanos = (case u64_checked_div (u64_saturating_mul nanos cycles) epoch_cycles of
                              Some q \<Rightarrow> q | None \<Rightarrow> 0)
      in timing interval_nanos cycles)"

text \<open>\<open>KperfCounter\<close>, with the time base of the kernel.\<close>

record KperfCounter =
  kc_numer :: u64
  kc_denom :: u64

definition fetch_timebase :: "(u32 \<times> u32) option \<Rightarrow> u32 \<times> u32" where
  "fetch_timebase info = (case info of Some r \<Rightarrow> r | None \<Rightarrow> (1, 1))"

definition kperf_new :: "(u32 \<times> u32) option \<Rightarrow> KperfCounter" where
  "kperf_new info =
     (let (numer, denom) = fetch_timebase info
      in \<lparr> kc_numer = ucast numer, kc_denom = max (ucast denom) 1 \<rparr>)"

definition ticks_to_nanos :: "KperfCounter \<Rightarrow> u64 \<Rightarrow> u64 panics" where
  "ticks_to_nanos self ticks = u64_checked_div (u64_saturating_mul ticks (kc_numer self)) (kc_denom self)"

definition kperf_start :: "u64 \<Rightarrow> u64" where
  "kperf_start now = now"

definition kperf_elapsed :: "KperfCounter \<Rightarrow> u64 \<Rightarrow> u64 \<Rightarrow> Measurement panics" where
  "kperf_elapsed self now start =
     (let ticks = u64_saturating_sub now start
      in map_option (\<lambda>nanos. timing nanos ticks) (ticks_to_nanos self ticks))"

text \<open>\<open>PmuCounter\<close>: what \<open>clock_gettime\<close> returns, and the seconds and nanoseconds it writes.\<close>

definition clock_gettime_nanos :: "int \<Rightarrow> int \<Rightarrow> int \<Rightarrow> u64" where
  "clock_gettime_nanos ret tv_sec tv_nsec =
     (if ret \<noteq> 0 then 0
      else let secs = (case u64_try_from tv_sec of Some s \<Rightarrow> s | None \<Rightarrow> 0);
               nanos = (case u64_try_from tv_nsec of Some s \<Rightarrow> s | None \<Rightarrow> 0)
           in u64_saturating_add (u64_saturating_mul secs 1000000000) nanos)"

definition pmu_start :: "int \<times> int \<times> int \<Rightarrow> u64" where
  "pmu_start r = (case r of (ret, tv_sec, tv_nsec) \<Rightarrow> clock_gettime_nanos ret tv_sec tv_nsec)"

definition pmu_elapsed :: "int \<times> int \<times> int \<Rightarrow> u64 \<Rightarrow> Measurement" where
  "pmu_elapsed r start =
     (case r of (ret, tv_sec, tv_nsec) \<Rightarrow>
        timing (u64_saturating_sub (clock_gettime_nanos ret tv_sec tv_nsec) start) 0)"

section \<open>Hardware counters\<close>

record HwCounterDeltas =
  hw_instructions :: u64
  hw_branch_misses :: u64
  hw_l1d_misses :: u64
  hw_llc_misses :: u64

definition hw_default :: HwCounterDeltas where
  "hw_default = \<lparr> hw_instructions = 0, hw_branch_misses = 0, hw_l1d_misses = 0, hw_llc_misses = 0 \<rparr>"

definition noop_start :: "unit option" where
  "noop_start = None"

definition noop_read :: "unit option \<Rightarrow> HwCounterDeltas option" where
  "noop_read snapshot = None"

text \<open>
  \<open>PerfGroupCounters\<close>: the handles of the four counters of a group, and what the group's calls return
  (whether \<open>enable\<close> and \<open>disable\<close> succeed, and the counts that \<open>read\<close> gives, by handle).
\<close>

record PerfGroupCounters =
  pg_instructions :: nat
  pg_branch_misses :: nat
  pg_l1d_misses :: nat
  pg_llc_misses :: nat

record PerfSnapshot =
  ps_instructions :: u64
  ps_branch_misses :: u64
  ps_l1d_misses :: u64
  ps_llc_misses :: u64

definition perf_start :: "PerfGroupCounters \<Rightarrow> bool \<Rightarrow> (nat \<Rightarrow> u64) option \<Rightarrow> PerfSnapshot option" where
  "perf_start self enabled counts =
     (if \<not> enabled then None
      else do {
        c \<leftarrow> counts;
        Some \<lparr> ps_instructions = c (pg_instructions self), ps_branch_misses = c (pg_branch_misses self),
               ps_l1d_misses = c (pg_l1d_misses self), ps_llc_misses = c (pg_llc_misses self) \<rparr>
      })"

definition perf_read :: "PerfGroupCounters \<Rightarrow> PerfSnapshot option \<Rightarrow> (nat \<Rightarrow> u64) option \<Rightarrow> bool \<Rightarrow> HwCounterDeltas option" where
  "perf_read self snapshot counts disabled =
     do {
       base \<leftarrow> snapshot;
       c \<leftarrow> counts;
       (if \<not> disabled then None
        else Some \<lparr>
          hw_instructions = u64_saturating_sub (c (pg_instructions self)) (ps_instructions base),
          hw_branch_misses = u64_saturating_sub (c (pg_branch_misses self)) (ps_branch_misses base),
          hw_l1d_misses = u64_saturating_sub (c (pg_l1d_misses self)) (ps_l1d_misses base),
          hw_llc_misses = u64_saturating_sub (c (pg_llc_misses self)) (ps_llc_misses base) \<rparr>)
     }"

section \<open>The kperf counters of macOS\<close>

definition KPC_MAX_COUNTERS :: nat where
  "KPC_MAX_COUNTERS = 32"

definition KPC_CLASS_CONFIGURABLE_MASK :: u32 where
  "KPC_CLASS_CONFIGURABLE_MASK = push_bit 1 1"

definition INSTRUCTIONS_NAMES :: "string list" where
  "INSTRUCTIONS_NAMES = [''FIXED_INSTRUCTIONS'', ''INST_RETIRED.ANY'']"

definition BRANCH_MISS_NAMES :: "string list" where
  "BRANCH_MISS_NAMES =
     [''BRANCH_MISPRED_NONSPEC'', ''BRANCH_MISPREDICT'', ''BR_MISP_RETIRED.ALL_BRANCHES'', ''BR_INST_RETIRED.MISPRED'']"

definition EVENT_ALIASES :: "string list list" where
  "EVENT_ALIASES = [INSTRUCTIONS_NAMES, BRANCH_MISS_NAMES]"

datatype KperfError =
    CannotLoad string | SymbolNotFound string | PermissionDenied string | NoEvent nat | CallFailed string

text \<open>
  The private frameworks, as the constructor sees them: which of them load, which symbols they have, and the
  return codes and outputs of the calls. An event handle is a number, \<open>0\<close> the null pointer.
\<close>

record Kperf =
  kp_loads :: "string \<Rightarrow> bool"
  kp_has :: "string \<Rightarrow> bool"
  kp_code :: "string \<Rightarrow> int"
  kp_event :: "string \<Rightarrow> nat option"
  kp_add_event :: "nat \<Rightarrow> int"
  kp_classes :: u32
  kp_reg_count :: nat
  kp_map :: "nat list"

record KperfPmuCounters =
  pm_instructions_idx :: nat
  pm_branch_misses_idx :: nat

definition load_sym :: "Kperf \<Rightarrow> string \<Rightarrow> KperfError + unit" where
  "load_sym k name = (if kp_has k name then Inr () else Inl (SymbolNotFound name))"

fun load_syms :: "Kperf \<Rightarrow> string list \<Rightarrow> KperfError + unit" where
  "load_syms k [] = Inr ()"
| "load_syms k (n # ns) = (case load_sym k n of Inl e \<Rightarrow> Inl e | Inr _ \<Rightarrow> load_syms k ns)"

text \<open>The first name of an alias group that the data base knows, and the groups in order from group \<open>i\<close>.\<close>

fun find_event :: "Kperf \<Rightarrow> string list \<Rightarrow> nat" where
  "find_event k [] = 0"
| "find_event k (n # ns) = (case kp_event k n of Some ev \<Rightarrow> ev | None \<Rightarrow> find_event k ns)"

fun find_events :: "Kperf \<Rightarrow> nat \<Rightarrow> string list list \<Rightarrow> KperfError + nat list" where
  "find_events k i [] = Inr []"
| "find_events k i (names # groups) =
     (let ev = find_event k names
      in if ev = 0 then Inl (NoEvent i)
         else case find_events k (i + 1) groups of Inl e \<Rightarrow> Inl e | Inr evs \<Rightarrow> Inr (ev # evs))"

fun add_events :: "Kperf \<Rightarrow> nat list \<Rightarrow> KperfError + unit" where
  "add_events k [] = Inr ()"
| "add_events k (ev # evs) =
     (if kp_add_event k ev \<noteq> 0 then Inl (CallFailed ''kpep_config_add_event'') else add_events k evs)"

definition kperf_symbols :: "string list" where
  "kperf_symbols = [''kpc_force_all_ctrs_get'', ''kpc_force_all_ctrs_set'', ''kpc_set_config'', ''kpc_set_counting'',
     ''kpc_set_thread_counting'', ''kpc_get_thread_counters'', ''kpep_db_create'', ''kpep_db_event'',
     ''kpep_config_create'', ''kpep_config_add_event'', ''kpep_config_force_counters'', ''kpep_config_kpc'',
     ''kpep_config_kpc_count'', ''kpep_config_kpc_classes'', ''kpep_config_kpc_map'']"

text \<open>Programming the unit, and the check of the indices: the second half of the constructor.\<close>

definition kperf_program :: "Kperf \<Rightarrow> KperfError + KperfPmuCounters" where
  "kperf_program k =
     (if kp_code k ''kpep_config_kpc_classes'' \<noteq> 0 \<or> kp_code k ''kpep_config_kpc_count'' \<noteq> 0
         \<or> kp_code k ''kpep_config_kpc_map'' \<noteq> 0 \<or> kp_code k ''kpep_config_kpc'' \<noteq> 0
      then Inl (CallFailed ''kpep_config_kpc'')
      else if kp_code k ''kpc_force_all_ctrs_set'' \<noteq> 0 then Inl (PermissionDenied ''kpc_force_all_ctrs_set'')
      else if and (kp_classes k) KPC_CLASS_CONFIGURABLE_MASK \<noteq> 0 \<and> 0 < kp_reg_count k \<and> kp_code k ''kpc_set_config'' \<noteq> 0
      then Inl (CallFailed ''kpc_set_config'')
      else if kp_code k ''kpc_set_counting'' \<noteq> 0 \<or> kp_code k ''kpc_set_thread_counting'' \<noteq> 0
      then Inl (CallFailed ''kpc_set_counting'')
      else if KPC_MAX_COUNTERS \<le> kp_map k ! 0 \<or> KPC_MAX_COUNTERS \<le> kp_map k ! 1
      then Inl (CallFailed ''counter_map'')
      else Inr \<lparr> pm_instructions_idx = kp_map k ! 0, pm_branch_misses_idx = kp_map k ! 1 \<rparr>)"

definition kperf_try_new :: "Kperf \<Rightarrow> KperfError + KperfPmuCounters" where
  "kperf_try_new k =
     (if \<not> kp_loads k ''kperf'' then Inl (CannotLoad ''kperf'')
      else if \<not> kp_loads k ''kperfdata'' then Inl (CannotLoad ''kperfdata'')
      else case load_syms k kperf_symbols of
        Inl e \<Rightarrow> Inl e
      | Inr _ \<Rightarrow>
          if kp_code k ''kpc_force_all_ctrs_get'' \<noteq> 0 then Inl (PermissionDenied ''kpc_force_all_ctrs_get'')
          else if kp_code k ''kpep_db_create'' \<noteq> 0 then Inl (CallFailed ''kpep_db_create'')
          else if kp_code k ''kpep_config_create'' \<noteq> 0 then Inl (CallFailed ''kpep_config_create'')
          else if kp_code k ''kpep_config_force_counters'' \<noteq> 0 then Inl (CallFailed ''kpep_config_force_counters'')
          else case find_events k 0 EVENT_ALIASES of
            Inl e \<Rightarrow> Inl e
          | Inr evs \<Rightarrow> (case add_events k evs of Inl e \<Rightarrow> Inl e | Inr _ \<Rightarrow> kperf_program k))"

text \<open>The counters of the calling thread: the return code, and the buffer of 32 counters.\<close>

definition read_counters :: "int \<Rightarrow> u64 list \<Rightarrow> u64 list option" where
  "read_counters ret buf = (if ret \<noteq> 0 then None else Some buf)"

record KperfSnapshot =
  kn_instructions :: u64
  kn_branch_misses :: u64

definition counter_at :: "u64 list \<Rightarrow> nat \<Rightarrow> u64 panics" where
  "counter_at cs i = (if i < length cs then Some (cs ! i) else None)"

text \<open>The outer option is a panic, the inner one the code's \<open>None\<close>.\<close>

definition kperf_pmu_start :: "KperfPmuCounters \<Rightarrow> int \<Rightarrow> u64 list \<Rightarrow> KperfSnapshot option panics" where
  "kperf_pmu_start self ret buf =
     (case read_counters ret buf of
        None \<Rightarrow> Some None
      | Some cs \<Rightarrow> do {
          i \<leftarrow> counter_at cs (pm_instructions_idx self);
          b \<leftarrow> counter_at cs (pm_branch_misses_idx self);
          Some (Some \<lparr> kn_instructions = i, kn_branch_misses = b \<rparr>)
        })"

definition kperf_pmu_read :: "KperfPmuCounters \<Rightarrow> KperfSnapshot option \<Rightarrow> int \<Rightarrow> u64 list \<Rightarrow> HwCounterDeltas option panics" where
  "kperf_pmu_read self snapshot ret buf =
     (case snapshot of
        None \<Rightarrow> Some None
      | Some base \<Rightarrow>
          (case read_counters ret buf of
             None \<Rightarrow> Some None
           | Some cs \<Rightarrow> do {
               i \<leftarrow> counter_at cs (pm_instructions_idx self);
               b \<leftarrow> counter_at cs (pm_branch_misses_idx self);
               Some (Some \<lparr> hw_instructions = u64_saturating_sub i (kn_instructions base),
                            hw_branch_misses = u64_saturating_sub b (kn_branch_misses base),
                            hw_l1d_misses = 0, hw_llc_misses = 0 \<rparr>)
             }))"

section \<open>Lemmas\<close>

lemma unat_u64_saturate: "unat (u64_saturate n) = min n (2 ^ 64 - 1)"
proof (cases "n < 2 ^ 64")
  case False
  have "unat (- 1 :: u64) = 2 ^ 64 - 1" unfolding unat_eq_nat_uint uint_minus_1_u64 by simp
  with False show ?thesis by (simp add: u64_saturate_def)
qed (simp add: u64_saturate_def unat_of_nat)

lemma unat_u64_saturating_sub: "unat (u64_saturating_sub a b) = unat a - unat b"
  by (auto simp: u64_saturating_sub_def unat_sub word_le_nat_alt)

lemmas u64_saturating = unat_u64_saturate unat_u64_saturating_sub

lemma rdtsc_elapsed_nanos:
  "unat (ms_nanos (rdtsc_elapsed self t1 ns t2 t0)) =
     min (min ns (2 ^ 64 - 1) * (unat t1 - unat t0)) (2 ^ 64 - 1) div (unat t2 - unat (rd_epoch_tsc self))"
proof (cases "u64_saturating_sub t2 (rd_epoch_tsc self) = 0")
  case True
  then have "unat t2 - unat (rd_epoch_tsc self) = 0" by (metis unat_0 unat_u64_saturating_sub)
  with True show ?thesis by (simp add: rdtsc_elapsed_def u64_checked_div_def)
next
  case False
  then show ?thesis by (simp add: rdtsc_elapsed_def u64_checked_div_def unat_div u64_saturating_mul_def u64_saturating)
qed

lemma div_less_shift: "0 < e \<Longrightarrow> m + e \<le> n \<Longrightarrow> m div e < n div (e :: nat)"
  by (metis Suc_le_lessD add.commute div_add_self1 div_le_mono less_not_refl plus_1_eq_Suc zero_less_iff_neq_zero)

lemma ticks_to_nanos_eq:
  "kc_denom self \<noteq> 0 \<Longrightarrow> map_option unat (ticks_to_nanos self ticks) =
     Some (min (unat ticks * unat (kc_numer self)) (2 ^ 64 - 1) div unat (kc_denom self))"
  by (simp add: ticks_to_nanos_def u64_checked_div_def unat_div u64_saturating_mul_def u64_saturating)

lemma kperf_new_denom: "kc_denom (kperf_new info) \<noteq> 0"
  by (auto simp: kperf_new_def Let_def max_def split: prod.splits)

section \<open>Clocks\<close>

text \<open>
  A clock that counts nanoseconds: \<open>start\<close> and \<open>nanos\<close> at a true time give the length of the interval, exactly,
  for as long as the time is a \<open>u64\<close>.
\<close>

locale interval_clock =
  fixes start :: "nat \<Rightarrow> u64" and nanos :: "nat \<Rightarrow> u64 \<Rightarrow> u64"
  assumes exact: "s \<le> t \<Longrightarrow> t < 2 ^ 64 \<Longrightarrow> unat (nanos t (start s)) = t - s"
begin

lemma intervals_add:
  assumes "r \<le> s" "s \<le> t" "t < 2 ^ 64"
  shows "nanos s (start r) + nanos t (start s) = nanos t (start r)"
proof -
  have "int (unat (nanos s (start r))) + int (unat (nanos t (start s))) = int (unat (nanos t (start r)))"
    using assms by (simp add: exact)
  then have "word_of_int (uint (nanos s (start r)) + uint (nanos t (start s))) = (word_of_int (uint (nanos t (start r))) :: u64)"
    by simp
  then show ?thesis by simp
qed

lemma intervals_mono: "r \<le> s \<Longrightarrow> s \<le> t \<Longrightarrow> t < 2 ^ 64 \<Longrightarrow> nanos s (start r) \<le> nanos t (start r)"
  by (simp add: word_le_nat_alt exact)

end

text \<open>The reading that \<open>clock_gettime\<close> gives \<open>t\<close> nanoseconds after boot.\<close>

definition monotonic_reading :: "nat \<Rightarrow> int \<times> int \<times> int" where
  "monotonic_reading t = (0, int (t div 1000000000), int (t mod 1000000000))"

lemma u64_try_from_nat: "n < 2 ^ 64 \<Longrightarrow> u64_try_from (int n) = Some (of_nat n)"
  by (simp add: u64_try_from_def)

lemma pmu_start_reading:
  assumes "t < 2 ^ 64"
  shows "unat (pmu_start (monotonic_reading t)) = t"
proof -
  have "t div 1000000000 < 2 ^ 64" "t mod 1000000000 < 2 ^ 64" "t div 1000000000 * 1000000000 < 2 ^ 64"
    using assms by (auto intro: le_less_trans [OF div_le_dividend] le_less_trans [OF mod_less_eq_dividend]
        le_less_trans [OF div_times_less_eq_dividend])
  then show ?thesis using assms unfolding monotonic_reading_def pmu_start_def clock_gettime_nanos_def
    by (simp add: u64_try_from_nat u64_saturating_add_def u64_saturating_mul_def u64_saturating unat_of_nat)
qed

interpretation instant_clock: interval_clock instant_start "\<lambda>t s. ms_nanos (instant_elapsed t s)"
  by unfold_locales (simp add: instant_start_def instant_elapsed_def u64_saturating)

interpretation pmu_clock: interval_clock
  "\<lambda>t. pmu_start (monotonic_reading t)" "\<lambda>t s. ms_nanos (pmu_elapsed (monotonic_reading t) s)"
proof unfold_locales
  fix s t :: nat
  assume st: "s \<le> t" "t < 2 ^ 64"
  have e: "pmu_elapsed r a = timing (u64_saturating_sub (pmu_start r) a) 0" for r a
    by (simp add: pmu_elapsed_def pmu_start_def split: prod.splits)
  from st show "unat (ms_nanos (pmu_elapsed (monotonic_reading t) (pmu_start (monotonic_reading s)))) = t - s"
    by (simp add: e pmu_start_reading unat_u64_saturating_sub)
qed

text \<open>C39. The time stamp counter gives the right cycles, and a number of nanoseconds that is the epoch's age times
  the cycles over the cycles since the epoch, as long as that product is a \<open>u64\<close>. Above it the saturated
  product is divided, and the interval reported is too short: at 3 GHz that is every interval of more than
  62 milliseconds once the counter is 100 seconds old.
\<close>

theorem rdtsc_interval_saturates:
  assumes "rd_epoch_tsc self \<le> t0" "t0 \<le> t1" "t1 \<le> t2" "rd_epoch_tsc self < t2" "ns < 2 ^ 64"
  defines "c \<equiv> unat t1 - unat t0" and "e \<equiv> unat t2 - unat (rd_epoch_tsc self)"
  defines "m \<equiv> rdtsc_elapsed self t1 ns t2 (rdtsc_start t0)"
  shows "unat (ms_cycles m) = c \<and>
    (ns * c < 2 ^ 64 \<longrightarrow> unat (ms_nanos m) = ns * c div e) \<and>
    (2 ^ 64 \<le> ns * c \<longrightarrow> unat (ms_nanos m) = (2 ^ 64 - 1) div e) \<and>
    (2 ^ 64 + e \<le> ns * c \<longrightarrow> unat (ms_nanos m) < ns * c div e)"
proof (intro conjI impI)
  have e: "0 < e" using assms(4) by (simp add: e_def word_less_nat_alt)
  have n: "unat (ms_nanos m) = min (ns * c) (2 ^ 64 - 1) div e"
    using assms(5) by (simp add: m_def rdtsc_start_def rdtsc_elapsed_nanos c_def e_def)
  show "unat (ms_cycles m) = c"
    by (simp add: m_def rdtsc_start_def rdtsc_elapsed_def Let_def unat_u64_saturating_sub c_def)
  show "unat (ms_nanos m) = ns * c div e" if "ns * c < 2 ^ 64" using that by (simp add: n min_def)
  show "unat (ms_nanos m) = (2 ^ 64 - 1) div e" if "2 ^ 64 \<le> ns * c" using that by (simp add: n min_def)
  show "unat (ms_nanos m) < ns * c div e" if "2 ^ 64 + e \<le> ns * c"
    using div_less_shift [OF e, of "2 ^ 64 - 1" "ns * c"] that by (simp add: n min_def)
qed

text \<open>100 seconds after the epoch, at 3 GHz, an interval of a tenth of a second is reported as 61 milliseconds.\<close>

theorem rdtsc_interval_saturates_witness:
  "unat (ms_nanos (rdtsc_elapsed (rdtsc_new 0) 300000000000 100000000000 300000000000 (rdtsc_start 299700000000))) = 61489146
   \<and> (100000000000 * 300000000 div 300000000000 :: nat) = 100000000"
  using rdtsc_interval_saturates [of "rdtsc_new 0" 299700000000 300000000000 300000000000 100000000000]
  by (simp add: rdtsc_new_def)

text \<open>The counters' indices are checked once, when they are created: after that no measurement goes out of
  the buffer of 32 counters, a failed kernel call is \<open>None\<close> and no delta underflows.\<close>

theorem kperf_reads_in_bounds:
  assumes "kperf_try_new k = Inr pmu" "length buf = KPC_MAX_COUNTERS" "length buf' = KPC_MAX_COUNTERS"
  shows "\<exists>snap d. kperf_pmu_start pmu ret buf = Some snap \<and> kperf_pmu_read pmu snap ret' buf' = Some d
    \<and> (d \<noteq> None \<longleftrightarrow> ret = 0 \<and> ret' = 0)
    \<and> (\<forall>x. d = Some x \<longrightarrow>
         unat (hw_instructions x) = unat (buf' ! pm_instructions_idx pmu) - unat (buf ! pm_instructions_idx pmu)
       \<and> unat (hw_branch_misses x) = unat (buf' ! pm_branch_misses_idx pmu) - unat (buf ! pm_branch_misses_idx pmu))"
proof -
  have p: "kperf_program k = Inr pmu"
    using assms(1) by (simp add: kperf_try_new_def split: if_splits sum.splits)
  then have "pm_instructions_idx pmu < KPC_MAX_COUNTERS" "pm_branch_misses_idx pmu < KPC_MAX_COUNTERS"
    by (auto simp: kperf_program_def split: if_splits)
  with assms(2,3) show ?thesis
    by (simp add: kperf_pmu_start_def kperf_pmu_read_def read_counters_def counter_at_def unat_u64_saturating_sub)
qed

definition kperf_ready :: Kperf where
  "kperf_ready = \<lparr> kp_loads = (\<lambda>_. True), kp_has = (\<lambda>_. True), kp_code = (\<lambda>_. 0),
     kp_event = (\<lambda>n. if n = ''FIXED_INSTRUCTIONS'' then Some 7 else if n = ''BRANCH_MISPREDICT'' then Some 9 else None),
     kp_add_event = (\<lambda>_. 0), kp_classes = 3, kp_reg_count = 8, kp_map = 1 # 5 # replicate 30 0 \<rparr>"

lemma kperf_ready_new: "kperf_try_new kperf_ready = Inr \<lparr> pm_instructions_idx = 1, pm_branch_misses_idx = 5 \<rparr>"
  by code_simp

theorem kperf_reads_in_bounds_witness:
  "\<exists>snap d. kperf_pmu_start \<lparr> pm_instructions_idx = 1, pm_branch_misses_idx = 5 \<rparr> 0 (replicate 32 4) = Some snap
     \<and> kperf_pmu_read \<lparr> pm_instructions_idx = 1, pm_branch_misses_idx = 5 \<rparr> snap 0 (replicate 32 9) = Some d \<and> d \<noteq> None"
  using kperf_reads_in_bounds [OF kperf_ready_new, of "replicate 32 4" "replicate 32 9" 0 0]
  by (auto simp: KPC_MAX_COUNTERS_def)

end
