(* ===== verification/Raw_Bench.thy ===== *)
theory Raw_Bench
  imports Ring_Handles Metering "HOL-Library.Sublist"
begin

text \<open>
  The two-thread latency benchmark (\<open>benchmarks/rust/src/raw_bench.rs\<close>): a stand-alone copy of the ring, the producer that
  stamps and pushes messages, the consumer that pops them and adds up how long each was under way, and the
  choice of the best run. The threads interleave in any order, one operation of the ring or one reading of the clock at a
  time; a schedule says whose turn it is and what the clock shows. What the measurement needs of a ring is the locale
  \<open>bench_queue\<close>; the stand-alone ring and the rings of the library provide it.
\<close>

section \<open>Messages\<close>

text \<open>Arithmetic on \<open>u64\<close>, given the exact result.\<close>

definition u64_arith :: "bool \<Rightarrow> int \<Rightarrow> u64 panics" where
  "u64_arith oc x = (if oc \<and> \<not> (0 \<le> x \<and> x < 2 ^ 64) then None else Some (word_of_int x))"

record Msg =
  msg_timestamp :: u64
  msg_sequence :: u64
  msg_symbol_id :: u32
  msg_side :: u16
  msg_pad :: u16
  msg_price :: i64
  msg_quantity :: i64
  msg_order_id :: i64

definition msg_default :: Msg where
  "msg_default = \<lparr> msg_timestamp = 0, msg_sequence = 0, msg_symbol_id = 0, msg_side = 0, msg_pad = 0, msg_price = 0,
     msg_quantity = 0, msg_order_id = 0 \<rparr>"

definition bench_msg :: "bool \<Rightarrow> u64 \<Rightarrow> u64 \<Rightarrow> Msg panics" where
  "bench_msg oc now i =
     do {
       p \<leftarrow> u64_arith oc (uint i * 100);
       p \<leftarrow> u64_arith oc (uint p + 1);
       k \<leftarrow> u64_arith oc (uint (i AND 0xFF) + 1);
       Some \<lparr> msg_timestamp = now, msg_sequence = i, msg_symbol_id = ucast (i AND 0xFFF), msg_side = ucast (i AND 1),
         msg_pad = 0, msg_price = ucast p, msg_quantity = ucast k, msg_order_id = ucast i \<rparr>
     }"

section \<open>The stand-alone ring\<close>

definition CAPACITY :: nat where
  "CAPACITY = 1024"

record StandaloneRing =
  sr_head :: usize
  sr_head_local :: usize
  sr_tail_cached :: usize
  sr_tail :: usize
  sr_tail_local :: usize
  sr_head_cached :: usize
  sr_slots :: "Msg slots"

definition standalone_new :: StandaloneRing where
  "standalone_new = \<lparr> sr_head = 0, sr_head_local = 0, sr_tail_cached = 0, sr_tail = 0, sr_tail_local = 0, sr_head_cached = 0,
     sr_slots = replicate CAPACITY None \<rparr>"

definition standalone_push :: "Msg \<Rightarrow> StandaloneRing \<Rightarrow> (bool \<times> StandaloneRing) panics" where
  "standalone_push msg self =
     do {
       let head = sr_head_local self;
       let next = head + 1;
       let next = (if next = CAPACITY then 0 else next);
       let self = (if next = sr_tail_cached self then self\<lparr> sr_tail_cached := sr_tail self \<rparr> else self);
       if next = sr_tail_cached self then Some (False, self)
       else do {
         slots \<leftarrow> write_slot_copy head msg (sr_slots self);
         Some (True, self\<lparr> sr_slots := slots, sr_head := next, sr_head_local := next \<rparr>)
       }
     }"

definition standalone_pop :: "Msg \<Rightarrow> StandaloneRing \<Rightarrow> (bool \<times> Msg \<times> StandaloneRing) panics" where
  "standalone_pop out self =
     do {
       let tail = sr_tail_local self;
       let self = (if tail = sr_head_cached self then self\<lparr> sr_head_cached := sr_head self \<rparr> else self);
       if tail = sr_head_cached self then Some (False, out, self)
       else do {
         out \<leftarrow> read_slot_copy tail (sr_slots self);
         let next = tail + 1;
         let next = (if next = CAPACITY then 0 else next);
         Some (True, out, self\<lparr> sr_tail := next, sr_tail_local := next \<rparr>)
       }
     }"

section \<open>The shared-reference operations of the library rings\<close>

definition raw_push_shared :: "'i RingCfg \<Rightarrow> 'a \<Rightarrow> ('a, 'i) RawRing \<Rightarrow> (bool \<times> ('a, 'i) RawRing) panics" where
  "raw_push_shared cfg value self =
     do { (ok, e) \<leftarrow> ring_push cfg value (raw_engine self); Some (ok, self\<lparr> raw_engine := e \<rparr>) }"

definition raw_pop_shared :: "'i RingCfg \<Rightarrow> 'a \<Rightarrow> ('a, 'i) RawRing \<Rightarrow> (bool \<times> 'a \<times> ('a, 'i) RawRing) panics" where
  "raw_pop_shared cfg out self =
     do {
       (v, e) \<leftarrow> ring_pop cfg (raw_engine self);
       Some (case v of None \<Rightarrow> (False, out, self\<lparr> raw_engine := e \<rparr>) | Some x \<Rightarrow> (True, x, self\<lparr> raw_engine := e \<rparr>))
     }"

definition rawc_push_shared :: "'i RingCfg \<Rightarrow> 'a \<Rightarrow> ('a, 'i) RawRingCopy \<Rightarrow> (bool \<times> ('a, 'i) RawRingCopy) panics" where
  "rawc_push_shared cfg value self =
     do { (ok, e) \<leftarrow> copy_push cfg value (rawc_engine self); Some (ok, self\<lparr> rawc_engine := e \<rparr>) }"

definition rawc_pop_shared :: "'i RingCfg \<Rightarrow> 'a \<Rightarrow> ('a, 'i) RawRingCopy \<Rightarrow> (bool \<times> 'a \<times> ('a, 'i) RawRingCopy) panics" where
  "rawc_pop_shared cfg out self =
     do {
       (v, e) \<leftarrow> copy_pop cfg (rawc_engine self);
       Some (case v of None \<Rightarrow> (False, out, self\<lparr> rawc_engine := e \<rparr>) | Some x \<Rightarrow> (True, x, self\<lparr> rawc_engine := e \<rparr>))
     }"

section \<open>The two threads\<close>

text \<open>The flag and the sum the threads share, the producer's loop index and the message it is trying to push, the
  consumer's buffer, whether it holds a message not yet counted, and its running sum. \<open>bn_stamps\<close> and \<open>bn_reads\<close> record the
  clock readings the threads used, in order.\<close>

record BenchRun =
  bn_ready :: bool
  bn_i :: u64
  bn_msg :: "Msg option"
  bn_buf :: Msg
  bn_got :: bool
  bn_sum :: u64
  bn_count :: u64
  bn_latency :: "u64 option"
  bn_stamps :: "u64 list"
  bn_reads :: "u64 list"

definition bench_start :: BenchRun where
  "bench_start = \<lparr> bn_ready = False, bn_i = 0, bn_msg = None, bn_buf = msg_default, bn_got = False, bn_sum = 0, bn_count = 0,
     bn_latency = None, bn_stamps = [], bn_reads = [] \<rparr>"

definition producer_turn :: "bool \<Rightarrow> (Msg \<Rightarrow> 's \<Rightarrow> (bool \<times> 's) panics) \<Rightarrow> u64 \<Rightarrow> u64 \<Rightarrow> 's \<times> BenchRun \<Rightarrow> ('s \<times> BenchRun) panics" where
  "producer_turn oc push total_ops now = (\<lambda>(ring, s).
     if \<not> bn_ready s then Some (ring, s)
     else case bn_msg s of
       None \<Rightarrow> if bn_i s < total_ops
         then do { m \<leftarrow> bench_msg oc now (bn_i s); Some (ring, s\<lparr> bn_msg := Some m, bn_stamps := bn_stamps s @ [now] \<rparr>) }
         else Some (ring, s)
     | Some m \<Rightarrow> do {
         (ok, ring) \<leftarrow> push m ring;
         Some (ring, if ok then s\<lparr> bn_msg := None, bn_i := bn_i s + 1 \<rparr> else s)
       })"

definition consumer_turn :: "bool \<Rightarrow> (Msg \<Rightarrow> 's \<Rightarrow> (bool \<times> Msg \<times> 's) panics) \<Rightarrow> u64 \<Rightarrow> u64 \<Rightarrow> 's \<times> BenchRun \<Rightarrow>
    ('s \<times> BenchRun) panics" where
  "consumer_turn oc pop total_ops now = (\<lambda>(ring, s).
     if \<not> bn_ready s then Some (ring, s\<lparr> bn_ready := True \<rparr>)
     else if bn_got s then do {
       d \<leftarrow> u64_arith oc (uint now - uint (msg_timestamp (bn_buf s)));
       sum \<leftarrow> u64_arith oc (uint (bn_sum s) + uint d);
       count \<leftarrow> u64_arith oc (uint (bn_count s) + 1);
       Some (ring, s\<lparr> bn_got := False, bn_sum := sum, bn_count := count, bn_reads := bn_reads s @ [now] \<rparr>)
     }
     else if bn_count s < total_ops then do {
       (ok, buf, ring) \<leftarrow> pop (bn_buf s) ring;
       Some (ring, s\<lparr> bn_got := ok, bn_buf := buf \<rparr>)
     }
     else if bn_latency s = None then Some (ring, s\<lparr> bn_latency := Some (bn_sum s) \<rparr>)
     else Some (ring, s))"

datatype turn = ProducerAt u64 | ConsumerAt u64

fun bench_turn :: "bool \<Rightarrow> (Msg \<Rightarrow> 's \<Rightarrow> (bool \<times> 's) panics) \<Rightarrow> (Msg \<Rightarrow> 's \<Rightarrow> (bool \<times> Msg \<times> 's) panics) \<Rightarrow> u64 \<Rightarrow>
    turn \<Rightarrow> 's \<times> BenchRun \<Rightarrow> ('s \<times> BenchRun) panics" where
  "bench_turn oc push pop total_ops (ProducerAt now) st = producer_turn oc push total_ops now st"
| "bench_turn oc push pop total_ops (ConsumerAt now) st = consumer_turn oc pop total_ops now st"

fun bench_turns :: "bool \<Rightarrow> (Msg \<Rightarrow> 's \<Rightarrow> (bool \<times> 's) panics) \<Rightarrow> (Msg \<Rightarrow> 's \<Rightarrow> (bool \<times> Msg \<times> 's) panics) \<Rightarrow> u64 \<Rightarrow>
    turn list \<Rightarrow> 's \<times> BenchRun \<Rightarrow> ('s \<times> BenchRun) panics" where
  "bench_turns oc push pop total_ops [] st = Some st"
| "bench_turns oc push pop total_ops (t # ts) st =
     do { st \<leftarrow> bench_turn oc push pop total_ops t st; bench_turns oc push pop total_ops ts st }"

text \<open>Both threads have been joined.\<close>

definition bench_over :: "u64 \<Rightarrow> BenchRun \<Rightarrow> bool" where
  "bench_over total_ops s \<longleftrightarrow> bn_latency s \<noteq> None \<and> bn_msg s = None \<and> \<not> bn_i s < total_ops"

record RunResult =
  rr_total_cycles :: u64
  rr_hw :: "HwCounterDeltas option"

text \<open>The result of a run, when the schedule lets it end; \<open>hw\<close> is what the hardware counters gave.\<close>

definition run_threads :: "(Msg \<Rightarrow> 's \<Rightarrow> (bool \<times> 's) panics) \<Rightarrow> (Msg \<Rightarrow> 's \<Rightarrow> (bool \<times> Msg \<times> 's) panics) \<Rightarrow> 's \<Rightarrow>
    bool \<Rightarrow> u64 \<Rightarrow> HwCounterDeltas option \<Rightarrow> turn list \<Rightarrow> RunResult option panics" where
  "run_threads push pop ring oc total_ops hw ts =
     do {
       (ring, s) \<leftarrow> bench_turns oc push pop total_ops ts (ring, bench_start);
       Some (if bench_over total_ops s then map_option (\<lambda>c. \<lparr> rr_total_cycles = c, rr_hw = hw \<rparr>) (bn_latency s) else None)
     }"

definition run_standalone :: "bool \<Rightarrow> u64 \<Rightarrow> HwCounterDeltas option \<Rightarrow> turn list \<Rightarrow> RunResult option panics" where
  "run_standalone oc total_ops hw ts = run_threads standalone_push standalone_pop standalone_new oc total_ops hw ts"

definition run_raw_ring :: "unit RingCfg \<Rightarrow> (Msg, unit) RawRing \<Rightarrow> bool \<Rightarrow> u64 \<Rightarrow> HwCounterDeltas option \<Rightarrow> turn list \<Rightarrow>
    RunResult option panics" where
  "run_raw_ring cfg ring oc total_ops hw ts = run_threads (raw_push_shared cfg) (raw_pop_shared cfg) ring oc total_ops hw ts"

definition run_raw :: "bool \<Rightarrow> bool \<Rightarrow> u64 \<Rightarrow> HwCounterDeltas option \<Rightarrow> turn list \<Rightarrow> RunResult option panics" where
  "run_raw arm oc total_ops hw ts =
     do { ring \<leftarrow> SpscRing_new 1024; run_raw_ring (masked_cfg oc no_instr arm) ring oc total_ops hw ts }"

definition run_raw_fast :: "bool \<Rightarrow> bool \<Rightarrow> u64 \<Rightarrow> HwCounterDeltas option \<Rightarrow> turn list \<Rightarrow> RunResult option panics" where
  "run_raw_fast arm oc total_ops hw ts =
     do { ring \<leftarrow> SpscRingFast_new 1024; run_raw_ring (branch_cfg no_instr arm) ring oc total_ops hw ts }"

definition run_raw_copy :: "bool \<Rightarrow> bool \<Rightarrow> u64 \<Rightarrow> HwCounterDeltas option \<Rightarrow> turn list \<Rightarrow> RunResult option panics" where
  "run_raw_copy arm oc total_ops hw ts =
     do {
       ring \<leftarrow> SpscRingCopy_new 1024;
       let cfg = masked_cfg oc no_instr arm;
       run_threads (rawc_push_shared cfg) (rawc_pop_shared cfg) ring oc total_ops hw ts
     }"

text \<open>The queue of the crate \<open>rtrb\<close> is an argument.\<close>

definition run_raw_rtrb :: "(Msg \<Rightarrow> 'r \<Rightarrow> (bool \<times> 'r) panics) \<Rightarrow> (Msg \<Rightarrow> 'r \<Rightarrow> (bool \<times> Msg \<times> 'r) panics) \<Rightarrow> 'r \<Rightarrow>
    bool \<Rightarrow> u64 \<Rightarrow> HwCounterDeltas option \<Rightarrow> turn list \<Rightarrow> RunResult option panics" where
  "run_raw_rtrb tx_push rx_pop buffer oc total_ops hw ts = run_threads tx_push rx_pop buffer oc total_ops hw ts"

section \<open>Reports\<close>

text \<open>A number and how many decimals are printed of it.\<close>

definition fmt_per_op :: "u64 \<Rightarrow> u64 \<Rightarrow> nat \<times> f64" where
  "fmt_per_op tot ops =
     (let v = f64_div (f64_of_int (uint tot)) (f64_of_int (uint ops))
      in (if f64_lt v (f64_div (f64_of_int 1) (f64_of_int 20)) then 2 else 1, v))"

text \<open>The lines of a variant: one per run, with the counters when there are any, and the best.\<close>

datatype bench_line = RunLine nat nat f64 "(nat \<times> f64) list option" | BestLine f64

definition per_op :: "u64 \<Rightarrow> u64 \<Rightarrow> f64" where
  "per_op cycles ops = f64_div (f64_of_int (uint cycles)) (f64_of_int (uint ops))"

definition run_line :: "u64 \<Rightarrow> nat \<Rightarrow> nat \<Rightarrow> RunResult \<Rightarrow> bench_line" where
  "run_line ops iterations i result = RunLine i iterations (per_op (rr_total_cycles result) ops)
     (map_option (\<lambda>hw. [fmt_per_op (hw_instructions hw) ops, fmt_per_op (hw_branch_misses hw) ops,
       fmt_per_op (hw_l1d_misses hw) ops, fmt_per_op (hw_llc_misses hw) ops]) (rr_hw result))"

fun run_variant_loop :: "u64 \<Rightarrow> nat \<Rightarrow> nat \<Rightarrow> RunResult list \<Rightarrow> u64 \<Rightarrow> bench_line list" where
  "run_variant_loop ops iterations i [] best = [BestLine (per_op best ops)]"
| "run_variant_loop ops iterations i (result # results) best =
     run_line ops iterations i result #
     run_variant_loop ops iterations (Suc i) results (if rr_total_cycles result < best then rr_total_cycles result else best)"

text \<open>\<open>results\<close> are those of the counted runs, after the warm-up.\<close>

definition run_variant :: "u64 \<Rightarrow> RunResult list \<Rightarrow> bench_line list" where
  "run_variant ops results = run_variant_loop ops (length results) 1 results (- 1)"

text \<open>The variants, in the order they are run.\<close>

definition run_raw_bench :: "bool \<Rightarrow> (Msg \<Rightarrow> 'r \<Rightarrow> (bool \<times> 'r) panics) \<Rightarrow> (Msg \<Rightarrow> 'r \<Rightarrow> (bool \<times> Msg \<times> 'r) panics) \<Rightarrow> 'r \<Rightarrow>
    (string \<times> (bool \<Rightarrow> u64 \<Rightarrow> HwCounterDeltas option \<Rightarrow> turn list \<Rightarrow> RunResult option panics)) list" where
  "run_raw_bench arm tx_push rx_pop buffer =
     [(''standalone RawRing (no library, no generics)'', run_standalone),
      (''mantis-inline Pow2Masked'', run_raw arm),
      (''mantis-inline BranchWrap'', run_raw_fast arm),
      (''mantis-copy'', run_raw_copy arm),
      (''rtrb (push/pop Result)'', run_raw_rtrb tx_push rx_pop buffer)]"

section \<open>Invariant of a run\<close>

definition msg_at :: "u64 \<Rightarrow> u64 \<Rightarrow> Msg" where
  "msg_at now i = the (bench_msg False now i)"

lemma u64_arith_fits: "0 \<le> x \<Longrightarrow> x < 2 ^ 64 \<Longrightarrow> u64_arith oc x = Some (word_of_int x)"
  by (simp add: u64_arith_def)

lemma u64_arith_wraps: "u64_arith False x = Some (word_of_int x)"
  by (simp add: u64_arith_def)

lemma u64_arith_Some: "u64_arith oc x = Some y \<Longrightarrow> y = word_of_int x"
  by (simp add: u64_arith_def split: if_splits)

lemma bench_msg_at: "bench_msg oc now i = Some m \<Longrightarrow> m = msg_at now i"
  by (auto simp: bench_msg_def msg_at_def u64_arith_wraps split: Option.bind_splits dest!: u64_arith_Some)

lemma timestamp_msg_at [simp]: "msg_timestamp (msg_at now i) = now"
  by (simp add: msg_at_def bench_msg_def u64_arith_wraps)

lemma u64_and_inc: "u64_arith oc (uint ((i :: u64) AND 0xFF) + 1) = Some (word_of_int (uint (i AND 0xFF) + 1))"
proof (rule u64_arith_fits)
  have "uint (i AND 0xFF) \<le> 0xFF" unfolding uint_and by (simp add: AND_upper2)
  then have "uint (i AND 0xFF) + 1 \<le> 0x100" by linarith
  also have "(0x100 :: int) < 2 ^ 64" by simp
  finally show "uint (i AND 0xFF) + 1 < 2 ^ 64" .
qed simp

lemma u64_price:
  assumes "uint (i :: u64) * 100 + 1 < 2 ^ 64"
  shows "u64_arith oc (uint i * 100) = Some (word_of_int (uint i * 100))"
    and "u64_arith oc (uint (word_of_int (uint i * 100) :: u64) + 1) = Some (word_of_int (uint (word_of_int (uint i * 100) :: u64) + 1))"
proof -
  have "uint (word_of_int (uint i * 100) :: u64) = uint i * 100"
    unfolding uint_word_of_int by (rule mod_pos_pos_trivial) (use assms in simp_all)
  then show "u64_arith oc (uint i * 100) = Some (word_of_int (uint i * 100))"
    "u64_arith oc (uint (word_of_int (uint i * 100) :: u64) + 1) = Some (word_of_int (uint (word_of_int (uint i * 100) :: u64) + 1))"
    using assms by (simp_all only: u64_arith_def) simp_all
qed

lemma bench_msg_fits:
  assumes "oc \<Longrightarrow> unat i * 100 + 1 < 2 ^ 64"
  shows "bench_msg oc now i = Some (msg_at now i)"
proof -
  have "\<exists>m. bench_msg oc now i = Some m"
  proof (cases oc)
    case True
    have "int (unat i * 100 + 1) < int (2 ^ 64)" using assms [OF True] by (simp only: of_nat_less_iff)
    then have "uint i * 100 + 1 < 2 ^ 64" by simp
    then show ?thesis
      unfolding bench_msg_def by (simp only: u64_price u64_and_inc bind.bind_lunit) blast
  qed (simp add: bench_msg_def u64_arith_wraps)
  then show ?thesis using bench_msg_at by blast
qed

text \<open>The messages not yet counted are those between the consumer's count and the producer's index, each as the producer
  made it; the sum is over those counted.\<close>

definition bench_inv :: "u64 \<Rightarrow> Msg list \<Rightarrow> BenchRun \<Rightarrow> bool" where
  "bench_inv T q s \<longleftrightarrow> (let i = unat (bn_i s); k = unat (bn_count s) in
     i \<le> unat T \<and> k \<le> i \<and> length (bn_reads s) = k \<and> length (bn_stamps s) = (if bn_msg s = None then i else Suc i) \<and>
     (\<forall>m. bn_msg s = Some m \<longrightarrow> i < unat T \<and> m = msg_at (bn_stamps s ! i) (bn_i s)) \<and>
     (if bn_got s then [bn_buf s] else []) @ q = map (\<lambda>j. msg_at (bn_stamps s ! j) (word_of_nat j)) [k..<i] \<and>
     bn_sum s = (\<Sum>j<k. bn_reads s ! j - bn_stamps s ! j) \<and>
     (\<forall>c. bn_latency s = Some c \<longrightarrow> c = bn_sum s \<and> k = unat T) \<and> (\<not> bn_ready s \<longrightarrow> s = bench_start))"

definition timely :: "nat \<Rightarrow> BenchRun \<Rightarrow> bool" where
  "timely c s \<longleftrightarrow> (\<forall>t \<in> set (bn_stamps s). unat t \<le> c) \<and> (\<forall>t \<in> set (bn_reads s). unat t \<le> c) \<and>
     (\<forall>j < length (bn_reads s). bn_stamps s ! j \<le> bn_reads s ! j)"

text \<open>How much the two threads have still to do.\<close>

definition work :: "u64 \<Rightarrow> BenchRun \<Rightarrow> nat" where
  "work T s = (if bn_ready s then 0 else 1) + (2 * (unat T - unat (bn_i s)) - (if bn_msg s = None then 0 else 1)) +
     (2 * (unat T - unat (bn_count s)) - (if bn_got s then 1 else 0)) + (if bn_latency s = None then 1 else 0)"

lemma inv_start: "bench_inv T [] bench_start"
  by (simp add: bench_inv_def bench_start_def)

lemma work_start: "work T bench_start = 4 * unat T + 2"
  by (simp add: work_def bench_start_def)

lemma inv_build:
  assumes "bench_inv T q s" "bn_ready s" "bn_msg s = None" "bn_i s < T"
  shows "bench_inv T q (s\<lparr> bn_msg := Some (msg_at now (bn_i s)), bn_stamps := bn_stamps s @ [now] \<rparr>)"
proof -
  from assms have "length (bn_stamps s) = unat (bn_i s)" "unat (bn_count s) \<le> unat (bn_i s)"
    by (simp_all add: bench_inv_def Let_def)
  then show ?thesis
    using assms by (auto simp: bench_inv_def Let_def nth_append word_less_nat_alt intro!: sum.cong)
qed

lemma unat_Suc_below: "unat (x :: u64) < unat (y :: u64) \<Longrightarrow> unat (x + 1) = Suc (unat x)"
  using unsigned_less [where 'a = nat, of y] by (simp add: unat_word_ariths)

lemma inv_push:
  assumes "bench_inv T q s" "bn_ready s" "bn_msg s = Some m"
  shows "bench_inv T (q @ [m]) (s\<lparr> bn_msg := None, bn_i := bn_i s + 1 \<rparr>)"
proof -
  from assms have "unat (bn_i s) < unat T" "unat (bn_count s) \<le> unat (bn_i s)" by (simp_all add: bench_inv_def Let_def)
  then show ?thesis
    using assms unat_Suc_below [of "bn_i s" T] by (auto simp: bench_inv_def Let_def)
qed

lemma inv_pop:
  "bench_inv T (m # q) s \<Longrightarrow> bn_ready s \<Longrightarrow> \<not> bn_got s \<Longrightarrow> bench_inv T q (s\<lparr> bn_got := True, bn_buf := m \<rparr>)"
  by (auto simp: bench_inv_def Let_def)

lemma inv_got:
  assumes "bench_inv T q s" "bn_got s"
  shows "unat (bn_count s) < unat (bn_i s)" "unat (bn_i s) \<le> unat T"
    and "msg_timestamp (bn_buf s) = bn_stamps s ! unat (bn_count s)"
    and "q = map (\<lambda>j. msg_at (bn_stamps s ! j) (word_of_nat j)) [Suc (unat (bn_count s))..<unat (bn_i s)]"
proof -
  have eq: "bn_buf s # q = map (\<lambda>j. msg_at (bn_stamps s ! j) (word_of_nat j)) [unat (bn_count s)..<unat (bn_i s)]"
    using assms by (simp add: bench_inv_def Let_def)
  show k: "unat (bn_count s) < unat (bn_i s)" using eq by (cases "unat (bn_count s) < unat (bn_i s)") simp_all
  show "unat (bn_i s) \<le> unat T" using assms by (simp add: bench_inv_def Let_def)
  show "msg_timestamp (bn_buf s) = bn_stamps s ! unat (bn_count s)"
    "q = map (\<lambda>j. msg_at (bn_stamps s ! j) (word_of_nat j)) [Suc (unat (bn_count s))..<unat (bn_i s)]"
    using eq k by (simp_all add: upt_conv_Cons)
qed

lemma inv_count:
  assumes "bench_inv T q s" "bn_ready s" "bn_got s"
  shows "bench_inv T q (s\<lparr> bn_got := False, bn_sum := bn_sum s + (now - msg_timestamp (bn_buf s)),
    bn_count := bn_count s + 1, bn_reads := bn_reads s @ [now] \<rparr>)"
proof -
  note g = inv_got [OF assms(1,3)]
  have "unat (bn_count s) < unat T" using g by simp
  then show ?thesis
    using assms g unat_Suc_below [of "bn_count s" "bn_i s"]
    by (auto simp: bench_inv_def Let_def nth_append intro!: sum.cong)
qed

lemma inv_store:
  assumes "bench_inv T q s" "bn_ready s" "\<not> bn_count s < T"
  shows "bench_inv T q (s\<lparr> bn_latency := Some (bn_sum s) \<rparr>)"
  using assms by (auto simp: bench_inv_def Let_def word_less_nat_alt)

lemma inv_ready: "bench_inv T q s \<Longrightarrow> bench_inv T q (s\<lparr> bn_ready := True \<rparr>)"
  by (auto simp: bench_inv_def Let_def)

text \<open>Sums of differences of clock readings do not wrap as long as the readings are small and in order.\<close>

lemma unat_sum_diffs:
  fixes a b :: "nat \<Rightarrow> u64"
  assumes "\<forall>j<k. b j \<le> a j \<and> unat (a j) \<le> c" "k * c < 2 ^ 64"
  shows "unat (\<Sum>j<k. a j - b j) = (\<Sum>j<k. unat (a j) - unat (b j))" "(\<Sum>j<k. unat (a j) - unat (b j)) \<le> k * c"
proof -
  have "unat (\<Sum>j<k. a j - b j) = (\<Sum>j<k. unat (a j) - unat (b j)) \<and> (\<Sum>j<k. unat (a j) - unat (b j)) \<le> k * c"
    using assms
  proof (induction k)
    case (Suc k)
    then have ih: "unat (\<Sum>j<k. a j - b j) = (\<Sum>j<k. unat (a j) - unat (b j))"
      "(\<Sum>j<k. unat (a j) - unat (b j)) \<le> k * c" by simp_all
    have d: "unat (a k - b k) = unat (a k) - unat (b k)" "unat (a k) \<le> c"
      using Suc.prems(1) by (simp_all add: unat_sub)
    then have "unat (\<Sum>j<k. a j - b j) + unat (a k - b k) < 2 ^ 64" using ih Suc.prems(2) by simp
    then have "unat ((\<Sum>j<k. a j - b j) + (a k - b k)) = unat (\<Sum>j<k. a j - b j) + unat (a k - b k)"
      by (subst unat_add_lem [symmetric]) simp
    then show ?case using ih d by simp
  qed simp
  then show "unat (\<Sum>j<k. a j - b j) = (\<Sum>j<k. unat (a j) - unat (b j))" "(\<Sum>j<k. unat (a j) - unat (b j)) \<le> k * c"
    by simp_all
qed

text \<open>Enough room for the arithmetic of a checked build at clock \<open>c\<close>.\<close>

definition clock_fits :: "u64 \<Rightarrow> nat \<Rightarrow> bool" where
  "clock_fits T c \<longleftrightarrow> unat T * c < 2 ^ 64 \<and> unat T * 100 < 2 ^ 64"

lemma count_fits:
  assumes inv: "bench_inv T q s" and "bn_got s"
    and clock: "oc \<Longrightarrow> timely c s \<and> c \<le> unat now \<and> clock_fits T (unat now)"
  shows "u64_arith oc (uint now - uint (msg_timestamp (bn_buf s))) = Some (now - msg_timestamp (bn_buf s))"
    and "u64_arith oc (uint (bn_sum s) + uint (now - msg_timestamp (bn_buf s))) = Some (bn_sum s + (now - msg_timestamp (bn_buf s)))"
    and "u64_arith oc (uint (bn_count s) + 1) = Some (bn_count s + 1)"
proof -
  note g = inv_got [OF inv assms(2)]
  let ?k = "unat (bn_count s)" and ?ts = "msg_timestamp (bn_buf s)"
  have lens: "length (bn_reads s) = ?k" "?k < length (bn_stamps s)" "bn_sum s = (\<Sum>j<?k. bn_reads s ! j - bn_stamps s ! j)"
    using inv g(1) by (auto simp: bench_inv_def Let_def split: if_splits)
  have fits: "?ts \<le> now \<and> unat (bn_sum s) + unat (now - ?ts) < 2 ^ 64 \<and> Suc ?k < 2 ^ 64" if oc
  proof -
    note c = clock [OF that]
    have "unat ?ts \<le> c" using c g(3) lens(2) by (auto simp: timely_def)
    then have le: "?ts \<le> now" using c by (auto simp: word_le_nat_alt)
    have mono: "Suc ?k * unat now \<le> unat T * unat now" using g(1,2) by (intro mult_le_mono1) simp
    then have "?k * unat now < 2 ^ 64" using c by (simp add: clock_fits_def)
    moreover have "\<forall>j<?k. bn_stamps s ! j \<le> bn_reads s ! j \<and> unat (bn_reads s ! j) \<le> unat now"
      using c lens(1) by (auto simp: timely_def intro: le_trans [where j = c])
    ultimately have "unat (bn_sum s) \<le> ?k * unat now" unfolding lens(3)
      using unat_sum_diffs [of ?k "\<lambda>j. bn_stamps s ! j" "\<lambda>j. bn_reads s ! j" "unat now"] by simp
    moreover have "unat (now - ?ts) \<le> unat now" using le by (simp add: unat_sub)
    moreover have "unat (bn_i s) < 2 ^ 64" using unsigned_less [where 'a = nat, of "bn_i s"] by simp
    ultimately show ?thesis using le mono c g(1) by (simp add: clock_fits_def)
  qed
  have w: "u64_arith oc (uint x + uint y) = Some (x + y)" if "oc \<Longrightarrow> unat x + unat y < 2 ^ 64" for x y :: u64
  proof -
    have "oc \<Longrightarrow> int (unat x + unat y) < int (2 ^ 64)" using that by (simp only: of_nat_less_iff)
    then show ?thesis by (auto simp: u64_arith_def)
  qed
  show "u64_arith oc (uint now - uint ?ts) = Some (now - ?ts)"
  proof -
    have "oc \<Longrightarrow> 0 \<le> uint now - uint ?ts \<and> uint now - uint ?ts < 2 ^ 64"
      using fits unsigned_less [where 'a = int, of now] unsigned_greater_eq [where 'a = int, of ?ts]
      unfolding word_le_def by (simp, linarith)
    then show ?thesis by (auto simp: u64_arith_def)
  qed
  show "u64_arith oc (uint (bn_sum s) + uint (now - ?ts)) = Some (bn_sum s + (now - ?ts))"
    using fits by (intro w) simp
  show "u64_arith oc (uint (bn_count s) + 1) = Some (bn_count s + 1)" using w [of "bn_count s" 1] fits by simp
qed

section \<open>The contract of a queue and the run\<close>

fun turn_time :: "turn \<Rightarrow> u64" where
  "turn_time (ProducerAt t) = t"
| "turn_time (ConsumerAt t) = t"

text \<open>A turn that changes nothing: the thread waits for the other, or has ended.\<close>

fun idle_turn :: "nat \<Rightarrow> u64 \<Rightarrow> turn \<Rightarrow> Msg list \<Rightarrow> BenchRun \<Rightarrow> bool" where
  "idle_turn n T (ProducerAt t) q s \<longleftrightarrow> \<not> bn_ready s \<or> (if bn_msg s = None then \<not> bn_i s < T else n \<le> length q)"
| "idle_turn n T (ConsumerAt t) q s \<longleftrightarrow> bn_ready s \<and> \<not> bn_got s \<and> (if bn_count s < T then q = [] else bn_latency s \<noteq> None)"

text \<open>Both threads have ended exactly when no work is left, and they cannot both wait.\<close>

lemma over_iff_no_work:
  assumes "bench_inv T q s"
  shows "bench_over T s \<longleftrightarrow> work T s = 0"
  using assms by (auto simp: bench_inv_def bench_over_def work_def Let_def bench_start_def word_less_nat_alt split: if_splits)

lemma both_idle_over:
  assumes "bench_inv T q s" "0 < n" "idle_turn n T (ProducerAt t) q s" "idle_turn n T (ConsumerAt t') q s"
  shows "bench_over T s"
proof -
  have I: "bn_ready s" "\<not> bn_got s" using assms(4) by simp_all
  have q: "q = map (\<lambda>j. msg_at (bn_stamps s ! j) (word_of_nat j)) [unat (bn_count s)..<unat (bn_i s)]"
    "unat (bn_count s) \<le> unat (bn_i s)" "unat (bn_i s) \<le> unat T" "bn_msg s \<noteq> None \<Longrightarrow> unat (bn_i s) < unat T"
    using assms(1) I by (auto simp: bench_inv_def Let_def)
  show ?thesis
  proof (cases "bn_msg s")
    case None
    then have "unat (bn_i s) = unat T" using assms(3) I q(3) by (simp add: word_less_nat_alt)
    moreover from this have "bn_latency s \<noteq> None" using assms(4) q(1) by (auto simp: word_less_nat_alt split: if_splits)
    ultimately show ?thesis using None by (simp add: bench_over_def word_less_nat_alt)
  next
    case (Some m)
    then have "n \<le> length q" using assms(3) I by simp
    moreover have "bn_count s < T" using q(2) q(4) Some by (simp add: word_less_nat_alt)
    ultimately show ?thesis using assms(2,4) by (simp split: if_splits)
  qed
qed

text \<open>The recorded readings are readings of the schedule.\<close>

definition producer_clocks :: "turn list \<Rightarrow> u64 list" where
  "producer_clocks ts = concat (map (\<lambda>t. case t of ProducerAt c \<Rightarrow> [c] | ConsumerAt c \<Rightarrow> []) ts)"

definition consumer_clocks :: "turn list \<Rightarrow> u64 list" where
  "consumer_clocks ts = concat (map (\<lambda>t. case t of ProducerAt c \<Rightarrow> [] | ConsumerAt c \<Rightarrow> [c]) ts)"

lemma turn_history:
  assumes "bench_turn oc push pop T t (r, s) = Some (r', s')"
  shows "\<exists>xs ys. bn_stamps s' = bn_stamps s @ xs \<and> subseq xs (producer_clocks [t]) \<and>
    bn_reads s' = bn_reads s @ ys \<and> subseq ys (consumer_clocks [t])"
proof (cases t)
  case (ProducerAt now)
  then have "bn_reads s' = bn_reads s \<and> (bn_stamps s' = bn_stamps s \<or> bn_stamps s' = bn_stamps s @ [now])"
    using assms by (auto simp: producer_turn_def split: if_splits option.splits Option.bind_splits)
  then show ?thesis by (auto simp: ProducerAt producer_clocks_def)
next
  case (ConsumerAt now)
  then have "bn_stamps s' = bn_stamps s \<and> (bn_reads s' = bn_reads s \<or> bn_reads s' = bn_reads s @ [now])"
    using assms by (auto simp: consumer_turn_def split: if_splits Option.bind_splits)
  then show ?thesis by (auto simp: ConsumerAt consumer_clocks_def)
qed

lemma turns_history:
  "bench_turns oc push pop T ts (r, s) = Some (r', s') \<Longrightarrow>
   \<exists>xs ys. bn_stamps s' = bn_stamps s @ xs \<and> subseq xs (producer_clocks ts) \<and>
     bn_reads s' = bn_reads s @ ys \<and> subseq ys (consumer_clocks ts)"
proof (induction ts arbitrary: r s)
  case (Cons t ts)
  then obtain r1 s1 where t: "bench_turn oc push pop T t (r, s) = Some (r1, s1)"
    "bench_turns oc push pop T ts (r1, s1) = Some (r', s')" by (auto split: Option.bind_splits)
  obtain xs ys where "bn_stamps s1 = bn_stamps s @ xs" "subseq xs (producer_clocks [t])"
    "bn_reads s1 = bn_reads s @ ys" "subseq ys (consumer_clocks [t])" using turn_history [OF t(1)] by blast
  moreover obtain xs' ys' where "bn_stamps s' = bn_stamps s1 @ xs'" "subseq xs' (producer_clocks ts)"
    "bn_reads s' = bn_reads s1 @ ys'" "subseq ys' (consumer_clocks ts)" using Cons.IH [OF t(2)] by blast
  moreover have "producer_clocks (t # ts) = producer_clocks [t] @ producer_clocks ts"
    "consumer_clocks (t # ts) = consumer_clocks [t] @ consumer_clocks ts"
    by (simp_all add: producer_clocks_def consumer_clocks_def)
  ultimately show ?case
    by (intro exI [of _ "xs @ xs'"] exI [of _ "ys @ ys'"]) (simp add: list_emb_append_mono)
qed (simp add: producer_clocks_def consumer_clocks_def)

lemma timely_turn:
  assumes turn: "bench_turn oc push pop T t (r, s) = Some (r', s')" and "timely c s" "c \<le> unat (turn_time t)"
    and "bench_inv T q s" "bench_inv T q' s'"
  shows "timely (unat (turn_time t)) s'"
proof -
  have len: "length (bn_reads s) \<le> length (bn_stamps s)" "length (bn_reads s') \<le> length (bn_stamps s')"
    using assms(4,5) by (auto simp: bench_inv_def Let_def)
  have up: "unat x \<le> unat (turn_time t)" if "unat x \<le> c" for x :: u64 using that assms(3) by simp
  from turn have "bn_stamps s' \<in> {bn_stamps s, bn_stamps s @ [turn_time t]} \<and> bn_reads s' = bn_reads s \<or>
      bn_stamps s' = bn_stamps s \<and> bn_reads s' = bn_reads s @ [turn_time t]"
    by (cases t) (auto simp: producer_turn_def consumer_turn_def split: if_splits option.splits Option.bind_splits)
  then show ?thesis
  proof
    assume "bn_stamps s' \<in> {bn_stamps s, bn_stamps s @ [turn_time t]} \<and> bn_reads s' = bn_reads s"
    then show ?thesis using assms(2) len(1) by (auto simp: timely_def nth_append up)
  next
    assume new: "bn_stamps s' = bn_stamps s \<and> bn_reads s' = bn_reads s @ [turn_time t]"
    then have "bn_stamps s ! length (bn_reads s) \<in> set (bn_stamps s)" using len(2) by simp
    then have "bn_stamps s ! length (bn_reads s) \<le> turn_time t"
      using assms(2) up unfolding timely_def word_le_nat_alt by blast
    then show ?thesis using assms(2) new by (auto simp: timely_def nth_append less_Suc_eq up)
  qed
qed

fun in_order :: "nat \<Rightarrow> turn list \<Rightarrow> bool" where
  "in_order c [] \<longleftrightarrow> True"
| "in_order c (t # ts) \<longleftrightarrow> c \<le> unat (turn_time t) \<and> in_order (unat (turn_time t)) ts"

fun final_time :: "nat \<Rightarrow> turn list \<Rightarrow> nat" where
  "final_time c [] = c"
| "final_time c (t # ts) = final_time (unat (turn_time t)) ts"

lemma in_order_append: "in_order c (ts @ us) \<longleftrightarrow> in_order c ts \<and> in_order (final_time c ts) us"
  by (induction ts arbitrary: c) simp_all

lemma sorted_in_order:
  "sorted (map turn_time ts) \<Longrightarrow> \<forall>t \<in> set ts. c \<le> unat (turn_time t) \<Longrightarrow> in_order c ts"
  by (induction ts arbitrary: c) (simp_all add: word_le_nat_alt)

lemma bench_turns_append:
  "bench_turns oc push pop T (ts @ us) st = do { st \<leftarrow> bench_turns oc push pop T ts st; bench_turns oc push pop T us st }"
  by (induction ts arbitrary: st) (simp_all split: Option.bind_split)

text \<open>A round in which each thread gets a turn.\<close>

definition fair_round :: "turn list \<Rightarrow> bool" where
  "fair_round ts \<longleftrightarrow> (\<exists>t. ProducerAt t \<in> set ts) \<and> (\<exists>t. ConsumerAt t \<in> set ts)"

text \<open>What a result should be: one stamp and one reading per message, from the schedule in order, and the sum of the
  differences; no difference is negative when the clock does not run backwards.\<close>

definition sums_delays :: "turn list \<Rightarrow> u64 \<Rightarrow> u64 \<Rightarrow> bool" where
  "sums_delays ts T cycles \<longleftrightarrow> (\<exists>stamps reads. length stamps = unat T \<and> length reads = unat T \<and>
     subseq stamps (producer_clocks ts) \<and> subseq reads (consumer_clocks ts) \<and>
     cycles = (\<Sum>j<unat T. reads ! j - stamps ! j) \<and>
     (sorted (map turn_time ts) \<longrightarrow> (\<forall>j<unat T. stamps ! j \<le> reads ! j)))"

locale bench_queue =
  fixes rep :: "'s \<Rightarrow> Msg list \<Rightarrow> bool"
    and n :: nat
    and push :: "Msg \<Rightarrow> 's \<Rightarrow> (bool \<times> 's) panics"
    and pop :: "Msg \<Rightarrow> 's \<Rightarrow> (bool \<times> Msg \<times> 's) panics"
  assumes push_ok: "rep r q \<Longrightarrow> \<exists>r'. push m r = Some (length q < n, r') \<and> rep r' (if length q < n then q @ [m] else q)"
    and pop_ok: "rep r q \<Longrightarrow> \<exists>r'. pop out r = Some (q \<noteq> [], if q = [] then out else hd q, r') \<and> rep r' (tl q)"
    and room: "0 < n"
begin

lemma producer_ok:
  assumes "rep r q" "bench_inv T q s" and clock: "oc \<Longrightarrow> clock_fits T (unat now)"
  shows "\<exists>r' s' q'. producer_turn oc push T now (r, s) = Some (r', s') \<and> rep r' q' \<and> bench_inv T q' s' \<and>
    (work T s' < work T s \<or> s' = s \<and> q' = q \<and> idle_turn n T (ProducerAt now) q s)"
proof (cases "bn_ready s")
  case ready: True
  note I = assms(2) [unfolded bench_inv_def Let_def]
  show ?thesis
  proof (cases "bn_msg s")
    case None
    show ?thesis
    proof (cases "bn_i s < T")
      case True
      then have i: "unat (bn_i s) < unat T" by (simp add: word_less_nat_alt)
      have "bench_msg oc now (bn_i s) = Some (msg_at now (bn_i s))"
        using clock i by (intro bench_msg_fits) (simp add: clock_fits_def)
      moreover have "work T (s\<lparr> bn_msg := Some (msg_at now (bn_i s)), bn_stamps := bn_stamps s @ [now] \<rparr>) < work T s"
        using i None by (simp add: work_def)
      ultimately show ?thesis
        using assms(1) inv_build [OF assms(2) ready None True, of now] ready None True by (auto simp: producer_turn_def)
    qed (use assms None ready in \<open>auto simp: producer_turn_def\<close>)
  next
    case (Some m)
    then have i: "unat (bn_i s) < unat T" using I by simp
    obtain r' where r': "push m r = Some (length q < n, r')" "rep r' (if length q < n then q @ [m] else q)"
      using push_ok [OF assms(1)] by blast
    show ?thesis
    proof (cases "length q < n")
      case True
      have "work T (s\<lparr> bn_msg := None, bn_i := bn_i s + 1 \<rparr>) < work T s"
        using Some i unat_Suc_below [OF i] by (simp add: work_def)
      then show ?thesis
        using r' True ready Some inv_push [OF assms(2) ready Some] by (auto simp: producer_turn_def)
    qed (use r' ready Some assms(2) in \<open>auto simp: producer_turn_def\<close>)
  qed
qed (use assms in \<open>auto simp: producer_turn_def\<close>)

lemma consumer_ok:
  assumes "rep r q" "bench_inv T q s" and clock: "oc \<Longrightarrow> timely c s \<and> c \<le> unat now \<and> clock_fits T (unat now)"
  shows "\<exists>r' s' q'. consumer_turn oc pop T now (r, s) = Some (r', s') \<and> rep r' q' \<and> bench_inv T q' s' \<and>
    (work T s' < work T s \<or> s' = s \<and> q' = q \<and> idle_turn n T (ConsumerAt now) q s)"
proof -
  consider "\<not> bn_ready s" | "bn_ready s" "bn_got s" | "bn_ready s" "\<not> bn_got s" "bn_count s < T"
    | "bn_ready s" "\<not> bn_got s" "\<not> bn_count s < T" by blast
  then show ?thesis
  proof cases
    case 1
    have "work T (s\<lparr> bn_ready := True \<rparr>) < work T s" using 1 by (simp add: work_def)
    then show ?thesis using assms(1) inv_ready [OF assms(2)] 1 by (auto simp: consumer_turn_def)
  next
    case 2
    let ?s = "s\<lparr> bn_got := False, bn_sum := bn_sum s + (now - msg_timestamp (bn_buf s)), bn_count := bn_count s + 1,
      bn_reads := bn_reads s @ [now] \<rparr>"
    have turn: "consumer_turn oc pop T now (r, s) = Some (r, ?s)"
      using 2 by (simp add: consumer_turn_def count_fits [OF assms(2) 2(2) clock] cong: if_cong)
    have "work T ?s < work T s"
      using 2 inv_got(1,2) [OF assms(2) 2(2)] unat_Suc_below [of "bn_count s" "bn_i s"] by (simp add: work_def)
    then show ?thesis using turn assms(1) inv_count [OF assms(2) 2, of now] by blast
  next
    case 3
    obtain r' where r': "pop (bn_buf s) r = Some (q \<noteq> [], if q = [] then bn_buf s else hd q, r')" "rep r' (tl q)"
      using pop_ok [OF assms(1)] by blast
    show ?thesis
    proof (cases q)
      case Nil
      have "consumer_turn oc pop T now (r, s) = Some (r', s)" using r'(1) 3 Nil by (simp add: consumer_turn_def)
      then show ?thesis using r'(2) 3 Nil assms(2) by auto
    next
      case (Cons m q')
      have "work T (s\<lparr> bn_got := True, bn_buf := m \<rparr>) < work T s"
        using 3 by (simp add: work_def word_less_nat_alt)
      then show ?thesis
        using r' 3 Cons inv_pop [OF assms(2) [unfolded Cons] 3(1,2)] by (auto simp: consumer_turn_def)
    qed
  next
    case 4
    have "bn_latency s = None \<Longrightarrow> work T (s\<lparr> bn_latency := Some (bn_sum s) \<rparr>) < work T s" by (simp add: work_def)
    then show ?thesis
      using assms(1,2) 4 inv_store [OF assms(2) 4(1,3)] by (cases "bn_latency s = None") (auto simp: consumer_turn_def)
  qed
qed

lemma turn_ok:
  assumes "rep r q" "bench_inv T q s"
    and "oc \<Longrightarrow> timely c s \<and> c \<le> unat (turn_time t) \<and> clock_fits T (unat (turn_time t))"
  shows "\<exists>r' s' q'. bench_turn oc push pop T t (r, s) = Some (r', s') \<and> rep r' q' \<and> bench_inv T q' s' \<and>
    (work T s' < work T s \<or> s' = s \<and> q' = q \<and> idle_turn n T t q s)"
proof (cases t)
  case (ProducerAt now)
  show ?thesis using producer_ok [OF assms(1,2), of oc now] assms(3) unfolding ProducerAt bench_turn.simps by simp
next
  case (ConsumerAt now)
  show ?thesis using consumer_ok [OF assms(1,2), of oc c now] assms(3) unfolding ConsumerAt bench_turn.simps by simp
qed

lemma bench_run_ok:
  assumes "rep r q" "bench_inv T q s"
    and "oc \<Longrightarrow> timely c s \<and> in_order c ts \<and> (\<forall>t \<in> set ts. clock_fits T (unat (turn_time t)))"
  shows "\<exists>r' s' q'. bench_turns oc push pop T ts (r, s) = Some (r', s') \<and> rep r' q' \<and> bench_inv T q' s' \<and>
    (timely c s \<and> in_order c ts \<longrightarrow> timely (final_time c ts) s') \<and>
    (work T s' < work T s \<or> s' = s \<and> q' = q \<and> (\<forall>t \<in> set ts. idle_turn n T t q s))"
  using assms
proof (induction ts arbitrary: r s q c)
  case (Cons t ts)
  obtain r1 s1 q1 where 1: "bench_turn oc push pop T t (r, s) = Some (r1, s1)" "rep r1 q1" "bench_inv T q1 s1"
    "work T s1 < work T s \<or> s1 = s \<and> q1 = q \<and> idle_turn n T t q s"
    using turn_ok [OF Cons.prems(1,2), of oc c t] Cons.prems(3) by auto
  have timely: "timely (unat (turn_time t)) s1" if "timely c s" "in_order c (t # ts)"
    using timely_turn [OF 1(1) _ _ Cons.prems(2) 1(3), of c] that by simp
  have "oc \<Longrightarrow> timely (unat (turn_time t)) s1 \<and> in_order (unat (turn_time t)) ts \<and>
      (\<forall>t \<in> set ts. clock_fits T (unat (turn_time t)))"
    using Cons.prems(3) timely by simp
  from Cons.IH [OF 1(2,3) this] obtain r2 s2 q2 where 2: "bench_turns oc push pop T ts (r1, s1) = Some (r2, s2)"
    "rep r2 q2" "bench_inv T q2 s2"
    "timely (unat (turn_time t)) s1 \<and> in_order (unat (turn_time t)) ts \<longrightarrow> timely (final_time (unat (turn_time t)) ts) s2"
    "work T s2 < work T s1 \<or> s2 = s1 \<and> q2 = q1 \<and> (\<forall>t \<in> set ts. idle_turn n T t q1 s1)" by blast
  have "work T s2 < work T s \<or> s2 = s \<and> q2 = q \<and> (\<forall>t \<in> set (t # ts). idle_turn n T t q s)"
    using 1(4) 2(5) by auto
  then show ?case using 1(1) 2 timely by auto
qed auto

lemma rounds_end:
  assumes "rep r q" "bench_inv T q s" "\<forall>ts \<in> set rounds. fair_round ts" "work T s \<le> length rounds"
    and "oc \<Longrightarrow> timely c s \<and> in_order c (concat rounds) \<and> (\<forall>t \<in> set (concat rounds). clock_fits T (unat (turn_time t)))"
  shows "\<exists>r' s'. bench_turns oc push pop T (concat rounds) (r, s) = Some (r', s') \<and> bench_over T s'"
  using assms
proof (induction rounds arbitrary: r s q c)
  case Nil
  then show ?case using over_iff_no_work by simp
next
  case (Cons ts rounds)
  have "oc \<Longrightarrow> timely c s \<and> in_order c ts \<and> (\<forall>t \<in> set ts. clock_fits T (unat (turn_time t)))"
    using Cons.prems(5) by (auto simp: in_order_append)
  from bench_run_ok [OF Cons.prems(1,2) this] obtain r1 s1 q1 where
    1: "bench_turns oc push pop T ts (r, s) = Some (r1, s1)" "rep r1 q1" "bench_inv T q1 s1"
      "timely c s \<and> in_order c ts \<longrightarrow> timely (final_time c ts) s1"
      "work T s1 < work T s \<or> s1 = s \<and> q1 = q \<and> (\<forall>t \<in> set ts. idle_turn n T t q s)" by blast
  have "work T s1 \<le> length rounds"
  proof (cases "work T s1 < work T s")
    case False
    then have idle: "s1 = s" "\<forall>t \<in> set ts. idle_turn n T t q s" using 1(5) by auto
    have "fair_round ts" using Cons.prems(3) by simp
    then have "bench_over T s" using idle(2) both_idle_over [OF Cons.prems(2) room] unfolding fair_round_def by blast
    then show ?thesis using idle(1) over_iff_no_work [OF Cons.prems(2)] by simp
  qed (use Cons.prems(4) in simp)
  then have "\<exists>r' s'. bench_turns oc push pop T (concat rounds) (r1, s1) = Some (r', s') \<and> bench_over T s'"
    using Cons.prems(3,5) 1(4) by (intro Cons.IH [OF 1(2,3), of "final_time c ts"]) (auto simp: in_order_append)
  then show ?case using 1(1) by (simp add: bench_turns_append)
qed

text \<open>What a run measures.\<close>

lemma run_threads_measures:
  assumes "rep ring []" and clock: "oc \<Longrightarrow> sorted (map turn_time ts) \<and> (\<forall>t \<in> set ts. clock_fits T (unat (turn_time t)))"
  shows "\<exists>out. run_threads push pop ring oc T hw ts = Some out \<and>
    (\<forall>res. out = Some res \<longrightarrow> rr_hw res = hw \<and> sums_delays ts T (rr_total_cycles res)) \<and>
    (\<forall>rounds. ts = concat rounds \<and> (\<forall>r \<in> set rounds. fair_round r) \<and> 4 * unat T + 2 \<le> length rounds \<longrightarrow> out \<noteq> None)"
proof -
  have start: "timely 0 bench_start" by (simp add: timely_def bench_start_def)
  have ord: "in_order 0 ts" if "sorted (map turn_time ts)" using sorted_in_order [OF that, of 0] by simp
  have c: "oc \<Longrightarrow> timely 0 bench_start \<and> in_order 0 ts \<and> (\<forall>t \<in> set ts. clock_fits T (unat (turn_time t)))"
    using clock start ord by blast
  obtain r' s' q' where run: "bench_turns oc push pop T ts (ring, bench_start) = Some (r', s')" "bench_inv T q' s'"
    "in_order 0 ts \<longrightarrow> timely (final_time 0 ts) s'"
    using bench_run_ok [OF assms(1) inv_start c] start by blast
  obtain stamps reads where h: "bn_stamps s' = stamps" "subseq stamps (producer_clocks ts)" "bn_reads s' = reads"
    "subseq reads (consumer_clocks ts)" using turns_history [OF run(1)] by (auto simp: bench_start_def)
  let ?out = "if bench_over T s' then map_option (\<lambda>c. \<lparr> rr_total_cycles = c, rr_hw = hw \<rparr>) (bn_latency s') else None"
  have "rr_hw res = hw \<and> sums_delays ts T (rr_total_cycles res)" if "?out = Some res" for res
    unfolding sums_delays_def using that run(2,3) h ord
    by (intro conjI exI [of _ stamps] exI [of _ reads])
      (auto simp: bench_inv_def bench_over_def Let_def timely_def word_less_nat_alt split: if_splits)
  moreover have "?out \<noteq> None" if "ts = concat rounds" "\<forall>r \<in> set rounds. fair_round r" "4 * unat T + 2 \<le> length rounds" for rounds
    using rounds_end [OF assms(1) inv_start that(2), of T oc 0] that(1,3) c run(1)
    by (auto simp: work_start bench_over_def)
  moreover have "run_threads push pop ring oc T hw ts = Some ?out" using run(1) by (simp add: run_threads_def)
  ultimately show ?thesis by blast
qed

end

section \<open>The rings\<close>

lemma raw_bench_queue:
  fixes cfg :: "'i RingCfg"
  assumes "ring_config cfg"
  shows "bench_queue (\<lambda>(r :: (Msg, 'i) RawRing) q. ring_rep cfg (raw_engine r) q \<and> ring_capacity (raw_engine r) = 1023) 1023
    (raw_push_shared cfg) (raw_pop_shared cfg)"
proof unfold_locales
  note b = ring_config_bounded_queue [OF assms]
  fix r :: "(Msg, 'i) RawRing" and q m out
  assume rep: "ring_rep cfg (raw_engine r) q \<and> ring_capacity (raw_engine r) = 1023"
  show "\<exists>r'. raw_push_shared cfg m r = Some (length q < 1023, r') \<and>
      ring_rep cfg (raw_engine r') (if length q < 1023 then q @ [m] else q) \<and> ring_capacity (raw_engine r') = 1023"
    using bounded_queue.push_ok [OF b, of "raw_engine r" q m] rep by (auto simp: raw_push_shared_def)
  show "\<exists>r'. raw_pop_shared cfg out r = Some (q \<noteq> [], if q = [] then out else hd q, r') \<and>
      ring_rep cfg (raw_engine r') (tl q) \<and> ring_capacity (raw_engine r') = 1023"
    using bounded_queue.pop_ok [OF b, of "raw_engine r" q] rep by (cases q) (auto simp: raw_pop_shared_def)
qed simp

lemma rawc_bench_queue:
  fixes cfg :: "'i RingCfg"
  assumes "copy_ring_config cfg"
  shows "bench_queue (\<lambda>(r :: (Msg, 'i) RawRingCopy) q. copy_rep cfg (rawc_engine r) q \<and> ring_capacity (rawc_engine r) = 1023) 1023
    (rawc_push_shared cfg) (rawc_pop_shared cfg)"
proof unfold_locales
  note b = copy_config_bounded_queue [OF assms]
  fix r :: "(Msg, 'i) RawRingCopy" and q m out
  assume rep: "copy_rep cfg (rawc_engine r) q \<and> ring_capacity (rawc_engine r) = 1023"
  show "\<exists>r'. rawc_push_shared cfg m r = Some (length q < 1023, r') \<and>
      copy_rep cfg (rawc_engine r') (if length q < 1023 then q @ [m] else q) \<and> ring_capacity (rawc_engine r') = 1023"
    using bounded_queue.push_ok [OF b, of "rawc_engine r" q m] rep by (auto simp: rawc_push_shared_def)
  show "\<exists>r'. rawc_pop_shared cfg out r = Some (q \<noteq> [], if q = [] then out else hd q, r') \<and>
      copy_rep cfg (rawc_engine r') (tl q) \<and> ring_capacity (rawc_engine r') = 1023"
    using bounded_queue.pop_ok [OF b, of "rawc_engine r" q] rep by (cases q) (auto simp: rawc_pop_shared_def)
qed simp

text \<open>The stand-alone ring does what the copy engine does, on the build where an index has a private copy.\<close>

abbreviation standalone_cfg :: "unit RingCfg" where
  "standalone_cfg \<equiv> masked_cfg False no_instr True"

definition standalone_engine :: "StandaloneRing \<Rightarrow> (Msg, unit) RingEngine" where
  "standalone_engine s = \<lparr> rg_head = sr_head s, rg_head_local = sr_head_local s, rg_tail_cached = sr_tail_cached s,
     rg_tail = sr_tail s, rg_tail_local = sr_tail_local s, rg_head_cached = sr_head_cached s, rg_storage = sr_slots s,
     rg_instr = () \<rparr>"

lemma CAPACITY_pow2: "is_power_of_two CAPACITY"
  using power_of_two_mask [of 10] by (simp add: CAPACITY_def)

lemma standalone_wrap:
  assumes "h < CAPACITY"
  shows "pow2_masked_wrap False (Suc h) CAPACITY = Some (if Suc h = CAPACITY then 0 else Suc h)"
proof -
  have "Suc h AND (CAPACITY - 1) = Suc h mod CAPACITY" by (rule mask_is_mod [OF CAPACITY_pow2])
  then show ?thesis using assms by (auto simp: pow2_masked_wrap_def)
qed

lemma standalone_push_eq:
  assumes "length (sr_slots s) = CAPACITY" "sr_head_local s < CAPACITY"
  shows "copy_push standalone_cfg m (standalone_engine s) =
    map_option (map_prod id standalone_engine) (standalone_push m s)"
  using assms standalone_wrap [OF assms(2)]
  by (auto simp: copy_push_def standalone_push_def masked_cfg_def standalone_engine_def own_head_def publish_head_def no_instr_def
      write_slot_copy_def Let_def)

lemma standalone_pop_eq:
  assumes "length (sr_slots s) = CAPACITY" "sr_tail_local s < CAPACITY"
  shows "copy_pop standalone_cfg (standalone_engine s) =
    map_option (\<lambda>(ok, v, s'). (if ok then Some v else None, standalone_engine s')) (standalone_pop out s)"
  using assms standalone_wrap [OF assms(2)]
  by (auto simp: copy_pop_def standalone_pop_def masked_cfg_def standalone_engine_def own_tail_def publish_tail_def no_instr_def
      read_slot_copy_def Let_def split: Option.bind_split)

definition standalone_rep :: "StandaloneRing \<Rightarrow> Msg list \<Rightarrow> bool" where
  "standalone_rep s q \<longleftrightarrow> copy_rep standalone_cfg (standalone_engine s) q \<and> length (sr_slots s) = CAPACITY"

lemma standalone_rep_bounds:
  assumes "standalone_rep s q"
  shows "sr_head_local s < CAPACITY" "sr_tail_local s < CAPACITY" "ring_capacity (standalone_engine s) = 1023"
  using assms CAPACITY_pow2 unfolding standalone_rep_def copy_rep_def copy_at_def Let_def
  by (auto simp: standalone_engine_def masked_cfg_def ring_capacity_def is_power_of_two_def CAPACITY_def)

interpretation standalone: bench_queue standalone_rep 1023 standalone_push standalone_pop
proof unfold_locales
  note b = copy_config_bounded_queue [OF masked_copy_ring.copy_ring_config_axioms]
  fix s q m out
  assume rep: "standalone_rep s q"
  note B = standalone_rep_bounds [OF rep]
  have R: "copy_rep standalone_cfg (standalone_engine s) q" "length (sr_slots s) = CAPACITY"
    using rep by (simp_all add: standalone_rep_def)
  show "\<exists>s'. standalone_push m s = Some (length q < 1023, s') \<and> standalone_rep s' (if length q < 1023 then q @ [m] else q)"
  proof -
    obtain e where e: "copy_push standalone_cfg m (standalone_engine s) = Some (length q < 1023, e)"
      "copy_rep standalone_cfg e (if length q < 1023 then q @ [m] else q)"
      using bounded_queue.push_ok [OF b R(1), of m] B(3) by auto
    then obtain s' where "standalone_push m s = Some (length q < 1023, s')" "e = standalone_engine s'"
      using standalone_push_eq [OF R(2) B(1), of m] by auto
    then show ?thesis
      using e(2) R(2) by (auto simp: standalone_rep_def standalone_push_def write_slot_copy_def Let_def split: if_splits)
  qed
  show "\<exists>s'. standalone_pop out s = Some (q \<noteq> [], if q = [] then out else hd q, s') \<and> standalone_rep s' (tl q)"
  proof -
    obtain e where e: "copy_pop standalone_cfg (standalone_engine s) = Some (case q of [] \<Rightarrow> None | v # _ \<Rightarrow> Some v, e)"
      "copy_rep standalone_cfg e (tl q)"
      using bounded_queue.pop_ok [OF b R(1)] by auto
    then obtain s' where "standalone_pop out s = Some (q \<noteq> [], if q = [] then out else hd q, s')" "e = standalone_engine s'"
      using standalone_pop_eq [OF R(2) B(2), of out]
      by (cases q) (auto simp: standalone_pop_def Let_def split: if_splits Option.bind_splits)
    moreover from this(1) have "sr_slots s' = sr_slots s"
      by (auto simp: standalone_pop_def Let_def split: if_splits Option.bind_splits)
    ultimately show ?thesis using e(2) R(2) by (auto simp: standalone_rep_def)
  qed
qed simp

interpretation raw_masked: bench_queue "\<lambda>(r :: (Msg, unit) RawRing) q. ring_rep (masked_cfg dbg no_instr arm) (raw_engine r) q \<and>
    ring_capacity (raw_engine r) = 1023" 1023 "raw_push_shared (masked_cfg dbg no_instr arm)" "raw_pop_shared (masked_cfg dbg no_instr arm)"
  by (rule raw_bench_queue) (rule masked_ring.ring_config_axioms)

interpretation raw_branch: bench_queue "\<lambda>(r :: (Msg, unit) RawRing) q. ring_rep (branch_cfg no_instr arm) (raw_engine r) q \<and>
    ring_capacity (raw_engine r) = 1023" 1023 "raw_push_shared (branch_cfg no_instr arm)" "raw_pop_shared (branch_cfg no_instr arm)"
  by (rule raw_bench_queue) (rule branch_ring.ring_config_axioms)

interpretation raw_copy: bench_queue "\<lambda>(r :: (Msg, unit) RawRingCopy) q. copy_rep (masked_cfg dbg no_instr arm) (rawc_engine r) q \<and>
    ring_capacity (rawc_engine r) = 1023" 1023 "rawc_push_shared (masked_cfg dbg no_instr arm)" "rawc_pop_shared (masked_cfg dbg no_instr arm)"
  by (rule rawc_bench_queue) (rule masked_copy_ring.copy_ring_config_axioms)

lemma new_slots: "inline_storage_new 1024 = Some (replicate CAPACITY None)"
  using CAPACITY_pow2 unfolding inline_storage_new_def CAPACITY_def is_power_of_two_def by simp

lemma new_capacity: "ring_capacity (ring_new (replicate CAPACITY None) i) = 1023"
  by (simp add: ring_capacity_def ring_new_def CAPACITY_def)

lemma standalone_new_rep: "standalone_rep standalone_new []"
proof -
  have "standalone_engine standalone_new = ring_new (replicate CAPACITY None) ()"
    by (simp add: standalone_engine_def standalone_new_def ring_new_def)
  then show ?thesis
    using masked_copy_ring.copy_new [OF CAPACITY_pow2] by (simp add: standalone_rep_def standalone_new_def)
qed

section \<open>Properties\<close>

text \<open>C20. The latency benchmark measures what it says, for every ring it is run on and every interleaving of its two threads:
  no slot is misused and nothing panics (a build with overflow checks needs a clock that does not run backwards and room
  for the sum); each of the \<open>T\<close> messages is stamped once by the producer and counted once by the consumer, in order, and the
  result is the sum of the times between. Under any schedule in which each thread gets a turn in each of
  \<open>4 T + 2\<close> rounds the run ends. The stand-alone ring behaves like the library's, and of the ring of the crate
  \<open>rtrb\<close> it is assumed that it is a queue of the size asked for.\<close>

theorem raw_bench_measures:
  assumes "bench_queue rep 1024 tx_push rx_pop" "rep buffer []"
    and "(name, run) \<in> set (run_raw_bench arm tx_push rx_pop buffer)"
    and "oc \<Longrightarrow> sorted (map turn_time ts) \<and> (\<forall>t \<in> set ts. clock_fits T (unat (turn_time t)))"
  shows "\<exists>out. run oc T hw ts = Some out \<and>
    (\<forall>res. out = Some res \<longrightarrow> rr_hw res = hw \<and> sums_delays ts T (rr_total_cycles res)) \<and>
    (\<forall>rounds. ts = concat rounds \<and> (\<forall>r \<in> set rounds. fair_round r) \<and> 4 * unat T + 2 \<le> length rounds \<longrightarrow> out \<noteq> None)"
proof -
  note rep = masked_ring.rep_new [OF CAPACITY_pow2] branch_ring.rep_new [OF CAPACITY_pow2]
    masked_copy_ring.copy_new [OF CAPACITY_pow2] new_capacity
  have raw: "raw_engine (raw_with_strategies s i) = ring_new s i" "rawc_engine (rawc_with_strategies s i) = ring_new s i"
    for s :: "Msg slots" and i :: unit
    by (simp_all add: raw_with_strategies_def rawc_with_strategies_def)
  consider "run = run_standalone" | "run = run_raw arm" | "run = run_raw_fast arm" | "run = run_raw_copy arm"
    | "run = run_raw_rtrb tx_push rx_pop buffer" using assms(3) by (auto simp: run_raw_bench_def)
  then show ?thesis
  proof cases
    case 1
    show ?thesis unfolding 1 run_standalone_def
      by (rule standalone.run_threads_measures [OF standalone_new_rep assms(4)])
  next
    case 2
    show ?thesis unfolding 2 run_raw_def SpscRing_new_def new_slots bind.bind_lunit run_raw_ring_def
      by (rule raw_masked.run_threads_measures [OF _ assms(4)]) (simp_all add: raw rep)
  next
    case 3
    show ?thesis unfolding 3 run_raw_fast_def SpscRingFast_new_def new_slots bind.bind_lunit run_raw_ring_def
      by (rule raw_branch.run_threads_measures [OF _ assms(4)]) (simp_all add: raw rep)
  next
    case 4
    show ?thesis unfolding 4 run_raw_copy_def SpscRingCopy_new_def new_slots bind.bind_lunit Let_def
      by (rule raw_copy.run_threads_measures [OF _ assms(4)]) (simp_all add: raw rep)
  next
    case 5
    show ?thesis unfolding 5 run_raw_rtrb_def
      by (rule bench_queue.run_threads_measures [OF assms(1,2,4)])
  qed
qed

text \<open>Six rounds for one message, and a list as the ring of the other crate.\<close>

definition list_push :: "Msg \<Rightarrow> Msg list \<Rightarrow> (bool \<times> Msg list) panics" where
  "list_push m q = Some (length q < 1024, if length q < 1024 then q @ [m] else q)"

definition list_pop :: "Msg \<Rightarrow> Msg list \<Rightarrow> (bool \<times> Msg \<times> Msg list) panics" where
  "list_pop out q = Some (q \<noteq> [], if q = [] then out else hd q, tl q)"

definition six_rounds :: "turn list list" where
  "six_rounds = map (\<lambda>t. [ConsumerAt t, ProducerAt t]) [1, 2, 3, 4, 5, 6]"

lemma list_bench_queue: "bench_queue (=) 1024 list_push list_pop"
  by unfold_locales (auto simp: list_push_def list_pop_def)

lemma six_rounds_clock:
  "sorted (map turn_time (concat six_rounds)) \<and> (\<forall>t \<in> set (concat six_rounds). clock_fits 1 (unat (turn_time t)))"
  by (simp add: clock_fits_def six_rounds_def)

lemma six_rounds_fair: "\<forall>r \<in> set six_rounds. fair_round r" "4 * unat (1 :: u64) + 2 \<le> length six_rounds"
  by (auto simp: fair_round_def six_rounds_def)

lemma standalone_variant:
  "(''standalone RawRing (no library, no generics)'', run_standalone) \<in> set (run_raw_bench arm tx_push rx_pop buffer)"
  unfolding run_raw_bench_def by (rule list.set_intros)

theorem raw_bench_measures_witness:
  "\<exists>res. run_standalone True 1 None (concat six_rounds) = Some (Some res) \<and> sums_delays (concat six_rounds) 1 (rr_total_cycles res)"
proof -
  from raw_bench_measures [OF list_bench_queue refl standalone_variant six_rounds_clock, where hw = None and oc = True]
  obtain out where "run_standalone True 1 None (concat six_rounds) = Some out \<and>
    (\<forall>res. out = Some res \<longrightarrow> rr_hw res = None \<and> sums_delays (concat six_rounds) 1 (rr_total_cycles res)) \<and>
    (\<forall>rounds. concat six_rounds = concat rounds \<and> (\<forall>r \<in> set rounds. fair_round r) \<and>
      4 * unat (1 :: u64) + 2 \<le> length rounds \<longrightarrow> out \<noteq> None)" by (rule exE)
  then have out: "run_standalone True 1 None (concat six_rounds) = Some out"
    "\<And>res. out = Some res \<Longrightarrow> sums_delays (concat six_rounds) 1 (rr_total_cycles res)"
    and "concat six_rounds = concat six_rounds \<and> (\<forall>r \<in> set six_rounds. fair_round r) \<and>
      4 * unat (1 :: u64) + 2 \<le> length six_rounds \<longrightarrow> out \<noteq> None" by blast+
  then have "out \<noteq> None" using six_rounds_fair by blast
  then show ?thesis using out by (cases out) blast+
qed

text \<open>The reported best is the smallest of the counted runs.\<close>

lemma run_variant_loop_best:
  "\<exists>lines. run_variant_loop ops iterations i results best =
     lines @ [BestLine (per_op (Min (set (best # map rr_total_cycles results))) ops)] \<and> length lines = length results"
proof (induction results arbitrary: i best)
  case (Cons r results)
  have "Min (insert (if rr_total_cycles r < best then rr_total_cycles r else best) S) = Min (insert best (insert (rr_total_cycles r) S))"
    if "finite S" for S
    using that by (cases "S = {}") (auto simp: min_def)
  then show ?case
    using Cons.IH [of "Suc i" "if rr_total_cycles r < best then rr_total_cycles r else best"] by force
qed simp

lemma run_variant_reports_best:
  assumes "results \<noteq> []"
  shows "\<exists>lines. run_variant ops results = lines @ [BestLine (per_op (Min (rr_total_cycles ` set results)) ops)] \<and>
    length lines = length results"
proof -
  have "min (- 1) x = x" for x :: u64 by (simp add: min_def) (metis word_order.extremum_uniqueI)
  then have "Min (set (- 1 # map rr_total_cycles results)) = Min (rr_total_cycles ` set results)"
    using assms by simp
  then show ?thesis
    using run_variant_loop_best [of ops "length results" 1 results "- 1"] by (simp only: run_variant_def)
qed

end
