(* ===== verification/Verify_Spsc.thy ===== *)
theory Verify_Spsc
  imports Ring_Handles "HOL-Library.Sublist"
begin

text \<open>
  The harnesses of the crate \<open>verify\<close> for the rings (\<open>crates/verify/src/spsc_proofs.rs\<close>, \<open>spsc_props.rs\<close>, \<open>spsc_diff.rs\<close>): the
  bounded model-checking proofs, the property tests and the differential tests, as functions of the choices the tools make
  for them. A failed assertion, like any panic, is \<open>None\<close>. What the tools try on sampled or bounded inputs is proved here
  for all: every harness returns, whatever the choices and however many there are.
\<close>

section \<open>Harnesses: spsc_proofs.rs\<close>

definition assert_that :: "bool \<Rightarrow> unit panics" where
  "assert_that b = (if b then Some () else None)"

text \<open>\<open>xs[i] = v\<close> on an array.\<close>

definition array_set :: "nat \<Rightarrow> 'a \<Rightarrow> 'a list \<Rightarrow> 'a list panics" where
  "array_set i v xs = (if i < length xs then Some (xs[i := v]) else None)"

record fifo_proof =
  fp_pushed :: "u8 list"
  fp_popped :: "u8 list"
  fp_push_count :: nat
  fp_pop_count :: nat
  fp_next_val :: u8

fun fifo_proof_loop :: "'i RingCfg \<Rightarrow> bool list \<Rightarrow> (u8, 'i) RawRing \<Rightarrow> fifo_proof \<Rightarrow> fifo_proof panics" where
  "fifo_proof_loop cfg [] ring s = Some s"
| "fifo_proof_loop cfg (do_push # choices) ring s =
     (if do_push then do {
        (res, ring) \<leftarrow> raw_try_push cfg (fp_next_val s) ring;
        s \<leftarrow> (case res of
            Inr _ \<Rightarrow> do {
              pushed \<leftarrow> array_set (fp_push_count s) (fp_next_val s) (fp_pushed s);
              Some (s\<lparr> fp_pushed := pushed, fp_push_count := fp_push_count s + 1, fp_next_val := fp_next_val s + 1 \<rparr>)
            }
          | Inl _ \<Rightarrow> Some s);
        fifo_proof_loop cfg choices ring s
      } else do {
        (res, ring) \<leftarrow> raw_try_pop cfg ring;
        s \<leftarrow> (case res of
            Inr val \<Rightarrow> do {
              popped \<leftarrow> array_set (fp_pop_count s) val (fp_popped s);
              Some (s\<lparr> fp_popped := popped, fp_pop_count := fp_pop_count s + 1 \<rparr>)
            }
          | Inl _ \<Rightarrow> Some s);
        fifo_proof_loop cfg choices ring s
      })"

definition fifo_ordering_proof :: "unit RingCfg \<Rightarrow> bool list \<Rightarrow> unit panics" where
  "fifo_ordering_proof cfg choices =
     do {
       ring \<leftarrow> SpscRing_new 4;
       s \<leftarrow> fifo_proof_loop cfg choices ring
         \<lparr> fp_pushed = replicate 8 0, fp_popped = replicate 8 0, fp_push_count = 0, fp_pop_count = 0, fp_next_val = 0 \<rparr>;
       assert_that (\<forall>i \<in> set [0..<fp_pop_count s]. i < 8 \<and> fp_popped s ! i = fp_pushed s ! i)
     }"

fun capacity_loop :: "'i RingCfg \<Rightarrow> usize \<Rightarrow> bool list \<Rightarrow> (u8, 'i) RawRing \<Rightarrow> nat \<Rightarrow> unit panics" where
  "capacity_loop cfg cap [] ring count = Some ()"
| "capacity_loop cfg cap (do_push # choices) ring count =
     (if do_push then do {
        (res, ring) \<leftarrow> raw_try_push cfg 0 ring;
        let count = (case res of Inr _ \<Rightarrow> count + 1 | Inl _ \<Rightarrow> count);
        assert_that (count \<le> cap);
        capacity_loop cfg cap choices ring count
      } else do {
        (res, ring) \<leftarrow> raw_try_pop cfg ring;
        count \<leftarrow> (case res of Inr _ \<Rightarrow> if count = 0 then None else Some (count - 1) | Inl _ \<Rightarrow> Some count);
        assert_that (count \<le> cap);
        capacity_loop cfg cap choices ring count
      })"

definition capacity_invariant_proof :: "unit RingCfg \<Rightarrow> bool list \<Rightarrow> unit panics" where
  "capacity_invariant_proof cfg choices =
     do { ring \<leftarrow> SpscRing_new 4; capacity_loop cfg (raw_capacity ring) choices ring 0 }"

fun push_some :: "'i RingCfg \<Rightarrow> 'a list \<Rightarrow> ('a, 'i) RawRing \<Rightarrow> nat \<Rightarrow> (nat \<times> ('a, 'i) RawRing) panics" where
  "push_some cfg [] ring push_count = Some (push_count, ring)"
| "push_some cfg (v # vs) ring push_count =
     do {
       (res, ring) \<leftarrow> raw_try_push cfg v ring;
       push_some cfg vs ring (case res of Inr _ \<Rightarrow> push_count + 1 | Inl _ \<Rightarrow> push_count)
     }"

text \<open>\<open>while let Ok(val) = ring.try_pop()\<close>, collecting the values; a loop that did not end would be \<open>None\<close>.\<close>

partial_function (option) drain :: "'i RingCfg \<Rightarrow> ('a, 'i) RawRing \<Rightarrow> 'a list \<Rightarrow> ('a list \<times> ('a, 'i) RawRing) panics" where
  "drain cfg ring popped =
     do {
       (res, ring) \<leftarrow> raw_try_pop cfg ring;
       (case res of Inl _ \<Rightarrow> Some (popped, ring) | Inr val \<Rightarrow> drain cfg ring (popped @ [val]))
     }"

definition no_data_loss_proof :: "unit RingCfg \<Rightarrow> unit panics" where
  "no_data_loss_proof cfg =
     do {
       ring \<leftarrow> SpscRing_new 4;
       (push_count, ring) \<leftarrow> push_some cfg (replicate 3 (42 :: u8)) ring 0;
       (popped, ring) \<leftarrow> drain cfg ring [];
       assert_that (push_count = length popped)
     }"

fun index_safety_loop :: "'i RingCfg \<Rightarrow> bool list \<Rightarrow> (u8, 'i) RawRing \<Rightarrow> unit panics" where
  "index_safety_loop cfg [] ring = Some ()"
| "index_safety_loop cfg (do_push # choices) ring =
     (if do_push then do { (_, ring) \<leftarrow> raw_try_push cfg 0 ring; index_safety_loop cfg choices ring }
      else do { (_, ring) \<leftarrow> raw_try_pop cfg ring; index_safety_loop cfg choices ring })"

definition index_safety_proof :: "unit RingCfg \<Rightarrow> bool list \<Rightarrow> unit panics" where
  "index_safety_proof cfg choices = do { ring \<leftarrow> SpscRing_new 4; index_safety_loop cfg choices ring }"

section \<open>Harnesses: spsc_props.rs\<close>

fun fifo_ops :: "bool \<Rightarrow> 'i RingCfg \<Rightarrow> bool list \<Rightarrow> (u64, 'i) RawRing \<Rightarrow> u64 list \<Rightarrow> u64 list \<Rightarrow> u64 \<Rightarrow>
    (u64 list \<times> u64 list \<times> (u64, 'i) RawRing) panics" where
  "fifo_ops oc cfg [] ring pushed popped push_val = Some (pushed, popped, ring)"
| "fifo_ops oc cfg (is_push # ops) ring pushed popped push_val =
     (if is_push then do {
        (res, ring) \<leftarrow> raw_try_push cfg push_val ring;
        (case res of
          Inl _ \<Rightarrow> fifo_ops oc cfg ops ring pushed popped push_val
        | Inr _ \<Rightarrow> do { next_val \<leftarrow> inc_u64 oc push_val; fifo_ops oc cfg ops ring (pushed @ [push_val]) popped next_val })
      } else do {
        (res, ring) \<leftarrow> raw_try_pop cfg ring;
        fifo_ops oc cfg ops ring pushed (case res of Inl _ \<Rightarrow> popped | Inr val \<Rightarrow> popped @ [val]) push_val
      })"

definition fifo_ordering :: "bool \<Rightarrow> unit RingCfg \<Rightarrow> bool list \<Rightarrow> unit panics" where
  "fifo_ordering oc cfg ops =
     do {
       ring \<leftarrow> SpscRing_new 16;
       (pushed, popped, ring) \<leftarrow> fifo_ops oc cfg ops ring [] [] 0;
       (popped, ring) \<leftarrow> drain cfg ring popped;
       assert_that (length popped \<le> length pushed \<and> popped = take (length popped) pushed)
     }"

fun len_loop :: "bool \<Rightarrow> 'i RingCfg \<Rightarrow> bool list \<Rightarrow> (u64, 'i) RawRing \<Rightarrow> nat \<Rightarrow> nat \<Rightarrow> u64 \<Rightarrow> unit panics" where
  "len_loop oc cfg [] ring count_pushed count_popped push_val = Some ()"
| "len_loop oc cfg (is_push # ops) ring count_pushed count_popped push_val =
     do {
       (count_pushed, count_popped, push_val, ring) \<leftarrow>
         (if is_push then do {
            (res, ring) \<leftarrow> raw_try_push cfg push_val ring;
            (case res of
              Inl _ \<Rightarrow> Some (count_pushed, count_popped, push_val, ring)
            | Inr _ \<Rightarrow> do { next_val \<leftarrow> inc_u64 oc push_val; Some (count_pushed + 1, count_popped, next_val, ring) })
          } else do {
            (res, ring) \<leftarrow> raw_try_pop cfg ring;
            Some (count_pushed, case res of Inl _ \<Rightarrow> count_popped | Inr _ \<Rightarrow> count_popped + 1, push_val, ring)
          });
       assert_that (count_popped \<le> count_pushed \<and> raw_len ring = count_pushed - count_popped);
       len_loop oc cfg ops ring count_pushed count_popped push_val
     }"

definition len_invariant :: "bool \<Rightarrow> unit RingCfg \<Rightarrow> bool list \<Rightarrow> unit panics" where
  "len_invariant oc cfg ops = do { ring \<leftarrow> SpscRing_new 16; len_loop oc cfg ops ring 0 0 0 }"

fun not_full_loop :: "bool \<Rightarrow> 'i RingCfg \<Rightarrow> usize \<Rightarrow> bool list \<Rightarrow> (u64, 'i) RawRing \<Rightarrow> u64 \<Rightarrow> unit panics" where
  "not_full_loop oc cfg cap [] ring push_val = Some ()"
| "not_full_loop oc cfg cap (is_push # ops) ring push_val =
     (if is_push then
        if raw_len ring < cap then do {
          (res, ring) \<leftarrow> raw_try_push cfg push_val ring;
          assert_that (case res of Inl _ \<Rightarrow> False | Inr _ \<Rightarrow> True);
          push_val \<leftarrow> inc_u64 oc push_val;
          not_full_loop oc cfg cap ops ring push_val
        } else not_full_loop oc cfg cap ops ring push_val
      else do { (_, ring) \<leftarrow> raw_try_pop cfg ring; not_full_loop oc cfg cap ops ring push_val })"

definition not_full_when_under_capacity :: "bool \<Rightarrow> unit RingCfg \<Rightarrow> bool list \<Rightarrow> unit panics" where
  "not_full_when_under_capacity oc cfg ops =
     do { ring \<leftarrow> SpscRing_new 8; not_full_loop oc cfg (raw_capacity ring) ops ring 0 }"

fun not_empty_loop :: "bool \<Rightarrow> 'i RingCfg \<Rightarrow> bool list \<Rightarrow> (u64, 'i) RawRing \<Rightarrow> u64 \<Rightarrow> unit panics" where
  "not_empty_loop oc cfg [] ring push_val = Some ()"
| "not_empty_loop oc cfg (is_push # ops) ring push_val =
     (if is_push then do {
        (_, ring) \<leftarrow> raw_try_push cfg push_val ring;
        push_val \<leftarrow> inc_u64 oc push_val;
        not_empty_loop oc cfg ops ring push_val
      }
      else if \<not> raw_is_empty ring then do {
        (res, ring) \<leftarrow> raw_try_pop cfg ring;
        assert_that (case res of Inl _ \<Rightarrow> False | Inr _ \<Rightarrow> True);
        not_empty_loop oc cfg ops ring push_val
      }
      else not_empty_loop oc cfg ops ring push_val)"

definition not_empty_when_has_items :: "bool \<Rightarrow> unit RingCfg \<Rightarrow> bool list \<Rightarrow> unit panics" where
  "not_empty_when_has_items oc cfg ops = do { ring \<leftarrow> SpscRing_new 8; not_empty_loop oc cfg ops ring 0 }"

definition copy_batch_fifo_ordering :: "unit RingCfg \<Rightarrow> u8 list \<Rightarrow> unit panics" where
  "copy_batch_fifo_ordering cfg data =
     (if data = [] then Some ()
      else do {
        ring \<leftarrow> SpscRingCopy_new 256;
        (pushed, ring) \<leftarrow> rawc_push_batch cfg data ring;
        (popped, out, ring) \<leftarrow> rawc_pop_batch cfg (replicate pushed 0) ring;
        assert_that (pushed = popped);
        assert_that (pushed \<le> length data \<and> popped \<le> length out \<and> take pushed data = take popped out)
      })"

definition copy_batch_respects_capacity :: "unit RingCfg \<Rightarrow> u8 list \<Rightarrow> unit panics" where
  "copy_batch_respects_capacity cfg data =
     do {
       ring \<leftarrow> SpscRingCopy_new 16;
       (pushed, ring) \<leftarrow> rawc_push_batch cfg data ring;
       assert_that (pushed \<le> rawc_capacity ring);
       assert_that (pushed \<le> length data)
     }"

section \<open>Harnesses: spsc_diff.rs\<close>

definition same_ok :: "('e + 'a) \<Rightarrow> ('f + 'b) \<Rightarrow> bool" where
  "same_ok a b \<longleftrightarrow> (case a of Inl _ \<Rightarrow> False | Inr _ \<Rightarrow> True) = (case b of Inl _ \<Rightarrow> False | Inr _ \<Rightarrow> True)"

fun diff_loop :: "bool \<Rightarrow> 'i RingCfg \<Rightarrow> 'j RingCfg \<Rightarrow> bool list \<Rightarrow> (u64, 'i) RawRing \<Rightarrow> (u64, 'j) RawRing \<Rightarrow> u64 \<Rightarrow>
    ((u64, 'i) RawRing \<times> (u64, 'j) RawRing) panics" where
  "diff_loop oc cfg_a cfg_b [] ring_a ring_b push_val = Some (ring_a, ring_b)"
| "diff_loop oc cfg_a cfg_b (is_push # ops) ring_a ring_b push_val =
     (if is_push then do {
        (res_a, ring_a) \<leftarrow> raw_try_push cfg_a push_val ring_a;
        (res_b, ring_b) \<leftarrow> raw_try_push cfg_b push_val ring_b;
        assert_that (same_ok res_a res_b);
        push_val \<leftarrow> (case res_a of Inr _ \<Rightarrow> inc_u64 oc push_val | Inl _ \<Rightarrow> Some push_val);
        diff_loop oc cfg_a cfg_b ops ring_a ring_b push_val
      } else do {
        (res_a, ring_a) \<leftarrow> raw_try_pop cfg_a ring_a;
        (res_b, ring_b) \<leftarrow> raw_try_pop cfg_b ring_b;
        assert_that (res_a = res_b);
        diff_loop oc cfg_a cfg_b ops ring_a ring_b push_val
      })"

partial_function (option) diff_drain :: "'i RingCfg \<Rightarrow> 'j RingCfg \<Rightarrow> (u64, 'i) RawRing \<Rightarrow> (u64, 'j) RawRing \<Rightarrow> unit panics" where
  "diff_drain cfg_a cfg_b ring_a ring_b =
     do {
       (a, ring_a) \<leftarrow> raw_try_pop cfg_a ring_a;
       (b, ring_b) \<leftarrow> raw_try_pop cfg_b ring_b;
       assert_that (a = b);
       (case a of Inl _ \<Rightarrow> Some () | Inr _ \<Rightarrow> diff_drain cfg_a cfg_b ring_a ring_b)
     }"

definition compare_inline_vs_instrumented :: "bool \<Rightarrow> unit RingCfg \<Rightarrow> CountingInstr RingCfg \<Rightarrow> bool list \<Rightarrow> unit panics" where
  "compare_inline_vs_instrumented oc cfg_a cfg_b ops =
     do {
       ring_a \<leftarrow> SpscRing_new 16;
       ring_b \<leftarrow> SpscRingInstrumented_new 16;
       (ring_a, ring_b) \<leftarrow> diff_loop oc cfg_a cfg_b ops ring_a ring_b 0;
       diff_drain cfg_a cfg_b ring_a ring_b
     }"

definition portable_vs_heap :: "bool \<Rightarrow> unit RingCfg \<Rightarrow> unit RingCfg \<Rightarrow> unit panics" where
  "portable_vs_heap oc cfg_a cfg_b =
     do {
       ring_inline \<leftarrow> SpscRing_new 16;
       ring_heap \<leftarrow> SpscRingHeap_with_capacity 16;
       _ \<leftarrow> diff_loop oc cfg_a cfg_b (map (\<lambda>i. i mod 3 \<noteq> 0) [0..<200 :: nat]) ring_inline ring_heap 0;
       Some ()
     }"

fun copy_diff_loop :: "bool \<Rightarrow> unit RingCfg \<Rightarrow> unit RingCfg \<Rightarrow> bool list \<Rightarrow> (u64, unit) RawRing \<Rightarrow> (u64, unit) RawRingCopy \<Rightarrow>
    u64 list \<Rightarrow> u64 list \<Rightarrow> u64 \<Rightarrow> (u64 list \<times> u64 list) panics" where
  "copy_diff_loop oc cfg_g cfg_c [] general copy gen_out copy_out val = Some (gen_out, copy_out)"
| "copy_diff_loop oc cfg_g cfg_c (is_push # ops) general copy gen_out copy_out val =
     (if is_push then do {
        (res, general) \<leftarrow> raw_try_push cfg_g val general;
        (copy_ok, copy) \<leftarrow> rawc_push cfg_c val copy;
        assert_that ((case res of Inl _ \<Rightarrow> False | Inr _ \<Rightarrow> True) = copy_ok);
        val \<leftarrow> inc_u64 oc val;
        copy_diff_loop oc cfg_g cfg_c ops general copy gen_out copy_out val
      } else do {
        (res, general) \<leftarrow> raw_try_pop cfg_g general;
        let gen_out = (case res of Inl _ \<Rightarrow> gen_out | Inr v \<Rightarrow> gen_out @ [v]);
        (ok, out, copy) \<leftarrow> rawc_pop cfg_c 0 copy;
        let copy_out = (if ok then copy_out @ [out] else copy_out);
        copy_diff_loop oc cfg_g cfg_c ops general copy gen_out copy_out val
      })"

definition copy_vs_general_fixed :: "bool \<Rightarrow> unit RingCfg \<Rightarrow> unit RingCfg \<Rightarrow> bool list \<Rightarrow> unit panics" where
  "copy_vs_general_fixed oc cfg_g cfg_c ops =
     do {
       general \<leftarrow> SpscRing_new 16;
       copy \<leftarrow> SpscRingCopy_new 16;
       (gen_out, copy_out) \<leftarrow> copy_diff_loop oc cfg_g cfg_c ops general copy [] [] 0;
       assert_that (gen_out = copy_out)
     }"

section \<open>Rings and their contents\<close>

definition holds :: "'i RingCfg \<Rightarrow> nat \<Rightarrow> ('a, 'i) RawRing \<Rightarrow> 'a list \<Rightarrow> bool" where
  "holds cfg n r q \<longleftrightarrow> ring_rep cfg (raw_engine r) q \<and> ring_capacity (raw_engine r) = n"

lemma holds_len: "holds cfg n r q \<Longrightarrow> raw_len r = length q"
  by (auto simp: holds_def raw_len_def dest: ring_rep_len)

lemma holds_is_empty: "holds cfg n r q \<Longrightarrow> raw_is_empty r \<longleftrightarrow> q = []"
  by (auto simp: holds_def raw_is_empty_def ring_is_empty_def dest: ring_rep_len)

lemma holds_capacity: "holds cfg n r q \<Longrightarrow> raw_capacity r = n"
  by (simp add: holds_def raw_capacity_def)

lemma holds_bound: "holds cfg n r q \<Longrightarrow> length q \<le> n"
  by (auto simp: holds_def ring_rep_def ring_capacity_def Let_def)

lemma assert_that_True [simp]: "assert_that True = Some ()"
  by (simp add: assert_that_def)

lemma inc_count_value: "Suc m < 2 ^ 64 \<Longrightarrow> inc_u64 oc (word_of_nat m) = Some (word_of_nat (Suc m))"
  by (subst inc_u64_small) (simp_all add: unat_of_nat)

context ring_config
begin

lemma push_holds:
  assumes "holds cfg n r q"
  shows "\<exists>r'. raw_try_push cfg v r = Some (if length q < n then Inr () else Inl (Full v), r') \<and>
    holds cfg n r' (if length q < n then q @ [v] else q)"
  using try_push_rep [of "raw_engine r" q v] assms by (auto simp: holds_def raw_try_push_def ring_capacity_def)

lemma pop_holds:
  assumes "holds cfg n r q"
  shows "\<exists>r'. raw_try_pop cfg r = Some (case q of [] \<Rightarrow> Inl QueueEmpty | v # _ \<Rightarrow> Inr v, r') \<and> holds cfg n r' (tl q)"
  using try_pop_rep [of "raw_engine r" q] assms by (auto simp: holds_def raw_try_pop_def ring_capacity_def)

lemma new_holds:
  assumes "is_power_of_two N"
  shows "holds cfg (N - 1) (raw_with_strategies (replicate N None) i) []"
  using rep_new [OF assms] by (simp add: holds_def raw_with_strategies_def ring_capacity_def ring_new_def)

lemma drain_all: "holds cfg n r q \<Longrightarrow> \<exists>r'. drain cfg r popped = Some (popped @ q, r') \<and> holds cfg n r' []"
proof (induction q arbitrary: r popped)
  case Nil
  then show ?case using pop_holds [OF Nil] by (auto simp: drain.simps)
next
  case (Cons v q)
  obtain r1 where r1: "raw_try_pop cfg r = Some (Inr v, r1)" "holds cfg n r1 q" using pop_holds [OF Cons.prems] by auto
  show ?case using Cons.IH [OF r1(2), of "popped @ [v]"] r1(1) by (subst drain.simps) simp
qed

end

section \<open>The harnesses return\<close>

context ring_config
begin

lemma push_some_all:
  "holds cfg n r q \<Longrightarrow> length q + length vs \<le> n \<Longrightarrow>
   \<exists>r'. push_some cfg vs r k = Some (k + length vs, r') \<and> holds cfg n r' (q @ vs)"
proof (induction vs arbitrary: r q k)
  case (Cons v vs)
  obtain r1 where r1: "raw_try_push cfg v r = Some (Inr (), r1)" "holds cfg n r1 (q @ [v])"
    using push_holds [OF Cons.prems(1), of v] Cons.prems(2) by auto
  show ?case using Cons.IH [OF r1(2), of "k + 1"] Cons.prems(2) r1(1) by simp
qed simp

end

context ring_config
begin

lemma len_loop_ok:
  "holds cfg n r q \<Longrightarrow> a = b + length q \<Longrightarrow> m + length ops < 2 ^ 64 \<Longrightarrow> len_loop oc cfg ops r a b (word_of_nat m) = Some ()"
proof (induction ops arbitrary: r q a b m)
  case (Cons is_push ops)
  show ?case
  proof (cases is_push)
    case True
    obtain r1 where r1: "raw_try_push cfg (word_of_nat m) r = Some (if length q < n then Inr () else Inl (Full (word_of_nat m)), r1)"
      "holds cfg n r1 (if length q < n then q @ [word_of_nat m] else q)" using push_holds [OF Cons.prems(1)] by blast
    show ?thesis
      using True r1(1) Cons.prems(2,3) holds_len [OF r1(2)] Cons.IH [OF r1(2), of _ b m] Cons.IH [OF r1(2), of _ b "Suc m"]
        inc_count_value [of m oc] by (cases "length q < n") simp_all
  next
    case False
    obtain r1 where r1: "raw_try_pop cfg r = Some (case q of [] \<Rightarrow> Inl QueueEmpty | v # _ \<Rightarrow> Inr v, r1)" "holds cfg n r1 (tl q)"
      using pop_holds [OF Cons.prems(1)] by blast
    show ?thesis
      using False r1(1) Cons.prems(2,3) holds_len [OF r1(2)] Cons.IH [OF r1(2), of a b m] Cons.IH [OF r1(2), of a "Suc b" m]
      by (cases q) simp_all
  qed
qed simp

lemma fifo_proof_ok:
  "holds cfg n r q \<Longrightarrow> length (fp_pushed s) = 8 \<Longrightarrow> length (fp_popped s) = 8 \<Longrightarrow> fp_push_count s + length choices \<le> 8 \<Longrightarrow>
   fp_push_count s = fp_pop_count s + length q \<Longrightarrow>
   take (fp_push_count s) (fp_pushed s) = take (fp_pop_count s) (fp_popped s) @ q \<Longrightarrow>
   \<exists>s'. fifo_proof_loop cfg choices r s = Some s' \<and> fp_pop_count s' \<le> 8 \<and> length (fp_pushed s') = 8 \<and> length (fp_popped s') = 8 \<and>
     take (fp_pop_count s') (fp_popped s') = take (fp_pop_count s') (fp_pushed s')"
proof (induction choices arbitrary: r q s)
  case Nil
  have "take (fp_pop_count s) (fp_pushed s) = take (fp_pop_count s) (take (fp_push_count s) (fp_pushed s))"
    using Nil.prems(5) by (simp add: min_def)
  also have "\<dots> = take (fp_pop_count s) (fp_popped s)" unfolding Nil.prems(6) using Nil.prems(3-5) by simp
  finally show ?case using Nil.prems by simp
next
  case (Cons do_push choices)
  show ?case
  proof (cases do_push)
    case True
    let ?v = "fp_next_val s"
    obtain r1 where r1: "raw_try_push cfg ?v r = Some (if length q < n then Inr () else Inl (Full ?v), r1)"
      "holds cfg n r1 (if length q < n then q @ [?v] else q)" using push_holds [OF Cons.prems(1)] by blast
    let ?s = "s\<lparr> fp_pushed := (fp_pushed s)[fp_push_count s := ?v], fp_push_count := fp_push_count s + 1, fp_next_val := ?v + 1 \<rparr>"
    have "take (fp_push_count ?s) (fp_pushed ?s) = take (fp_pop_count ?s) (fp_popped ?s) @ q @ [?v]"
      using Cons.prems(2,4,6) by (simp add: take_Suc_conv_app_nth)
    then show ?thesis
      using True r1 Cons.prems Cons.IH [of r1 "q @ [?v]" ?s] Cons.IH [of r1 q s]
      by (cases "length q < n") (simp_all add: array_set_def)
  next
    case False
    obtain r1 where r1: "raw_try_pop cfg r = Some (case q of [] \<Rightarrow> Inl QueueEmpty | v # _ \<Rightarrow> Inr v, r1)" "holds cfg n r1 (tl q)"
      using pop_holds [OF Cons.prems(1)] by blast
    show ?thesis
    proof (cases q)
      case Nil
      then show ?thesis using False r1 Cons.prems Cons.IH [of r1 q s] by simp
    next
      case (Cons v q')
      let ?s = "s\<lparr> fp_popped := (fp_popped s)[fp_pop_count s := v], fp_pop_count := fp_pop_count s + 1 \<rparr>"
      have "take (fp_pop_count ?s) (fp_popped ?s) = take (fp_pop_count s) (fp_popped s) @ [v]"
        using Cons.prems(3,4,5) Cons by (simp add: take_Suc_conv_app_nth)
      then show ?thesis
        using False r1 Cons Cons.prems Cons.IH [of r1 q' ?s] by (simp add: array_set_def)
    qed
  qed
qed

lemma capacity_loop_ok: "holds cfg n r q \<Longrightarrow> capacity_loop cfg n choices r (length q) = Some ()"
proof (induction choices arbitrary: r q)
  case (Cons do_push choices)
  show ?case
  proof (cases do_push)
    case True
    obtain r1 where r1: "raw_try_push cfg 0 r = Some (if length q < n then Inr () else Inl (Full 0), r1)"
      "holds cfg n r1 (if length q < n then q @ [0] else q)" using push_holds [OF Cons.prems] by blast
    show ?thesis using True r1(1) Cons.IH [OF r1(2)] holds_bound [OF r1(2)] by (cases "length q < n") simp_all
  next
    case False
    obtain r1 where r1: "raw_try_pop cfg r = Some (case q of [] \<Rightarrow> Inl QueueEmpty | v # _ \<Rightarrow> Inr v, r1)" "holds cfg n r1 (tl q)"
      using pop_holds [OF Cons.prems] by blast
    show ?thesis using False r1(1) Cons.IH [OF r1(2)] holds_bound [OF r1(2)] by (cases q) simp_all
  qed
qed simp

lemma index_safety_ok: "holds cfg n r q \<Longrightarrow> index_safety_loop cfg choices r = Some ()"
proof (induction choices arbitrary: r q)
  case (Cons do_push choices)
  then show ?case
    using push_holds [OF Cons.prems, of 0] pop_holds [OF Cons.prems] by (cases do_push) auto
qed simp

lemma fifo_ops_ok:
  "holds cfg n r q \<Longrightarrow> pushed = popped @ q \<Longrightarrow> m + length ops < 2 ^ 64 \<Longrightarrow>
   \<exists>r' q' popped'. fifo_ops oc cfg ops r pushed popped (word_of_nat m) = Some (popped' @ q', popped', r') \<and> holds cfg n r' q'"
proof (induction ops arbitrary: r q pushed popped m)
  case (Cons is_push ops)
  show ?case
  proof (cases is_push)
    case True
    obtain r1 where r1: "raw_try_push cfg (word_of_nat m) r = Some (if length q < n then Inr () else Inl (Full (word_of_nat m)), r1)"
      "holds cfg n r1 (if length q < n then q @ [word_of_nat m] else q)" using push_holds [OF Cons.prems(1)] by blast
    show ?thesis
      using True r1 Cons.prems(2,3) inc_count_value [of m oc] Cons.IH [of r1 "q @ [word_of_nat m]" _ popped "Suc m"] Cons.IH [of r1 q _ popped m]
      by (cases "length q < n") simp_all
  next
    case False
    obtain r1 where r1: "raw_try_pop cfg r = Some (case q of [] \<Rightarrow> Inl QueueEmpty | v # _ \<Rightarrow> Inr v, r1)" "holds cfg n r1 (tl q)"
      using pop_holds [OF Cons.prems(1)] by blast
    show ?thesis using False r1 Cons.prems(2,3) Cons.IH [OF r1(2), of _ popped m] Cons.IH [OF r1(2), of _ "popped @ [hd q]" m]
      by (cases q) simp_all
  qed
qed auto

lemma not_full_ok:
  "holds cfg n r q \<Longrightarrow> m + length ops < 2 ^ 64 \<Longrightarrow> not_full_loop oc cfg n ops r (word_of_nat m) = Some ()"
proof (induction ops arbitrary: r q m)
  case (Cons is_push ops)
  note len = holds_len [OF Cons.prems(1)]
  obtain r1 where r1: "raw_try_push cfg (word_of_nat m) r = Some (if length q < n then Inr () else Inl (Full (word_of_nat m)), r1)"
    "holds cfg n r1 (if length q < n then q @ [word_of_nat m] else q)" using push_holds [OF Cons.prems(1)] by blast
  obtain r2 where r2: "raw_try_pop cfg r = Some (case q of [] \<Rightarrow> Inl QueueEmpty | v # _ \<Rightarrow> Inr v, r2)" "holds cfg n r2 (tl q)"
    using pop_holds [OF Cons.prems(1)] by blast
  show ?case
    using r1 r2 len Cons.prems Cons.IH [OF r1(2), of "Suc m"] Cons.IH [OF r2(2), of m] Cons.IH [OF Cons.prems(1), of m]
      inc_count_value [of m oc] by (cases is_push; cases "length q < n") simp_all
qed simp

lemma not_empty_ok:
  "holds cfg n r q \<Longrightarrow> m + length ops < 2 ^ 64 \<Longrightarrow> not_empty_loop oc cfg ops r (word_of_nat m) = Some ()"
proof (induction ops arbitrary: r q m)
  case (Cons is_push ops)
  note empty = holds_is_empty [OF Cons.prems(1)]
  obtain r1 where r1: "raw_try_push cfg (word_of_nat m) r = Some (if length q < n then Inr () else Inl (Full (word_of_nat m)), r1)"
    "holds cfg n r1 (if length q < n then q @ [word_of_nat m] else q)" using push_holds [OF Cons.prems(1)] by blast
  obtain r2 where r2: "raw_try_pop cfg r = Some (case q of [] \<Rightarrow> Inl QueueEmpty | v # _ \<Rightarrow> Inr v, r2)" "holds cfg n r2 (tl q)"
    using pop_holds [OF Cons.prems(1)] by blast
  show ?case
    using r1 r2 empty Cons.prems Cons.IH [OF r1(2), of "Suc m"] Cons.IH [OF r2(2), of m] Cons.IH [OF Cons.prems(1), of m]
      inc_count_value [of m oc] by (cases is_push; cases q) simp_all
qed simp

end

text \<open>Two rings that hold the same values cannot be told apart.\<close>

lemma diff_loop_ok:
  assumes "ring_config cfg_a" "ring_config cfg_b"
  shows "holds cfg_a n ra q \<Longrightarrow> holds cfg_b n rb q \<Longrightarrow> m + length ops < 2 ^ 64 \<Longrightarrow>
    \<exists>ra' rb' q'. diff_loop oc cfg_a cfg_b ops ra rb (word_of_nat m) = Some (ra', rb') \<and> holds cfg_a n ra' q' \<and> holds cfg_b n rb' q'"
proof (induction ops arbitrary: ra rb q m)
  case (Cons is_push ops)
  let ?v = "word_of_nat m :: u64"
  show ?case
  proof (cases is_push)
    case True
    obtain ra1 where a: "raw_try_push cfg_a ?v ra = Some (if length q < n then Inr () else Inl (Full ?v), ra1)"
      "holds cfg_a n ra1 (if length q < n then q @ [?v] else q)" using ring_config.push_holds [OF assms(1) Cons.prems(1)] by blast
    obtain rb1 where b: "raw_try_push cfg_b ?v rb = Some (if length q < n then Inr () else Inl (Full ?v), rb1)"
      "holds cfg_b n rb1 (if length q < n then q @ [?v] else q)" using ring_config.push_holds [OF assms(2) Cons.prems(2)] by blast
    show ?thesis
      using True a(1) b(1) Cons.IH [OF a(2) b(2), of m] Cons.IH [OF a(2) b(2), of "Suc m"] Cons.prems(3) inc_count_value [of m oc]
      by (cases "length q < n") (simp_all add: same_ok_def)
  next
    case False
    obtain ra1 where a: "raw_try_pop cfg_a ra = Some (case q of [] \<Rightarrow> Inl QueueEmpty | v # _ \<Rightarrow> Inr v, ra1)" "holds cfg_a n ra1 (tl q)"
      using ring_config.pop_holds [OF assms(1) Cons.prems(1)] by blast
    obtain rb1 where b: "raw_try_pop cfg_b rb = Some (case q of [] \<Rightarrow> Inl QueueEmpty | v # _ \<Rightarrow> Inr v, rb1)" "holds cfg_b n rb1 (tl q)"
      using ring_config.pop_holds [OF assms(2) Cons.prems(2)] by blast
    show ?thesis using False a(1) b(1) Cons.IH [OF a(2) b(2), of m] Cons.prems(3) by simp
  qed
qed auto

lemma diff_drain_ok:
  assumes "ring_config cfg_a" "ring_config cfg_b"
  shows "holds cfg_a n ra q \<Longrightarrow> holds cfg_b n rb q \<Longrightarrow> diff_drain cfg_a cfg_b ra rb = Some ()"
proof (induction q arbitrary: ra rb)
  case Nil
  then show ?case
    using ring_config.pop_holds [OF assms(1) Nil(1)] ring_config.pop_holds [OF assms(2) Nil(2)] by (auto simp: diff_drain.simps)
next
  case (Cons v q)
  obtain ra1 where a: "raw_try_pop cfg_a ra = Some (Inr v, ra1)" "holds cfg_a n ra1 q"
    using ring_config.pop_holds [OF assms(1) Cons.prems(1)] by auto
  obtain rb1 where b: "raw_try_pop cfg_b rb = Some (Inr v, rb1)" "holds cfg_b n rb1 q"
    using ring_config.pop_holds [OF assms(2) Cons.prems(2)] by auto
  show ?case using Cons.IH [OF a(2) b(2)] a(1) b(1) by (subst diff_drain.simps) simp
qed

definition copy_holds :: "'i RingCfg \<Rightarrow> nat \<Rightarrow> ('a, 'i) RawRingCopy \<Rightarrow> 'a list \<Rightarrow> bool" where
  "copy_holds cfg n r q \<longleftrightarrow> copy_rep cfg (rawc_engine r) q \<and> ring_capacity (rawc_engine r) = n"

context copy_ring_config
begin

lemma copy_new_holds:
  assumes "is_power_of_two N"
  shows "copy_holds cfg (N - 1) (rawc_with_strategies (replicate N None) i) []"
  using copy_new [OF assms] by (simp add: copy_holds_def rawc_with_strategies_def ring_capacity_def ring_new_def)

lemma copy_push_holds:
  assumes "copy_holds cfg n r q"
  shows "\<exists>r'. rawc_push cfg v r = Some (length q < n, r') \<and> copy_holds cfg n r' (if length q < n then q @ [v] else q)"
  using push_ok [of "rawc_engine r" q v] assms by (auto simp: copy_holds_def rawc_push_def)

lemma copy_pop_holds:
  assumes "copy_holds cfg n r q"
  shows "\<exists>r'. rawc_pop cfg out r = Some (q \<noteq> [], if q = [] then out else hd q, r') \<and> copy_holds cfg n r' (tl q)"
  using pop_ok [of "rawc_engine r" q] assms by (cases q) (auto simp: copy_holds_def rawc_pop_def)

lemma push_batch_holds:
  fixes src :: "'a list"
  assumes "copy_holds cfg n r q"
  shows "\<exists>r'. rawc_push_batch cfg src r = Some (min (length src) (n - length q), r') \<and>
    copy_holds cfg n r' (q @ take (min (length src) (n - length q)) src)"
  using copy_push_batch_rep [of "rawc_engine r" q src] assms by (auto simp: copy_holds_def rawc_push_batch_def ring_capacity_def)

lemma pop_batch_holds:
  fixes dst :: "'a list"
  assumes "copy_holds cfg n r q"
  shows "\<exists>r'. rawc_pop_batch cfg dst r = Some (min (length dst) (length q), take (length dst) q @ drop (length q) dst, r') \<and>
    copy_holds cfg n r' (drop (length dst) q)"
  using copy_pop_batch_rep [of "rawc_engine r" q dst] assms by (auto simp: copy_holds_def rawc_pop_batch_def ring_capacity_def min_def)

end

lemma copy_diff_ok:
  assumes "ring_config cfg_g" "copy_ring_config cfg_c"
  shows "holds cfg_g n rg q \<Longrightarrow> copy_holds cfg_c n rc q \<Longrightarrow> m + length ops < 2 ^ 64 \<Longrightarrow>
    \<exists>out'. copy_diff_loop oc cfg_g cfg_c ops rg rc out out (word_of_nat m) = Some (out', out')"
proof (induction ops arbitrary: rg rc q m out)
  case (Cons is_push ops)
  let ?v = "word_of_nat m :: u64"
  show ?case
  proof (cases is_push)
    case True
    obtain rg1 where g: "raw_try_push cfg_g ?v rg = Some (if length q < n then Inr () else Inl (Full ?v), rg1)"
      "holds cfg_g n rg1 (if length q < n then q @ [?v] else q)" using ring_config.push_holds [OF assms(1) Cons.prems(1)] by blast
    obtain rc1 where c: "rawc_push cfg_c ?v rc = Some (length q < n, rc1)"
      "copy_holds cfg_c n rc1 (if length q < n then q @ [?v] else q)"
      using copy_ring_config.copy_push_holds [OF assms(2) Cons.prems(2)] by blast
    show ?thesis
      using True g(1) c(1) Cons.IH [OF g(2) c(2), of "Suc m" out] Cons.prems(3) inc_count_value [of m oc]
      by (cases "length q < n") simp_all
  next
    case False
    obtain rg1 where g: "raw_try_pop cfg_g rg = Some (case q of [] \<Rightarrow> Inl QueueEmpty | v # _ \<Rightarrow> Inr v, rg1)" "holds cfg_g n rg1 (tl q)"
      using ring_config.pop_holds [OF assms(1) Cons.prems(1)] by blast
    obtain rc1 where c: "rawc_pop cfg_c 0 rc = Some (q \<noteq> [], if q = [] then 0 else hd q, rc1)" "copy_holds cfg_c n rc1 (tl q)"
      using copy_ring_config.copy_pop_holds [OF assms(2) Cons.prems(2)] by blast
    show ?thesis
      using False g(1) c(1) Cons.IH [OF g(2) c(2), of m out] Cons.IH [OF g(2) c(2), of m "out @ [hd q]"] Cons.prems(3)
      by (cases q) simp_all
  qed
qed auto

section \<open>Properties\<close>

lemma small_powers: "is_power_of_two 4" "is_power_of_two 8" "is_power_of_two 16" "is_power_of_two 256"
  using power_of_two_mask [of 2] power_of_two_mask [of 3] power_of_two_mask [of 4] power_of_two_mask [of 8] by simp_all

lemma new_rings:
  assumes "is_power_of_two N"
  shows "SpscRing_new N = Some (raw_with_strategies (replicate N None) ())"
    and "SpscRingInstrumented_new N = Some (raw_with_strategies (replicate N None) counting_new)"
    and "SpscRingCopy_new N = Some (rawc_with_strategies (replicate N None) ())"
  using assms by (simp_all add: SpscRing_new_def SpscRingInstrumented_new_def SpscRingCopy_new_def inline_storage_new_def
    is_power_of_two_def)

lemma new_heap_ring: "SpscRingHeap_with_capacity 16 = Some (raw_with_strategies (replicate 16 None) ())"
proof -
  have "next_power_of_two 16 = 16" by code_simp
  then show ?thesis by (simp add: SpscRingHeap_with_capacity_def heap_storage_new_def)
qed

text \<open>The bounded proofs and the property tests, for the inline ring.\<close>

lemma inline_harnesses:
  fixes cfg :: "unit RingCfg"
  assumes "ring_config cfg" "length choices \<le> 8" "length ops < 2 ^ 64"
  shows "fifo_ordering_proof cfg choices = Some ()" "capacity_invariant_proof cfg ops = Some ()"
    "no_data_loss_proof cfg = Some ()" "index_safety_proof cfg ops = Some ()" "fifo_ordering oc cfg ops = Some ()"
    "len_invariant oc cfg ops = Some ()" "not_full_when_under_capacity oc cfg ops = Some ()"
    "not_empty_when_has_items oc cfg ops = Some ()"
proof -
  have "3 = (4 :: nat) - 1" "7 = (8 :: nat) - 1" "15 = (16 :: nat) - 1" by simp_all
  then have new: "holds cfg 3 (raw_with_strategies (replicate 4 None) ()) []" "holds cfg 7 (raw_with_strategies (replicate 8 None) ()) []"
    "holds cfg 15 (raw_with_strategies (replicate 16 None) ()) []"
    using ring_config.new_holds [OF assms(1)] small_powers by metis+
  note start = new [THEN holds_capacity]
  obtain s where "fifo_proof_loop cfg choices (raw_with_strategies (replicate 4 None) ())
      \<lparr> fp_pushed = replicate 8 0, fp_popped = replicate 8 0, fp_push_count = 0, fp_pop_count = 0, fp_next_val = 0 \<rparr> = Some s"
    "fp_pop_count s \<le> 8" "length (fp_pushed s) = 8" "length (fp_popped s) = 8"
    "take (fp_pop_count s) (fp_popped s) = take (fp_pop_count s) (fp_pushed s)"
    using ring_config.fifo_proof_ok [OF assms(1) new(1), of
      "\<lparr> fp_pushed = replicate 8 0, fp_popped = replicate 8 0, fp_push_count = 0, fp_pop_count = 0, fp_next_val = 0 \<rparr>" choices] assms(2)
    by auto
  moreover from this have "fp_popped s ! i = fp_pushed s ! i" if "i < fp_pop_count s" for i using that by (metis nth_take)
  ultimately show "fifo_ordering_proof cfg choices = Some ()"
    by (simp add: fifo_ordering_proof_def new_rings small_powers assert_that_def)
  show "capacity_invariant_proof cfg ops = Some ()" "index_safety_proof cfg ops = Some ()"
    using ring_config.capacity_loop_ok [OF assms(1) new(1), of ops] ring_config.index_safety_ok [OF assms(1) new(1), of ops]
    by (simp_all add: capacity_invariant_proof_def index_safety_proof_def new_rings small_powers start)
  obtain r where r: "push_some cfg (replicate 3 (42 :: u8)) (raw_with_strategies (replicate 4 None) ()) 0 = Some (3, r)"
    "holds cfg 3 r (replicate 3 42)" using ring_config.push_some_all [OF assms(1) new(1), of "replicate 3 42" 0] by auto
  show "no_data_loss_proof cfg = Some ()"
    using ring_config.drain_all [OF assms(1) r(2), of "[]"] r(1) by (auto simp: no_data_loss_proof_def new_rings small_powers)
  obtain r q popped where f: "fifo_ops oc cfg ops (raw_with_strategies (replicate 16 None) ()) [] [] 0 = Some (popped @ q, popped, r)"
    "holds cfg 15 r q"
    using ring_config.fifo_ops_ok [OF assms(1) new(3), of "[]" "[]" 0 ops oc] assms(3) by auto
  show "fifo_ordering oc cfg ops = Some ()"
    using ring_config.drain_all [OF assms(1) f(2), of popped] f(1) by (auto simp: fifo_ordering_def new_rings small_powers)
  show "len_invariant oc cfg ops = Some ()" "not_full_when_under_capacity oc cfg ops = Some ()" "not_empty_when_has_items oc cfg ops = Some ()"
    using ring_config.len_loop_ok [OF assms(1) new(3), of 0 0 0 ops oc] ring_config.not_full_ok [OF assms(1) new(2), of 0 ops oc]
      ring_config.not_empty_ok [OF assms(1) new(2), of 0 ops oc] assms(3)
    by (simp_all add: len_invariant_def not_full_when_under_capacity_def not_empty_when_has_items_def new_rings small_powers start)
qed

lemma copy_harnesses:
  fixes cfg :: "unit RingCfg"
  assumes "copy_ring_config cfg"
  shows "copy_batch_fifo_ordering cfg data = Some ()" "copy_batch_respects_capacity cfg data = Some ()"
proof -
  let ?r = "\<lambda>N. rawc_with_strategies (replicate N None) ()"
  have t: "take (min (length data) k) data = take k data" for k by (simp add: min_def)
  obtain r where r: "rawc_push_batch cfg data (?r 256) = Some (min (length data) 255, r)" "copy_holds cfg 255 r (take 255 data)"
    using copy_ring_config.push_batch_holds [OF assms copy_ring_config.copy_new_holds [OF assms small_powers(4)], of data] by (auto simp: t)
  obtain r' where "rawc_pop_batch cfg (replicate (min (length data) 255) 0) r = Some (min (length data) 255, take 255 data, r')"
    using copy_ring_config.pop_batch_holds [OF assms r(2), of "replicate (min (length data) 255) 0"] by (auto simp: min_def)
  then show "copy_batch_fifo_ordering cfg data = Some ()"
    using r(1) by (simp add: copy_batch_fifo_ordering_def new_rings small_powers min_def)
  obtain r where r: "rawc_push_batch cfg data (?r 16) = Some (min (length data) 15, r)" "copy_holds cfg 15 r (take 15 data)"
    using copy_ring_config.push_batch_holds [OF assms copy_ring_config.copy_new_holds [OF assms small_powers(3)], of data] by (auto simp: t)
  then show "copy_batch_respects_capacity cfg data = Some ()"
    by (simp add: copy_batch_respects_capacity_def new_rings small_powers rawc_capacity_def copy_holds_def)
qed

lemma differential_harnesses:
  fixes cfg :: "unit RingCfg"
  assumes "ring_config cfg" "copy_ring_config cfg" "ring_config cfg_i" "length ops < 2 ^ 64"
  shows "compare_inline_vs_instrumented oc cfg cfg_i ops = Some ()" "portable_vs_heap oc cfg cfg = Some ()"
    "copy_vs_general_fixed oc cfg cfg ops = Some ()"
proof -
  let ?r = "\<lambda>i. raw_with_strategies (replicate 16 None) i"
  have new: "holds cfg 15 (?r ()) []" "holds cfg_i 15 (?r counting_new) []" "copy_holds cfg 15 (rawc_with_strategies (replicate 16 None) ()) []"
    using ring_config.new_holds [OF assms(1) small_powers(3), of "()"] ring_config.new_holds [OF assms(3) small_powers(3), of counting_new]
      copy_ring_config.copy_new_holds [OF assms(2) small_powers(3), of "()"] by simp_all
  obtain ra rb q where d: "diff_loop oc cfg cfg_i ops (?r ()) (?r counting_new) 0 = Some (ra, rb)" "holds cfg 15 ra q" "holds cfg_i 15 rb q"
    using diff_loop_ok [OF assms(1,3) new(1,2), of 0 ops oc] assms(4) by auto
  show "compare_inline_vs_instrumented oc cfg cfg_i ops = Some ()"
    using d(1) diff_drain_ok [OF assms(1,3) d(2,3)] by (simp add: compare_inline_vs_instrumented_def new_rings small_powers)
  obtain ra rb where "diff_loop oc cfg cfg (map (\<lambda>i. i mod 3 \<noteq> 0) [0..<200]) (?r ()) (?r ()) 0 = Some (ra, rb)"
    using diff_loop_ok [OF assms(1,1) new(1,1), of 0 "map (\<lambda>i. i mod 3 \<noteq> 0) [0..<200 :: nat]" oc] by auto
  then show "portable_vs_heap oc cfg cfg = Some ()"
    unfolding portable_vs_heap_def new_rings(1) [OF small_powers(3)] new_heap_ring bind.bind_lunit by simp
  show "copy_vs_general_fixed oc cfg cfg ops = Some ()"
    using copy_diff_ok [OF assms(1,2) new(1,3), of 0 ops oc "[]"] assms(4)
    by (auto simp: copy_vs_general_fixed_def new_rings small_powers)
qed

text \<open>C28. Every harness of the repository for its rings returns, for all inputs: the four bounded proofs whatever the model
  checker chooses (three of them for any number of steps), the property tests on any sequence of operations and any batch,
  and the differential tests between the inline, instrumented, heap and copying rings. No assertion fails, no index
  leaves an array, and the loops that drain a ring end.\<close>

theorem verify_spsc_harnesses_return:
  assumes "length choices \<le> 8" "length ops < 2 ^ 64" "cfg = masked_cfg dbg no_instr arm" "cfg_i = masked_cfg dbg counting_instr arm"
  shows "fifo_ordering_proof cfg choices = Some () \<and> capacity_invariant_proof cfg ops = Some () \<and>
    no_data_loss_proof cfg = Some () \<and> index_safety_proof cfg ops = Some () \<and> fifo_ordering oc cfg ops = Some () \<and>
    len_invariant oc cfg ops = Some () \<and> not_full_when_under_capacity oc cfg ops = Some () \<and>
    not_empty_when_has_items oc cfg ops = Some () \<and> copy_batch_fifo_ordering cfg data = Some () \<and>
    copy_batch_respects_capacity cfg data = Some () \<and> compare_inline_vs_instrumented oc cfg cfg_i ops = Some () \<and>
    portable_vs_heap oc cfg cfg = Some () \<and> copy_vs_general_fixed oc cfg cfg ops = Some ()"
proof -
  have c: "ring_config cfg" "copy_ring_config cfg" "ring_config cfg_i"
    unfolding assms(3,4) by (rule masked_ring.ring_config_axioms masked_copy_ring.copy_ring_config_axioms)+
  show ?thesis
    using inline_harnesses [OF c(1) assms(1,2)] copy_harnesses [OF c(2)] differential_harnesses [OF c assms(2)] by simp
qed

theorem verify_spsc_harnesses_return_witness:
  "fifo_ordering_proof (masked_cfg True no_instr False) [True, False, True] = Some () \<and>
   compare_inline_vs_instrumented True (masked_cfg True no_instr False) (masked_cfg True counting_instr False) [True, True, False] = Some ()"
  using verify_spsc_harnesses_return [of "[True, False, True]" "[True, True, False]", OF _ _ refl refl, of True False True "[]"] by simp

end
