(* ===== verification/Verify_Props.thy ===== *)
theory Verify_Props
  imports Verify_Spsc Fixed_Convert Fixed_Parse Array_Book Seq_Lock
begin

text \<open>
  The other harnesses of the crate \<open>verify\<close> (\<open>crates/verify/src/fixed_props.rs\<close>, \<open>seqlock_proofs.rs\<close>, \<open>seqlock_props.rs\<close> and
  the array book of \<open>market_state_props.rs\<close>), as functions of the values the tools choose, with the proof that
  each returns for all of them.
\<close>

section \<open>Harnesses: fixed_props.rs\<close>

definition checked_add_commutative :: "i64 \<Rightarrow> i64 \<Rightarrow> unit panics" where
  "checked_add_commutative a b =
     (let fa = fixed_from_raw a; fb = fixed_from_raw b in assert_that (fixed_checked_add fa fb = fixed_checked_add fb fa))"

definition checked_sub_inverse_of_add :: "i64 \<Rightarrow> i64 \<Rightarrow> unit panics" where
  "checked_sub_inverse_of_add a b =
     (let fa = fixed_from_raw a; fb = fixed_from_raw b
      in case fixed_checked_add fa fb of
        None \<Rightarrow> Some ()
      | Some tot \<Rightarrow> assert_that (fixed_checked_sub tot fb = Some fa))"

definition checked_mul_trunc_commutative :: "bool \<Rightarrow> i64 \<Rightarrow> i64 \<Rightarrow> unit panics" where
  "checked_mul_trunc_commutative oc a b =
     do {
       let fa = fixed_from_raw a;
       let fb = fixed_from_raw b;
       x \<leftarrow> checked_mul_trunc oc 6 fa fb;
       y \<leftarrow> checked_mul_trunc oc 6 fb fa;
       assert_that (x = y)
     }"

definition from_int_to_raw_consistency :: "bool \<Rightarrow> i64 \<Rightarrow> unit panics" where
  "from_int_to_raw_consistency oc n =
     (case fixed_from_int 6 n of
       None \<Rightarrow> Some ()
     | Some f \<Rightarrow> do { p \<leftarrow> mul_i64 oc n (SCALE 6); assert_that (fixed_to_raw f = p) })"

definition rescale_widen_then_narrow_preserves :: "bool \<Rightarrow> i64 \<Rightarrow> unit panics" where
  "rescale_widen_then_narrow_preserves oc raw =
     do {
       let f2 = fixed_from_raw raw;
       wide \<leftarrow> rescale_trunc oc 2 6 f2;
       (case wide of
         None \<Rightarrow> Some ()
       | Some f6 \<Rightarrow> do {
           narrow \<leftarrow> rescale_trunc oc 6 2 f6;
           (case narrow of None \<Rightarrow> Some () | Some back \<Rightarrow> assert_that (back = f2))
         })
     }"

definition checked_rescale_exact_none_iff_lossy :: "bool \<Rightarrow> i64 \<Rightarrow> unit panics" where
  "checked_rescale_exact_none_iff_lossy oc raw =
     do {
       let f6 = fixed_from_raw raw;
       exact \<leftarrow> checked_rescale_exact oc 6 2 f6;
       trunc \<leftarrow> rescale_trunc oc 6 2 f6;
       (case (exact, trunc) of
         (Some e, Some t) \<Rightarrow> do { assert_that (e = t); assert_that (sint raw smod 10000 = 0) }
       | (None, Some _) \<Rightarrow> assert_that (sint raw smod 10000 \<noteq> 0)
       | (_, None) \<Rightarrow> Some ())
     }"

definition display_parse_harness :: "bool \<Rightarrow> i64 \<Rightarrow> unit panics" where
  "display_parse_harness oc raw =
     do {
       let f = fixed_from_raw raw;
       parsed \<leftarrow> from_str_decimal oc 6 (fixed_display 6 f);
       assert_that (parsed = Inr f)
     }"

section \<open>Harnesses: seqlock_proofs.rs and seqlock_props.rs\<close>

text \<open>A store and a load that nobody interrupts; a load that would spin forever is \<open>None\<close>. That these are the runs of the
  step relation is \<open>store_now_path\<close> and \<open>load_now_path\<close>.\<close>

definition store_now :: "'c list \<Rightarrow> 'c SeqLock \<Rightarrow> 'c SeqLock" where
  "store_now val s = s\<lparr> sq_seq := sq_seq s + 2, sq_data := val, sq_hist := sq_hist s @ [val] \<rparr>"

definition load_now :: "'c SeqLock \<Rightarrow> 'c list panics" where
  "load_now s = (if even (uint (sq_seq s)) then Some (sq_data s) else None)"

definition version_even_after_store :: "'c list \<Rightarrow> 'c list \<Rightarrow> unit panics" where
  "version_even_after_store zero val =
     (let lock = store_now val (seqlock_new zero); v = seqlock_version lock in assert_that (v AND 1 = 0))"

definition version_increments_by_two :: "'c list \<Rightarrow> 'c list \<Rightarrow> unit panics" where
  "version_increments_by_two zero val =
     (let lock = seqlock_new zero; v0 = seqlock_version lock; lock = store_now val lock; v1 = seqlock_version lock
      in assert_that (v1 = v0 + 2))"

definition load_returns_stored_value :: "'c list \<Rightarrow> 'c list \<Rightarrow> unit panics" where
  "load_returns_stored_value zero val =
     do { loaded \<leftarrow> load_now (store_now val (seqlock_new zero)); assert_that (loaded = val) }"

definition load_returns_latest :: "'c list \<Rightarrow> 'c list \<Rightarrow> 'c list \<Rightarrow> unit panics" where
  "load_returns_latest zero val1 val2 =
     do { loaded \<leftarrow> load_now (store_now val2 (store_now val1 (seqlock_new zero))); assert_that (loaded = val2) }"

fun version_loop :: "'c list list \<Rightarrow> 'c SeqLock \<Rightarrow> u64 \<Rightarrow> unit panics" where
  "version_loop [] lock prev = Some ()"
| "version_loop (v # vs) lock prev =
     do {
       let lock = store_now v lock;
       let cur = seqlock_version lock;
       assert_that (cur AND 1 = 0);
       assert_that (cur = prev + 2);
       version_loop vs lock cur
     }"

definition prop_version_monotonic :: "'c list \<Rightarrow> 'c list list \<Rightarrow> unit panics" where
  "prop_version_monotonic zero vals = (let lock = seqlock_new zero in version_loop vals lock (seqlock_version lock))"

section \<open>Harnesses: market\_state\_props.rs\<close>

fun apply_random :: "(i64 \<times> 32 word \<times> bool) list \<Rightarrow> ArrayBook \<Rightarrow> ArrayBook" where
  "apply_random [] book = book"
| "apply_random ((price, qty, is_ask) # deltas) book =
     apply_random deltas (array_apply_delta price (scast qty) (if is_ask then Ask else Bid) New book)"

definition prop_array_book_random_deltas_no_panic :: "bool \<Rightarrow> (i64 \<times> 32 word \<times> bool) list \<Rightarrow> unit panics" where
  "prop_array_book_random_deltas_no_panic oc deltas =
     do {
       let book = apply_random deltas (array_default 100);
       (_, book) \<leftarrow> array_best_bid book;
       (_, book) \<leftarrow> array_best_ask book;
       let _ = array_level_count Bid book;
       let _ = array_level_count Ask book;
       _ \<leftarrow> array_total_depth oc Bid 5 book;
       _ \<leftarrow> array_total_depth oc Ask 5 book;
       Some ()
     }"

fun insert_bids :: "(u8 \<times> u8) list \<Rightarrow> ArrayBook \<Rightarrow> i64 option \<Rightarrow> ArrayBook \<times> i64 option" where
  "insert_bids [] book max_price = (book, max_price)"
| "insert_bids ((price_u8, qty_u8) # pairs) book max_price =
     (let qty = i64_saturate (uint qty_u8 + 1); price = ucast price_u8
      in insert_bids pairs (array_apply_delta price qty Bid New book)
        (Some (case max_price of None \<Rightarrow> price | Some prev \<Rightarrow> if sint prev \<le> sint price then price else prev)))"

definition prop_best_bid_is_highest :: "(u8 \<times> u8) list \<Rightarrow> unit panics" where
  "prop_best_bid_is_highest pairs =
     (case insert_bids pairs (array_default 100) None of
       (book, max_price) \<Rightarrow>
         (case max_price of
           None \<Rightarrow> Some ()
         | Some expected_max \<Rightarrow> do {
             (best, book) \<leftarrow> array_best_bid book;
             (case best of None \<Rightarrow> Some () | Some (p, _) \<Rightarrow> assert_that (sint p \<le> sint expected_max))
           }))"

section \<open>They return\<close>

lemma fixed_harnesses:
  "checked_add_commutative a b = Some ()" "checked_sub_inverse_of_add a b = Some ()"
  "checked_mul_trunc_commutative oc a b = Some ()" "from_int_to_raw_consistency oc a = Some ()"
  "rescale_widen_then_narrow_preserves oc a = Some ()" "checked_rescale_exact_none_iff_lossy oc a = Some ()"
  "display_parse_harness oc a = Some ()"
proof -
  show "checked_add_commutative a b = Some ()"
    by (simp add: checked_add_commutative_def fixed_conv_defs fixed_checked_add_iff add.commute)
  show "checked_sub_inverse_of_add a b = Some ()"
    by (auto simp: checked_sub_inverse_of_add_def fixed_conv_defs fixed_checked_add_iff fixed_checked_sub_iff i64_checked_eq_Some
        split: option.split)
  show "checked_mul_trunc_commutative oc a b = Some ()"
    by (simp add: checked_mul_trunc_commutative_def fixed_conv_defs checked_mul_trunc_eq mult.commute)
  show "from_int_to_raw_consistency oc a = Some ()"
    by (auto simp: from_int_to_raw_consistency_def fixed_from_int_def fixed_conv_defs mul_i64_def i64_checked_def
        split: option.split if_splits)
  show "rescale_widen_then_narrow_preserves oc a = Some ()"
    by (auto simp: rescale_widen_then_narrow_preserves_def fixed_conv_defs rescale_trunc_eq i64_checked_eq_Some sdiv_mult_cancel
        split: option.split)
  show "checked_rescale_exact_none_iff_lossy oc a = Some ()"
    by (auto simp: checked_rescale_exact_none_iff_lossy_def fixed_conv_defs rescale_trunc_eq checked_rescale_exact_eq rem_zero_dvd
        split: option.split)
  show "display_parse_harness oc a = Some ()"
    by (simp add: display_parse_harness_def fixed_conv_defs from_str_decimal_def display_parses)
qed

text \<open>A store and a load of the step relation, run without interruption.\<close>

lemma store_now_path:
  assumes "seqlock_inv n s" "sq_writer s = WIdle" "length val = n"
  shows "seqlock_path s (replicate (n + 1) SeqTau @ [Stored val]) (store_now val s)"
proof -
  obtain s' where s': "seqlock_path s (replicate (n + 1) SeqTau @ [Stored val]) s'" "sq_writer s' = WIdle"
    "sq_reader s' = sq_reader s" "sq_seq s' = sq_seq s + 2" "sq_hist s' = sq_hist s @ [val]"
    using seqlock_store_path [OF assms] by blast
  have "seqlock_inv n s'" using s'(1) assms(1)
    by (induction rule: seqlock_path.induct) (auto intro: seqlock_step_inv)
  then have "sq_data s' = val" using s'(2,5) by (simp add: seqlock_inv_def writer_ok_def)
  then have "s' = store_now val s" using s' assms(2) by (intro SeqLock.equality) (simp_all add: store_now_def)
  then show ?thesis using s'(1) by simp
qed

lemma load_now_path:
  assumes "seqlock_inv n s" "sq_writer s = WIdle" "sq_reader s = RIdle"
  shows "\<exists>val. load_now s = Some val \<and> seqlock_path s (replicate (n + 1) SeqTau @ [Loaded val]) s"
  using seqlock_load_path [OF assms] assms(1,2) by (simp add: load_now_def seqlock_inv_def writer_ok_def)

lemma even_and_1: "even (uint (v :: u64)) \<Longrightarrow> v AND 1 = 0"
proof -
  assume "even (uint v)"
  then have "\<not> bit (uint v) 0" by (simp add: bit_0)
  then have "\<not> bit v 0" by (simp add: bit_uint_iff)
  then show "v AND 1 = 0" by (simp add: and_one_eq mod_2_eq_odd bit_0)
qed

lemma even_add_2: "even (uint (v :: u64)) \<Longrightarrow> even (uint (v + 2))"
  by (simp add: uint_word_ariths dvd_mod_iff)

lemma version_loop_ok: "even (uint (sq_seq s)) \<Longrightarrow> version_loop vals s (sq_seq s) = Some ()"
proof (induction vals arbitrary: s)
  case (Cons v vals)
  have even: "even (uint (sq_seq (store_now v s)))" using Cons.prems by (simp add: store_now_def even_add_2)
  show ?case using Cons.IH [OF even] even_and_1 [OF even] by (simp add: seqlock_version_def Let_def) (simp add: store_now_def)
qed simp

lemma seqlock_harnesses:
  "version_even_after_store zero val = Some ()" "version_increments_by_two zero val = Some ()"
  "load_returns_stored_value zero val = Some ()" "load_returns_latest zero val1 val2 = Some ()"
  "prop_version_monotonic zero vals = Some ()"
  using version_loop_ok [of "seqlock_new zero" vals]
  by (simp_all add: version_even_after_store_def version_increments_by_two_def load_returns_stored_value_def load_returns_latest_def
      prop_version_monotonic_def store_now_def load_now_def seqlock_new_def seqlock_version_def Let_def)

text \<open>Every level of the random book is an \<open>i32\<close>, so the totals cannot overflow.\<close>

definition small_levels :: "ArrayBook \<Rightarrow> bool" where
  "small_levels b \<longleftrightarrow> array_inv 100 b \<and> (\<forall>s. \<forall>q \<in> set (side_levels s b). sint q < 2 ^ 31)"

lemma apply_random_small: "small_levels b \<Longrightarrow> small_levels (apply_random deltas b)"
proof (induction deltas b rule: apply_random.induct)
  case (2 price qty is_ask deltas book)
  have inv: "array_inv 100 book" using 2(2) by (simp add: small_levels_def)
  have q: "sint (scast qty :: i64) < 2 ^ 31"
    using sint_range_size [of qty] by (simp add: word_size signed_scast_eq signed_take_bit_int_eq_self)
  let ?b = "array_apply_delta price (scast qty) (if is_ask then Ask else Bid) New book"
  have "array_inv 100 ?b"
    using inv by (auto simp: array_apply_delta_def array_inv_def Let_def)
  moreover have "set (side_levels s ?b) \<subseteq> insert (scast qty) (set (side_levels s book))" for s
    by (cases s) (auto simp: array_apply_delta_def side_levels_def Let_def dest!: subsetD [OF set_update_subset_insert])
  ultimately have "small_levels ?b" using 2(2) q unfolding small_levels_def by blast
  then show ?case using 2(1) by simp
qed simp

lemma small_levels_sum:
  assumes "small_levels b"
  shows "sum_list (map sint (filter (\<lambda>q. sint q > 0) (side_levels s b))) < 2 ^ 63"
proof -
  let ?ps = "filter (\<lambda>q. sint q > 0) (side_levels s b)"
  have "length (side_levels s b) = 100" using assms by (cases s) (simp_all add: small_levels_def array_inv_def side_levels_def)
  then have len: "length ?ps \<le> 100" using length_filter_le [of _ "side_levels s b"] by metis
  have "sum_list (map sint ?ps) \<le> sum_list (map (\<lambda>_. 2 ^ 31) ?ps)"
    using assms by (intro sum_list_mono) (auto simp: small_levels_def intro: less_imp_le)
  also have "\<dots> = int (length ?ps) * 2 ^ 31" by (simp add: sum_list_triv)
  also have "\<dots> \<le> 100 * 2 ^ 31" using len by simp
  finally show ?thesis by simp
qed

lemma best_keeps_levels:
  "array_best_bid b = Some (r, b') \<Longrightarrow> side_levels s b' = side_levels s b"
  "array_best_ask b = Some (r, b') \<Longrightarrow> side_levels s b' = side_levels s b"
  by (cases s; auto simp: array_best_bid_def array_best_ask_def side_levels_def Let_def split: if_splits Option.bind_splits)+

lemma random_deltas_harness: "prop_array_book_random_deltas_no_panic oc deltas = Some ()"
proof -
  let ?b = "apply_random deltas (array_default 100)"
  have "small_levels (array_default 100)"
    by (auto simp: small_levels_def array_inv_def array_default_def side_levels_def lots_ZERO_def split: Side.split)
  then have b: "small_levels ?b" by (rule apply_random_small)
  then have "array_inv 100 ?b" by (simp add: small_levels_def)
  then obtain r1 b1 where 1: "array_best_bid ?b = Some (r1, b1)" "array_inv 100 b1" using array_best_bid_ok [of 100 ?b] by auto
  obtain r2 b2 where 2: "array_best_ask b1 = Some (r2, b2)" "array_inv 100 b2" using array_best_ask_ok [OF _ 1(2)] by auto
  have "small_levels b2"
    using b 2(2) best_keeps_levels(1) [OF 1(1)] best_keeps_levels(2) [OF 2(1)] by (simp add: small_levels_def)
  then have "\<exists>r. array_total_depth oc Bid 5 b2 = Some r" "\<exists>r. array_total_depth oc Ask 5 b2 = Some r"
    using array_total_depth_sum [OF small_levels_sum] by blast+
  then show ?thesis
    using 1(1) 2(1) by (auto simp: prop_array_book_random_deltas_no_panic_def Let_def)
qed

lemma insert_bids_max:
  assumes "array_inv 100 b" "\<forall>p. 0 < sint (array_qty b Bid p) \<longrightarrow> (\<exists>m. mx = Some m \<and> sint p \<le> sint m)"
    and "insert_bids pairs b mx = (b', mx')"
  shows "array_inv 100 b' \<and> (\<forall>p. 0 < sint (array_qty b' Bid p) \<longrightarrow> (\<exists>m. mx' = Some m \<and> sint p \<le> sint m))"
  using assms
proof (induction pairs b mx rule: insert_bids.induct)
  case (2 price_u8 qty_u8 pairs book mx)
  let ?p = "ucast price_u8 :: i64" and ?q = "i64_saturate (uint qty_u8 + 1)"
  let ?b = "array_apply_delta ?p ?q Bid New book"
  let ?mx = "Some (case mx of None \<Rightarrow> ?p | Some prev \<Rightarrow> if sint prev \<le> sint ?p then ?p else prev)"
  have "array_inv 100 ?b" using 2(2) by (auto simp: array_apply_delta_def array_inv_def Let_def)
  moreover have "\<forall>p. 0 < sint (array_qty ?b Bid p) \<longrightarrow> (\<exists>m. ?mx = Some m \<and> sint p \<le> sint m)"
    using 2(3) by (force simp: array_qty_apply [OF 2(2)] ledger_set_def split: option.splits if_splits)
  ultimately show ?case using 2(1) 2(4) by (simp add: Let_def)
qed simp

lemma best_bid_harness: "prop_best_bid_is_highest pairs = Some ()"
proof -
  obtain b mx where run: "insert_bids pairs (array_default 100) None = (b, mx)" by fastforce
  have "array_inv 100 (array_default 100)" "array_qty (array_default 100) = (\<lambda>_ _. 0)"
    using array_book_contract [of 100, unfolded order_book_def] by (simp_all add: array_book_ops_def)
  then have b: "array_inv 100 b" "\<And>p. 0 < sint (array_qty b Bid p) \<Longrightarrow> \<exists>m. mx = Some m \<and> sint p \<le> sint m"
    using insert_bids_max [OF _ _ run] by auto
  obtain best b' where q: "array_best_bid b = Some (best, b')" "is_best_bid (array_qty b Bid) best"
    using array_best_bid_ok [OF _ b(1)] by auto
  have "sint p \<le> sint m" if "best = Some (p, v)" "mx = Some m" for p v m
    using q(2) b(2) [of p] that by (auto simp: is_best_bid_def)
  then show ?thesis
    using run q(1) by (auto simp: prop_best_bid_is_highest_def split: option.split)
qed

section \<open>Properties\<close>

text \<open>The remaining harnesses return for every value the tools can choose: the fixed-point laws on all pairs of raw values in
  every build, the sequence lock on all values and numbers of stores, the book on all sequences of updates.\<close>

theorem verify_value_harnesses_return:
  "checked_add_commutative a b = Some () \<and> checked_sub_inverse_of_add a b = Some () \<and> checked_mul_trunc_commutative oc a b = Some () \<and>
   from_int_to_raw_consistency oc a = Some () \<and> rescale_widen_then_narrow_preserves oc a = Some () \<and>
   checked_rescale_exact_none_iff_lossy oc a = Some () \<and> display_parse_harness oc a = Some () \<and>
   version_even_after_store zero val = Some () \<and> version_increments_by_two zero val = Some () \<and>
   load_returns_stored_value zero val = Some () \<and> load_returns_latest zero val1 val2 = Some () \<and>
   prop_version_monotonic zero vals = Some () \<and> prop_array_book_random_deltas_no_panic oc deltas = Some () \<and>
   prop_best_bid_is_highest pairs = Some ()"
  by (intro conjI fixed_harnesses seqlock_harnesses random_deltas_harness best_bid_harness)

end
