(* ===== verification/Bench_Samples.thy ===== *)
theory Bench_Samples
  imports Metering
begin

text \<open>
  The sample collector of the benchmarks (\<open>crates/bench/src/measurement.rs\<close>), the run of one benchmark and the
  rows of its report (\<open>bench_runner.rs\<close>, \<open>report.rs\<close>). The harness (a third-party crate) is seen only
  through its calls of \<open>start\<close> and \<open>end\<close>, as the list of samples they store, each the counter's measurement and the
  hardware counters' answer, and through the iteration counts and estimates it writes to disk. All are
  arguments: nothing is assumed of how many samples there are, or that they belong to the iteration counts.
\<close>

section \<open>Sample collector\<close>

record SampleCollector =
  sc_cycles :: "u64 list"
  sc_nanos :: "u64 list"
  sc_instructions :: "u64 list"
  sc_branch_misses :: "u64 list"
  sc_l1d_misses :: "u64 list"
  sc_llc_misses :: "u64 list"
  sc_has_hw_counters :: bool

definition collector_default :: SampleCollector where
  "collector_default = \<lparr> sc_cycles = [], sc_nanos = [], sc_instructions = [], sc_branch_misses = [],
     sc_l1d_misses = [], sc_llc_misses = [], sc_has_hw_counters = False \<rparr>"

definition collector_reset :: "SampleCollector \<Rightarrow> SampleCollector" where
  "collector_reset c = c\<lparr> sc_cycles := [], sc_nanos := [], sc_instructions := [], sc_branch_misses := [],
     sc_l1d_misses := [], sc_llc_misses := [], sc_has_hw_counters := False \<rparr>"

definition collector_len :: "SampleCollector \<Rightarrow> nat" where
  "collector_len c = length (sc_cycles c)"

definition collector_is_empty :: "SampleCollector \<Rightarrow> bool" where
  "collector_is_empty c \<longleftrightarrow> sc_cycles c = []"

text \<open>\<open>Iterator::sum\<close> of floats starts at negative zero.\<close>

definition f64_sum :: "f64 list \<Rightarrow> f64" where
  "f64_sum xs = foldl f64_add NegZero xs"

definition weighted_per_op :: "u64 list \<Rightarrow> f64 list \<Rightarrow> f64 option" where
  "weighted_per_op values iters =
     (if values = [] \<or> iters = [] then None
      else let len = min (length values) (length iters);
               tot = f64_sum (map (\<lambda>v. f64_of_int (uint v)) (take len values));
               total_iters = f64_sum (take len iters)
           in if f64_lt (Fin 0) total_iters then Some (f64_div tot total_iters) else None)"

definition mean_cycles_per_op :: "SampleCollector \<Rightarrow> f64 list \<Rightarrow> f64 option" where
  "mean_cycles_per_op c iters = weighted_per_op (sc_cycles c) iters"

definition mean_instructions_per_op :: "SampleCollector \<Rightarrow> f64 list \<Rightarrow> f64 option" where
  "mean_instructions_per_op c iters =
     (if \<not> sc_has_hw_counters c then None else weighted_per_op (sc_instructions c) iters)"

definition mean_branch_misses_per_op :: "SampleCollector \<Rightarrow> f64 list \<Rightarrow> f64 option" where
  "mean_branch_misses_per_op c iters =
     (if \<not> sc_has_hw_counters c then None else weighted_per_op (sc_branch_misses c) iters)"

definition mean_l1d_misses_per_op :: "SampleCollector \<Rightarrow> f64 list \<Rightarrow> f64 option" where
  "mean_l1d_misses_per_op c iters =
     (if \<not> sc_has_hw_counters c then None else weighted_per_op (sc_l1d_misses c) iters)"

definition mean_llc_misses_per_op :: "SampleCollector \<Rightarrow> f64 list \<Rightarrow> f64 option" where
  "mean_llc_misses_per_op c iters =
     (if \<not> sc_has_hw_counters c then None else weighted_per_op (sc_llc_misses c) iters)"

definition reset_samples :: "SampleCollector \<Rightarrow> SampleCollector" where
  "reset_samples samples = collector_reset samples"

definition take_samples :: "SampleCollector \<Rightarrow> SampleCollector \<times> SampleCollector" where
  "take_samples samples = (samples, collector_default)"

text \<open>What \<open>end\<close> stores, and \<open>start\<close> and \<open>end\<close> themselves, with or without hardware counters (\<open>hw\<close>).\<close>

definition store_sample :: "Measurement \<times> HwCounterDeltas option \<Rightarrow> SampleCollector \<Rightarrow> SampleCollector" where
  "store_sample s c =
     (case s of (m, hw_deltas) \<Rightarrow>
        let c = c\<lparr> sc_cycles := sc_cycles c @ [ms_cycles m], sc_nanos := sc_nanos c @ [ms_nanos m] \<rparr>
        in case hw_deltas of
             None \<Rightarrow> c
           | Some d \<Rightarrow> c\<lparr> sc_instructions := sc_instructions c @ [hw_instructions d],
                sc_branch_misses := sc_branch_misses c @ [hw_branch_misses d],
                sc_l1d_misses := sc_l1d_misses c @ [hw_l1d_misses d],
                sc_llc_misses := sc_llc_misses c @ [hw_llc_misses d], sc_has_hw_counters := True \<rparr>)"

definition mantis_start :: "bool \<Rightarrow> 's option \<Rightarrow> u64 \<Rightarrow> u64 \<times> 's option" where
  "mantis_start hw hw_snap cycles = (cycles, if hw then hw_snap else None)"

definition mantis_end ::
  "bool \<Rightarrow> (u64 \<Rightarrow> Measurement) \<Rightarrow> ('s option \<Rightarrow> HwCounterDeltas option) \<Rightarrow> u64 \<times> 's option
     \<Rightarrow> SampleCollector \<Rightarrow> SampleCollector" where
  "mantis_end hw elapsed hw_read i samples =
     store_sample (elapsed (fst i), if hw then hw_read (snd i) else None) samples"

section \<open>A benchmark and its report\<close>

text \<open>The iteration counts of \<open>sample.json\<close>: the entries of the array that are numbers.\<close>

definition sample_iters :: "f64 option list option \<Rightarrow> f64 list option" where
  "sample_iters arr =
     do {
       vs \<leftarrow> arr;
       (let iters = List.map_filter (\<lambda>v. v) vs in if iters = [] then None else Some iters)
     }"

record BenchDesc =
  bd_id :: string
  bd_element_type :: string
  bd_capacity :: nat
  bd_cycles_per_op :: "f64 option"
  bd_instructions_per_op :: "f64 option"
  bd_branch_misses_per_op :: "f64 option"
  bd_l1d_misses_per_op :: "f64 option"
  bd_llc_misses_per_op :: "f64 option"

definition run_bench ::
  "string \<Rightarrow> string \<Rightarrow> nat \<Rightarrow> (Measurement \<times> HwCounterDeltas option) list \<Rightarrow> f64 option list option
     \<Rightarrow> SampleCollector \<Rightarrow> BenchDesc \<times> SampleCollector" where
  "run_bench ident element_type capacity harness file samples =
     (let samples = reset_samples samples;
          samples = fold store_sample harness samples;
          (taken, samples) = take_samples samples;
          iters = (case sample_iters file of Some is \<Rightarrow> is | None \<Rightarrow> [])
      in (\<lparr> bd_id = ident, bd_element_type = element_type, bd_capacity = capacity,
            bd_cycles_per_op = mean_cycles_per_op taken iters,
            bd_instructions_per_op = mean_instructions_per_op taken iters,
            bd_branch_misses_per_op = mean_branch_misses_per_op taken iters,
            bd_l1d_misses_per_op = mean_l1d_misses_per_op taken iters,
            bd_llc_misses_per_op = mean_llc_misses_per_op taken iters \<rparr>, samples))"

record CriterionEstimates =
  ce_mean_ns :: f64
  ce_median_ns :: f64
  ce_std_dev_ns :: f64

record WorkloadResult =
  wr_workload :: string
  wr_element_type :: string
  wr_capacity :: nat
  wr_ops_per_sec :: f64
  wr_ns_per_op :: f64
  wr_p50_ns :: f64
  wr_p99_ns :: f64
  wr_p999_ns :: f64
  wr_cycles_per_op :: "f64 option"
  wr_instructions_per_op :: "f64 option"
  wr_branch_misses_per_op :: "f64 option"
  wr_l1_misses_per_op :: "f64 option"
  wr_llc_misses_per_op :: "f64 option"
  wr_full_rate :: "f64 option"
  wr_empty_rate :: "f64 option"
  wr_mean_occupancy :: "f64 option"

definition Z_99 :: f64 where
  "Z_99 = f64_round False (2326 / 1000)"

definition Z_999 :: f64 where
  "Z_999 = f64_round False (3090 / 1000)"

definition workload_result :: "BenchDesc \<Rightarrow> CriterionEstimates option \<Rightarrow> WorkloadResult" where
  "workload_result desc estimates =
     (let mean_ns = (case estimates of Some e \<Rightarrow> ce_mean_ns e | None \<Rightarrow> Fin 0);
          median_ns = (case estimates of Some e \<Rightarrow> ce_median_ns e | None \<Rightarrow> Fin 0);
          std_dev = (case estimates of Some e \<Rightarrow> ce_std_dev_ns e | None \<Rightarrow> Fin 0);
          p99_ns = f64_add mean_ns (f64_mul Z_99 std_dev);
          p999_ns = f64_add mean_ns (f64_mul Z_999 std_dev);
          ops_per_sec = (if f64_lt (Fin 0) mean_ns then f64_div (Fin 1000000000) mean_ns else Fin 0)
      in \<lparr> wr_workload = bd_id desc, wr_element_type = bd_element_type desc, wr_capacity = bd_capacity desc,
           wr_ops_per_sec = ops_per_sec, wr_ns_per_op = mean_ns, wr_p50_ns = median_ns,
           wr_p99_ns = p99_ns, wr_p999_ns = p999_ns,
           wr_cycles_per_op = bd_cycles_per_op desc, wr_instructions_per_op = bd_instructions_per_op desc,
           wr_branch_misses_per_op = bd_branch_misses_per_op desc, wr_l1_misses_per_op = bd_l1d_misses_per_op desc,
           wr_llc_misses_per_op = bd_llc_misses_per_op desc, wr_full_rate = None, wr_empty_rate = None,
           wr_mean_occupancy = None \<rparr>)"

definition export_results :: "(string \<Rightarrow> CriterionEstimates option) \<Rightarrow> BenchDesc list \<Rightarrow> WorkloadResult list" where
  "export_results read_estimates descs = map (\<lambda>d. workload_result d (read_estimates (bd_id d))) descs"

section \<open>Sums of floats\<close>

lemma f64_round_int: "\<bar>n\<bar> \<le> 2 ^ 53 \<Longrightarrow> f64_round False (of_int n) = Fin (of_int n)"
  using f64_of_int_exact by (simp add: f64_of_int_def)

lemma foldl_f64_add_exact:
  fixes ns :: "nat list"
  shows "a + sum_list ns \<le> 2 ^ 53 \<Longrightarrow>
    foldl f64_add (Fin (of_nat a)) (map (\<lambda>n. Fin (of_nat n)) ns) = Fin (of_nat (a + sum_list ns))"
proof (induction ns arbitrary: a)
  case (Cons n ns)
  have "f64_add (Fin (of_nat a)) (Fin (of_nat n)) = f64_round False (of_int (int (a + n)))"
    by (subst f64_add_finite) simp_all
  also have "\<dots> = Fin (of_nat (a + n))" using Cons.prems by (subst f64_round_int) auto
  finally show ?case using Cons.IH [of "a + n"] Cons.prems by (simp add: add.assoc)
qed simp

lemma f64_sum_exact:
  fixes ns :: "nat list"
  assumes "sum_list ns \<le> 2 ^ 53" "ns \<noteq> []"
  shows "f64_sum (map (\<lambda>n. Fin (of_nat n)) ns) = Fin (of_nat (sum_list ns))"
proof (cases ns)
  case (Cons n ms)
  have "f64_add NegZero (Fin (of_nat n)) = f64_round False (of_int (int n))" by (subst f64_add_finite) simp_all
  also have "\<dots> = Fin (of_nat n)" using assms(1) Cons by (subst f64_round_int) auto
  finally show ?thesis using foldl_f64_add_exact [of n ms] assms(1) Cons by (simp add: f64_sum_def)
qed (use assms in simp)

lemma map_f64_of_uint:
  "sum_list (map unat vs) \<le> 2 ^ 53 \<Longrightarrow>
     map (\<lambda>v :: u64. f64_of_int (uint v)) vs = map (\<lambda>n. Fin (of_nat n)) (map unat vs)"
proof (induction vs)
  case (Cons v vs)
  have "int (unat v) \<le> int (2 ^ 53)" using Cons.prems by (simp only: of_nat_le_iff) simp
  then have "f64_of_int (uint v) = Fin (of_nat (unat v))" using f64_of_int_exact [of "uint v"] by simp
  with Cons show ?case by simp
qed simp

text \<open>The mean as the code pairs the values with the iteration counts: the first of each, as many as both have. There
  is none when these counts are zero or missing.\<close>

definition paired_mean :: "u64 list \<Rightarrow> nat list \<Rightarrow> f64 option" where
  "paired_mean vs ns =
     (let k = min (length vs) (length ns) in
      if sum_list (take k ns) = 0 then None
      else Some (f64_round False (of_nat (sum_list (map unat (take k vs))) / of_nat (sum_list (take k ns)))))"

lemma sum_list_take_le: "sum_list (take k ns) \<le> sum_list (ns :: nat list)"
  by (metis append_take_drop_id le_add1 sum_list_append)

lemma weighted_per_op_paired:
  assumes "sum_list (map unat vs) \<le> 2 ^ 53" "sum_list ns \<le> 2 ^ 53"
  shows "weighted_per_op vs (map (\<lambda>n. Fin (of_nat n)) ns) = paired_mean vs ns"
proof (cases "vs = [] \<or> ns = []")
  case True
  then show ?thesis by (auto simp: weighted_per_op_def paired_mean_def)
next
  case False
  define vs' ns' where "vs' = take (min (length vs) (length ns)) vs" and "ns' = take (min (length vs) (length ns)) ns"
  have ne: "map unat vs' \<noteq> []" "ns' \<noteq> []" using False by (simp_all add: vs'_def ns'_def)
  have le: "sum_list (map unat vs') \<le> 2 ^ 53" "sum_list ns' \<le> 2 ^ 53"
    using sum_list_take_le [of _ "map unat vs"] sum_list_take_le [of _ ns] assms le_trans
    unfolding vs'_def ns'_def take_map by blast+
  have t: "f64_sum (map (\<lambda>v. f64_of_int (uint v)) vs') = Fin (of_nat (sum_list (map unat vs')))"
    unfolding map_f64_of_uint [OF le(1)] by (rule f64_sum_exact [OF le(1) ne(1)])
  have i: "f64_sum (map (\<lambda>n. Fin (of_nat n)) ns') = Fin (of_nat (sum_list ns'))" by (rule f64_sum_exact [OF le(2) ne(2)])
  define S I where "S = sum_list (map unat vs')" and "I = sum_list ns'"
  have d: "f64_lt (Fin 0) (Fin (of_nat I)) \<longleftrightarrow> I \<noteq> 0"
    "I \<noteq> 0 \<Longrightarrow> f64_div (Fin (of_nat S)) (Fin (of_nat I)) = f64_round False (of_nat S / of_nat I)"
    by (simp_all add: f64_div_finite f64_neg_sign_def)
  have "weighted_per_op vs (map (\<lambda>n. Fin (of_nat n)) ns) =
      (if f64_lt (Fin 0) (Fin (of_nat I)) then Some (f64_div (Fin (of_nat S)) (Fin (of_nat I))) else None)"
    using False by (simp only: weighted_per_op_def Let_def length_map take_map map_is_Nil_conv if_False
        vs'_def [symmetric] ns'_def [symmetric] t i S_def I_def)
  also have "\<dots> = paired_mean vs ns"
    unfolding paired_mean_def Let_def vs'_def [symmetric] ns'_def [symmetric] S_def [symmetric] I_def [symmetric] using d by simp
  finally show ?thesis .
qed

text \<open>Adding the same finite number keeps the order of two results that are not negative.\<close>

lemma f64_add_le:
  assumes "f64_le x y" "f64_le (Fin 0) x"
  shows "f64_le (f64_add (Fin m) x) (f64_add (Fin m) y)"
proof -
  have add: "f64_add (Fin m) (Fin r) = f64_round False (m + r)" "f64_add (Fin m) NegZero = f64_round False m"
    "f64_add (Fin m) (Inf u) = Inf u" for r u by (simp_all add: f64_add_def)
  have top: "f64_le (f64_round False r) (Inf False)" for r by (simp add: f64_round_def Let_def f64_le_def)
  have le: "f64_le (Fin q) (Fin r) \<longleftrightarrow> q \<le> r" "f64_le (Fin q) NegZero \<longleftrightarrow> q \<le> 0" "f64_le NegZero (Fin r) \<longleftrightarrow> 0 \<le> r"
    "f64_le (Inf u) (Fin r) \<longleftrightarrow> u" "f64_le (Inf u) NegZero \<longleftrightarrow> u" "f64_le (Fin r) (Inf u) \<longleftrightarrow> \<not> u"
    "f64_le NegZero (Inf u) \<longleftrightarrow> \<not> u" "f64_le NaN y \<longleftrightarrow> False" "f64_le x NaN \<longleftrightarrow> False"
    "f64_le (Inf u) (Inf v) \<longleftrightarrow> u \<or> \<not> v" for q r u v x y
    by (simp_all add: f64_le_def split: f64.split)
  show ?thesis using assms
    by (cases x; cases y) (auto simp: add top le intro: f64_round_le)
qed

section \<open>What a run collects\<close>

abbreviation hw_samples :: "(Measurement \<times> HwCounterDeltas option) list \<Rightarrow> HwCounterDeltas list" where
  "hw_samples ss \<equiv> List.map_filter snd ss"

lemma store_samples:
  "fold store_sample ss c = c\<lparr> sc_cycles := sc_cycles c @ map (ms_cycles \<circ> fst) ss,
     sc_nanos := sc_nanos c @ map (ms_nanos \<circ> fst) ss,
     sc_instructions := sc_instructions c @ map hw_instructions (hw_samples ss),
     sc_branch_misses := sc_branch_misses c @ map hw_branch_misses (hw_samples ss),
     sc_l1d_misses := sc_l1d_misses c @ map hw_l1d_misses (hw_samples ss),
     sc_llc_misses := sc_llc_misses c @ map hw_llc_misses (hw_samples ss),
     sc_has_hw_counters := sc_has_hw_counters c \<or> hw_samples ss \<noteq> [] \<rparr>"
proof (induction ss arbitrary: c)
  case (Cons s ss)
  then show ?case by (cases s; cases "snd s") (simp_all add: store_sample_def Let_def map_filter_simps)
qed (simp add: map_filter_simps)

lemma sample_iters_numbers: "(case sample_iters (Some (map Some xs)) of Some is \<Rightarrow> is | None \<Rightarrow> []) = xs"
proof -
  have "List.map_filter (\<lambda>v. v) (map Some xs) = xs" by (induction xs) (simp_all add: map_filter_simps)
  then show ?thesis by (simp add: sample_iters_def)
qed

lemma run_bench_desc:
  "fst (run_bench ident ty cap ss (Some (map Some ks)) c) =
    \<lparr> bd_id = ident, bd_element_type = ty, bd_capacity = cap,
      bd_cycles_per_op = weighted_per_op (map (ms_cycles \<circ> fst) ss) ks,
      bd_instructions_per_op = weighted_per_op (map hw_instructions (hw_samples ss)) ks,
      bd_branch_misses_per_op = weighted_per_op (map hw_branch_misses (hw_samples ss)) ks,
      bd_l1d_misses_per_op = weighted_per_op (map hw_l1d_misses (hw_samples ss)) ks,
      bd_llc_misses_per_op = weighted_per_op (map hw_llc_misses (hw_samples ss)) ks \<rparr>"
  using sample_iters_numbers [of ks]
  by (simp add: run_bench_def Let_def reset_samples_def collector_reset_def store_samples take_samples_def
      mean_cycles_per_op_def mean_instructions_per_op_def mean_branch_misses_per_op_def mean_l1d_misses_per_op_def
      mean_llc_misses_per_op_def weighted_per_op_def [of "[]"])

section \<open>Properties\<close>

text \<open>C40. What the five means of a benchmark are, for whatever the harness does: any number of samples \<open>ss\<close> (those of a
  warm-up included), with or without the answer of the hardware counters, and any list \<open>ns\<close> of whole iteration counts
  in \<open>sample.json\<close>. With all totals at most \<open>2 ^ 53\<close>, each mean is the total of the first \<open>k\<close> values over the total of the first
  \<open>k\<close> iteration counts, rounded once, with \<open>k\<close> the number both lists have; it is missing when these counts are zero or
  missing. The cycles have one value per sample, the hardware counters one per sample whose counters answered. What the
  collector held before has no influence, and it is left empty. So a mean is the mean per operation if the harness
  takes one sample per iteration count and all counters answer; a sample before those, or one whose
  counters fail, moves the values that follow to iteration counts of other samples.\<close>

theorem bench_means_rounded_once:
  fixes ns :: "nat list" and ident ty :: string and cap :: nat and c :: SampleCollector
    and ss :: "(Measurement \<times> HwCounterDeltas option) list"
  defines "hw \<equiv> hw_samples ss"
    and "r \<equiv> run_bench ident ty cap ss (Some (map (\<lambda>n. Some (Fin (of_nat n))) ns)) c"
  assumes "sum_list ns \<le> 2 ^ 53" "sum_list (map (unat \<circ> ms_cycles \<circ> fst) ss) \<le> 2 ^ 53"
    "sum_list (map (unat \<circ> hw_instructions) hw) \<le> 2 ^ 53" "sum_list (map (unat \<circ> hw_branch_misses) hw) \<le> 2 ^ 53"
    "sum_list (map (unat \<circ> hw_l1d_misses) hw) \<le> 2 ^ 53" "sum_list (map (unat \<circ> hw_llc_misses) hw) \<le> 2 ^ 53"
  shows "fst r = \<lparr> bd_id = ident, bd_element_type = ty, bd_capacity = cap,
      bd_cycles_per_op = paired_mean (map (ms_cycles \<circ> fst) ss) ns,
      bd_instructions_per_op = paired_mean (map hw_instructions hw) ns,
      bd_branch_misses_per_op = paired_mean (map hw_branch_misses hw) ns,
      bd_l1d_misses_per_op = paired_mean (map hw_l1d_misses hw) ns,
      bd_llc_misses_per_op = paired_mean (map hw_llc_misses hw) ns \<rparr> \<and> collector_is_empty (snd r)"
proof
  define ks where "ks = map (\<lambda>n :: nat. Fin (of_nat n)) ns"
  have r: "r = run_bench ident ty cap ss (Some (map Some ks)) c" by (simp add: r_def ks_def o_def)
  have mean: "weighted_per_op vs ks = paired_mean vs ns" if "sum_list (map unat vs) \<le> 2 ^ 53" for vs
    unfolding ks_def by (rule weighted_per_op_paired [OF that assms(3)])
  show "fst r = \<lparr> bd_id = ident, bd_element_type = ty, bd_capacity = cap,
      bd_cycles_per_op = paired_mean (map (ms_cycles \<circ> fst) ss) ns,
      bd_instructions_per_op = paired_mean (map hw_instructions hw) ns,
      bd_branch_misses_per_op = paired_mean (map hw_branch_misses hw) ns,
      bd_l1d_misses_per_op = paired_mean (map hw_l1d_misses hw) ns,
      bd_llc_misses_per_op = paired_mean (map hw_llc_misses hw) ns \<rparr>"
    unfolding r run_bench_desc hw_def [symmetric] using assms(4-8) by (simp add: mean comp_assoc)
  show "collector_is_empty (snd r)"
    by (simp add: r_def run_bench_def take_samples_def collector_is_empty_def collector_default_def Let_def)
qed

text \<open>A warm-up sample of 100 cycles, a sample of 40 cycles over 10 iterations without counters, and one of 80 cycles and 60
  instructions over 20 iterations. The routine takes 4 cycles and 3 instructions; the report says 140 cycles over 30
  iterations and, by the second sample's counters over the first sample's 10 iterations, 6 instructions.\<close>

definition bench_example :: "(Measurement \<times> HwCounterDeltas option) list" where
  "bench_example = [(timing 1 100, None), (timing 1 40, None), (timing 2 80, Some (hw_default\<lparr> hw_instructions := 60 \<rparr>))]"

lemma hw_bench_example: "hw_samples bench_example = [hw_default\<lparr> hw_instructions := 60 \<rparr>]"
  by (simp add: bench_example_def map_filter_simps)

theorem bench_means_rounded_once_witness:
  "bd_cycles_per_op (fst (run_bench ''b'' ''u64'' 64 bench_example
      (Some (map (\<lambda>n. Some (Fin (of_nat n))) [10, 20])) collector_default)) = Some (f64_round False (140 / 30)) \<and>
   bd_instructions_per_op (fst (run_bench ''b'' ''u64'' 64 bench_example
      (Some (map (\<lambda>n. Some (Fin (of_nat n))) [10, 20])) collector_default)) = Some (Fin 6)"
  using bench_means_rounded_once [of "[10, 20]" bench_example "''b''" "''u64''" 64 collector_default] f64_round_int [of 6]
  by (simp add: hw_bench_example) (simp add: bench_example_def paired_mean_def hw_default_def)

text \<open>The reported percentiles are ordered, whatever the rounding does.\<close>

lemma Z_values: "Z_99 = Fin (f64_rnd (2326 / 1000))" "Z_999 = Fin (f64_rnd (3090 / 1000))"
  "0 \<le> f64_rnd (2326 / 1000)" "f64_rnd (2326 / 1000) \<le> f64_rnd (3090 / 1000)"
proof -
  have b: "1 \<le> f64_rnd r \<and> f64_rnd r \<le> 4" if "1 \<le> r" "r \<le> 4" for r
    using f64_rnd_mono [OF that(1)] f64_rnd_mono [OF that(2)] f64_rnd_representable [OF representable_1]
      f64_rnd_representable [OF representable_int [of 4]] by simp
  have "\<bar>f64_rnd r\<bar> < 2 ^ 1024" if "1 \<le> r" "r \<le> 4" for r
    using b [OF that] less_2_1024 [of "f64_rnd r"] by simp
  then have z: "f64_round False r = Fin (f64_rnd r)" if "1 \<le> r" "r \<le> 4" for r
    using b [OF that] that by (simp add: f64_round_def Let_def not_le)
  show "Z_99 = Fin (f64_rnd (2326 / 1000))" "Z_999 = Fin (f64_rnd (3090 / 1000))"
    by (simp_all only: Z_99_def Z_999_def) (rule z; simp)+
  show "0 \<le> f64_rnd (2326 / 1000)" by (rule f64_rnd_nonneg) simp
  show "f64_rnd (2326 / 1000) \<le> f64_rnd (3090 / 1000)" by (rule f64_rnd_mono) simp
qed

lemma percentiles_ordered:
  assumes "ce_mean_ns e = Fin m" "ce_std_dev_ns e = Fin d" "0 \<le> d"
  shows "f64_le (wr_p99_ns (workload_result desc (Some e))) (wr_p999_ns (workload_result desc (Some e)))"
proof -
  have "f64_rnd (2326 / 1000) * d \<le> f64_rnd (3090 / 1000) * d" "0 \<le> f64_rnd (2326 / 1000) * d"
    using Z_values(3,4) assms(3) by (simp_all add: mult_right_mono)
  then have "f64_le (f64_mul Z_99 (Fin d)) (f64_mul Z_999 (Fin d))" "f64_le (Fin 0) (f64_mul Z_99 (Fin d))"
    using f64_round_le f64_round_le [of 0 _ False]
    by (simp_all add: Z_values(1,2) f64_mul_finite f64_round_def [of False 0])
  then show ?thesis using f64_add_le assms(1,2) by (simp add: workload_result_def Let_def)
qed

end
