(* ===== verification/Platform.thy ===== *)
theory Platform
  imports Mantis_Prelude
begin

text \<open>
  What the platform crate computes from hardware answers (\<open>crates/platform/src/isa_x86/cpudetect.rs\<close>,
  \<open>cpudetect.rs\<close>, \<open>intrinsics/compiler_hints.rs\<close>) and the layout report (\<open>crates/layout/src/lib.rs\<close>): the feature flags
  and the brand string of the processor, the cache lines a prefetch asks for, and the lines a type occupies.
  The instruction \<open>cpuid\<close> is an argument.
\<close>

section \<open>Processor features\<close>

record CpuIdRegs =
  id_eax :: u32
  id_ebx :: u32
  id_ecx :: u32
  id_edx :: u32

record CpuFeatures =
  has_sse2 :: bool
  has_sse3 :: bool
  has_ssse3 :: bool
  has_sse41 :: bool
  has_sse42 :: bool
  has_avx :: bool
  has_avx2 :: bool
  has_avx512f :: bool
  has_avx512bw :: bool
  has_avx512dq :: bool
  has_avx512vl :: bool
  has_adx :: bool
  has_bmi1 :: bool
  has_bmi2 :: bool
  has_rdrand :: bool
  has_rdseed :: bool
  has_aes_ni :: bool
  has_pclmulqdq :: bool

definition flag_set :: "u32 \<Rightarrow> nat \<Rightarrow> bool" where
  "flag_set reg n \<longleftrightarrow> and reg (push_bit n 1) \<noteq> 0"

definition detect_features :: "(u32 \<Rightarrow> u32 \<Rightarrow> CpuIdRegs) \<Rightarrow> CpuFeatures" where
  "detect_features cpuid =
     (let leaf1 = cpuid 1 0;
          leaf7 = cpuid 7 0
      in \<lparr> has_sse2 = flag_set (id_edx leaf1) 26,
           has_sse3 = flag_set (id_ecx leaf1) 0,
           has_ssse3 = flag_set (id_ecx leaf1) 9,
           has_sse41 = flag_set (id_ecx leaf1) 19,
           has_sse42 = flag_set (id_ecx leaf1) 20,
           has_avx = flag_set (id_ecx leaf1) 28,
           has_avx2 = flag_set (id_ebx leaf7) 5,
           has_avx512f = flag_set (id_ebx leaf7) 16,
           has_avx512bw = flag_set (id_ebx leaf7) 30,
           has_avx512dq = flag_set (id_ebx leaf7) 17,
           has_avx512vl = flag_set (id_ebx leaf7) 31,
           has_adx = flag_set (id_ebx leaf7) 19,
           has_bmi1 = flag_set (id_ebx leaf7) 3,
           has_bmi2 = flag_set (id_ebx leaf7) 8,
           has_rdrand = flag_set (id_ecx leaf1) 30,
           has_rdseed = flag_set (id_ebx leaf7) 18,
           has_aes_ni = flag_set (id_ecx leaf1) 25,
           has_pclmulqdq = flag_set (id_ecx leaf1) 1 \<rparr>)"

text \<open>\<open>FEATURES\<close> is initialised by the first query and read by the others.\<close>

definition detect :: "(u32 \<Rightarrow> u32 \<Rightarrow> CpuIdRegs) \<Rightarrow> CpuFeatures option \<Rightarrow> CpuFeatures \<times> CpuFeatures option" where
  "detect cpuid FEATURES =
     (case FEATURES of
        Some f \<Rightarrow> (f, FEATURES)
      | None \<Rightarrow> let f = detect_features cpuid in (f, Some f))"

section \<open>Brand string\<close>

definition to_le_bytes :: "u32 \<Rightarrow> u8 list" where
  "to_le_bytes w = [ucast w, ucast (drop_bit 8 w), ucast (drop_bit 16 w), ucast (drop_bit 24 w)]"

definition regs_bytes :: "CpuIdRegs \<Rightarrow> u8 list" where
  "regs_bytes regs = to_le_bytes (id_eax regs) @ to_le_bytes (id_ebx regs) @ to_le_bytes (id_ecx regs)
     @ to_le_bytes (id_edx regs)"

text \<open>The bytes of the name before they are decoded and trimmed: three leaves of sixteen, up to the first
  zero. \<open>None\<close> stands for the answer \<open>unknown\<close>.\<close>

definition cpu_name_x86 :: "(u32 \<Rightarrow> u32 \<Rightarrow> CpuIdRegs) \<Rightarrow> u8 list option" where
  "cpu_name_x86 cpuid =
     (let ext = cpuid 0x80000000 0
      in if id_eax ext < 0x80000004 then None
         else let name = concat (map (\<lambda>leaf. regs_bytes (cpuid leaf 0)) [0x80000002, 0x80000003, 0x80000004])
              in Some (takeWhile (\<lambda>b. b \<noteq> 0) name))"

section \<open>Prefetching and layout\<close>

datatype PrefetchRW = PrefetchRead | PrefetchWrite

datatype PrefetchLocality = NoTemporal | Low | Moderate | High

datatype PrefetchHint = ET0 | NTA | T2 | T1 | T0 | PLDL1KEEP | PSTL1KEEP

datatype TargetArch = X86_64 | Aarch64 | OtherArch

definition prefetch_hint :: "TargetArch \<Rightarrow> PrefetchRW \<Rightarrow> PrefetchLocality \<Rightarrow> PrefetchHint option" where
  "prefetch_hint arch rw locality =
     (case arch of
        X86_64 \<Rightarrow> Some (case (rw, locality) of
            (PrefetchWrite, High) \<Rightarrow> ET0
          | (_, NoTemporal) \<Rightarrow> NTA
          | (_, Low) \<Rightarrow> T2
          | (_, Moderate) \<Rightarrow> T1
          | (_, High) \<Rightarrow> T0)
      | Aarch64 \<Rightarrow> Some (case rw of PrefetchRead \<Rightarrow> PLDL1KEEP | PrefetchWrite \<Rightarrow> PSTL1KEEP)
      | OtherArch \<Rightarrow> None)"

text \<open>The addresses \<open>prefetch_large\<close> asks for, for a value of \<open>size_of_T\<close> bytes at \<open>ptr\<close>.\<close>

definition prefetch_large :: "nat \<Rightarrow> nat \<Rightarrow> nat \<Rightarrow> nat list" where
  "prefetch_large size_of_T ptr max_lines =
     (let span = size_of_T div 64;
          n = (if max_lines = 0 then span else min span max_lines)
      in map (\<lambda>i. ptr + i * 64) [0..<n])"

record LayoutInfo =
  li_name :: string
  li_size :: nat
  li_align :: nat
  li_cache_lines :: nat

definition div_ceil :: "nat \<Rightarrow> nat \<Rightarrow> nat" where
  "div_ceil a b = (if a mod b = 0 then a div b else a div b + 1)"

definition inspect :: "string \<Rightarrow> nat \<Rightarrow> nat \<Rightarrow> LayoutInfo" where
  "inspect name size_of_T align_of_T =
     \<lparr> li_name = name, li_size = size_of_T, li_align = align_of_T, li_cache_lines = div_ceil size_of_T 64 \<rparr>"

section \<open>Lemmas\<close>

lemma flag_set_bit: "flag_set w n \<longleftrightarrow> bit w n"
  by (simp add: flag_set_def push_bit_eq_mult and_exp_eq_0_iff_not_bit)

text \<open>The word whose bits are those of a list of positions.\<close>

definition flags_word :: "(nat \<times> bool) list \<Rightarrow> u32" where
  "flags_word fs = foldr (\<lambda>(n, b) w. or (if b then push_bit n 1 else 0) w) fs 0"

lemma bit_flags_word: "n < 32 \<Longrightarrow> bit (flags_word fs) n \<longleftrightarrow> (n, True) \<in> set fs"
proof (induction fs)
  case (Cons f fs)
  obtain m b where f: "f = (m, b)" by (cases f)
  have "bit (push_bit m 1 :: u32) n \<longleftrightarrow> n = m" using Cons.prems by (auto simp: bit_simps)
  with Cons f show ?case by (cases b) (auto simp: flags_word_def bit_or_iff)
qed (simp add: flags_word_def)

lemma flag_set_word: "n < 32 \<Longrightarrow> flag_set (flags_word fs) n \<longleftrightarrow> (n, True) \<in> set fs"
  by (simp add: flag_set_bit bit_flags_word)

lemma detect_cached: "detect cpuid' (snd (detect cpuid FEATURES)) = detect cpuid FEATURES \<or> FEATURES = None"
  by (cases FEATURES) (simp_all add: detect_def)

definition from_le_bytes :: "u8 \<Rightarrow> u8 \<Rightarrow> u8 \<Rightarrow> u8 \<Rightarrow> u32" where
  "from_le_bytes a b c d = or (ucast a) (or (push_bit 8 (ucast b)) (or (push_bit 16 (ucast c)) (push_bit 24 (ucast d))))"

lemma to_le_from_le: "to_le_bytes (from_le_bytes a b c d) = [a, b, c, d]"
  by (simp add: to_le_bytes_def from_le_bytes_def, intro conjI; rule bit_word_eqI)
    (auto simp: bit_simps not_less dest: bit_imp_le_length)

section \<open>Properties\<close>

text \<open>The 18 feature flags are read from 18 different bits: every combination of them is the answer for some
  contents of the two leaves, and a query never contradicts an earlier one, whatever \<open>cpuid\<close> answers later.\<close>

theorem cpu_features_independent:
  "\<exists>cpuid. detect_features cpuid = f \<and> (\<forall>cpuid'. fst (detect cpuid' (snd (detect cpuid None))) = f)"
proof -
  define regs where "regs leaf sub = (if leaf = (1 :: u32)
    then \<lparr> id_eax = 0, id_ebx = 0,
      id_ecx = flags_word [(0, has_sse3 f), (9, has_ssse3 f), (19, has_sse41 f), (20, has_sse42 f), (28, has_avx f),
        (30, has_rdrand f), (25, has_aes_ni f), (1, has_pclmulqdq f)],
      id_edx = flags_word [(26, has_sse2 f)] \<rparr>
    else \<lparr> id_eax = 0,
      id_ebx = flags_word [(5, has_avx2 f), (16, has_avx512f f), (30, has_avx512bw f), (17, has_avx512dq f),
        (31, has_avx512vl f), (19, has_adx f), (3, has_bmi1 f), (8, has_bmi2 f), (18, has_rdseed f)],
      id_ecx = 0, id_edx = 0 \<rparr>)" for leaf sub :: u32
  have "detect_features regs = f" by (cases f) (simp add: detect_features_def regs_def flag_set_word)
  then show ?thesis by (intro exI [of _ regs]) (simp add: detect_def)
qed

text \<open>Three leaves that hold the 48 bytes of a name give back its bytes up to the first zero.\<close>

definition pack_regs :: "u8 list \<Rightarrow> CpuIdRegs" where
  "pack_regs bs = \<lparr> id_eax = from_le_bytes (bs ! 0) (bs ! 1) (bs ! 2) (bs ! 3),
     id_ebx = from_le_bytes (bs ! 4) (bs ! 5) (bs ! 6) (bs ! 7),
     id_ecx = from_le_bytes (bs ! 8) (bs ! 9) (bs ! 10) (bs ! 11),
     id_edx = from_le_bytes (bs ! 12) (bs ! 13) (bs ! 14) (bs ! 15) \<rparr>"

lemma regs_bytes_pack: "length bs = 16 \<Longrightarrow> regs_bytes (pack_regs bs) = bs"
  by (rule nth_equalityI)
    (auto simp: regs_bytes_def pack_regs_def to_le_from_le nth_Cons' less_Suc_eq numeral_eq_Suc)

lemma cpu_name_roundtrip:
  assumes "0x80000004 \<le> id_eax (cpuid 0x80000000 0)" "length name = 48"
    "cpuid 0x80000002 0 = pack_regs (take 16 name)" "cpuid 0x80000003 0 = pack_regs (take 16 (drop 16 name))"
    "cpuid 0x80000004 0 = pack_regs (drop 32 name)"
  shows "cpu_name_x86 cpuid = Some (takeWhile (\<lambda>b. b \<noteq> 0) name)"
proof -
  have "concat (map (\<lambda>leaf. regs_bytes (cpuid leaf 0)) [0x80000002, 0x80000003, 0x80000004]) =
      take 16 name @ take 16 (drop 16 name) @ drop 32 name"
    using assms(2-5) by (simp add: regs_bytes_pack)
  also have "\<dots> = name" by (simp add: append_take_drop_id flip: take_add drop_drop append_assoc)
  finally show ?thesis using assms(1) by (simp add: cpu_name_x86_def Let_def not_less)
qed

text \<open>\<open>prefetch_large\<close> asks for whole cache lines only: every address it computes starts a line inside the value,
  and a value at a line's start is covered completely exactly when its size is a multiple of 64. Of a value
  whose size is not, the last part is left out, and nothing is prefetched for one smaller than a line, although
  zero is documented to mean all the lines that cover it.
\<close>

theorem prefetch_large_covers_whole_lines:
  shows "a \<in> set (prefetch_large s ptr m) \<Longrightarrow> \<exists>i. a = ptr + 64 * i \<and> a + 64 \<le> ptr + s"
    and "(\<forall>x\<in>{ptr..<ptr + s}. \<exists>a\<in>set (prefetch_large s ptr 0). a \<le> x \<and> x < a + 64) \<longleftrightarrow> 64 dvd s"
    and "length (prefetch_large s ptr 0) + of_bool (\<not> 64 dvd s) = li_cache_lines (inspect n s al)"
proof -
  have mem: "a \<in> set (prefetch_large s ptr m) \<Longrightarrow> \<exists>i. a = ptr + 64 * i \<and> i < s div 64" for a m
    by (auto simp: prefetch_large_def Let_def split: if_splits)
  have all: "set (prefetch_large s ptr 0) = (\<lambda>i. ptr + 64 * i) ` {..<s div 64}"
    by (auto simp: prefetch_large_def)
  show "\<exists>i. a = ptr + 64 * i \<and> a + 64 \<le> ptr + s" if elem: "a \<in> set (prefetch_large s ptr m)"
  proof -
    obtain i where i: "a = ptr + 64 * i" "i < s div 64" using mem [OF elem] by blast
    then have "64 * (i + 1) \<le> 64 * (s div 64)" by simp
    also have "\<dots> \<le> s" by simp
    finally show ?thesis using i(1) by auto
  qed
  show "(\<forall>x\<in>{ptr..<ptr + s}. \<exists>a\<in>set (prefetch_large s ptr 0). a \<le> x \<and> x < a + 64) \<longleftrightarrow> 64 dvd s"
  proof
    assume cov: "\<forall>x\<in>{ptr..<ptr + s}. \<exists>a\<in>set (prefetch_large s ptr 0). a \<le> x \<and> x < a + 64"
    show "64 dvd s"
    proof (rule ccontr)
      assume "\<not> 64 dvd s"
      then have "64 * (s div 64) < s" by (metis dvd_triv_left le_neq_implies_less times_div_less_eq_dividend)
      then obtain i where "i < s div 64" "64 * (s div 64) < 64 * i + 64"
        using cov [rule_format, of "ptr + 64 * (s div 64)"] by (auto simp: all)
      then show False by linarith
    qed
  next
    assume d: "64 dvd s"
    show "\<forall>x\<in>{ptr..<ptr + s}. \<exists>a\<in>set (prefetch_large s ptr 0). a \<le> x \<and> x < a + 64"
    proof
      fix x assume x: "x \<in> {ptr..<ptr + s}"
      let ?i = "(x - ptr) div 64"
      have "x - ptr < s" using x by auto
      with d have "?i < s div 64" by (auto simp: less_mult_imp_div_less)
      moreover have "64 * ?i \<le> x - ptr" "x - ptr < 64 * ?i + 64" by linarith+
      ultimately show "\<exists>a\<in>set (prefetch_large s ptr 0). a \<le> x \<and> x < a + 64"
        using x by (intro bexI [of _ "ptr + 64 * ?i"]) (auto simp: all)
    qed
  qed
  show "length (prefetch_large s ptr 0) + of_bool (\<not> 64 dvd s) = li_cache_lines (inspect n s al)"
    by (simp add: prefetch_large_def inspect_def div_ceil_def dvd_eq_mod_eq_0)
qed

text \<open>A value of 100 bytes at address 640: one line is asked for, and byte 700 is not in it.\<close>

theorem prefetch_large_covers_whole_lines_witness:
  "640 \<in> set (prefetch_large 100 640 0) \<and> (\<exists>i. (640 :: nat) = 640 + 64 * i)
   \<and> \<not> (\<forall>x\<in>{640..<740}. \<exists>a\<in>set (prefetch_large 100 640 0). a \<le> x \<and> x < a + 64)"
  using prefetch_large_covers_whole_lines(1) [of 640 100 640 0] prefetch_large_covers_whole_lines(2) [of 640 100]
  by (simp add: prefetch_large_def)

end
