(* ===== verification/Thread_Handles.thy ===== *)
theory Thread_Handles
  imports Timer_Thread
begin

text \<open>
  The handles of the feed and timer threads (\<open>crates/transport/src/feed.rs\<close> and \<open>timer.rs\<close>): what \<open>spawn\<close> allocates
  and shares, and how \<open>shutdown\<close>, \<open>drop\<close> and the loop of the thread meet on the shutdown flag. Flags and counters
  behind an \<open>Arc\<close> are cells of a store, so that who shares which cell is visible. The two threads and their
  handles run in any interleaving, as a step relation; what they have in common is the locale \<open>stoppable\<close>.
\<close>

section \<open>Shared cells\<close>

record Shared =
  sh_flags :: "nat \<rightharpoonup> bool"
  sh_counters :: "nat \<rightharpoonup> u64"
  sh_next :: nat

definition new_flag :: "bool \<Rightarrow> Shared \<Rightarrow> nat \<times> Shared" where
  "new_flag b m = (sh_next m, m\<lparr> sh_flags := (sh_flags m)(sh_next m \<mapsto> b), sh_next := sh_next m + 1 \<rparr>)"

definition new_counter :: "u64 \<Rightarrow> Shared \<Rightarrow> nat \<times> Shared" where
  "new_counter n m = (sh_next m, m\<lparr> sh_counters := (sh_counters m)(sh_next m \<mapsto> n), sh_next := sh_next m + 1 \<rparr>)"

definition store_flag :: "nat \<Rightarrow> bool \<Rightarrow> Shared \<Rightarrow> Shared" where
  "store_flag a b m = m\<lparr> sh_flags := (sh_flags m)(a \<mapsto> b) \<rparr>"

definition load_flag :: "nat \<Rightarrow> Shared \<Rightarrow> bool" where
  "load_flag a m = (sh_flags m a = Some True)"

definition fetch_add :: "nat \<Rightarrow> u64 \<Rightarrow> Shared \<Rightarrow> Shared" where
  "fetch_add a n m = m\<lparr> sh_counters := (sh_counters m)(a := map_option (\<lambda>x. x + n) (sh_counters m a)) \<rparr>"

section \<open>Spawning\<close>

record FeedHandle =
  fh_join :: bool
  fh_shutdown :: nat
  fh_drops :: nat
  fh_reconnects :: nat
  fh_msg_count :: nat

text \<open>The clones that move into the thread.\<close>

record FeedShares =
  fs_shutdown_flag :: nat
  fs_reconnects_counter :: nat
  fs_msg_counter :: nat

datatype IoError = SpawnRefused

definition feed_spawn :: "bool \<Rightarrow> Shared \<Rightarrow> (IoError + (FeedHandle \<times> FeedShares)) \<times> Shared" where
  "feed_spawn os_spawns m =
     (let (shutdown, m) = new_flag False m;
          (drops, m) = new_counter 0 m;
          (reconnects, m) = new_counter 0 m;
          (msg_count, m) = new_counter 0 m;
          shares = \<lparr> fs_shutdown_flag = shutdown, fs_reconnects_counter = reconnects, fs_msg_counter = msg_count \<rparr>
      in if \<not> os_spawns then (Inl SpawnRefused, m)
         else (Inr (\<lparr> fh_join = True, fh_shutdown = shutdown, fh_drops = drops, fh_reconnects = reconnects,
                      fh_msg_count = msg_count \<rparr>, shares), m))"

datatype TimerSpawnError = ConfigError TimerConfigError | SpawnError IoError

record TimerHandle =
  th_join :: bool
  th_shutdown :: nat

text \<open>The thread gets the configuration, the number of ticks per heartbeat, and the flag.\<close>

definition timer_spawn :: "bool \<Rightarrow> TimerConfig \<Rightarrow> Shared \<Rightarrow> (TimerSpawnError + (TimerHandle \<times> u64 \<times> nat)) \<times> Shared" where
  "timer_spawn os_spawns config m =
     (case timer_validate config of
        Inl e \<Rightarrow> (Inl (ConfigError e), m)
      | Inr heartbeat_every \<Rightarrow>
          (let (shutdown, m) = new_flag False m
           in if \<not> os_spawns then (Inl (SpawnError SpawnRefused), m)
              else (Inr (\<lparr> th_join = True, th_shutdown = shutdown \<rparr>, heartbeat_every, shutdown), m)))"

definition feed_is_running :: "FeedHandle \<Rightarrow> bool \<Rightarrow> bool" where
  "feed_is_running self finished \<longleftrightarrow> fh_join self \<and> \<not> finished"

section \<open>A thread and its handle\<close>

text \<open>
  The handle is held, or inside \<open>shutdown\<close> and waiting for the thread, or gone. Every round of the thread starts
  with a load of the flag (\<open>wk_tested\<close> once it was found unset) and then waits for one outside event.
\<close>

datatype handle_state = Held | Joining | Gone

record 't Worker =
  wk_mem :: Shared
  wk_thread :: 't
  wk_tested :: bool
  wk_handle :: handle_state

datatype 'e worker_event = TestStop | TestGo | Act 'e | BeginShutdown | Joined | DropHandle

inductive worker_run ::
  "('e \<Rightarrow> 't \<Rightarrow> 't \<Rightarrow> bool) \<Rightarrow> ('t \<Rightarrow> 't) \<Rightarrow> ('t \<Rightarrow> bool) \<Rightarrow> ('t \<Rightarrow> 't \<Rightarrow> Shared \<Rightarrow> Shared) \<Rightarrow> nat \<Rightarrow>
     't Worker \<Rightarrow> 'e worker_event list \<Rightarrow> 't Worker \<Rightarrow> bool"
  for act stop finished effect flag w0 where
  start: "worker_run act stop finished effect flag w0 [] w0"
| test_stop: "worker_run act stop finished effect flag w0 es w \<Longrightarrow> \<not> finished (wk_thread w) \<Longrightarrow> \<not> wk_tested w \<Longrightarrow>
     load_flag flag (wk_mem w) \<Longrightarrow>
     worker_run act stop finished effect flag w0 (es @ [TestStop]) (w\<lparr> wk_thread := stop (wk_thread w) \<rparr>)"
| test_go: "worker_run act stop finished effect flag w0 es w \<Longrightarrow> \<not> finished (wk_thread w) \<Longrightarrow> \<not> wk_tested w \<Longrightarrow>
     \<not> load_flag flag (wk_mem w) \<Longrightarrow>
     worker_run act stop finished effect flag w0 (es @ [TestGo]) (w\<lparr> wk_tested := True \<rparr>)"
| act: "worker_run act stop finished effect flag w0 es w \<Longrightarrow> wk_tested w \<Longrightarrow>
     act e (wk_thread w) t' \<Longrightarrow>
     worker_run act stop finished effect flag w0 (es @ [Act e])
       (w\<lparr> wk_thread := t', wk_tested := False, wk_mem := effect (wk_thread w) t' (wk_mem w) \<rparr>)"
| shutdown: "worker_run act stop finished effect flag w0 es w \<Longrightarrow> wk_handle w = Held \<Longrightarrow>
     worker_run act stop finished effect flag w0 (es @ [BeginShutdown])
       (w\<lparr> wk_mem := store_flag flag True (wk_mem w), wk_handle := Joining \<rparr>)"
| joined: "worker_run act stop finished effect flag w0 es w \<Longrightarrow> wk_handle w = Joining \<Longrightarrow> finished (wk_thread w) \<Longrightarrow>
     worker_run act stop finished effect flag w0 (es @ [Joined])
       (w\<lparr> wk_mem := store_flag flag True (wk_mem w), wk_handle := Gone \<rparr>)"
| dropped: "worker_run act stop finished effect flag w0 es w \<Longrightarrow> wk_handle w = Held \<Longrightarrow>
     worker_run act stop finished effect flag w0 (es @ [DropHandle])
       (w\<lparr> wk_mem := store_flag flag True (wk_mem w), wk_handle := Gone \<rparr>)"

text \<open>The feed thread: its events other than finding the flag set, and its two counters.\<close>

definition feed_act :: "FeedConfig \<Rightarrow> (bytes \<Rightarrow> 's \<Rightarrow> bool \<times> 's) \<Rightarrow> feed_event \<Rightarrow> 's FeedThread \<Rightarrow> 's FeedThread \<Rightarrow> bool" where
  "feed_act config on_message e s s' \<longleftrightarrow> e \<noteq> Shutdown \<and> feed_step config on_message e s s'"

definition feed_stop :: "'s FeedThread \<Rightarrow> 's FeedThread" where
  "feed_stop s = s\<lparr> ft_pc := Returned \<rparr>"

definition feed_finished :: "'s FeedThread \<Rightarrow> bool" where
  "feed_finished s \<longleftrightarrow> ft_pc s = Returned"

definition feed_effect :: "FeedShares \<Rightarrow> 's FeedThread \<Rightarrow> 's FeedThread \<Rightarrow> Shared \<Rightarrow> Shared" where
  "feed_effect shares s s' m =
     fetch_add (fs_msg_counter shares) (ft_msg_count s' - ft_msg_count s)
       (fetch_add (fs_reconnects_counter shares) (ft_reconnects s' - ft_reconnects s) m)"

text \<open>The timer thread: its counters, the events it has pushed, and whether it has returned.\<close>

record TimerRunning =
  tt_state :: TimerState
  tt_pushed :: "HotEvent list"
  tt_returned :: bool

definition timer_act :: "bool \<Rightarrow> TimerConfig \<Rightarrow> u64 \<Rightarrow> timer_round \<Rightarrow> TimerRunning \<Rightarrow> TimerRunning \<Rightarrow> bool" where
  "timer_act oc config heartbeat_every r s s' \<longleftrightarrow>
     \<not> tt_returned s \<and> (\<exists>es st. timer_tick oc config heartbeat_every r (tt_state s) = Some (es, st) \<and>
       s' = s\<lparr> tt_state := st, tt_pushed := tt_pushed s @ es \<rparr>)"

definition timer_stop :: "TimerRunning \<Rightarrow> TimerRunning" where
  "timer_stop s = s\<lparr> tt_returned := True \<rparr>"

definition worker_start :: "'t \<Rightarrow> Shared \<Rightarrow> 't Worker" where
  "worker_start t m = \<lparr> wk_mem = m, wk_thread = t, wk_tested = False, wk_handle = Held \<rparr>"

section \<open>Stopping\<close>

fun is_signal :: "'e worker_event \<Rightarrow> bool" where
  "is_signal BeginShutdown = True"
| "is_signal DropHandle = True"
| "is_signal _ = False"

fun is_act :: "'e worker_event \<Rightarrow> bool" where
  "is_act (Act e) = True"
| "is_act _ = False"

text \<open>The outside events after the flag was first set.\<close>

definition acts_after_signal :: "'e worker_event list \<Rightarrow> nat" where
  "acts_after_signal es = length (filter is_act (dropWhile (\<lambda>e. \<not> is_signal e) es))"

lemma acts_after_no_signal:
  assumes "\<forall>x\<in>set es. \<not> is_signal x"
  shows "acts_after_signal es = 0"
proof -
  have "dropWhile (\<lambda>e. \<not> is_signal e) es = []" using assms by (simp add: dropWhile_eq_Nil_conv)
  then show ?thesis unfolding acts_after_signal_def by (simp only: filter.simps list.size)
qed

lemma acts_after_snoc:
  "acts_after_signal (es @ [e]) =
     acts_after_signal es + of_bool ((\<exists>x\<in>set es. is_signal x) \<and> is_act e)"
proof (cases "\<exists>x\<in>set es. is_signal x")
  case True
  then show ?thesis by (auto simp: acts_after_signal_def dropWhile_append)
next
  case False
  then have "dropWhile (\<lambda>e. \<not> is_signal e) (es @ [e]) = dropWhile (\<lambda>e. \<not> is_signal e) [e]"
    by (intro dropWhile_append2) simp
  then have "acts_after_signal (es @ [e]) = acts_after_signal [e]" by (simp only: acts_after_signal_def)
  with False show ?thesis by (cases e) (simp_all add: acts_after_no_signal, simp_all add: acts_after_signal_def)
qed

locale stoppable =
  fixes act :: "'e \<Rightarrow> 't \<Rightarrow> 't \<Rightarrow> bool"
    and stop :: "'t \<Rightarrow> 't"
    and finished :: "'t \<Rightarrow> bool"
    and effect :: "'t \<Rightarrow> 't \<Rightarrow> Shared \<Rightarrow> Shared"
  assumes act_live: "act e t t' \<Longrightarrow> \<not> finished t"
    and stop_finishes: "finished (stop t)"
    and effect_flags: "sh_flags (effect t t' m) = sh_flags m"
begin

lemma run_inv:
  assumes "worker_run act stop finished effect flag (worker_start t m) es w" "\<not> finished t" "\<not> load_flag flag m"
  shows "(load_flag flag (wk_mem w) \<longleftrightarrow> (\<exists>x\<in>set es. is_signal x)) \<and>
    (wk_handle w = Held \<longleftrightarrow> \<not> (\<exists>x\<in>set es. is_signal x)) \<and>
    acts_after_signal es + of_bool (load_flag flag (wk_mem w) \<and> wk_tested w) \<le> 1 \<and>
    (finished (wk_thread w) \<longrightarrow> \<not> wk_tested w) \<and> (Joined \<in> set es \<longrightarrow> finished (wk_thread w))"
  using assms(1)
proof (induction rule: worker_run.induct)
  case start
  then show ?case using assms(2,3) by (simp add: worker_start_def acts_after_signal_def)
next
  case (act es w e t')
  have "load_flag flag (effect (wk_thread w) t' (wk_mem w)) = load_flag flag (wk_mem w)"
    by (simp add: load_flag_def effect_flags)
  moreover have "\<not> finished (wk_thread w)" using act.hyps(3) by (rule act_live)
  ultimately show ?case using act by (auto simp: acts_after_snoc)
qed (auto simp: acts_after_snoc acts_after_no_signal stop_finishes store_flag_def load_flag_def)

text \<open>After the signal at most one more outside event happens; \<open>shutdown\<close> returns only when the thread has ended;
  and a thread that finds the flag set ends.\<close>

lemma stops_promptly:
  assumes "worker_run act stop finished effect flag (worker_start t m) es w" "\<not> finished t" "\<not> load_flag flag m"
  shows "acts_after_signal es \<le> 1"
    and "Joined \<in> set es \<Longrightarrow> finished (wk_thread w)"
    and "wk_handle w \<noteq> Held \<Longrightarrow> \<not> finished (wk_thread w) \<Longrightarrow> \<not> wk_tested w \<Longrightarrow>
      \<exists>w'. worker_run act stop finished effect flag (worker_start t m) (es @ [TestStop]) w' \<and> finished (wk_thread w')"
    and "wk_handle w \<noteq> Held \<Longrightarrow> wk_tested w \<Longrightarrow> acts_after_signal es = 0"
proof -
  note inv = run_inv [OF assms]
  show "acts_after_signal es \<le> 1" using inv by linarith
  show "Joined \<in> set es \<Longrightarrow> finished (wk_thread w)" using inv by blast
  show "wk_handle w \<noteq> Held \<Longrightarrow> wk_tested w \<Longrightarrow> acts_after_signal es = 0" using inv by auto
  assume a: "wk_handle w \<noteq> Held" "\<not> finished (wk_thread w)" "\<not> wk_tested w"
  then have "load_flag flag (wk_mem w)" using inv by blast
  from worker_run.test_stop [OF assms(1) a(2,3) this] stop_finishes [of "wk_thread w"]
  show "\<exists>w'. worker_run act stop finished effect flag (worker_start t m) (es @ [TestStop]) w' \<and> finished (wk_thread w')"
    by auto
qed

end

interpretation feed_thread: stoppable "feed_act config on_message" feed_stop feed_finished "feed_effect shares"
  by unfold_locales
    (auto simp: feed_act_def feed_stop_def feed_finished_def feed_effect_def fetch_add_def elim: feed_stepE)

interpretation timer_thread: stoppable "timer_act oc config heartbeat_every" timer_stop tt_returned "\<lambda>s s' m. m"
  by unfold_locales (simp_all add: timer_act_def timer_stop_def)

section \<open>Properties\<close>

lemma feed_spawned:
  assumes "feed_spawn os_spawns m = (Inr (h, shares), m')"
  shows "fs_shutdown_flag shares = fh_shutdown h" "fs_reconnects_counter shares = fh_reconnects h"
    "fs_msg_counter shares = fh_msg_count h" "\<not> load_flag (fh_shutdown h) m'"
    "sh_counters m' (fh_drops h) = Some 0" "sh_counters m' (fh_reconnects h) = Some 0" "sh_counters m' (fh_msg_count h) = Some 0"
    "fh_drops h \<noteq> fh_reconnects h" "fh_drops h \<noteq> fh_msg_count h" "fh_reconnects h \<noteq> fh_msg_count h"
  using assms by (auto simp: feed_spawn_def new_flag_def new_counter_def load_flag_def Let_def split: if_splits)

text \<open>What the thread has counted is in its two cells, and no step writes to another.\<close>

lemma feed_cells:
  assumes "feed_spawn os_spawns m = (Inr (h, shares), m')"
    "worker_run (feed_act config on_message) feed_stop feed_finished (feed_effect shares) (fh_shutdown h)
       (worker_start (feed_start cb) m') es w"
  shows "sh_counters (wk_mem w) (fh_drops h) = Some 0 \<and>
    sh_counters (wk_mem w) (fh_reconnects h) = Some (ft_reconnects (wk_thread w)) \<and>
    sh_counters (wk_mem w) (fh_msg_count h) = Some (ft_msg_count (wk_thread w))"
  using assms(2)
proof (induction rule: worker_run.induct)
  case start
  then show ?case using feed_spawned [OF assms(1)] by (simp add: worker_start_def feed_start_def)
next
  case (act es w e t')
  then show ?case using feed_spawned(2,3,8-10) [OF assms(1)] by (simp add: feed_effect_def fetch_add_def)
qed (simp_all add: feed_stop_def store_flag_def)

text \<open>C30. A spawned feed and its handle, in any interleaving: once \<open>shutdown\<close> was called or the handle dropped, the thread
  takes at most one more connection, read or sleep, and a thread that looks at the flag then ends; \<open>shutdown\<close>
  returns only after the thread has. The handle's counters of reconnections and messages are those of the
  thread. Its counter \<open>drops\<close> is shared with nobody and is always zero, although it is documented as the number
  of messages dropped.
\<close>

theorem feed_handle_protocol:
  fixes es :: "feed_event worker_event list" and cb :: 's
  assumes "feed_spawn os_spawns m = (Inr (h, shares), m')"
    "worker_run (feed_act config on_message) feed_stop feed_finished (feed_effect shares) (fh_shutdown h)
       (worker_start (feed_start cb) m') es w"
  shows "acts_after_signal es \<le> 1 \<and> (Joined \<in> set es \<longrightarrow> feed_finished (wk_thread w)) \<and>
    (wk_handle w \<noteq> Held \<and> \<not> feed_finished (wk_thread w) \<and> \<not> wk_tested w \<longrightarrow>
      (\<exists>w'. worker_run (feed_act config on_message) feed_stop feed_finished (feed_effect shares) (fh_shutdown h)
         (worker_start (feed_start cb) m') (es @ [TestStop]) w' \<and> feed_finished (wk_thread w'))) \<and>
    sh_counters (wk_mem w) (fh_reconnects h) = Some (ft_reconnects (wk_thread w)) \<and>
    sh_counters (wk_mem w) (fh_msg_count h) = Some (ft_msg_count (wk_thread w)) \<and>
    sh_counters (wk_mem w) (fh_drops h) = Some 0"
proof -
  have "\<not> feed_finished (feed_start cb)" by (simp add: feed_finished_def feed_start_def)
  note prompt = feed_thread.stops_promptly [OF assms(2) this feed_spawned(4) [OF assms(1)]]
  show ?thesis using prompt feed_cells [OF assms] by blast
qed

text \<open>A feed whose shutdown is called while it connects: it still connects, and ends at the next test.\<close>

definition no_cells :: Shared where
  "no_cells = \<lparr> sh_flags = Map.empty, sh_counters = Map.empty, sh_next = 0 \<rparr>"

definition sample_shares :: FeedShares where
  "sample_shares = \<lparr> fs_shutdown_flag = 0, fs_reconnects_counter = 2, fs_msg_counter = 3 \<rparr>"

definition sample_handle :: FeedHandle where
  "sample_handle = \<lparr> fh_join = True, fh_shutdown = 0, fh_drops = 1, fh_reconnects = 2, fh_msg_count = 3 \<rparr>"

lemma sample_spawn: "feed_spawn True no_cells = (Inr (sample_handle, sample_shares), snd (feed_spawn True no_cells))"
  by (simp add: feed_spawn_def new_flag_def new_counter_def no_cells_def sample_shares_def sample_handle_def Let_def)

theorem feed_handle_protocol_witness:
  "\<exists>w. worker_run (feed_act sample_feed (\<lambda>_ s. (True, s))) feed_stop feed_finished (feed_effect sample_shares) 0
       (worker_start (feed_start ()) (snd (feed_spawn True no_cells))) [TestGo, BeginShutdown, Act ConnectOk, TestStop, Joined] w
     \<and> feed_finished (wk_thread w) \<and> sh_counters (wk_mem w) 1 = Some 0
     \<and> acts_after_signal [TestGo, BeginShutdown, Act ConnectOk, TestStop, Joined] \<le> 1"
proof -
  let ?run = "worker_run (feed_act sample_feed (\<lambda>_ s. (True, s))) feed_stop feed_finished (feed_effect sample_shares) 0
       (worker_start (feed_start ()) (snd (feed_spawn True no_cells)))"
  let ?w0 = "worker_start (feed_start ()) (snd (feed_spawn True no_cells))"
  define w1 where "w1 = ?w0\<lparr> wk_tested := True \<rparr>"
  have flag: "\<not> load_flag 0 (wk_mem ?w0)"
    by (simp add: worker_start_def feed_spawn_def new_flag_def new_counter_def load_flag_def no_cells_def Let_def)
  have 1: "?run [TestGo] w1"
  proof -
    have "?run ([] @ [TestGo]) w1" unfolding w1_def
      by (rule worker_run.test_go, rule worker_run.start)
        (use flag in \<open>simp_all add: worker_start_def feed_finished_def feed_start_def\<close>)
    then show ?thesis by simp
  qed
  define w2 where "w2 = w1\<lparr> wk_mem := store_flag 0 True (wk_mem w1), wk_handle := Joining \<rparr>"
  have 2: "?run ([TestGo] @ [BeginShutdown]) w2"
    unfolding w2_def by (rule worker_run.shutdown [OF 1]) (simp add: w1_def worker_start_def)
  define t where "t = (feed_start ())\<lparr> ft_pc := Reading \<rparr>"
  have "feed_step sample_feed (\<lambda>_ s. (True, s)) ConnectOk (feed_start ()) t"
    using feed_step.connect_ok [of "feed_start ()" sample_feed "\<lambda>_ s. (True, s)"] by (simp add: t_def feed_start_def)
  then have act: "feed_act sample_feed (\<lambda>_ s. (True, s)) ConnectOk (wk_thread w2) t"
    by (simp add: feed_act_def w2_def w1_def worker_start_def)
  define w3 where "w3 = w2\<lparr> wk_thread := t, wk_tested := False, wk_mem := feed_effect sample_shares (wk_thread w2) t (wk_mem w2) \<rparr>"
  have 3: "?run (([TestGo] @ [BeginShutdown]) @ [Act ConnectOk]) w3"
    unfolding w3_def by (rule worker_run.act [OF 2 _ act]) (simp add: w2_def w1_def)
  define w4 where "w4 = w3\<lparr> wk_thread := feed_stop (wk_thread w3) \<rparr>"
  have 4: "?run ((([TestGo] @ [BeginShutdown]) @ [Act ConnectOk]) @ [TestStop]) w4"
    unfolding w4_def by (rule worker_run.test_stop [OF 3])
      (simp_all add: w3_def w2_def t_def feed_finished_def feed_effect_def fetch_add_def store_flag_def load_flag_def)
  have "?run (((([TestGo] @ [BeginShutdown]) @ [Act ConnectOk]) @ [TestStop]) @ [Joined])
      (w4\<lparr> wk_mem := store_flag 0 True (wk_mem w4), wk_handle := Gone \<rparr>)"
    by (rule worker_run.joined [OF 4]) (simp_all add: w4_def w3_def w2_def feed_stop_def feed_finished_def)
  then obtain w where w: "?run [TestGo, BeginShutdown, Act ConnectOk, TestStop, Joined] w" by auto
  have z: "fh_shutdown sample_handle = 0" "fh_drops sample_handle = 1" by (simp_all add: sample_handle_def)
  note p = feed_handle_protocol [OF sample_spawn, unfolded z, OF w]
  show ?thesis using w p by (intro exI [of _ w]) simp
qed

text \<open>The timer thread stops the same way: after the signal at most one more round, so at most a tick and its heartbeat.\<close>

lemma timer_handle_protocol:
  assumes "timer_spawn os_spawns config m = (Inr (h, heartbeat_every, flag), m')"
    "worker_run (timer_act oc config heartbeat_every) timer_stop tt_returned (\<lambda>s s' m. m) (th_shutdown h)
       (worker_start \<lparr> tt_state = timer_start, tt_pushed = [], tt_returned = False \<rparr> m') es w"
  shows "acts_after_signal es \<le> 1" and "Joined \<in> set es \<Longrightarrow> tt_returned (wk_thread w)"
proof -
  have "\<not> load_flag (th_shutdown h) m'"
    using assms(1) by (auto simp: timer_spawn_def new_flag_def load_flag_def Let_def split: sum.splits if_splits)
  note prompt = timer_thread.stops_promptly [OF assms(2) _ this]
  show "acts_after_signal es \<le> 1" "Joined \<in> set es \<Longrightarrow> tt_returned (wk_thread w)" using prompt(1,2) by simp_all
qed

text \<open>A bad configuration is refused before anything is allocated, whatever the system would do.\<close>

lemma timer_spawn_config: "timer_validate config = Inl e \<Longrightarrow> timer_spawn os_spawns config m = (Inl (ConfigError e), m)"
  by (simp add: timer_spawn_def)

end
