(* ===== verification/Messages.thy ===== *)
theory Messages
  imports Web_Socket Feed_Monitor Thread_Handles Registry Binance_Decoder
begin

text \<open>
  The texts of the errors and small types (their \<open>Display\<close> implementations). A text is the list of its bytes;
  writing it may panic where the code slices a string.
\<close>

section \<open>Numbers and small types\<close>

definition display_u64 :: "u64 \<Rightarrow> bytes" where
  "display_u64 n = digits_of (unat n)"

definition display_instrument_id :: "InstrumentId \<Rightarrow> bytes" where
  "display_instrument_id i = digits_of (unat i)"

definition display_timestamp :: "Timestamp \<Rightarrow> bytes" where
  "display_timestamp ts = digits_of (unat ts) @ text_bytes ''ns''"

definition debug_timestamp :: "Timestamp \<Rightarrow> bytes" where
  "debug_timestamp ts = text_bytes ''Timestamp('' @ digits_of (unat ts) @ text_bytes ''ns)''"

definition display_side :: "Side \<Rightarrow> bytes" where
  "display_side s = (case s of Bid \<Rightarrow> text_bytes ''Bid'' | Ask \<Rightarrow> text_bytes ''Ask'')"

definition display_push_error :: "'a PushError \<Rightarrow> bytes" where
  "display_push_error e = (case e of Full _ \<Rightarrow> text_bytes ''queue is full'')"

definition display_queue_error :: "QueueError \<Rightarrow> bytes" where
  "display_queue_error e = (case e of QueueFull \<Rightarrow> text_bytes ''queue is full'' | QueueEmpty \<Rightarrow> text_bytes ''queue is empty'')"

definition display_meta_error :: "InstrumentMetaError \<Rightarrow> bytes" where
  "display_meta_error e =
     (case e of InvalidTickSize \<Rightarrow> text_bytes ''tick size must be strictly positive''
              | InvalidLotSize \<Rightarrow> text_bytes ''lot size must be strictly positive'')"

definition display_parse_error :: "ParseFixedError \<Rightarrow> bytes" where
  "display_parse_error e =
     (case e of InvalidFormat \<Rightarrow> text_bytes ''invalid decimal format''
              | Overflow \<Rightarrow> text_bytes ''value overflows i64 at this scale''
              | ExcessPrecision \<Rightarrow> text_bytes ''fractional digits exceed scale D'')"

definition display_decoder_error :: "DecoderError \<Rightarrow> bytes" where
  "display_decoder_error e =
     (case e of TooManySymbols \<Rightarrow> text_bytes ''too many symbols (max '' @ digits_of MAX_BINANCE_SYMBOLS @ text_bytes '')''
              | EmptyMappings \<Rightarrow> text_bytes ''at least one symbol mapping is required''
              | SymbolTooLong \<Rightarrow> text_bytes ''symbol exceeds '' @ digits_of MAX_SYMBOL_LEN @ text_bytes '' bytes'')"

section \<open>Threads and sockets\<close>

definition display_ws_error :: "WsError \<Rightarrow> bytes" where
  "display_ws_error e =
     (case e of Connect msg \<Rightarrow> text_bytes (''connect: '' @ msg)
              | Read msg \<Rightarrow> text_bytes (''read: '' @ msg)
              | Send msg \<Rightarrow> text_bytes (''send: '' @ msg)
              | Closed \<Rightarrow> text_bytes ''connection closed'')"

definition display_monitor_full :: "MonitorFullError \<Rightarrow> bytes" where
  "display_monitor_full e = text_bytes ''feed monitor is full''"

definition display_timer_config_error :: "TimerConfigError \<Rightarrow> bytes" where
  "display_timer_config_error e =
     (case e of ZeroTickInterval \<Rightarrow> text_bytes ''tick_interval must be > 0''
              | HeartbeatShorterThanTick \<Rightarrow> text_bytes ''heartbeat_interval must be >= tick_interval''
              | HeartbeatNotDivisible \<Rightarrow> text_bytes ''heartbeat_interval must be evenly divisible by tick_interval''
              | HeartbeatTooLarge \<Rightarrow> text_bytes ''heartbeat_interval / tick_interval exceeds u64::MAX'')"

definition display_timer_spawn_error :: "(IoError \<Rightarrow> bytes) \<Rightarrow> TimerSpawnError \<Rightarrow> bytes" where
  "display_timer_spawn_error io e =
     (case e of ConfigError c \<Rightarrow> text_bytes ''timer config error: '' @ display_timer_config_error c
              | SpawnError i \<Rightarrow> text_bytes ''timer spawn error: '' @ io i)"

section \<open>Registry errors\<close>

text \<open>\<open>&t[..n]\<close> panics unless \<open>n\<close> is the boundary of a character: the start, the end, or a byte that does not
  continue one.\<close>

definition str_prefix :: "bytes \<Rightarrow> nat \<Rightarrow> bytes panics" where
  "str_prefix t n =
     (if n = 0 \<or> n = length t \<or> (n < length t \<and> \<not> (0x80 \<le> t ! n \<and> t ! n \<le> 0xBF)) then Some (take n t) else None)"

definition display_registry_error :: "RegistryError \<Rightarrow> bytes panics" where
  "display_registry_error e =
     (case e of
        DuplicateInstrumentId i \<Rightarrow> Some (text_bytes ''duplicate instrument ID: '' @ display_instrument_id i)
      | DuplicateInstrumentKey \<Rightarrow> Some (text_bytes ''duplicate instrument key'')
      | DuplicateBinanceSymbol s \<Rightarrow> Some (text_bytes ''duplicate Binance symbol: '' @ s)
      | DuplicatePolymarketTokenId t \<Rightarrow> do {
          p \<leftarrow> str_prefix t (min (length t) 20);
          Some (text_bytes ''duplicate Polymarket token ID: '' @ p)
        }
      | MissingInstrument i \<Rightarrow> Some (text_bytes ''instrument not found: '' @ display_instrument_id i)
      | MissingPolymarketBinding i \<Rightarrow> Some (text_bytes ''no Polymarket binding for instrument: '' @ display_instrument_id i)
      | NoNextWindow i \<Rightarrow> Some (text_bytes ''no next window to promote for instrument: '' @ display_instrument_id i)
      | IdSpaceExhausted \<Rightarrow> Some (text_bytes ''instrument ID space exhausted (2^32 - 1 IDs used)''))"

section \<open>Properties\<close>

lemma digits_of_inj: "digits_of m = digits_of n \<longleftrightarrow> m = n"
  using digits_of_facts [of m] digits_of_facts [of n] by (metis of_nat_eq_iff)

lemma display_instrument_id_inj: "display_instrument_id i = display_instrument_id j \<longleftrightarrow> i = j"
  by (simp add: display_instrument_id_def digits_of_inj word_unat_eq_iff)

text \<open>Both texts of a time name it.\<close>

lemma timestamp_texts_inj:
  "display_timestamp t = display_timestamp u \<longleftrightarrow> t = u" "debug_timestamp t = debug_timestamp u \<longleftrightarrow> t = u"
  by (simp_all add: display_timestamp_def debug_timestamp_def digits_of_inj word_unat_eq_iff)

text \<open>The fixed parts of the texts, as bytes.\<close>

lemma registry_texts:
  "text_bytes ''duplicate instrument ID: '' =
     [100, 117, 112, 108, 105, 99, 97, 116, 101, 32, 105, 110, 115, 116, 114, 117, 109, 101, 110, 116, 32, 73, 68,
      58, 32]"
  "text_bytes ''duplicate instrument key'' =
     [100, 117, 112, 108, 105, 99, 97, 116, 101, 32, 105, 110, 115, 116, 114, 117, 109, 101, 110, 116, 32, 107,
      101, 121]"
  "text_bytes ''duplicate Binance symbol: '' =
     [100, 117, 112, 108, 105, 99, 97, 116, 101, 32, 66, 105, 110, 97, 110, 99, 101, 32, 115, 121, 109, 98, 111,
      108, 58, 32]"
  "text_bytes ''duplicate Polymarket token ID: '' =
     [100, 117, 112, 108, 105, 99, 97, 116, 101, 32, 80, 111, 108, 121, 109, 97, 114, 107, 101, 116, 32, 116, 111,
      107, 101, 110, 32, 73, 68, 58, 32]"
  "text_bytes ''instrument not found: '' =
     [105, 110, 115, 116, 114, 117, 109, 101, 110, 116, 32, 110, 111, 116, 32, 102, 111, 117, 110, 100, 58, 32]"
  "text_bytes ''no Polymarket binding for instrument: '' =
     [110, 111, 32, 80, 111, 108, 121, 109, 97, 114, 107, 101, 116, 32, 98, 105, 110, 100, 105, 110, 103, 32, 102,
      111, 114, 32, 105, 110, 115, 116, 114, 117, 109, 101, 110, 116, 58, 32]"
  "text_bytes ''no next window to promote for instrument: '' =
     [110, 111, 32, 110, 101, 120, 116, 32, 119, 105, 110, 100, 111, 119, 32, 116, 111, 32, 112, 114, 111, 109,
      111, 116, 101, 32, 102, 111, 114, 32, 105, 110, 115, 116, 114, 117, 109, 101, 110, 116, 58, 32]"
  "text_bytes ''instrument ID space exhausted (2^32 - 1 IDs used)'' =
     [105, 110, 115, 116, 114, 117, 109, 101, 110, 116, 32, 73, 68, 32, 115, 112, 97, 99, 101, 32, 101, 120, 104,
      97, 117, 115, 116, 101, 100, 32, 40, 50, 94, 51, 50, 32, 45, 32, 49, 32, 73, 68, 115, 32, 117, 115, 101, 100,
      41]"
  by code_simp+

lemma str_prefix_20: "str_prefix t (min (length t) 20) = Some p \<Longrightarrow> p = take 20 t"
  by (auto simp: str_prefix_def min_def split: if_splits)

text \<open>The text an error has when it has one.\<close>

fun registry_text :: "RegistryError \<Rightarrow> bytes" where
  "registry_text (DuplicateInstrumentId i) = text_bytes ''duplicate instrument ID: '' @ display_instrument_id i"
| "registry_text DuplicateInstrumentKey = text_bytes ''duplicate instrument key''"
| "registry_text (DuplicateBinanceSymbol s) = text_bytes ''duplicate Binance symbol: '' @ s"
| "registry_text (DuplicatePolymarketTokenId t) = text_bytes ''duplicate Polymarket token ID: '' @ take 20 t"
| "registry_text (MissingInstrument i) = text_bytes ''instrument not found: '' @ display_instrument_id i"
| "registry_text (MissingPolymarketBinding i) = text_bytes ''no Polymarket binding for instrument: '' @ display_instrument_id i"
| "registry_text (NoNextWindow i) = text_bytes ''no next window to promote for instrument: '' @ display_instrument_id i"
| "registry_text IdSpaceExhausted = text_bytes ''instrument ID space exhausted (2^32 - 1 IDs used)''"

lemma display_registry_text: "display_registry_error e = Some x \<Longrightarrow> x = registry_text e"
  by (cases e) (simp_all add: display_registry_error_def bind_eq_Some_conv, auto dest: str_prefix_20)

lemma registry_text_inj:
  "registry_text e = registry_text e' \<Longrightarrow>
     e = e' \<or> (\<exists>t u. e = DuplicatePolymarketTokenId t \<and> e' = DuplicatePolymarketTokenId u \<and> take 20 t = take 20 u)"
  by (cases e; cases e') (simp_all add: registry_texts display_instrument_id_inj)

text \<open>
  The text of a registry error panics for exactly one kind of error: a token of more than 20 bytes whose 21st
  byte continues a character. Otherwise the text names the error: two errors with the same text are equal, or are
  both duplicate tokens that agree in their first 20 bytes.
\<close>

theorem registry_error_text:
  shows "display_registry_error e = None \<longleftrightarrow>
      (\<exists>t. e = DuplicatePolymarketTokenId t \<and> 20 < length t \<and> 0x80 \<le> t ! 20 \<and> t ! 20 \<le> 0xBF)"
    and "display_registry_error e = Some x \<Longrightarrow> display_registry_error e' = Some x \<Longrightarrow>
      e = e' \<or> (\<exists>t u. e = DuplicatePolymarketTokenId t \<and> e' = DuplicatePolymarketTokenId u \<and> take 20 t = take 20 u)"
proof -
  show "display_registry_error e = None \<longleftrightarrow>
      (\<exists>t. e = DuplicatePolymarketTokenId t \<and> 20 < length t \<and> 0x80 \<le> t ! 20 \<and> t ! 20 \<le> 0xBF)"
    by (cases e) (auto simp: display_registry_error_def str_prefix_def min_def)
  show "e = e' \<or> (\<exists>t u. e = DuplicatePolymarketTokenId t \<and> e' = DuplicatePolymarketTokenId u \<and> take 20 t = take 20 u)"
    if "display_registry_error e = Some x" "display_registry_error e' = Some x"
    using that [THEN display_registry_text] by (intro registry_text_inj) simp
qed

end
