(* ===== verification/Feed_System.thy ===== *)
theory Feed_System
  imports Feed_Callback Web_Socket Thread_Handles Market_State
begin

text \<open>
  The feeds as they are put together: \<open>spawn_polymarket_market_feed\<close> (\<open>crates/polymarket/src/market/spawn.rs\<close>) and
  \<open>spawn_binance_feed\<close> (\<open>crates/binance/src/spawn.rs\<close>) build a decoder and a callback and start a feed thread with it.
  The thread connects, reads, fails and sleeps (\<open>Feed_Loop\<close>), every text goes through the callback into a ring
  (\<open>Feed_Callback\<close>), and a consumer takes events from the ring and applies them to the market-state engine, in any
  interleaving with the thread. A run of the whole is a run of the pipeline of \<open>Feed_Callback\<close>. The calls on the ring are
  atomic here; \<open>Spsc_Concurrent\<close> is about their inside.
\<close>

section \<open>Spawning\<close>

datatype FeedSpawnError = BadConfig SpawnError | SpawnFailed IoError

text \<open>The closure that moves into the thread. Its number of calls only serves to give each call its time; a panic
  inside unwinds the thread.\<close>

record 'c Closure =
  cl_state :: 'c
  cl_calls :: nat
  cl_panicked :: bool

definition on_text :: "(bytes \<Rightarrow> Timestamp \<Rightarrow> 'c \<Rightarrow> (bool \<times> 'c) panics) \<Rightarrow> (nat \<Rightarrow> Timestamp) \<Rightarrow> bytes \<Rightarrow> 'c Closure \<Rightarrow> bool \<times> 'c Closure" where
  "on_text cb now buf c =
     (case cb buf (now (cl_calls c)) (cl_state c) of
        None \<Rightarrow> (False, c\<lparr> cl_panicked := True \<rparr>)
      | Some (continue, s) \<Rightarrow> (continue, c\<lparr> cl_state := s, cl_calls := cl_calls c + 1 \<rparr>))"

text \<open>What a caller gets back and what runs: the handle, the cells the thread shares with it, the configuration of
  connection and loop, and the thread's first state.\<close>

record 'c SpawnedFeed =
  sd_handle :: FeedHandle
  sd_shares :: FeedShares
  sd_ws :: WsConfig
  sd_config :: FeedConfig
  sd_thread :: "'c Closure FeedThread"

definition start_feed :: "bool \<Rightarrow> SpawnError + WsConfig \<times> FeedConfig \<Rightarrow> 'c \<Rightarrow> Shared \<Rightarrow> (FeedSpawnError + 'c SpawnedFeed) \<times> Shared" where
  "start_feed os_spawns feed_config cb m =
     (case feed_config of
        Inl e \<Rightarrow> (Inl (BadConfig e), m)
      | Inr (ws, config) \<Rightarrow>
          (case feed_spawn os_spawns m of
             (Inl e, m) \<Rightarrow> (Inl (SpawnFailed e), m)
           | (Inr (handle, shares), m) \<Rightarrow> (Inr \<lparr> sd_handle = handle, sd_shares = shares, sd_ws = ws, sd_config = config,
               sd_thread = feed_start \<lparr> cl_state = cb, cl_calls = 0, cl_panicked = False \<rparr> \<rparr>, m)))"

definition spawn_polymarket_market_feed ::
    "(string list \<Rightarrow> string) \<Rightarrow> bool \<Rightarrow> PolymarketMarketConfig \<Rightarrow> SourceId \<Rightarrow> InstrumentRegistry \<Rightarrow> 'p \<Rightarrow> Shared \<Rightarrow>
     (FeedSpawnError + (PolymarketMarketDecoder, 'p) FeedCallback SpawnedFeed) \<times> Shared" where
  "spawn_polymarket_market_feed subscribe_msg os_spawns config source_id registry push m =
     start_feed os_spawns (market_feed_config subscribe_msg config) (polymarket_build_callback source_id registry push) m"

definition spawn_binance_feed ::
    "bool \<Rightarrow> BinanceReferenceConfig \<Rightarrow> BinanceDecoder \<Rightarrow> 'p \<Rightarrow> Shared \<Rightarrow>
     (FeedSpawnError + (BinanceDecoder, 'p) FeedCallback SpawnedFeed) \<times> Shared" where
  "spawn_binance_feed os_spawns config decoder push m =
     start_feed os_spawns (reference_feed_config config) (binance_build_callback (length (br_symbols config)) decoder push) m"

section \<open>The running system\<close>

record ('d, 'q) FeedSystem =
  sy_thread :: "('d, 'q) FeedCallback Closure FeedThread"
  sy_taken :: "HotEvent list"
  sy_consumer_panicked :: bool

datatype system_event = OfFeed feed_event | Took

abbreviation callback_of :: "('d, 'q) FeedSystem \<Rightarrow> ('d, 'q) FeedCallback" where
  "callback_of s \<equiv> cl_state (ft_callback (sy_thread s))"

definition set_queue :: "'q \<Rightarrow> ('d, 'q) FeedSystem \<Rightarrow> ('d, 'q) FeedSystem" where
  "set_queue q s = s\<lparr> sy_thread := (sy_thread s)\<lparr> ft_callback := (ft_callback (sy_thread s))\<lparr>
     cl_state := (callback_of s)\<lparr> cb_push := q \<rparr> \<rparr> \<rparr> \<rparr>"

definition system_start :: "('d, 'q) FeedCallback SpawnedFeed \<Rightarrow> ('d, 'q) FeedSystem" where
  "system_start f = \<lparr> sy_thread = sd_thread f, sy_taken = [], sy_consumer_panicked = False \<rparr>"

inductive system_run ::
    "FeedConfig \<Rightarrow> (bytes \<Rightarrow> Timestamp \<Rightarrow> ('d, 'q) FeedCallback \<Rightarrow> (bool \<times> ('d, 'q) FeedCallback) panics) \<Rightarrow> (nat \<Rightarrow> Timestamp) \<Rightarrow>
     ('q \<Rightarrow> (HotEvent option \<times> 'q) panics) \<Rightarrow> ('d, 'q) FeedSystem \<Rightarrow> system_event list \<Rightarrow> ('d, 'q) FeedSystem \<Rightarrow> bool"
  for config cb now pop s0 where
  start: "system_run config cb now pop s0 [] s0"
| feed: "system_run config cb now pop s0 es s \<Longrightarrow> feed_step config (on_text cb now) e (sy_thread s) t \<Longrightarrow>
     system_run config cb now pop s0 (es @ [OfFeed e]) (s\<lparr> sy_thread := t \<rparr>)"
| took: "system_run config cb now pop s0 es s \<Longrightarrow> pop (cb_push (callback_of s)) = Some (v, q) \<Longrightarrow>
     system_run config cb now pop s0 (es @ [Took])
       (set_queue q s\<lparr> sy_taken := sy_taken s @ (case v of None \<Rightarrow> [] | Some e \<Rightarrow> [e]) \<rparr>)"
| took_panic: "system_run config cb now pop s0 es s \<Longrightarrow> pop (cb_push (callback_of s)) = None \<Longrightarrow>
     system_run config cb now pop s0 (es @ [Took]) (s\<lparr> sy_consumer_panicked := True \<rparr>)"

text \<open>The texts the thread has read, and the run as steps of the pipeline.\<close>

fun feed_part :: "system_event list \<Rightarrow> feed_event list" where
  "feed_part [] = []"
| "feed_part (OfFeed e # es) = e # feed_part es"
| "feed_part (Took # es) = feed_part es"

fun steps_of :: "(nat \<Rightarrow> Timestamp) \<Rightarrow> nat \<Rightarrow> system_event list \<Rightarrow> pipeline_step list" where
  "steps_of now n [] = []"
| "steps_of now n (OfFeed (ReadText buf) # es) = Receive buf (now n) # steps_of now (Suc n) es"
| "steps_of now n (OfFeed _ # es) = steps_of now n es"
| "steps_of now n (Took # es) = Take # steps_of now n es"

section \<open>A run of the system is a run of the pipeline\<close>

lemma feed_part_append [simp]: "feed_part (es @ fs) = feed_part es @ feed_part fs"
  by (induction es rule: feed_part.induct) simp_all

lemma texts_append: "texts (es @ fs) = texts es @ texts fs"
  by (induction es rule: texts.induct) simp_all

lemma steps_of_append: "steps_of now n (es @ fs) = steps_of now n es @ steps_of now (n + length (texts (feed_part es))) fs"
  by (induction now n es rule: steps_of.induct) simp_all

lemma receives_append [simp]: "receives (xs @ ys) = receives xs + receives ys"
  by (induction xs rule: receives.induct) simp_all

lemma receives_steps_of: "receives (steps_of now n es) = length (texts (feed_part es))"
  by (induction now n es rule: steps_of.induct) simp_all

text \<open>The texts with the times the callback read for them.\<close>

definition timed_texts :: "(nat \<Rightarrow> Timestamp) \<Rightarrow> system_event list \<Rightarrow> (bytes \<times> Timestamp) list" where
  "timed_texts now es = zip (texts (feed_part es)) (map now [0..<length (texts (feed_part es))])"

lemma messages_steps_of:
  "messages (steps_of now n es) = zip (texts (feed_part es)) (map now [n..<n + length (texts (feed_part es))])"
  by (induction now n es rule: steps_of.induct) (simp_all add: upt_rec)

lemma pipeline_snoc:
  assumes "\<And>buf t s r s'. cb buf t s = Some (r, s') \<Longrightarrow> r"
  shows "pipeline cb pop (xs @ ys) s = do { (out, s) \<leftarrow> pipeline cb pop xs s; (out', s) \<leftarrow> pipeline cb pop ys s; Some (out @ out', s) }"
proof (induction xs arbitrary: s)
  case Nil
  show ?case by (cases "pipeline cb pop ys s") auto
next
  case (Cons x xs)
  show ?case
  proof (cases x)
    case (Receive buf t)
    show ?thesis using Cons.IH assms [of buf t s] by (cases "cb buf t s") (auto simp: Receive)
  next
    case Take
    show ?thesis by (cases "pop (cb_push s)") (auto simp: Take Cons.IH split_def split: Option.bind_splits option.splits)
  qed
qed

text \<open>The pipeline of a callback that always continues never gets stuck as long as few enough texts arrive, so neither does
  the system; its state is the pipeline's, and only a shutdown ends the thread.\<close>

definition system_inv ::
    "(bytes \<Rightarrow> Timestamp \<Rightarrow> ('d, 'q) FeedCallback \<Rightarrow> (bool \<times> ('d, 'q) FeedCallback) panics) \<Rightarrow> (nat \<Rightarrow> Timestamp) \<Rightarrow>
     ('q \<Rightarrow> (HotEvent option \<times> 'q) panics) \<Rightarrow> ('d, 'q) FeedCallback \<Rightarrow> system_event list \<Rightarrow> ('d, 'q) FeedSystem \<Rightarrow> bool" where
  "system_inv cb now pop c0 es s \<longleftrightarrow>
     pipeline cb pop (steps_of now 0 es) c0 = Some (sy_taken s, callback_of s) \<and>
     cl_calls (ft_callback (sy_thread s)) = length (texts (feed_part es)) \<and>
     ft_msg_count (sy_thread s) = word_of_nat (length (texts (feed_part es))) \<and>
     \<not> cl_panicked (ft_callback (sy_thread s)) \<and> \<not> sy_consumer_panicked s \<and>
     (ft_pc (sy_thread s) = Returned \<longrightarrow> OfFeed Shutdown \<in> set es)"

lemma system_feed_inv:
  assumes inv: "system_inv cb now pop c0 es s" and step: "feed_step config (on_text cb now) e (sy_thread s) t"
    and cont: "\<And>buf t s r s'. cb buf t s = Some (r, s') \<Longrightarrow> r"
    and total: "pipeline cb pop (steps_of now 0 (es @ [OfFeed e])) c0 \<noteq> None"
  shows "system_inv cb now pop c0 (es @ [OfFeed e]) (s\<lparr> sy_thread := t \<rparr>)"
  using step
proof cases
  case (read_text buf continue c)
  let ?n = "length (texts (feed_part es))" and ?c = "callback_of s"
  have "cb buf (now ?n) ?c \<noteq> None"
    using total inv read_text by (cases "cb buf (now ?n) ?c") (auto simp: system_inv_def steps_of_append pipeline_snoc [OF cont])
  then obtain c' where c': "cb buf (now ?n) ?c = Some (True, c')" using cont by (metis (full_types) not_None_eq surj_pair)
  then show ?thesis using inv read_text
    by (auto simp: system_inv_def steps_of_append pipeline_snoc [OF cont] on_text_def texts_append)
qed (use inv in \<open>auto simp: system_inv_def steps_of_append texts_append back_off_def\<close>)

lemma system_took_inv:
  assumes inv: "system_inv cb now pop c0 es s" and pop: "pop (cb_push (callback_of s)) = Some (v, q)"
    and cont: "\<And>buf t s r s'. cb buf t s = Some (r, s') \<Longrightarrow> r"
  shows "system_inv cb now pop c0 (es @ [Took]) (set_queue q s\<lparr> sy_taken := sy_taken s @ (case v of None \<Rightarrow> [] | Some e \<Rightarrow> [e]) \<rparr>)"
  using inv pop by (auto simp: system_inv_def steps_of_append pipeline_snoc [OF cont] set_queue_def split: option.splits)

lemma system_run_inv:
  assumes "system_run config cb now pop s0 es s" "64 * length (texts (feed_part es)) < 2 ^ 64"
    and start: "system_inv cb now pop c0 [] s0" and cont: "\<And>buf t s r s'. cb buf t s = Some (r, s') \<Longrightarrow> r"
    and total: "\<And>steps. 64 * receives steps < 2 ^ 64 \<Longrightarrow> pipeline cb pop steps c0 \<noteq> None"
  shows "system_inv cb now pop c0 es s"
  using assms(1,2)
proof induction
  case start
  show ?case by (rule assms(3))
next
  case (feed es s e t)
  then have inv: "system_inv cb now pop c0 es s" by (simp add: texts_append)
  have ok: "pipeline cb pop (steps_of now 0 (es @ [OfFeed e])) c0 \<noteq> None"
    using feed.prems by (intro total) (simp only: receives_steps_of)
  show ?case by (rule system_feed_inv [OF inv feed.hyps(2) _ ok]) (erule cont)
next
  case (took es s v q)
  then have inv: "system_inv cb now pop c0 es s" by simp
  show ?case by (rule system_took_inv [OF inv took.hyps(2)]) (erule cont)
next
  case (took_panic es s)
  have "pipeline cb pop (steps_of now 0 (es @ [Took])) c0 \<noteq> None"
    using took_panic.prems by (intro total) (simp only: receives_steps_of)
  then show ?case using took_panic by (auto simp: system_inv_def steps_of_append pipeline_snoc [OF cont])
qed

lemma callback_continues: "callback decode push buf t s = Some (r, s') \<Longrightarrow> r"
  by (auto simp: callback_def Let_def split: Option.bind_splits)

text \<open>The feeds differ in their decoder only.\<close>

lemma started_feed:
  assumes "start_feed os_spawns feed_config c0 m = (Inr f, m')"
  shows "system_inv cb now pop c0 [] (system_start f)" "\<exists>ws. feed_config = Inr (ws, sd_config f)"
    "feed_spawn os_spawns m = (Inr (sd_handle f, sd_shares f), m')" "sd_thread f = feed_start \<lparr> cl_state = c0, cl_calls = 0, cl_panicked = False \<rparr>"
  using assms
  by (auto simp: start_feed_def system_inv_def system_start_def feed_start_def split: sum.splits prod.splits)

lemma ring_system:
  assumes decoder: "feed_decoder decode ok seq" "ok d" "seq d = 0"
    and ring: "preset_cfg cfg" "inline_storage_new N = Some st"
    and spawn: "start_feed os_spawns feed_config (build_callback d (ring_new st i)) m = (Inr f, m')"
    and run: "system_run (sd_config f) (callback decode (ring_push cfg)) now (ring_pop cfg) (system_start f) es s"
      "64 * length (texts (feed_part es)) < 2 ^ 64"
  shows "\<exists>evs acc. evs = decoded decode (timed_texts now es) make_out d \<and>
    event_seqs evs = next_seqs 0 (length evs) \<and> subseq acc evs \<and> prefix (sy_taken s) acc \<and>
    ring_len (cb_push (callback_of s)) = length acc - length (sy_taken s) \<and>
    unat (cb_drop_count (callback_of s)) = length evs - length acc"
    and "unat (cb_event_count (callback_of s)) = length (texts (feed_part es))"
    and "cb_event_count (callback_of s) = ft_msg_count (sy_thread s)"
    and "\<not> cl_panicked (ft_callback (sy_thread s))" "\<not> sy_consumer_panicked s"
    and "ft_pc (sy_thread s) = Returned \<Longrightarrow> OfFeed Shutdown \<in> set es"
proof -
  let ?cb = "callback decode (ring_push cfg)" and ?c0 = "build_callback d (ring_new st i)"
  note feed = ring_feed [OF decoder(1) ring decoder(2,3), of _ i]
  have total: "pipeline ?cb (ring_pop cfg) steps ?c0 \<noteq> None" if "64 * receives steps < 2 ^ 64" for steps
    using feed [OF that] by auto
  have inv: "system_inv ?cb now (ring_pop cfg) ?c0 es s"
    by (rule system_run_inv [OF run started_feed(1) [OF spawn]]) (erule callback_continues, erule total)
  have "64 * receives (steps_of now 0 es) < 2 ^ 64" using run(2) by (simp only: receives_steps_of)
  from feed [OF this] inv obtain evs acc where *: "evs = decoded decode (timed_texts now es) make_out d" "event_seqs evs = next_seqs 0 (length evs)" "subseq acc evs"
    "prefix (sy_taken s) acc" "ring_len (cb_push (callback_of s)) = length acc - length (sy_taken s)"
    "unat (cb_drop_count (callback_of s)) = length evs - length acc"
    "unat (cb_event_count (callback_of s)) = receives (steps_of now 0 es)"
    by (auto simp: system_inv_def messages_steps_of timed_texts_def)
  then show "\<exists>evs acc. evs = decoded decode (timed_texts now es) make_out d \<and>
    event_seqs evs = next_seqs 0 (length evs) \<and> subseq acc evs \<and> prefix (sy_taken s) acc \<and>
    ring_len (cb_push (callback_of s)) = length acc - length (sy_taken s) \<and>
    unat (cb_drop_count (callback_of s)) = length evs - length acc" by blast
  show n: "unat (cb_event_count (callback_of s)) = length (texts (feed_part es))" using *(7) by (simp only: receives_steps_of)
  have "cb_event_count (callback_of s) = word_of_nat (length (texts (feed_part es)))" by (simp flip: n)
  then show "cb_event_count (callback_of s) = ft_msg_count (sy_thread s)" using inv by (simp add: system_inv_def)
  show "\<not> cl_panicked (ft_callback (sy_thread s))" "\<not> sy_consumer_panicked s"
    "ft_pc (sy_thread s) = Returned \<Longrightarrow> OfFeed Shutdown \<in> set es" using inv by (auto simp: system_inv_def)
qed

section \<open>Properties\<close>

text \<open>C5. A Polymarket feed from the socket to the books, in every interleaving of the feed thread's connections, reads,
  failures and sleeps with a consumer's takes, for any bytes from the exchange, any clock, any preset ring and fewer
  than \<open>2 ^ 58\<close> texts. Neither the thread nor the consumer panics, and the thread ends only when shut down. The
  events the decoder makes of the texts read, with the times of their receipt, are numbered without a gap over
  reconnections; the consumer has taken, in order, the first of those the ring accepted and every refused one is counted.
  The callback's message counter and the handle's agree and count the texts read. The engine that processes the
  taken events does not panic either and holds exactly the books those events describe, with their best levels; there a
  build with overflow checks needs quantities of at most \<open>2 ^ 46\<close> lots in the taken events, since the products of the
  micro price may overflow beyond, while a build without them takes any.\<close>

theorem polymarket_system_end_to_end:
  assumes "preset_cfg cfg" "inline_storage_new N = Some st" "D \<le> 18"
    and "\<forall>iid m. registry_meta iid reg = Some m \<longrightarrow> meta_wf m"
    and "spawn_polymarket_market_feed subscribe os_spawns config src reg (ring_new st i) mem = (Inr f, mem')"
    and "system_run (sd_config f) (polymarket_callback pj oc D (ring_push cfg)) now (ring_pop cfg) (system_start f) es s"
    and "64 * length (texts (feed_part es)) < 2 ^ 64"
    and "B \<le> 65536" "engine_new (array_book_ops B) max_n n timeout = Some e0"
  shows "(\<exists>evs acc. evs = decoded (polymarket_decode pj oc D) (timed_texts now es) make_out (polymarket_decoder_new src reg) \<and>
      event_seqs evs = next_seqs 0 (length evs) \<and> subseq acc evs \<and> prefix (sy_taken s) acc \<and>
      ring_len (cb_push (callback_of s)) = length acc - length (sy_taken s) \<and>
      unat (cb_drop_count (callback_of s)) = length evs - length acc) \<and>
    unat (cb_event_count (callback_of s)) = length (texts (feed_part es)) \<and>
    cb_event_count (callback_of s) = ft_msg_count (sy_thread s) \<and>
    \<not> cl_panicked (ft_callback (sy_thread s)) \<and> \<not> sy_consumer_panicked s \<and>
    (ft_pc (sy_thread s) = Returned \<longrightarrow> OfFeed Shutdown \<in> set es) \<and>
    ((oc \<longrightarrow> list_all event_bounded (sy_taken s)) \<longrightarrow>
      (\<exists>e. engine_run (array_book_ops B) oc (sy_taken s) e0 = Some e \<and>
        (\<forall>i. 0 < unat i \<and> unat i \<le> n \<longrightarrow> (\<exists>b. engine_book i e = Some (Some b) \<and>
          book_describes B (ledger_events (array_grid B) i (sy_taken s) (\<lambda>_ _. 0)) b))))"
proof -
  let ?d = "polymarket_decoder_new src reg"
  have d: "polymarket_ready D ?d" "pd_seq ?d = 0"
    using assms(3,4) by (auto simp: polymarket_ready_def polymarket_decoder_new_def)
  have spawn: "start_feed os_spawns (market_feed_config subscribe config) (build_callback ?d (ring_new st i)) mem = (Inr f, mem')"
    using assms(5) by (simp add: spawn_polymarket_market_feed_def polymarket_build_callback_def)
  note system = ring_system [OF polymarket_feed_decoder d assms(1,2) spawn
    assms(6) [unfolded polymarket_callback_def [abs_def]] assms(7)]
  show ?thesis using system engine_run_books [OF assms(8,9), of oc "sy_taken s"] by blast
qed

text \<open>The same of a Binance feed. A feed without symbols, or without tokens, is refused before a thread is started.\<close>

theorem binance_system_end_to_end:
  assumes "preset_cfg cfg" "inline_storage_new N = Some st" "D \<le> 18"
    and "binance_new src ms = Inr d" "list_all (\<lambda>m. meta_wf (bm_meta m)) ms"
    and "spawn_binance_feed os_spawns config d (ring_new st i) mem = (Inr f, mem')"
    and "system_run (sd_config f) (callback (binance_decode bj oc D) (ring_push cfg)) now (ring_pop cfg) (system_start f) es s"
    and "64 * length (texts (feed_part es)) < 2 ^ 64"
  shows "\<exists>evs acc. evs = decoded (binance_decode bj oc D) (timed_texts now es) make_out
        (set_combined_stream (length (br_symbols config) > 1) d) \<and>
      event_seqs evs = next_seqs 0 (length evs) \<and> subseq acc evs \<and> prefix (sy_taken s) acc \<and>
      ring_len (cb_push (callback_of s)) = length acc - length (sy_taken s) \<and>
      unat (cb_drop_count (callback_of s)) = length evs - length acc"
    and "unat (cb_event_count (callback_of s)) = length (texts (feed_part es))"
    and "\<not> cl_panicked (ft_callback (sy_thread s))" "\<not> sy_consumer_panicked s"
    and "ft_pc (sy_thread s) = Returned \<Longrightarrow> OfFeed Shutdown \<in> set es"
proof -
  let ?d = "set_combined_stream (length (br_symbols config) > 1) d"
  have seq: "bd_seq d = 0" using assms(4) by (rule binance_new_table)
  have d: "binance_ready D ?d" "bd_seq ?d = 0" using binance_ready_new [OF assms(3-5)] seq by (simp_all add: set_combined_stream_def)
  have "start_feed os_spawns (reference_feed_config config) (build_callback ?d (ring_new st i)) mem = (Inr f, mem')"
    using assms(6) by (simp add: spawn_binance_feed_def binance_build_callback_def)
  note system = ring_system [OF binance_feed_decoder d assms(1,2) this assms(7,8)]
  show "\<exists>evs acc. evs = decoded (binance_decode bj oc D) (timed_texts now es) make_out ?d \<and>
      event_seqs evs = next_seqs 0 (length evs) \<and> subseq acc evs \<and> prefix (sy_taken s) acc \<and>
      ring_len (cb_push (callback_of s)) = length acc - length (sy_taken s) \<and>
      unat (cb_drop_count (callback_of s)) = length evs - length acc"
    "unat (cb_event_count (callback_of s)) = length (texts (feed_part es))"
    "\<not> cl_panicked (ft_callback (sy_thread s))" "\<not> sy_consumer_panicked s"
    "ft_pc (sy_thread s) = Returned \<Longrightarrow> OfFeed Shutdown \<in> set es" using system by blast+
qed

lemma spawn_refusals:
  "fst (spawn_polymarket_market_feed subscribe os_spawns pc src reg p mem) = Inl (BadConfig InvalidInput) \<longleftrightarrow> pm_token_ids pc = []"
  "fst (spawn_binance_feed os_spawns bc d p mem) = Inl (BadConfig InvalidInput) \<longleftrightarrow> br_symbols bc = []"
  "pm_token_ids pc = [] \<Longrightarrow> snd (spawn_polymarket_market_feed subscribe os_spawns pc src reg p mem) = mem"
  by (auto simp: spawn_polymarket_market_feed_def spawn_binance_feed_def start_feed_def market_feed_config_def
      reference_feed_config_def split: sum.splits prod.splits)

section \<open>Witness\<close>

definition book_text :: bytes where
  "book_text = [0x22, 0x74, 0x79, 0x70, 0x65, 0x22, 0x3A, 0x22, 0x62, 0x6F, 0x6F, 0x6B, 0x22]"

lemma book_text_type: "peek_type book_text = Some (ascii ''book'')"
  by code_simp

lemma push_two:
  "push_events (ring_push (masked_cfg True no_instr False)) [a, b] (ring_new [None, None, None, None] ()) 0 =
     Some (\<lparr> rg_head = 2, rg_head_local = 0, rg_tail_cached = 0, rg_tail = 0,
      rg_tail_local = 0, rg_head_cached = 0, rg_storage = [Some a, Some b, None, None], rg_instr = () \<rparr>, 0)"
  by code_simp

lemma pop_first:
  "ring_pop (masked_cfg True no_instr False) \<lparr> rg_head = 2, rg_head_local = 0, rg_tail_cached = 0, rg_tail = 0,
      rg_tail_local = 0, rg_head_cached = 0, rg_storage = [Some a, Some (b :: HotEvent), None, None], rg_instr = () \<rparr> =
   Some (Some a, \<lparr> rg_head = 2, rg_head_local = 0, rg_tail_cached = 0, rg_tail = 1,
      rg_tail_local = 0, rg_head_cached = 2, rg_storage = [None, Some b, None, None], rg_instr = () \<rparr>)"
  by code_simp

text \<open>A snapshot of two levels arrives on a ring of four slots, and the consumer takes the first level.\<close>

definition sample_market :: PolymarketMarketConfig where
  "sample_market = \<lparr> pm_token_ids = [''1''], pm_core_id = None, pm_backoff = backoff_default \<rparr>"

lemma sample_text_callback:
  "\<exists>a b c. polymarket_callback sample_json True 6 (ring_push (masked_cfg True no_instr False)) book_text 5
      (polymarket_build_callback 7 sample_bound (ring_new [None, None, None, None] ())) = Some (True, c) \<and>
    cb_push c = \<lparr> rg_head = 2, rg_head_local = 0, rg_tail_cached = 0, rg_tail = 0, rg_tail_local = 0, rg_head_cached = 0,
      rg_storage = [Some a, Some b, None, None], rg_instr = () \<rparr> \<and>
    event_bounded a"
proof -
  let ?msg = "the (pj_book sample_json book_text)"
  have m: "pj_book sample_json book_text = Some ?msg" "pb_asset_id ?msg = [49]" by (simp_all add: sample_json_def)
  have o: "length make_out = 64" "pd_seq sample_decoder = 0" "pd_source_id sample_decoder = 7"
    by (simp_all add: make_out_def sample_decoder_def polymarket_decoder_new_def)
  define es where "es = mark_last (number_events 5 0 1 7 (snapshot_payloads 6 sample_meta ?msg))"
  obtain a b where es: "es = [a, b]" "event_bounded a"
    by (simp add: es_def sample_payloads mark_last_def event_bounded_def event_book_delta_def sint_numeral_i64)
  have "decode_book sample_json True 6 book_text 5 make_out sample_decoder =
      Some (Suc (Suc 0), sample_decoder\<lparr> pd_seq := 2 \<rparr>, es @ drop (Suc (Suc 0)) make_out)"
    using decode_book_emits [OF _ o(1) m(1) _ sample_meta_wf _ refl, of 6 sample_decoder 1 True 5] o
    by (simp add: m(2) sample_resolve es_def sample_payloads)
  then have "polymarket_decode sample_json True 6 book_text 5 make_out sample_decoder =
      Some (Suc (Suc 0), sample_decoder\<lparr> pd_seq := 2 \<rparr>, es @ drop (Suc (Suc 0)) make_out)"
    by (simp add: polymarket_decode_def book_text_type ascii_def) (simp add: book_text_def)
  then show ?thesis using es
    by (auto simp: polymarket_callback_def callback_def polymarket_build_callback_def build_callback_def
        push_two Let_def sample_decoder_def [symmetric] simp del: push_events.simps)
qed

lemma sample_system_run:
  "\<exists>f mem s a. spawn_polymarket_market_feed concat True sample_market 7 sample_bound (ring_new [None, None, None, None] ()) no_cells =
      (Inr f, mem) \<and>
    system_run (sd_config f) (polymarket_callback sample_json True 6 (ring_push (masked_cfg True no_instr False))) (\<lambda>_. 5)
      (ring_pop (masked_cfg True no_instr False)) (system_start f) [OfFeed ConnectOk, OfFeed (ReadText book_text), Took] s \<and>
    sy_taken s = [a] \<and> event_bounded a"
proof -
  let ?cfg = "masked_cfg True no_instr False" and ?st = "[None, None, None, None] :: HotEvent slots"
  let ?c0 = "polymarket_build_callback 7 sample_bound (ring_new ?st ())"
  let ?cb = "polymarket_callback sample_json True 6 (ring_push ?cfg)"
  obtain a b c where c: "?cb book_text 5 ?c0 = Some (True, c)"
    "cb_push c = \<lparr> rg_head = 2, rg_head_local = 0, rg_tail_cached = 0, rg_tail = 0, rg_tail_local = 0, rg_head_cached = 0,
      rg_storage = [Some a, Some b, None, None], rg_instr = () \<rparr>" "event_bounded a"
    using sample_text_callback by blast
  obtain m where "feed_spawn True no_cells = (Inr (sample_handle, sample_shares), m)" using sample_spawn by blast
  then obtain f mem where f: "spawn_polymarket_market_feed concat True sample_market 7 sample_bound (ring_new ?st ()) no_cells = (Inr f, mem)"
    by (simp add: spawn_polymarket_market_feed_def start_feed_def market_feed_config_def sample_market_def)
  have t: "sd_thread f = feed_start \<lparr> cl_state = ?c0, cl_calls = 0, cl_panicked = False \<rparr>"
    using f unfolding spawn_polymarket_market_feed_def by (rule started_feed(4))
  let ?run = "system_run (sd_config f) ?cb (\<lambda>_. 5) (ring_pop ?cfg) (system_start f)"
  let ?step = "feed_step (sd_config f) (on_text ?cb (\<lambda>_. 5))"
  define t1 where "t1 = (sd_thread f)\<lparr> ft_pc := Reading \<rparr>"
  have s1: "?step ConnectOk (sd_thread f) t1"
    using feed_step.connect_ok [of "sd_thread f"] by (simp add: t1_def t feed_start_def)
  have t1: "ft_callback t1 = \<lparr> cl_state = ?c0, cl_calls = 0, cl_panicked = False \<rparr>" "ft_pc t1 = Reading"
    by (simp_all add: t1_def t feed_start_def)
  let ?c1 = "\<lparr> cl_state = c, cl_calls = 1, cl_panicked = False \<rparr>"
  have "on_text ?cb (\<lambda>_. 5) book_text (ft_callback t1) = (True, ?c1)" using c(1) by (simp add: t1(1) on_text_def)
  from feed_step.read_text [where on_message = "on_text ?cb (\<lambda>_. 5)" and buf = book_text, OF t1(2) this]
  obtain t2 where s2: "?step (ReadText book_text) t1 t2" "ft_callback t2 = ?c1" by force
  have "?run ([] @ [OfFeed ConnectOk]) ((system_start f)\<lparr> sy_thread := t1 \<rparr>)"
    by (rule system_run.feed [OF system_run.start]) (simp add: system_start_def s1)
  from system_run.feed [OF this, of "ReadText book_text" t2] s2(1)
  have run2: "?run (([] @ [OfFeed ConnectOk]) @ [OfFeed (ReadText book_text)]) ((system_start f)\<lparr> sy_thread := t2 \<rparr>)" by simp
  obtain q where "ring_pop ?cfg (cb_push (callback_of ((system_start f)\<lparr> sy_thread := t2 \<rparr>))) = Some (Some a, q)"
    using pop_first [of a b] by (simp add: s2(2) c(2))
  from system_run.took [OF run2 this] f c(3) show ?thesis by (force simp: system_start_def)
qed

theorem polymarket_system_end_to_end_witness:
  "\<exists>f mem s e0 e b. spawn_polymarket_market_feed concat True sample_market 7 sample_bound (ring_new [None, None, None, None] ()) no_cells =
      (Inr f, mem) \<and>
    system_run (sd_config f) (polymarket_callback sample_json True 6 (ring_push (masked_cfg True no_instr False))) (\<lambda>_. 5)
      (ring_pop (masked_cfg True no_instr False)) (system_start f) [OfFeed ConnectOk, OfFeed (ReadText book_text), Took] s \<and>
    length (sy_taken s) = 1 \<and> unat (cb_event_count (callback_of s)) = 1 \<and> \<not> cl_panicked (ft_callback (sy_thread s)) \<and>
    engine_run (array_book_ops 100) True (sy_taken s) e0 = Some e \<and> engine_book 1 e = Some (Some b)"
proof -
  obtain f mem s a where f: "spawn_polymarket_market_feed concat True sample_market 7 sample_bound
      (ring_new [None, None, None, None] ()) no_cells = (Inr f, mem)"
    and run: "system_run (sd_config f) (polymarket_callback sample_json True 6 (ring_push (masked_cfg True no_instr False))) (\<lambda>_. 5)
      (ring_pop (masked_cfg True no_instr False)) (system_start f) [OfFeed ConnectOk, OfFeed (ReadText book_text), Took] s"
    and a: "sy_taken s = [a]" "event_bounded a"
    using sample_system_run by blast
  obtain e0 where e0: "engine_new (array_book_ops 100) 1 1 0 = Some e0" by (simp add: engine_new_def)
  have cfg: "preset_cfg (masked_cfg True no_instr False)" by (auto simp: preset_cfg_def)
  have st: "inline_storage_new 4 = Some [None, None, None, None :: HotEvent option]"
    using power_of_two_mask [of 2] by (simp add: inline_storage_new_def eval_nat_numeral)
  have small: "(6 :: nat) \<le> 18" "(100 :: nat) \<le> 65536" "list_all event_bounded (sy_taken s)"
    "64 * length (texts (feed_part [OfFeed ConnectOk, OfFeed (ReadText book_text), Took])) < 2 ^ 64"
    using a by simp_all
  have wf: "\<forall>iid m. registry_meta iid sample_bound = Some m \<longrightarrow> meta_wf m" using sample_registry_meta_wf by blast
  note all = polymarket_system_end_to_end [OF cfg st small(1) wf f run small(4,2) e0]
  have "unat (cb_event_count (callback_of s)) = length (texts (feed_part [OfFeed ConnectOk, OfFeed (ReadText book_text), Took]))"
    "\<not> cl_panicked (ft_callback (sy_thread s))" using all by blast+
  then have n: "unat (cb_event_count (callback_of s)) = 1" "\<not> cl_panicked (ft_callback (sy_thread s))" by simp_all
  have "\<exists>e. engine_run (array_book_ops 100) True (sy_taken s) e0 = Some e \<and>
        (\<forall>i. 0 < unat i \<and> unat i \<le> 1 \<longrightarrow> (\<exists>b. engine_book i e = Some (Some b) \<and>
          book_describes 100 (ledger_events (array_grid 100) i (sy_taken s) (\<lambda>_ _. 0)) b))"
    using all small(3) by blast
  then obtain e b where "engine_run (array_book_ops 100) True (sy_taken s) e0 = Some e" "engine_book 1 e = Some (Some b)"
    by (elim conjE exE allE [of _ 1]) auto
  moreover have "length (sy_taken s) = 1" using a by simp
  ultimately show ?thesis using f run n by blast
qed

end
