(* ===== verification/Tuning.thy ===== *)
theory Tuning
  imports Mantis_Prelude
begin

text \<open>
  CPU pinning and busy polling (\<open>crates/transport/src/tuning.rs\<close>). What the operating system answers is an argument; the
  results are the calls made to it, with what is logged about them.
\<close>

record SocketTuning =
  st_core_id :: "nat option"
  st_busy_poll_us :: "32 word option"

definition tuning_default :: SocketTuning where
  "tuning_default = \<lparr> st_core_id = None, st_busy_poll_us = None \<rparr>"

datatype affinity = NotRequested | Pinned nat | PinFailed nat | CoreNotFound nat

text \<open>\<open>get_core_ids\<close> is the list the system gives, or \<open>None\<close>; \<open>set_for_current\<close> whether it pins the thread to a core.\<close>

definition apply_affinity :: "nat list option \<Rightarrow> (nat \<Rightarrow> bool) \<Rightarrow> SocketTuning \<Rightarrow> affinity" where
  "apply_affinity get_core_ids set_for_current self =
     (case st_core_id self of
        None \<Rightarrow> NotRequested
      | Some core_id \<Rightarrow>
          (let available = case get_core_ids of None \<Rightarrow> [] | Some ids \<Rightarrow> ids in
           case find (\<lambda>c. c = core_id) available of
             Some c \<Rightarrow> if set_for_current c then Pinned core_id else PinFailed core_id
           | None \<Rightarrow> CoreNotFound core_id))"

text \<open>The socket option takes a C \<open>int\<close>; the result is the value passed to the system and whether that succeeded.\<close>

definition apply_busy_poll :: "(int \<Rightarrow> int) \<Rightarrow> SocketTuning \<Rightarrow> (int \<times> bool) option" where
  "apply_busy_poll setsockopt self =
     (case st_busy_poll_us self of
        None \<Rightarrow> None
      | Some us \<Rightarrow> (let val = sint us; ret = setsockopt val in Some (val, ret = 0)))"

section \<open>Properties\<close>

text \<open>A thread is pinned only where it was asked to be, to a core that exists.\<close>

lemma affinity_cases:
  "apply_affinity ids pin t = Pinned c \<longleftrightarrow> st_core_id t = Some c \<and> (\<exists>cs. ids = Some cs \<and> c \<in> set cs) \<and> pin c"
  "apply_affinity ids pin t = CoreNotFound c \<longleftrightarrow> st_core_id t = Some c \<and> (\<forall>cs. ids = Some cs \<longrightarrow> c \<notin> set cs)"
  by (auto simp: apply_affinity_def find_Some_iff find_None_iff in_set_conv_nth split: option.splits)

text \<open>The interval reaches the system unchanged below \<open>2 ^ 31\<close> microseconds, and as a negative number above.\<close>

lemma sint_32_cases: "sint (us :: 32 word) = (if uint us < 2 ^ 31 then uint us else uint us - 2 ^ 32)"
proof (cases "uint us < 2 ^ 31")
  case True
  then have "sint (word_of_int (uint us) :: 32 word) = uint us"
    by (intro sint_of_int_range) (simp_all add: order_trans [OF _ uint_ge_0])
  with True show ?thesis by simp
next
  case False
  have eq: "word_of_int (uint us - 2 ^ 32) = us" by simp
  have "uint us < 2 ^ 32" using uint_lt2p [of us] by simp
  then have "sint (word_of_int (uint us - 2 ^ 32) :: 32 word) = uint us - 2 ^ 32"
    using False by (intro sint_of_int_range) simp_all
  then show ?thesis using False unfolding eq by simp
qed

lemma busy_poll_value:
  assumes "st_busy_poll_us t = Some us"
  shows "apply_busy_poll so t = (let val = if uint us < 2 ^ 31 then uint us else uint us - 2 ^ 32 in Some (val, so val = 0))"
  unfolding apply_busy_poll_def assms sint_32_cases Let_def option.simps ..

end
