(* ===== verification/Spec2Isabelle.thy ===== *)
theory Spec2Isabelle
  imports Bithacks Fixed_Parse Fixed_Convert Market_State Book_Imbalance Copy_Ring Spsc_Release_Acquire Exposure
    Strategy_Types Seq_Lock_Weak Feed_Callback Feed_Monitor Timer_Thread Web_Socket Copy_Dispatch Copy_Concurrent
    Raw_Bench Verify_Props Bench_Samples Platform Messages Feed_System Tuning
begin

text \<open>
  Mantis is a low-latency trading stack in Rust. This library verifies the crates that carry its logic:
  fixed-point arithmetic, the events, the order book and the market-state engine, the lock-free queues, the
  exchange decoders and the threads that feed them, the strategy-side accounting, and the low-level arithmetic.
  Paths are those of the repository, under \<open>src/crates\<close>.

  How the parts work together. A feed thread (\<open>transport\<close>) reads texts from a WebSocket and hands them to a
  callback (\<open>binance\<close>, \<open>polymarket\<close>), which decodes them into \<open>HotEvent\<close>s with the help of the instrument registry and
  the decimal parser and pushes them into a single-producer single-consumer ring (\<open>queue\<close>). The consumer applies the
  events to the books of the market-state engine (\<open>market-state\<close>), keeps positions, orders, queue estimates and
  exposure (\<open>strategy\<close>), and may publish snapshots through a sequence lock (\<open>seqlock\<close>). A timer thread adds ticks
  and heartbeats, and a monitor watches the feeds' message counters.

  Conventions. \<open>i64\<close> and \<open>u64\<close> are 64 bit words read by \<open>sint\<close> or \<open>unat\<close>, \<open>i128\<close> a 128 bit word, \<open>usize\<close> a natural
  number. A panic (and, in unsafe code, undefined behaviour) is \<open>None\<close> of the type \<open>panics\<close>; Rust's \<open>Option\<close> is an
  option below it and \<open>Result\<close> a sum with the error on the left. The flag \<open>oc\<close> says whether the build checks
  overflow: with it an overflowing operator panics, without it wraps. Text is a list of bytes. Hash maps are partial
  functions. \<open>f64\<close> is IEEE binary64 over the rationals, executable, with rounding to nearest even. Calls into
  third-party crates (JSON parsers, libm, the socket, the clock) are arguments of the definitions that use them.

  Theories, what they model, and what is proved of it.

  \<^item> \<open>Mantis_Prelude\<close>: words, panics, checked, wrapping and saturating arithmetic, the lemmas the components share.
  \<^item> \<open>Fixed_Arith\<close>, \<open>Fixed_Mul_Div\<close>, \<open>Fixed_Convert\<close> (\<open>fixed/src/fixed_i64.rs\<close>, \<open>arithmetic.rs\<close>, \<open>mul_div.rs\<close>,
    \<open>convert.rs\<close>): every operator of \<open>FixedI64\<close>. Multiplication and division return the exact quotient rounded as named,
    and fail exactly when it does not fit; the two-step 128 bit division equals plain division.
  \<^item> \<open>Fixed_Parse\<close> (\<open>parse.rs\<close>, \<open>fmt.rs\<close>): the single-pass parser accepts exactly the numerals of its grammar that
    fit, and parsing undoes printing.
  \<^item> \<open>Domain_Types\<close>, \<open>Events\<close> (\<open>types\<close>, \<open>events\<close>): newtypes, instrument grids with their round trips, event headers,
    flags, payloads and constructors.
  \<^item> \<open>Order_Book\<close> (\<open>market-state/src/book/mod.rs\<close>): the trait as a record of operations and its contract as the locale
    \<open>order_book\<close>, against a ledger of quantities. \<open>Array_Book\<close> (\<open>array_book.rs\<close>) meets it for every size a cached \<open>u16\<close>
    index can address; caches, depth and totals are right after any history.
  \<^item> \<open>Market_State\<close>, \<open>Book_Imbalance\<close> (\<open>engine.rs\<close>, \<open>state.rs\<close>): the engine over any book of the contract. After any run
    of events the books and their best levels are those of the ledger; a top of book is emitted exactly when the best
    prices differ from the recorded ones, which are then replaced; the imbalance is between -1 and 1 with all rounding. Builds
    with overflow checks need quantities of at most \<open>2 ^ 46\<close> lots, beyond which the micro price may overflow.
  \<^item> \<open>Ring_Core\<close> (\<open>core/src/lib.rs\<close>), \<open>Bounded_Queue\<close>, \<open>Spsc_Ring\<close> (\<open>queue/src/engine.rs\<close>, \<open>storage.rs\<close>, \<open>raw\<close>), \<open>Copy_Ring\<close>
    (\<open>queue/src/copy_ring\<close>): the index strategies as a locale, the rings over it, and the promise of a bounded queue as
    the locale \<open>bounded_queue\<close>, which both rings provide. Any sequence of operations behaves as a list of \<open>N - 1\<close> places.
  \<^item> \<open>Spsc_Concurrent\<close>: push and pop of the ring as an interleaving of shared-memory accesses of two threads, with an
    invariant by rule induction: no slot is misused, the consumer receives a prefix of what was sent, full and empty are
    truthful. Each thread can always step, and counting the steps taken inside an operation shows that none takes more
    than four, whatever the other thread does.
  \<^item> \<open>Spsc_Release_Acquire\<close>: the same ring on a release/acquire memory, where loads of an index may return old values and
    synchronise only as their orderings say. Slot accesses are ordered by the clocks the index values carry, so there is
    no data race; a relaxed store of an index would be one. The sequentially consistent runs are among its runs.
  \<^item> \<open>Copy_Concurrent\<close> (\<open>queue/src/copy_ring/engine.rs\<close>): the copy ring under two threads, each value of a batch copied in a step of
    its own. The slots one thread has still to write and those the other has still to read never meet, in the two
    chunks of a wrapped batch either, and what is received is a prefix of what was published.
  \<^item> \<open>Copy_Dispatch\<close> (\<open>platform/src/intrinsics/copy_dispatch.rs\<close>): the copy kernels over a byte memory, the dispatcher by size and the
    copy policies, whose contract is the locale \<open>copy_policy\<close>. Every size is a plain copy, except 9 to 15 bytes.
  \<^item> \<open>Ring_Handles\<close> (\<open>queue/src/handle.rs\<close>, \<open>presets.rs\<close>, \<open>copy_ring/handle.rs\<close>, \<open>copy_ring/mod.rs\<close>): the raw rings, the presets, and
    the split producer and consumer that share one engine by reference counts, as a step relation of calls and drops. Over
    the locale \<open>shared_engine\<close>, which both rings provide, every accepted value is delivered, queued or released, once.
  \<^item> \<open>Seq_Lock\<close> (\<open>seqlock/src/raw/seqlock.rs\<close>): writer and reader interleaved, the value copied in chunks. A load that
    returns gives the value of the latest completed store; stores and undisturbed loads end.
  \<^item> \<open>Seq_Lock_Weak\<close>: the same lock on a weak memory with the orderings of the source, on x86-64 and on arm64. Loads return
    whole stored values on x86-64; on arm64 a fence is missing and they can return mixtures, and with the fence they cannot.
  \<^item> \<open>Registry\<close> (\<open>registry/src\<close>): records, bindings and four indices with every operation and error. In any history
    that never puts a token in two places, keys and symbols resolve exactly to their records, and a token to the
    instrument that a binding call bound it to; windows that come with an insertion are kept in the record but not indexed.
  \<^item> \<open>Decoder_Core\<close>, \<open>Polymarket_Decoder\<close>, \<open>Binance_Decoder\<close> (\<open>polymarket/src/market/decoder.rs\<close>, \<open>binance/src/decoder.rs\<close> and their
    schemas): what is emitted for every message, event by event, and that every byte string is survived.
  \<^item> \<open>Feed_Callback\<close> (\<open>binance/src/spawn.rs\<close>, \<open>polymarket/src/market/spawn.rs\<close>): what the callback needs of a decoder is the
    locale \<open>feed_decoder\<close>, provided by both; with \<open>bounded_queue\<close> it gives \<open>feed_pipeline\<close>, whose lemmas say what the consumer sees.
  \<^item> \<open>Feed_Loop\<close>, \<open>Web_Socket\<close>, \<open>Timer_Thread\<close>, \<open>Feed_Monitor\<close> (\<open>transport/src/feed.rs\<close>, \<open>ws.rs\<close>, \<open>timer.rs\<close>, \<open>monitor.rs\<close> and the two
    feed configurations): the connection loop as a step relation with its counters, the reconnection delay, the
    sleep with its termination and, under bounded delays, its timeliness, the dialogue of a connection with an arbitrary
    socket (heartbeats, pongs, failed sends and reads) and what the feed gets of it, the timer's schedule in closed form, and the monitor against the history of counter values.
  \<^item> \<open>Thread_Handles\<close> (\<open>feed.rs\<close>, \<open>timer.rs\<close>): spawning, the shared cells, shutdown, join and drop of the handles, interleaved with
    a thread that meets the locale \<open>stoppable\<close>; the feed and the timer thread do. After the signal at most one more
    event is handled, and the handle's counters are those of the thread.
  \<^item> \<open>Tuning\<close> (\<open>tuning.rs\<close>): which core a thread is pinned to, and the value of the busy-poll option.
  \<^item> \<open>Messages\<close>: the texts of the errors and of the small types; errors of different meaning have different texts.
  \<^item> \<open>Feed_System\<close> (the two \<open>spawn\<close> functions): a spawned feed, its ring and a consumer with the engine, in any
    interleaving. A run is a run of the pipeline, so everything from the socket to the books is one theorem.
  \<^item> \<open>Position\<close>, \<open>Order_Tracker\<close>, \<open>Exposure\<close>, \<open>Queue_Estimator\<close>, \<open>Strategy_Types\<close> (\<open>strategy/src\<close>): accounting of fills against cash,
    the slots and counters of open orders against the messages of the history, the worst case of a position, and the
    quantity ahead of an order: never above what it joined behind less the trades, and not below that less the
    cancellations while the level is never smaller than the estimate.
  \<^item> \<open>Constant_Time\<close>, \<open>Limbs\<close>, \<open>Bithacks\<close>, \<open>Float64\<close> (\<open>platform/src\<close>): branch-free comparison, selection and division, carry
    chains and multi-word products, powers of two; and the arithmetic of \<open>f64\<close> the other theories use.
  \<^item> \<open>Metering\<close>, \<open>Platform\<close> (\<open>platform/src/metering\<close>, \<open>isa_x86\<close>, \<open>isa_arm64/counters.rs\<close>, \<open>compiler_hints.rs\<close>, \<open>layout/src/lib.rs\<close>): clocks and
    hardware counters over the values the hardware and the kernel return, as intervals of the locale \<open>interval_clock\<close>;
    the reading of \<open>cpuid\<close>, the addresses of a prefetch, cache-line counts.
  \<^item> \<open>Bench_Samples\<close> (\<open>bench/src/measurement.rs\<close>, \<open>bench_runner.rs\<close>, \<open>report.rs\<close>): the collected samples, means per operation and report rows, for
    any number of samples: which values are divided by which iteration counts.
  \<^item> \<open>Raw_Bench\<close> (\<open>benchmarks/rust/src/raw_bench.rs\<close>, under \<open>src\<close>): the latency benchmark, its stand-alone ring and its two threads in any
    interleaving, over the locale \<open>bench_queue\<close> which all its rings provide: each message is stamped and counted once, the
    result is the sum of the delays, and every fair schedule ends.
  \<^item> \<open>Verify_Spsc\<close>, \<open>Verify_Props\<close> (\<open>verify/src\<close>): the repository's own proof harnesses, property tests and differential tests as
    functions of the inputs the tools choose; none of their assertions can fail, on any input of any length.
  \<^item> This theory: what spans components, from the bytes of a message to the levels of a book.

  Bounds and fuel. Precision \<open>D\<close> is at most 18, as the source asserts. Loops are recursion over their data; the drop
  loop of the ring has fuel, and the capacity is enough; the sleep is a total function by a measure. Sequence
  counters are followed up to \<open>2 ^ 64\<close> events, the feed's attempt counter up to \<open>2 ^ 32\<close> outside events. Profit and loss is
  exact inside the stated bounds on prices and lots; the queue estimate is followed for sizes up to \<open>2 ^ 53\<close>, which
  \<open>f64\<close> holds exactly.

  Not modelled. The copy ring runs on a sequentially consistent memory: that its orderings suffice is trusted (for the
  SPSC ring it is proved, for the sequence lock it is decided per architecture). What an instruction, a system
  call or a third-party crate returns is an argument: assembly, CPU pinning, socket options, TLS, JSON, the clock. Logging, files, the formatting of reports, memory layout
  assertions and derived \<open>Debug\<close> texts are input and output. The register names of the two assembler modules and the SIMD
  modules hold no code that runs. The \<open>Strategy\<close> trait has no implementation in the repository, and nothing there checks
  the risk limits. The benchmark programs of the crate \<open>bench\<close> and two test files of
  the crate \<open>verify\<close> (imbalance, decoders) only exercise the other crates.

  Deviations the proofs showed. \<open>checked_div_int\<close> panics on one pair; a snapshot of Polymarket reaches the book
  with its last level only; a token bound twice is lost, and the tokens of an insertion are not indexed; late venue answers miscount open orders; an
  overflowing notional counts as none; the reconnection delay can exceed its maximum; values of 9 to 15 bytes are sent
  to a copy kernel that is too long for them; a time-stamp interval is too short once a product saturates; a
  sample that is extra or has no hardware counters shifts the means of a benchmark; the feed handle's drop counter is always zero; the sequence
  lock lacks a fence on arm64. Each has its theorem. Two more are seen from hypotheses that the theorems need: the micro
  price overflows for large quantities, and the queue estimate is never clamped to the size of its level.
\<close>

section \<open>From the exchange message to the book\<close>

lemma ledger_events_append:
  "ledger_events grid iid (es @ fs) L = ledger_events grid iid fs (ledger_events grid iid es L)"
  by (simp add: ledger_events_def)

definition put_level :: "(Ticks \<Rightarrow> bool) \<Rightarrow> BookDeltaPayload \<Rightarrow> ledger \<Rightarrow> ledger" where
  "put_level grid d L = (if grid (bd_price d) then ledger_set L (bd_side d) (bd_price d) (bd_qty d) else L)"

lemma ledger_number_events:
  "ps \<noteq> [] \<Longrightarrow> ledger_events grid iid (number_events ts seq iid src ps) L = put_level grid (last ps) (\<lambda>_ _. 0)"
  by (induction ps rule: rev_induct)
    (simp_all add: number_events_append ledger_events_append, simp_all add: ledger_events_def ledger_event_def
      event_book_delta_def event_header_def put_level_def flags_contains_iff_bits)

lemma ledger_add_flags:
  "flags_contains (hdr_flags (ev_header e)) IS_SNAPSHOT \<Longrightarrow>
   ledger_event grid iid (add_flags f e) L = ledger_event grid iid e L"
  by (simp add: ledger_event_def add_flags_def snapshot_bit flags_bitor_def bit_or_iff)

lemma number_events_snapshot:
  "e \<in> set (number_events ts seq iid src ps) \<Longrightarrow> flags_contains (hdr_flags (ev_header e)) IS_SNAPSHOT \<and>
    (\<exists>p \<in> set ps. ev_body e = BookDelta p)"
  by (induction ps arbitrary: seq) (auto simp: event_book_delta_def event_header_def flags_contains_iff_bits)

lemma ledger_mark_last:
  assumes "es \<noteq> []" "flags_contains (hdr_flags (ev_header (last es))) IS_SNAPSHOT"
  shows "ledger_events grid iid (mark_last es) L = ledger_events grid iid es L"
proof -
  from assms(1) obtain fs e where "es = fs @ [e]" by (cases es rule: rev_cases) auto
  with assms(2) show ?thesis by (simp add: mark_last_def ledger_events_def ledger_add_flags)
qed

lemma mark_last_bounded: "list_all event_bounded es \<Longrightarrow> list_all event_bounded (mark_last es)"
  by (cases es rule: rev_cases) (simp_all add: mark_last_def add_flags_def event_bounded_def)

text \<open>C14. A Polymarket snapshot does not reach the book: only its last level does. The decoder sets the
  snapshot flag on every level of a book message, and the engine clears the book at every event with that
  flag, so after the events of one snapshot of any number of levels have been processed the book of the
  instrument holds the last emitted level (the last ask, when there is one) and nothing else. Both
  components do what they say for themselves; the engine expects the flag on the first level only.\<close>

theorem polymarket_snapshot_keeps_last_level:
  assumes "D \<le> 18" "length out = 64" "pj_book pj buf = Some msg"
    and "polymarket_resolve (pb_asset_id msg) self = Some (iid, m)" "meta_wf m"
    and "unat (pd_seq self) + 64 < 2 ^ 64" "ps = snapshot_payloads D m msg" "ps \<noteq> []"
    and "list_all (\<lambda>p. sint (bd_qty p) \<le> 2 ^ 46) ps"
    and "N \<le> 65536" "engine_new (array_book_ops N) max_n n timeout = Some e0" "0 < unat iid" "unat iid \<le> n"
  shows "\<exists>self' out' e b. decode_book pj oc D buf ts out self = Some (length ps, self', out') \<and>
    engine_run (array_book_ops N) oc (take (length ps) out') e0 = Some e \<and>
    engine_book iid e = Some (Some b) \<and> array_qty b = put_level (array_grid N) (last ps) (\<lambda>_ _. 0)"
proof -
  define es where "es = number_events ts (pd_seq self) iid (pd_source_id self) ps"
  have es: "length es = length ps" "es \<noteq> []" using assms(8) by (cases ps; simp add: es_def)+
  have dec: "decode_book pj oc D buf ts out self = Some (length ps,
      self\<lparr> pd_seq := pd_seq self + word_of_nat (length ps) \<rparr>, mark_last es @ drop (length ps) out)"
    unfolding es_def by (rule decode_book_emits [OF assms(1-7)])
  have "length (mark_last es) = length ps" using es by (cases es rule: rev_cases) (auto simp: mark_last_def)
  then have emitted: "take (length ps) (mark_last es @ drop (length ps) out) = mark_last es" by simp
  have bounded: "list_all event_bounded es"
    using assms(9) by (auto simp: list_all_iff es_def event_bounded_def dest!: number_events_snapshot)
  obtain e where run: "engine_run (array_book_ops N) oc (mark_last es) e0 = Some e"
    and books: "\<forall>i. 0 < unat i \<and> unat i \<le> n \<longrightarrow> (\<exists>b. engine_book i e = Some (Some b) \<and>
            array_qty b = ledger_events (array_grid N) i (mark_last es) (\<lambda>_ _. 0))"
    using engine_run_books [OF assms(10,11) mark_last_bounded [OF bounded], of oc] unfolding book_describes_def by blast
  have "flags_contains (hdr_flags (ev_header (last es))) IS_SNAPSHOT"
    using last_in_set [OF es(2)] unfolding es_def by (rule number_events_snapshot [THEN conjunct1])
  then have ledger: "ledger_events (array_grid N) iid (mark_last es) (\<lambda>_ _. 0) = put_level (array_grid N) (last ps) (\<lambda>_ _. 0)"
    using ledger_mark_last [OF es(2)] ledger_number_events [OF assms(8)] by (simp add: es_def)
  from books assms(12,13) obtain b where "engine_book iid e = Some (Some b)"
    "array_qty b = put_level (array_grid N) (last ps) (\<lambda>_ _. 0)" unfolding ledger [symmetric] by blast
  then show ?thesis using dec run emitted by metis
qed

theorem polymarket_snapshot_keeps_last_level_witness:
  "\<exists>self' out' e0 e b. engine_new (array_book_ops 100) 1 1 0 = Some e0 \<and>
    decode_book sample_json True 6 [] 5 sample_out sample_decoder = Some (2, self', out') \<and>
    engine_run (array_book_ops 100) True (take 2 out') e0 = Some e \<and> engine_book 1 e = Some (Some b) \<and>
    array_qty b Bid 50 = 0 \<and> array_qty b Ask 60 = 200"
proof -
  let ?msg = "the (pj_book sample_json [])"
  obtain e0 where e0: "engine_new (array_book_ops 100) 1 1 0 = Some e0" by (simp add: engine_new_def)
  have 1: "pj_book sample_json [] = Some ?msg" by (simp add: sample_json_def)
  have 2: "polymarket_resolve (pb_asset_id ?msg) sample_decoder = Some (1, sample_meta)"
    using sample_resolve by (simp add: sample_json_def)
  have 3: "length sample_out = 64" "unat (pd_seq sample_decoder) + 64 < 2 ^ 64"
    by (simp_all add: sample_out_def sample_decoder_def polymarket_decoder_new_def)
  have 4: "snapshot_payloads 6 sample_meta ?msg \<noteq> []" "length (snapshot_payloads 6 sample_meta ?msg) = 2"
    "list_all (\<lambda>p. sint (bd_qty p) \<le> 2 ^ 46) (snapshot_payloads 6 sample_meta ?msg)"
    by (simp_all add: sample_payloads sint_numeral_i64)
  have 5: "put_level (array_grid 100) (last (snapshot_payloads 6 sample_meta ?msg)) (\<lambda>_ _. 0) =
      ledger_set (\<lambda>_ _. 0) Ask 60 200"
    by (simp add: sample_payloads put_level_def array_grid_def sint_numeral_i64)
  from polymarket_snapshot_keeps_last_level
    [OF _ 3(1) 1 2 sample_meta_wf 3(2) refl 4(1,3) _ e0, of True 5, unfolded 4(2) 5]
  obtain self' out' e b where "decode_book sample_json True 6 [] 5 sample_out sample_decoder = Some (2, self', out')"
    "engine_run (array_book_ops 100) True (take 2 out') e0 = Some e" "engine_book 1 e = Some (Some b)"
    "array_qty b = ledger_set (\<lambda>_ _. 0) Ask 60 200" by auto
  with e0 show ?thesis by (auto simp: ledger_set_def)
qed

text \<open>C13. A Binance ticker reaches the book. When a ticker of a mapped symbol is decoded and the event it
  gives is processed by an engine in any state that meets its invariant, both steps succeed and the book of the
  symbol's instrument then holds on each side the ticker's best level, in ticks and lots truncated from the decimal
  strings of the message, when its price is one of the \<open>N\<close> ticks of the array book, and nothing otherwise: a side
  whose price is off that grid is left empty, and so is every other level. The books of the other
  instruments are unchanged. In a build with overflow checks the quantities of the ticker and of the books are at most
  \<open>2 ^ 46\<close> lots; without the checks they may be anything.\<close>

theorem binance_ticker_reaches_book:
  assumes "D \<le> 18" "binance_new src ms = Inr d0" "list_all (\<lambda>m. meta_wf (bm_meta m)) ms"
    and "self = d0\<lparr> bd_seq := seq, bd_combined_stream := comb \<rparr>" "unat seq < 2 ^ 64 - 1" "out \<noteq> []"
    and "Some t = (if comb then map_option bc_data (bj_combined bj buf) else bj_ticker bj buf)"
    and "find (\<lambda>m. bm_symbol m = bt_s t) ms = Some m" "ticker_value D t (bm_meta m) = Some p"
    and "N \<le> 65536" "engine_ok (array_inv N) e" "addressed e (bm_instrument_id m)"
    and "oc \<Longrightarrow> engine_bounded array_qty e \<and> sint (tob_bid_qty p) \<le> 2 ^ 46 \<and> sint (tob_ask_qty p) \<le> 2 ^ 46"
  shows "\<exists>self' out' e'. binance_decode bj oc D buf ts out self = Some (1, self', out') \<and>
    engine_process (array_book_ops N) oc (out' ! 0) e = Some e' \<and>
    (\<forall>price. ledger_of array_qty e' (bm_instrument_id m) Bid price =
       (if price = tob_bid_price p \<and> array_grid N price then tob_bid_qty p else 0)) \<and>
    (\<forall>price. ledger_of array_qty e' (bm_instrument_id m) Ask price =
       (if price = tob_ask_price p \<and> array_grid N price then tob_ask_qty p else 0)) \<and>
    (\<forall>i. addressed e i \<longrightarrow> i \<noteq> bm_instrument_id m \<longrightarrow> ledger_of array_qty e' i = ledger_of array_qty e i)"
proof -
  let ?ev = "event_top_of_book ts (seq + 1) (bm_instrument_id m) src flags_EMPTY p"
  have dec: "binance_decode bj oc D buf ts out self = Some (1, self\<lparr> bd_seq := seq + 1 \<rparr>, out[0 := ?ev])"
    using binance_decode_by_table [OF assms(1-7)] assms(8,9) by simp
  have "engine_bounded array_qty e \<and> event_bounded ?ev" if oc
    using assms(13) [OF that] by (simp add: event_bounded_def event_top_of_book_def)
  from array_engine(1) [OF assms(10,11) this] obtain e' where
    "engine_process (array_book_ops N) oc ?ev e = Some e'"
    "\<forall>i. addressed e i \<longrightarrow> ledger_of array_qty e' i = ledger_event (array_grid N) i ?ev (ledger_of array_qty e i)"
    by blast
  then show ?thesis
    using dec assms(6,12)
    by (auto simp: ledger_event_def event_top_of_book_def event_header_def ledger_set_def Let_def)
qed

theorem binance_ticker_reaches_book_witness:
  "\<exists>e0 self' out' e. engine_new (array_book_ops 55) 2 2 0 = Some e0 \<and>
    binance_decode sample_parser True 6 [] 5 [event_heartbeat 0 0 7 flags_EMPTY \<lparr> hb_counter = 0 \<rparr>]
      (sample_table\<lparr> bd_seq := 41, bd_combined_stream := True \<rparr>) = Some (1, self', out') \<and>
    engine_process (array_book_ops 55) True (out' ! 0) e0 = Some e \<and>
    ledger_of array_qty e 2 Bid 50 = 100 \<and> ledger_of array_qty e 2 Ask 60 = 0"
proof -
  let ?m = "\<lparr> bm_symbol = [66, 84], bm_instrument_id = 2, bm_meta = sample_meta \<rparr>"
    and ?p = "\<lparr> tob_bid_price = 50, tob_bid_qty = 100, tob_ask_price = 60, tob_ask_qty = 200 \<rparr>"
    and ?out = "[event_heartbeat 0 0 7 flags_EMPTY \<lparr> hb_counter = 0 \<rparr>]"
  have N: "(55 :: nat) \<le> 65536" by simp
  obtain e0 where e0: "engine_new (array_book_ops 55) 2 2 0 = Some e0" by (simp add: engine_new_def)
  have ok: "engine_ok (array_inv 55) e0" "engine_bounded array_qty e0" "addressed e0 2"
    using array_engine(3,4,5) [OF N e0] by (simp_all add: addressed_def)
  have 1: "list_all (\<lambda>m. meta_wf (bm_meta m)) sample_mappings" by (simp add: sample_mappings_def sample_meta_wf)
  have 2: "find (\<lambda>m. bm_symbol m = bt_s sample_ticker) sample_mappings = Some ?m"
    by (simp add: sample_mappings_def sample_ticker_def)
  have 3: "Some sample_ticker = (if True then map_option bc_data (bj_combined sample_parser []) else bj_ticker sample_parser [])"
    by (simp add: sample_parser_def)
  have "array_grid 55 50" "\<not> array_grid 55 60" by (simp_all add: array_grid_def sint_numeral_i64)
  then have "\<exists>self' out' e. binance_decode sample_parser True 6 [] 5 ?out
        (sample_table\<lparr> bd_seq := 41, bd_combined_stream := True \<rparr>) = Some (1, self', out') \<and>
      engine_process (array_book_ops 55) True (out' ! 0) e0 = Some e \<and>
      ledger_of array_qty e 2 Bid 50 = 100 \<and> ledger_of array_qty e 2 Ask 60 = 0"
    using binance_ticker_reaches_book [OF _ sample_table_new 1 refl _ _ 3 2 _ N ok(1), of 6 41 ?out ?p True 5] ok(2,3)
    by (auto simp: sample_ticker_value sint_numeral_i64)
  with e0 show ?thesis by blast
qed

end
